(* ===== verification/Prelude.thy ===== *)
theory Prelude
  imports Main "HOL-Library.Word" "HOL-Library.Monad_Syntax"
begin

section \<open>Prelude: Go values, slices and panics\<close>

text \<open>
  The types and generic lemmas the component theories share.

  \<^item> Go's fixed-width integers are words: \<open>byte\<close>, \<open>u16\<close>, \<open>u32\<close>, \<open>u64\<close>; \<open>int16\<close> and
    \<open>int32\<close> are the same words read with \<open>sint\<close>. Indices and lengths (\<open>int\<close>, \<open>uint\<close>)
    are \<open>nat\<close>, or \<open>int\<close> where the code passes or tests negative values; they stay far below
    the 64-bit bound, so their arithmetic does not wrap.
  \<^item> A slice is a list. A \<open>nil\<close> slice and an empty slice are both \<open>[]\<close>: the modelled code
    only looks at lengths. The capacity of a slice is taken to be its length, so slicing beyond
    the length panics.
  \<^item> A run-time panic is \<open>None\<close>: an operation that can panic returns an \<open>option\<close> and is
    written in \<open>do\<close> notation. Go's own error results are values inside the option.
\<close>

type_synonym byte = "8 word"
type_synonym bytes = "8 word list"
type_synonym u16 = "16 word"
type_synonym u32 = "32 word"
type_synonym u64 = "64 word"

text \<open>The bytes of a string literal of the source.\<close>

definition str :: "string \<Rightarrow> bytes" where
  "str s = map of_char s"

named_theorems go_defs \<open>definitions of the slice primitives\<close>
named_theorems go_simps \<open>rewrite rules for slice accesses that do not panic\<close>

subsection \<open>Indexing, slicing and updating\<close>

definition idx :: "'a list \<Rightarrow> nat \<Rightarrow> 'a option" where
  [go_defs]: "idx xs i = (if i < length xs then Some (xs ! i) else None)"

definition upd :: "'a list \<Rightarrow> nat \<Rightarrow> 'a \<Rightarrow> 'a list option" where
  [go_defs]: "upd xs i v = (if i < length xs then Some (xs[i := v]) else None)"

definition subslice :: "'a list \<Rightarrow> nat \<Rightarrow> nat \<Rightarrow> 'a list option" where
  [go_defs]: "subslice xs a b =
     (if a \<le> b \<and> b \<le> length xs then Some (take (b - a) (drop a xs)) else None)"

text \<open>Indexing with an \<open>int\<close>: a negative index panics.\<close>

definition idxi :: "'a list \<Rightarrow> int \<Rightarrow> 'a option" where
  [go_defs]: "idxi xs i = (if 0 \<le> i then idx xs (nat i) else None)"

definition slicei :: "'a list \<Rightarrow> int \<Rightarrow> int \<Rightarrow> 'a list option" where
  [go_defs]: "slicei xs a b = (if 0 \<le> a \<and> 0 \<le> b then subslice xs (nat a) (nat b) else None)"

lemma idx_Some_iff [simp]: "idx xs i = Some v \<longleftrightarrow> i < length xs \<and> xs ! i = v"
  by (auto simp: go_defs)

lemma idx_None_iff [simp]: "idx xs i = None \<longleftrightarrow> length xs \<le> i"
  by (auto simp: go_defs)

lemma idx_in [go_simps]: "i < length xs \<Longrightarrow> idx xs i = Some (xs ! i)"
  by simp

lemma upd_in [go_simps]: "i < length xs \<Longrightarrow> upd xs i v = Some (xs[i := v])"
  by (simp add: go_defs)

lemma subslice_in [go_simps]:
  "a \<le> b \<Longrightarrow> b \<le> length xs \<Longrightarrow> subslice xs a b = Some (take (b - a) (drop a xs))"
  by (simp add: go_defs)

lemma subslice_Some_length: "subslice xs a b = Some ys \<Longrightarrow> length ys = b - a \<and> b \<le> length xs"
  by (auto simp: go_defs split: if_splits)

lemma idx_append_left [simp]: "i < length xs \<Longrightarrow> idx (xs @ ys) i = idx xs i"
  by (simp add: go_defs nth_append)

lemma idx_append_right: "length xs \<le> i \<Longrightarrow> idx (xs @ ys) i = idx ys (i - length xs)"
  by (auto simp: go_defs nth_append)

lemma upd_append_right:
  "length xs \<le> i \<Longrightarrow> upd (xs @ ys) i v = map_option ((@) xs) (upd ys (i - length xs) v)"
  by (auto simp: go_defs list_update_append)

lemma subslice_append_mid:
  "subslice (xs @ ys @ zs) (length xs) (length xs + length ys) = Some ys"
  by (simp add: go_defs)

lemma idxi_last [go_simps]:
  assumes "xs \<noteq> []"
  shows "idxi xs (int (length xs) - 1) = Some (last xs)"
proof -
  have "nat (int (length xs) - 1) = length xs - 1" by (simp add: nat_diff_distrib')
  then show ?thesis using assms by (cases xs) (simp_all add: idxi_def idx_def last_conv_nth)
qed

text \<open>A window of a list, for writes in the middle of a packet.\<close>

lemma window_ex:
  assumes "x + k \<le> length xs"
  obtains as ms bs where "xs = as @ ms @ bs" "length as = x" "length ms = k"
proof
  show "xs = take x xs @ take k (drop x xs) @ drop (x + k) xs"
    by (metis append_take_drop_id drop_drop add.commute)
  show "length (take x xs) = x" "length (take k (drop x xs)) = k" using assms by auto
qed

subsection \<open>Wrap-around of \<open>int\<close>\<close>

text \<open>Go's \<open>int\<close> is a 64-bit two's complement integer: sums wrap.\<close>

definition wrap64 :: "int \<Rightarrow> int" where
  "wrap64 x = (x + 2 ^ 63) mod 2 ^ 64 - 2 ^ 63"

lemma wrap64_id [simp]: "- (2 ^ 63) \<le> x \<Longrightarrow> x < 2 ^ 63 \<Longrightarrow> wrap64 x = x"
  by (simp add: wrap64_def)

lemma wrap64_bounds: "- (2 ^ 63) \<le> wrap64 x \<and> wrap64 x < 2 ^ 63"
  by (auto simp: wrap64_def)

lemma wrap64_add: "wrap64 (wrap64 a + b) = wrap64 (a + b)"
  by (simp add: wrap64_def mod_simps algebra_simps)

subsection \<open>Words\<close>

lemma unat_byte_less: "unat (b :: byte) < 256"
  using unsigned_less [of b, where 'a = nat] by simp

lemma unat_u16_less: "unat (b :: u16) < 65536"
  using unsigned_less [of b, where 'a = nat] by simp

text \<open>Widening keeps the value; narrowing a numeral conversion is the conversion.\<close>

lemma unat_ucast_byte_u64 [simp]: "unat (ucast (x :: byte) :: u64) = unat x"
  using unat_byte_less [of x] by (simp add: unsigned_ucast_eq take_bit_nat_eq_self_iff)

lemma unat_ucast_u16_u64 [simp]: "unat (ucast (x :: u16) :: u64) = unat x"
  using unat_u16_less [of x] by (simp add: unsigned_ucast_eq take_bit_nat_eq_self_iff)

lemma ucast_of_nat_u64_byte [simp]: "ucast (of_nat n :: u64) = (of_nat n :: byte)"
  by (rule bit_word_eqI) (auto simp: bit_simps)

subsection \<open>The option monad\<close>

lemmas bind_Some_conv = bind_eq_Some_conv

lemma bind_cong_Some: "(\<And>a. x = Some a \<Longrightarrow> f a = g a) \<Longrightarrow> Option.bind x f = Option.bind x g"
  by (cases x) auto

end
