(* ===== verification/Ascii.thy ===== *)
theory Ascii
  imports Prelude
begin

section \<open>Package lib/ascii\<close>

text \<open>
  Character classes and case conversion on bytes (\<open>src/lib/ascii/ascii.go\<close>). Character
  literals of the source are the byte values they denote. \<open>Random\<close> takes the values that
  \<open>rand.Intn\<close> returns as an argument.
\<close>

subsection \<open>Character classes\<close>

definition IsAlpha :: "byte \<Rightarrow> bool" where
  "IsAlpha b \<longleftrightarrow> (b \<ge> 97 \<and> b \<le> 122) \<or> (b \<ge> 65 \<and> b \<le> 90)"

definition IsDigit :: "byte \<Rightarrow> bool" where
  "IsDigit b \<longleftrightarrow> b \<ge> 48 \<and> b \<le> 57"

definition IsAlnum :: "byte \<Rightarrow> bool" where
  "IsAlnum b \<longleftrightarrow> IsAlpha b \<or> IsDigit b"

fun IsDigits :: "bytes \<Rightarrow> bool" where
  "IsDigits [] = True"
| "IsDigits (b # bs) = (if \<not> IsDigit b then False else IsDigits bs)"

definition IsHex :: "byte \<Rightarrow> bool" where
  "IsHex b \<longleftrightarrow> (b \<ge> 49 \<and> b \<le> 57) \<or> (b \<ge> 97 \<and> b \<le> 102) \<or> (b \<ge> 65 \<and> b \<le> 70)"

definition IsSpace :: "byte \<Rightarrow> bool" where
  "IsSpace b \<longleftrightarrow> b = 9 \<or> b = 10 \<or> b = 11 \<or> b = 12 \<or> b = 13 \<or> b = 32"

definition Spaces :: bytes where
  "Spaces = [9, 10, 11, 12, 13, 32]"

subsection \<open>Random, ToLower, ToUpper\<close>

text \<open>\<open>rs\<close> are the values drawn by \<open>rand.Intn(len(source))\<close>, one per output byte.\<close>

fun Random :: "bytes \<Rightarrow> nat list \<Rightarrow> bytes option" where
  "Random source [] = Some []"
| "Random source (r # rs) =
     do { c \<leftarrow> idx source r; cs \<leftarrow> Random source rs; Some (c # cs) }"

fun ToLower :: "bytes \<Rightarrow> bytes" where
  "ToLower [] = []"
| "ToLower (b # bs) = (if b < 65 \<or> b > 90 then b else b + 32) # ToLower bs"

fun ToUpper :: "bytes \<Rightarrow> bytes" where
  "ToUpper [] = []"
| "ToUpper (b # bs) = (if b < 97 \<or> b > 122 then b else b - 32) # ToUpper bs"

subsection \<open>Properties\<close>

lemma IsDigits_iff: "IsDigits bs \<longleftrightarrow> (\<forall>b \<in> set bs. IsDigit b)"
  by (induction bs) auto

lemma IsSpace_iff: "IsSpace b \<longleftrightarrow> b \<in> set Spaces"
  by (simp add: IsSpace_def Spaces_def)

lemma length_ToLower [simp]: "length (ToLower bs) = length bs"
  by (induction bs) auto

lemma length_ToUpper [simp]: "length (ToUpper bs) = length bs"
  by (induction bs) auto

lemma ToLower_append [simp]: "ToLower (xs @ ys) = ToLower xs @ ToLower ys"
  by (induction xs) auto

abbreviation is_upper :: "byte \<Rightarrow> bool" where
  "is_upper b \<equiv> 65 \<le> b \<and> b \<le> 90"

text \<open>A byte that is not an upper-case letter is left alone; an upper-case letter moves out of
  the upper-case range, with no wrap-around.\<close>

lemma upper_lower_byte: "is_upper (b :: byte) \<Longrightarrow> 97 \<le> b + 32 \<and> b + 32 \<le> 122"
  by (simp add: word_le_nat_alt unat_word_ariths)

lemma lower_byte_not_upper: "is_upper b \<Longrightarrow> 90 < (b + 32 :: byte)"
  by (simp add: word_le_nat_alt word_less_nat_alt unat_word_ariths)

lemma ToLower_no_upper: "\<forall>b \<in> set (ToLower bs). \<not> is_upper b"
  by (induction bs) (auto simp: not_less not_le lower_byte_not_upper)

lemma ToLower_fixed: "\<forall>b \<in> set bs. \<not> is_upper b \<Longrightarrow> ToLower bs = bs"
  by (induction bs) (auto simp: not_le)

lemma ToLower_idem [simp]: "ToLower (ToLower bs) = ToLower bs"
  by (rule ToLower_fixed [OF ToLower_no_upper])

lemma ToUpper_ToLower: "\<forall>b \<in> set bs. \<not> (97 \<le> b \<and> b \<le> 122) \<Longrightarrow> ToUpper (ToLower bs) = bs"
proof (induction bs)
  case (Cons b bs)
  show ?case
  proof (cases "b < 65 \<or> b > 90")
    case True
    with Cons show ?thesis by (auto simp: not_less not_le)
  next
    case False
    then have "97 \<le> b + 32 \<and> b + 32 \<le> 122" using upper_lower_byte [of b] by (simp add: not_less)
    with False Cons show ?thesis by (auto simp: not_less)
  qed
qed simp

end
