(* ===== verification/Bytes.thy ===== *)
theory Bytes
  imports Prelude
begin

unbundle bit_operations_syntax

section \<open>Package lib/bytes\<close>

text \<open>
  The byte-slice library (\<open>src/lib/bytes/bytes.go\<close>): big-endian integers, token search, escaped
  cutting, enclosing and hexadecimal digits. \<open>int16\<close> and \<open>int32\<close> are words; their right shift
  is the arithmetic one. A function that reads out of range returns \<open>None\<close> (a panic).
  \<open>PrintHex\<close> only prints and is not modelled.
\<close>

subsection \<open>Appending, reading and writing integers\<close>

definition AppendInt16 :: "bytes \<Rightarrow> u16 \<Rightarrow> bytes" where
  "AppendInt16 data v = data @ [ucast (signed_drop_bit 8 v)] @ [ucast v]"

definition AppendInt32 :: "bytes \<Rightarrow> u32 \<Rightarrow> bytes" where
  "AppendInt32 data v =
     data @ [ucast (signed_drop_bit 24 v)] @ [ucast (signed_drop_bit 16 v)] @
     [ucast (signed_drop_bit 8 v)] @ [ucast v]"

definition AppendUint16 :: "bytes \<Rightarrow> u16 \<Rightarrow> bytes" where
  "AppendUint16 data v = data @ [ucast (drop_bit 8 v)] @ [ucast v]"

definition AppendUint32 :: "bytes \<Rightarrow> u32 \<Rightarrow> bytes" where
  "AppendUint32 data v =
     data @ [ucast (drop_bit 24 v)] @ [ucast (drop_bit 16 v)] @ [ucast (drop_bit 8 v)] @ [ucast v]"

definition ReadInt16 :: "bytes \<Rightarrow> nat \<Rightarrow> u16 option" where
  "ReadInt16 data x =
     do { a \<leftarrow> idx data x; b \<leftarrow> idx data (x + 1); Some (push_bit 8 (ucast a) OR ucast b) }"

definition ReadInt32 :: "bytes \<Rightarrow> nat \<Rightarrow> u32 option" where
  "ReadInt32 data x =
     do { a \<leftarrow> idx data x; b \<leftarrow> idx data (x + 1); c \<leftarrow> idx data (x + 2); d \<leftarrow> idx data (x + 3);
          Some (push_bit 24 (ucast a) OR push_bit 16 (ucast b) OR push_bit 8 (ucast c) OR ucast d) }"

definition ReadUint16 :: "bytes \<Rightarrow> nat \<Rightarrow> u16 option" where
  "ReadUint16 data x =
     do { a \<leftarrow> idx data x; b \<leftarrow> idx data (x + 1); Some (push_bit 8 (ucast a) OR ucast b) }"

definition ReadUint32 :: "bytes \<Rightarrow> nat \<Rightarrow> u32 option" where
  "ReadUint32 data x =
     do { a \<leftarrow> idx data x; b \<leftarrow> idx data (x + 1); c \<leftarrow> idx data (x + 2); d \<leftarrow> idx data (x + 3);
          Some (push_bit 24 (ucast a) OR push_bit 16 (ucast b) OR push_bit 8 (ucast c) OR ucast d) }"

definition WriteUint16 :: "bytes \<Rightarrow> nat \<Rightarrow> u16 \<Rightarrow> bytes option" where
  "WriteUint16 data x v =
     do { data \<leftarrow> upd data x (ucast (drop_bit 8 v)); upd data (x + 1) (ucast v) }"

definition WriteUint32 :: "bytes \<Rightarrow> nat \<Rightarrow> u32 \<Rightarrow> bytes option" where
  "WriteUint32 data x v =
     do { data \<leftarrow> upd data x (ucast (drop_bit 24 v));
          data \<leftarrow> upd data (x + 1) (ucast (drop_bit 16 v));
          data \<leftarrow> upd data (x + 2) (ucast (drop_bit 8 v));
          upd data (x + 3) (ucast v) }"

subsection \<open>Concat and Copy\<close>

text \<open>
  The dynamic type of an \<open>interface{}\<close> argument, as \<open>reflect\<close> reports it: a string, a slice of
  bytes, a slice of something else, or any other kind.
\<close>

datatype concat_arg = ArgString bytes | ArgBytes bytes | ArgOtherSlice | ArgOther

fun Concat_arg :: "bytes \<Rightarrow> concat_arg \<Rightarrow> bytes" where
  "Concat_arg out (ArgString s) = out @ s"
| "Concat_arg out (ArgBytes b) = (if length b = 0 then out else out @ b)"
| "Concat_arg out ArgOtherSlice = out"
| "Concat_arg out ArgOther = out"

definition Concat :: "bytes \<Rightarrow> concat_arg list \<Rightarrow> bytes" where
  "Concat sb args = foldl Concat_arg (if length sb > 0 then sb else []) args"

definition Copy :: "bytes \<Rightarrow> bytes" where
  "Copy src = (if length src = 0 then [] else map (\<lambda>i. src ! i) [0..<length src])"

subsection \<open>Tokens\<close>

lemma skip_token_less [termination_simp]:
  "token \<noteq> [] \<Longrightarrow> p < n \<Longrightarrow> n - (p + length token) < n - p"
  by (cases token) auto

fun IsTokenAt_loop :: "bytes \<Rightarrow> bytes \<Rightarrow> bool" where
  "IsTokenAt_loop line [] = True"
| "IsTokenAt_loop [] (t # ts) = False"
| "IsTokenAt_loop (c # line) (t # ts) = (if c \<noteq> t then False else IsTokenAt_loop line ts)"

definition IsTokenAt :: "bytes \<Rightarrow> bytes \<Rightarrow> int \<Rightarrow> bool" where
  "IsTokenAt line token p =
     (let linelen = length line; tokenlen = length token in
      if tokenlen = 0 then False
      else let p = (if p < 0 then 0 else nat p) in
        if p + tokenlen > linelen then False
        else IsTokenAt_loop (drop p line) token)"

function CutUntilToken_loop ::
  "bytes \<Rightarrow> bytes \<Rightarrow> bool \<Rightarrow> nat \<Rightarrow> bytes \<Rightarrow> bool \<Rightarrow> bytes \<times> nat \<times> bool" where
  "CutUntilToken_loop line token checkEsc p v escaped =
     (if p < length line \<and> token \<noteq> [] then
        (if checkEsc \<and> line ! p = 92 then
           (if escaped then CutUntilToken_loop line token checkEsc (p + 1) (v @ [92]) False
            else CutUntilToken_loop line token checkEsc (p + 1) v True)
         else if line ! p \<noteq> hd token then
           CutUntilToken_loop line token checkEsc (p + 1)
             ((if escaped then v @ [92] else v) @ [line ! p]) False
         else if \<not> IsTokenAt line token (int p) then
           CutUntilToken_loop line token checkEsc (p + 1)
             ((if escaped then v @ [92] else v) @ [line ! p]) False
         else if escaped then
           CutUntilToken_loop line token checkEsc (p + length token) (v @ token) False
         else (v, p + length token, True))
      else (v, p, False))"
  by pat_completeness auto
termination
  by (relation "measure (\<lambda>(line, token, checkEsc, p, v, escaped). length line - p)") (auto simp: skip_token_less)

declare CutUntilToken_loop.simps [simp del]

definition CutUntilToken :: "bytes \<Rightarrow> bytes \<Rightarrow> int \<Rightarrow> bool \<Rightarrow> bytes \<times> int \<times> bool" where
  "CutUntilToken line token startAt checkEsc =
     (if length token = 0 then (line, -1, False)
      else let startAt = (if startAt < 0 then 0 else nat startAt);
               (v, p, found) = CutUntilToken_loop line token checkEsc startAt [] False
           in (v, int p, found))"

text \<open>The scan of \<open>TokenFind\<close>: \<open>y\<close> bytes of the token match, the match began at \<open>at\<close>.\<close>

fun TokenFind_loop :: "bytes \<Rightarrow> bytes \<Rightarrow> nat \<Rightarrow> nat \<Rightarrow> int \<Rightarrow> int" where
  "TokenFind_loop token [] x y at = (if y < length token then -1 else at)"
| "TokenFind_loop token (c # line) x y at =
     (if c = token ! y then
        (let at = (if y = 0 then int x else at) in
         if y + 1 = length token then at
         else TokenFind_loop token line (x + 1) (y + 1) at)
      else if at \<noteq> -1 then TokenFind_loop token line (x + 1) 0 (-1)
      else TokenFind_loop token line (x + 1) y at)"

definition TokenFind :: "bytes \<Rightarrow> bytes \<Rightarrow> int \<Rightarrow> int" where
  "TokenFind line token startat =
     (if length token = 0 then -1
      else let startat = (if startat < 0 then 0 else nat startat)
           in TokenFind_loop token (drop startat line) startat 0 (-1))"

text \<open>\<open>SkipAfterToken\<close> reads \<open>token[0]\<close> without a check, so an empty token panics as soon
  as the scan looks at a byte that is not an escape.\<close>

function SkipAfterToken_loop :: "bytes \<Rightarrow> bytes \<Rightarrow> bool \<Rightarrow> nat \<Rightarrow> bool \<Rightarrow> (nat \<times> bool) option" where
  "SkipAfterToken_loop line token checkEsc p escaped =
     (if p < length line then
        (if checkEsc \<and> line ! p = 92 then SkipAfterToken_loop line token checkEsc (p + 1) True
         else if token = [] then None
         else if line ! p \<noteq> hd token then SkipAfterToken_loop line token checkEsc (p + 1) False
         else if \<not> IsTokenAt line token (int p) then
           SkipAfterToken_loop line token checkEsc (p + 1) False
         else if checkEsc \<and> escaped then SkipAfterToken_loop line token checkEsc (p + 1) False
         else Some (p + length token, True))
      else Some (p, False))"
  by pat_completeness auto
termination
  by (relation "measure (\<lambda>(line, token, checkEsc, p, escaped). length line - p)") auto

declare SkipAfterToken_loop.simps [simp del]

definition SkipAfterToken :: "bytes \<Rightarrow> bytes \<Rightarrow> int \<Rightarrow> bool \<Rightarrow> (int \<times> bool) option" where
  "SkipAfterToken line token startAt checkEsc =
     map_option (\<lambda>(p, ok). (int p, ok))
       (SkipAfterToken_loop line token checkEsc (if startAt < 0 then 0 else nat startAt) False)"

subsection \<open>InReplace, Indexes, SnippetByIndexes and WordIndexes\<close>

definition InReplace :: "bytes \<Rightarrow> bytes \<Rightarrow> byte \<Rightarrow> bytes" where
  "InReplace inp allowed c =
     (if length inp = 0 then []
      else map (\<lambda>b. if list_ex (\<lambda>a. b = a) allowed then b else c) inp)"

text \<open>\<open>bytes.Index\<close> of the standard library: the first index where the separator occurs.\<close>

fun bytes_Index :: "bytes \<Rightarrow> bytes \<Rightarrow> nat option" where
  "bytes_Index [] sep = (if sep = [] then Some 0 else None)"
| "bytes_Index (c # s) sep =
     (if take (length sep) (c # s) = sep then Some 0 else map_option Suc (bytes_Index s sep))"

lemma bytes_Index_Some_less: "bytes_Index s sep = Some i \<Longrightarrow> i + length sep \<le> length s"
proof (induction s arbitrary: i)
  case (Cons c s)
  show ?case
  proof (cases "take (length sep) (c # s) = sep")
    case True
    then have "length sep \<le> length (c # s)" by (metis length_take min.cobounded1)
    with True Cons.prems show ?thesis by simp
  next
    case False
    with Cons show ?thesis by auto
  qed
qed (auto split: if_splits)

function Indexes_loop :: "bytes \<Rightarrow> bytes \<Rightarrow> nat \<Rightarrow> nat list" where
  "Indexes_loop s token offset =
     (if token = [] then []
      else case bytes_Index s token of
        None \<Rightarrow> []
      | Some i \<Rightarrow> (offset + i) # Indexes_loop (drop (i + length token) s) token (offset + (i + length token)))"
  by pat_completeness auto
termination
  by (relation "measure (\<lambda>(s, token, offset). length s)")
     (auto dest: bytes_Index_Some_less simp: Suc_le_eq [symmetric] length_greater_0_conv [symmetric]
       simp del: length_greater_0_conv)

declare Indexes_loop.simps [simp del]

definition Indexes :: "bytes \<Rightarrow> bytes \<Rightarrow> nat list" where
  "Indexes s token = (if length s = 0 \<or> length token = 0 then [] else Indexes_loop s token 0)"

fun SnippetByIndexes :: "bytes \<Rightarrow> int list \<Rightarrow> int \<Rightarrow> bytes list option" where
  "SnippetByIndexes s [] sniplen = Some []"
| "SnippetByIndexes s (i # indexes) sniplen =
     (let start = (if i - sniplen < 0 then 0 else i - sniplen);
          end = (if i + sniplen > int (length s) then int (length s) else i + sniplen)
      in do { snip \<leftarrow> slicei s start end;
              rest \<leftarrow> SnippetByIndexes s indexes sniplen;
              Some (snip # rest) })"

text \<open>\<open>unicode.IsSpace\<close> on a rune below 256.\<close>

definition unicode_IsSpace :: "byte \<Rightarrow> bool" where
  "unicode_IsSpace b \<longleftrightarrow> b \<in> {9, 10, 11, 12, 13, 32, 0x85, 0xA0}"

definition WordIndexes :: "bytes \<Rightarrow> bytes \<Rightarrow> nat list" where
  "WordIndexes s word =
     filter (\<lambda>i. (i = 0 \<or> unicode_IsSpace (s ! (i - 1))) \<and>
                 (i + length word \<ge> length s \<or> unicode_IsSpace (s ! (i + length word))))
       (Indexes s word)"

subsection \<open>ReadHexByte\<close>

definition hex_digit :: "byte \<Rightarrow> byte option" where
  "hex_digit c =
     (if c \<ge> 48 \<and> c \<le> 57 then Some (c - 48)
      else if c \<ge> 65 \<and> c \<le> 70 then Some (c - 55)
      else if c \<ge> 97 \<and> c \<le> 102 then Some (c - 87)
      else None)"

text \<open>The loop runs with \<open>y = 4\<close> and \<open>y = 0\<close>; a bad digit returns the byte read so far.\<close>

definition ReadHexByte :: "bytes \<Rightarrow> int \<Rightarrow> (byte \<times> bool) option" where
  "ReadHexByte data x =
     (if int (length data) < x + 2 then Some (0, False)
      else do {
        c1 \<leftarrow> idxi data x;
        case hex_digit c1 of
          None \<Rightarrow> Some (0, False)
        | Some d1 \<Rightarrow> do {
            c2 \<leftarrow> idxi data (x + 1);
            case hex_digit c2 of
              None \<Rightarrow> Some (push_bit 4 d1, False)
            | Some d2 \<Rightarrow> Some (push_bit 4 d1 OR d2, True) } })"

subsection \<open>EncloseRemove and EncloseToken\<close>

function EncloseRemove :: "bytes \<Rightarrow> bytes \<Rightarrow> bytes \<Rightarrow> bytes \<times> bool" where
  "EncloseRemove line leftcap rightcap =
     (let lidx = TokenFind line leftcap 0;
          ridx = TokenFind line rightcap (lidx + 1)
      in if lidx < 0 \<or> ridx < 0 \<or> lidx \<ge> ridx then (line, False)
         else (fst (EncloseRemove (take (nat lidx) line @ drop (nat ridx + length rightcap) line)
                      leftcap rightcap), True))"
  by pat_completeness auto

text \<open>What a scan of \<open>TokenFind\<close> returns is an index inside the scanned part.\<close>

lemma TokenFind_loop_bounds:
  assumes "TokenFind_loop token cs x y at = r" "r \<noteq> -1" "y < length token" "y \<le> x"
    and "if y = 0 then at = -1 else at = int (x - y)"
  shows "\<exists>n. r = int n \<and> n + length token \<le> x + length cs \<and> x - y \<le> n"
  using assms
proof (induction token cs x y at rule: TokenFind_loop.induct)
  case (1 token x y at)
  then show ?case by simp
next
  case (2 token c cs x y at)
  consider (last) "c = token ! y" "y + 1 = length token"
    | (match) "c = token ! y" "y + 1 \<noteq> length token"
    | (reset) "c \<noteq> token ! y" "at \<noteq> -1" | (none) "c \<noteq> token ! y" "at = -1" by blast
  then show ?case
  proof cases
    case last
    then have "r = int (x - y)" using 2 by (auto split: if_splits)
    then show ?thesis using last 2 by (intro exI [of _ "x - y"]) auto
  next
    case match
    then have "\<exists>n. r = int n \<and> n + length token \<le> (x + 1) + length cs \<and> (x + 1) - (y + 1) \<le> n"
      using 2 by (intro "2.IH"(1)) (auto simp: Let_def split: if_splits)
    then show ?thesis by auto
  next
    case reset
    then have "\<exists>n. r = int n \<and> n + length token \<le> (x + 1) + length cs \<and> (x + 1) - 0 \<le> n"
      using 2 by (intro "2.IH"(2)) (auto split: if_splits)
    then show ?thesis by auto
  next
    case none
    then have "\<exists>n. r = int n \<and> n + length token \<le> (x + 1) + length cs \<and> (x + 1) - y \<le> n"
      using 2 by (intro "2.IH"(3)) (auto split: if_splits)
    then show ?thesis by auto
  qed
qed

lemma TokenFind_bounds:
  assumes "TokenFind line token s = r" "r \<noteq> -1"
  shows "\<exists>n. r = int n \<and> n + length token \<le> length line \<and> s \<le> int n \<and> token \<noteq> []"
proof -
  define k where "k = (if s < 0 then 0 else nat s)"
  have tok: "token \<noteq> []" and loop: "TokenFind_loop token (drop k line) k 0 (-1) = r"
    using assms by (auto simp: TokenFind_def k_def Let_def split: if_splits)
  have "\<exists>n. r = int n \<and> n + length token \<le> k + length (drop k line) \<and> k - 0 \<le> n"
    using TokenFind_loop_bounds [OF loop assms(2)] tok by simp
  then obtain n where n: "r = int n" "n + length token \<le> k + (length line - k)" "k \<le> n" by auto
  then have "n + length token \<le> length line" using tok by (cases token) auto
  moreover have "s \<le> int n" using n by (auto simp: k_def split: if_splits)
  ultimately show ?thesis using n tok by blast
qed

lemma TokenFind_ge: "TokenFind line token s \<ge> -1"
  using TokenFind_bounds [of line token s] by fastforce

termination EncloseRemove
proof (relation "measure (\<lambda>(line, leftcap, rightcap). length line)", goal_cases)
  case (2 line leftcap rightcap lidx ridx)
  then show ?case
    using TokenFind_bounds [of line leftcap 0 lidx] TokenFind_bounds [of line rightcap "lidx + 1" ridx]
    by fastforce
qed simp

declare EncloseRemove.simps [simp del]

function EncloseToken_loop :: "bytes \<Rightarrow> bytes \<Rightarrow> bytes \<Rightarrow> bytes \<Rightarrow> nat \<Rightarrow> bytes \<Rightarrow> bytes \<times> nat" where
  "EncloseToken_loop line token leftcap rightcap startat newline =
     (let foundat = TokenFind line token (int startat) in
      if foundat < 0 then (newline @ drop startat line, startat)
      else EncloseToken_loop line token leftcap rightcap (nat foundat + length token)
             (newline @ take (nat foundat - startat) (drop startat line) @ leftcap @ token @ rightcap))"
  by pat_completeness auto

termination
proof (relation "measure (\<lambda>(line, token, leftcap, rightcap, startat, newline). length line - startat)",
    goal_cases)
  case (2 line token leftcap rightcap startat newline foundat)
  then obtain n where n: "foundat = int n" "n + length token \<le> length line" "startat \<le> n" "token \<noteq> []"
    using TokenFind_bounds [of line token "int startat" foundat] by fastforce
  then have "length line - (n + length token) < length line - startat"
    by (cases token) auto
  with n show ?case by simp
qed simp

declare EncloseToken_loop.simps [simp del]

definition EncloseToken :: "bytes \<Rightarrow> bytes \<Rightarrow> bytes \<Rightarrow> bytes \<Rightarrow> bytes \<times> bool" where
  "EncloseToken line token leftcap rightcap =
     (let (newline, startat) = EncloseToken_loop line token leftcap rightcap 0 []
      in (newline, startat > 0))"

subsection \<open>Integers: the codec interface and its instances\<close>

text \<open>
  The clients (DNS header, resource records) use the integer functions through three laws: what
  is appended is read back, whatever follows; reading is local to the bytes at the index; and
  the width is fixed. A client lemma is proved once for every codec.
\<close>

locale int_codec =
  fixes app :: "bytes \<Rightarrow> 'v \<Rightarrow> bytes"
    and rd :: "bytes \<Rightarrow> nat \<Rightarrow> 'v option"
    and width :: nat
  assumes app_append: "app data v = data @ app [] v"
    and app_width: "length (app [] v) = width"
    and rd_app: "rd (data @ app [] v @ rest) (length data) = Some v"
begin

lemma length_app: "length (app data v) = length data + width"
  by (subst app_append) (simp add: app_width)

lemma rd_after_app: "rd (app data v @ rest) (length data) = Some v"
  by (subst app_append) (simp add: rd_app)

lemma app_inj: "app data v = app data w \<Longrightarrow> v = w"
  using rd_after_app [of data v "[]"] rd_after_app [of data w "[]"] by simp

lemma rd_at: "packet = data @ app [] v @ rest \<Longrightarrow> n = length data \<Longrightarrow> rd packet n = Some v"
  by (simp add: rd_app)

end

lemma u16_bytes: "push_bit 8 (ucast (ucast (drop_bit 8 v) :: byte)) OR ucast (ucast v :: byte) = (v :: u16)"
  by (rule bit_word_eqI) (auto simp: bit_simps)

lemma i16_bytes: "push_bit 8 (ucast (ucast (signed_drop_bit 8 v) :: byte)) OR ucast (ucast v :: byte) = (v :: u16)"
  by (rule bit_word_eqI) (auto simp: bit_simps)

lemma u32_bytes:
  "push_bit 24 (ucast (ucast (drop_bit 24 v) :: byte)) OR push_bit 16 (ucast (ucast (drop_bit 16 v) :: byte)) OR
   push_bit 8 (ucast (ucast (drop_bit 8 v) :: byte)) OR ucast (ucast v :: byte) = (v :: u32)" (is "?l = v")
proof (rule bit_word_eqI)
  fix n assume "n < LENGTH(32)"
  then consider "n < 8" | "8 \<le> n" "n < 16" | "16 \<le> n" "n < 24" | "24 \<le> n" "n < 32" by fastforce
  then show "bit (?l) n = bit v n" by cases (auto simp: bit_simps)
qed

lemma i32_bytes:
  "push_bit 24 (ucast (ucast (signed_drop_bit 24 v) :: byte)) OR push_bit 16 (ucast (ucast (signed_drop_bit 16 v) :: byte)) OR
   push_bit 8 (ucast (ucast (signed_drop_bit 8 v) :: byte)) OR ucast (ucast v :: byte) = (v :: u32)" (is "?l = v")
proof (rule bit_word_eqI)
  fix n assume "n < LENGTH(32)"
  then consider "n < 8" | "8 \<le> n" "n < 16" | "16 \<le> n" "n < 24" | "24 \<le> n" "n < 32" by fastforce
  then show "bit (?l) n = bit v n" by cases (auto simp: bit_simps)
qed

lemma nth_append_at: "(data @ ys) ! (length data + k) = ys ! k"
  by (simp add: nth_append)

interpretation uint16: int_codec AppendUint16 ReadUint16 2
  by unfold_locales
     (simp_all add: AppendUint16_def ReadUint16_def go_simps u16_bytes nth_append)

interpretation int16: int_codec AppendInt16 ReadInt16 2
  by unfold_locales
     (simp_all add: AppendInt16_def ReadInt16_def go_simps i16_bytes nth_append)

interpretation uint32: int_codec AppendUint32 ReadUint32 4
  by unfold_locales
     (simp_all add: AppendUint32_def ReadUint32_def go_simps u32_bytes nth_append)

interpretation int32: int_codec AppendInt32 ReadInt32 4
  by unfold_locales
     (simp_all add: AppendInt32_def ReadInt32_def go_simps i32_bytes nth_append)

subsection \<open>Properties of the integer functions\<close>

lemma WriteUint16_eq:
  assumes "x + 2 \<le> length data"
  shows "WriteUint16 data x v = Some (take x data @ AppendUint16 [] v @ drop (x + 2) data)"
proof -
  from assms obtain as ms bs where d: "data = as @ ms @ bs" "length as = x" "length ms = 2"
    by (rule window_ex)
  then show ?thesis
    by (auto simp: WriteUint16_def AppendUint16_def go_simps list_update_append length_Suc_conv
        numeral_2_eq_2)
qed

lemma WriteUint32_eq:
  assumes "x + 4 \<le> length data"
  shows "WriteUint32 data x v = Some (take x data @ AppendUint32 [] v @ drop (x + 4) data)"
proof -
  from assms obtain as ms bs where d: "data = as @ ms @ bs" "length as = x" "length ms = 4"
    by (rule window_ex)
  then show ?thesis
    by (auto simp: WriteUint32_def AppendUint32_def go_simps list_update_append length_Suc_conv
        eval_nat_numeral)
qed

lemma WriteUint16_None: "length data < x + 2 \<Longrightarrow> WriteUint16 data x v = None"
  by (auto simp: WriteUint16_def go_defs)

lemma WriteUint32_None: "length data < x + 4 \<Longrightarrow> WriteUint32 data x v = None"
  by (auto simp: WriteUint32_def go_defs)

lemma nth_window:
  assumes "x + k \<le> length data" "length ms = k" "i < x \<or> x + k \<le> i"
  shows "(take x data @ ms @ drop (x + k) data) ! i = data ! i"
proof -
  have "length (take x data) = x" using assms by simp
  then show ?thesis using assms by (auto simp: nth_append simp del: length_take)
qed

text \<open>
  Every integer appended by the library is read back unchanged, at the position where it was
  appended and whatever follows; the four encodings have fixed width.
\<close>

theorem integers_roundtrip:
  "ReadUint16 (AppendUint16 data a @ rest) (length data) = Some a \<and>
   ReadInt16 (AppendInt16 data a @ rest) (length data) = Some a \<and>
   ReadUint32 (AppendUint32 data b @ rest) (length data) = Some b \<and>
   ReadInt32 (AppendInt32 data b @ rest) (length data) = Some b \<and>
   length (AppendUint16 data a) = length data + 2 \<and> length (AppendInt16 data a) = length data + 2 \<and>
   length (AppendUint32 data b) = length data + 4 \<and> length (AppendInt32 data b) = length data + 4"
  by (simp add: uint16.rd_after_app int16.rd_after_app uint32.rd_after_app int32.rd_after_app
      uint16.length_app int16.length_app uint32.length_app int32.length_app)

text \<open>
  \<open>WriteUint32\<close> panics exactly when the four bytes do not fit; otherwise the value is read
  back at the index, the length is kept and no other byte changes.
\<close>

theorem WriteUint32_spec:
  "(WriteUint32 data x v = None \<longleftrightarrow> length data < x + 4) \<and>
   (\<forall>data'. WriteUint32 data x v = Some data' \<longrightarrow>
      length data' = length data \<and> ReadUint32 data' x = Some v \<and>
      (\<forall>i. i < x \<or> x + 4 \<le> i \<longrightarrow> data' ! i = data ! i))"
proof (cases "x + 4 \<le> length data")
  case True
  have rd: "ReadUint32 (take x data @ AppendUint32 [] v @ drop (x + 4) data) x = Some v"
    using True by (intro uint32.rd_at [OF refl]) simp
  show ?thesis
    using True WriteUint32_eq [OF True, of v] rd uint32.app_width [of v]
    by (auto simp: nth_window)
next
  case False
  then show ?thesis by (simp add: WriteUint32_None)
qed

theorem WriteUint32_spec_witness:
  "\<exists>data'. WriteUint32 [1, 2, 3, 4, 5] 1 0x01020304 = Some data' \<and>
     ReadUint32 data' 1 = Some 0x01020304 \<and> data' ! 0 = 1"
proof -
  have "WriteUint32 [1, 2, 3, 4, 5] 1 0x01020304 = Some [1, 1, 2, 3, 4]"
    by code_simp
  then show ?thesis using WriteUint32_spec [of "[1, 2, 3, 4, 5]" 1 "0x01020304"] by auto
qed

subsection \<open>Properties of the token functions\<close>

text \<open>The specification: the token occurs in the line at index \<open>p\<close>.\<close>

definition occurs_at :: "bytes \<Rightarrow> bytes \<Rightarrow> nat \<Rightarrow> bool" where
  "occurs_at line token p \<longleftrightarrow> take (length token) (drop p line) = token"

lemma occurs_at_le: "occurs_at line token p \<Longrightarrow> token \<noteq> [] \<Longrightarrow> p + length token \<le> length line"
proof -
  assume o: "occurs_at line token p" and t: "token \<noteq> []"
  then have "length (take (length token) (drop p line)) = length token"
    by (simp add: occurs_at_def)
  then have "length token \<le> length line - p" by simp
  then show ?thesis using t by (cases token) auto
qed

lemma IsTokenAt_loop_iff: "IsTokenAt_loop line token \<longleftrightarrow> take (length token) line = token"
  by (induction line token rule: IsTokenAt_loop.induct) auto

lemma IsTokenAt_iff: "token \<noteq> [] \<Longrightarrow> IsTokenAt line token (int p) \<longleftrightarrow> occurs_at line token p"
  using occurs_at_le [of line token p]
  by (auto simp: IsTokenAt_def IsTokenAt_loop_iff occurs_at_def Let_def)

lemma occurs_at_hd: "occurs_at line token p \<Longrightarrow> token \<noteq> [] \<Longrightarrow> p < length line \<and> line ! p = hd token"
  using occurs_at_le [of line token p]
  by (cases token) (auto simp: occurs_at_def neq_Nil_conv Cons_nth_drop_Suc [symmetric])

lemma take_drop_snoc:
  "s \<le> p \<Longrightarrow> p < length xs \<Longrightarrow> take (p - s) (drop s xs) @ [xs ! p] = take (Suc p - s) (drop s xs)"
  by (simp add: Suc_diff_le take_Suc_conv_app_nth)

text \<open>Without escapes the loop cuts at the first occurrence.\<close>

lemma CutUntilToken_loop_plain:
  assumes "s \<le> p" "token \<noteq> []"
  shows "CutUntilToken_loop line token False p (take (p - s) (drop s line)) False =
    (case find (occurs_at line token) [p..<length line] of
       Some q \<Rightarrow> (take (q - s) (drop s line), q + length token, True)
     | None \<Rightarrow> (drop s line, max p (length line), False))"
  using assms
proof (induction "length line - p" arbitrary: p)
  case 0
  then show ?case by (simp add: CutUntilToken_loop.simps)
next
  case (Suc n)
  then have p: "p < length line" by simp
  show ?case
  proof (cases "occurs_at line token p")
    case True
    with p Suc.prems occurs_at_hd [OF True] show ?thesis
      by (simp add: CutUntilToken_loop.simps [of _ _ _ p] IsTokenAt_iff upt_conv_Cons)
  next
    case False
    have "CutUntilToken_loop line token False p (take (p - s) (drop s line)) False =
      CutUntilToken_loop line token False (Suc p) (take (Suc p - s) (drop s line)) False"
      using p Suc.prems False take_drop_snoc [of s p line]
      by (auto simp: CutUntilToken_loop.simps [of _ _ _ p] IsTokenAt_iff)
    with Suc.hyps(1) [of "Suc p"] Suc.hyps(2) Suc.prems p False show ?thesis
      by (simp add: upt_conv_Cons max_def split: option.splits)
  qed
qed

text \<open>
  Without escape checking, \<open>CutUntilToken\<close> returns exactly the bytes between the start
  and the first occurrence of the token with the position after it, and the whole rest of the
  line when the token does not occur.
\<close>

theorem CutUntilToken_first_occurrence:
  assumes "token \<noteq> []"
  shows "CutUntilToken line token (int s) False =
    (case find (occurs_at line token) [s..<length line] of
       Some q \<Rightarrow> (take (q - s) (drop s line), int (q + length token), True)
     | None \<Rightarrow> (drop s line, int (max s (length line)), False))"
  using CutUntilToken_loop_plain [of s s token line] assms
  by (simp add: CutUntilToken_def Let_def split: option.splits)

theorem CutUntilToken_first_occurrence_witness:
  "CutUntilToken [97, 61, 61, 98] [61, 61] (int 0) False = ([97], int 3, True)"
  using CutUntilToken_first_occurrence [of "[61, 61]" "[97, 61, 61, 98]" 0]
  by (simp add: occurs_at_def upt_rec)

text \<open>
  Escaping for a one-byte token: a backslash is put before every backslash and every token byte.
\<close>

fun escape :: "byte \<Rightarrow> bytes \<Rightarrow> bytes" where
  "escape t [] = []"
| "escape t (c # cs) = (if c = 92 \<or> c = t then [92, c] else [c]) @ escape t cs"

lemma IsTokenAt_single:
  "IsTokenAt line [t] (int p) \<longleftrightarrow> p < length line \<and> line ! p = t"
  by (auto simp: IsTokenAt_def Let_def Cons_nth_drop_Suc [symmetric])

lemma CutUntilToken_loop_escape:
  assumes "t \<noteq> 92"
  shows "CutUntilToken_loop (pre @ escape t cs @ t # rest) [t] True (length pre) v False =
    (v @ cs, length pre + length (escape t cs) + 1, True)"
proof (induction cs arbitrary: pre v)
  case Nil
  with assms show ?case
    by (simp add: CutUntilToken_loop.simps [of _ _ _ "length pre"] IsTokenAt_single)
next
  case (Cons c cs)
  let ?line = "pre @ escape t (c # cs) @ t # rest"
  show ?case
  proof (cases "c = 92 \<or> c = t")
    case False
    then have "CutUntilToken_loop ?line [t] True (length pre) v False =
      CutUntilToken_loop ((pre @ [c]) @ escape t cs @ t # rest) [t] True (length (pre @ [c])) (v @ [c]) False"
      by (simp add: CutUntilToken_loop.simps [of _ _ _ "length pre"])
    with Cons [of "pre @ [c]" "v @ [c]"] False show ?thesis by simp
  next
    case True
    have "CutUntilToken_loop ?line [t] True (length pre) v False =
      CutUntilToken_loop ?line [t] True (Suc (length pre)) v True"
      using True by (simp add: CutUntilToken_loop.simps [of _ _ _ "length pre"])
    also have "\<dots> =
      CutUntilToken_loop ((pre @ [92, c]) @ escape t cs @ t # rest) [t] True (length (pre @ [92, c])) (v @ [c]) False"
      using True assms
      by (auto simp: CutUntilToken_loop.simps [of _ _ _ "Suc (length pre)"] IsTokenAt_single [of _ _ "Suc (length pre)", simplified] nth_append)
    finally show ?thesis using Cons [of "pre @ [92, c]" "v @ [c]"] True by simp
  qed
qed

text \<open>
  Cutting with escape checking undoes escaping: from the escaped text followed by the token,
  \<open>CutUntilToken\<close> returns the original text and the position after the token.
\<close>

theorem CutUntilToken_unescapes:
  assumes "t \<noteq> 92"
  shows "CutUntilToken (escape t cs @ t # rest) [t] 0 True =
    (cs, int (length (escape t cs) + 1), True)"
  using CutUntilToken_loop_escape [OF assms, of "[]" cs rest "[]"]
  by (simp add: CutUntilToken_def)

theorem CutUntilToken_unescapes_witness:
  "CutUntilToken [92, 59, 92, 92, 59, 97] [59] 0 True = ([59, 92], 5, True)"
  using CutUntilToken_unescapes [of 59 "[59, 92]" "[97]"] by simp

subsection \<open>TokenFind\<close>

lemma TokenFind_loop_sound:
  assumes "TokenFind_loop token cs (length pre) y at = int n" "y < length token" "y \<le> length pre"
    and "drop (length pre - y) pre = take y token"
    and "at = (if y = 0 then -1 else int (length pre - y))"
  shows "occurs_at (pre @ cs) token n"
  using assms
proof (induction cs arbitrary: pre y at)
  case (Cons c cs)
  consider (last) "c = token ! y" "Suc y = length token"
    | (match) "c = token ! y" "Suc y < length token" | (reset) "c \<noteq> token ! y"
    using Cons.prems(2) by force
  then show ?case
  proof cases
    case last
    then have n: "n = length pre - y" using Cons.prems by (auto split: if_splits)
    have "drop n (pre @ c # cs) = take y token @ token ! y # cs"
      using n last Cons.prems(4) by simp
    also have "\<dots> = token @ cs"
      using last by (metis Cons_nth_drop_Suc append_Cons append_Nil append_assoc append_take_drop_id
          drop_all lessI order_refl)
    finally show ?thesis by (simp add: occurs_at_def)
  next
    case match
    have "occurs_at ((pre @ [c]) @ cs) token n"
      using match Cons.prems
      by (intro Cons.IH [of _ "Suc y" "int (length pre - y)"])
         (auto simp: take_Suc_conv_app_nth split: if_splits)
    then show ?thesis by simp
  next
    case reset
    have "occurs_at ((pre @ [c]) @ cs) token n"
      using reset Cons.prems
      by (intro Cons.IH [of _ 0 "-1"]) (auto split: if_splits)
    then show ?thesis by simp
  qed
qed (auto split: if_splits)

lemma TokenFind_sound:
  assumes "TokenFind line token s = int n"
  shows "occurs_at line token n \<and> s \<le> int n \<and> token \<noteq> [] \<and> n + length token \<le> length line"
proof -
  define k where "k = (if s < 0 then 0 else nat s)"
  have b: "n + length token \<le> length line" "s \<le> int n" "token \<noteq> []"
    using TokenFind_bounds [OF assms] by auto
  then have k: "k \<le> length line" by (auto simp: k_def)
  have "TokenFind_loop token (drop k line) k 0 (-1) = int n"
    using assms b(3) by (simp add: TokenFind_def k_def Let_def split: if_splits)
  then have "TokenFind_loop token (drop k line) (length (take k line)) 0 (-1) = int n"
    using k by (simp add: min_absorb2)
  then have "occurs_at (take k line @ drop k line) token n"
    by (rule TokenFind_loop_sound) (use b(3) in auto)
  then show ?thesis using b by simp
qed

lemma find_map_Suc: "find P (map Suc xs) = map_option Suc (find (P \<circ> Suc) xs)"
  by (induction xs) auto

lemma TokenFind_loop_single:
  "TokenFind_loop [t] cs x 0 (-1) =
     (case find (\<lambda>i. cs ! i = t) [0..<length cs] of Some i \<Rightarrow> int (x + i) | None \<Rightarrow> -1)"
proof (induction cs arbitrary: x)
  case (Cons c cs)
  have "find (\<lambda>i. (c # cs) ! i = t) [0..<length (c # cs)] =
    (if c = t then Some 0 else map_option Suc (find (\<lambda>i. cs ! i = t) [0..<length cs]))"
    by (simp add: upt_conv_Cons map_Suc_upt [symmetric] del: upt_Suc)
       (simp add: find_map_Suc comp_def)
  with Cons show ?case by (auto split: option.splits)
qed simp

text \<open>
  An index that \<open>TokenFind\<close> returns is an occurrence of the token at or after the start; for
  a one-byte token it is the first one, and -1 is returned only when there is none.
\<close>

theorem TokenFind_correct:
  "(TokenFind line token s = int n \<longrightarrow> occurs_at line token n \<and> s \<le> int n) \<and>
   TokenFind line [t] (int k) =
     (case find (\<lambda>i. drop k line ! i = t) [0..<length line - k] of
        Some i \<Rightarrow> int (k + i) | None \<Rightarrow> -1)"
  using TokenFind_sound [of line token s n] TokenFind_loop_single [of t "drop k line" k]
  by (simp add: TokenFind_def split: option.splits)

theorem TokenFind_correct_witness:
  "TokenFind [97, 98, 99] [98, 99] 0 = int 1 \<and> occurs_at [97, 98, 99] [98, 99] 1"
proof -
  have "TokenFind [97, 98, 99] [98, 99] 0 = int 1" by (simp add: TokenFind_def)
  then show ?thesis
    using TokenFind_correct [of "[97, 98, 99]" "[98, 99]" 0 1 0 0] by blast
qed

text \<open>
  The scan does not fall back after a partial match: the mismatching byte is not tried again
  as the first byte of the token, so an occurrence that overlaps a failed partial match is
  missed. Here \<open>ab\<close> occurs in \<open>aab\<close> at index 1.
\<close>

lemma TokenFind_misses_overlap:
  "occurs_at [97, 97, 98] [97, 98] 1 \<and> TokenFind [97, 97, 98] [97, 98] 0 = -1"
  by (simp add: occurs_at_def TokenFind_def)

subsection \<open>Enclosing\<close>

text \<open>The pieces of the line between the tokens, joined by a separator.\<close>

fun join_with :: "bytes \<Rightarrow> bytes list \<Rightarrow> bytes" where
  "join_with sep [] = []"
| "join_with sep [x] = x"
| "join_with sep (x # xs) = x @ sep @ join_with sep xs"

lemma join_with_Cons: "xs \<noteq> [] \<Longrightarrow> join_with sep (x # xs) = x @ sep @ join_with sep xs"
  by (cases xs) auto

lemma EncloseToken_loop_pieces:
  assumes "startat \<le> length line"
  shows "\<exists>ps. ps \<noteq> [] \<and> drop startat line = join_with token ps \<and>
    fst (EncloseToken_loop line token l r startat newline) = newline @ join_with (l @ token @ r) ps \<and>
    (startat < snd (EncloseToken_loop line token l r startat newline) \<longleftrightarrow> length ps > 1) \<and>
    startat \<le> snd (EncloseToken_loop line token l r startat newline)"
  using assms
proof (induction line token l r startat newline rule: EncloseToken_loop.induct)
  case (1 line token l r startat newline)
  let ?f = "TokenFind line token (int startat)"
  show ?case
  proof (cases "?f < 0")
    case True
    then show ?thesis
      by (intro exI [of _ "[drop startat line]"]) (simp add: EncloseToken_loop.simps [of line])
  next
    case False
    define n where "n = nat ?f"
    have f: "?f = int n" using False by (simp add: n_def)
    note occ = TokenFind_sound [OF f]
    have pos: "startat < n + length token" "startat \<le> n" using occ by (cases token; simp)+
    from "1.IH" [OF refl False] occ obtain ps where ps: "ps \<noteq> []"
      "drop (n + length token) line = join_with token ps"
      "fst (EncloseToken_loop line token l r (n + length token)
         (newline @ take (n - startat) (drop startat line) @ l @ token @ r)) =
       (newline @ take (n - startat) (drop startat line) @ l @ token @ r) @ join_with (l @ token @ r) ps"
      "n + length token \<le> snd (EncloseToken_loop line token l r (n + length token)
         (newline @ take (n - startat) (drop startat line) @ l @ token @ r))"
      by (auto simp: n_def)
    have "drop startat line = take (n - startat) (drop startat line) @ drop n line"
      using pos(2) append_take_drop_id [of "n - startat" "drop startat line"] by simp
    also have "drop n line = token @ drop (n + length token) line"
      using occ append_take_drop_id [of "length token" "drop n line"]
      by (simp add: occurs_at_def add.commute)
    finally have "drop startat line = join_with token (take (n - startat) (drop startat line) # ps)"
      using ps by (simp add: join_with_Cons)
    moreover have "EncloseToken_loop line token l r startat newline =
      EncloseToken_loop line token l r (n + length token)
         (newline @ take (n - startat) (drop startat line) @ l @ token @ r)"
      using f by (simp add: EncloseToken_loop.simps [of line token l r startat])
    ultimately show ?thesis
      using ps pos by (intro exI [of _ "take (n - startat) (drop startat line) # ps"])
        (auto simp: join_with_Cons)
  qed
qed

text \<open>
  \<open>EncloseToken\<close> splits the line at tokens and rejoins the same pieces with the enclosed
  token; the status says whether there was at least one token.
\<close>

theorem EncloseToken_pieces:
  "\<exists>ps. ps \<noteq> [] \<and> line = join_with token ps \<and>
     EncloseToken line token leftcap rightcap =
       (join_with (leftcap @ token @ rightcap) ps, length ps > 1)"
  using EncloseToken_loop_pieces [of 0 line token leftcap rightcap "[]"]
  by (auto simp: EncloseToken_def split: prod.splits)

text \<open>
  \<open>EncloseRemove\<close> removes every enclosed part it can find: the result has none left (a
  second call changes nothing), it is never longer, and it is shorter exactly when the status is
  true.
\<close>

theorem EncloseRemove_complete:
  "EncloseRemove (fst (EncloseRemove line l r)) l r = (fst (EncloseRemove line l r), False) \<and>
   (snd (EncloseRemove line l r) \<longleftrightarrow> length (fst (EncloseRemove line l r)) < length line) \<and>
   length (fst (EncloseRemove line l r)) \<le> length line"
proof (induction line l r rule: EncloseRemove.induct)
  case (1 line l r)
  let ?i = "TokenFind line l 0"
  let ?j = "TokenFind line r (?i + 1)"
  let ?line' = "take (nat ?i) line @ drop (nat ?j + length r) line"
  show ?case
  proof (cases "?i < 0 \<or> ?j < 0 \<or> ?i \<ge> ?j")
    case True
    then have "EncloseRemove line l r = (line, False)" by (simp add: EncloseRemove.simps [of line])
    then show ?thesis by simp
  next
    case False
    then have e: "EncloseRemove line l r = (fst (EncloseRemove ?line' l r), True)"
      by (simp add: EncloseRemove.simps [of line] Let_def)
    have "\<exists>n. ?j = int n \<and> n + length r \<le> length line \<and> ?i + 1 \<le> int n \<and> r \<noteq> []"
      using False by (intro TokenFind_bounds) auto
    then have "length ?line' < length line" using False by auto
    moreover have IH: "length (fst (EncloseRemove ?line' l r)) \<le> length ?line'"
      "EncloseRemove (fst (EncloseRemove ?line' l r)) l r = (fst (EncloseRemove ?line' l r), False)"
      using "1.IH" [OF refl refl False] by blast+
    ultimately have "length (fst (EncloseRemove ?line' l r)) < length line" by linarith
    then show ?thesis by (simp only: e fst_conv snd_conv IH) simp
  qed
qed

subsection \<open>Indexes\<close>

lemma bytes_Index_Some:
  "bytes_Index s sep = Some i \<Longrightarrow> occurs_at s sep i \<and> (\<forall>j < i. \<not> occurs_at s sep j)"
proof (induction s arbitrary: i)
  case (Cons c s)
  then show ?case
    by (auto simp: occurs_at_def less_Suc_eq_0_disj split: if_splits)
qed (auto simp: occurs_at_def split: if_splits)

lemma bytes_Index_None:
  "bytes_Index s sep = None \<Longrightarrow> sep \<noteq> [] \<Longrightarrow> \<not> occurs_at s sep j"
proof (induction s arbitrary: j)
  case (Cons c s)
  then show ?case by (cases j) (auto simp: occurs_at_def split: if_splits)
qed (auto simp: occurs_at_def)

lemma occurs_at_drop: "occurs_at (drop k s) token j = occurs_at s token (k + j)"
  by (simp add: occurs_at_def add.commute)

text \<open>What the search for all occurrences in the suffix at \<open>off\<close> must return.\<close>

definition occurrences :: "bytes \<Rightarrow> bytes \<Rightarrow> nat \<Rightarrow> nat list \<Rightarrow> bool" where
  "occurrences s token off is \<longleftrightarrow>
     sorted_wrt (\<lambda>i j. i + length token \<le> j) is \<and>
     (\<forall>i \<in> set is. off \<le> i \<and> occurs_at s token i) \<and>
     (\<forall>p \<ge> off. occurs_at s token p \<longrightarrow> (\<exists>i \<in> set is. i \<le> p \<and> p < i + length token))"

lemma occurrences_Cons:
  assumes "occurrences s token (i + length token) is" "occurs_at s token i" "off \<le> i"
    and "\<forall>j. off \<le> j \<and> j < i \<longrightarrow> \<not> occurs_at s token j"
  shows "occurrences s token off (i # is)"
  unfolding occurrences_def
proof (intro conjI ballI allI impI)
  show "sorted_wrt (\<lambda>i j. i + length token \<le> j) (i # is)"
    using assms(1) by (simp add: occurrences_def)
next
  fix k assume "k \<in> set (i # is)"
  then show "off \<le> k" "occurs_at s token k"
    using assms by (auto simp: occurrences_def)
next
  fix p assume "off \<le> p" "occurs_at s token p"
  then have "i \<le> p" using assms(4) by (meson not_le)
  then show "\<exists>k \<in> set (i # is). k \<le> p \<and> p < k + length token"
    using assms(1) \<open>occurs_at s token p\<close> by (cases "p < i + length token") (auto simp: occurrences_def)
qed

lemma Indexes_loop_occurrences:
  assumes "token \<noteq> []"
  shows "occurrences s token off (Indexes_loop (drop off s) token off)"
  using assms
proof (induction "length s - off" arbitrary: off rule: less_induct)
  case less
  show ?case
  proof (cases "bytes_Index (drop off s) token")
    case None
    then have "\<not> occurs_at s token (off + j)" for j
      using bytes_Index_None [OF None less.prems, of j] by (simp add: occurs_at_drop)
    then have "\<forall>p \<ge> off. \<not> occurs_at s token p" by (metis le_Suc_ex)
    with None less.prems show ?thesis
      by (simp add: Indexes_loop.simps [of "drop off s"] occurrences_def)
  next
    case (Some i)
    note I = bytes_Index_Some [OF Some] bytes_Index_Some_less [OF Some]
    have "occurrences s token (off + (i + length token))
        (Indexes_loop (drop (off + (i + length token)) s) token (off + (i + length token)))"
      using I less.prems by (intro less.hyps) (cases token; auto)
    moreover have "\<forall>j. off \<le> j \<and> j < off + i \<longrightarrow> \<not> occurs_at s token j"
      using I(1) by (metis add_less_cancel_left le_Suc_ex occurs_at_drop)
    ultimately have "occurrences s token off ((off + i) #
        Indexes_loop (drop (off + (i + length token)) s) token (off + (i + length token)))"
      using I(1) by (intro occurrences_Cons) (auto simp: occurs_at_drop add.assoc)
    then show ?thesis
      using Some less.prems by (simp add: Indexes_loop.simps [of "drop off s"] add_ac)
  qed
qed

text \<open>
  \<open>Indexes\<close> returns occurrences only, in ascending order and without overlap, and every
  occurrence of the token overlaps one that is returned.
\<close>

theorem Indexes_occurrences:
  assumes "token \<noteq> []"
  shows "occurrences s token 0 (Indexes s token)"
proof (cases "s = []")
  case True
  with assms show ?thesis by (auto simp: Indexes_def occurrences_def occurs_at_def)
next
  case False
  with assms Indexes_loop_occurrences [OF assms, of s 0] show ?thesis by (simp add: Indexes_def)
qed

theorem Indexes_occurrences_witness:
  "occurrences [97, 97, 97, 98, 97, 97] [97, 97] 0 [0, 4]"
proof -
  have "Indexes [97, 97, 97, 98, 97, 97] [97, 97] = [0, 4]" by code_simp
  then show ?thesis
    using Indexes_occurrences [of "[97, 97]" "[97, 97, 97, 98, 97, 97]"] by simp
qed

subsection \<open>Hexadecimal bytes\<close>

definition hex_upper :: "nat \<Rightarrow> byte" where
  "hex_upper n = (if n < 10 then 48 + of_nat n else 55 + of_nat n)"

definition hex_lower :: "nat \<Rightarrow> byte" where
  "hex_lower n = (if n < 10 then 48 + of_nat n else 87 + of_nat n)"

lemma unat_add_small: "k + n < 256 \<Longrightarrow> unat (of_nat k + of_nat n :: byte) = k + n"
  by (simp add: unat_word_ariths unat_of_nat)

lemma hex_digit_upper: "n < 16 \<Longrightarrow> hex_digit (hex_upper n) = Some (of_nat n)"
  using unat_add_small [of 48 n] unat_add_small [of 55 n]
  by (auto simp: hex_digit_def hex_upper_def word_le_nat_alt)

lemma hex_digit_lower: "n < 16 \<Longrightarrow> hex_digit (hex_lower n) = Some (of_nat n)"
  using unat_add_small [of 48 n] unat_add_small [of 87 n]
  by (auto simp: hex_digit_def hex_lower_def word_le_nat_alt)

lemma nibbles: "push_bit 4 (of_nat (unat b div 16)) OR of_nat (unat b mod 16) = (b :: byte)"
proof -
  have "of_nat (unat b div 16) = drop_bit 4 b"
    using unat_byte_less [of b]
    by (simp add: word_unat_eq_iff unat_of_nat drop_bit_eq_div unat_div)
  moreover have "of_nat (unat b mod 16) = take_bit 4 b"
    using unat_byte_less [of b]
    by (simp add: word_unat_eq_iff unat_of_nat take_bit_eq_mod unat_mod)
  ultimately show ?thesis
    by (simp only:) (rule bit_word_eqI, auto simp: bit_simps)
qed

text \<open>
  \<open>ReadHexByte\<close> reads back any byte printed as two hexadecimal digits, upper or lower
  case, at any position of the data.
\<close>

theorem ReadHexByte_roundtrip:
  fixes b :: byte
  shows "ReadHexByte (pre @ [hex_upper (unat b div 16), hex_upper (unat b mod 16)] @ post)
      (int (length pre)) = Some (b, True) \<and>
    ReadHexByte (pre @ [hex_lower (unat b div 16), hex_lower (unat b mod 16)] @ post)
      (int (length pre)) = Some (b, True)"
proof -
  have d: "unat b div 16 < 16" using unat_byte_less [of b] by simp
  have i: "idxi (pre @ x # xs) (int (length pre)) = Some x"
    "idxi (pre @ x # y # xs) (int (length pre) + 1) = Some y" for x y xs
    by (simp_all add: idxi_def go_simps nth_append nat_add_distrib)
  show ?thesis
    using d by (simp add: ReadHexByte_def i hex_digit_upper hex_digit_lower nibbles)
qed

end
