(* ===== verification/Ints.thy ===== *)
theory Ints
  imports Prelude "HOL-Library.Multiset"
begin

section \<open>Package lib/ints\<close>

text \<open>
  Slices of integers (\<open>src/lib/ints/ints.go\<close>): counting, extrema, removal, and the in-place
  merge sort that sorts a slice together with the slice of its indices. Elements are \<open>int\<close>
  (64 bits in Go: additions wrap through \<open>wrap64\<close>); indices are \<open>nat\<close>, an access out of range
  is \<open>None\<close>.
\<close>

subsection \<open>Counting and extrema\<close>

fun Count :: "int list \<Rightarrow> int \<Rightarrow> int" where
  "Count [] class = 0"
| "Count (v # d) class = (if v = class then 1 else 0) + Count d class"

definition Counts :: "int list \<Rightarrow> int list \<Rightarrow> int list" where
  "Counts d classes = (if length classes = 0 then [] else map (Count d) classes)"

fun IsExist :: "int list \<Rightarrow> int \<Rightarrow> bool" where
  "IsExist [] v = False"
| "IsExist (x # d) v = (if x = v then True else IsExist d v)"

text \<open>The loops of \<open>Max\<close> and \<open>Min\<close> carry the best value, its index and the next index.\<close>

fun Max_loop :: "int list \<Rightarrow> int \<Rightarrow> nat \<Rightarrow> nat \<Rightarrow> int \<times> nat" where
  "Max_loop [] v i x = (v, i)"
| "Max_loop (e # d) v i x = (if e > v then Max_loop d e x (x + 1) else Max_loop d v i (x + 1))"

definition ints_Max :: "int list \<Rightarrow> int \<times> nat \<times> bool" where
  "ints_Max d = (case d of [] \<Rightarrow> (0, 0, False)
            | e # ds \<Rightarrow> let (v, i) = Max_loop ds e 0 1 in (v, i, True))"

fun Min_loop :: "int list \<Rightarrow> int \<Rightarrow> nat \<Rightarrow> nat \<Rightarrow> int \<times> nat" where
  "Min_loop [] v i x = (v, i)"
| "Min_loop (e # d) v i x = (if e < v then Min_loop d e x (x + 1) else Min_loop d v i (x + 1))"

definition ints_Min :: "int list \<Rightarrow> int \<times> nat \<times> bool" where
  "ints_Min d = (case d of [] \<Rightarrow> (0, 0, False)
            | e # ds \<Rightarrow> let (v, i) = Min_loop ds e 0 1 in (v, i, True))"

definition MaxCountOf :: "int list \<Rightarrow> int list \<Rightarrow> (int \<times> bool) option" where
  "MaxCountOf d classes =
     (if length classes = 0 then Some (-1, False)
      else if length d = 0 then Some (-2, False)
      else let counts = Counts d classes; (_, i, _) = ints_Max counts
           in do { c \<leftarrow> idx classes i; Some (c, True) })"

function MaxRange_loop :: "int list \<Rightarrow> int \<Rightarrow> nat \<Rightarrow> nat \<Rightarrow> nat \<Rightarrow> (int \<times> nat) option" where
  "MaxRange_loop d v i l r =
     (if l < r then do { e \<leftarrow> idx d l;
        if e \<ge> v then MaxRange_loop d e l (l + 1) r else MaxRange_loop d v i (l + 1) r }
      else Some (v, i))"
  by pat_completeness auto
termination by (relation "measure (\<lambda>(d, v, i, l, r). r - l)") auto

definition MaxRange :: "int list \<Rightarrow> nat \<Rightarrow> nat \<Rightarrow> (int \<times> nat) option" where
  "MaxRange d l r = do { v \<leftarrow> idx d l; MaxRange_loop d v l (l + 1) r }"

function MinRange_loop :: "int list \<Rightarrow> int \<Rightarrow> nat \<Rightarrow> nat \<Rightarrow> nat \<Rightarrow> (int \<times> nat) option" where
  "MinRange_loop d v i l r =
     (if l < r then do { e \<leftarrow> idx d l;
        if e \<le> v then MinRange_loop d e l (l + 1) r else MinRange_loop d v i (l + 1) r }
      else Some (v, i))"
  by pat_completeness auto
termination by (relation "measure (\<lambda>(d, v, i, l, r). r - l)") auto

definition MinRange :: "int list \<Rightarrow> nat \<Rightarrow> nat \<Rightarrow> (int \<times> nat) option" where
  "MinRange d l r = do { v \<leftarrow> idx d l; MinRange_loop d v l (l + 1) r }"

declare MaxRange_loop.simps [simp del] MinRange_loop.simps [simp del]

subsection \<open>Merging, removing, summing\<close>

fun MergeByDistance_loop :: "int list \<Rightarrow> int \<Rightarrow> int \<Rightarrow> int list" where
  "MergeByDistance_loop [] prev distance = []"
| "MergeByDistance_loop (v # ab) prev distance =
     (if v > wrap64 (prev + distance) then v # MergeByDistance_loop ab v distance
      else MergeByDistance_loop ab prev distance)"

text \<open>\<open>sort.Ints\<close> of the standard library is \<open>sort\<close>.\<close>

definition MergeByDistance :: "int list \<Rightarrow> int list \<Rightarrow> int \<Rightarrow> int list" where
  "MergeByDistance a b distance =
     (if length a + length b = 0 then []
      else case sort (a @ b) of
        [] \<Rightarrow> []
      | v # ab \<Rightarrow> v # MergeByDistance_loop ab v distance)"

fun Remove :: "int list \<Rightarrow> int \<Rightarrow> int list \<times> bool" where
  "Remove [] v = ([], False)"
| "Remove (x # d) v =
     (if x = v then (d, True) else let (d', ok) = Remove d v in (x # d', ok))"

fun Sum_loop :: "int list \<Rightarrow> int \<Rightarrow> int" where
  "Sum_loop [] acc = acc"
| "Sum_loop (v # d) acc = Sum_loop d (wrap64 (acc + v))"

definition Sum :: "int list \<Rightarrow> int" where
  "Sum d = Sum_loop d 0"

definition To64 :: "int list \<Rightarrow> int list" where
  "To64 ints = map (\<lambda>v. v) ints"

function SortByIndex_loop :: "int list \<Rightarrow> int list \<Rightarrow> nat \<Rightarrow> int list \<Rightarrow> int list option" where
  "SortByIndex_loop d sortedIds x newd =
     (if x < length sortedIds then
        do { v \<leftarrow> idxi d (sortedIds ! x); newd \<leftarrow> upd newd x v;
             SortByIndex_loop d sortedIds (x + 1) newd }
      else Some newd)"
  by pat_completeness auto
termination by (relation "measure (\<lambda>(d, s, x, n). length s - x)") auto

declare SortByIndex_loop.simps [simp del]

definition SortByIndex :: "int list \<Rightarrow> int list \<Rightarrow> int list option" where
  "SortByIndex d sortedIds = SortByIndex_loop d sortedIds 0 (replicate (length d) 0)"

subsection \<open>Swap and the exchange sort\<close>

definition Swap :: "int list \<Rightarrow> nat \<Rightarrow> nat \<Rightarrow> int list option" where
  "Swap d x y =
     (if x = y \<or> length d \<le> 1 \<or> x > length d \<or> y > length d then Some d
      else do { tmp \<leftarrow> idx d x; v \<leftarrow> idx d y; d \<leftarrow> upd d x v; upd d y tmp })"

text \<open>The inner loop over \<open>y\<close> and the outer loop over \<open>x\<close> of \<open>InplaceInsertionSort\<close>.\<close>

function InplaceInsertionSort_inner ::
  "int list \<Rightarrow> int list \<Rightarrow> nat \<Rightarrow> nat \<Rightarrow> nat \<Rightarrow> bool \<Rightarrow> (int list \<times> int list) option" where
  "InplaceInsertionSort_inner d ids x y r asc =
     (if y < r then do {
        dx \<leftarrow> idx d x; dy \<leftarrow> idx d y;
        if (if asc then dx > dy else dx < dy) then do {
          ids \<leftarrow> Swap ids x y;
          d \<leftarrow> Swap d x y;
          InplaceInsertionSort_inner d ids x (y + 1) r asc }
        else InplaceInsertionSort_inner d ids x (y + 1) r asc }
      else Some (d, ids))"
  by pat_completeness auto
termination by (relation "measure (\<lambda>(d, ids, x, y, r, asc). r - y)") auto

function InplaceInsertionSort ::
  "int list \<Rightarrow> int list \<Rightarrow> nat \<Rightarrow> nat \<Rightarrow> bool \<Rightarrow> (int list \<times> int list) option" where
  "InplaceInsertionSort d ids x r asc =
     (if x < r then do {
        (d, ids) \<leftarrow> InplaceInsertionSort_inner d ids x (x + 1) r asc;
        InplaceInsertionSort d ids (x + 1) r asc }
      else Some (d, ids))"
  by pat_completeness auto
termination by (relation "measure (\<lambda>(d, ids, x, r, asc). r - x)") auto

declare InplaceInsertionSort_inner.simps [simp del] InplaceInsertionSort.simps [simp del]

subsection \<open>The in-place merge sort\<close>

function inplaceMultiswap ::
  "int list \<Rightarrow> int list \<Rightarrow> nat \<Rightarrow> nat \<Rightarrow> nat \<Rightarrow> (int list \<times> int list \<times> nat) option" where
  "inplaceMultiswap d ids x y ylast =
     (if y < ylast then do {
        ids \<leftarrow> Swap ids x y;
        d \<leftarrow> Swap d x y;
        if y + 1 \<ge> ylast then Some (d, ids, y + 1)
        else do {
          dx \<leftarrow> idx d (x + 1); dy \<leftarrow> idx d (y + 1);
          if dx \<le> dy then Some (d, ids, y + 1)
          else inplaceMultiswap d ids (x + 1) (y + 1) ylast } }
      else Some (d, ids, y))"
  by pat_completeness auto
termination by (relation "measure (\<lambda>(d, ids, x, y, ylast). ylast - y)") auto

function minY :: "int list \<Rightarrow> nat \<Rightarrow> nat \<Rightarrow> nat \<Rightarrow> bool \<Rightarrow> (nat \<times> nat) option" where
  "minY d x y r asc =
     (if x < r then do {
        (_, y) \<leftarrow> (if asc then MinRange d x r else MaxRange d x r);
        if y \<noteq> x then Some (x, y) else minY d (x + 1) y r asc }
      else Some (x, y))"
  by pat_completeness auto
termination by (relation "measure (\<lambda>(d, x, y, r, asc). r - x)") auto

function moveY_loop :: "int list \<Rightarrow> nat \<Rightarrow> nat \<Rightarrow> nat \<Rightarrow> nat \<Rightarrow> bool \<Rightarrow> nat option" where
  "moveY_loop d x yorg y r asc =
     (if y < r then do {
        dy \<leftarrow> idx d y; dx \<leftarrow> idx d x;
        if (if asc then dy \<ge> dx else dy \<le> dx) then Some y
        else do { dyo \<leftarrow> idx d yorg;
          if (if asc then dy < dyo else dy > dyo) then Some y
          else moveY_loop d x yorg (y + 1) r asc } }
      else Some y)"
  by pat_completeness auto
termination by (relation "measure (\<lambda>(d, x, yorg, y, r, asc). r - y)") auto

definition moveY :: "int list \<Rightarrow> nat \<Rightarrow> nat \<Rightarrow> nat \<Rightarrow> bool \<Rightarrow> nat option" where
  "moveY d x y r asc = moveY_loop d x y (y + 1) r asc"

declare inplaceMultiswap.simps [simp del] minY.simps [simp del] moveY_loop.simps [simp del]

text \<open>
  The merge loop, with fuel: each element costs at most two rounds, so \<open>2 * (r - x) + 2\<close> is
  enough (lemma \<open>inplaceMerge_loop_correct\<close>); running out of fuel would be \<open>None\<close>.
\<close>

fun inplaceMerge_loop ::
  "nat \<Rightarrow> int list \<Rightarrow> int list \<Rightarrow> nat \<Rightarrow> nat \<Rightarrow> nat \<Rightarrow> bool \<Rightarrow> (int list \<times> int list) option" where
  "inplaceMerge_loop 0 d ids x y r asc = None"
| "inplaceMerge_loop (Suc fuel) d ids x y r asc =
     (if x < r \<and> y < r then do {
        dx \<leftarrow> idx d x; dy \<leftarrow> idx d y;
        if (if asc then dx \<le> dy else dx \<ge> dy) then
          (if x + 1 \<ge> y then do {
             (x, y) \<leftarrow> minY d (x + 1) y r asc;
             inplaceMerge_loop fuel d ids x y r asc }
           else inplaceMerge_loop fuel d ids (x + 1) y r asc)
        else do {
          ylast \<leftarrow> moveY d x y r asc;
          (d, ids, _) \<leftarrow> inplaceMultiswap d ids x y ylast;
          (x, y) \<leftarrow> minY d x y r asc;
          inplaceMerge_loop fuel d ids x y r asc } }
      else Some (d, ids))"

definition inplaceMerge ::
  "int list \<Rightarrow> int list \<Rightarrow> nat \<Rightarrow> nat \<Rightarrow> nat \<Rightarrow> bool \<Rightarrow> (int list \<times> int list) option" where
  "inplaceMerge d ids x y r asc = inplaceMerge_loop (2 * (r - x) + 2) d ids x y r asc"

lemma mid_bounds:
  "\<not> r \<le> l + 7 \<Longrightarrow> l < (r + l) div 2 + (r + l) mod 2 \<and> (r + l) div 2 + (r + l) mod 2 < r" for l r :: nat
  by presburger

function InplaceMergesort ::
  "int list \<Rightarrow> int list \<Rightarrow> nat \<Rightarrow> nat \<Rightarrow> bool \<Rightarrow> (int list \<times> int list) option" where
  "InplaceMergesort d ids l r asc =
     (if l + 7 \<ge> r then InplaceInsertionSort d ids l r asc
      else let c = (r + l) div 2 + (r + l) mod 2 in do {
        (d, ids) \<leftarrow> InplaceMergesort d ids l c asc;
        (d, ids) \<leftarrow> InplaceMergesort d ids c r asc;
        dl \<leftarrow> idx d (c - 1); dr \<leftarrow> idx d c;
        if (if asc then dl \<le> dr else dl \<ge> dr) then Some (d, ids)
        else inplaceMerge d ids l c r asc })"
  by pat_completeness auto
termination by (relation "measure (\<lambda>(d, ids, l, r, asc). r - l)") (use mid_bounds in \<open>fastforce+\<close>)

declare InplaceMergesort.simps [simp del]

definition IndirectSort :: "int list \<Rightarrow> bool \<Rightarrow> (int list \<times> int list) option" where
  "IndirectSort d asc = InplaceMergesort d (map int [0..<length d]) 0 (length d) asc"

subsection \<open>Rearrangements of a range\<close>

text \<open>
  What every step of the sort does to the data and its indices: both are permuted in the same
  way, only inside the range from \<open>l\<close> to \<open>r\<close>.
\<close>

definition rearranged :: "nat \<Rightarrow> nat \<Rightarrow> int list \<Rightarrow> int list \<Rightarrow> int list \<Rightarrow> int list \<Rightarrow> bool" where
  "rearranged l r d ids d' ids' \<longleftrightarrow>
     length d' = length d \<and> length ids' = length ids \<and>
     mset (zip d' ids') = mset (zip d ids) \<and>
     (\<forall>k. k < l \<or> r \<le> k \<longrightarrow> d' ! k = d ! k \<and> ids' ! k = ids ! k) \<and>
     (\<forall>k. l \<le> k \<and> k < r \<longrightarrow> (\<exists>j. l \<le> j \<and> j < r \<and> d' ! k = d ! j))"

lemma rearranged_refl [simp]: "rearranged l r d ids d ids"
  by (auto simp: rearranged_def)

lemma rearranged_trans [trans]:
  "rearranged l r d ids d' ids' \<Longrightarrow> rearranged l r d' ids' d'' ids'' \<Longrightarrow> rearranged l r d ids d'' ids''"
  by (simp add: rearranged_def) metis

lemma rearranged_mono:
  assumes "rearranged l r d ids d' ids'" "l' \<le> l" "r \<le> r'"
  shows "rearranged l' r' d ids d' ids'"
  unfolding rearranged_def
proof (intro conjI allI impI)
  fix k assume k: "l' \<le> k \<and> k < r'"
  show "\<exists>j. l' \<le> j \<and> j < r' \<and> d' ! k = d ! j"
  proof (cases "l \<le> k \<and> k < r")
    case True
    then show ?thesis using assms unfolding rearranged_def by (metis le_trans less_le_trans)
  next
    case False
    then have "k < l \<or> r \<le> k" by auto
    then show ?thesis using assms k unfolding rearranged_def by blast
  qed
qed (use assms in \<open>auto simp: rearranged_def\<close>)

lemma rearranged_all:
  assumes "rearranged l r d ids d' ids'" "\<forall>j. l \<le> j \<and> j < r \<longrightarrow> P (d ! j)" "l \<le> k" "k < r"
  shows "P (d' ! k)"
  using assms unfolding rearranged_def by metis

lemma rearranged_length: "rearranged l r d ids d' ids' \<Longrightarrow> length d' = length d \<and> length ids' = length ids"
  by (simp add: rearranged_def)

lemma rearranged_outside:
  "rearranged l r d ids d' ids' \<Longrightarrow> k < l \<or> r \<le> k \<Longrightarrow> d' ! k = d ! k"
  by (auto simp: rearranged_def)

definition swapped :: "'a list \<Rightarrow> nat \<Rightarrow> nat \<Rightarrow> 'a list" where
  "swapped d x y = d[x := d ! y, y := d ! x]"

lemma Swap_eq: "x < length d \<Longrightarrow> y < length d \<Longrightarrow> Swap d x y = Some (swapped d x y)"
  by (cases "x = y") (auto simp: Swap_def swapped_def go_simps)

lemma length_swapped [simp]: "length (swapped d x y) = length d"
  by (simp add: swapped_def)

lemma nth_swapped:
  "x < length d \<Longrightarrow> y < length d \<Longrightarrow>
   swapped d x y ! k = (if k = y then d ! x else if k = x then d ! y else d ! k)"
  by (auto simp: swapped_def nth_list_update)

lemma zip_swapped:
  "x < length d \<Longrightarrow> y < length d \<Longrightarrow> length ids = length d \<Longrightarrow>
   zip (swapped d x y) (swapped ids x y) = swapped (zip d ids) x y"
  by (simp add: swapped_def zip_update)

lemma mset_swapped: "x < length d \<Longrightarrow> y < length d \<Longrightarrow> mset (swapped d x y) = mset d"
  by (simp add: swapped_def mset_swap)

lemma rearranged_swapped:
  assumes "x < length d" "y < length d" "length ids = length d" "l \<le> x" "x < r" "l \<le> y" "y < r"
  shows "rearranged l r d ids (swapped d x y) (swapped ids x y)"
  using assms by (auto simp: rearranged_def zip_swapped mset_swapped nth_swapped)

subsection \<open>The order and sorted ranges\<close>

definition ord :: "bool \<Rightarrow> int \<Rightarrow> int \<Rightarrow> bool" where
  "ord asc a b \<longleftrightarrow> (if asc then a \<le> b else a \<ge> b)"

lemma ord_refl [simp]: "ord asc a a" by (simp add: ord_def)

lemma ord_trans: "ord asc a b \<Longrightarrow> ord asc b c \<Longrightarrow> ord asc a c"
  by (auto simp: ord_def split: if_splits)

lemma ord_total: "\<not> ord asc a b \<Longrightarrow> ord asc b a"
  by (auto simp: ord_def split: if_splits)

lemma ord_code:
  "(if asc then a \<le> b else a \<ge> b) = ord asc a b"
  "(if asc then a > b else a < b) = (\<not> ord asc a b)"
  by (auto simp: ord_def)

text \<open>\<open>below\<close>: the element at \<open>i\<close> is in order with everything in the range that follows.\<close>

definition below :: "bool \<Rightarrow> int list \<Rightarrow> nat \<Rightarrow> nat \<Rightarrow> nat \<Rightarrow> bool" where
  "below asc d i x r \<longleftrightarrow> (\<forall>j. x \<le> j \<and> j < r \<longrightarrow> ord asc (d ! i) (d ! j))"

definition sorted_range :: "bool \<Rightarrow> int list \<Rightarrow> nat \<Rightarrow> nat \<Rightarrow> bool" where
  "sorted_range asc d l r \<longleftrightarrow> (\<forall>i j. l \<le> i \<and> i \<le> j \<and> j < r \<longrightarrow> ord asc (d ! i) (d ! j))"

text \<open>The prefix up to \<open>x\<close> is final: sorted and in order with the rest of the range.\<close>

definition settled :: "bool \<Rightarrow> int list \<Rightarrow> nat \<Rightarrow> nat \<Rightarrow> nat \<Rightarrow> bool" where
  "settled asc d l x r \<longleftrightarrow> (\<forall>i. l \<le> i \<and> i < x \<longrightarrow> below asc d i i r)"

lemma settled_self [simp]: "settled asc d l l r"
  by (auto simp: settled_def)

lemma settled_all: "settled asc d l r r \<Longrightarrow> sorted_range asc d l r"
  by (auto simp: settled_def sorted_range_def below_def)

lemma settled_Suc: "settled asc d l x r \<Longrightarrow> below asc d x x r \<Longrightarrow> settled asc d l (Suc x) r"
  by (auto simp: settled_def less_Suc_eq)

lemma settled_rearranged:
  assumes "settled asc d l x r" "rearranged x r d ids d' ids'"
  shows "settled asc d' l x r"
  unfolding settled_def below_def
proof (intro allI impI)
  fix i j assume i: "l \<le> i \<and> i < x" and j: "i \<le> j \<and> j < r"
  have di: "d' ! i = d ! i" using rearranged_outside [OF assms(2)] i by simp
  have all: "\<forall>k. i \<le> k \<and> k < r \<longrightarrow> ord asc (d ! i) (d ! k)"
    using assms(1) i by (simp add: settled_def below_def)
  show "ord asc (d' ! i) (d' ! j)"
  proof (cases "x \<le> j")
    case True
    then show ?thesis
      using rearranged_all [OF assms(2), of "ord asc (d ! i)" j] all i j di by simp
  next
    case False
    then have "d' ! j = d ! j" using rearranged_outside [OF assms(2)] by simp
    then show ?thesis using all i j di by simp
  qed
qed

subsection \<open>The exchange sort is correct\<close>

lemma InplaceInsertionSort_inner_correct:
  assumes "x < y" "y \<le> r" "r \<le> length d" "length ids = length d" "below asc d x x y"
  shows "\<exists>d' ids'. InplaceInsertionSort_inner d ids x y r asc = Some (d', ids') \<and>
    rearranged x r d ids d' ids' \<and> below asc d' x x r"
  using assms
proof (induction "r - y" arbitrary: y d ids)
  case 0
  then show ?case by (auto simp: InplaceInsertionSort_inner.simps [of d])
next
  case (Suc n)
  then have y: "y < r" and n: "n = r - Suc y" by auto
  show ?case
  proof (cases "ord asc (d ! x) (d ! y)")
    case True
    then have "below asc d x x (Suc y)"
      using Suc.prems by (auto simp: below_def less_Suc_eq)
    with Suc.hyps(1) [of "Suc y" d ids] n Suc.prems y True show ?thesis
      by (simp add: InplaceInsertionSort_inner.simps [of d] go_simps ord_code)
  next
    case False
    let ?d = "swapped d x y" and ?ids = "swapped ids x y"
    have "below asc ?d x x (Suc y)"
      using Suc.prems y False ord_total [OF False]
      by (auto simp: below_def nth_swapped less_Suc_eq intro: ord_trans)
    with Suc.hyps(1) [of "Suc y" ?d ?ids] n Suc.prems y obtain d' ids' where r:
      "InplaceInsertionSort_inner ?d ?ids x (Suc y) r asc = Some (d', ids')"
      "rearranged x r ?d ?ids d' ids'" "below asc d' x x r" by auto
    moreover have "rearranged x r d ids ?d ?ids"
      using Suc.prems y by (intro rearranged_swapped) auto
    ultimately show ?thesis
      using Suc.prems y False rearranged_trans
      by (simp add: InplaceInsertionSort_inner.simps [of d] go_simps ord_code Swap_eq)
  qed
qed

lemma InplaceInsertionSort_settles:
  assumes "x \<le> r" "r \<le> length d" "length ids = length d" "settled asc d l x r" "l \<le> x"
  shows "\<exists>d' ids'. InplaceInsertionSort d ids x r asc = Some (d', ids') \<and>
    rearranged x r d ids d' ids' \<and> settled asc d' l r r"
  using assms
proof (induction "r - x" arbitrary: x d ids)
  case 0
  then show ?case by (auto simp: InplaceInsertionSort.simps [of d])
next
  case (Suc n)
  then have x: "x < r" and n: "n = r - Suc x" by auto
  have "below asc d x x (Suc x)" by (auto simp: below_def less_Suc_eq le_less_Suc_eq)
  then obtain d1 ids1 where 1:
    "InplaceInsertionSort_inner d ids x (Suc x) r asc = Some (d1, ids1)"
    "rearranged x r d ids d1 ids1" "below asc d1 x x r"
    using InplaceInsertionSort_inner_correct [of x "Suc x" r d ids asc] Suc.prems x by auto
  have "settled asc d1 l (Suc x) r"
    using settled_rearranged [OF Suc.prems(4) 1(2)] 1(3) by (rule settled_Suc)
  then obtain d2 ids2 where 2:
    "InplaceInsertionSort d1 ids1 (Suc x) r asc = Some (d2, ids2)"
    "rearranged (Suc x) r d1 ids1 d2 ids2" "settled asc d2 l r r"
    using Suc.hyps(1) [of "Suc x" d1 ids1] n Suc.prems x rearranged_length [OF 1(2)] by auto
  have "rearranged x r d ids d2 ids2"
    using 1(2) rearranged_mono [OF 2(2)] by (rule rearranged_trans) auto
  then show ?case using 1 2 x by (simp add: InplaceInsertionSort.simps [of d])
qed

lemma InplaceInsertionSort_correct:
  assumes "l \<le> r" "r \<le> length d" "length ids = length d"
  shows "\<exists>d' ids'. InplaceInsertionSort d ids l r asc = Some (d', ids') \<and>
    rearranged l r d ids d' ids' \<and> sorted_range asc d' l r"
  using InplaceInsertionSort_settles [OF assms settled_self order_refl] settled_all by blast

subsection \<open>The parts of the merge\<close>

lemma MinRange_loop_correct:
  assumes "l \<le> r" "r \<le> length d" "x \<le> i" "i < l" "v = d ! i" "\<forall>j. x \<le> j \<and> j < l \<longrightarrow> v \<le> d ! j"
  shows "\<exists>i'. MinRange_loop d v i l r = Some (d ! i', i') \<and> x \<le> i' \<and> i' < r \<and>
    (\<forall>j. x \<le> j \<and> j < r \<longrightarrow> d ! i' \<le> d ! j)"
  using assms
proof (induction "r - l" arbitrary: l v i)
  case 0
  then show ?case by (auto simp: MinRange_loop.simps [of d])
next
  case (Suc n)
  then have l: "l < r" and n: "n = r - Suc l" by auto
  show ?case
  proof (cases "d ! l \<le> v")
    case True
    have "\<forall>j. x \<le> j \<and> j < Suc l \<longrightarrow> d ! l \<le> d ! j"
      using Suc.prems(6) True by (metis less_Suc_eq order_refl order_trans)
    with Suc.hyps(1) [of "Suc l" l "d ! l"] n Suc.prems l True show ?thesis
      by (simp add: MinRange_loop.simps [of d _ i l] go_simps)
  next
    case False
    have "\<forall>j. x \<le> j \<and> j < Suc l \<longrightarrow> v \<le> d ! j"
      using Suc.prems(6) False by (metis less_Suc_eq linear)
    with Suc.hyps(1) [of "Suc l" i v] n Suc.prems l False show ?thesis
      by (simp add: MinRange_loop.simps [of d _ i l] go_simps)
  qed
qed

lemma MaxRange_loop_correct:
  assumes "l \<le> r" "r \<le> length d" "x \<le> i" "i < l" "v = d ! i" "\<forall>j. x \<le> j \<and> j < l \<longrightarrow> d ! j \<le> v"
  shows "\<exists>i'. MaxRange_loop d v i l r = Some (d ! i', i') \<and> x \<le> i' \<and> i' < r \<and>
    (\<forall>j. x \<le> j \<and> j < r \<longrightarrow> d ! j \<le> d ! i')"
  using assms
proof (induction "r - l" arbitrary: l v i)
  case 0
  then show ?case by (auto simp: MaxRange_loop.simps [of d])
next
  case (Suc n)
  then have l: "l < r" and n: "n = r - Suc l" by auto
  show ?case
  proof (cases "v \<le> d ! l")
    case True
    have "\<forall>j. x \<le> j \<and> j < Suc l \<longrightarrow> d ! j \<le> d ! l"
      using Suc.prems(6) True by (metis less_Suc_eq order_refl order_trans)
    with Suc.hyps(1) [of "Suc l" l "d ! l"] n Suc.prems l True show ?thesis
      by (simp add: MaxRange_loop.simps [of d _ i l] go_simps)
  next
    case False
    have "\<forall>j. x \<le> j \<and> j < Suc l \<longrightarrow> d ! j \<le> v"
      using Suc.prems(6) False by (metis less_Suc_eq linear)
    with Suc.hyps(1) [of "Suc l" i v] n Suc.prems l False show ?thesis
      by (simp add: MaxRange_loop.simps [of d _ i l] go_simps)
  qed
qed

lemma range_extremum:
  assumes "x < r" "r \<le> length d"
  shows "\<exists>v i. (if asc then MinRange d x r else MaxRange d x r) = Some (v, i) \<and> x \<le> i \<and> i < r \<and>
    below asc d i x r"
proof -
  have "\<forall>j. x \<le> j \<and> j < Suc x \<longrightarrow> d ! x \<le> d ! j" "\<forall>j. x \<le> j \<and> j < Suc x \<longrightarrow> d ! j \<le> d ! x"
    by (auto simp: le_less_Suc_eq)
  then show ?thesis
    using MinRange_loop_correct [of "Suc x" r d x x "d ! x"] MaxRange_loop_correct [of "Suc x" r d x x "d ! x"] assms
    by (auto simp: MinRange_def MaxRange_def go_simps below_def ord_def)
qed

text \<open>\<open>minY\<close> extends the settled prefix and stops at the end or at a later extremum.\<close>

lemma minY_correct:
  assumes "x \<le> r" "r \<le> length d" "settled asc d l x r"
  shows "\<exists>x' y'. minY d x y r asc = Some (x', y') \<and> x \<le> x' \<and> x' \<le> r \<and> settled asc d l x' r \<and>
    (x' < r \<longrightarrow> x' < y' \<and> y' < r \<and> below asc d y' x' r)"
  using assms
proof (induction "r - x" arbitrary: x y)
  case 0
  then show ?case by (auto simp: minY.simps [of d])
next
  case (Suc n)
  then have x: "x < r" and n: "n = r - Suc x" by auto
  obtain v i where e: "(if asc then MinRange d x r else MaxRange d x r) = Some (v, i)"
    "x \<le> i" "i < r" "below asc d i x r"
    using range_extremum [OF x Suc.prems(2)] by blast
  show ?case
  proof (cases "i = x")
    case False
    then show ?thesis using e x Suc.prems by (auto simp: minY.simps [of d x])
  next
    case True
    then have "settled asc d l (Suc x) r" using Suc.prems(3) e(4) by (auto intro: settled_Suc)
    then obtain x' y' where "minY d (Suc x) i r asc = Some (x', y')" "Suc x \<le> x'" "x' \<le> r"
      "settled asc d l x' r" "x' < r \<longrightarrow> x' < y' \<and> y' < r \<and> below asc d y' x' r"
      using Suc.hyps(1) [of "Suc x" i] n Suc.prems x by auto
    then show ?thesis using e(1) True x by (auto simp: minY.simps [of d x y])
  qed
qed

lemma moveY_loop_correct:
  "y \<le> r \<Longrightarrow> r \<le> length d \<Longrightarrow> x < length d \<Longrightarrow> yorg < length d \<Longrightarrow>
   \<exists>y'. moveY_loop d x yorg y r asc = Some y' \<and> y \<le> y' \<and> y' \<le> r"
proof (induction "r - y" arbitrary: y)
  case 0
  then show ?case by (auto simp: moveY_loop.simps [of d])
next
  case (Suc n)
  then have y: "y < r" and n: "n = r - Suc y" by auto
  from Suc.hyps(1) [of "Suc y"] n Suc.prems y obtain y' where
    "moveY_loop d x yorg (Suc y) r asc = Some y'" "Suc y \<le> y'" "y' \<le> r" by auto
  then show ?case using Suc.prems y by (auto simp: moveY_loop.simps [of d x yorg y] go_simps)
qed

lemma inplaceMultiswap_correct:
  assumes "x < y" "ylast \<le> r" "r \<le> length d" "length ids = length d"
  shows "\<exists>d' ids' y'. inplaceMultiswap d ids x y ylast = Some (d', ids', y') \<and>
    rearranged x r d ids d' ids' \<and> (y < ylast \<longrightarrow> d' ! x = d ! y)"
  using assms
proof (induction "ylast - y" arbitrary: x y d ids)
  case 0
  then show ?case by (auto simp: inplaceMultiswap.simps [of d])
next
  case (Suc n)
  let ?d = "swapped d x y" and ?ids = "swapped ids x y"
  from Suc have y: "y < ylast" "y < length d" "x < length d" and n: "n = ylast - Suc y" by auto
  have sw: "rearranged x r d ids ?d ?ids" using Suc.prems y by (intro rearranged_swapped) auto
  have dx: "?d ! x = d ! y" using Suc.prems y by (simp add: nth_swapped)
  show ?case
  proof (cases "Suc y \<ge> ylast \<or> ?d ! Suc x \<le> ?d ! Suc y")
    case True
    then show ?thesis
      using y sw dx Suc.prems by (auto simp: inplaceMultiswap.simps [of d] Swap_eq go_simps)
  next
    case False
    then obtain d' ids' y' where r: "inplaceMultiswap ?d ?ids (Suc x) (Suc y) ylast = Some (d', ids', y')"
      "rearranged (Suc x) r ?d ?ids d' ids'"
      using Suc.hyps(1) [of "Suc y" "Suc x" ?d ?ids] n Suc.prems y by auto
    have "rearranged x r d ids d' ids'"
      using sw rearranged_mono [OF r(2)] by (rule rearranged_trans) auto
    moreover have "d' ! x = d ! y" using rearranged_outside [OF r(2), of x] dx by simp
    ultimately show ?thesis
      using y r False Suc.prems by (simp add: inplaceMultiswap.simps [of d] Swap_eq go_simps)
  qed
qed

subsection \<open>The merge loop is correct\<close>

text \<open>
  What holds at the head of the loop while elements remain: either both runs are still sorted,
  or \<open>y\<close> is an extremum of the remaining range.
\<close>

definition merge_inv :: "bool \<Rightarrow> int list \<Rightarrow> nat \<Rightarrow> nat \<Rightarrow> nat \<Rightarrow> bool" where
  "merge_inv asc d x y r \<longleftrightarrow> x < y \<and> y < r \<and>
     (sorted_range asc d x y \<and> sorted_range asc d y r \<or> below asc d y x r)"

lemma merge_inv_take:
  assumes "merge_inv asc d x y r" "ord asc (d ! x) (d ! y)"
  shows "below asc d x x r" "Suc x < y \<Longrightarrow> merge_inv asc d (Suc x) y r"
proof -
  show "below asc d x x r"
    unfolding below_def
  proof (intro allI impI)
    fix j assume j: "x \<le> j \<and> j < r"
    show "ord asc (d ! x) (d ! j)"
    proof (cases "below asc d y x r")
      case True
      then show ?thesis using assms(2) j by (auto simp: below_def intro: ord_trans)
    next
      case False
      then have "sorted_range asc d x y" "sorted_range asc d y r" and xy: "x < y" "y < r"
        using assms(1) by (auto simp: merge_inv_def)
      then have "j < y \<Longrightarrow> ord asc (d ! x) (d ! j)" "y \<le> j \<Longrightarrow> ord asc (d ! y) (d ! j)"
        using j by (auto simp: sorted_range_def)
      then show ?thesis using assms(2) by (cases "j < y") (auto intro: ord_trans)
    qed
  qed
  show "Suc x < y \<Longrightarrow> merge_inv asc d (Suc x) y r"
    using assms(1) by (auto simp: merge_inv_def sorted_range_def below_def)
qed

lemma merge_inv_swap:
  assumes "merge_inv asc d x y r" "\<not> ord asc (d ! x) (d ! y)"
  shows "below asc d y x r"
  unfolding below_def
proof (intro allI impI)
  fix j assume j: "x \<le> j \<and> j < r"
  show "ord asc (d ! y) (d ! j)"
  proof (cases "below asc d y x r")
    case True
    then show ?thesis using j by (simp add: below_def)
  next
    case False
    then have "sorted_range asc d x y" "sorted_range asc d y r" and xy: "x < y" "y < r"
      using assms(1) by (auto simp: merge_inv_def)
    then have "j < y \<Longrightarrow> ord asc (d ! x) (d ! j)" "y \<le> j \<Longrightarrow> ord asc (d ! y) (d ! j)"
      using j by (auto simp: sorted_range_def)
    then show ?thesis using ord_total [OF assms(2)] by (cases "j < y") (auto intro: ord_trans)
  qed
qed

text \<open>The rounds that remain: two per element, one less when the next round takes an element.\<close>

definition merge_rounds :: "bool \<Rightarrow> int list \<Rightarrow> nat \<Rightarrow> nat \<Rightarrow> nat \<Rightarrow> nat" where
  "merge_rounds asc d x y r = 2 * (r - x) + (if x < r \<and> \<not> ord asc (d ! x) (d ! y) then 1 else 0)"

lemma merge_rounds_decreases:
  "x < r \<Longrightarrow> x < x' \<Longrightarrow> merge_rounds asc d' x' y' r < merge_rounds asc d x y r"
  by (auto simp: merge_rounds_def)

text \<open>After the swap the element at \<open>x\<close> is in order with the rest of the range.\<close>

lemma merge_swap_below:
  assumes "rearranged x r d ids d' ids'" "d' ! x = d ! y" "below asc d y x r"
  shows "below asc d' x x r"
  unfolding below_def
  using rearranged_all [OF assms(1), of "ord asc (d ! y)"] assms(2,3) by (simp add: below_def)

text \<open>One round of the loop that takes the element at \<open>x\<close> and finds the next extremum.\<close>

lemma merge_next_step:
  assumes "x < r" "r \<le> length d" "settled asc d l (Suc x) r"
  shows "\<exists>x' y'. minY d (Suc x) y r asc = Some (x', y') \<and> x < x' \<and> x' \<le> r \<and> settled asc d l x' r \<and>
    (x' < r \<longrightarrow> merge_inv asc d x' y' r) \<and> merge_rounds asc d x' y' r < merge_rounds asc d x y r"
  using minY_correct [OF _ assms(2,3), of y] assms(1)
  by (fastforce simp: merge_inv_def Suc_le_eq intro: merge_rounds_decreases)

text \<open>One round of the loop that swaps.\<close>

lemma merge_swap_step:
  assumes "x < r" "merge_inv asc d x y r" "\<not> ord asc (d ! x) (d ! y)"
    and "r \<le> length d" "length ids = length d" "settled asc d l x r"
  shows "\<exists>yl d1 ids1 y1 x' y'. moveY d x y r asc = Some yl \<and>
    inplaceMultiswap d ids x y yl = Some (d1, ids1, y1) \<and> minY d1 x y r asc = Some (x', y') \<and>
    rearranged x r d ids d1 ids1 \<and> x \<le> x' \<and> x' \<le> r \<and> settled asc d1 l x' r \<and>
    (x' < r \<longrightarrow> merge_inv asc d1 x' y' r) \<and> merge_rounds asc d1 x' y' r < merge_rounds asc d x y r"
proof -
  have xy: "x < y" "y < r" using assms(2) by (auto simp: merge_inv_def)
  obtain yl where yl: "moveY d x y r asc = Some yl" "Suc y \<le> yl" "yl \<le> r"
    using moveY_loop_correct [of "Suc y" r d x y asc] xy assms by (auto simp: moveY_def)
  obtain d1 ids1 y1 where s: "inplaceMultiswap d ids x y yl = Some (d1, ids1, y1)"
    "rearranged x r d ids d1 ids1" "d1 ! x = d ! y"
    using inplaceMultiswap_correct [OF xy(1) yl(3) assms(4,5)] yl(2) by auto
  have b: "below asc d1 x x r"
    using merge_swap_below [OF s(2,3) merge_inv_swap [OF assms(2,3)]] .
  obtain x' y' where m: "minY d1 x y r asc = Some (x', y')" "x \<le> x'" "x' \<le> r"
    "settled asc d1 l x' r" "x' < r \<longrightarrow> x' < y' \<and> y' < r \<and> below asc d1 y' x' r"
    using minY_correct [of x r d1 asc l y] settled_rearranged [OF assms(6) s(2)]
      assms rearranged_length [OF s(2)] by auto
  have "merge_rounds asc d1 x' y' r < merge_rounds asc d x y r"
  proof (cases "x' = x")
    case False
    then show ?thesis using m(2) by (intro merge_rounds_decreases [OF assms(1)]) simp
  next
    case True
    then have "ord asc (d1 ! x') (d1 ! y')" using m(5) b assms(1) by (auto simp: below_def)
    then show ?thesis using assms(1,3) True by (simp add: merge_rounds_def)
  qed
  then show ?thesis using yl s m by (auto simp: merge_inv_def)
qed

lemma inplaceMerge_loop_correct:
  assumes "merge_rounds asc d x y r < fuel" "r \<le> length d" "length ids = length d" "l \<le> x" "x \<le> r"
    "settled asc d l x r" "x < r \<longrightarrow> merge_inv asc d x y r"
  shows "\<exists>d' ids'. inplaceMerge_loop fuel d ids x y r asc = Some (d', ids') \<and>
    rearranged l r d ids d' ids' \<and> sorted_range asc d' l r"
  using assms
proof (induction fuel arbitrary: d ids x y)
  case (Suc fuel)
  show ?case
  proof (cases "x < r")
    case False
    with Suc.prems have "sorted_range asc d l r" by (auto intro: settled_all)
    with False show ?thesis by simp
  next
    case True
    with Suc.prems(7) have inv: "merge_inv asc d x y r" and xy: "x < y" "y < r"
      by (auto simp: merge_inv_def)
    show ?thesis
    proof (cases "ord asc (d ! x) (d ! y)")
      case take: True
      note T = merge_inv_take [OF inv take]
      have S: "settled asc d l (Suc x) r" using Suc.prems(6) T(1) by (rule settled_Suc)
      have "\<exists>d' ids'. inplaceMerge_loop fuel d ids (Suc x) y r asc = Some (d', ids') \<and>
          rearranged l r d ids d' ids' \<and> sorted_range asc d' l r" if "Suc x < y"
        using that Suc.prems True S T(2) merge_rounds_decreases [OF True, of "Suc x" asc d y d y]
        by (intro Suc.IH) auto
      moreover obtain x' y' where m: "minY d (Suc x) y r asc = Some (x', y')" "x < x'" "x' \<le> r"
        "settled asc d l x' r" "x' < r \<longrightarrow> merge_inv asc d x' y' r"
        "merge_rounds asc d x' y' r < merge_rounds asc d x y r"
        using merge_next_step [OF True Suc.prems(2) S] by blast
      then have "\<exists>d' ids'. inplaceMerge_loop fuel d ids x' y' r asc = Some (d', ids') \<and>
          rearranged l r d ids d' ids' \<and> sorted_range asc d' l r"
        using Suc.prems by (intro Suc.IH) auto
      ultimately show ?thesis
        using xy True take Suc.prems m by (simp add: go_simps ord_code)
    next
      case swap: False
      obtain yl d1 ids1 y1 x' y' where s: "moveY d x y r asc = Some yl"
        "inplaceMultiswap d ids x y yl = Some (d1, ids1, y1)" "minY d1 x y r asc = Some (x', y')"
        "rearranged x r d ids d1 ids1" "x \<le> x'" "x' \<le> r" "settled asc d1 l x' r"
        "x' < r \<longrightarrow> merge_inv asc d1 x' y' r" "merge_rounds asc d1 x' y' r < merge_rounds asc d x y r"
        using merge_swap_step [OF True inv swap Suc.prems(2,3,6)] by blast
      then have "\<exists>d' ids'. inplaceMerge_loop fuel d1 ids1 x' y' r asc = Some (d', ids') \<and>
          rearranged l r d1 ids1 d' ids' \<and> sorted_range asc d' l r"
        using Suc.prems rearranged_length [OF s(4)] by (intro Suc.IH) auto
      moreover have "rearranged l r d ids d1 ids1" using rearranged_mono [OF s(4)] Suc.prems(4) by simp
      ultimately show ?thesis
        using xy True swap Suc.prems s rearranged_trans by (simp add: go_simps ord_code) blast
    qed
  qed
qed simp

lemma inplaceMerge_correct:
  assumes "l < c" "c < r" "r \<le> length d" "length ids = length d"
    "sorted_range asc d l c" "sorted_range asc d c r"
  shows "\<exists>d' ids'. inplaceMerge d ids l c r asc = Some (d', ids') \<and>
    rearranged l r d ids d' ids' \<and> sorted_range asc d' l r"
  unfolding inplaceMerge_def
  using assms by (intro inplaceMerge_loop_correct) (auto simp: merge_rounds_def merge_inv_def)

lemma sorted_range_rearranged_outside:
  assumes "sorted_range asc d l c" "rearranged c r d ids d' ids'"
  shows "sorted_range asc d' l c"
  using assms rearranged_outside [OF assms(2)] by (simp add: sorted_range_def)

lemma sorted_range_append:
  assumes "sorted_range asc d l c" "sorted_range asc d c r" "ord asc (d ! (c - 1)) (d ! c)" "l < c"
  shows "sorted_range asc d l r"
  unfolding sorted_range_def
proof (intro allI impI)
  fix i j assume ij: "l \<le> i \<and> i \<le> j \<and> j < r"
  show "ord asc (d ! i) (d ! j)"
  proof (cases "j < c \<or> c \<le> i")
    case True
    then show ?thesis using assms(1,2) ij by (auto simp: sorted_range_def)
  next
    case False
    then have "ord asc (d ! i) (d ! (c - 1))" "ord asc (d ! c) (d ! j)"
      using assms(1,2,4) ij by (auto simp: sorted_range_def)
    then show ?thesis using assms(3) ord_trans by blast
  qed
qed

lemma InplaceMergesort_correct:
  assumes "l \<le> r" "r \<le> length d" "length ids = length d"
  shows "\<exists>d' ids'. InplaceMergesort d ids l r asc = Some (d', ids') \<and>
    rearranged l r d ids d' ids' \<and> sorted_range asc d' l r"
  using assms
proof (induction "r - l" arbitrary: l r d ids rule: less_induct)
  case less
  show ?case
  proof (cases "r \<le> l + 7")
    case True
    then show ?thesis
      using InplaceInsertionSort_correct [OF less.prems] by (simp add: InplaceMergesort.simps [of d])
  next
    case False
    define c where "c = (r + l) div 2 + (r + l) mod 2"
    have c: "l < c" "c < r" using mid_bounds [OF False] by (auto simp: c_def)
    then have m: "c - l < r - l" "r - c < r - l" by auto
    obtain d1 ids1 where 1: "InplaceMergesort d ids l c asc = Some (d1, ids1)"
      "rearranged l c d ids d1 ids1" "sorted_range asc d1 l c"
      using less.hyps [OF m(1), of d ids] less.prems c by auto
    note len1 = rearranged_length [OF 1(2)]
    obtain d2 ids2 where 2: "InplaceMergesort d1 ids1 c r asc = Some (d2, ids2)"
      "rearranged c r d1 ids1 d2 ids2" "sorted_range asc d2 c r"
      using less.hyps [OF m(2), of d1 ids1] less.prems c len1 by auto
    note len2 = rearranged_length [OF 2(2)]
    have s2: "sorted_range asc d2 l c" using sorted_range_rearranged_outside [OF 1(3) 2(2)] .
    have r2: "rearranged l r d ids d2 ids2"
      using rearranged_trans [OF rearranged_mono [OF 1(2), of l r] rearranged_mono [OF 2(2), of l r]] c
      by simp
    have eq: "InplaceMergesort d ids l r asc =
      (if ord asc (d2 ! (c - 1)) (d2 ! c) then Some (d2, ids2) else inplaceMerge d2 ids2 l c r asc)"
      using False 1(1) 2(1) c less.prems len1 len2
      by (simp add: InplaceMergesort.simps [of d] c_def [symmetric] go_simps ord_code)
    obtain d3 ids3 where 3: "inplaceMerge d2 ids2 l c r asc = Some (d3, ids3)"
      "rearranged l r d2 ids2 d3 ids3" "sorted_range asc d3 l r"
      using inplaceMerge_correct [OF c, of d2 ids2 asc] s2 2(3) less.prems len1 len2 by auto
    show ?thesis
      using eq 3 r2 rearranged_trans [OF r2 3(2)] sorted_range_append [OF s2 2(3) _ c(1)] by auto
  qed
qed

subsection \<open>The sorter interface\<close>

text \<open>
  What \<open>IndirectSort\<close> needs of a sort of a range with its indices. Both sorts of the package
  provide it.
\<close>

locale index_sorter =
  fixes srt :: "int list \<Rightarrow> int list \<Rightarrow> nat \<Rightarrow> nat \<Rightarrow> bool \<Rightarrow> (int list \<times> int list) option"
  assumes srt_correct: "l \<le> r \<Longrightarrow> r \<le> length d \<Longrightarrow> length ids = length d \<Longrightarrow>
    \<exists>d' ids'. srt d ids l r asc = Some (d', ids') \<and>
      rearranged l r d ids d' ids' \<and> sorted_range asc d' l r"
begin

lemma srt_whole:
  "\<exists>d' ids'. srt d (map int [0..<length d]) 0 (length d) asc = Some (d', ids') \<and>
     sorted_wrt (ord asc) d' \<and> mset d' = mset d \<and>
     mset ids' = mset (map int [0..<length d]) \<and> d' = map (\<lambda>i. d ! nat i) ids'"
proof -
  let ?ids = "map int [0..<length d]"
  obtain d' ids' where s: "srt d ?ids 0 (length d) asc = Some (d', ids')"
    "rearranged 0 (length d) d ?ids d' ids'" "sorted_range asc d' 0 (length d)"
    using srt_correct [of 0 "length d" d ?ids asc] by auto
  have len: "length d' = length d" "length ids' = length d" and z: "mset (zip d' ids') = mset (zip d ?ids)"
    using s(2) by (auto simp: rearranged_def)
  have "mset (map fst (zip d' ids')) = mset (map fst (zip d ?ids))"
    "mset (map snd (zip d' ids')) = mset (map snd (zip d ?ids))"
    using z by (simp_all only: mset_map)
  then have m: "mset d' = mset d" "mset ids' = mset ?ids" using len by simp_all
  have "\<forall>p \<in> set (zip d' ids'). fst p = d ! nat (snd p)"
    using mset_eq_setD [OF z] by (auto simp: set_zip)
  then have "\<forall>k < length d. d' ! k = d ! nat (ids' ! k)" using len by (auto simp: set_zip)
  then have "d' = map (\<lambda>i. d ! nat i) ids'" using len by (intro nth_equalityI) auto
  moreover have "sorted_wrt (ord asc) d'"
    using s(3) len by (auto simp: sorted_range_def sorted_wrt_iff_nth_less)
  ultimately show ?thesis using s(1) m by blast
qed

end

interpretation mergesort: index_sorter InplaceMergesort
  by unfold_locales (rule InplaceMergesort_correct)

interpretation exchangesort: index_sorter InplaceInsertionSort
  by unfold_locales (rule InplaceInsertionSort_correct)

text \<open>
  C31: \<open>IndirectSort\<close> always returns; the data come out sorted in the requested order, they are
  a permutation of the input, and the returned indices are a permutation of all indices that
  describes the sort: the value at each place is the input at the returned index.
\<close>

theorem IndirectSort_correct:
  "\<exists>d' ids'. IndirectSort d asc = Some (d', ids') \<and>
     (asc \<longrightarrow> sorted d') \<and> (\<not> asc \<longrightarrow> sorted (rev d')) \<and> mset d' = mset d \<and>
     mset ids' = mset (map int [0..<length d]) \<and> d' = map (\<lambda>i. d ! nat i) ids'"
proof -
  obtain d' ids' where s: "IndirectSort d asc = Some (d', ids')" "sorted_wrt (ord asc) d'"
    "mset d' = mset d" "mset ids' = mset (map int [0..<length d])" "d' = map (\<lambda>i. d ! nat i) ids'"
    using mergesort.srt_whole [of d asc] unfolding IndirectSort_def by blast
  have "asc \<Longrightarrow> sorted d'" "\<not> asc \<Longrightarrow> sorted (rev d')"
    using s(2) by (simp_all add: ord_def [abs_def] sorted_wrt_rev)
  then show ?thesis using s by blast
qed

theorem IndirectSort_correct_witness:
  "\<exists>d' ids'. IndirectSort [3, 1, 2] True = Some (d', ids') \<and> sorted d' \<and> mset d' = mset [3, 1, 2 :: int]"
  using IndirectSort_correct [of "[3, 1, 2]" True] by auto

text \<open>
  C23: \<open>InplaceMergesort\<close> on any range inside the slice returns, sorts that range, moves data and
  indices together and touches nothing outside the range.
\<close>

theorem InplaceMergesort_range:
  assumes "l \<le> r" "r \<le> length d" "length ids = length d"
  shows "\<exists>d' ids'. InplaceMergesort d ids l r asc = Some (d', ids') \<and>
    sorted_range asc d' l r \<and> mset (zip d' ids') = mset (zip d ids) \<and>
    length d' = length d \<and> length ids' = length ids \<and>
    (\<forall>k. k < l \<or> r \<le> k \<longrightarrow> d' ! k = d ! k \<and> ids' ! k = ids ! k)"
  using mergesort.srt_correct [OF assms] unfolding rearranged_def by blast

theorem InplaceMergesort_range_witness:
  "\<exists>d' ids'. InplaceMergesort [9, 3, 1, 2] [0, 1, 2, 3] 1 4 True = Some (d', ids') \<and>
     sorted_range True d' 1 4 \<and> d' ! 0 = 9"
  using InplaceMergesort_range [of 1 4 "[9, 3, 1, 2]" "[0, 1, 2, 3]" True] by force

subsection \<open>SortByIndex\<close>

lemma SortByIndex_loop_correct:
  assumes "x \<le> length ids" "length ids = length newd" "\<forall>i \<in> set ids. 0 \<le> i \<and> nat i < length d"
  shows "SortByIndex_loop d ids x newd = Some (take x newd @ map (\<lambda>i. d ! nat i) (drop x ids))"
  using assms
proof (induction "length ids - x" arbitrary: x newd)
  case 0
  then show ?case by (simp add: SortByIndex_loop.simps [of d])
next
  case (Suc n)
  then have x: "x < length ids" and n: "n = length ids - Suc x" by auto
  then have "0 \<le> ids ! x \<and> nat (ids ! x) < length d" using Suc.prems(3) nth_mem by blast
  then have "SortByIndex_loop d ids x newd = SortByIndex_loop d ids (Suc x) (newd[x := d ! nat (ids ! x)])"
    using x Suc.prems by (simp add: SortByIndex_loop.simps [of d _ x] go_simps idxi_def)
  also have "\<dots> = Some (take x newd @ map (\<lambda>i. d ! nat i) (drop x ids))"
    using Suc.hyps(1) [OF n, of "newd[x := d ! nat (ids ! x)]"] Suc.prems x
    by (simp add: take_Suc_conv_app_nth Cons_nth_drop_Suc [symmetric])
  finally show ?case .
qed

text \<open>
  Applying the indices that \<open>IndirectSort\<close> returned to another slice of the original data
  with \<open>SortByIndex\<close> gives exactly the sorted data.
\<close>

theorem SortByIndex_IndirectSort:
  assumes "IndirectSort d asc = Some (d', ids')"
  shows "SortByIndex d ids' = Some d'"
proof -
  from assms mergesort.srt_whole [of d asc]
  have m: "mset ids' = mset (map int [0..<length d])" and d': "d' = map (\<lambda>i. d ! nat i) ids'"
    by (auto simp: IndirectSort_def)
  from mset_eq_setD [OF m] mset_eq_length [OF m]
  have "\<forall>i \<in> set ids'. 0 \<le> i \<and> nat i < length d" "length ids' = length d" by auto
  then show ?thesis
    using SortByIndex_loop_correct [of 0 ids' "replicate (length d) 0" d] d' by (simp add: SortByIndex_def)
qed

theorem SortByIndex_IndirectSort_witness:
  "IndirectSort [30, 10, 20] True = Some ([10, 20, 30], [1, 2, 0]) \<and>
   SortByIndex [30, 10, 20] [1, 2, 0] = Some [10, 20, 30]"
proof -
  have "IndirectSort [30, 10, 20] True = Some ([10, 20, 30], [1, 2, 0])" by code_simp
  then show ?thesis using SortByIndex_IndirectSort by blast
qed

subsection \<open>Extrema and counts\<close>

lemma Count_count_list: "Count d c = int (count_list d c)"
  by (induction d) auto

lemma Max_loop_correct:
  assumes "Max_loop d v i (length pre) = (w, k)" "i < length pre" "pre ! i = v"
    "\<forall>j < length pre. pre ! j \<le> v" "\<forall>j < i. pre ! j < v"
  shows "k < length (pre @ d) \<and> (pre @ d) ! k = w \<and> (\<forall>j < length (pre @ d). (pre @ d) ! j \<le> w) \<and>
    (\<forall>j < k. (pre @ d) ! j < w)"
  using assms
proof (induction d arbitrary: v i pre)
  case (Cons e d)
  show ?case
  proof (cases "e > v")
    case True
    with Cons.prems have "Max_loop d e (length pre) (length (pre @ [e])) = (w, k)" by simp
    moreover have "\<forall>j < length pre. pre ! j < e" using Cons.prems(4) True by force
    ultimately show ?thesis
      using Cons.IH [of e "length pre" "pre @ [e]"] by (simp add: nth_append less_Suc_eq_le le_less)
  next
    case False
    with Cons.prems have "Max_loop d v i (length (pre @ [e])) = (w, k)" by simp
    then show ?thesis
      using Cons.IH [of v i "pre @ [e]"] Cons.prems False by (simp add: nth_append)
  qed
qed simp

lemma ints_Max_correct:
  assumes "d \<noteq> []"
  shows "\<exists>v i. ints_Max d = (v, i, True) \<and> i < length d \<and> d ! i = v \<and> (\<forall>j < length d. d ! j \<le> v) \<and>
    (\<forall>j < i. d ! j < v)"
proof (cases d)
  case (Cons e ds)
  obtain v i where m: "Max_loop ds e 0 (length [e]) = (v, i)" by fastforce
  from Max_loop_correct [OF this] m show ?thesis by (simp add: ints_Max_def Cons)
qed (use assms in simp)

text \<open>
  \<open>MaxCountOf\<close> returns the first class of maximal count in the data; it reports failure
  exactly on empty classes (-1) or empty data (-2), and never panics.
\<close>

theorem MaxCountOf_correct:
  "(classes = [] \<longrightarrow> MaxCountOf d classes = Some (-1, False)) \<and>
   (classes \<noteq> [] \<and> d = [] \<longrightarrow> MaxCountOf d classes = Some (-2, False)) \<and>
   (classes \<noteq> [] \<and> d \<noteq> [] \<longrightarrow> (\<exists>i < length classes. MaxCountOf d classes = Some (classes ! i, True) \<and>
      (\<forall>j < length classes. count_list d (classes ! j) \<le> count_list d (classes ! i)) \<and>
      (\<forall>j < i. count_list d (classes ! j) < count_list d (classes ! i))))"
proof (cases "classes = [] \<or> d = []")
  case True
  then show ?thesis by (auto simp: MaxCountOf_def)
next
  case False
  then obtain v i where "ints_Max (Counts d classes) = (v, i, True)" "i < length classes"
    "Counts d classes ! i = v" "\<forall>j < length classes. Counts d classes ! j \<le> v"
    "\<forall>j < i. Counts d classes ! j < v"
    using ints_Max_correct [of "Counts d classes"] by (auto simp: Counts_def)
  with False show ?thesis
    by (auto simp: MaxCountOf_def Counts_def Count_count_list go_simps intro!: exI [of _ i])
qed

theorem MaxCountOf_correct_witness:
  "\<exists>i < length [5, 6, 7 :: int]. MaxCountOf [5, 6, 5, 6, 5] [5, 6, 7] = Some ([5, 6, 7] ! i, True)"
  using MaxCountOf_correct [of "[5, 6, 7]" "[5, 6, 5, 6, 5]"] by (metis list.distinct(1))

subsection \<open>Merging by distance, removing, summing\<close>

lemma MergeByDistance_loop_spaced:
  assumes "sorted (prev # ab)" "\<forall>v \<in> set (prev # ab). - (2 ^ 62) \<le> v \<and> v < 2 ^ 62"
    "0 \<le> distance" "distance < 2 ^ 62"
  shows "sorted_wrt (\<lambda>x y. x + distance < y) (prev # MergeByDistance_loop ab prev distance) \<and>
    set (MergeByDistance_loop ab prev distance) \<subseteq> set ab \<and>
    (\<forall>v \<in> set ab. \<exists>w \<in> set (prev # MergeByDistance_loop ab prev distance). w \<le> v \<and> v \<le> w + distance)"
  using assms
proof (induction ab arbitrary: prev)
  case (Cons v ab)
  have w: "wrap64 (prev + distance) = prev + distance" using Cons.prems by (intro wrap64_id) auto
  show ?case
  proof (cases "v > prev + distance")
    case True
    have IH: "sorted_wrt (\<lambda>x y. x + distance < y) (v # MergeByDistance_loop ab v distance)"
      "set (MergeByDistance_loop ab v distance) \<subseteq> set ab"
      "\<forall>u \<in> set ab. \<exists>w \<in> set (v # MergeByDistance_loop ab v distance). w \<le> u \<and> u \<le> w + distance"
      using Cons.IH [of v] Cons.prems by auto
    have "\<forall>u \<in> set (MergeByDistance_loop ab v distance). prev + distance < u"
      using IH(2) Cons.prems(1) True by force
    with IH True Cons.prems(3) w show ?thesis by auto
  next
    case False
    with Cons.IH [of prev] Cons.prems w show ?thesis by auto
  qed
qed simp

text \<open>
  The result of \<open>MergeByDistance\<close> is drawn from the two inputs, its elements are more than
  the distance apart, and every input element lies within the distance above one that is kept.
\<close>

theorem MergeByDistance_spaced:
  assumes "\<forall>v \<in> set a \<union> set b. - (2 ^ 62) \<le> v \<and> v < 2 ^ 62" "0 \<le> distance" "distance < 2 ^ 62"
  shows "sorted_wrt (\<lambda>x y. x + distance < y) (MergeByDistance a b distance) \<and>
    set (MergeByDistance a b distance) \<subseteq> set a \<union> set b \<and>
    (\<forall>v \<in> set a \<union> set b. \<exists>w \<in> set (MergeByDistance a b distance). w \<le> v \<and> v \<le> w + distance)"
proof (cases "sort (a @ b)")
  case Nil
  then have "a @ b = []" by (metis length_0_conv length_sort)
  then show ?thesis by (simp add: MergeByDistance_def)
next
  case (Cons v ab)
  have set: "set a \<union> set b = set (v # ab)" by (metis Cons set_append set_sort)
  have "sorted (v # ab)" by (metis Cons sorted_sort)
  from MergeByDistance_loop_spaced [OF this _ assms(2,3)] assms(1) set
  have L: "sorted_wrt (\<lambda>x y. x + distance < y) (v # MergeByDistance_loop ab v distance)"
    "set (MergeByDistance_loop ab v distance) \<subseteq> set ab"
    "\<forall>u \<in> set ab. \<exists>w \<in> set (v # MergeByDistance_loop ab v distance). w \<le> u \<and> u \<le> w + distance"
    by auto
  have eq: "MergeByDistance a b distance = v # MergeByDistance_loop ab v distance"
    using Cons by (cases "a @ b") (auto simp: MergeByDistance_def)
  show ?thesis unfolding eq set using L assms(2) by auto
qed

theorem MergeByDistance_spaced_witness:
  "MergeByDistance [1, 5, 9] [4, 11, 15] 3 = [1, 5, 9, 15] \<and>
   sorted_wrt (\<lambda>x y. x + 3 < y) (MergeByDistance [1, 5, 9] [4, 11, 15] 3)"
  using MergeByDistance_spaced [of "[1, 5, 9]" "[4, 11, 15]" 3]
  by (simp add: MergeByDistance_def)

lemma Remove_remove1: "Remove d v = (remove1 v d, v \<in> set d)"
  by (induction d) auto

lemma Sum_loop_wrap: "Sum_loop d (wrap64 acc) = wrap64 (acc + sum_list d)"
  by (induction d arbitrary: acc) (auto simp: wrap64_add add.assoc)

text \<open>
  \<open>Remove\<close> deletes the first occurrence of the value only and says whether there was one;
  \<open>Sum\<close> is the sum of the elements modulo the 64-bit wrap-around, exact when it is in range.
\<close>

theorem Remove_Sum_spec:
  "Remove d v = (remove1 v d, v \<in> set d) \<and> Sum d = wrap64 (sum_list d) \<and>
   (- (2 ^ 63) \<le> sum_list d \<and> sum_list d < 2 ^ 63 \<longrightarrow> Sum d = sum_list d)"
  using Sum_loop_wrap [of d 0] by (simp add: Remove_remove1 Sum_def)

theorem Remove_Sum_spec_witness:
  "Remove [3, 4, 3] 3 = ([4, 3], True) \<and> Sum [3, 4, 3] = 10"
  using Remove_Sum_spec [of "[3, 4, 3]" 3] by simp

end
