(* ===== verification/WsFrame.thy ===== *)
theory WsFrame
  imports Bytes
begin

unbundle bit_operations_syntax

section \<open>Package lib/websocket: frames\<close>

text \<open>
  A WebSocket frame and its wire format (\<open>src/lib/websocket/frame.go\<close>, with the constants of
  \<open>opcode.go\<close>, \<open>closecode.go\<close> and \<open>websocket.go\<close>). \<open>pack\<close> takes the value that
  \<open>rand.Uint32\<close> would return. \<open>unpack\<close> is resumable: it is called again on the same frame with the
  next packet until \<open>isComplete\<close>; the returned slice is what follows the frame (\<open>nil\<close> is \<open>[]\<close>).
  The unmasking writes into the consumed part of the caller's buffer, which nothing reads again.
\<close>

subsection \<open>Constants and data\<close>

definition OpcodeCont :: byte where "OpcodeCont = 0"
definition OpcodeText :: byte where "OpcodeText = 1"
definition OpcodeBin :: byte where "OpcodeBin = 2"
definition OpcodeClose :: byte where "OpcodeClose = 8"
definition OpcodePing :: byte where "OpcodePing = 9"
definition OpcodePong :: byte where "OpcodePong = 10"

definition StatusNormal :: u16 where "StatusNormal = 1000"
definition StatusBadRequest :: u16 where "StatusBadRequest = 1002"
definition StatusInvalidData :: u16 where "StatusInvalidData = 1007"

definition frameSmallPayload :: nat where "frameSmallPayload = 125"
definition frameMediumPayload :: u64 where "frameMediumPayload = 126"
definition frameLargePayload :: u64 where "frameLargePayload = 127"
definition frameIsFinished :: byte where "frameIsFinished = 0x80"
definition frameIsMasked :: byte where "frameIsMasked = 0x80"

lemmas ws_consts =
  OpcodeCont_def OpcodeText_def OpcodeBin_def OpcodeClose_def OpcodePing_def OpcodePong_def
  StatusNormal_def StatusBadRequest_def StatusInvalidData_def
  frameSmallPayload_def frameMediumPayload_def frameLargePayload_def
  frameIsFinished_def frameIsMasked_def

record Frame =
  fin :: byte
  rsv1 :: byte
  rsv2 :: byte
  rsv3 :: byte
  opcode :: byte
  masked :: byte
  closeCode :: u16
  flen :: u64
  maskKey :: bytes
  payload :: bytes
  chopped :: bytes
  isComplete :: bool

text \<open>\<open>&Frame{}\<close>: every field has its zero value.\<close>

definition newFrame0 :: Frame where
  "newFrame0 = \<lparr> fin = 0, rsv1 = 0, rsv2 = 0, rsv3 = 0, opcode = 0, masked = 0, closeCode = 0,
     flen = 0, maskKey = [], payload = [], chopped = [], isComplete = False \<rparr>"

subsection \<open>encoding/binary\<close>

definition BigEndian_Uint16 :: "bytes \<Rightarrow> u16" where
  "BigEndian_Uint16 b = push_bit 8 (ucast (b ! 0)) OR ucast (b ! 1)"

definition BigEndian_PutUint16 :: "u16 \<Rightarrow> bytes" where
  "BigEndian_PutUint16 v = [ucast (drop_bit 8 v), ucast v]"

definition BigEndian_Uint64 :: "bytes \<Rightarrow> u64" where
  "BigEndian_Uint64 b =
     push_bit 56 (ucast (b ! 0)) OR push_bit 48 (ucast (b ! 1)) OR push_bit 40 (ucast (b ! 2)) OR
     push_bit 32 (ucast (b ! 3)) OR push_bit 24 (ucast (b ! 4)) OR push_bit 16 (ucast (b ! 5)) OR
     push_bit 8 (ucast (b ! 6)) OR ucast (b ! 7)"

definition BigEndian_PutUint64 :: "u64 \<Rightarrow> bytes" where
  "BigEndian_PutUint64 v =
     [ucast (drop_bit 56 v), ucast (drop_bit 48 v), ucast (drop_bit 40 v), ucast (drop_bit 32 v),
      ucast (drop_bit 24 v), ucast (drop_bit 16 v), ucast (drop_bit 8 v), ucast v]"

definition LittleEndian_PutUint32 :: "u32 \<Rightarrow> bytes" where
  "LittleEndian_PutUint32 v =
     [ucast v, ucast (drop_bit 8 v), ucast (drop_bit 16 v), ucast (drop_bit 24 v)]"

subsection \<open>Packing\<close>

text \<open>The masking loops: byte \<open>k\<close> of the payload is combined with byte \<open>k % 4\<close> of the key.\<close>

fun xor_mask :: "bytes \<Rightarrow> nat \<Rightarrow> bytes \<Rightarrow> bytes" where
  "xor_mask key k [] = []"
| "xor_mask key k (b # bs) = (b XOR key ! (k mod 4)) # xor_mask key (k + 1) bs"

definition pack :: "u32 \<Rightarrow> Frame \<Rightarrow> Frame \<times> bytes" where
  "pack rnd f =
     (let payloadSize = length (payload f);
          f = f\<lparr>flen := (if payloadSize > 65535 then frameLargePayload
                         else if payloadSize > frameSmallPayload then frameMediumPayload
                         else of_nat payloadSize)\<rparr>;
          out = [fin f OR opcode f, masked f OR ucast (flen f)];
          out = (if flen f = frameLargePayload then out @ BigEndian_PutUint64 (of_nat payloadSize)
                 else if flen f = frameMediumPayload then out @ BigEndian_PutUint16 (of_nat payloadSize)
                 else out)
      in if masked f = frameIsMasked then
           let f = (if length (maskKey f) \<noteq> 4 then f\<lparr>maskKey := LittleEndian_PutUint32 rnd\<rparr> else f)
           in (f, out @ maskKey f @ xor_mask (maskKey f) 0 (payload f))
         else (f, out @ payload f))"

definition NewFrame :: "u32 \<Rightarrow> byte \<Rightarrow> bool \<Rightarrow> bytes \<Rightarrow> bytes" where
  "NewFrame rnd op isMasked pl =
     (let f = newFrame0\<lparr>fin := frameIsFinished, opcode := op, payload := pl\<rparr>;
          f = (if isMasked then f\<lparr>masked := frameIsMasked\<rparr> else f)
      in snd (pack rnd f))"

definition newControlFrame :: "u32 \<Rightarrow> byte \<Rightarrow> bool \<Rightarrow> bytes \<Rightarrow> bytes" where
  "newControlFrame rnd op isMasked pl =
     NewFrame rnd op isMasked (if length pl > frameSmallPayload then take frameSmallPayload pl else pl)"

definition NewFrameBin :: "u32 \<Rightarrow> bool \<Rightarrow> bytes \<Rightarrow> bytes" where
  "NewFrameBin rnd isMasked pl = NewFrame rnd OpcodeBin isMasked pl"

definition NewFrameClose :: "u32 \<Rightarrow> bool \<Rightarrow> u16 \<Rightarrow> bytes \<Rightarrow> bytes" where
  "NewFrameClose rnd isMasked code pl =
     (let code = (if code = 0 then StatusNormal else code)
      in newControlFrame rnd OpcodeClose isMasked (BigEndian_PutUint16 code @ pl))"

definition NewFramePing :: "u32 \<Rightarrow> bool \<Rightarrow> bytes \<Rightarrow> bytes" where
  "NewFramePing rnd isMasked pl = newControlFrame rnd OpcodePing isMasked pl"

definition NewFramePong :: "u32 \<Rightarrow> bool \<Rightarrow> bytes \<Rightarrow> bytes" where
  "NewFramePong rnd isMasked pl = newControlFrame rnd OpcodePong isMasked pl"

definition NewFrameText :: "u32 \<Rightarrow> bool \<Rightarrow> bytes \<Rightarrow> bytes" where
  "NewFrameText rnd isMasked pl = NewFrame rnd OpcodeText isMasked pl"

subsection \<open>Validity\<close>

definition IsData :: "Frame \<Rightarrow> bool" where
  "IsData f \<longleftrightarrow> opcode f = OpcodeText \<or> opcode f = OpcodeBin"

definition isValid :: "Frame \<Rightarrow> bool \<Rightarrow> bool \<Rightarrow> bool \<Rightarrow> bool \<Rightarrow> bool" where
  "isValid f isMasked allowRsv1 allowRsv2 allowRsv3 =
     (if isMasked \<and> masked f \<noteq> frameIsMasked then False
      else if \<not> isMasked \<and> masked f = frameIsMasked then False
      else if rsv1 f > 0 \<and> \<not> allowRsv1 then False
      else if rsv2 f > 0 \<and> \<not> allowRsv2 then False
      else if rsv3 f > 0 \<and> \<not> allowRsv3 then False
      else if opcode f \<ge> OpcodeClose then
        (if fin f = 0 then False
         else if flen f > of_nat frameSmallPayload then False
         else True)
      else True)"

subsection \<open>Unpacking\<close>

text \<open>
  The three cases of the header loop of \<open>unpack\<close>: the first byte, the second byte, and the
  extended length. The result \<open>(f, None)\<close> means that the method returned \<open>nil\<close> because the
  packet ended inside the header, \<open>(f, Some packet)\<close> that the length is known.
\<close>

definition unpack_byte0 :: "Frame \<Rightarrow> byte \<Rightarrow> Frame" where
  "unpack_byte0 f p =
     f\<lparr>fin := p AND frameIsFinished, rsv1 := p AND 0x40, rsv2 := p AND 0x20,
       rsv3 := p AND 0x10, opcode := p AND 0x0F, chopped := chopped f @ [p]\<rparr>"

definition unpack_byte1 :: "Frame \<Rightarrow> byte \<Rightarrow> Frame" where
  "unpack_byte1 f p =
     f\<lparr>masked := p AND frameIsMasked, flen := ucast (p AND 0x7F), chopped := chopped f @ [p]\<rparr>"

definition unpack_extlen :: "Frame \<Rightarrow> bytes \<Rightarrow> Frame \<times> bytes option" where
  "unpack_extlen f packet =
     (if flen f = frameLargePayload \<and> length (chopped f) < 10 then
        (let exp = 10 - length (chopped f) in
         if length packet < exp then (f\<lparr>chopped := chopped f @ packet\<rparr>, None)
         else let f = f\<lparr>chopped := chopped f @ take exp packet\<rparr>
              in (f\<lparr>flen := BigEndian_Uint64 (take 8 (drop 2 (chopped f)))\<rparr>, Some (drop exp packet)))
      else if flen f = frameMediumPayload \<and> length (chopped f) < 4 then
        (let exp = 4 - length (chopped f) in
         if length packet < exp then (f\<lparr>chopped := chopped f @ packet\<rparr>, None)
         else let f = f\<lparr>chopped := chopped f @ take exp packet\<rparr>
              in (f\<lparr>flen := ucast (BigEndian_Uint16 (take 2 (drop 2 (chopped f))))\<rparr>, Some (drop exp packet)))
      else (f, Some packet))"

lemma unpack_extlen_L:
  "flen f = 127 \<Longrightarrow> length (chopped f) < 10 \<Longrightarrow> unpack_extlen f a =
     (if length a < 10 - length (chopped f) then (f\<lparr>chopped := chopped f @ a\<rparr>, None)
      else (f\<lparr>chopped := chopped f @ take (10 - length (chopped f)) a,
              flen := BigEndian_Uint64 (take 8 (drop 2 (chopped f @ take (10 - length (chopped f)) a)))\<rparr>,
            Some (drop (10 - length (chopped f)) a)))"
  by (simp add: unpack_extlen_def frameLargePayload_def Let_def)

lemma unpack_extlen_M:
  "flen f = 126 \<Longrightarrow> length (chopped f) < 4 \<Longrightarrow> unpack_extlen f a =
     (if length a < 4 - length (chopped f) then (f\<lparr>chopped := chopped f @ a\<rparr>, None)
      else (f\<lparr>chopped := chopped f @ take (4 - length (chopped f)) a,
              flen := ucast (BigEndian_Uint16 (take 2 (drop 2 (chopped f @ take (4 - length (chopped f)) a))))\<rparr>,
            Some (drop (4 - length (chopped f)) a)))"
  by (simp add: unpack_extlen_def frameLargePayload_def frameMediumPayload_def Let_def)

lemma unpack_extlen_K:
  "\<not> (flen f = 127 \<and> length (chopped f) < 10) \<Longrightarrow> \<not> (flen f = 126 \<and> length (chopped f) < 4) \<Longrightarrow>
   unpack_extlen f a = (f, Some a)"
  by (simp only: unpack_extlen_def frameLargePayload_def frameMediumPayload_def if_False)

text \<open>Case analysis on the extended length.\<close>

lemma extlen_cases:
  obtains (large) "flen f = 127" "length (chopped f) < 10"
  | (medium) "flen f = 126" "length (chopped f) < 4"
  | (known) "\<not> (flen f = 127 \<and> length (chopped f) < 10)" "\<not> (flen f = 126 \<and> length (chopped f) < 4)"
  by blast

function unpack_header :: "Frame \<Rightarrow> bytes \<Rightarrow> (Frame \<times> bytes option) option" where
  "unpack_header f packet =
     (if length (chopped f) = 0 then
        (case packet of
           [] \<Rightarrow> None
         | p # packet \<Rightarrow> (if length packet = 0 then Some (unpack_byte0 f p, None)
                          else unpack_header (unpack_byte0 f p) packet))
      else if length (chopped f) = 1 then
        (case packet of
           [] \<Rightarrow> None
         | p # packet \<Rightarrow> unpack_header (unpack_byte1 f p) packet)
      else Some (unpack_extlen f packet))"
  by pat_completeness auto
termination
  by (relation "measure (\<lambda>(f, packet). 2 - length (chopped f))") (auto simp: unpack_byte0_def unpack_byte1_def)

declare unpack_header.simps [simp del]

lemma unpack_header_0:
  "chopped f = [] \<Longrightarrow> unpack_header f [] = None"
  "chopped f = [] \<Longrightarrow> unpack_header f (p # packet) =
     (if packet = [] then Some (unpack_byte0 f p, None) else unpack_header (unpack_byte0 f p) packet)"
  by (simp_all add: unpack_header.simps [of f])

lemma unpack_header_1:
  "length (chopped f) = 1 \<Longrightarrow> unpack_header f [] = None"
  "length (chopped f) = 1 \<Longrightarrow> unpack_header f (p # packet) = unpack_header (unpack_byte1 f p) packet"
  by (simp_all add: unpack_header.simps [of f])

lemma unpack_header_2: "2 \<le> length (chopped f) \<Longrightarrow> unpack_header f packet = Some (unpack_extlen f packet)"
  by (auto simp: unpack_header.simps [of f])

lemma length_chopped_byte [simp]:
  "length (chopped (unpack_byte0 f p)) = Suc (length (chopped f))"
  "length (chopped (unpack_byte1 f p)) = Suc (length (chopped f))"
  by (simp_all add: unpack_byte0_def unpack_byte1_def)

text \<open>The end of a complete frame: the close code of a CLOSE frame is set.\<close>

definition unpack_complete :: "Frame \<Rightarrow> Frame" where
  "unpack_complete f =
     (let f = (if opcode f = OpcodeClose then
                 f\<lparr>closeCode := (case payload f of
                     [] \<Rightarrow> StatusNormal
                   | [_] \<Rightarrow> StatusBadRequest
                   | a # b # _ \<Rightarrow> BigEndian_Uint16 [a, b])\<rparr>
               else f)
      in f\<lparr>isComplete := True, chopped := []\<rparr>)"

definition unpack_payload :: "Frame \<Rightarrow> bytes \<Rightarrow> Frame \<times> bytes" where
  "unpack_payload f packet =
     (if flen f = 0 then
        ((if opcode f = OpcodeClose then f\<lparr>closeCode := StatusNormal\<rparr> else f)
           \<lparr>isComplete := True, chopped := []\<rparr>, packet)
      else if length packet = 0 then (f, [])
      else let exp = unat (flen f - of_nat (length (payload f)));
               exp = (if length packet < exp then length packet else exp);
               data = (if masked f = frameIsMasked
                       then xor_mask (maskKey f) (length (payload f) mod 4) (take exp packet)
                       else take exp packet);
               f = f\<lparr>payload := payload f @ data\<rparr>
           in (if length (payload f) = unat (flen f) then unpack_complete f else f, drop exp packet))"

definition unpack_mask :: "Frame \<Rightarrow> bytes \<Rightarrow> Frame \<times> bytes" where
  "unpack_mask f packet =
     (if masked f = frameIsMasked \<and> length (maskKey f) \<noteq> 4 then
        (if length packet = 0 then (f, [])
         else let exp = 4 - length (maskKey f) in
           if length packet < exp then (f\<lparr>maskKey := maskKey f @ packet\<rparr>, [])
           else unpack_payload (f\<lparr>maskKey := maskKey f @ take exp packet\<rparr>) (drop exp packet))
      else unpack_payload f packet)"

definition unpack :: "Frame \<Rightarrow> bytes \<Rightarrow> (Frame \<times> bytes) option" where
  "unpack f packet = do {
     (f, rest) \<leftarrow> unpack_header f packet;
     case rest of None \<Rightarrow> Some (f, []) | Some packet \<Rightarrow> Some (unpack_mask f packet) }"

subsection \<open>Masking and byte lemmas\<close>

lemma length_xor_mask [simp]: "length (xor_mask key k bs) = length bs"
  by (induction bs arbitrary: k) auto

lemma xor_mask_Nil_iff [simp]: "xor_mask key k bs = [] \<longleftrightarrow> bs = []"
  by (cases bs) auto

lemma xor_mask_append: "xor_mask key k (xs @ ys) = xor_mask key k xs @ xor_mask key (k + length xs) ys"
  by (induction xs arbitrary: k) auto

lemma xor_mask_mod [simp]: "xor_mask key (k mod 4) bs = xor_mask key k bs"
proof (induction bs arbitrary: k)
  case (Cons b bs)
  have "xor_mask key (Suc (k mod 4)) bs = xor_mask key (Suc k) bs"
    by (metis Cons mod_Suc_eq)
  then show ?case by simp
qed simp

lemma xor_mask_twice [simp]: "xor_mask key k (xor_mask key k bs) = bs"
  by (induction bs arbitrary: k) (auto simp: xor.assoc)

lemma take_xor_mask: "take n (xor_mask key k bs) = xor_mask key k (take n bs)"
  by (induction bs arbitrary: n k) (auto simp: take_Cons split: nat.splits)

lemma uint16_be: "BigEndian_Uint16 (BigEndian_PutUint16 v) = v"
  by (simp add: BigEndian_Uint16_def BigEndian_PutUint16_def u16_bytes)

lemma uint64_be: "BigEndian_Uint64 (BigEndian_PutUint64 v) = v"
proof (rule bit_word_eqI)
  fix n assume "n < LENGTH(64)"
  then consider "n < 8" | "8 \<le> n" "n < 16" | "16 \<le> n" "n < 24" | "24 \<le> n" "n < 32"
    | "32 \<le> n" "n < 40" | "40 \<le> n" "n < 48" | "48 \<le> n" "n < 56" | "56 \<le> n" "n < 64" by fastforce
  then show "bit (BigEndian_Uint64 (BigEndian_PutUint64 v)) n = bit v n"
    by cases (auto simp: BigEndian_Uint64_def BigEndian_PutUint64_def bit_simps)
qed

lemma length_be [simp]:
  "length (BigEndian_PutUint16 a) = 2" "length (BigEndian_PutUint64 b) = 8"
  "length (LittleEndian_PutUint32 c) = 4"
  by (simp_all add: BigEndian_PutUint16_def BigEndian_PutUint64_def LittleEndian_PutUint32_def)

lemma opcode_bits:
  assumes "op < (16 :: byte)"
  shows "(0x80 OR op) AND 0x80 = 0x80" "(0x80 OR op) AND 0x40 = 0" "(0x80 OR op) AND 0x20 = 0"
    "(0x80 OR op) AND 0x10 = 0" "(0x80 OR op) AND 0x0F = op"
proof -
  have "\<forall>n \<in> set [0..<16]. let op = of_nat n :: byte in (0x80 OR op) AND 0x80 = 0x80 \<and>
     (0x80 OR op) AND 0x40 = 0 \<and> (0x80 OR op) AND 0x20 = 0 \<and> (0x80 OR op) AND 0x10 = 0 \<and>
     (0x80 OR op) AND 0x0F = op" by code_simp
  moreover have "unat op \<in> set [0..<16]" using assms by (simp add: word_less_nat_alt)
  ultimately have "let op = of_nat (unat op) :: byte in (0x80 OR op) AND 0x80 = 0x80 \<and>
     (0x80 OR op) AND 0x40 = 0 \<and> (0x80 OR op) AND 0x20 = 0 \<and> (0x80 OR op) AND 0x10 = 0 \<and>
     (0x80 OR op) AND 0x0F = op" by blast
  then show "(0x80 OR op) AND 0x80 = 0x80" "(0x80 OR op) AND 0x40 = 0" "(0x80 OR op) AND 0x20 = 0"
    "(0x80 OR op) AND 0x10 = 0" "(0x80 OR op) AND 0x0F = op"
    by (simp_all add: Let_def)
qed

lemma length_bits:
  assumes "x < (128 :: byte)"
  shows "(0x80 OR x) AND 0x80 = 0x80" "(0x80 OR x) AND 0x7F = x" "x AND 0x80 = 0" "x AND 0x7F = x"
proof -
  have "\<forall>n \<in> set [0..<128]. let x = of_nat n :: byte in (0x80 OR x) AND 0x80 = 0x80 \<and>
     (0x80 OR x) AND 0x7F = x \<and> x AND 0x80 = 0 \<and> x AND 0x7F = x" by code_simp
  moreover have "unat x \<in> set [0..<128]" using assms by (simp add: word_less_nat_alt)
  ultimately have "let x = of_nat (unat x) :: byte in (0x80 OR x) AND 0x80 = 0x80 \<and>
     (0x80 OR x) AND 0x7F = x \<and> x AND 0x80 = 0 \<and> x AND 0x7F = x" by blast
  then show "(0x80 OR x) AND 0x80 = 0x80" "(0x80 OR x) AND 0x7F = x" "x AND 0x80 = 0" "x AND 0x7F = x"
    by (simp_all add: Let_def)
qed

subsection \<open>Unpacking what was packed\<close>

text \<open>The header of a frame after its first two bytes.\<close>

definition head2 :: "byte \<Rightarrow> byte \<Rightarrow> Frame" where
  "head2 b0 b1 = newFrame0\<lparr>fin := b0 AND frameIsFinished, rsv1 := b0 AND 0x40, rsv2 := b0 AND 0x20,
     rsv3 := b0 AND 0x10, opcode := b0 AND 0x0F, masked := b1 AND frameIsMasked,
     flen := ucast (b1 AND 0x7F), chopped := [b0, b1]\<rparr>"

lemma unpack_header_two: "unpack_header newFrame0 (b0 # b1 # ps) = Some (unpack_extlen (head2 b0 b1) ps)"
proof -
  have "unpack_byte1 (unpack_byte0 newFrame0 b0) b1 = head2 b0 b1"
    by (simp add: unpack_byte0_def unpack_byte1_def head2_def newFrame0_def)
  moreover have "chopped newFrame0 = []" "length (chopped (head2 b0 b1)) = 2"
    by (simp_all add: newFrame0_def head2_def)
  ultimately show ?thesis by (simp add: unpack_header_0 unpack_header_1 unpack_header_2)
qed

text \<open>The three length encodings.\<close>

lemma unpack_extlen_small:
  "flen f \<notin> {126, 127} \<Longrightarrow> unpack_extlen f ps = (f, Some ps)"
  by (auto simp: unpack_extlen_def ws_consts)

lemma unpack_extlen_medium:
  "flen f = 126 \<Longrightarrow> length (chopped f) = 2 \<Longrightarrow>
   unpack_extlen f (BigEndian_PutUint16 n @ ps) =
     (f\<lparr>chopped := chopped f @ BigEndian_PutUint16 n, flen := ucast n\<rparr>, Some ps)"
  by (simp add: unpack_extlen_def ws_consts Let_def uint16_be)

lemma unpack_extlen_large:
  "flen f = 127 \<Longrightarrow> length (chopped f) = 2 \<Longrightarrow>
   unpack_extlen f (BigEndian_PutUint64 n @ ps) =
     (f\<lparr>chopped := chopped f @ BigEndian_PutUint64 n, flen := n\<rparr>, Some ps)"
  by (simp add: unpack_extlen_def ws_consts Let_def uint64_be)

text \<open>The bytes of a packed payload and what \<open>unpack\<close> makes of them.\<close>

definition mask_bytes :: "u32 \<Rightarrow> bool \<Rightarrow> bytes \<Rightarrow> bytes" where
  "mask_bytes rnd m pl =
     (if m then LittleEndian_PutUint32 rnd @ xor_mask (LittleEndian_PutUint32 rnd) 0 pl else pl)"

definition finished :: "Frame \<Rightarrow> u32 \<Rightarrow> bool \<Rightarrow> bytes \<Rightarrow> Frame" where
  "finished f rnd m pl =
     unpack_complete (f\<lparr>maskKey := (if m then LittleEndian_PutUint32 rnd else []), payload := pl\<rparr>)"

lemma unpack_payload_whole:
  assumes "payload f = []" "unat (flen f) = length pl" "masked f = frameIsMasked \<Longrightarrow> length (maskKey f) = 4"
  shows "unpack_payload f ((if masked f = frameIsMasked then xor_mask (maskKey f) 0 pl else pl) @ rest) =
    (unpack_complete (f\<lparr>payload := pl\<rparr>), rest)"
proof (cases "pl = []")
  case True
  then have "flen f = 0" using assms(2) by (simp add: unat_eq_0)
  with True assms show ?thesis by (simp add: unpack_payload_def unpack_complete_def)
next
  case False
  then have "flen f \<noteq> 0" using assms(2) by auto
  with False assms show ?thesis by (auto simp: unpack_payload_def)
qed

lemma unpack_mask_whole:
  assumes "payload f = []" "maskKey f = []" "unat (flen f) = length pl" "masked f = (if m then 0x80 else 0)"
  shows "unpack_mask f (mask_bytes rnd m pl @ rest) = (finished f rnd m pl, rest)"
proof (cases m)
  case True
  let ?f = "f\<lparr>maskKey := LittleEndian_PutUint32 rnd\<rparr>"
  have "unpack_payload ?f (xor_mask (LittleEndian_PutUint32 rnd) 0 pl @ rest) =
      (unpack_complete (?f\<lparr>payload := pl\<rparr>), rest)"
    using unpack_payload_whole [of ?f pl rest] assms True by (simp add: ws_consts)
  with True assms show ?thesis by (simp add: unpack_mask_def mask_bytes_def finished_def ws_consts)
next
  case False
  have "finished f rnd m pl = unpack_complete (f\<lparr>payload := pl\<rparr>)"
    using False assms(2) by (cases f) (simp add: finished_def)
  with False show ?thesis
    using unpack_payload_whole [of f pl rest] assms
    by (simp add: unpack_mask_def mask_bytes_def ws_consts)
qed

lemma unat_of_nat_byte: "n < 256 \<Longrightarrow> unat (of_nat n :: byte) = n"
  by (simp add: unat_of_nat)

text \<open>The frame a receiver has after reading a frame made by \<open>NewFrame\<close>.\<close>

definition received :: "u32 \<Rightarrow> byte \<Rightarrow> bool \<Rightarrow> bytes \<Rightarrow> Frame" where
  "received rnd op m pl = unpack_complete (newFrame0\<lparr>fin := frameIsFinished, opcode := op,
     masked := (if m then frameIsMasked else 0), flen := of_nat (length pl),
     maskKey := (if m then LittleEndian_PutUint32 rnd else []), payload := pl\<rparr>)"

lemma NewFrame_bytes:
  "NewFrame rnd op m pl =
     (let b1 = (if m then 0x80 else 0) OR
         (if length pl > 65535 then 127 else if length pl > 125 then 126 else of_nat (length pl))
      in [0x80 OR op, b1] @
         (if length pl > 65535 then BigEndian_PutUint64 (of_nat (length pl))
          else if length pl > 125 then BigEndian_PutUint16 (of_nat (length pl)) else []) @
         mask_bytes rnd m pl)"
proof -
  have "n \<le> 125 \<Longrightarrow> (of_nat n :: u64) \<noteq> 127 \<and> (of_nat n :: u64) \<noteq> 126" for n
    by (simp add: word_unat_eq_iff unat_of_nat)
  then show ?thesis
    by (auto simp: NewFrame_def pack_def newFrame0_def mask_bytes_def ws_consts Let_def)
qed

lemma unpack_complete_chopped: "unpack_complete (f\<lparr>chopped := c\<rparr>) = unpack_complete f"
  by (simp add: unpack_complete_def)

lemma unpack_NewFrame:
  assumes "op < 16" "length pl < 2 ^ 64"
  shows "unpack newFrame0 (NewFrame rnd op m pl @ rest) = Some (received rnd op m pl, rest)"
proof -
  define x :: byte where
    "x = (if length pl > 65535 then 127 else if length pl > 125 then 126 else of_nat (length pl))"
  define ext where "ext = (if length pl > 65535 then BigEndian_PutUint64 (of_nat (length pl))
      else if length pl > 125 then BigEndian_PutUint16 (of_nat (length pl)) else [])"
  let ?b1 = "(if m then 0x80 else 0) OR x" and ?b0 = "0x80 OR op"
  let ?f = "(head2 ?b0 ?b1)\<lparr>flen := of_nat (length pl), chopped := [?b0, ?b1] @ ext\<rparr>"
  have x: "x < 128" by (auto simp: x_def word_less_nat_alt unat_of_nat_byte)
  have b1: "?b1 AND 0x7F = x" "?b1 AND 0x80 = (if m then 0x80 else 0)"
    using length_bits [OF x] by auto
  have pk: "NewFrame rnd op m pl @ rest = ?b0 # ?b1 # ext @ mask_bytes rnd m pl @ rest"
    by (simp add: NewFrame_bytes x_def ext_def Let_def)
  have fl: "flen (head2 ?b0 ?b1) = ucast x" "chopped (head2 ?b0 ?b1) = [?b0, ?b1]"
    by (simp_all add: head2_def b1 [simplified])
  have h: "unpack_extlen (head2 ?b0 ?b1) (ext @ mask_bytes rnd m pl @ rest) =
      (?f, Some (mask_bytes rnd m pl @ rest))"
  proof -
    consider "length pl > 65535" | "length pl > 125" "length pl \<le> 65535" | "length pl \<le> 125" by linarith
    then show ?thesis
    proof cases
      case 1
      then show ?thesis using unpack_extlen_large [of "head2 ?b0 ?b1"] fl by (simp add: ext_def x_def)
    next
      case 2
      then have "ucast (of_nat (length pl) :: u16) = (of_nat (length pl) :: u64)"
        by (simp add: word_unat_eq_iff unat_of_nat)
      then show ?thesis using 2 unpack_extlen_medium [of "head2 ?b0 ?b1"] fl by (simp add: ext_def x_def)
    next
      case 3
      then have "ucast x = (of_nat (length pl) :: u64)"
        by (simp add: x_def word_unat_eq_iff unat_of_nat)
      moreover from this have "flen (head2 ?b0 ?b1) \<notin> {126, 127}"
        using 3 fl(1) by (auto simp: word_unat_eq_iff unat_of_nat)
      ultimately show ?thesis using 3 unpack_extlen_small [of "head2 ?b0 ?b1"] fl by (simp add: ext_def)
    qed
  qed
  have "unpack_mask ?f (mask_bytes rnd m pl @ rest) = (finished ?f rnd m pl, rest)"
    using assms(2) b1(2) by (intro unpack_mask_whole) (auto simp: head2_def newFrame0_def unat_of_nat ws_consts)
  moreover have "finished ?f rnd m pl = received rnd op m pl"
    using opcode_bits [OF assms(1)] b1
    by (simp add: finished_def received_def unpack_complete_def head2_def newFrame0_def ws_consts)
  ultimately show ?thesis
    by (simp add: unpack_def pk unpack_header_two h)
qed

end
