(* ===== verification/WsResume.thy ===== *)
theory WsResume
  imports WsFrame
begin

section \<open>Websocket frames that arrive in pieces (lib/websocket/frame.go)\<close>

text \<open>
  \<open>Frame.unpack\<close> keeps in the frame what it needs to go on when a packet ends in the middle of a
  frame: the header bytes it has seen (\<open>chopped\<close>), the bytes of the mask key and the payload. This
  theory shows that it can stop at any byte: feeding a frame in any division into packets gives
  the same frame as feeding it at once, except for payloads of exactly 127 bytes.
\<close>

subsection \<open>Resuming a chopped frame\<close>

text \<open>
  The header phase on a longer packet: when it ran out of bytes it continues where it stopped,
  and when it was done the extra bytes follow.
\<close>

lemma unpack_extlen_more:
  assumes "unpack_extlen f a = (f1, None)"
  shows "unpack_extlen f (a @ b) = unpack_extlen f1 b"
proof (cases f rule: extlen_cases)
  case large
  then have a: "length (chopped f) + length a < 10" "f1 = f\<lparr>chopped := chopped f @ a\<rparr>"
    using assms by (auto simp: unpack_extlen_L split: if_splits)
  then have "length (a @ b) < 10 - length (chopped f) \<longleftrightarrow> length b < 10 - (length a + length (chopped f))"
    by auto
  then show ?thesis using large a by (simp add: unpack_extlen_L algebra_simps)
next
  case medium
  then have a: "length (chopped f) + length a < 4" "f1 = f\<lparr>chopped := chopped f @ a\<rparr>"
    using assms by (auto simp: unpack_extlen_M split: if_splits)
  then have "length (a @ b) < 4 - length (chopped f) \<longleftrightarrow> length b < 4 - (length a + length (chopped f))"
    by auto
  then show ?thesis using medium a by (simp add: unpack_extlen_M algebra_simps)
next
  case known
  then show ?thesis using assms by (simp add: unpack_extlen_K)
qed

lemma unpack_extlen_done:
  assumes "unpack_extlen f a = (f1, Some r)"
  shows "unpack_extlen f (a @ b) = (f1, Some (r @ b))"
proof (cases f rule: extlen_cases)
  case large
  then show ?thesis using assms by (auto simp: unpack_extlen_L split: if_splits)
next
  case medium
  then show ?thesis using assms by (auto simp: unpack_extlen_M split: if_splits)
next
  case known
  then show ?thesis using assms by (simp add: unpack_extlen_K)
qed

text \<open>The parts of the frame that the extended length does not touch.\<close>

lemma unpack_extlen_frame:
  assumes "unpack_extlen f a = (f1, r)"
  shows "payload f1 = payload f \<and> maskKey f1 = maskKey f \<and> isComplete f1 = isComplete f \<and>
    length (chopped f) \<le> length (chopped f1)"
proof (cases f rule: extlen_cases)
  case large
  then show ?thesis using assms by (auto simp: unpack_extlen_L split: if_splits)
next
  case medium
  then show ?thesis using assms by (auto simp: unpack_extlen_M split: if_splits)
next
  case known
  then show ?thesis using assms by (simp add: unpack_extlen_K)
qed

lemma unpack_header_more:
  assumes "unpack_header f a = Some (f1, None)" "b \<noteq> []"
  shows "unpack_header f (a @ b) = unpack_header f1 b"
  using assms
proof (induction f a rule: unpack_header.induct)
  case (1 f a)
  consider (c0) "length (chopped f) = 0" | (c1) "length (chopped f) = 1" | (c2) "2 \<le> length (chopped f)"
    by linarith
  then show ?case
  proof cases
    case c0
    then obtain p ps where a: "a = p # ps" using "1.prems" by (cases a) (auto simp: unpack_header_0)
    with c0 "1.prems" "1.IH"(1) [OF c0 a] show ?thesis
      by (cases "ps = []") (auto simp: unpack_header_0)
  next
    case c1
    then obtain p ps where a: "a = p # ps" using "1.prems" by (cases a) (auto simp: unpack_header_1)
    with c1 "1.prems" "1.IH"(2) [OF _ c1 a] show ?thesis by (simp add: unpack_header_1)
  next
    case c2
    then have e: "unpack_extlen f a = (f1, None)" using "1.prems" by (simp add: unpack_header_2)
    have "2 \<le> length (chopped f1)" using unpack_extlen_frame [OF e] c2 by simp
    with c2 unpack_extlen_more [OF e] show ?thesis by (simp add: unpack_header_2)
  qed
qed

lemma unpack_header_done:
  assumes "unpack_header f a = Some (f1, Some r)"
  shows "unpack_header f (a @ b) = Some (f1, Some (r @ b))"
  using assms
proof (induction f a rule: unpack_header.induct)
  case (1 f a)
  consider (c0) "length (chopped f) = 0" | (c1) "length (chopped f) = 1" | (c2) "2 \<le> length (chopped f)"
    by linarith
  then show ?case
  proof cases
    case c0
    then obtain p ps where a: "a = p # ps" "ps \<noteq> []"
      using "1.prems" by (cases a) (auto simp: unpack_header_0 split: if_splits)
    with c0 "1.prems" "1.IH"(1) [OF c0 a(1)] show ?thesis by (simp add: unpack_header_0)
  next
    case c1
    then obtain p ps where a: "a = p # ps" using "1.prems" by (cases a) (auto simp: unpack_header_1)
    with c1 "1.prems" "1.IH"(2) [OF _ c1 a] show ?thesis by (simp add: unpack_header_1)
  next
    case c2
    with "1.prems" unpack_extlen_done [of f a f1 r b] show ?thesis by (simp add: unpack_header_2)
  qed
qed

text \<open>The header of a frame is known: \<open>unpack\<close> passes over the header loop.\<close>

definition ready :: "Frame \<Rightarrow> bool" where
  "ready f \<longleftrightarrow> 2 \<le> length (chopped f) \<and> (flen f = 127 \<longrightarrow> 10 \<le> length (chopped f)) \<and>
     (flen f = 126 \<longrightarrow> 4 \<le> length (chopped f))"

lemma ready_header: "ready f \<Longrightarrow> unpack_header f b = Some (f, Some b)"
  by (auto simp: ready_def unpack_header_2 intro: unpack_extlen_K)

lemma unpack_extlen_ready:
  assumes "unpack_extlen f a = (f1, Some r)" "2 \<le> length (chopped f)" "flen f1 \<noteq> 127"
  shows "ready f1"
proof (cases f rule: extlen_cases)
  case large
  then show ?thesis using assms by (auto simp: unpack_extlen_L ready_def split: if_splits)
next
  case medium
  then show ?thesis using assms by (auto simp: unpack_extlen_M ready_def split: if_splits)
next
  case known
  then show ?thesis using assms by (auto simp: unpack_extlen_K ready_def)
qed

lemma unpack_header_ready:
  assumes "unpack_header f a = Some (f1, Some r)" "flen f1 \<noteq> 127"
  shows "ready f1"
  using assms
proof (induction f a rule: unpack_header.induct)
  case (1 f a)
  consider (c0) "length (chopped f) = 0" | (c1) "length (chopped f) = 1" | (c2) "2 \<le> length (chopped f)"
    by linarith
  then show ?case
  proof cases
    case c0
    with "1.prems" "1.IH"(1) [OF c0] show ?thesis
      by (cases a) (auto simp: unpack_header_0 split: if_splits)
  next
    case c1
    with "1.prems" "1.IH"(2) [OF _ c1] show ?thesis by (cases a) (auto simp: unpack_header_1)
  next
    case c2
    with "1.prems" show ?thesis by (auto simp: unpack_header_2 intro: unpack_extlen_ready)
  qed
qed

lemma unpack_header_frame:
  assumes "unpack_header f a = Some (f1, r)"
  shows "payload f1 = payload f \<and> maskKey f1 = maskKey f \<and> isComplete f1 = isComplete f"
  using assms
proof (induction f a rule: unpack_header.induct)
  case (1 f a)
  consider (c0) "length (chopped f) = 0" | (c1) "length (chopped f) = 1" | (c2) "2 \<le> length (chopped f)"
    by linarith
  then show ?case
  proof cases
    case c0
    with "1.prems" "1.IH"(1) [OF c0] show ?thesis
      by (cases a) (auto simp: unpack_header_0 unpack_byte0_def split: if_splits)
  next
    case c1
    with "1.prems" "1.IH"(2) [OF _ c1] show ?thesis
      by (cases a) (auto simp: unpack_header_1 unpack_byte1_def)
  next
    case c2
    with "1.prems" unpack_extlen_frame [of f a f1 r] show ?thesis by (simp add: unpack_header_2)
  qed
qed

text \<open>The payload phase: how many bytes it takes, and that it can be resumed.\<close>

abbreviation missing :: "Frame \<Rightarrow> nat" where
  "missing f \<equiv> unat (flen f) - length (payload f)"

definition unmasked :: "Frame \<Rightarrow> bytes \<Rightarrow> bytes" where
  "unmasked f data = (if masked f = frameIsMasked then xor_mask (maskKey f) (length (payload f)) data else data)"

lemma length_unmasked [simp]: "length (unmasked f data) = length data"
  by (simp add: unmasked_def)

lemma unmasked_append:
  "unmasked f (a @ b) = unmasked f a @ unmasked (f\<lparr>payload := payload f @ unmasked f a\<rparr>) b"
  by (simp add: unmasked_def xor_mask_append)

lemma unat_missing:
  "length (payload f) \<le> unat (flen f) \<Longrightarrow> unat (flen f - of_nat (length (payload f))) = missing f"
proof -
  assume le: "length (payload f) \<le> unat (flen f)"
  have "unat (flen f) < 2 ^ 64" using unsigned_less [of "flen f", where 'a = nat] by simp
  with le have "unat (of_nat (length (payload f)) :: u64) = length (payload f)" by (simp add: unat_of_nat)
  with le show ?thesis by (simp add: unat_sub word_le_nat_alt)
qed

lemma unpack_payload_eq:
  assumes "length (payload f) < unat (flen f)" "a \<noteq> []"
  shows "unpack_payload f a =
    (let n = min (length a) (missing f); f1 = f\<lparr>payload := payload f @ unmasked f (take n a)\<rparr>
     in (if n = missing f then unpack_complete f1 else f1, drop n a))"
proof -
  have "flen f \<noteq> 0" using assms(1) by auto
  then show ?thesis
    using assms unat_missing [of f]
    by (auto simp: unpack_payload_def Let_def unmasked_def min_def)
qed

lemma unpack_payload_more:
  assumes "length (payload f) < unat (flen f)" "unpack_payload f a = (f1, r)" "\<not> isComplete f1" "b \<noteq> []"
  shows "r = [] \<and> unpack_payload f (a @ b) = unpack_payload f1 b \<and> length (payload f1) < unat (flen f1)"
proof (cases "a = []")
  case True
  moreover have "flen f \<noteq> 0" using assms(1) by auto
  ultimately show ?thesis using assms by (auto simp: unpack_payload_def)
next
  case False
  have small: "length a < missing f" and f1: "f1 = f\<lparr>payload := payload f @ unmasked f a\<rparr>" "r = []"
    using assms(2,3) False
    by (auto simp: unpack_payload_eq [OF assms(1)] Let_def unpack_complete_def min_def split: if_splits)
  have len1: "length (payload f1) < unat (flen f1)" using small by (simp add: f1(1))
  have m: "missing f1 = missing f - length a" by (simp add: f1(1))
  define k where "k = min (length b) (missing f1)"
  have n: "min (length (a @ b)) (missing f) = length a + k" and eq: "length a + k = missing f \<longleftrightarrow> k = missing f1"
    using small by (auto simp: m k_def)
  have "unpack_payload f (a @ b) = (let g = f\<lparr>payload := payload f @ unmasked f (a @ take k b)\<rparr>
      in (if k = missing f1 then unpack_complete g else g, drop k b))"
    using unpack_payload_eq [OF assms(1), of "a @ b"] assms(4) unfolding n eq by (simp add: eq)
  also have "\<dots> = unpack_payload f1 b"
    unfolding unpack_payload_eq [OF len1 assms(4)] k_def [symmetric]
    by (simp add: Let_def f1(1) unmasked_append)
  finally show ?thesis using f1(2) len1 by simp
qed

lemma unpack_payload_done:
  assumes "length (payload f) < unat (flen f) \<or> flen f = 0" "unpack_payload f a = (f1, r)"
    "isComplete f1" "\<not> isComplete f"
  shows "unpack_payload f (a @ b) = (f1, r @ b)"
proof (cases "flen f = 0")
  case True
  then show ?thesis using assms(2) by (auto simp: unpack_payload_def)
next
  case False
  with assms(1) have lt: "length (payload f) < unat (flen f)" by simp
  have a: "a \<noteq> []" using assms(2-4) False by (auto simp: unpack_payload_def)
  with assms(2-4) lt have "missing f \<le> length a"
    by (auto simp: unpack_payload_eq [OF lt] Let_def min_def split: if_splits)
  then show ?thesis
    using assms(2) a lt by (auto simp: unpack_payload_eq [OF lt] Let_def min_def)
qed


text \<open>The mask key phase.\<close>

definition filling :: "Frame \<Rightarrow> bool" where
  "filling f \<longleftrightarrow> \<not> isComplete f \<and> length (maskKey f) \<le> 4 \<and> (length (payload f) < unat (flen f) \<or> flen f = 0)"

lemma unpack_payload_keeps:
  assumes "unpack_payload f a = (f1, r)"
  shows "flen f1 = flen f \<and> masked f1 = masked f \<and> maskKey f1 = maskKey f \<and>
    (\<not> isComplete f1 \<longrightarrow> chopped f1 = chopped f)"
  using assms
  by (auto simp: unpack_payload_def unpack_complete_def Let_def split: if_splits)

lemma unpack_payload_resume:
  assumes "filling f" "unpack_payload f a = (f1, r)" "\<not> isComplete f1" "b \<noteq> []"
  shows "r = [] \<and> unpack_payload f (a @ b) = unpack_payload f1 b \<and> filling f1"
proof -
  have "flen f \<noteq> 0" using assms(2,3) by (auto simp: unpack_payload_def)
  with assms(1) have "length (payload f) < unat (flen f)" by (simp add: filling_def)
  from unpack_payload_more [OF this assms(2-4)] unpack_payload_keeps [OF assms(2)] assms(1,3)
  show ?thesis by (simp add: filling_def)
qed

lemma unpack_mask_keeps:
  assumes "unpack_mask f a = (f1, r)"
  shows "flen f1 = flen f \<and> masked f1 = masked f \<and> (\<not> isComplete f1 \<longrightarrow> chopped f1 = chopped f)"
  using assms unpack_payload_keeps [of f a f1 r]
    unpack_payload_keeps [of "f\<lparr>maskKey := maskKey f @ take (4 - length (maskKey f)) a\<rparr>"
      "drop (4 - length (maskKey f)) a" f1 r]
  by (auto simp: unpack_mask_def Let_def split: if_splits)

lemma unpack_mask_resume:
  assumes "filling f" "unpack_mask f a = (f1, r)" "\<not> isComplete f1" "b \<noteq> []"
  shows "r = [] \<and> unpack_mask f (a @ b) = unpack_mask f1 b \<and> filling f1"
proof (cases "masked f = frameIsMasked \<and> length (maskKey f) \<noteq> 4")
  case True
  let ?n = "4 - length (maskKey f)"
  have lt: "length (maskKey f) < 4" using assms(1) True by (auto simp: filling_def)
  show ?thesis
  proof (cases "length a < ?n")
    case small: True
    then have f1: "f1 = f\<lparr>maskKey := maskKey f @ a\<rparr>" "r = []"
      using assms(2) True by (auto simp: unpack_mask_def split: if_splits)
    have "length (a @ b) < ?n \<longleftrightarrow> length b < 4 - length (maskKey f1)"
      using small by (auto simp: f1(1))
    then show ?thesis
      using True lt small f1 assms(1,4) by (auto simp: unpack_mask_def filling_def Let_def)
  next
    case big: False
    let ?g = "f\<lparr>maskKey := maskKey f @ take ?n a\<rparr>"
    have p: "unpack_payload ?g (drop ?n a) = (f1, r)"
      using assms(2) True big lt by (auto simp: unpack_mask_def Let_def split: if_splits)
    have "filling ?g" using assms(1) lt big by (auto simp: filling_def)
    from unpack_payload_resume [OF this p assms(3,4)] unpack_payload_keeps [OF p]
    show ?thesis using True big lt by (auto simp: unpack_mask_def)
  qed
next
  case False
  then have p: "unpack_payload f a = (f1, r)" using assms(2) by (auto simp: unpack_mask_def)
  from unpack_payload_resume [OF assms(1) p assms(3,4)] unpack_payload_keeps [OF p] False
  show ?thesis by (auto simp: unpack_mask_def)
qed

lemma unpack_mask_done:
  assumes "filling f" "unpack_mask f a = (f1, r)" "isComplete f1"
  shows "unpack_mask f (a @ b) = (f1, r @ b)"
proof (cases "masked f = frameIsMasked \<and> length (maskKey f) \<noteq> 4")
  case True
  let ?n = "4 - length (maskKey f)"
  let ?g = "f\<lparr>maskKey := maskKey f @ take ?n a\<rparr>"
  have lt: "length (maskKey f) < 4" using assms(1) True by (auto simp: filling_def)
  with assms True have big: "?n \<le> length a" "unpack_payload ?g (drop ?n a) = (f1, r)"
    by (auto simp: unpack_mask_def filling_def Let_def split: if_splits)
  have "unpack_payload ?g (drop ?n a @ b) = (f1, r @ b)"
    using assms(1,3) by (intro unpack_payload_done [OF _ big(2)]) (auto simp: filling_def)
  then show ?thesis using True big(1) lt by (auto simp: unpack_mask_def)
next
  case False
  then have p: "unpack_payload f a = (f1, r)" using assms(2) by (auto simp: unpack_mask_def)
  have "unpack_payload f (a @ b) = (f1, r @ b)"
    using assms(1,3) by (intro unpack_payload_done [OF _ p]) (auto simp: filling_def)
  with False show ?thesis by (auto simp: unpack_mask_def)
qed

text \<open>A frame between two calls of \<open>unpack\<close>.\<close>

definition inflight :: "Frame \<Rightarrow> bool" where
  "inflight f \<longleftrightarrow> \<not> isComplete f \<and> (ready f \<and> filling f \<or> payload f = [] \<and> maskKey f = [])"

lemma inflight_newFrame0: "inflight newFrame0"
  by (simp add: inflight_def newFrame0_def)

lemma inflight_header:
  assumes "inflight f" "unpack_header f a = Some (f1, Some r)"
  shows "filling f1"
proof (cases "ready f")
  case True
  then show ?thesis
    using assms unpack_header_frame [OF assms(2)]
    by (auto simp: ready_header inflight_def filling_def unat_gt_0)
next
  case False
  with assms unpack_header_frame [OF assms(2)] show ?thesis
    by (auto simp: inflight_def filling_def unat_gt_0)
qed

lemma unpack_header_total:
  assumes "a \<noteq> []"
  shows "\<exists>f1 r. unpack_header f a = Some (f1, r)"
  using assms
proof (induction f a rule: unpack_header.induct)
  case (1 f a)
  then obtain p ps where a: "a = p # ps" by (cases a) auto
  consider (c0) "length (chopped f) = 0" | (c1) "length (chopped f) = 1" | (c2) "2 \<le> length (chopped f)"
    by linarith
  then show ?case
  proof cases
    case c0
    with "1.IH"(1) [OF c0 a] a show ?thesis by (simp add: unpack_header_0)
  next
    case c1
    then show ?thesis by (cases "unpack_extlen (unpack_byte1 f p) ps") (simp add: a unpack_header_1 unpack_header_2)
  next
    case c2
    then show ?thesis by (cases "unpack_extlen f a") (simp add: unpack_header_2)
  qed
qed

lemma unpack_total:
  assumes "a \<noteq> []"
  shows "\<exists>f1 r. unpack f a = Some (f1, r)"
proof -
  obtain g o1 where "unpack_header f a = Some (g, o1)" using unpack_header_total [OF assms] by blast
  then show ?thesis by (cases o1; cases "unpack_mask g (the o1)") (auto simp: unpack_def)
qed

lemma unpack_header_unfinished:
  assumes "unpack_header f a = Some (f1, None)" "inflight f"
  shows "inflight f1"
proof -
  have "\<not> ready f" using assms(1) by (auto simp: ready_header)
  with assms(2) unpack_header_frame [OF assms(1)] show ?thesis by (auto simp: inflight_def)
qed

text \<open>Stopping in the middle of a frame and going on with the rest loses nothing.\<close>

lemma unpack_resume:
  assumes "inflight f" "unpack f a = Some (f1, r)" "\<not> isComplete f1" "b \<noteq> []"
    "unpack f (a @ b) = Some (f2, r2)" "flen f2 \<noteq> 127"
  shows "r = [] \<and> inflight f1 \<and> unpack f1 b = Some (f2, r2)"
proof -
  obtain g o1 where h: "unpack_header f a = Some (g, o1)" using assms(2) by (auto simp: unpack_def bind_Some_conv)
  show ?thesis
  proof (cases o1)
    case None
    with h assms(2) have f1: "f1 = g" "r = []" by (simp_all add: unpack_def)
    with None h assms(4,5) show ?thesis
      using unpack_header_unfinished [OF _ assms(1)] unpack_header_more [of f a g b] by (auto simp: unpack_def)
  next
    case (Some a')
    note h = h [unfolded this]
    have fl: "filling g" by (rule inflight_header [OF assms(1) h])
    have m: "unpack_mask g a' = (f1, r)" using h assms(2) by (simp add: unpack_def)
    have m2: "unpack_mask g (a' @ b) = (f2, r2)" using unpack_header_done [OF h] assms(5) by (simp add: unpack_def)
    have "ready g" using unpack_header_ready [OF h] unpack_mask_keeps [OF m2] assms(6) by simp
    moreover note keeps = unpack_mask_keeps [OF m]
    ultimately have "ready f1" using assms(3) by (simp add: ready_def)
    with unpack_mask_resume [OF fl m assms(3,4)] m2 show ?thesis
      by (simp add: unpack_def ready_header inflight_def filling_def)
  qed
qed

lemma unpack_done:
  assumes "inflight f" "unpack f a = Some (f1, r)" "isComplete f1"
  shows "unpack f (a @ b) = Some (f1, r @ b)"
proof -
  obtain g o1 where h: "unpack_header f a = Some (g, o1)" using assms(2) by (auto simp: unpack_def bind_Some_conv)
  show ?thesis
  proof (cases o1)
    case None
    with h assms have "isComplete g" by (simp add: unpack_def)
    with h assms(1) unpack_header_frame [OF h] show ?thesis by (simp add: inflight_def)
  next
    case (Some a')
    note h = h [unfolded this]
    have m: "unpack_mask g a' = (f1, r)" using h assms(2) by (simp add: unpack_def)
    from unpack_mask_done [OF inflight_header [OF assms(1) h] m assms(3)] unpack_header_done [OF h]
    show ?thesis by (simp add: unpack_def)
  qed
qed

text \<open>The caller's loop over incoming packets: unpack into the same frame until it is complete.\<close>

fun feed :: "Frame \<Rightarrow> bytes list \<Rightarrow> (Frame \<times> bytes) option" where
  "feed f [] = Some (f, [])"
| "feed f (c # cs) = do {
     (f, r) \<leftarrow> unpack f c;
     if isComplete f then Some (f, r @ concat cs) else feed f cs }"

lemma feed_unpack:
  assumes "inflight f" "[] \<notin> set cs" "cs \<noteq> []" "unpack f (concat cs) = Some (f2, r2)" "isComplete f2" "flen f2 \<noteq> 127"
  shows "feed f cs = Some (f2, r2)"
  using assms
proof (induction cs arbitrary: f)
  case (Cons c cs)
  obtain f1 r where u: "unpack f c = Some (f1, r)" using unpack_total [of c f] Cons.prems(2) by auto
  show ?case
  proof (cases "isComplete f1")
    case True
    then show ?thesis using unpack_done [OF Cons.prems(1) u] Cons.prems(4) u by simp
  next
    case False
    then have ne: "concat cs \<noteq> []" "cs \<noteq> []"
      using Cons.prems(2,4,5) u by (cases cs; auto)+
    have "r = [] \<and> inflight f1 \<and> unpack f1 (concat cs) = Some (f2, r2)"
      using unpack_resume [OF Cons.prems(1) u False ne(1)] Cons.prems(4,6) by simp
    with Cons.IH [of f1] Cons.prems ne False u show ?thesis by simp
  qed
qed simp

subsection \<open>Properties\<close>

lemma received_fields:
  "opcode (received rnd op m pl) = op" "payload (received rnd op m pl) = pl"
  "fin (received rnd op m pl) = frameIsFinished" "isComplete (received rnd op m pl)"
  "flen (received rnd op m pl) = of_nat (length pl)"
  "masked (received rnd op m pl) = (if m then frameIsMasked else 0)"
  "rsv1 (received rnd op m pl) = 0" "rsv2 (received rnd op m pl) = 0" "rsv3 (received rnd op m pl) = 0"
  "chopped (received rnd op m pl) = []"
  by (simp_all add: received_def unpack_complete_def newFrame0_def)

text \<open>
  C30: A frame built by \<open>NewFrame\<close>, masked or not and of any size, followed by any other bytes,
  unpacks into a complete frame with the same opcode and payload and leaves exactly the other
  bytes. It passes \<open>isValid\<close> on the side that expects the mask it was built with; for a
  control opcode this needs a payload of at most 125 bytes.
\<close>

theorem unpack_roundtrip:
  assumes "op < 16" "length pl < 2 ^ 64" "op < OpcodeClose \<or> length pl \<le> frameSmallPayload"
  shows "\<exists>f. unpack newFrame0 (NewFrame rnd op m pl @ rest) = Some (f, rest) \<and> isComplete f \<and>
    opcode f = op \<and> payload f = pl \<and> fin f = frameIsFinished \<and> isValid f m False False False"
proof -
  have "(of_nat (length pl) :: u64) \<le> of_nat frameSmallPayload" if "length pl \<le> frameSmallPayload"
    using that by (simp add: word_le_nat_alt unat_of_nat frameSmallPayload_def)
  then have "isValid (received rnd op m pl) m False False False"
    using assms(3) by (auto simp: isValid_def received_fields ws_consts not_less)
  then show ?thesis
    using unpack_NewFrame [OF assms(1,2), of rnd m rest] by (auto simp: received_fields)
qed

theorem unpack_roundtrip_witness:
  "\<exists>f. unpack newFrame0 (NewFrame 7 OpcodeText True [104, 105] @ [0x81]) = Some (f, [0x81]) \<and> isComplete f \<and>
    opcode f = OpcodeText \<and> payload f = [104, 105] \<and> fin f = frameIsFinished \<and> isValid f True False False False"
  by (rule unpack_roundtrip) (simp_all add: ws_consts)

text \<open>
  C19: A frame built by \<open>NewFrame\<close> whose payload is not exactly 127 bytes long may arrive in any
  division into non-empty packets, cut inside the header, the extended length, the mask key or the
  payload: feeding the packets one by one gives the frame that unpacking at once gives.
\<close>

theorem unpack_chunks:
  assumes "op < 16" "length pl < 2 ^ 64" "length pl \<noteq> 127" "[] \<notin> set chunks"
    "concat chunks = NewFrame rnd op m pl @ rest"
  shows "\<exists>f. feed newFrame0 chunks = Some (f, rest) \<and> isComplete f \<and> opcode f = op \<and> payload f = pl \<and>
    unpack newFrame0 (concat chunks) = Some (f, rest)"
proof -
  have "flen (received rnd op m pl) \<noteq> 127"
    using assms(2,3) by (simp add: received_fields word_unat_eq_iff unat_of_nat)
  moreover have "chunks \<noteq> []" using assms(5) by (auto simp: NewFrame_bytes Let_def)
  ultimately have "feed newFrame0 chunks = Some (received rnd op m pl, rest)"
    using assms(4,5) unpack_NewFrame [OF assms(1,2)]
    by (intro feed_unpack inflight_newFrame0) (simp_all add: received_fields)
  then show ?thesis
    using unpack_NewFrame [OF assms(1,2)] by (simp add: assms(5) received_fields)
qed

theorem unpack_chunks_witness:
  "\<exists>f. feed newFrame0 [[0x81], [0x82, 7, 0], [0, 0, 111], [105]] = Some (f, []) \<and> isComplete f \<and>
    opcode f = OpcodeText \<and> payload f = [104, 105] \<and>
    unpack newFrame0 (concat [[0x81], [0x82, 7, 0], [0, 0, 111], [105]]) = Some (f, [])"
proof (rule unpack_chunks [where rnd = 7 and m = True])
  show "concat [[0x81], [0x82, 7, 0], [0, 0, 111], [105]] = NewFrame 7 OpcodeText True [104, 105] @ []"
    by (simp add: NewFrame_bytes mask_bytes_def LittleEndian_PutUint32_def OpcodeText_def Let_def)
qed (simp_all add: ws_consts)

text \<open>
  \<open>unpack\<close> does not panic on any non-empty packet, whatever the state of the frame; on an
  empty packet it panics exactly when it still waits for one of the first two header bytes.
\<close>

theorem unpack_no_panic: "unpack f a = None \<longleftrightarrow> a = [] \<and> length (chopped f) < 2"
proof (cases "a = []")
  case True
  consider (c0) "length (chopped f) = 0" | (c1) "length (chopped f) = 1" | (c2) "2 \<le> length (chopped f)"
    by linarith
  then show ?thesis
  proof cases
    case c2
    then show ?thesis
      by (cases "unpack_extlen f []") (auto simp: unpack_def unpack_header_2 True split: option.splits)
  qed (simp_all add: unpack_def unpack_header_0 unpack_header_1 True)
qed (use unpack_total [of a f] in auto)

text \<open>
  Payloads of 127 bytes are the exception: a binary frame with a payload of 127 zero bytes whose
  first packet ends right after the extended length never completes when the rest of it arrives.
  The length 127 read from the two-byte field is taken for the marker of an eight-byte length on
  the second call, and six bytes of payload become a length of 127 * 2^48.
\<close>

theorem unpack_127_stuck:
  "let packet = NewFrame 0 OpcodeBin False (replicate 127 0)
   in \<exists>f. feed newFrame0 [take 4 packet, drop 4 packet] = Some (f, []) \<and>
        \<not> isComplete f \<and> unat (flen f) = 127 * 2 ^ 48 \<and> length (payload f) = 121"
proof -
  let ?z = "replicate 127 (0 :: byte)" and ?w = "replicate 121 (0 :: byte)"
  define f1 where "f1 = newFrame0\<lparr>fin := 0x80, opcode := 2, flen := 127, chopped := [0x82, 0x7E, 0, 0x7F]\<rparr>"
  define f2 where "f2 = f1\<lparr>flen := 127 * 2 ^ 48, chopped := [0x82, 0x7E, 0, 0x7F, 0, 0, 0, 0, 0, 0]\<rparr>"
  have p: "NewFrame 0 OpcodeBin False ?z = [0x82, 0x7E, 0, 0x7F] @ ?z"
    by (simp add: NewFrame_bytes OpcodeBin_def mask_bytes_def BigEndian_PutUint16_def Let_def)
  have "replicate 6 (0 :: byte) = [0, 0, 0, 0, 0, 0]" by (simp add: numeral_eq_Suc)
  then have z: "?z = [0, 0, 0, 0, 0, 0] @ ?w" using replicate_add [of 6 121 "0 :: byte"] by simp
  have be: "BigEndian_Uint64 [0, 0x7F, 0, 0, 0, 0, 0, 0] = 127 * 2 ^ 48" by (simp add: BigEndian_Uint64_def)
  have u1: "unpack newFrame0 [0x82, 0x7E, 0, 0x7F] = Some (f1, [])"
    by (simp add: unpack_def unpack_header_0 unpack_header_1 unpack_header_2 unpack_byte0_def unpack_byte1_def
        f1_def newFrame0_def unpack_extlen_M BigEndian_Uint16_def unpack_mask_def unpack_payload_def ws_consts)
  have h2: "unpack_header f1 ?z = Some (f2, Some ?w)"
    unfolding z by (simp add: unpack_header_2 f1_def f2_def newFrame0_def unpack_extlen_L be [simplified])
  have u2: "unpack_mask f2 ?w = (f2\<lparr>payload := ?w\<rparr>, [])"
    using unpack_payload_eq [of f2 ?w]
    by (simp add: unpack_mask_def f2_def f1_def newFrame0_def ws_consts unmasked_def)
  have "feed newFrame0 [[0x82, 0x7E, 0, 0x7F], ?z] = Some (f2\<lparr>payload := ?w\<rparr>, [])"
  proof -
    have "unpack f1 ?z = Some (f2\<lparr>payload := ?w\<rparr>, [])" using h2 u2 by (simp add: unpack_def)
    moreover have "\<not> isComplete f1" "\<not> isComplete (f2\<lparr>payload := ?w\<rparr>)"
      by (simp_all add: f2_def f1_def newFrame0_def)
    ultimately show ?thesis using u1 by simp
  qed
  moreover have "\<not> isComplete (f2\<lparr>payload := ?w\<rparr>)" "unat (flen (f2\<lparr>payload := ?w\<rparr>)) = 127 * 2 ^ 48"
    by (simp_all add: f2_def f1_def newFrame0_def)
  ultimately show ?thesis by (auto simp: p Let_def simp del: feed.simps)
qed

text \<open>
  Closing with a status code: the receiver of \<open>NewFrameClose\<close> sees the code (1000 when none
  was given) and the payload cut to the 125 bytes a control frame may carry, whatever its length.
\<close>

theorem unpack_NewFrameClose:
  "\<exists>f. unpack newFrame0 (NewFrameClose rnd m code pl @ rest) = Some (f, rest) \<and> isComplete f \<and>
    opcode f = OpcodeClose \<and> closeCode f = (if code = 0 then StatusNormal else code) \<and>
    drop 2 (payload f) = take 123 pl \<and> isValid f m False False False"
proof -
  define c where "c = (if code = 0 then StatusNormal else code)"
  define p where "p = BigEndian_PutUint16 c @ take 123 pl"
  have p: "NewFrameClose rnd m code pl = NewFrame rnd OpcodeClose m p"
    by (auto simp: NewFrameClose_def newControlFrame_def p_def c_def frameSmallPayload_def
        BigEndian_PutUint16_def Let_def numeral_eq_Suc)
  have len: "length p \<le> 125" by (simp add: p_def)
  then have u: "unpack newFrame0 (NewFrame rnd OpcodeClose m p @ rest) = Some (received rnd OpcodeClose m p, rest)"
    by (intro unpack_NewFrame) (simp_all add: ws_consts)
  have "closeCode (received rnd OpcodeClose m p) = c"
    using uint16_be [of c]
    by (simp add: received_def unpack_complete_def newFrame0_def p_def BigEndian_PutUint16_def)
  moreover have "isValid (received rnd OpcodeClose m p) m False False False"
    using len by (auto simp: isValid_def received_fields ws_consts word_less_nat_alt unat_of_nat)
  ultimately show ?thesis
    using u unfolding p c_def [symmetric] by (simp add: received_fields) (simp add: p_def)
qed

end
