(* ===== verification/WsFrames.thy ===== *)
theory WsFrames
  imports WsResume
begin

section \<open>Streams of frames (lib/websocket/frames.go)\<close>

text \<open>
  \<open>Frames\<close> is the list of its frames. \<open>Unpack\<close> splits a packet into frames, the last of which
  may be incomplete; the other operations combine the fragments of one message. The locale
  \<open>stream_decoder\<close> is the contract of an incremental decoder: what the code that reads a connection
  relies on, whatever the boundaries of the packets are.
\<close>

type_synonym Frames = "Frame list"

definition Append :: "Frames \<Rightarrow> Frame option \<Rightarrow> Frames" where
  "Append frames f = (case f of None \<Rightarrow> frames | Some f \<Rightarrow> frames @ [f])"

subsection \<open>Every frame consumes bytes\<close>

lemma unpack_extlen_le: "unpack_extlen f a = (f1, Some r) \<Longrightarrow> length r \<le> length a"
  by (cases f rule: extlen_cases)
    (auto simp: unpack_extlen_L unpack_extlen_M unpack_extlen_K split: if_splits)

lemma unpack_payload_le: "unpack_payload f a = (f1, r) \<Longrightarrow> length r \<le> length a"
  by (auto simp: unpack_payload_def Let_def split: if_splits)

lemma unpack_mask_le: "unpack_mask f a = (f1, r) \<Longrightarrow> length r \<le> length a"
  using unpack_payload_le [of f a f1 r]
    unpack_payload_le [of "f\<lparr>maskKey := maskKey f @ take (4 - length (maskKey f)) a\<rparr>"
      "drop (4 - length (maskKey f)) a" f1 r]
  by (auto simp: unpack_mask_def Let_def split: if_splits)

lemma unpack_new_less:
  assumes "unpack newFrame0 a = Some (f, r)"
  shows "length r < length a"
proof -
  obtain p ps where a: "a = p # ps"
    using assms unpack_no_panic [of newFrame0 a] by (cases a) (auto simp: newFrame0_def)
  show ?thesis
  proof (cases ps)
    case Nil
    then show ?thesis using assms a by (simp add: unpack_def unpack_header_0 newFrame0_def)
  next
    case (Cons q qs)
    obtain g o1 where e: "unpack_extlen (head2 p q) qs = (g, o1)" by fastforce
    show ?thesis
    proof (cases o1)
      case None
      then show ?thesis using assms a Cons e by (simp add: unpack_def unpack_header_two)
    next
      case (Some r1)
      then have "unpack_mask g r1 = (f, r)" using assms a Cons e by (simp add: unpack_def unpack_header_two)
      from unpack_mask_le [OF this] e Some a Cons show ?thesis
        using unpack_extlen_le [of "head2 p q" qs g r1] by simp
    qed
  qed
qed

text \<open>The loop of \<open>Unpack\<close>. It returns \<open>nil\<close> (\<open>Some None\<close>) for an empty input.\<close>

function Unpack_loop :: "bytes \<Rightarrow> Frames \<Rightarrow> Frames option" where
  "Unpack_loop packet frames =
     (if length packet > 0
      then (case unpack newFrame0 packet of
              None \<Rightarrow> None
            | Some (f, rest) \<Rightarrow> Unpack_loop rest (Append frames (Some f)))
      else Some frames)"
  by pat_completeness auto
termination
  by (relation "measure (\<lambda>(packet, frames). length packet)") (auto dest: unpack_new_less)

declare Unpack_loop.simps [simp del]

definition Unpack :: "bytes \<Rightarrow> Frames option option" where
  "Unpack inp = (if length inp = 0 then Some None else map_option Some (Unpack_loop inp []))"

lemma Unpack_loop_Nil [simp]: "Unpack_loop [] frames = Some frames"
  by (simp add: Unpack_loop.simps)

lemma Unpack_loop_acc:
  "Unpack_loop packet frames = map_option (\<lambda>fs. frames @ fs) (Unpack_loop packet [])"
proof (induction packet arbitrary: frames rule: measure_induct_rule [of length])
  case (less packet)
  show ?case
  proof (cases "packet = [] \<or> unpack newFrame0 packet = None")
    case True
    then show ?thesis by (auto simp: Unpack_loop.simps)
  next
    case False
    then obtain f rest where u: "unpack newFrame0 packet = Some (f, rest)" by auto
    have IH: "Unpack_loop rest fs = map_option (\<lambda>gs. fs @ gs) (Unpack_loop rest [])" for fs
      by (rule less.IH [OF unpack_new_less [OF u]])
    show ?thesis
      using False u IH [of "frames @ [f]"] IH [of "[f]"]
      by (simp add: Unpack_loop.simps [of packet] Append_def option.map_comp o_def)
  qed
qed

lemma Unpack_loop_step:
  "packet \<noteq> [] \<Longrightarrow> Unpack_loop packet [] =
     do { (f, rest) \<leftarrow> unpack newFrame0 packet; fs \<leftarrow> Unpack_loop rest []; Some (f # fs) }"
  by (simp add: Unpack_loop.simps [of packet] Append_def Unpack_loop_acc [of _ "[_]"] map_conv_bind_option
      o_def split: option.splits)

lemma Unpack_loop_total: "\<exists>fs. Unpack_loop packet [] = Some fs"
proof (induction packet rule: measure_induct_rule [of length])
  case (less packet)
  show ?case
  proof (cases "packet = []")
    case False
    then obtain f rest where u: "unpack newFrame0 packet = Some (f, rest)"
      using unpack_total [of packet newFrame0] by auto
    from less.IH [OF unpack_new_less [OF u]] u False show ?thesis by (auto simp: Unpack_loop_step)
  qed simp
qed

subsection \<open>The incremental decoder as an interface\<close>

text \<open>
  \<open>dec s a\<close> continues the decoder state \<open>s\<close> with the bytes \<open>a\<close>; \<open>enc m\<close> is the encoding of a
  valid message and \<open>res m\<close> the state in which it has been read; \<open>all\<close> decodes a packet into
  messages from the initial state.
\<close>

locale stream_decoder =
  fixes dec :: "'s \<Rightarrow> 'b list \<Rightarrow> ('s \<times> 'b list) option"
    and init :: 's
    and complete :: "'s \<Rightarrow> bool"
    and running :: "'s \<Rightarrow> bool"
    and valid :: "'m \<Rightarrow> bool"
    and enc :: "'m \<Rightarrow> 'b list"
    and res :: "'m \<Rightarrow> 's"
    and all :: "'b list \<Rightarrow> 's list option"
  assumes dec_total: "a \<noteq> [] \<Longrightarrow> \<exists>s1 r. dec s a = Some (s1, r)"
    and running_init: "running init"
    and enc_ne: "valid m \<Longrightarrow> enc m \<noteq> []"
    and dec_enc: "valid m \<Longrightarrow> dec init (enc m @ rest) = Some (res m, rest)"
    and res_complete: "valid m \<Longrightarrow> complete (res m)"
    and finish: "running s \<Longrightarrow> dec s a = Some (s1, r) \<Longrightarrow> complete s1 \<Longrightarrow> dec s (a @ b) = Some (s1, r @ b)"
    and resume_cut: "running s \<Longrightarrow> dec s a = Some (s1, r) \<Longrightarrow> \<not> complete s1 \<Longrightarrow> b \<noteq> [] \<Longrightarrow> valid m \<Longrightarrow>
        dec s (a @ b) = Some (res m, r2) \<Longrightarrow> r = [] \<and> running s1 \<and> dec s1 b = Some (res m, r2)"
    and all_Nil: "all [] = Some []"
    and all_step: "a \<noteq> [] \<Longrightarrow> all a = do { (s, r) \<leftarrow> dec init a; ss \<leftarrow> all r; Some (s # ss) }"
begin

definition stream :: "'m list \<Rightarrow> 'b list" where
  "stream ms = concat (map enc ms)"

lemma stream_Nil [simp]: "stream [] = []"
  by (simp add: stream_def)

lemma stream_Cons [simp]: "stream (m # ms) = enc m @ stream ms"
  by (simp add: stream_def)

text \<open>Whole messages in one packet are all decoded.\<close>

lemma all_stream: "list_all valid ms \<Longrightarrow> all (stream ms) = Some (map res ms)"
  by (induction ms) (simp_all add: all_Nil all_step enc_ne dec_enc)

text \<open>A packet that arrives while a message is being read.\<close>

lemma continue:
  assumes "running s" "valid m" "p \<noteq> []" "dec s (p @ b) = Some (res m, rest)"
  obtains (finished) r where "dec s p = Some (res m, r)" "r @ b = rest"
  | (unfinished) s1 where "dec s p = Some (s1, [])" "\<not> complete s1" "running s1" "b \<noteq> []"
      "dec s1 b = Some (res m, rest)"
proof -
  obtain s1 r where d: "dec s p = Some (s1, r)" using dec_total [OF assms(3)] by blast
  show ?thesis
  proof (cases "complete s1")
    case True
    then show ?thesis using finish [OF assms(1) d] assms(4) d finished by simp
  next
    case False
    have "b \<noteq> []" using False d assms(2,4) res_complete by auto
    with resume_cut [OF assms(1) d False this assms(2,4)] d False unfinished show ?thesis by simp
  qed
qed

text \<open>A packet that starts at a message boundary and is cut anywhere.\<close>

lemma packet:
  assumes "list_all valid ms" "p @ b = stream ms"
  obtains (whole) ms1 ms2 where "all p = Some (map res ms1)" "ms = ms1 @ ms2" "b = stream ms2"
  | (cut) ms1 m ms2 s where "all p = Some (map res ms1 @ [s])" "ms = ms1 @ m # ms2" "\<not> complete s"
      "running s" "b \<noteq> []" "dec s b = Some (res m, stream ms2)"
  using assms
proof (induction ms arbitrary: p thesis)
  case Nil
  then show ?case using Nil.prems(1) [of "[]" "[]"] by (simp add: all_Nil)
next
  case (Cons m ms)
  show ?case
  proof (cases "p = []")
    case True
    then show ?thesis using Cons.prems(1) [of "[]" "m # ms"] Cons.prems(4) by (simp add: all_Nil)
  next
    case False
    have v: "valid m" "list_all valid ms" using Cons.prems(3) by simp_all
    have d: "dec init (p @ b) = Some (res m, stream ms)" using Cons.prems(4) v by (simp add: dec_enc)
    show ?thesis
    proof (rule continue [OF running_init v(1) False d])
      fix r assume r: "dec init p = Some (res m, r)" "r @ b = stream ms"
      show ?thesis
      proof (rule Cons.IH [OF _ _ v(2) r(2)])
        fix ms1 ms2 assume "all r = Some (map res ms1)" "ms = ms1 @ ms2" "b = stream ms2"
        then show ?thesis using Cons.prems(1) [of "m # ms1" ms2] False r by (simp add: all_step)
      next
        fix ms1 m' ms2 s assume "all r = Some (map res ms1 @ [s])" "ms = ms1 @ m' # ms2" "\<not> complete s"
          "running s" "b \<noteq> []" "dec s b = Some (res m', stream ms2)"
        then show ?thesis using Cons.prems(2) [of "m # ms1" s m' ms2] False r by (simp add: all_step)
      qed
    next
      fix s1 assume "dec init p = Some (s1, [])" "\<not> complete s1" "running s1" "b \<noteq> []"
        "dec s1 b = Some (res m, stream ms)"
      then show ?thesis using Cons.prems(2) [of "[]" s1 m ms] False by (simp add: all_step all_Nil)
    qed
  qed
qed

end

subsection \<open>The frame decoder implements the interface\<close>

type_synonym message = "u32 \<times> byte \<times> bool \<times> bytes"

definition valid_message :: "message \<Rightarrow> bool" where
  "valid_message = (\<lambda>(rnd, op, m, pl). op < 16 \<and> length pl < 2 ^ 64 \<and> length pl \<noteq> 127)"

definition encode :: "message \<Rightarrow> bytes" where
  "encode = (\<lambda>(rnd, op, m, pl). NewFrame rnd op m pl)"

definition decoded :: "message \<Rightarrow> Frame" where
  "decoded = (\<lambda>(rnd, op, m, pl). received rnd op m pl)"

lemma NewFrame_ne: "NewFrame rnd op m pl \<noteq> []"
  by (simp add: NewFrame_bytes Let_def)

lemma decoded_len: "valid_message m \<Longrightarrow> flen (decoded m) \<noteq> 127"
  by (cases m) (simp add: valid_message_def decoded_def received_fields word_unat_eq_iff unat_of_nat)

interpretation ws: stream_decoder unpack newFrame0 isComplete inflight valid_message encode decoded
  "\<lambda>p. Unpack_loop p []"
proof unfold_locales
  fix s a s1 r b m r2
  assume "inflight s" "unpack s a = Some (s1, r)" "\<not> isComplete s1" "b \<noteq> []" "valid_message m"
    "unpack s (a @ b) = Some (decoded m, r2)"
  then show "r = [] \<and> inflight s1 \<and> unpack s1 b = Some (decoded m, r2)"
    using unpack_resume decoded_len by blast
qed (auto simp: unpack_total inflight_newFrame0 valid_message_def encode_def decoded_def unpack_NewFrame
      received_fields unpack_done Unpack_loop_step NewFrame_ne)

subsection \<open>Fragments of one message\<close>

text \<open>The merging loop of \<open>fin\<close>: from index 1, control frames are skipped and CLOSE ends it.\<close>

fun fin_loop :: "Frame \<Rightarrow> Frames \<Rightarrow> Frame" where
  "fin_loop frame [] = frame"
| "fin_loop frame (f # fs) =
     (if opcode f = OpcodeClose then frame
      else if opcode f = OpcodePing \<or> opcode f = OpcodePong then fin_loop frame fs
      else fin_loop (frame\<lparr>payload := payload frame @ payload f\<rparr>) fs)"

definition frames_fin :: "Frames \<Rightarrow> Frame option \<Rightarrow> Frame option" where
  "frames_fin frames lst = do {
     frame \<leftarrow> idx frames 0;
     let frame = fin_loop frame (drop 1 frames);
     Some (case lst of None \<Rightarrow> frame | Some l \<Rightarrow> frame\<lparr>payload := payload frame @ payload l\<rparr>) }"

fun isClosed_loop :: "Frames \<Rightarrow> bool" where
  "isClosed_loop [] = False"
| "isClosed_loop (f # fs) = (if opcode f = OpcodeClose then True else isClosed_loop fs)"

definition isClosed :: "Frames \<Rightarrow> bool" where
  "isClosed frames = (if length frames = 0 then False else isClosed_loop frames)"

definition frames_Opcode :: "Frames \<Rightarrow> byte" where
  "frames_Opcode frames = (if length frames = 0 then OpcodeCont else opcode (frames ! 0))"

fun payload_loop :: "Frames \<Rightarrow> bytes" where
  "payload_loop [] = []"
| "payload_loop (f # fs) =
     (if opcode f = OpcodeClose then []
      else if opcode f = OpcodePing \<or> opcode f = OpcodePong then payload_loop fs
      else payload f @ (if fin f = frameIsFinished then [] else payload_loop fs))"

definition frames_payload :: "Frames \<Rightarrow> bytes" where
  "frames_payload frames =
     (if length frames = 0 then []
      else if \<not> IsData (frames ! 0) then []
      else payload_loop frames)"

text \<open>Merging and reading agree on fragments.\<close>

lemma payload_fin_loop: "payload (fin_loop f fs) = payload f @ payload (fin_loop (f\<lparr>payload := []\<rparr>) fs)"
proof (induction fs arbitrary: f)
  case (Cons g fs)
  from Cons.IH [of "f\<lparr>payload := payload f @ payload g\<rparr>"] Cons.IH [of "f\<lparr>payload := payload g\<rparr>"]
    Cons.IH [of f]
  show ?case by simp
qed simp

lemma fin_loop_fields: "opcode (fin_loop f fs) = opcode f \<and> fin (fin_loop f fs) = fin f"
  by (induction fs arbitrary: f) auto

lemma payload_loop_fin:
  "list_all (\<lambda>f. fin f \<noteq> frameIsFinished \<or> opcode f = OpcodeClose \<or> opcode f = OpcodePing \<or> opcode f = OpcodePong) fs \<Longrightarrow>
   payload_loop fs = payload (fin_loop (f\<lparr>payload := []\<rparr>) fs)"
proof (induction fs)
  case (Cons g fs)
  then show ?case
    using payload_fin_loop [of "f\<lparr>payload := payload g\<rparr>" fs] by auto
qed simp

subsection \<open>Properties\<close>

text \<open>
  \<open>Unpack\<close> on the concatenation of any frames built by \<open>NewFrame\<close> returns exactly these
  frames, complete and in order; and on any input at all it terminates without a panic, returning
  \<open>nil\<close> only for the empty input.
\<close>

theorem Unpack_all_frames:
  assumes "list_all valid_message ms" "ms \<noteq> []"
  shows "Unpack (concat (map encode ms)) = Some (Some (map decoded ms)) \<and>
    Unpack inp \<noteq> None \<and> (Unpack inp = Some None \<longleftrightarrow> inp = [])"
proof -
  have "concat (map encode ms) \<noteq> []" using assms by (cases ms) (auto dest: ws.enc_ne)
  then have "Unpack (concat (map encode ms)) = Some (Some (map decoded ms))"
    using ws.all_stream [OF assms(1)] by (simp add: Unpack_def ws.stream_def)
  moreover have "Unpack inp \<noteq> None \<and> (Unpack inp = Some None \<longleftrightarrow> inp = [])"
    using Unpack_loop_total [of inp] by (auto simp: Unpack_def)
  ultimately show ?thesis by blast
qed

theorem Unpack_all_frames_witness:
  "Unpack (concat (map encode [(0, OpcodeText, False, [104]), (9, OpcodePing, True, [])])) =
     Some (Some (map decoded [(0, OpcodeText, False, [104]), (9, OpcodePing, True, [])])) \<and>
   Unpack [0x81] \<noteq> None \<and> (Unpack [0x81] = Some None \<longleftrightarrow> [0x81 :: byte] = [])"
  by (rule Unpack_all_frames) (simp_all add: valid_message_def ws_consts)

text \<open>
  Reassembly of a fragmented message: when no fragment but the last has its FIN bit set, the
  frame that \<open>fin\<close> builds keeps the opcode of the first fragment and has the payload that
  \<open>Frames.payload\<close> reads from all of them, which is the concatenation of the fragments when
  there is no control frame among them.
\<close>

theorem fin_payload:
  assumes "IsData f" "fin f \<noteq> frameIsFinished" "list_all (\<lambda>g. opcode g = OpcodeCont \<and> fin g \<noteq> frameIsFinished) fs"
    "opcode l = OpcodeCont" "fin l = frameIsFinished"
  shows "\<exists>m. frames_fin (f # fs) (Some l) = Some m \<and> opcode m = opcode f \<and>
    payload m = frames_payload (f # fs @ [l]) \<and> payload m = concat (map payload (f # fs @ [l]))"
proof -
  have "opcode f \<noteq> OpcodeClose" "opcode f \<noteq> OpcodePing" "opcode f \<noteq> OpcodePong"
    using assms(1) by (auto simp: IsData_def ws_consts)
  moreover have "payload_loop (fs @ [l]) = concat (map payload fs) @ payload l"
    using assms(3-5) by (induction fs) (auto simp: ws_consts)
  moreover have "payload (fin_loop f fs) = payload f @ concat (map payload fs)"
    using assms(3) by (induction fs arbitrary: f) (auto simp: ws_consts)
  ultimately show ?thesis
    using assms(1,2) fin_loop_fields [of f fs] by (simp add: frames_fin_def frames_payload_def idx_def)
qed

theorem fin_payload_witness:
  "\<exists>m. frames_fin ((newFrame0\<lparr>opcode := OpcodeText, payload := [1, 2]\<rparr>) # [newFrame0\<lparr>payload := [3]\<rparr>]) (Some (newFrame0\<lparr>fin := frameIsFinished, payload := [4]\<rparr>)) = Some m \<and>
     opcode m = opcode (newFrame0\<lparr>opcode := OpcodeText, payload := [1, 2]\<rparr>) \<and>
     payload m = frames_payload ((newFrame0\<lparr>opcode := OpcodeText, payload := [1, 2]\<rparr>) # [newFrame0\<lparr>payload := [3]\<rparr>] @ [(newFrame0\<lparr>fin := frameIsFinished, payload := [4]\<rparr>)]) \<and>
     payload m = concat (map payload ((newFrame0\<lparr>opcode := OpcodeText, payload := [1, 2]\<rparr>) # [newFrame0\<lparr>payload := [3]\<rparr>] @ [(newFrame0\<lparr>fin := frameIsFinished, payload := [4]\<rparr>)]))"
  by (rule fin_payload) (simp_all add: newFrame0_def IsData_def ws_consts)

end
