(* ===== verification/WsReader.thy ===== *)
theory WsReader
  imports WsFrames
begin

section \<open>Reading frames from packets (lib/websocket/client.go and server.go)\<close>

text \<open>
  What the reading loops of the client (\<open>Client.serve\<close>) and of the server (\<open>Server.reader\<close>) have
  in common. Both keep at most one unfinished frame for a connection, give the next packet first
  to that frame, unpack the rest of the packet and handle the complete frames in order until one
  of them closes the connection. The locale \<open>frame_reader\<close> states this as an interface over the
  state, the handler of one frame and the slot of the unfinished frame; its lemmas say that the
  division of the stream into packets does not matter. The client and the server interpret it.
\<close>

text \<open>The whole payload of the frame is there.\<close>

definition whole :: "Frame \<Rightarrow> bool" where
  "whole f \<longleftrightarrow> unat (flen f) \<le> length (payload f)"

lemma whole_decoded: "valid_message m \<Longrightarrow> whole (decoded m)"
  by (cases m) (simp add: whole_def valid_message_def decoded_def received_fields unat_of_nat)

lemma decoded_whole_list:
  "list_all valid_message ms \<Longrightarrow> list_all isComplete (map decoded ms) \<and> list_all whole (map decoded ms)"
  by (induction ms) (simp_all add: ws.res_complete whole_decoded)

lemma frames_fin_total: "fs \<noteq> [] \<Longrightarrow> \<exists>m. frames_fin fs l = Some m"
  by (cases fs) (simp_all add: frames_fin_def idx_def Let_def)

lemma stream_ne: "list_all valid_message ms \<Longrightarrow> ws.stream ms = [] \<Longrightarrow> ms = []"
  by (cases ms) (auto dest: ws.enc_ne)

text \<open>
  The loop over the frames of a packet: an incomplete frame is kept, a complete one is handled.
  \<open>each\<close> is the loop over whole frames, \<open>steps\<close> the loop over packets; they end at the first
  frame that closes the connection.
\<close>

fun feed :: "('s \<Rightarrow> Frame \<Rightarrow> ('s \<times> bool) option) \<Rightarrow> (Frame option \<Rightarrow> 's \<Rightarrow> 's) \<Rightarrow> 's \<Rightarrow> Frames \<Rightarrow> ('s \<times> bool) option" where
  "feed handle put s [] = Some (s, False)"
| "feed handle put s (f # fs) =
     (if \<not> isComplete f then feed handle put (put (Some f) s) fs
      else do {
        (s, isClosing) \<leftarrow> handle s f;
        if isClosing then Some (s, True) else feed handle put s fs })"

fun each :: "('s \<Rightarrow> 'a \<Rightarrow> ('s \<times> bool) option) \<Rightarrow> 's \<Rightarrow> 'a list \<Rightarrow> ('s \<times> bool) option" where
  "each step s [] = Some (s, False)"
| "each step s (p # ps) = do {
     (s, isClosing) \<leftarrow> step s p;
     if isClosing then Some (s, True) else each step s ps }"

lemma each_append:
  "each h s (fs @ gs) = do {
     (s, isClosing) \<leftarrow> each h s fs;
     if isClosing then Some (s, True) else each h s gs }"
  by (induction fs arbitrary: s) (auto intro!: bind_cong_Some)

lemma each_total:
  assumes "\<And>s f. P s \<Longrightarrow> Q f \<Longrightarrow> \<exists>s1 c. h s f = Some (s1, c) \<and> P s1" "P s" "list_all Q fs"
  shows "\<exists>s1 c. each h s fs = Some (s1, c) \<and> P s1"
  using assms(2,3)
proof (induction fs arbitrary: s)
  case (Cons f fs)
  obtain s1 c where "h s f = Some (s1, c)" "P s1" using assms(1) [OF Cons.prems(1), of f] Cons.prems(2) by auto
  with Cons.IH [of s1] Cons.prems(2) show ?case by (cases c) auto
qed auto

lemma feed_complete: "list_all isComplete fs \<Longrightarrow> feed h put s fs = each h s fs"
  by (induction fs arbitrary: s) (auto intro!: bind_cong_Some)

lemma feed_incomplete:
  "list_all isComplete fs \<Longrightarrow> \<not> isComplete f \<Longrightarrow> feed h put s (fs @ [f]) = do {
     (s, isClosing) \<leftarrow> each h s fs;
     if isClosing then Some (s, True) else Some (put (Some f) s, False) }"
  by (induction fs arbitrary: s) (auto intro!: bind_cong_Some)

text \<open>
  The simulation relation: the bytes still to come hold the messages still to come, from a
  message boundary or from the middle of a message whose first part is in the unfinished frame.
\<close>

definition pending :: "Frame option \<Rightarrow> bytes \<Rightarrow> message list \<Rightarrow> bool" where
  "pending cur b ms \<longleftrightarrow>
     (case cur of
        None \<Rightarrow> b = ws.stream ms
      | Some f \<Rightarrow> inflight f \<and> b \<noteq> [] \<and>
          (\<exists>m ms1. ms = m # ms1 \<and> unpack f b = Some (decoded m, ws.stream ms1)))"

locale frame_reader =
  fixes handle :: "'s \<Rightarrow> Frame \<Rightarrow> ('s \<times> bool) option"
    and frame :: "'s \<Rightarrow> Frame option"
    and put :: "Frame option \<Rightarrow> 's \<Rightarrow> 's"
    and step :: "'s \<Rightarrow> bytes \<Rightarrow> ('s \<times> bool) option"
  assumes frame_put: "frame (put x s) = x"
    and put_None: "frame s = None \<Longrightarrow> put None s = s"
    and put_put: "put x (put y s) = put x s"
    and handle_keeps: "handle s f = Some (s1, c) \<Longrightarrow> frame s = None \<Longrightarrow> whole f \<Longrightarrow> frame s1 = None"
    and step_None: "p \<noteq> [] \<Longrightarrow> frame s = None \<Longrightarrow>
      step s p = do { fs \<leftarrow> Unpack_loop p []; feed handle put s fs }"
    and step_Some: "p \<noteq> [] \<Longrightarrow> frame s = Some f \<Longrightarrow> step s p = do {
      (f, r) \<leftarrow> unpack f p;
      (s, isClosing) \<leftarrow> (if isComplete f then handle (put None s) f else Some (put (Some f) s, False));
      if isClosing then Some (s, True)
      else if r = [] then Some (s, False)
      else do { fs \<leftarrow> Unpack_loop r []; feed handle put s fs } }"
begin

lemma each_keeps:
  assumes "each handle s fs = Some (s1, c)" "frame s = None" "list_all whole fs"
  shows "frame s1 = None"
  using assms
proof (induction fs arbitrary: s)
  case (Cons f fs)
  obtain s2 c2 where h: "handle s f = Some (s2, c2)" using Cons.prems(1) by (auto simp: bind_Some_conv)
  with handle_keeps [OF h] Cons show ?case by (cases c2) auto
qed simp

text \<open>A packet that starts at a frame boundary.\<close>

lemma raw_pending:
  assumes "list_all valid_message ms" "p @ b = ws.stream ms" "p \<noteq> []"
  obtains ms1 ms2 cur where "ms = ms1 @ ms2" "pending cur b ms2"
    "\<And>s. frame s = None \<Longrightarrow> (do { fs \<leftarrow> Unpack_loop p []; feed handle put s fs }) = do {
      (s, c) \<leftarrow> each handle s (map decoded ms1);
      Some (if c then (s, True) else (put cur s, False)) }"
  using assms(1,2)
proof (cases rule: ws.packet)
  case (whole ms1 ms2)
  have v: "list_all isComplete (map decoded ms1)" "list_all WsReader.whole (map decoded ms1)"
    using assms(1) whole(2) decoded_whole_list [of ms1] by auto
  have "each handle s (map decoded ms1) = do {
      (s, c) \<leftarrow> each handle s (map decoded ms1);
      Some (if c then (s, True) else (put None s, False)) }" if "frame s = None" for s
    using each_keeps [OF _ that v(2)] by (cases "each handle s (map decoded ms1)") (auto simp: put_None)
  with whole v(1) show ?thesis
    by (intro that [of ms1 ms2 None]) (simp_all add: feed_complete pending_def)
next
  case (cut ms1 m ms2 f)
  have v: "list_all isComplete (map decoded ms1)" using assms(1) cut(2) decoded_whole_list [of ms1] by auto
  from cut v show ?thesis
    by (intro that [of ms1 "m # ms2" "Some f"])
      (auto simp: feed_incomplete pending_def intro!: bind_cong_Some)
qed

lemma step_pending:
  assumes "list_all valid_message ms" "pending (frame s) (p @ b) ms" "p \<noteq> []"
  obtains ms1 ms2 cur where "ms = ms1 @ ms2" "pending cur b ms2"
    "step s p = do {
      (s, c) \<leftarrow> each handle (put None s) (map decoded ms1);
      Some (if c then (s, True) else (put cur s, False)) }"
proof (cases "frame s")
  case None
  with assms(2) have "p @ b = ws.stream ms" by (simp add: pending_def)
  from raw_pending [OF assms(1) this assms(3)] obtain ms1 ms2 cur where *: "ms = ms1 @ ms2" "pending cur b ms2"
    "\<And>s. frame s = None \<Longrightarrow> (do { fs \<leftarrow> Unpack_loop p []; feed handle put s fs }) = do {
      (s, c) \<leftarrow> each handle s (map decoded ms1);
      Some (if c then (s, True) else (put cur s, False)) }" by blast
  from that [OF *(1,2)] *(3) [OF None] step_None [OF assms(3) None] show ?thesis by (simp add: put_None [OF None])
next
  case (Some f)
  with assms(2) obtain m ms' where f: "inflight f" "ms = m # ms'" "unpack f (p @ b) = Some (decoded m, ws.stream ms')"
    by (auto simp: pending_def)
  then have v: "valid_message m" "list_all valid_message ms'" using assms(1) by simp_all
  note st = step_Some [OF assms(3) Some]
  have fr: "frame (put None s) = None" by (rule frame_put)
  have hk: "frame s1 = None" if "handle (put None s) (decoded m) = Some (s1, c)" for s1 c
    using handle_keeps [OF that fr whole_decoded [OF v(1)]] .
  from f(1) v(1) assms(3) f(3) show ?thesis
  proof (cases rule: ws.continue)
    case (finished r)
    show ?thesis
    proof (cases "r = []")
      case True
      have "step s p = do {
          (s, c) \<leftarrow> each handle (put None s) (map decoded [m]);
          Some (if c then (s, True) else (put None s, False)) }"
        using True finished hk ws.res_complete [OF v(1)]
        by (cases "handle (put None s) (decoded m)") (auto simp: st put_None)
      with True finished f(2) show ?thesis by (intro that [of "[m]" ms' None]) (auto simp: pending_def)
    next
      case False
      from raw_pending [OF v(2) finished(2) False] obtain ms1 ms2 cur where *: "ms' = ms1 @ ms2" "pending cur b ms2"
        "\<And>s. frame s = None \<Longrightarrow> (do { fs \<leftarrow> Unpack_loop r []; feed handle put s fs }) = do {
          (s, c) \<leftarrow> each handle s (map decoded ms1);
          Some (if c then (s, True) else (put cur s, False)) }" by blast
      have "step s p = do {
          (s, c) \<leftarrow> each handle (put None s) (map decoded (m # ms1));
          Some (if c then (s, True) else (put cur s, False)) }"
        using False finished(1) *(3) hk ws.res_complete [OF v(1)]
        by (cases "handle (put None s) (decoded m)") (auto simp: st)
      with that [of "m # ms1" ms2 cur] *(1,2) f(2) show ?thesis by simp
    qed
  next
    case (unfinished f1)
    with f(2) show ?thesis
      by (intro that [of "[]" ms "Some f1"]) (auto simp: pending_def st put_put)
  qed
qed

text \<open>All packets of a stream of messages, divided anywhere.\<close>

lemma steps_messages:
  assumes "list_all valid_message ms" "[] \<notin> set packets" "pending (frame s) (concat packets) ms"
  shows "each step s packets = each handle (put None s) (map decoded ms)"
  using assms
proof (induction packets arbitrary: s ms)
  case Nil
  then have "ms = [] \<and> frame s = None" using stream_ne [of ms] by (auto simp: pending_def split: option.splits)
  then show ?case by (simp add: put_None)
next
  case (Cons p packets)
  from Cons.prems have "pending (frame s) (p @ concat packets) ms" "p \<noteq> []" by auto
  from step_pending [OF Cons.prems(1) this] obtain ms1 ms2 cur where
    *: "ms = ms1 @ ms2" "pending cur (concat packets) ms2"
      "step s p = do {
        (s, c) \<leftarrow> each handle (put None s) (map decoded ms1);
        Some (if c then (s, True) else (put cur s, False)) }" by blast
  have v: "list_all valid_message ms2" "list_all whole (map decoded ms1)"
    using Cons.prems(1) *(1) decoded_whole_list [of ms1] by auto
  show ?case
  proof (cases "each handle (put None s) (map decoded ms1)")
    case None
    then show ?thesis using * by (simp add: each_append)
  next
    case (Some r)
    then obtain s1 c where r: "each handle (put None s) (map decoded ms1) = Some (s1, c)" by (cases r) auto
    have k: "frame s1 = None" by (rule each_keeps [OF r frame_put v(2)])
    have "each step (put cur s1) packets = each handle s1 (map decoded ms2)"
      using Cons.IH [of ms2 "put cur s1"] v(1) Cons.prems(2) *(2) k by (simp add: frame_put put_put put_None)
    with * r show ?thesis by (cases c) (simp_all add: each_append)
  qed
qed

text \<open>Invariants of the handler are invariants of the reader, and it does not panic when the handler does not.\<close>

lemma feed_inv:
  assumes "\<And>s f. P s \<Longrightarrow> \<exists>s1 c. handle s f = Some (s1, c) \<and> P s1" "\<And>x s. P s \<Longrightarrow> P (put x s)" "P s"
  shows "\<exists>s1 c. feed handle put s fs = Some (s1, c) \<and> P s1"
  using assms(3)
proof (induction fs arbitrary: s)
  case (Cons f fs)
  obtain s1 c where "handle s f = Some (s1, c)" "P s1" using assms(1) [OF Cons.prems] by blast
  with Cons.IH [of s1] Cons.IH [OF assms(2) [OF Cons.prems]] show ?case by (cases c) auto
qed auto

lemma step_inv:
  assumes "\<And>s f. P s \<Longrightarrow> \<exists>s1 c. handle s f = Some (s1, c) \<and> P s1" "\<And>x s. P s \<Longrightarrow> P (put x s)" "P s" "p \<noteq> []"
  shows "\<exists>s1 c. step s p = Some (s1, c) \<and> P s1"
proof (cases "frame s")
  case None
  obtain fs where "Unpack_loop p [] = Some fs" using Unpack_loop_total by blast
  with feed_inv [OF assms(1-3), of fs] None assms(4) show ?thesis by (auto simp: step_None)
next
  case (Some f)
  obtain f1 r where u: "unpack f p = Some (f1, r)" using unpack_total [OF assms(4)] by blast
  obtain s1 c where h: "(if isComplete f1 then handle (put None s) f1 else Some (put (Some f1) s, False)) = Some (s1, c)"
    "P s1" using assms(1) [OF assms(2) [OF assms(3)], of None f1] assms(2) [OF assms(3)] by (cases "isComplete f1") auto
  obtain fs where "Unpack_loop r [] = Some fs" using Unpack_loop_total by blast
  with feed_inv [OF assms(1,2) h(2), of fs] u h show ?thesis by (auto simp: step_Some [OF assms(4) Some])
qed

end

end
