(* ===== verification/WsClient.thy ===== *)
theory WsClient
  imports WsReader
begin

section \<open>The websocket client (lib/websocket/client.go)\<close>

text \<open>
  The receiving side of \<open>Client\<close>: what it does with the packets of an open connection, from
  \<open>serve\<close> down to the handlers of single frames.

  The state is the record \<open>Client\<close>. Of the connection it keeps whether it is open, the packets
  handed to \<open>conn.Write\<close> (\<open>sent\<close>) and the calls of the user's handlers (\<open>calls\<close>), in order.
  The results of the user's handlers are the parameter \<open>hs\<close>, and the random mask keys the
  parameter \<open>rng\<close>, the \<open>n\<close>-th call of \<open>rand.Uint32\<close> returning \<open>rng n\<close>. The close and ping
  handlers are the default ones, which only the package's own tests replace. An error of
  \<open>conn.Write\<close> is only logged by every caller here, so it is not part of the state. The trace
  output under \<open>debug.Value\<close> is left out.
\<close>

datatype call = CallText Frame | CallBin Frame | CallPong Frame | CallRsvControl Frame | CallQuit

record handlers =
  HandleText :: "Frame \<Rightarrow> bool"
  HandleBin :: "Frame \<Rightarrow> bool"
  hasHandlePong :: bool
  hasHandleRsvControl :: bool
  hasHandleQuit :: bool

record Client =
  conn :: bool
  cl_frame :: "Frame option"
  cl_frames :: "Frames option"
  allowRsv1 :: bool
  allowRsv2 :: bool
  allowRsv3 :: bool
  sent :: "bytes list"
  calls :: "call list"
  nrand :: nat

subsection \<open>unicode/utf8\<close>

text \<open>\<open>utf8.Valid\<close>: the well-formed sequences of the Unicode standard, as the Go library accepts.\<close>

abbreviation cont_byte :: "byte \<Rightarrow> bool" where
  "cont_byte b \<equiv> 0x80 \<le> b \<and> b \<le> 0xBF"

fun utf8_Valid :: "bytes \<Rightarrow> bool" where
  "utf8_Valid [] = True"
| "utf8_Valid (a # bs) =
     (if a < 0x80 then utf8_Valid bs
      else if 0xC2 \<le> a \<and> a \<le> 0xDF then
        (case bs of b # bs \<Rightarrow> cont_byte b \<and> utf8_Valid bs | _ \<Rightarrow> False)
      else if 0xE0 \<le> a \<and> a \<le> 0xEF then
        (case bs of
           b # c # bs \<Rightarrow> (if a = 0xE0 then 0xA0 else 0x80) \<le> b \<and> b \<le> (if a = 0xED then 0x9F else 0xBF) \<and>
             cont_byte c \<and> utf8_Valid bs
         | _ \<Rightarrow> False)
      else if 0xF0 \<le> a \<and> a \<le> 0xF4 then
        (case bs of
           b # c # d # bs \<Rightarrow> (if a = 0xF0 then 0x90 else 0x80) \<le> b \<and> b \<le> (if a = 0xF4 then 0x8F else 0xBF) \<and>
             cont_byte c \<and> cont_byte d \<and> utf8_Valid bs
         | _ \<Rightarrow> False)
      else False)"

subsection \<open>Sending and closing\<close>

definition send :: "Client \<Rightarrow> bytes \<Rightarrow> Client" where
  "send cl packet = (if \<not> conn cl then cl else cl\<lparr>sent := sent cl @ [packet]\<rparr>)"

text \<open>A packet that is built with a random mask key takes the next random number.\<close>

definition send_masked :: "(nat \<Rightarrow> u32) \<Rightarrow> Client \<Rightarrow> (u32 \<Rightarrow> bytes) \<Rightarrow> Client" where
  "send_masked rng cl packet = send (cl\<lparr>nrand := nrand cl + 1\<rparr>) (packet (rng (nrand cl)))"

definition SendBin :: "(nat \<Rightarrow> u32) \<Rightarrow> Client \<Rightarrow> bytes \<Rightarrow> Client" where
  "SendBin rng cl pl = send_masked rng cl (\<lambda>rnd. NewFrameBin rnd True pl)"

definition SendClose :: "(nat \<Rightarrow> u32) \<Rightarrow> Client \<Rightarrow> u16 \<Rightarrow> bytes \<Rightarrow> Client" where
  "SendClose rng cl status pl = send_masked rng cl (\<lambda>rnd. NewFrameClose rnd True status pl)"

definition SendPing :: "(nat \<Rightarrow> u32) \<Rightarrow> Client \<Rightarrow> bytes \<Rightarrow> Client" where
  "SendPing rng cl pl = send_masked rng cl (\<lambda>rnd. NewFramePing rnd True pl)"

definition SendPong :: "(nat \<Rightarrow> u32) \<Rightarrow> Client \<Rightarrow> bytes \<Rightarrow> Client" where
  "SendPong rng cl pl = send_masked rng cl (\<lambda>rnd. NewFramePong rnd True pl)"

definition SendText :: "(nat \<Rightarrow> u32) \<Rightarrow> Client \<Rightarrow> bytes \<Rightarrow> Client" where
  "SendText rng cl pl = send_masked rng cl (\<lambda>rnd. NewFrameText rnd True pl)"

definition handleBadRequest :: "(nat \<Rightarrow> u32) \<Rightarrow> Client \<Rightarrow> Client" where
  "handleBadRequest rng cl = send_masked rng cl (\<lambda>rnd. NewFrameClose rnd True StatusBadRequest [])"

definition handleInvalidData :: "(nat \<Rightarrow> u32) \<Rightarrow> Client \<Rightarrow> Client" where
  "handleInvalidData rng cl = send_masked rng cl (\<lambda>rnd. NewFrameClose rnd True StatusInvalidData [])"

definition called :: "Client \<Rightarrow> call \<Rightarrow> Client" where
  "called cl c = cl\<lparr>calls := calls cl @ [c]\<rparr>"

definition Quit :: "handlers \<Rightarrow> Client \<Rightarrow> Client" where
  "Quit hs cl =
     (if \<not> conn cl then cl
      else let cl = cl\<lparr>conn := False\<rparr>
           in if hasHandleQuit hs then called cl CallQuit else cl)"

definition close_status :: "u16 \<Rightarrow> u16" where
  "close_status code =
     (if code = 0 then StatusBadRequest
      else if code < StatusNormal then StatusBadRequest
      else if code = 1004 then StatusBadRequest
      else if code = 1005 then StatusBadRequest
      else if code = 1006 then StatusBadRequest
      else if code \<ge> 1015 \<and> code \<le> 2999 then StatusBadRequest
      else code)"

definition clientOnClose :: "handlers \<Rightarrow> (nat \<Rightarrow> u32) \<Rightarrow> Client \<Rightarrow> Frame \<Rightarrow> Client" where
  "clientOnClose hs rng cl frame =
     (let frame = frame\<lparr>closeCode := close_status (closeCode frame)\<rparr>;
          frame = (if length (payload frame) \<ge> 2 then
                     let frame = frame\<lparr>payload := drop 2 (payload frame)\<rparr>
                     in if \<not> utf8_Valid (payload frame) then frame\<lparr>closeCode := StatusBadRequest\<rparr> else frame
                   else frame);
          cl = send_masked rng cl (\<lambda>rnd. NewFrameClose rnd True (closeCode frame) (payload frame))
      in Quit hs cl)"

definition clientOnPing :: "(nat \<Rightarrow> u32) \<Rightarrow> Client \<Rightarrow> Frame option \<Rightarrow> Client" where
  "clientOnPing rng cl frame = (case frame of None \<Rightarrow> cl | Some frame \<Rightarrow> SendPong rng cl (payload frame))"

subsection \<open>Handling frames\<close>

definition deliver :: "handlers \<Rightarrow> (nat \<Rightarrow> u32) \<Rightarrow> Client \<Rightarrow> Frame \<Rightarrow> Client \<times> bool" where
  "deliver hs rng cl frame =
     (if opcode frame = OpcodeText then
        (if \<not> utf8_Valid (payload frame) then (handleInvalidData rng cl, True)
         else let cl = called cl (CallText frame)
              in if HandleText hs frame then (handleBadRequest rng cl, True) else (cl, False))
      else let cl = called cl (CallBin frame)
           in if HandleBin hs frame then (handleBadRequest rng cl, True) else (cl, False))"

definition handleFragment :: "handlers \<Rightarrow> (nat \<Rightarrow> u32) \<Rightarrow> Client \<Rightarrow> Frame \<Rightarrow> (Client \<times> bool) option" where
  "handleFragment hs rng cl frame =
     (if cl_frames cl = None \<and> opcode frame = OpcodeCont then Some (handleBadRequest rng cl, True)
      else if cl_frames cl \<noteq> None \<and> opcode frame \<noteq> OpcodeCont then Some (handleBadRequest rng cl, True)
      else if fin frame = 0 then
        (if length (payload frame) < unat (flen frame) then Some (cl\<lparr>cl_frame := Some frame\<rparr>, False)
         else let frames = (case cl_frames cl of None \<Rightarrow> [] | Some fs \<Rightarrow> fs)
              in Some (cl\<lparr>cl_frames := Some (Append frames (Some frame)), cl_frame := None\<rparr>, False))
      else if cl_frame cl = None \<and> length (payload frame) < unat (flen frame) then
        Some (cl\<lparr>cl_frame := Some frame\<rparr>, False)
      else do {
        frame \<leftarrow> (case cl_frames cl of None \<Rightarrow> Some frame | Some fs \<Rightarrow> frames_fin fs (Some frame));
        Some (deliver hs rng (cl\<lparr>cl_frame := None, cl_frames := None\<rparr>) frame) })"

definition handleFrame :: "handlers \<Rightarrow> (nat \<Rightarrow> u32) \<Rightarrow> Client \<Rightarrow> Frame \<Rightarrow> (Client \<times> bool) option" where
  "handleFrame hs rng cl frame =
     (if \<not> isValid frame False (allowRsv1 cl) (allowRsv2 cl) (allowRsv3 cl) then
        Some (handleBadRequest rng cl, True)
      else if opcode frame = OpcodeCont \<or> opcode frame = OpcodeText \<or> opcode frame = OpcodeBin then
        handleFragment hs rng cl frame
      else if 3 \<le> opcode frame \<and> opcode frame \<le> 7 then Some (handleBadRequest rng cl, True)
      else if opcode frame = OpcodeClose then Some (clientOnClose hs rng cl frame, True)
      else if opcode frame = OpcodePing then Some (clientOnPing rng cl (Some frame), False)
      else if opcode frame = OpcodePong then
        Some (if hasHandlePong hs then called cl (CallPong frame) else cl, False)
      else if 0xB \<le> opcode frame \<and> opcode frame \<le> 0xF then
        (if hasHandleRsvControl hs then Some (called cl (CallRsvControl frame), False)
         else Some (clientOnClose hs rng cl frame, True))
      else Some (cl, False))"

text \<open>The loop of \<open>handleRaw\<close>: an incomplete frame is kept, a complete one is handled.\<close>

fun handleRaw_loop :: "handlers \<Rightarrow> (nat \<Rightarrow> u32) \<Rightarrow> Client \<Rightarrow> Frames \<Rightarrow> (Client \<times> bool) option" where
  "handleRaw_loop hs rng cl [] = Some (cl, False)"
| "handleRaw_loop hs rng cl (f # fs) =
     (if \<not> isComplete f then handleRaw_loop hs rng (cl\<lparr>cl_frame := Some f\<rparr>) fs
      else do {
        (cl, isClosing) \<leftarrow> handleFrame hs rng cl f;
        if isClosing then Some (cl, True) else handleRaw_loop hs rng cl fs })"

definition handleRaw :: "handlers \<Rightarrow> (nat \<Rightarrow> u32) \<Rightarrow> Client \<Rightarrow> bytes \<Rightarrow> (Client \<times> bool) option" where
  "handleRaw hs rng cl packet = do {
     frames \<leftarrow> Unpack packet;
     case frames of None \<Rightarrow> Some (cl, False) | Some fs \<Rightarrow> handleRaw_loop hs rng cl fs }"

text \<open>
  One round of the loop of \<open>serve\<close>, on the packet that \<open>recv\<close> returned; the flag says that
  \<open>serve\<close> returns. \<open>serve\<close> itself runs over the packets of the connection, and the end of the
  list stands for an error of \<open>recv\<close>.
\<close>

definition serve_step :: "handlers \<Rightarrow> (nat \<Rightarrow> u32) \<Rightarrow> Client \<Rightarrow> bytes \<Rightarrow> (Client \<times> bool) option" where
  "serve_step hs rng cl packet =
     (case cl_frame cl of
        None \<Rightarrow> handleRaw hs rng cl packet
      | Some f \<Rightarrow> do {
          (f, packet) \<leftarrow> unpack f packet;
          (cl, isClosing) \<leftarrow> (if isComplete f then handleFrame hs rng (cl\<lparr>cl_frame := None\<rparr>) f
                             else Some (cl\<lparr>cl_frame := Some f\<rparr>, False));
          if isClosing then Some (cl, True)
          else if length packet = 0 then Some (cl, False)
          else handleRaw hs rng cl packet })"

fun serve_loop :: "handlers \<Rightarrow> (nat \<Rightarrow> u32) \<Rightarrow> Client \<Rightarrow> bytes list \<Rightarrow> Client option" where
  "serve_loop hs rng cl [] = Some (Quit hs cl)"
| "serve_loop hs rng cl (packet # packets) =
     (if \<not> conn cl \<or> length packet = 0 then Some (Quit hs cl)
      else do {
        (cl, isClosing) \<leftarrow> serve_step hs rng cl packet;
        if isClosing then Some cl else serve_loop hs rng cl packets })"

definition serve :: "handlers \<Rightarrow> (nat \<Rightarrow> u32) \<Rightarrow> Client \<Rightarrow> bytes list \<Rightarrow> Client option" where
  "serve hs rng cl packets = (if \<not> conn cl then Some cl else serve_loop hs rng cl packets)"

subsection \<open>What the handlers keep\<close>

lemmas send_defs = send_masked_def send_def handleBadRequest_def handleInvalidData_def SendPong_def called_def

lemma send_masked_frame [simp]:
  "cl_frame (send_masked rng cl p) = cl_frame cl" "cl_frames (send_masked rng cl p) = cl_frames cl"
  "conn (send_masked rng cl p) = conn cl" "calls (send_masked rng cl p) = calls cl"
  by (simp_all add: send_defs)

lemma called_frame [simp]:
  "cl_frame (called cl c) = cl_frame cl" "cl_frames (called cl c) = cl_frames cl" "conn (called cl c) = conn cl"
  "sent (called cl c) = sent cl"
  by (simp_all add: called_def)

lemma handleBadRequest_frame [simp]:
  "cl_frame (handleBadRequest rng cl) = cl_frame cl" "cl_frames (handleBadRequest rng cl) = cl_frames cl"
  "conn (handleBadRequest rng cl) = conn cl" "calls (handleBadRequest rng cl) = calls cl"
  "cl_frame (handleInvalidData rng cl) = cl_frame cl" "cl_frames (handleInvalidData rng cl) = cl_frames cl"
  "conn (handleInvalidData rng cl) = conn cl" "calls (handleInvalidData rng cl) = calls cl"
  by (simp_all add: handleBadRequest_def handleInvalidData_def)

lemma Quit_frame [simp]:
  "cl_frame (Quit hs cl) = cl_frame cl" "cl_frames (Quit hs cl) = cl_frames cl" "\<not> conn (Quit hs cl)"
  by (simp_all add: Quit_def Let_def)

lemma clientOnClose_frame [simp]:
  "cl_frame (clientOnClose hs rng cl f) = cl_frame cl" "cl_frames (clientOnClose hs rng cl f) = cl_frames cl"
  "\<not> conn (clientOnClose hs rng cl f)"
  by (simp_all add: clientOnClose_def Let_def)

lemma deliver_frame:
  assumes "deliver hs rng cl f = (cl1, c)"
  shows "cl_frame cl1 = cl_frame cl \<and> cl_frames cl1 = cl_frames cl \<and> conn cl1 = conn cl"
  using assms by (auto simp: deliver_def Let_def split: if_splits)

lemma handleFragment_keeps:
  assumes "handleFragment hs rng cl f = Some (cl1, c)"
  shows "conn cl1 = conn cl \<and> (cl_frames cl \<noteq> Some [] \<longrightarrow> cl_frames cl1 \<noteq> Some []) \<and>
    (cl_frame cl = None \<longrightarrow> whole f \<longrightarrow> cl_frame cl1 = None)"
  using assms
  by (auto simp: handleFragment_def whole_def Append_def Let_def bind_Some_conv dest!: deliver_frame split: if_splits)

lemma handleFrame_keeps:
  assumes "handleFrame hs rng cl f = Some (cl1, c)"
  shows "(\<not> c \<longrightarrow> conn cl1 = conn cl) \<and> (cl_frames cl \<noteq> Some [] \<longrightarrow> cl_frames cl1 \<noteq> Some []) \<and>
    (cl_frame cl = None \<longrightarrow> whole f \<longrightarrow> cl_frame cl1 = None)"
  using assms
  by (auto simp: handleFrame_def clientOnPing_def SendPong_def dest!: handleFragment_keeps split: if_splits)

lemma handleFragment_total:
  assumes "cl_frames cl \<noteq> Some []"
  shows "handleFragment hs rng cl f \<noteq> None"
proof (cases "cl_frames cl")
  case None
  then show ?thesis by (simp add: handleFragment_def Let_def del: not_None_eq)
next
  case (Some fs)
  then obtain m where "frames_fin fs (Some f) = Some m" using frames_fin_total [of fs "Some f"] assms by auto
  with Some show ?thesis by (simp add: handleFragment_def Let_def del: not_None_eq)
qed

lemma handleFrame_total: "cl_frames cl \<noteq> Some [] \<Longrightarrow> handleFrame hs rng cl f \<noteq> None"
  unfolding handleFrame_def using handleFragment_total [of cl hs rng f] by (simp del: not_None_eq)

subsection \<open>Messages, independent of the packets\<close>

text \<open>
  The abstract client: it handles whole frames one after the other until one of them closes the
  connection, and quits when the stream ends.
\<close>

fun handleFrames :: "handlers \<Rightarrow> (nat \<Rightarrow> u32) \<Rightarrow> Client \<Rightarrow> Frames \<Rightarrow> (Client \<times> bool) option" where
  "handleFrames hs rng cl [] = Some (cl, False)"
| "handleFrames hs rng cl (f # fs) = do {
     (cl, isClosing) \<leftarrow> handleFrame hs rng cl f;
     if isClosing then Some (cl, True) else handleFrames hs rng cl fs }"

definition serve_messages :: "handlers \<Rightarrow> (nat \<Rightarrow> u32) \<Rightarrow> Client \<Rightarrow> Frames \<Rightarrow> Client option" where
  "serve_messages hs rng cl fs = do {
     (cl, isClosing) \<leftarrow> handleFrames hs rng cl fs;
     Some (if isClosing then cl else Quit hs cl) }"

lemma handleFrames_each: "handleFrames hs rng = each (handleFrame hs rng)"
proof (intro ext)
  show "handleFrames hs rng cl fs = each (handleFrame hs rng) cl fs" for cl fs
    by (induction fs arbitrary: cl) (auto intro!: bind_cong_Some)
qed

lemma handleFrames_append:
  "handleFrames hs rng cl (fs @ gs) = do {
     (cl, isClosing) \<leftarrow> handleFrames hs rng cl fs;
     if isClosing then Some (cl, True) else handleFrames hs rng cl gs }"
  by (simp add: handleFrames_each each_append cong: if_cong)

lemma handleRaw_feed:
  "handleRaw_loop hs rng cl fs = feed (handleFrame hs rng) (\<lambda>x cl. cl\<lparr>cl_frame := x\<rparr>) cl fs"
  by (induction fs arbitrary: cl) (auto intro!: bind_cong_Some)

lemma handleRaw_Unpack:
  "p \<noteq> [] \<Longrightarrow> handleRaw hs rng cl p =
     do { fs \<leftarrow> Unpack_loop p []; feed (handleFrame hs rng) (\<lambda>x cl. cl\<lparr>cl_frame := x\<rparr>) cl fs }"
  using Unpack_loop_total [of p] by (auto simp: handleRaw_def Unpack_def handleRaw_feed)

lemma cl_frame_None: "cl_frame cl = None \<Longrightarrow> cl\<lparr>cl_frame := None\<rparr> = cl"
  by (cases cl) simp

interpretation cr: frame_reader "handleFrame hs rng" cl_frame "\<lambda>x cl. cl\<lparr>cl_frame := x\<rparr>" "serve_step hs rng"
  for hs rng
proof unfold_locales
  fix p :: bytes and cl :: Client and f :: Frame
  assume "p \<noteq> []" "cl_frame cl = Some f"
  then show "serve_step hs rng cl p = do {
      (f, r) \<leftarrow> unpack f p;
      (cl, isClosing) \<leftarrow> (if isComplete f then handleFrame hs rng (cl\<lparr>cl_frame := None\<rparr>) f
        else Some (cl\<lparr>cl_frame := Some f\<rparr>, False));
      if isClosing then Some (cl, True)
      else if r = [] then Some (cl, False)
      else do { fs \<leftarrow> Unpack_loop r []; feed (handleFrame hs rng) (\<lambda>x cl. cl\<lparr>cl_frame := x\<rparr>) cl fs } }"
    by (auto simp: serve_step_def handleRaw_Unpack intro!: bind_cong_Some)
qed (auto simp: cl_frame_None serve_step_def handleRaw_Unpack dest: handleFrame_keeps)

text \<open>The connection stays open while no frame closes it, and the collected fragments are not empty.\<close>

lemma feed_open:
  "feed (handleFrame hs rng) (\<lambda>x cl. cl\<lparr>cl_frame := x\<rparr>) cl fs = Some (cl1, False) \<Longrightarrow> conn cl1 = conn cl"
proof (induction fs arbitrary: cl)
  case (Cons f fs)
  then show ?case by (auto simp: bind_Some_conv split: if_splits dest!: handleFrame_keeps)
qed simp

lemma serve_step_open:
  assumes "serve_step hs rng cl p = Some (cl1, False)" "p \<noteq> []"
  shows "conn cl1 = conn cl"
proof (cases "cl_frame cl")
  case None
  with assms show ?thesis by (auto simp: cr.step_None bind_Some_conv dest: feed_open)
next
  case (Some f)
  with assms show ?thesis
    by (auto simp: cr.step_Some bind_Some_conv split: if_splits dest!: feed_open handleFrame_keeps)
qed

lemma serve_loop_steps:
  assumes "[] \<notin> set packets" "conn cl"
  shows "serve_loop hs rng cl packets = do {
    (cl, isClosing) \<leftarrow> each (serve_step hs rng) cl packets;
    Some (if isClosing then cl else Quit hs cl) }"
  using assms
proof (induction packets arbitrary: cl)
  case (Cons p packets)
  have "serve_loop hs rng cl1 packets = do {
      (cl, isClosing) \<leftarrow> each (serve_step hs rng) cl1 packets;
      Some (if isClosing then cl else Quit hs cl) }" if "serve_step hs rng cl p = Some (cl1, False)" for cl1
    using Cons serve_step_open [OF that] by (cases "p = []") simp_all
  with Cons.prems show ?case by (cases "serve_step hs rng cl p") auto
qed simp

lemma serve_loop_messages:
  assumes "list_all valid_message ms" "[] \<notin> set packets" "pending (cl_frame cl) (concat packets) ms" "conn cl"
  shows "serve_loop hs rng cl packets = serve_messages hs rng (cl\<lparr>cl_frame := None\<rparr>) (map decoded ms)"
  using cr.steps_messages [OF assms(1-3), of hs rng] assms(2,4)
  by (simp add: serve_loop_steps serve_messages_def handleFrames_each)

subsection \<open>Fragmented messages\<close>

definition is_control :: "Frame \<Rightarrow> bool" where
  "is_control g \<longleftrightarrow> opcode g = OpcodePing \<or> opcode g = OpcodePong"

definition on_control :: "handlers \<Rightarrow> (nat \<Rightarrow> u32) \<Rightarrow> Client \<Rightarrow> Frame \<Rightarrow> Client" where
  "on_control hs rng cl g =
     (if opcode g = OpcodePing then SendPong rng cl (payload g)
      else if hasHandlePong hs then called cl (CallPong g) else cl)"

lemma on_control_frames:
  "on_control hs rng (cl\<lparr>cl_frames := x\<rparr>) g = (on_control hs rng cl g)\<lparr>cl_frames := x\<rparr>"
  by (simp add: on_control_def send_defs)

lemma on_control_keeps [simp]:
  "cl_frame (on_control hs rng cl g) = cl_frame cl" "allowRsv1 (on_control hs rng cl g) = allowRsv1 cl"
  "allowRsv2 (on_control hs rng cl g) = allowRsv2 cl" "allowRsv3 (on_control hs rng cl g) = allowRsv3 cl"
  "cl_frames (on_control hs rng cl g) = cl_frames cl"
  by (simp_all add: on_control_def send_defs)

abbreviation accepts :: "Client \<Rightarrow> Frame \<Rightarrow> bool" where
  "accepts cl f \<equiv> isValid f False (allowRsv1 cl) (allowRsv2 cl) (allowRsv3 cl) \<and> whole f"

lemma handleFrame_control:
  "accepts cl g \<Longrightarrow> is_control g \<Longrightarrow> handleFrame hs rng cl g = Some (on_control hs rng cl g, False)"
  by (auto simp: handleFrame_def is_control_def on_control_def clientOnPing_def ws_consts)

lemma handleFrame_cont:
  assumes "accepts cl g" "opcode g = OpcodeCont" "fin g = 0" "cl_frames cl = Some fs" "cl_frame cl = None"
  shows "handleFrame hs rng cl g = Some (cl\<lparr>cl_frames := Some (fs @ [g])\<rparr>, False)"
  using assms by (cases cl) (auto simp: handleFrame_def handleFragment_def whole_def Append_def Let_def)

text \<open>The middle of a fragmented message: continuation frames are collected, PING and PONG handled.\<close>

lemma handleFrames_middle:
  assumes "list_all (\<lambda>g. accepts cl g \<and> (is_control g \<or> opcode g = OpcodeCont \<and> fin g = 0)) gs"
    "cl_frames cl = Some fs" "cl_frame cl = None"
  shows "handleFrames hs rng cl gs =
    Some ((foldl (on_control hs rng) cl (filter is_control gs))
        \<lparr>cl_frames := Some (fs @ filter (\<lambda>g. \<not> is_control g) gs)\<rparr>, False)"
  using assms
proof (induction gs arbitrary: cl fs)
  case Nil
  then show ?case by (cases cl) simp
next
  case (Cons g gs)
  show ?case
  proof (cases "is_control g")
    case True
    then show ?thesis
      using Cons.IH [of "on_control hs rng cl g" fs] Cons.prems by (simp add: handleFrame_control)
  next
    case False
    have "foldl (on_control hs rng) (cl\<lparr>cl_frames := x\<rparr>) hs' = (foldl (on_control hs rng) cl hs')\<lparr>cl_frames := x\<rparr>"
      for x hs' by (induction hs' arbitrary: cl) (simp_all add: on_control_frames)
    then show ?thesis
      using False Cons.IH [of "cl\<lparr>cl_frames := Some (fs @ [g])\<rparr>" "fs @ [g]"] Cons.prems
      by (simp add: handleFrame_cont)
  qed
qed

lemma foldl_on_control_keeps [simp]:
  "cl_frame (foldl (on_control hs rng) cl gs) = cl_frame cl"
  "allowRsv1 (foldl (on_control hs rng) cl gs) = allowRsv1 cl"
  "allowRsv2 (foldl (on_control hs rng) cl gs) = allowRsv2 cl"
  "allowRsv3 (foldl (on_control hs rng) cl gs) = allowRsv3 cl"
  "cl_frames (foldl (on_control hs rng) cl gs) = cl_frames cl"
  by (induction gs arbitrary: cl) simp_all

subsection \<open>No panics\<close>

lemma handleFrame_ok:
  "cl_frames cl \<noteq> Some [] \<Longrightarrow> \<exists>cl1 c. handleFrame hs rng cl f = Some (cl1, c) \<and> cl_frames cl1 \<noteq> Some []"
  using handleFrame_total [of cl hs rng f] by (auto dest: handleFrame_keeps)

lemma serve_step_total:
  assumes "cl_frames cl \<noteq> Some []" "p \<noteq> []"
  shows "\<exists>cl1 c. serve_step hs rng cl p = Some (cl1, c) \<and> cl_frames cl1 \<noteq> Some []"
proof (rule cr.step_inv [where P = "\<lambda>cl. cl_frames cl \<noteq> Some []", OF _ _ assms])
  show "\<exists>cl1 c. handleFrame hs rng cl f = Some (cl1, c) \<and> cl_frames cl1 \<noteq> Some []"
    if "cl_frames cl \<noteq> Some []" for cl f using that by (rule handleFrame_ok)
qed simp

lemma serve_loop_total:
  "cl_frames cl \<noteq> Some [] \<Longrightarrow> \<exists>cl1. serve_loop hs rng cl packets = Some cl1"
proof (induction packets arbitrary: cl)
  case (Cons p packets)
  show ?case
  proof (cases "conn cl \<and> p \<noteq> []")
    case True
    then obtain cl1 c where st: "serve_step hs rng cl p = Some (cl1, c)" "cl_frames cl1 \<noteq> Some []"
      using serve_step_total [OF Cons.prems, of p hs rng] by blast
    with Cons.IH [OF st(2)] True show ?thesis by (cases c) auto
  next
    case False
    then show ?thesis by auto
  qed
qed simp

subsection \<open>Properties\<close>

text \<open>
  C14: The client reads a connection correctly however the network divides it: if the server sends
  any frames built by \<open>NewFrame\<close> (with payloads of a length other than 127) and they arrive as any
  non-empty packets, \<open>serve\<close> ends in the state that handling the frames one by one gives, up to the
  first one that closes the connection, and quits when the packets end. This covers every
  outcome: the calls of the handlers, the packets sent back, errors and closing.
\<close>

theorem serve_any_packets:
  assumes "list_all valid_message ms" "[] \<notin> set packets" "concat packets = concat (map encode ms)"
    "conn cl" "cl_frame cl = None"
  shows "serve hs rng cl packets = serve_messages hs rng cl (map decoded ms)"
  using serve_loop_messages [OF assms(1,2) _ assms(4)] assms(3-5)
  by (simp add: serve_def pending_def ws.stream_def cl_frame_None)

definition client0 :: Client where
  "client0 = \<lparr>conn = True, cl_frame = None, cl_frames = None, allowRsv1 = False, allowRsv2 = False,
     allowRsv3 = False, sent = [], calls = [], nrand = 0\<rparr>"

definition handlers0 :: handlers where
  "handlers0 = \<lparr>HandleText = \<lambda>_. False, HandleBin = \<lambda>_. False, hasHandlePong = False,
     hasHandleRsvControl = False, hasHandleQuit = True\<rparr>"

theorem serve_any_packets_witness:
  "serve handlers0 (\<lambda>n. 5) client0 [[0x81], [2, 104, 105, 0x89], [1], [7]] =
   serve_messages handlers0 (\<lambda>n. 5) client0
     (map decoded [(0, OpcodeText, False, [104, 105]), (0, OpcodePing, False, [7])])"
proof (rule serve_any_packets)
  show "concat [[0x81], [2, 104, 105, 0x89], [1], [7]] =
    concat (map encode [(0, OpcodeText, False, [104, 105]), (0, OpcodePing, False, [7])])"
    by (simp add: encode_def NewFrame_bytes mask_bytes_def ws_consts)
qed (simp_all add: client0_def valid_message_def ws_consts)

text \<open>
  No input makes the client panic: whatever packets arrive, \<open>serve\<close> comes to an end, from any
  state in which the list of collected fragments, when there is one, is not empty. A new client
  has no list, and every handler keeps this.
\<close>

theorem serve_no_panic:
  assumes "cl_frames cl \<noteq> Some []"
  shows "\<exists>cl1. serve hs rng cl packets = Some cl1"
  using serve_loop_total [OF assms, of hs rng packets] by (simp add: serve_def)

theorem serve_no_panic_witness:
  "\<exists>cl1. serve handlers0 (\<lambda>n. 5) client0 [[0x80, 0xFF, 1, 2], [3, 4, 5, 6, 7, 8, 9, 10, 11]] = Some cl1"
  by (rule serve_no_panic) (simp add: client0_def)

text \<open>
  C29: A fragmented message is delivered once, whole: when a data frame without FIN is followed by
  continuation frames without FIN, with PING and PONG frames anywhere among them, and by a final
  continuation frame, the client handles the control frames as they come and then delivers one
  frame with the opcode of the first fragment and the concatenation of the fragments' payloads.
\<close>

theorem fragmented_message:
  assumes "cl_frames cl = None" "cl_frame cl = None"
    "accepts cl f" "IsData f" "fin f = 0"
    "list_all (\<lambda>g. accepts cl g \<and> (is_control g \<or> opcode g = OpcodeCont \<and> fin g = 0)) gs"
    "accepts cl l" "opcode l = OpcodeCont" "fin l = frameIsFinished"
  shows "\<exists>m. handleFrames hs rng cl (f # gs @ [l]) =
      Some (deliver hs rng (foldl (on_control hs rng) cl (filter is_control gs)) m) \<and>
    opcode m = opcode f \<and>
    payload m = payload f @ concat (map payload (filter (\<lambda>g. \<not> is_control g) gs)) @ payload l"
proof -
  define cl1 where "cl1 = foldl (on_control hs rng) cl (filter is_control gs)"
  define fs where "fs = filter (\<lambda>g. \<not> is_control g) gs"
  have h1: "handleFrame hs rng cl f = Some (cl\<lparr>cl_frames := Some [f]\<rparr>, False)"
    using assms(1-5) by (cases cl)
      (auto simp: handleFrame_def handleFragment_def whole_def Append_def IsData_def Let_def ws_consts)
  have swap: "foldl (on_control hs rng) (cl\<lparr>cl_frames := x\<rparr>) hs' = (foldl (on_control hs rng) cl hs')\<lparr>cl_frames := x\<rparr>"
    for x hs' by (induction hs' arbitrary: cl) (simp_all add: on_control_frames)
  have h2: "handleFrames hs rng (cl\<lparr>cl_frames := Some [f]\<rparr>) gs = Some (cl1\<lparr>cl_frames := Some (f # fs)\<rparr>, False)"
    using handleFrames_middle [of "cl\<lparr>cl_frames := Some [f]\<rparr>" gs "[f]" hs rng] assms(2,6)
    by (simp add: swap cl1_def fs_def)
  have cont: "list_all (\<lambda>g. opcode g = OpcodeCont) fs"
    using assms(6) by (auto simp: fs_def list_all_iff)
  obtain m where m: "frames_fin (f # fs) (Some l) = Some m" using frames_fin_total by blast
  have "payload (fin_loop f fs) = payload f @ concat (map payload fs)"
    using cont by (induction fs arbitrary: f) (auto simp: ws_consts)
  then have pm: "opcode m = opcode f" "payload m = payload f @ concat (map payload fs) @ payload l"
    using m fin_loop_fields [of f fs] by (auto simp: frames_fin_def idx_def Let_def)
  have "cl1\<lparr>cl_frame := None, cl_frames := None\<rparr> = cl1"
    using assms(1,2) by (cases cl1) (auto simp: cl1_def dest: arg_cong [of _ _ cl_frame] arg_cong [of _ _ cl_frames])
  then have "handleFrame hs rng (cl1\<lparr>cl_frames := Some (f # fs)\<rparr>) l = Some (deliver hs rng cl1 m)"
    using assms(7-9) m by (auto simp: handleFrame_def handleFragment_def whole_def cl1_def ws_consts)
  with h1 h2 have "handleFrames hs rng cl (f # gs @ [l]) = Some (deliver hs rng cl1 m)"
    by (cases "deliver hs rng cl1 m") (simp add: handleFrames_append)
  with pm show ?thesis unfolding fs_def cl1_def by blast
qed

theorem fragmented_message_witness:
  "\<exists>m. handleFrames handlers0 (\<lambda>n. 5) client0
      (newFrame0\<lparr>opcode := OpcodeText, flen := 1, payload := [104]\<rparr> #
        [newFrame0\<lparr>fin := 0x80, opcode := OpcodePing\<rparr>] @
        [newFrame0\<lparr>fin := 0x80, flen := 1, payload := [105]\<rparr>]) =
      Some (deliver handlers0 (\<lambda>n. 5) (foldl (on_control handlers0 (\<lambda>n. 5)) client0
        (filter is_control [newFrame0\<lparr>fin := 0x80, opcode := OpcodePing\<rparr>])) m) \<and>
    opcode m = opcode (newFrame0\<lparr>opcode := OpcodeText, flen := 1, payload := [104]\<rparr>) \<and>
    payload m = payload (newFrame0\<lparr>opcode := OpcodeText, flen := 1, payload := [104]\<rparr>) @
      concat (map payload (filter (\<lambda>g. \<not> is_control g) [newFrame0\<lparr>fin := 0x80, opcode := OpcodePing\<rparr>])) @
      payload (newFrame0\<lparr>fin := 0x80, flen := 1, payload := [105]\<rparr>)"
  by (rule fragmented_message)
    (simp_all add: client0_def newFrame0_def isValid_def whole_def IsData_def is_control_def ws_consts word_le_nat_alt)

text \<open>
  The client answers a CLOSE frame with exactly one CLOSE frame and closes the connection, and
  the status code in its answer is never one that an endpoint must not send: below 1000, 1004,
  1005, 1006 or 1015 to 2999.
\<close>

theorem clientOnClose_status:
  assumes "conn cl"
  shows "\<exists>code pl. let cl1 = clientOnClose hs rng cl f in
    sent cl1 = sent cl @ [NewFrameClose (rng (nrand cl)) True code pl] \<and> \<not> conn cl1 \<and>
    1000 \<le> code \<and> code \<notin> {1004, 1005, 1006} \<and> \<not> (1015 \<le> code \<and> code \<le> 2999) \<and>
    calls cl1 = calls cl @ (if hasHandleQuit hs then [CallQuit] else [])"
proof -
  have sent: "sent (Quit hs (send_masked rng cl p)) = sent cl @ [p (rng (nrand cl))]"
    "calls (Quit hs (send_masked rng cl p)) = calls cl @ (if hasHandleQuit hs then [CallQuit] else [])"
    "\<not> conn (Quit hs (send_masked rng cl p))" for p
    using assms by (simp_all add: Quit_def send_defs Let_def)
  have ok: "1000 \<le> close_status c \<and> close_status c \<notin> {1004, 1005, 1006} \<and>
      \<not> (1015 \<le> close_status c \<and> close_status c \<le> 2999)" for c
    by (simp add: close_status_def ws_consts not_less)
  show ?thesis
  proof (cases "2 \<le> length (payload f) \<and> \<not> utf8_Valid (drop 2 (payload f))")
    case True
    then show ?thesis
      by (intro exI [of _ StatusBadRequest] exI [of _ "drop 2 (payload f)"])
        (simp add: clientOnClose_def Let_def sent StatusBadRequest_def)
  next
    case False
    then show ?thesis
      using ok [of "closeCode f"]
      by (intro exI [of _ "close_status (closeCode f)"]
          exI [of _ "if 2 \<le> length (payload f) then drop 2 (payload f) else payload f"])
        (auto simp: clientOnClose_def Let_def sent)
  qed
qed

theorem clientOnClose_status_witness:
  "\<exists>code pl. let cl1 = clientOnClose handlers0 (\<lambda>n. 5) client0 newFrame0 in
    sent cl1 = sent client0 @ [NewFrameClose 5 True code pl] \<and> \<not> conn cl1 \<and>
    1000 \<le> code \<and> code \<notin> {1004, 1005, 1006} \<and> \<not> (1015 \<le> code \<and> code \<le> 2999) \<and>
    calls cl1 = calls client0 @ (if hasHandleQuit handlers0 then [CallQuit] else [])"
  using clientOnClose_status [of client0 handlers0 "\<lambda>n. 5" newFrame0] by (simp add: client0_def)

text \<open>
  After a frame that the client rejects as a bad request (here: one that a server must not mask)
  \<open>serve\<close> sends a CLOSE frame with status 1002 and returns, but the connection stays open, the
  quit handler is not called, and nothing reads the connection any more.
\<close>

theorem bad_request_leaves_open:
  assumes "valid_message (rnd, op, True, pl)" "conn cl" "cl_frame cl = None"
  shows "serve hs rng cl [NewFrame rnd op True pl] =
    Some (cl\<lparr>sent := sent cl @ [NewFrameClose (rng (nrand cl)) True StatusBadRequest []], nrand := nrand cl + 1\<rparr>)"
proof -
  have "ws.stream [(rnd, op, True, pl)] = NewFrame rnd op True pl" by (simp, simp add: encode_def)
  moreover have "decoded (rnd, op, True, pl) = received rnd op True pl" by (simp add: decoded_def)
  ultimately have "serve hs rng cl [NewFrame rnd op True pl] = serve_messages hs rng cl [received rnd op True pl]"
    using serve_loop_messages [of "[(rnd, op, True, pl)]" "[NewFrame rnd op True pl]" cl hs rng] assms
    by (simp add: serve_def pending_def cl_frame_None NewFrame_ne [symmetric] del: serve_loop.simps ws.stream_Cons)
  then show ?thesis
    using assms(2)
    by (simp add: serve_messages_def handleFrame_def isValid_def received_fields send_defs)
qed

theorem bad_request_leaves_open_witness:
  "serve handlers0 (\<lambda>n. 5) client0 [NewFrame 1 OpcodeText True [65]] =
    Some (client0\<lparr>sent := sent client0 @ [NewFrameClose 5 True StatusBadRequest []], nrand := nrand client0 + 1\<rparr>)"
  by (rule bad_request_leaves_open) (simp_all add: valid_message_def client0_def ws_consts)

end
