(* ===== verification/WsManager.thy ===== *)
theory WsManager
  imports WsReader Ints
begin

section \<open>The connections of the websocket server (lib/websocket/clientmanager.go)\<close>

text \<open>
  \<open>ClientManager\<close> keeps the open connections, the connections of each user, the context of each
  connection, and for each connection the unfinished frame and the fragments collected so far.
  A connection is a file descriptor. The methods run under the mutex of the manager, so each is
  one atomic step. \<open>Conns\<close> returns the stored slice itself; its value at the time of the call is
  what is modelled.

  A \<open>context.Context\<close> is its lookup function. Of the dynamic type of a value only whether it is a
  \<open>uint64\<close> matters.
\<close>

datatype ctxval = ValUint64 u64 | ValOther string

type_synonym Context = "byte \<Rightarrow> ctxval option"

definition CtxKeyExternalJWT :: byte where "CtxKeyExternalJWT = 1"
definition CtxKeyInternalJWT :: byte where "CtxKeyInternalJWT = 2"
definition CtxKeyUID :: byte where "CtxKeyUID = 4"

definition context_Background :: Context where
  "context_Background = (\<lambda>_. None)"

text \<open>\<open>uid, _ = v.(uint64)\<close>: zero when there is no value or it has another type.\<close>

definition ctx_uid :: "Context \<Rightarrow> u64" where
  "ctx_uid ctx = (case ctx CtxKeyUID of Some (ValUint64 uid) \<Rightarrow> uid | _ \<Rightarrow> 0)"

record ClientManager =
  cm_all :: "int list"
  cm_conns :: "u64 \<Rightarrow> int list option"
  cm_ctx :: "int \<Rightarrow> Context option"
  cm_frame :: "int \<Rightarrow> Frame option"
  cm_frames :: "int \<Rightarrow> Frames option"

definition newClientManager :: ClientManager where
  "newClientManager = \<lparr>cm_all = [], cm_conns = (\<lambda>_. None), cm_ctx = (\<lambda>_. None), cm_frame = (\<lambda>_. None),
     cm_frames = (\<lambda>_. None)\<rparr>"

definition cm_All :: "ClientManager \<Rightarrow> int list" where
  "cm_All cls = (if length (cm_all cls) > 0 then cm_all cls else [])"

definition cm_Conns :: "ClientManager \<Rightarrow> u64 \<Rightarrow> int list" where
  "cm_Conns cls uid = (case cm_conns cls uid of None \<Rightarrow> [] | Some conns \<Rightarrow> conns)"

definition cm_Context :: "ClientManager \<Rightarrow> int \<Rightarrow> Context option" where
  "cm_Context cls c = cm_ctx cls c"

definition getFrame :: "ClientManager \<Rightarrow> int \<Rightarrow> Frame option" where
  "getFrame cls c = cm_frame cls c"

definition getFrames :: "ClientManager \<Rightarrow> int \<Rightarrow> Frames option" where
  "getFrames cls c = cm_frames cls c"

definition setFrame :: "ClientManager \<Rightarrow> int \<Rightarrow> Frame option \<Rightarrow> ClientManager" where
  "setFrame cls c frame =
     (case frame of
        None \<Rightarrow> cls\<lparr>cm_frame := (cm_frame cls)(c := None)\<rparr>
      | Some f \<Rightarrow> cls\<lparr>cm_frame := (cm_frame cls)(c \<mapsto> f)\<rparr>)"

definition setFrames :: "ClientManager \<Rightarrow> int \<Rightarrow> Frames option \<Rightarrow> ClientManager" where
  "setFrames cls c frames =
     (case frames of
        None \<Rightarrow> cls\<lparr>cm_frames := (cm_frames cls)(c := None)\<rparr>
      | Some fs \<Rightarrow> cls\<lparr>cm_frames := (cm_frames cls)(c \<mapsto> fs)\<rparr>)"

definition finFrames :: "ClientManager \<Rightarrow> int \<Rightarrow> Frame \<Rightarrow> (ClientManager \<times> Frame) option" where
  "finFrames cls c lst =
     (case cm_frames cls c of
        None \<Rightarrow> Some (cls, lst)
      | Some frames \<Rightarrow> do {
          f \<leftarrow> frames_fin frames (Some lst);
          Some (cls\<lparr>cm_frames := (cm_frames cls)(c := None), cm_frame := (cm_frame cls)(c := None)\<rparr>, f) })"

definition remove_uid :: "ClientManager \<Rightarrow> u64 \<Rightarrow> int \<Rightarrow> ClientManager" where
  "remove_uid cls uid c =
     (if uid > 0 then
        (case cm_conns cls uid of
           None \<Rightarrow> cls
         | Some conns \<Rightarrow>
             let (conns, _) = Remove conns c
             in if length conns = 0 then cls\<lparr>cm_conns := (cm_conns cls)(uid := None)\<rparr>
                else cls\<lparr>cm_conns := (cm_conns cls)(uid \<mapsto> conns)\<rparr>)
      else cls)"

definition cm_remove :: "ClientManager \<Rightarrow> int \<Rightarrow> ClientManager" where
  "cm_remove cls c =
     (let cls = cls\<lparr>cm_frame := (cm_frame cls)(c := None)\<rparr>;
          cls = cls\<lparr>cm_frames := (cm_frames cls)(c := None)\<rparr>;
          cls = cls\<lparr>cm_all := fst (Remove (cm_all cls) c)\<rparr>
      in case cm_ctx cls c of
           None \<Rightarrow> cls
         | Some ctx \<Rightarrow> remove_uid (cls\<lparr>cm_ctx := (cm_ctx cls)(c := None)\<rparr>) (ctx_uid ctx) c)"

definition cm_add :: "ClientManager \<Rightarrow> Context \<Rightarrow> int \<Rightarrow> ClientManager" where
  "cm_add cls ctx c =
     (let cls = cm_remove cls c;
          cls = (if \<not> IsExist (cm_all cls) c then cls\<lparr>cm_all := cm_all cls @ [c]\<rparr> else cls);
          cls = cls\<lparr>cm_ctx := (cm_ctx cls)(c \<mapsto> ctx)\<rparr>;
          uid = ctx_uid ctx
      in if uid > 0 then
           let conns = (case cm_conns cls uid of None \<Rightarrow> [] | Some conns \<Rightarrow> conns)
           in cls\<lparr>cm_conns := (cm_conns cls)(uid \<mapsto> conns @ [c])\<rparr>
         else cls)"

subsection \<open>The manager as a registry\<close>

text \<open>
  What the rest of the server relies on: the manager is a list of clients, in the order in which
  they were added, and every view of it is a view of that list.
\<close>

type_synonym clients = "(int \<times> Context) list"

definition clients_del :: "int \<Rightarrow> clients \<Rightarrow> clients" where
  "clients_del c cs = filter (\<lambda>p. fst p \<noteq> c) cs"

definition clients_put :: "Context \<Rightarrow> int \<Rightarrow> clients \<Rightarrow> clients" where
  "clients_put ctx c cs = clients_del c cs @ [(c, ctx)]"

definition clients_of_uid :: "u64 \<Rightarrow> clients \<Rightarrow> int list" where
  "clients_of_uid uid cs = map fst (filter (\<lambda>p. ctx_uid (snd p) = uid) cs)"

text \<open>
  The relation between the two. A user without a connection has no entry, and connections
  without a user (user ID 0) are not in the map.
\<close>

definition registers :: "ClientManager \<Rightarrow> clients \<Rightarrow> bool" where
  "registers cls cs \<longleftrightarrow> distinct (map fst cs) \<and> cm_all cls = map fst cs \<and> cm_ctx cls = map_of cs \<and>
     cm_conns cls = (\<lambda>uid. if uid = 0 \<or> clients_of_uid uid cs = [] then None else Some (clients_of_uid uid cs))"

lemma remove1_map_fst:
  "distinct (map fst cs) \<Longrightarrow> remove1 c (map fst (filter P cs)) = map fst (filter P (clients_del c cs))"
proof (induction cs)
  case (Cons p cs)
  show ?case
  proof (cases "fst p = c")
    case True
    with Cons.prems have "clients_del c cs = cs" by (auto simp: clients_del_def filter_id_conv rev_image_eqI)
    moreover have "c \<notin> fst ` set (filter P cs)" using True Cons.prems by auto
    ultimately show ?thesis using True by (simp add: clients_del_def remove1_idem)
  next
    case False
    with Cons show ?thesis by (simp add: clients_del_def)
  qed
qed (simp add: clients_del_def)

lemma map_of_del: "map_of (clients_del c cs) = (map_of cs)(c := None)"
  by (induction cs) (auto simp: clients_del_def fun_eq_iff)

lemma distinct_del: "distinct (map fst cs) \<Longrightarrow> distinct (map fst (clients_del c cs))"
  by (simp add: clients_del_def distinct_map_filter)

lemma del_other:
  assumes "distinct (map fst cs)" "map_of cs c = Some ctx" "ctx_uid ctx \<noteq> uid"
  shows "clients_of_uid uid (clients_del c cs) = clients_of_uid uid cs"
proof -
  have "(fst p \<noteq> c \<and> ctx_uid (snd p) = uid) = (ctx_uid (snd p) = uid)" if "p \<in> set cs" for p
    using assms that by (metis map_of_is_SomeI option.inject prod.collapse)
  then show ?thesis
    by (simp add: clients_of_uid_def clients_del_def conj_commute cong: filter_cong)
qed

lemma del_none: "map_of cs c = None \<Longrightarrow> clients_del c cs = cs"
  by (auto simp: clients_del_def filter_id_conv map_of_eq_None_iff)

lemma registers_remove:
  assumes "registers cls cs"
  shows "registers (cm_remove cls c) (clients_del c cs)"
proof -
  have d: "distinct (map fst cs)" using assms by (simp add: registers_def)
  have all: "remove1 c (map fst cs) = map fst (clients_del c cs)"
    using remove1_map_fst [OF d, of c "\<lambda>_. True"] by simp
  show ?thesis
  proof (cases "map_of cs c")
    case None
    with assms show ?thesis
      by (auto simp: registers_def cm_remove_def Remove_remove1 all del_none Let_def)
  next
    case (Some ctx)
    have u: "remove1 c (clients_of_uid uid cs) = clients_of_uid uid (clients_del c cs)" for uid
      unfolding clients_of_uid_def by (rule remove1_map_fst [OF d])
    have "cm_conns (cm_remove cls c) uid =
        (if uid = 0 \<or> clients_of_uid uid (clients_del c cs) = [] then None
         else Some (clients_of_uid uid (clients_del c cs)))" for uid
    proof (cases "uid = ctx_uid ctx")
      case True
      with assms Some u [of uid] show ?thesis
        by (auto simp: registers_def cm_remove_def remove_uid_def Remove_remove1 Let_def word_neq_0_conv)
    next
      case False
      with assms Some del_other [OF d Some, of uid] show ?thesis
        by (auto simp: registers_def cm_remove_def remove_uid_def Remove_remove1 Let_def)
    qed
    moreover have "cm_ctx (cm_remove cls c) = (map_of cs)(c := None)" "cm_all (cm_remove cls c) = remove1 c (map fst cs)"
      using assms Some by (auto simp: registers_def cm_remove_def remove_uid_def Remove_remove1 Let_def split: option.splits)
    ultimately show ?thesis
      using distinct_del [OF d, of c] by (simp add: registers_def map_of_del all fun_eq_iff)
  qed
qed

lemma IsExist_mem: "IsExist d v \<longleftrightarrow> v \<in> set d"
  by (induction d) auto

lemma registers_add:
  assumes "registers cls cs"
  shows "registers (cm_add cls ctx c) (clients_put ctx c cs)"
proof -
  define ds where "ds = clients_del c cs"
  define cls1 where "cls1 = cm_remove cls c"
  have r: "registers cls1 ds" unfolding cls1_def ds_def by (rule registers_remove [OF assms])
  have new: "c \<notin> fst ` set ds" by (auto simp: ds_def clients_del_def)
  have eq: "cm_add cls ctx c = cls1\<lparr>cm_all := map fst ds @ [c], cm_ctx := (cm_ctx cls1)(c \<mapsto> ctx), cm_conns :=
      (if ctx_uid ctx = 0 then cm_conns cls1
       else (cm_conns cls1)(ctx_uid ctx \<mapsto> clients_of_uid (ctx_uid ctx) ds @ [c]))\<rparr>"
    using r new unfolding cm_add_def cls1_def [symmetric]
    by (auto simp: registers_def IsExist_mem Let_def word_neq_0_conv)
  have put: "clients_of_uid uid (ds @ [(c, ctx)]) = clients_of_uid uid ds @ (if ctx_uid ctx = uid then [c] else [])" for uid
    by (simp add: clients_of_uid_def)
  have m: "map_of (ds @ [(c, ctx)]) = (map_of ds)(c \<mapsto> ctx)"
    using new by (simp add: fun_eq_iff map_add_def map_of_eq_None_iff split: option.splits) (metis map_of_eq_None_iff option.distinct(1))
  have conns: "cm_conns (cm_add cls ctx c) uid = (if uid = 0 \<or> clients_of_uid uid (ds @ [(c, ctx)]) = [] then None
      else Some (clients_of_uid uid (ds @ [(c, ctx)])))" for uid
    using r by (auto simp: eq put registers_def)
  show ?thesis
    unfolding registers_def clients_put_def ds_def [symmetric]
    using conns r new m by (auto simp: eq registers_def fun_eq_iff)
qed

lemma registers_frames [simp]:
  "registers (setFrame cls c f) cs = registers cls cs" "registers (setFrames cls c fs) cs = registers cls cs"
  "finFrames cls c l = Some (cls1, f') \<Longrightarrow> registers cls1 cs = registers cls cs"
  by (auto simp: registers_def setFrame_def setFrames_def finFrames_def bind_Some_conv split: option.splits)

lemma registers_new: "registers newClientManager []"
  by (simp add: registers_def newClientManager_def clients_of_uid_def)

text \<open>The interface, for a manager \<open>'m\<close> with an abstraction relation.\<close>

locale client_registry =
  fixes rel :: "'m \<Rightarrow> clients \<Rightarrow> bool"
    and new :: 'm
    and add :: "'m \<Rightarrow> Context \<Rightarrow> int \<Rightarrow> 'm"
    and remove :: "'m \<Rightarrow> int \<Rightarrow> 'm"
    and list_all_conns :: "'m \<Rightarrow> int list"
    and list_conns :: "'m \<Rightarrow> u64 \<Rightarrow> int list"
    and lookup :: "'m \<Rightarrow> int \<Rightarrow> Context option"
  assumes rel_new: "rel new []"
    and rel_add: "rel m cs \<Longrightarrow> rel (add m ctx c) (clients_put ctx c cs)"
    and rel_remove: "rel m cs \<Longrightarrow> rel (remove m c) (clients_del c cs)"
    and rel_distinct: "rel m cs \<Longrightarrow> distinct (map fst cs)"
    and all_conns: "rel m cs \<Longrightarrow> list_all_conns m = map fst cs"
    and conns: "rel m cs \<Longrightarrow> uid \<noteq> 0 \<Longrightarrow> list_conns m uid = clients_of_uid uid cs"
    and lookup: "rel m cs \<Longrightarrow> lookup m c = map_of cs c"
begin

lemma lookup_add: "rel m cs \<Longrightarrow> lookup (add m ctx c) d = (if d = c then Some ctx else lookup m d)"
proof -
  assume r: "rel m cs"
  have "map_of (clients_put ctx c cs) d = (if d = c then Some ctx else map_of cs d)"
    by (auto simp: clients_put_def map_of_append map_of_del map_add_def split: option.splits)
  with r show ?thesis by (simp add: lookup [OF rel_add [OF r]] lookup [OF r])
qed

lemma lookup_remove: "rel m cs \<Longrightarrow> lookup (remove m c) d = (if d = c then None else lookup m d)"
  by (simp add: lookup [OF rel_remove] lookup map_of_del)

text \<open>A connection belongs to the user of its context and to no other.\<close>

lemma conns_iff:
  assumes "rel m cs" "uid \<noteq> 0"
  shows "c \<in> set (list_conns m uid) \<longleftrightarrow> (\<exists>ctx. lookup m c = Some ctx \<and> ctx_uid ctx = uid)"
proof -
  have "(\<exists>ctx. (c, ctx) \<in> set cs \<and> ctx_uid ctx = uid) \<longleftrightarrow> (\<exists>ctx. map_of cs c = Some ctx \<and> ctx_uid ctx = uid)"
    using rel_distinct [OF assms(1)] by (metis map_of_SomeD map_of_is_SomeI)
  then show ?thesis using assms by (force simp: conns lookup clients_of_uid_def)
qed

lemma conns_distinct: "rel m cs \<Longrightarrow> uid \<noteq> 0 \<Longrightarrow> distinct (list_conns m uid)"
  using rel_distinct by (auto simp: conns clients_of_uid_def distinct_map_filter)

lemma all_iff: "rel m cs \<Longrightarrow> c \<in> set (list_all_conns m) \<longleftrightarrow> lookup m c \<noteq> None"
  by (simp add: all_conns lookup map_of_eq_None_iff)

end

interpretation cm: client_registry registers newClientManager cm_add cm_remove cm_All cm_Conns cm_Context
proof unfold_locales
  show "registers newClientManager []" by (rule registers_new)
qed (rule registers_add registers_remove; assumption | auto simp: registers_def cm_All_def cm_Conns_def cm_Context_def)+

text \<open>Sequences of operations on the manager.\<close>

datatype cmop =
    OpAdd Context int | OpRemove int | OpSetFrame int "Frame option" | OpSetFrames int "Frames option"
  | OpFin int Frame

fun cm_exec :: "ClientManager \<Rightarrow> cmop \<Rightarrow> ClientManager option" where
  "cm_exec cls (OpAdd ctx c) = Some (cm_add cls ctx c)"
| "cm_exec cls (OpRemove c) = Some (cm_remove cls c)"
| "cm_exec cls (OpSetFrame c f) = Some (setFrame cls c f)"
| "cm_exec cls (OpSetFrames c fs) = Some (setFrames cls c fs)"
| "cm_exec cls (OpFin c f) = map_option fst (finFrames cls c f)"

fun cm_run :: "ClientManager \<Rightarrow> cmop list \<Rightarrow> ClientManager option" where
  "cm_run cls [] = Some cls"
| "cm_run cls (op # ops) = do { cls \<leftarrow> cm_exec cls op; cm_run cls ops }"

fun clients_exec :: "clients \<Rightarrow> cmop \<Rightarrow> clients" where
  "clients_exec cs (OpAdd ctx c) = clients_put ctx c cs"
| "clients_exec cs (OpRemove c) = clients_del c cs"
| "clients_exec cs _ = cs"

text \<open>The list of collected fragments of a connection is never empty.\<close>

definition fragments_ok :: "ClientManager \<Rightarrow> bool" where
  "fragments_ok cls \<longleftrightarrow> (\<forall>c. cm_frames cls c \<noteq> Some [])"

lemma remove_fields:
  "cm_frame (cm_remove cls c) = (cm_frame cls)(c := None)"
  "cm_frames (cm_remove cls c) = (cm_frames cls)(c := None)"
  by (simp_all add: cm_remove_def remove_uid_def Let_def split: option.splits prod.splits)

lemma add_fields:
  "cm_frame (cm_add cls ctx c) = (cm_frame cls)(c := None)"
  "cm_frames (cm_add cls ctx c) = (cm_frames cls)(c := None)"
  by (simp_all add: cm_add_def remove_fields Let_def)

lemma finFrames_total:
  assumes "fragments_ok cls"
  obtains cls1 f where "finFrames cls c l = Some (cls1, f)" "fragments_ok cls1"
proof (cases "cm_frames cls c")
  case None
  with that [of cls l] assms show ?thesis by (simp add: finFrames_def)
next
  case (Some fs)
  then obtain m where "frames_fin fs (Some l) = Some m"
    using frames_fin_total [of fs "Some l"] assms by (auto simp: fragments_ok_def)
  with that Some assms show ?thesis by (simp add: finFrames_def fragments_ok_def)
qed

lemma setFrame_fields:
  "cm_frames (setFrame cls c f) = cm_frames cls" "cm_frame (setFrame cls c f) = (cm_frame cls)(c := f)"
  "cm_frames (setFrames cls c fs) = (cm_frames cls)(c := fs)" "cm_frame (setFrames cls c fs) = cm_frame cls"
  by (simp_all add: setFrame_def setFrames_def split: option.splits)

lemma cm_exec_ok:
  assumes "registers cls cs" "fragments_ok cls" "\<forall>c. op \<noteq> OpSetFrames c (Some [])"
  shows "\<exists>cls1. cm_exec cls op = Some cls1 \<and> registers cls1 (clients_exec cs op) \<and> fragments_ok cls1"
proof (cases op)
  case (OpFin c f)
  obtain cls1 m where "finFrames cls c f = Some (cls1, m)" "fragments_ok cls1" by (rule finFrames_total [OF assms(2)])
  with OpFin assms(1) show ?thesis by simp
qed (use assms in \<open>auto simp: registers_add registers_remove fragments_ok_def remove_fields add_fields
      setFrame_fields\<close>)

lemma cm_run_ok:
  assumes "registers cls cs" "fragments_ok cls" "\<forall>c. OpSetFrames c (Some []) \<notin> set ops"
  shows "\<exists>cls1. cm_run cls ops = Some cls1 \<and> registers cls1 (foldl clients_exec cs ops) \<and> fragments_ok cls1"
  using assms
proof (induction ops arbitrary: cls cs)
  case (Cons op ops)
  then have "\<forall>c. op \<noteq> OpSetFrames c (Some [])" by auto
  from cm_exec_ok [OF Cons.prems(1,2) this] Cons.IH Cons.prems(3) show ?case by fastforce
qed simp

subsection \<open>Properties\<close>

text \<open>
  C10: The client manager is a list of clients in the order of their addition: after any sequence
  of its operations on a new manager (with no empty list of fragments stored), none of which
  panics, \<open>All\<close> lists the connections without repetition, \<open>Conns\<close> lists exactly the connections
  whose context has the user ID, in the same order, \<open>Context\<close> is the context a connection was
  last added with, and no user without a connection keeps an entry.
\<close>

theorem manager_refines_list:
  assumes "\<forall>c. OpSetFrames c (Some []) \<notin> set ops"
  shows "\<exists>cls. cm_run newClientManager ops = Some cls \<and>
    (let cs = foldl clients_exec [] ops in
      distinct (map fst cs) \<and> cm_All cls = map fst cs \<and>
      (\<forall>uid. uid \<noteq> 0 \<longrightarrow> cm_Conns cls uid = clients_of_uid uid cs) \<and>
      (\<forall>c. cm_Context cls c = map_of cs c) \<and>
      (\<forall>uid. cm_conns cls uid \<noteq> Some [] \<and> (uid = 0 \<longrightarrow> cm_conns cls uid = None)))"
proof -
  have "fragments_ok newClientManager" by (simp add: fragments_ok_def newClientManager_def)
  from cm_run_ok [OF registers_new this assms] obtain cls where
    r: "cm_run newClientManager ops = Some cls" "registers cls (foldl clients_exec [] ops)" by blast
  moreover have "\<forall>uid. cm_conns cls uid \<noteq> Some [] \<and> (uid = 0 \<longrightarrow> cm_conns cls uid = None)"
    using r(2) by (simp add: registers_def)
  ultimately show ?thesis
    using cm.rel_distinct cm.all_conns cm.conns cm.lookup by (metis (no_types, lifting))
qed

definition user_ctx :: "u64 \<Rightarrow> Context" where
  "user_ctx uid = [CtxKeyUID \<mapsto> ValUint64 uid]"

theorem manager_refines_list_witness:
  "\<exists>cls. cm_run newClientManager [OpAdd (user_ctx 7) 3, OpAdd (user_ctx 7) 4, OpAdd (user_ctx 8) 3] = Some cls \<and>
     cm_All cls = [4, 3] \<and> cm_Conns cls 7 = [4] \<and> cm_Conns cls 8 = [3]"
proof -
  have uid: "ctx_uid (user_ctx u) = u" for u by (simp add: ctx_uid_def user_ctx_def)
  show ?thesis
    using manager_refines_list [of "[OpAdd (user_ctx 7) 3, OpAdd (user_ctx 7) 4, OpAdd (user_ctx 8) 3]"]
    by (auto simp: clients_put_def clients_del_def clients_of_uid_def uid)
qed

end
