(* ===== verification/IoReader.thy ===== *)
theory IoReader
  imports Ascii
begin

section \<open>The buffered reader (lib/io/reader.go)\<close>

text \<open>
  \<open>Reader\<close> is a buffer with a read index. Both fields are exported, so the index may be behind the
  end; every access that would then panic is \<open>None\<close>. The loops run over the unread bytes
  \<open>drop X V\<close> with the index as an accumulator. \<open>ScanInt64\<close> computes in 64-bit words.
\<close>

record Reader =
  rX :: nat
  rV :: bytes

definition Init :: "Reader \<Rightarrow> bytes \<Rightarrow> Reader" where
  "Init r src = r\<lparr>rX := 0, rV := src\<rparr>"

definition Current :: "Reader \<Rightarrow> byte option" where
  "Current r = (if rX r = length (rV r) then Some 0 else idx (rV r) (rX r))"

text \<open>\<open>r.V[start:]\<close> panics when \<open>start\<close> is behind the end.\<close>

definition Rest :: "Reader \<Rightarrow> bytes option" where
  "Rest r = subslice (rV r) (rX r) (length (rV r))"

fun ReadLine_loop :: "nat \<Rightarrow> bytes \<Rightarrow> nat" where
  "ReadLine_loop x [] = x"
| "ReadLine_loop x (c # cs) = (if c = 10 then x + 1 else ReadLine_loop (x + 1) cs)"

definition ReadLine :: "Reader \<Rightarrow> (Reader \<times> bytes) option" where
  "ReadLine r =
     (if rX r = length (rV r) then Some (r, [])
      else let x = ReadLine_loop (rX r) (drop (rX r) (rV r))
           in do { line \<leftarrow> subslice (rV r) (rX r) x; Some (r\<lparr>rX := x\<rparr>, line) })"

text \<open>
  The loop of \<open>ReadUntil\<close>: the index of the byte that ends the token and whether it is a
  terminator, \<open>None\<close> at the end of the buffer.
\<close>

fun ReadUntil_loop :: "bytes \<Rightarrow> bytes \<Rightarrow> nat \<Rightarrow> bytes \<Rightarrow> nat \<times> (bool \<times> byte) option" where
  "ReadUntil_loop seps terms x [] = (x, None)"
| "ReadUntil_loop seps terms x (c # cs) =
     (if c \<in> set terms then (x, Some (True, c))
      else if c \<in> set seps then (x, Some (False, c))
      else ReadUntil_loop seps terms (x + 1) cs)"

definition ReadUntil :: "Reader \<Rightarrow> bytes \<Rightarrow> bytes \<Rightarrow> (Reader \<times> bytes \<times> bool \<times> byte) option" where
  "ReadUntil r seps terms =
     (let start = rX r in
      case ReadUntil_loop seps terms start (drop start (rV r)) of
        (x, Some (isTerm, c)) \<Rightarrow> do {
          tok \<leftarrow> subslice (rV r) start x;
          Some (r\<lparr>rX := x + 1\<rparr>, tok, isTerm, c) }
      | (x, None) \<Rightarrow> do {
          tok \<leftarrow> subslice (rV r) start (length (rV r));
          Some (r\<lparr>rX := x\<rparr>, tok, False, 0) })"

fun SkipSpaces_loop :: "nat \<Rightarrow> bytes \<Rightarrow> nat \<times> byte" where
  "SkipSpaces_loop x [] = (x, 0)"
| "SkipSpaces_loop x (c # cs) = (if IsSpace c then SkipSpaces_loop (x + 1) cs else (x, c))"

definition SkipSpaces :: "Reader \<Rightarrow> Reader \<times> byte" where
  "SkipSpaces r = (let (x, c) = SkipSpaces_loop (rX r) (drop (rX r) (rV r)) in (r\<lparr>rX := x\<rparr>, c))"

text \<open>
  \<open>ScanInt64\<close>: the first loop leaves \<open>c\<close> at the last byte it looked at, also when it runs to the
  end of the buffer.
\<close>

fun ScanInt64_spaces :: "nat \<Rightarrow> byte \<Rightarrow> bytes \<Rightarrow> nat \<times> byte" where
  "ScanInt64_spaces x c [] = (x, c)"
| "ScanInt64_spaces x c (d # ds) = (if \<not> IsSpace d then (x, d) else ScanInt64_spaces (x + 1) d ds)"

fun ScanInt64_digits :: "u64 \<Rightarrow> nat \<Rightarrow> byte \<Rightarrow> bytes \<Rightarrow> u64 \<times> nat \<times> byte" where
  "ScanInt64_digits n x c [] = (n, x, c)"
| "ScanInt64_digits n x c (d # ds) =
     (if \<not> IsDigit d then (n, x, d)
      else ScanInt64_digits (n * 10 + ucast (d - 48)) (x + 1) (d - 48) ds)"

definition ScanInt64 :: "Reader \<Rightarrow> Reader \<times> u64 \<times> byte" where
  "ScanInt64 r =
     (if length (rV r) = rX r then (r, 0, 0)
      else let (x, c) = ScanInt64_spaces (rX r) 0 (drop (rX r) (rV r));
               min = (if c = 45 then - 1 else 1 :: u64);
               x = (if c = 45 \<or> c = 43 then x + 1 else x);
               (n, x, c) = ScanInt64_digits 0 x c (drop x (rV r));
               n = n * min
           in (r\<lparr>rX := x\<rparr>, n, if x = length (rV r) then 0 else c))"

definition SkipN :: "Reader \<Rightarrow> nat \<Rightarrow> Reader \<times> bool" where
  "SkipN r n =
     (let r = r\<lparr>rX := rX r + n\<rparr>
      in if rX r \<ge> length (rV r) then (r\<lparr>rX := length (rV r)\<rparr>, True) else (r, False))"

fun SkipHorizontalSpace_loop :: "nat \<Rightarrow> nat \<Rightarrow> bytes \<Rightarrow> nat \<times> nat" where
  "SkipHorizontalSpace_loop x n [] = (x, n)"
| "SkipHorizontalSpace_loop x n (c # cs) =
     (if c = 9 \<or> c = 13 \<or> c = 32 then SkipHorizontalSpace_loop (x + 1) (n + 1) cs else (x, n))"

definition SkipHorizontalSpace :: "Reader \<Rightarrow> (Reader \<times> nat \<times> byte) option" where
  "SkipHorizontalSpace r =
     (let (x, n) = SkipHorizontalSpace_loop (rX r) 0 (drop (rX r) (rV r)); r = r\<lparr>rX := x\<rparr>
      in if x = length (rV r) then Some (r, n, 0)
         else do { c \<leftarrow> idx (rV r) x; Some (r, n, c) })"

fun SkipUntil_loop :: "bytes \<Rightarrow> nat \<Rightarrow> bytes \<Rightarrow> nat \<times> byte" where
  "SkipUntil_loop seps x [] = (x, 0)"
| "SkipUntil_loop seps x (c # cs) = (if c \<in> set seps then (x + 1, c) else SkipUntil_loop seps (x + 1) cs)"

definition SkipUntil :: "Reader \<Rightarrow> bytes \<Rightarrow> Reader \<times> byte" where
  "SkipUntil r seps = (let (x, c) = SkipUntil_loop seps (rX r) (drop (rX r) (rV r)) in (r\<lparr>rX := x\<rparr>, c))"

definition SkipLine :: "Reader \<Rightarrow> Reader" where
  "SkipLine r = r\<lparr>rX := ReadLine_loop (rX r) (drop (rX r) (rV r))\<rparr>"

definition UnreadN :: "Reader \<Rightarrow> nat \<Rightarrow> (Reader \<times> byte) option" where
  "UnreadN r n =
     (let r = (if n > rX r then r\<lparr>rX := 0\<rparr> else r\<lparr>rX := rX r - n\<rparr>)
      in do { c \<leftarrow> idx (rV r) (rX r); Some (r, c) })"

subsection \<open>What the loops read\<close>

text \<open>The reader is not behind the end of its buffer.\<close>

definition reader_ok :: "Reader \<Rightarrow> bool" where
  "reader_ok r \<longleftrightarrow> rX r \<le> length (rV r)"

abbreviation unread :: "Reader \<Rightarrow> bytes" where
  "unread r \<equiv> drop (rX r) (rV r)"

lemma reader_split:
  assumes "reader_ok r"
  obtains pre where "rV r = pre @ unread r" "rX r = length pre"
  using that [of "take (rX r) (rV r)"] assms by (simp add: reader_ok_def)

lemma ReadUntil_loop_spec:
  "ReadUntil_loop seps terms x cs =
     (let t = takeWhile (\<lambda>c. c \<notin> set terms \<and> c \<notin> set seps) cs
      in (x + length t, if length t < length cs then Some (cs ! length t \<in> set terms, cs ! length t) else None))"
  by (induction cs arbitrary: x) (auto simp: Let_def)

text \<open>Reading a token that a separator or a terminator ends.\<close>

lemma ReadUntil_token:
  assumes "reader_ok r" "unread r = t @ c # rest" "set t \<inter> (set terms \<union> set seps) = {}" "c \<in> set terms \<union> set seps"
  shows "ReadUntil r seps terms = Some (r\<lparr>rX := rX r + length t + 1\<rparr>, t, c \<in> set terms, c)"
proof -
  have tw: "takeWhile (\<lambda>c. c \<notin> set terms \<and> c \<notin> set seps) (t @ c # rest) = t"
    using assms(3,4) by (subst takeWhile_append2) auto
  obtain pre where "rV r = pre @ t @ c # rest" "rX r = length pre" using reader_split [OF assms(1)] assms(2) by metis
  with assms(2) tw show ?thesis
    by (simp add: ReadUntil_def ReadUntil_loop_spec go_defs)
qed

lemma ReadUntil_ok:
  assumes "reader_ok r"
  shows "\<exists>r1 tok isTerm c. ReadUntil r seps terms = Some (r1, tok, isTerm, c) \<and> reader_ok r1 \<and> rV r1 = rV r \<and>
    rX r \<le> rX r1 \<and> (unread r \<noteq> [] \<longrightarrow> rX r < rX r1) \<and>
    (isTerm \<longrightarrow> c \<in> set terms \<and> rX r1 = rX r + length tok + 1) \<and> set tok \<inter> (set terms \<union> set seps) = {} \<and>
    (\<exists>e. unread r = tok @ e @ unread r1 \<and> (e = [] \<and> unread r1 = [] \<and> c = 0 \<or> e = [c] \<and> c \<in> set terms \<union> set seps))"
proof -
  define t where "t = takeWhile (\<lambda>c. c \<notin> set terms \<and> c \<notin> set seps) (unread r)"
  have t: "set t \<inter> (set terms \<union> set seps) = {}" by (auto simp: t_def dest: set_takeWhileD)
  show ?thesis
  proof (cases "t = unread r")
    case True
    have "ReadUntil r seps terms = Some (r\<lparr>rX := length (rV r)\<rparr>, t, False, 0)"
      using True assms by (simp add: ReadUntil_def ReadUntil_loop_spec t_def [symmetric] go_defs reader_ok_def)
    with True assms t show ?thesis by (auto simp: reader_ok_def)
  next
    case False
    define d where "d = dropWhile (\<lambda>c. c \<notin> set terms \<and> c \<notin> set seps) (unread r)"
    have td: "t @ d = unread r" by (simp add: t_def d_def)
    then have "d \<noteq> []" using False by auto
    then obtain c rest where d: "d = c # rest" by (cases d) auto
    have c: "c \<in> set terms \<union> set seps"
      using hd_dropWhile [OF \<open>d \<noteq> []\<close> [unfolded d_def]] unfolding d_def [symmetric] d by auto
    have u: "unread r = t @ c # rest" using td d by simp
    have len: "length (rV r) = rX r + length t + 1 + length rest"
      using arg_cong [OF u, of length] assms by (simp add: reader_ok_def)
    have "drop (rX r + length t + 1) (rV r) = rest"
      using arg_cong [OF u, of "drop (length t + 1)"] by (simp add: add.commute)
    with ReadUntil_token [OF assms u t c] u c t len show ?thesis
      by (auto simp: reader_ok_def)
  qed
qed

text \<open>Reading makes progress.\<close>

lemma unread_ok: "unread r \<noteq> [] \<Longrightarrow> reader_ok r"
  by (simp add: reader_ok_def)

lemma ReadUntil_progress:
  assumes "ReadUntil r seps terms = Some (r1, tok, isTerm, c)" "unread r \<noteq> []"
  shows "rV r1 = rV r \<and> rX r < rX r1 \<and> rX r1 \<le> length (rV r) \<and> reader_ok r1"
  using ReadUntil_ok [OF unread_ok [OF assms(2)], of seps terms] assms by (auto simp: reader_ok_def)

lemma ReadUntil_mono:
  assumes "ReadUntil r seps terms = Some (r1, tok, isTerm, c)" "reader_ok r"
  shows "rV r1 = rV r \<and> rX r \<le> rX r1 \<and> reader_ok r1"
  using ReadUntil_ok [OF assms(2), of seps terms] assms(1) by auto

text \<open>Scanning a decimal number.\<close>

fun decimal :: "nat \<Rightarrow> bytes \<Rightarrow> nat" where
  "decimal n [] = n"
| "decimal n (d # ds) = decimal (n * 10 + unat (d - 48)) ds"

lemma ScanInt64_digits_spec:
  assumes "list_all IsDigit ds" "rest = [] \<or> \<not> IsDigit (hd rest)"
  shows "fst (ScanInt64_digits (of_nat n) x c (ds @ rest)) = of_nat (decimal n ds) \<and>
    fst (snd (ScanInt64_digits (of_nat n) x c (ds @ rest))) = x + length ds \<and>
    (rest \<noteq> [] \<longrightarrow> snd (snd (ScanInt64_digits (of_nat n) x c (ds @ rest))) = hd rest)"
  using assms(1)
proof (induction ds arbitrary: n x c)
  case Nil
  then show ?case using assms(2) by (cases rest) auto
next
  case (Cons d ds)
  with Cons.IH [of "n * 10 + unat (d - 48)" "x + 1" "d - 48"] show ?case by simp
qed

end
