(* ===== verification/GoText.thy ===== *)
theory GoText
  imports IoReader
begin

section \<open>Strings of the standard library\<close>

text \<open>
  What several packages use of \<open>bytes\<close>, \<open>strings\<close>, \<open>strconv\<close> and \<open>encoding/base64\<close>, with the lemmas
  their proofs share.
\<close>

unbundle bit_operations_syntax

subsection \<open>bytes.TrimSpace and strconv.Atoi\<close>

text \<open>The UTF-8 encodings of the white space runes of \<open>unicode.IsSpace\<close>.\<close>

definition space_encs :: "bytes list" where
  "space_encs =
     [[9], [10], [11], [12], [13], [32], [0xC2, 0x85], [0xC2, 0xA0], [0xE1, 0x9A, 0x80],
      [0xE2, 0x80, 0x80], [0xE2, 0x80, 0x81], [0xE2, 0x80, 0x82], [0xE2, 0x80, 0x83], [0xE2, 0x80, 0x84],
      [0xE2, 0x80, 0x85], [0xE2, 0x80, 0x86], [0xE2, 0x80, 0x87], [0xE2, 0x80, 0x88], [0xE2, 0x80, 0x89],
      [0xE2, 0x80, 0x8A], [0xE2, 0x80, 0xA8], [0xE2, 0x80, 0xA9], [0xE2, 0x80, 0xAF], [0xE2, 0x81, 0x9F],
      [0xE3, 0x80, 0x80]]"

function strip :: "bytes list \<Rightarrow> bytes \<Rightarrow> bytes" where
  "strip encs s =
     (case find (\<lambda>e. e \<noteq> [] \<and> take (length e) s = e) encs of
        None \<Rightarrow> s
      | Some e \<Rightarrow> strip encs (drop (length e) s))"
  by pat_completeness auto
termination
proof (relation "measure (\<lambda>(_, s). length s)", goal_cases)
  case (2 encs s e)
  then have e: "e \<noteq> []" "take (length e) s = e" by (auto simp: find_Some_iff)
  then have "s \<noteq> []" by auto
  with e show ?case by (simp add: length_greater_0_conv [symmetric] del: length_greater_0_conv)
qed simp

declare strip.simps [simp del]

definition TrimSpace :: "bytes \<Rightarrow> bytes" where
  "TrimSpace s = rev (strip (map rev space_encs) (rev (strip space_encs s)))"

text \<open>\<open>strconv.Atoi\<close>: an optional sign and digits; \<open>None\<close> is an error, of syntax or of range.\<close>

definition Atoi :: "bytes \<Rightarrow> int option" where
  "Atoi s =
     (let neg = (s \<noteq> [] \<and> s ! 0 = 45);
          ds = (if s \<noteq> [] \<and> (s ! 0 = 45 \<or> s ! 0 = 43) then drop 1 s else s);
          n = (if neg then - int (decimal 0 ds) else int (decimal 0 ds))
      in if ds = [] \<or> \<not> list_all IsDigit ds then None
         else if - (2 ^ 63) \<le> n \<and> n < 2 ^ 63 then Some n else None)"

subsection \<open>strconv.Itoa\<close>

fun digits10 :: "nat \<Rightarrow> bytes" where
  "digits10 n = (if n < 10 then [48 + of_nat n] else digits10 (n div 10) @ [48 + of_nat (n mod 10)])"

declare digits10.simps [simp del]

definition Itoa :: "int \<Rightarrow> bytes" where
  "Itoa n = (if n < 0 then 45 # digits10 (nat (- n)) else digits10 (nat n))"

subsection \<open>bytes.Split, bytes.TrimRight, bytes.ToLower, bytes.EqualFold\<close>

fun split_byte :: "byte \<Rightarrow> bytes \<Rightarrow> bytes list" where
  "split_byte sep [] = [[]]"
| "split_byte sep (b # bs) =
     (if b = sep then [] # split_byte sep bs
      else case split_byte sep bs of [] \<Rightarrow> [[b]] | x # xs \<Rightarrow> (b # x) # xs)"

definition TrimRight :: "byte \<Rightarrow> bytes \<Rightarrow> bytes" where
  "TrimRight c s = rev (dropWhile (\<lambda>b. b = c) (rev s))"

text \<open>
  \<open>bytes.ToLower\<close>, up to what a comparison with an ASCII string can see: besides the ASCII
  letters, the two runes whose lower case is ASCII are U+0130 (i) and U+212A (k).
\<close>

fun bytes_ToLower :: "bytes \<Rightarrow> bytes" where
  "bytes_ToLower [] = []"
| "bytes_ToLower (a # bs) =
     (if a = 0xC4 \<and> take 1 bs = [0xB0] then 0x69 # bytes_ToLower (drop 1 bs)
      else if a = 0xE2 \<and> take 2 bs = [0x84, 0xAA] then 0x6B # bytes_ToLower (drop 2 bs)
      else (if 65 \<le> a \<and> a \<le> 90 then a + 32 else a) # bytes_ToLower bs)"

definition ascii_lower :: "byte \<Rightarrow> byte" where
  "ascii_lower b = (if 65 \<le> b \<and> b \<le> 90 then b + 32 else b)"

text \<open>\<open>bytes.EqualFold\<close> with an ASCII string that contains neither \<open>k\<close> nor \<open>s\<close>.\<close>

definition EqualFold :: "bytes \<Rightarrow> bytes \<Rightarrow> bool" where
  "EqualFold s t \<longleftrightarrow> map ascii_lower s = map ascii_lower t"

subsection \<open>strings.ToUpper\<close>

text \<open>
  \<open>strings.ToUpper\<close>, up to what a comparison with an ASCII string can see: besides the ASCII
  letters, the two runes whose upper case is ASCII are U+0131 (I) and U+017F (S); every other
  rune stays outside ASCII.
\<close>

fun strings_ToUpper :: "bytes \<Rightarrow> bytes" where
  "strings_ToUpper (a # b # bs) =
     (if a = 0xC4 \<and> b = 0xB1 then 0x49 # strings_ToUpper bs
      else if a = 0xC5 \<and> b = 0xBF then 0x53 # strings_ToUpper bs
      else (if 97 \<le> a \<and> a \<le> 122 then a - 32 else a) # strings_ToUpper (b # bs))"
| "strings_ToUpper [a] = [if 97 \<le> a \<and> a \<le> 122 then a - 32 else a]"
| "strings_ToUpper [] = []"

subsection \<open>encoding/base64\<close>

definition base64_alphabet :: bytes where
  "base64_alphabet = str ''ABCDEFGHIJKLMNOPQRSTUVWXYZabcdefghijklmnopqrstuvwxyz0123456789+/''"

definition b64 :: "byte \<Rightarrow> byte" where
  "b64 x = base64_alphabet ! unat (x AND 0x3F)"

fun base64_Encode :: "bytes \<Rightarrow> bytes" where
  "base64_Encode [] = []"
| "base64_Encode [a] = [b64 (drop_bit 2 a), b64 (push_bit 4 a), 61, 61]"
| "base64_Encode [a, b] =
     [b64 (drop_bit 2 a), b64 (push_bit 4 a OR drop_bit 4 b), b64 (push_bit 2 b), 61]"
| "base64_Encode (a # b # c # r) =
     [b64 (drop_bit 2 a), b64 (push_bit 4 a OR drop_bit 4 b), b64 (push_bit 2 b OR drop_bit 6 c), b64 c] @
     base64_Encode r"

text \<open>
  \<open>StdEncoding.DecodeString\<close>: line ends are skipped, the padding is required and ends the text,
  and the unused bits of the last group are ignored.
\<close>

definition b64_value :: "byte \<Rightarrow> byte option" where
  "b64_value b =
     (if 65 \<le> b \<and> b \<le> 90 then Some (b - 65)
      else if 97 \<le> b \<and> b \<le> 122 then Some (b - 71)
      else if 48 \<le> b \<and> b \<le> 57 then Some (b + 4)
      else if b = 43 then Some 62
      else if b = 47 then Some 63
      else None)"

fun base64_groups :: "bytes \<Rightarrow> bytes option" where
  "base64_groups [] = Some []"
| "base64_groups (a # b # c # d # r) =
     (if d = 61 then
        (if r \<noteq> [] then None
         else if c = 61 then do {
           x \<leftarrow> b64_value a;
           y \<leftarrow> b64_value b;
           Some [push_bit 2 x OR drop_bit 4 y] }
         else do {
           x \<leftarrow> b64_value a;
           y \<leftarrow> b64_value b;
           z \<leftarrow> b64_value c;
           Some [push_bit 2 x OR drop_bit 4 y, push_bit 4 y OR drop_bit 2 z] })
      else do {
        x \<leftarrow> b64_value a;
        y \<leftarrow> b64_value b;
        z \<leftarrow> b64_value c;
        w \<leftarrow> b64_value d;
        rest \<leftarrow> base64_groups r;
        Some ([push_bit 2 x OR drop_bit 4 y, push_bit 4 y OR drop_bit 2 z, push_bit 6 z OR w] @ rest) })"
| "base64_groups _ = None"

definition base64_DecodeString :: "bytes \<Rightarrow> bytes option" where
  "base64_DecodeString s = base64_groups (filter (\<lambda>b. b \<noteq> 10 \<and> b \<noteq> 13) s)"

subsection \<open>Trimming\<close>

lemma strip_space: "strip space_encs (32 # s) = strip space_encs s"
  by (subst strip.simps) (simp add: space_encs_def)

lemma TrimSpace_space: "TrimSpace (32 # s) = TrimSpace s"
  by (simp add: TrimSpace_def strip_space)

lemma strip_none:
  assumes "\<And>e. e \<in> set encs \<Longrightarrow> e \<noteq> [] \<Longrightarrow> hd e \<notin> set s"
  shows "strip encs s = s"
proof -
  have "\<not> (e \<noteq> [] \<and> take (length e) s = e)" if "e \<in> set encs" for e
    using assms [OF that] by (metis hd_in_set in_set_takeD)
  then have "find (\<lambda>e. e \<noteq> [] \<and> take (length e) s = e) encs = None" by (auto simp: find_None_iff)
  then show ?thesis by (subst strip.simps) simp
qed

lemma strip_hd:
  assumes "s \<noteq> []" "\<And>e. e \<in> set encs \<Longrightarrow> e \<noteq> [] \<Longrightarrow> hd e \<noteq> hd s"
  shows "strip encs s = s"
proof -
  have "\<not> (e \<noteq> [] \<and> take (length e) s = e)" if "e \<in> set encs" for e
    using assms(2) [OF that] by (metis assms(1) hd_take length_greater_0_conv)
  then have "find (\<lambda>e. e \<noteq> [] \<and> take (length e) s = e) encs = None" by (auto simp: find_None_iff)
  then show ?thesis by (subst strip.simps) simp
qed

text \<open>A line of visible text with no space around it.\<close>

definition clean_text :: "bytes \<Rightarrow> bool" where
  "clean_text s \<longleftrightarrow> list_all (\<lambda>b. 32 \<le> b \<and> b < 127) s \<and> (s \<noteq> [] \<longrightarrow> hd s \<noteq> 32 \<and> last s \<noteq> 32)"

lemma clean_ends:
  assumes "clean_text s" "s \<noteq> []"
  shows "32 < hd s \<and> hd s < 127 \<and> 32 < last s \<and> last s < 127"
  using assms by (auto simp: clean_text_def list_all_iff order_less_le)

lemma space_enc_ends:
  assumes "e \<in> set space_encs"
  shows "\<not> (32 < hd e \<and> hd e < 127)" "\<not> (32 < last e \<and> last e < 127)" "e \<noteq> []"
proof -
  have "list_all (\<lambda>e. \<not> (32 < hd e \<and> hd e < 127) \<and> \<not> (32 < last e \<and> last e < 127) \<and> e \<noteq> []) space_encs"
    by (simp add: space_encs_def)
  then show "\<not> (32 < hd e \<and> hd e < 127)" "\<not> (32 < last e \<and> last e < 127)" "e \<noteq> []"
    using assms by (auto simp: list_all_iff)
qed

lemma TrimSpace_cr:
  assumes "clean_text s"
  shows "TrimSpace (s @ [13]) = s"
proof (cases "s = []")
  case True
  have nil: "strip encs [] = []" for encs by (rule strip_none) simp
  have "strip space_encs [13] = []" by (subst strip.simps) (simp add: space_encs_def nil)
  then show ?thesis using True by (simp add: TrimSpace_def nil)
next
  case False
  note e = clean_ends [OF assms False]
  have "strip space_encs (s @ [13]) = s @ [13]"
    using e False space_enc_ends(1) by (intro strip_hd) (force simp: hd_append)+
  moreover have "strip (map rev space_encs) (13 # rev s) = strip (map rev space_encs) (rev s)"
    by (subst strip.simps) (simp add: space_encs_def)
  moreover have "strip (map rev space_encs) (rev s) = rev s"
    using e False space_enc_ends(2) by (intro strip_hd) (force simp: hd_rev)+
  ultimately show ?thesis by (simp add: TrimSpace_def)
qed

lemma TrimSpace_printable:
  assumes "\<And>b. b \<in> set s \<Longrightarrow> 32 < b \<and> b < 127"
  shows "TrimSpace s = s"
proof -
  have sp: "list_all (\<lambda>e. \<not> (32 < hd e \<and> hd e < 127) \<and> \<not> (32 < last e \<and> last e < 127)) space_encs"
    by (simp add: space_encs_def)
  have "strip space_encs s = s" using sp assms by (intro strip_none) (auto simp: list_all_iff)
  moreover have "strip (map rev space_encs) (rev s) = rev s"
    using sp assms by (intro strip_none) (force simp: list_all_iff hd_rev)
  ultimately show ?thesis by (simp add: TrimSpace_def)
qed

subsection \<open>What an encoding looks like\<close>

lemma b64_alphabet: "b64 x \<in> set base64_alphabet"
proof -
  have "unat (x AND 0x3F) \<le> unat (0x3F :: byte)" unfolding word_le_nat_alt [symmetric] by (rule word_and_le1)
  then show ?thesis unfolding b64_def by (intro nth_mem) (simp add: base64_alphabet_def str_def)
qed

lemma base64_set: "set (base64_Encode bs) \<subseteq> set base64_alphabet \<union> {61}"
  by (induction bs rule: base64_Encode.induct) (auto simp: b64_alphabet)

lemma base64_length: "length (base64_Encode bs) = 4 * ((length bs + 2) div 3)"
proof (induction bs rule: base64_Encode.induct)
  case (4 a b c r)
  have "(5 + length r) div 3 = Suc ((2 + length r) div 3)" by simp
  with 4 show ?case by simp
qed simp_all

text \<open>No byte of an encoding is a control byte or a space.\<close>

lemma base64_printable:
  assumes "b \<in> set (base64_Encode bs)"
  shows "32 < b \<and> b < 127"
proof -
  have "list_all (\<lambda>b. 32 < b \<and> b < 127) (base64_alphabet @ [61])" by (simp add: base64_alphabet_def str_def)
  then show ?thesis using assms base64_set [of bs] unfolding list_all_iff by auto
qed

text \<open>Decoding undoes encoding.\<close>

lemma b64_value_b64: "b64_value (b64 x) = Some (x AND 63)"
proof -
  have "\<forall>n \<in> set [0..<64]. b64_value (base64_alphabet ! n) = Some (of_nat n)"
    unfolding base64_alphabet_def by code_simp
  moreover have "unat (x AND 63) < 64"
  proof -
    have "unat (x AND 63) \<le> unat (63 :: byte)" unfolding word_le_nat_alt [symmetric] by (rule word_and_le1)
    then show ?thesis by simp
  qed
  ultimately have "b64_value (base64_alphabet ! unat (x AND 63)) = Some (of_nat (unat (x AND 63)))" by simp
  then show ?thesis by (simp add: b64_def)
qed

lemma b64_not_pad: "b64 x \<noteq> 61"
  using b64_value_b64 [of x] by (auto simp: b64_value_def)

lemma byte_eqI: "(\<And>n. n \<in> {0, 1, 2, 3, 4, 5, 6, 7} \<Longrightarrow> bit a n = bit b n) \<Longrightarrow> a = (b :: byte)"
  by (rule bit_word_eqI) (auto simp: numeral_eq_Suc less_Suc_eq)

lemma b64_bits:
  fixes a :: byte
  shows "push_bit 2 (drop_bit 2 a) AND 252 OR drop_bit 4 (push_bit 4 a) AND 3 = a"
    "push_bit 4 (drop_bit 4 a) AND 1008 OR drop_bit 2 (push_bit 2 a) AND 15 = a"
    "push_bit 6 (drop_bit 6 a) AND 4032 OR a AND 63 = a"
  subgoal by (rule byte_eqI) (auto simp: bit_simps bit_numeral_rec; simp add: eval_nat_numeral)
  subgoal by (rule byte_eqI) (auto simp: bit_simps bit_numeral_rec; simp add: eval_nat_numeral)
  subgoal by (rule byte_eqI) (auto simp: bit_simps bit_numeral_rec; simp add: eval_nat_numeral)
  done

lemma base64_groups_Encode: "base64_groups (base64_Encode s) = Some s"
  by (induction s rule: base64_Encode.induct) (simp_all add: b64_value_b64 b64_not_pad b64_bits)

lemma base64_roundtrip: "base64_DecodeString (base64_Encode s) = Some s"
proof -
  have "filter (\<lambda>b. b \<noteq> 10 \<and> b \<noteq> 13) (base64_Encode s) = base64_Encode s"
    using base64_printable [of _ s] by (intro filter_True) fastforce
  then show ?thesis by (simp add: base64_DecodeString_def base64_groups_Encode)
qed

subsection \<open>Numbers and parts of strings\<close>

lemma decimal_append: "decimal n (ds @ es) = decimal (decimal n ds) es"
  by (induction ds arbitrary: n) simp_all

lemma digit_value:
  assumes "d < 10"
  shows "unat ((48 + of_nat d :: byte) - 48) = d \<and> IsDigit (48 + of_nat d)"
proof -
  have "unat (of_nat d :: byte) = d" using assms by (simp add: unat_of_nat)
  moreover from this have "unat (48 + of_nat d :: byte) = 48 + d" using assms by (simp add: unat_word_ariths)
  ultimately show ?thesis using assms by (simp add: IsDigit_def word_le_nat_alt)
qed

lemma digits10_decimal: "decimal 0 (digits10 n) = n \<and> list_all IsDigit (digits10 n) \<and> digits10 n \<noteq> []"
proof (induction n rule: digits10.induct)
  case (1 n)
  show ?case
  proof (cases "n < 10")
    case True
    then show ?thesis using digit_value [of n] by (simp add: digits10.simps)
  next
    case False
    then show ?thesis using 1 digit_value [of "n mod 10"] by (subst (1 2 3) digits10.simps) (simp add: decimal_append)
  qed
qed

lemma hd_digits10: "IsDigit (digits10 n ! 0)"
  using digits10_decimal [of n] by (cases "digits10 n") auto

lemma Atoi_Itoa:
  assumes "- (2 ^ 63) \<le> n" "n < 2 ^ 63"
  shows "Atoi (Itoa n) = Some n"
  using assms digits10_decimal [of "nat (- n)"] digits10_decimal [of "nat n"] hd_digits10 [of "nat n"]
  by (auto simp: Atoi_def Itoa_def IsDigit_def)

lemma split_byte_none: "sep \<notin> set x \<Longrightarrow> split_byte sep x = [x]"
  by (induction x) auto

lemma split_byte_append: "sep \<notin> set x \<Longrightarrow> split_byte sep (x @ sep # y) = x # split_byte sep y"
  by (induction x) auto

lemma split_byte_not_Nil [simp]: "split_byte sep x \<noteq> []"
  by (induction x) (auto split: list.splits)

lemma TrimRight_no: "s = [] \<or> last s \<noteq> c \<Longrightarrow> TrimRight c s = s"
  by (cases s rule: rev_cases) (auto simp: TrimRight_def)

end
