(* ===== verification/WsRoutes.thy ===== *)
theory WsRoutes
  imports GoText
begin

section \<open>Routes of text messages (lib/websocket/route.go, rootroute.go, request.go)\<close>

text \<open>
  The tree of routes that the server uses to find the handler of a text message. A node of the
  tree is a value of \<open>route\<close>; where the code goes down the tree with a pointer \<open>parent\<close> and
  extends the node it points to, the model recurses into the child and puts the result back.
  A handler is a value of the type \<open>'h\<close>. A string is the list of its bytes. The pooled buffers \<open>bb\<close> are local lists.
\<close>

definition pathSep :: byte where "pathSep = of_char CHR ''/''"
definition pathParamPrefix :: byte where "pathParamPrefix = of_char CHR '':''"
definition pathQuerySep :: byte where "pathQuerySep = of_char CHR ''?''"

lemmas path_consts = pathSep_def pathParamPrefix_def pathQuerySep_def

datatype routeError = ErrRouteInvMethod | ErrRouteInvTarget | ErrRouteDupParam

datatype 'h route =
  Route (rt_name: bytes) (rt_childs: "'h route list") (rt_handler: "'h option") (rt_isParam: bool)

definition set_childs :: "'h route list \<Rightarrow> 'h route \<Rightarrow> 'h route" where
  "set_childs cs r = Route (rt_name r) cs (rt_handler r) (rt_isParam r)"

definition set_handler :: "'h \<Rightarrow> 'h route \<Rightarrow> 'h route" where
  "set_handler h r = Route (rt_name r) (rt_childs r) (Some h) (rt_isParam r)"

subsection \<open>Nodes\<close>

text \<open>The position of the child instead of the pointer to it.\<close>

fun getChild_loop :: "bool \<Rightarrow> bytes \<Rightarrow> nat \<Rightarrow> 'h route list \<Rightarrow> nat option" where
  "getChild_loop isParam name i [] = None"
| "getChild_loop isParam name i (c # cs) =
     (if isParam = rt_isParam c \<and> name = rt_name c then Some i else getChild_loop isParam name (i + 1) cs)"

definition getChild :: "'h route \<Rightarrow> bool \<Rightarrow> bytes \<Rightarrow> nat option" where
  "getChild r isParam name = getChild_loop isParam name 0 (rt_childs r)"

fun getChildAsParam_loop :: "nat \<Rightarrow> 'h route list \<Rightarrow> nat option" where
  "getChildAsParam_loop i [] = None"
| "getChildAsParam_loop i (c # cs) = (if rt_isParam c then Some i else getChildAsParam_loop (i + 1) cs)"

definition getChildAsParam :: "'h route \<Rightarrow> nat option" where
  "getChildAsParam r = getChildAsParam_loop 0 (rt_childs r)"

definition addChild :: "'h route \<Rightarrow> bool \<Rightarrow> bytes \<Rightarrow> routeError + ('h route \<times> nat)" where
  "addChild r isParam name =
     (case getChild r isParam name of
        Some c \<Rightarrow> Inr (r, c)
      | None \<Rightarrow>
          if isParam \<and> getChildAsParam r \<noteq> None then Inl ErrRouteDupParam
          else Inr (set_childs (rt_childs r @ [Route name [] None isParam]) r, length (rt_childs r)))"

subsection \<open>The root\<close>

record 'h rootRoute =
  methodDelete :: "'h route"
  methodGet :: "'h route"
  methodPatch :: "'h route"
  methodPost :: "'h route"
  methodPut :: "'h route"

definition newRoute :: "'h route" where
  "newRoute = Route [pathSep] [] None False"

definition newRootRoute :: "'h rootRoute" where
  "newRootRoute = \<lparr>methodDelete = newRoute, methodGet = newRoute, methodPatch = newRoute, methodPost = newRoute,
     methodPut = newRoute\<rparr>"

datatype httpMethod = MDelete | MGet | MPatch | MPost | MPut

text \<open>\<open>getParent\<close> in two steps: the method a string names, and the tree of the method.\<close>

definition method_of :: "bytes \<Rightarrow> httpMethod option" where
  "method_of m =
     (if m = str ''DELETE'' then Some MDelete
      else if m = str ''GET'' then Some MGet
      else if m = str ''PATCH'' then Some MPatch
      else if m = str ''POST'' then Some MPost
      else if m = str ''PUT'' then Some MPut
      else None)"

fun tree :: "'h rootRoute \<Rightarrow> httpMethod \<Rightarrow> 'h route" where
  "tree root MDelete = methodDelete root"
| "tree root MGet = methodGet root"
| "tree root MPatch = methodPatch root"
| "tree root MPost = methodPost root"
| "tree root MPut = methodPut root"

fun set_tree :: "'h rootRoute \<Rightarrow> httpMethod \<Rightarrow> 'h route \<Rightarrow> 'h rootRoute" where
  "set_tree root MDelete r = root\<lparr>methodDelete := r\<rparr>"
| "set_tree root MGet r = root\<lparr>methodGet := r\<rparr>"
| "set_tree root MPatch r = root\<lparr>methodPatch := r\<rparr>"
| "set_tree root MPost r = root\<lparr>methodPost := r\<rparr>"
| "set_tree root MPut r = root\<lparr>methodPut := r\<rparr>"

lemma tree_set_tree: "tree (set_tree root m r) m' = (if m' = m then r else tree root m')"
  by (cases m; cases m') simp_all

text \<open>
  The loop of \<open>add\<close> over the bytes of the target after the first, at the node \<open>r\<close>. On an error
  the code leaves the loop; what it has added until then stays in the tree.
\<close>

fun add_loop :: "'h route \<Rightarrow> bytes \<Rightarrow> bool \<Rightarrow> bool \<Rightarrow> bytes \<Rightarrow> 'h \<Rightarrow> 'h route \<times> routeError option" where
  "add_loop r bb started isParam [] h =
     (if length bb > 0 then
        (case addChild r isParam bb of
           Inl e \<Rightarrow> (r, Some e)
         | Inr (r, c) \<Rightarrow> (set_childs ((rt_childs r)[c := set_handler h (rt_childs r ! c)]) r, None))
      else (set_handler h r, None))"
| "add_loop r bb started isParam (t # ts) h =
     (if started \<and> t = pathParamPrefix then add_loop r bb False True ts h
      else if t \<noteq> pathSep then add_loop r (bb @ [t]) started isParam ts h
      else if length bb = 0 then add_loop r bb True False ts h
      else (case addChild r isParam bb of
              Inl e \<Rightarrow> (r, Some e)
            | Inr (r, c) \<Rightarrow>
                let (child, err) = add_loop (rt_childs r ! c) [] True False ts h
                in (set_childs ((rt_childs r)[c := child]) r, err)))"

definition root_add :: "'h rootRoute \<Rightarrow> bytes \<Rightarrow> bytes \<Rightarrow> 'h \<Rightarrow> ('h rootRoute \<times> routeError option) option" where
  "root_add root method target h = do {
     t0 \<leftarrow> idx target 0;
     if t0 \<noteq> pathSep then Some (root, Some ErrRouteInvTarget)
     else case method_of (strings_ToUpper method) of
            None \<Rightarrow> Some (root, Some ErrRouteInvMethod)
          | Some m \<Rightarrow>
              let (r, err) = add_loop (tree root m) [] True False (drop 1 target) h
              in Some (set_tree root m r, err) }"

text \<open>One step down in \<open>get\<close>: the static child, or the child that is a parameter.\<close>

type_synonym targetParam = "bytes \<Rightarrow> bytes option"

definition get_down :: "'h route \<Rightarrow> targetParam \<Rightarrow> bytes \<Rightarrow> ('h route \<times> targetParam) option" where
  "get_down r params bb =
     (case getChild r False bb of
        Some c \<Rightarrow> Some (rt_childs r ! c, params)
      | None \<Rightarrow>
          (case getChildAsParam r of
             None \<Rightarrow> None
           | Some c \<Rightarrow> Some (rt_childs r ! c, params(rt_name (rt_childs r ! c) \<mapsto> bb))))"

fun get_loop :: "'h route \<Rightarrow> targetParam \<Rightarrow> bytes \<Rightarrow> bytes \<Rightarrow> targetParam option \<times> 'h option" where
  "get_loop r params bb [] =
     (if length bb > 0 then
        (case get_down r params bb of
           None \<Rightarrow> (None, None)
         | Some (r, params) \<Rightarrow> (Some params, rt_handler r))
      else (Some params, rt_handler r))"
| "get_loop r params bb (t # ts) =
     (if t \<noteq> pathSep then get_loop r params (bb @ [t]) ts
      else (case get_down r params bb of
              None \<Rightarrow> (None, None)
            | Some (r, params) \<Rightarrow> get_loop r params [] ts))"

definition root_get :: "'h rootRoute \<Rightarrow> bytes \<Rightarrow> bytes \<Rightarrow> targetParam option \<times> 'h option" where
  "root_get root method target =
     (if length method = 0 \<or> length target = 0 then (None, None)
      else if target ! 0 \<noteq> pathSep then (None, None)
      else case method_of (strings_ToUpper method) of
             None \<Rightarrow> (None, None)
           | Some m \<Rightarrow> get_loop (tree root m) Map.empty [] (drop 1 target))"

subsection \<open>Requests\<close>

type_synonym Values = "(bytes \<times> bytes list) list"

record Request =
  rq_ID :: u64
  rq_Method :: bytes
  rq_Target :: bytes
  rq_Body :: bytes
  rq_Path :: bytes
  rq_Params :: "targetParam option"
  rq_Query :: Values
  rq_Conn :: int

definition request_reset :: "Request \<Rightarrow> Request" where
  "request_reset req = req\<lparr>rq_ID := 0, rq_Method := [], rq_Target := [], rq_Body := [], rq_Path := [],
     rq_Params := Some Map.empty, rq_Query := []\<rparr>"

text \<open>\<open>strings.SplitN(s, "?", 2)\<close>: the part before the first separator, and the part after it.\<close>

definition split_query :: "bytes \<Rightarrow> bytes \<times> bytes option" where
  "split_query s =
     (let p = takeWhile (\<lambda>b. b \<noteq> pathQuerySep) s
      in (p, if length p < length s then Some (drop (length p + 1) s) else None))"

text \<open>\<open>parseQuery\<close> stands for \<open>url.ParseQuery\<close>; it returns the values and whether there was an error.\<close>

definition request_unpack ::
    "(bytes \<Rightarrow> Values \<times> bool) \<Rightarrow> 'h rootRoute \<Rightarrow> Request \<Rightarrow> Request \<times> 'h option \<times> bool" where
  "request_unpack parseQuery routes req =
     (if length (rq_Target req) = 0 then (req, None, False)
      else let (path, query) = split_query (rq_Target req);
               req = req\<lparr>rq_Path := path\<rparr>;
               (params, handler) = root_get routes (rq_Method req) path;
               req = req\<lparr>rq_Params := params\<rparr>
           in case handler of
                None \<Rightarrow> (req, None, False)
              | Some h \<Rightarrow>
                  (case query of
                     None \<Rightarrow> (req, Some h, False)
                   | Some q \<Rightarrow>
                       let (vs, err) = parseQuery q; req = req\<lparr>rq_Query := vs\<rparr>
                       in if err then (req, None, True) else (req, Some h, False)))"

subsection \<open>Targets as lists of segments\<close>

text \<open>
  The pattern a target registers: its non-empty segments, each with a flag that says whether it is
  a parameter. \<open>add\<close> and \<open>get\<close> are then walks along a list of segments.
\<close>

type_synonym pattern = "(bool \<times> bytes) list"

fun segs :: "bytes \<Rightarrow> bool \<Rightarrow> bool \<Rightarrow> bytes \<Rightarrow> pattern" where
  "segs bb started isParam [] = (if length bb > 0 then [(isParam, bb)] else [])"
| "segs bb started isParam (t # ts) =
     (if started \<and> t = pathParamPrefix then segs bb False True ts
      else if t \<noteq> pathSep then segs (bb @ [t]) started isParam ts
      else if length bb = 0 then segs bb True False ts
      else (isParam, bb) # segs [] True False ts)"

definition target_pattern :: "bytes \<Rightarrow> pattern" where
  "target_pattern target = segs [] True False (drop 1 target)"

fun add_segs :: "'h route \<Rightarrow> pattern \<Rightarrow> 'h \<Rightarrow> 'h route \<times> routeError option" where
  "add_segs r [] h = (set_handler h r, None)"
| "add_segs r ((isParam, n) # ss) h =
     (case addChild r isParam n of
        Inl e \<Rightarrow> (r, Some e)
      | Inr (r, c) \<Rightarrow>
          let (child, err) = add_segs (rt_childs r ! c) ss h
          in (set_childs ((rt_childs r)[c := child]) r, err))"

lemma add_loop_segs: "add_loop r bb started isParam ts h = add_segs r (segs bb started isParam ts) h"
  by (induction r bb started isParam ts h rule: add_loop.induct) (auto split: sum.splits prod.splits)

fun path_segs :: "bytes \<Rightarrow> bytes \<Rightarrow> bytes list" where
  "path_segs bb [] = (if length bb > 0 then [bb] else [])"
| "path_segs bb (t # ts) = (if t \<noteq> pathSep then path_segs (bb @ [t]) ts else bb # path_segs [] ts)"

fun get_segs :: "'h route \<Rightarrow> targetParam \<Rightarrow> bytes list \<Rightarrow> targetParam option \<times> 'h option" where
  "get_segs r params [] = (Some params, rt_handler r)"
| "get_segs r params (s # ss) =
     (case get_down r params s of
        None \<Rightarrow> (None, None)
      | Some (r, params) \<Rightarrow> get_segs r params ss)"

lemma get_loop_segs: "get_loop r params bb ts = get_segs r params (path_segs bb ts)"
  by (induction r params bb ts rule: get_loop.induct) (auto split: option.splits)

subsection \<open>The tree as a table of patterns\<close>

definition key :: "'h route \<Rightarrow> bool \<times> bytes" where
  "key r = (rt_isParam r, rt_name r)"

lemma key_set [simp]: "key (set_childs cs r) = key r" "key (set_handler h r) = key r"
  "rt_childs (set_childs cs r) = cs" "rt_childs (set_handler h r) = rt_childs r"
  "rt_handler (set_childs cs r) = rt_handler r" "rt_handler (set_handler h r) = Some h"
  "rt_isParam (set_childs cs r) = rt_isParam r" "rt_name (set_childs cs r) = rt_name r"
  by (simp_all add: key_def set_childs_def set_handler_def)

fun node_at :: "'h route \<Rightarrow> pattern \<Rightarrow> 'h route option" where
  "node_at r [] = Some r"
| "node_at r ((isParam, n) # ss) =
     (case getChild r isParam n of None \<Rightarrow> None | Some c \<Rightarrow> node_at (rt_childs r ! c) ss)"

definition handler_at :: "'h route \<Rightarrow> pattern \<Rightarrow> 'h option" where
  "handler_at r ss = do { n \<leftarrow> node_at r ss; rt_handler n }"

lemma handler_at_simps [simp]:
  "handler_at r [] = rt_handler r"
  "handler_at r ((isParam, n) # ss) =
     (case getChild r isParam n of None \<Rightarrow> None | Some c \<Rightarrow> handler_at (rt_childs r ! c) ss)"
  by (simp_all add: handler_at_def split: option.splits)

text \<open>Both searches are the search for a first position.\<close>

fun pos :: "('a \<Rightarrow> bool) \<Rightarrow> 'a list \<Rightarrow> nat option" where
  "pos P [] = None"
| "pos P (x # xs) = (if P x then Some 0 else map_option Suc (pos P xs))"

lemma pos_Some: "pos P xs = Some j \<Longrightarrow> j < length xs \<and> P (xs ! j)"
  by (induction xs arbitrary: j) (auto split: if_splits)

lemma pos_None: "pos P xs = None \<longleftrightarrow> (\<forall>x \<in> set xs. \<not> P x)"
  by (induction xs) auto

lemma pos_snoc: "pos P (xs @ [y]) = (case pos P xs of None \<Rightarrow> if P y then Some (length xs) else None | Some j \<Rightarrow> Some j)"
  by (induction xs) (auto split: option.splits)

lemma pos_map_key: "map key cs = map key ds \<Longrightarrow> (\<And>c d. key c = key d \<Longrightarrow> P c = P d) \<Longrightarrow> pos P cs = pos P ds"
proof (induction cs arbitrary: ds)
  case (Cons c cs)
  from Cons.prems(1) obtain d ds' where d: "ds = d # ds'" "key c = key d" "map key cs = map key ds'" by (cases ds) auto
  have "pos P cs = pos P ds'" by (rule Cons.IH [OF d(3) Cons.prems(2)])
  then show ?case using Cons.prems(2) [OF d(2)] d(1) by simp
qed simp

lemma getChild_pos: "getChild (r :: 'a route) isParam n = pos (\<lambda>c. key c = (isParam, n)) (rt_childs r)"
proof -
  have "getChild_loop isParam n i cs = map_option (\<lambda>x. x + i) (pos (\<lambda>c. key c = (isParam, n)) cs)"
    for i and cs :: "'a route list"
    by (induction cs arbitrary: i) (auto simp: key_def option.map_comp o_def)
  then show ?thesis by (simp add: getChild_def option.map_ident)
qed

lemma getChildAsParam_pos: "getChildAsParam (r :: 'a route) = pos rt_isParam (rt_childs r)"
proof -
  have "getChildAsParam_loop i cs = map_option (\<lambda>x. x + i) (pos rt_isParam cs)" for i and cs :: "'a route list"
    by (induction cs arbitrary: i) (auto simp: option.map_comp o_def)
  then show ?thesis by (simp add: getChildAsParam_def option.map_ident)
qed

text \<open>Replacing a child by one with the same key does not change what a search finds.\<close>

lemma map_key_update:
  "c < length cs \<Longrightarrow> key x = key (cs ! c) \<Longrightarrow> map key (cs[c := x]) = map key cs"
  by (simp add: map_update list_update_same_conv)

lemma getChild_update:
  assumes "c < length (rt_childs r)" "key x = key (rt_childs r ! c)"
  shows "getChild (set_childs ((rt_childs r)[c := x]) r) isParam n = getChild r isParam n"
    "getChildAsParam (set_childs ((rt_childs r)[c := x]) r) = getChildAsParam r"
  using map_key_update [OF assms]
  by (auto simp: getChild_pos getChildAsParam_pos key_def intro!: pos_map_key)

lemma addChild_spec:
  assumes "addChild r isParam n = Inr (r1, c)"
  shows "key r1 = key r \<and> c < length (rt_childs r1) \<and> key (rt_childs r1 ! c) = (isParam, n) \<and>
    getChild r1 isParam n = Some c \<and> rt_handler r1 = rt_handler r \<and>
    (r1 = r \<or> rt_childs r1 ! c = Route n [] None isParam) \<and>
    (getChild r isParam n = Some c \<and> r1 = r \<or> getChild r isParam n = None \<and> r1 \<noteq> r) \<and>
    (\<forall>p. p \<noteq> (isParam, n) \<longrightarrow> getChild r1 (fst p) (snd p) = getChild r (fst p) (snd p)) \<and>
    (\<forall>j < length (rt_childs r). rt_childs r1 ! j = rt_childs r ! j)"
proof (cases "getChild r isParam n")
  case None
  then have r1: "r1 = set_childs (rt_childs r @ [Route n [] None isParam]) r" "c = length (rt_childs r)"
    using assms by (auto simp: addChild_def split: if_splits)
  have k: "key (Route n [] None isParam) = (isParam, n)" by (simp add: key_def)
  have "r1 \<noteq> r" using r1 by (metis append_self_conv key_set(3) not_Cons_self2)
  moreover have "getChild r1 (fst p) (snd p) = (if p = (isParam, n) then Some c else getChild r (fst p) (snd p))" for p
    using None k by (auto simp: r1 getChild_pos pos_snoc split: option.splits)
  ultimately show ?thesis using None k by (force simp: r1 nth_append)
next
  case (Some j)
  with assms show ?thesis by (auto simp: addChild_def getChild_pos dest: pos_Some)
qed

text \<open>A node has at most one child that is a parameter.\<close>

fun wf_route :: "'h route \<Rightarrow> bool" where
  "wf_route (Route n cs h p) \<longleftrightarrow>
     (\<forall>i < length cs. \<forall>j < length cs. rt_isParam (cs ! i) \<longrightarrow> rt_isParam (cs ! j) \<longrightarrow> i = j) \<and>
     (\<forall>c \<in> set cs. wf_route c)"

lemma wf_route_iff:
  "wf_route r \<longleftrightarrow>
     (\<forall>i < length (rt_childs r). \<forall>j < length (rt_childs r).
        rt_isParam (rt_childs r ! i) \<longrightarrow> rt_isParam (rt_childs r ! j) \<longrightarrow> i = j) \<and>
     (\<forall>j < length (rt_childs r). wf_route (rt_childs r ! j))"
  by (cases r) (auto simp: all_set_conv_all_nth)

lemma fresh_node: "wf_route (Route n [] None p)" "handler_at (Route n [] None p) ss = None"
proof -
  show "handler_at (Route n [] None p) ss = None" by (cases ss) (auto simp: getChild_pos)
qed simp

lemma add_segs_fresh: "snd (add_segs (Route n [] None p) ss h) = None"
proof (induction ss arbitrary: n p)
  case (Cons s ss)
  obtain b m where s: "s = (b, m)" by (cases s)
  from Cons.IH [of m b] show ?case by (simp add: s addChild_def getChild_pos getChildAsParam_pos split_beta)
qed simp

lemma wf_addChild:
  assumes "addChild r isParam n = Inr (r1, c)" "wf_route r"
  shows "wf_route r1"
proof (cases "getChild r isParam n")
  case None
  with assms(1) have r1: "r1 = set_childs (rt_childs r @ [Route n [] None isParam]) r"
    and p: "isParam \<Longrightarrow> \<forall>d \<in> set (rt_childs r). \<not> rt_isParam d"
    by (auto simp: addChild_def getChildAsParam_pos pos_None split: if_splits)
  with assms(2) show ?thesis
    unfolding r1 wf_route_iff [of "set_childs (rt_childs r @ [Route n [] None isParam]) r"] wf_route_iff [of r]
    by (auto simp: nth_append less_Suc_eq)
next
  case (Some j)
  with assms show ?thesis by (simp add: addChild_def)
qed

lemma wf_update:
  assumes "wf_route r" "c < length (rt_childs r)" "key x = key (rt_childs r ! c)" "wf_route x"
  shows "wf_route (set_childs ((rt_childs r)[c := x]) r)"
proof -
  have "rt_isParam ((rt_childs r)[c := x] ! j) = rt_isParam (rt_childs r ! j)" if "j < length (rt_childs r)" for j
    using assms(2,3) that by (auto simp: nth_list_update key_def)
  with assms show ?thesis
    by (auto simp: wf_route_iff [of r] wf_route_iff [of "set_childs ((rt_childs r)[c := x]) r"] nth_list_update)
qed

lemma add_segs_spec:
  assumes "add_segs r ss h = (r1, err)"
  shows "key r1 = key r \<and> (wf_route r \<longrightarrow> wf_route r1) \<and>
    (case err of
       None \<Rightarrow> \<forall>ss1. handler_at r1 ss1 = (if ss1 = ss then Some h else handler_at r ss1)
     | Some e \<Rightarrow> r1 = r \<and> e = ErrRouteDupParam)"
  using assms
proof (induction ss arbitrary: r r1)
  case Nil
  have "handler_at (set_handler h r) ss1 = (if ss1 = [] then Some h else handler_at r ss1)" for ss1
    by (cases ss1) (auto simp: getChild_pos split: option.splits)
  moreover have "wf_route (set_handler h r) = wf_route r" 
    by (simp add: wf_route_iff [of r] wf_route_iff [of "set_handler h r"])
  ultimately show ?case using Nil by auto
next
  case (Cons s ss)
  obtain b n where s: "s = (b, n)" by (cases s)
  show ?case
  proof (cases "addChild r b n")
    case (Inl e)
    then have "e = ErrRouteDupParam" by (auto simp: addChild_def split: option.splits if_splits)
    with Inl Cons.prems show ?thesis by (auto simp: s)
  next
    case (Inr a)
    obtain r2 c where a: "addChild r b n = Inr (r2, c)" using Inr by (cases a) auto
    note A = addChild_spec [OF a]
    obtain x where x: "add_segs (rt_childs r2 ! c) ss h = (x, err)" "r1 = set_childs ((rt_childs r2)[c := x]) r2"
      using Cons.prems by (auto simp: s a split: prod.splits)
    note IH = Cons.IH [OF x(1)]
    have c: "c < length (rt_childs r2)" "key x = key (rt_childs r2 ! c)" using A IH by auto
    have wf: "wf_route r1" if "wf_route r"
      using wf_update [OF wf_addChild [OF a that] c] IH wf_addChild [OF a that] c(1)
      by (auto simp: x(2) wf_route_iff [of r2])
    have k: "key r1 = key r" using A by (simp add: x(2))
    show ?thesis
    proof (cases err)
      case None
      have "handler_at r1 ss1 = (if ss1 = s # ss then Some h else handler_at r ss1)" for ss1
      proof (cases ss1)
        case Nil
        then show ?thesis using A by (simp add: x(2))
      next
        case (Cons p ps)
        obtain b1 n1 where p: "p = (b1, n1)" by (cases p)
        have g: "getChild r1 b1 n1 = getChild r2 b1 n1" using getChild_update(1) [OF c] by (simp add: x(2))
        show ?thesis
        proof (cases "p = s")
          case True
          then show ?thesis
            using A IH None g Cons p s c fresh_node(2) [of n b ps] by (auto simp: x(2))
        next
          case False
          have "getChild r2 b1 n1 = getChild r b1 n1" using A False p s by (metis fst_conv snd_conv)
          moreover have "rt_childs r1 ! j = rt_childs r ! j" if "getChild r b1 n1 = Some j" for j
          proof -
            have j: "j < length (rt_childs r)" "key (rt_childs r ! j) = p"
              using that pos_Some [of "\<lambda>c. key c = (b1, n1)" "rt_childs r" j] by (simp_all add: getChild_pos p)
            then have "j \<noteq> c" using A False s by auto
            then show ?thesis using A j by (simp add: x(2))
          qed
          ultimately show ?thesis using Cons p False g by (auto split: option.splits)
        qed
      qed
      with None k wf show ?thesis by simp
    next
      case (Some e)
      have "r2 = r" using A x(1) Some add_segs_fresh [of n b ss h] by auto
      moreover have "x = rt_childs r2 ! c" "e = ErrRouteDupParam" using IH Some by auto
      ultimately show ?thesis using Some k wf by (cases r) (simp add: x(2) set_childs_def)
    qed
  qed
qed

subsection \<open>Matching a path\<close>

text \<open>
  A pattern against the segments of a path, segment by segment: a static segment has to be equal,
  a parameter takes the value of the segment.
\<close>

fun bind_params :: "targetParam \<Rightarrow> pattern \<Rightarrow> bytes list \<Rightarrow> targetParam option" where
  "bind_params ps [] [] = Some ps"
| "bind_params ps ((isParam, n) # pat) (s # ss) =
     (if isParam then bind_params (ps(n \<mapsto> s)) pat ss
      else if n = s then bind_params ps pat ss else None)"
| "bind_params ps _ _ = None"

text \<open>No static sibling of a parameter of the pattern has the segment as its name.\<close>

fun unshadowed :: "'h route \<Rightarrow> pattern \<Rightarrow> bytes list \<Rightarrow> bool" where
  "unshadowed r ((isParam, n) # pat) (s # ss) \<longleftrightarrow>
     (isParam \<longrightarrow> getChild r False s = None) \<and>
     (case getChild r isParam n of None \<Rightarrow> True | Some c \<Rightarrow> unshadowed (rt_childs r ! c) pat ss)"
| "unshadowed r _ _ \<longleftrightarrow> True"

lemma param_child:
  assumes "getChildAsParam r = Some c"
  shows "c < length (rt_childs r)" "getChild r True (rt_name (rt_childs r ! c)) = Some c"
proof -
  have "pos rt_isParam cs = Some c \<Longrightarrow> pos (\<lambda>d. key d = (True, rt_name (cs ! c))) cs = Some c" for cs :: "'a route list"
    by (induction cs arbitrary: c) (auto simp: key_def split: if_splits)
  with assms pos_Some [of rt_isParam "rt_childs r" c]
  show "c < length (rt_childs r)" "getChild r True (rt_name (rt_childs r ! c)) = Some c"
    by (simp_all add: getChildAsParam_pos getChild_pos)
qed

lemma param_child_unique:
  assumes "wf_route r" "getChild r True n = Some c"
  shows "getChildAsParam r = Some c \<and> rt_name (rt_childs r ! c) = n"
proof -
  have c: "c < length (rt_childs r)" "key (rt_childs r ! c) = (True, n)"
    using pos_Some [of "\<lambda>d. key d = (True, n)"] assms(2) by (auto simp: getChild_pos)
  then have "rt_childs r ! c \<in> set (rt_childs r)" "rt_isParam (rt_childs r ! c)" by (simp_all add: key_def)
  then have "getChildAsParam r \<noteq> None" unfolding getChildAsParam_pos by (metis pos_None)
  then obtain d where d: "getChildAsParam r = Some d" by auto
  with pos_Some [of rt_isParam "rt_childs r" d] have "d < length (rt_childs r)" "rt_isParam (rt_childs r ! d)"
    by (simp_all add: getChildAsParam_pos)
  with assms(1) c have "d = c" unfolding wf_route_iff [of r] by (auto simp: key_def)
  with d c show ?thesis by (simp add: key_def)
qed

lemma get_segs_iff:
  assumes "wf_route r"
  shows "get_segs r params ss = (Some ps, Some h) \<longleftrightarrow>
    (\<exists>pat. handler_at r pat = Some h \<and> bind_params params pat ss = Some ps \<and> unshadowed r pat ss)"
  using assms
proof (induction ss arbitrary: r params)
  case Nil
  have "bind_params params pat [] = Some ps \<longleftrightarrow> pat = [] \<and> params = ps" for pat by (cases pat) auto
  then show ?case by auto
next
  case (Cons s ss)
  have wfc: "wf_route (rt_childs r ! c)" if "c < length (rt_childs r)" for c
    using Cons.prems that by (simp add: wf_route_iff [of r])
  have cons: "(\<exists>pat. handler_at r pat = Some h \<and> bind_params params pat (s # ss) = Some ps \<and> unshadowed r pat (s # ss)) \<longleftrightarrow>
      (\<exists>b n pat. handler_at r ((b, n) # pat) = Some h \<and> bind_params params ((b, n) # pat) (s # ss) = Some ps \<and>
         unshadowed r ((b, n) # pat) (s # ss))" (is "?L \<longleftrightarrow> ?R")
  proof
    assume ?L
    then obtain pat where "handler_at r pat = Some h" "bind_params params pat (s # ss) = Some ps" "unshadowed r pat (s # ss)"
      by blast
    moreover obtain b n pat1 where "pat = (b, n) # pat1"
      using \<open>bind_params params pat (s # ss) = Some ps\<close> by (cases pat) auto
    ultimately show ?R by blast
  qed blast
  show ?case
  proof (cases "getChild r False s")
    case (Some c)
    then have "c < length (rt_childs r)" using pos_Some by (auto simp: getChild_pos)
    from Cons.IH [OF wfc [OF this]] Some show ?thesis
      unfolding cons by (auto simp: get_down_def split: if_splits)
  next
    case None
    show ?thesis
    proof (cases "getChildAsParam r")
      case None': None
      then have "getChild r True n = None" for n using param_child_unique [OF Cons.prems, of n] by fastforce
      with None None' show ?thesis unfolding cons by (auto simp: get_down_def split: if_splits)
    next
      case (Some c)
      note pc = param_child [OF Some]
      have uniq: "d = c \<and> n = rt_name (rt_childs r ! c)" if "getChild r True n = Some d" for n d
        using param_child_unique [OF Cons.prems that] Some by auto
      have "get_segs r params (s # ss) = get_segs (rt_childs r ! c) (params(rt_name (rt_childs r ! c) \<mapsto> s)) ss"
        using None Some by (simp add: get_down_def)
      moreover have "(\<exists>b n pat. handler_at r ((b, n) # pat) = Some h \<and> bind_params params ((b, n) # pat) (s # ss) = Some ps \<and>
          unshadowed r ((b, n) # pat) (s # ss)) \<longleftrightarrow>
        (\<exists>pat. handler_at (rt_childs r ! c) pat = Some h \<and>
          bind_params (params(rt_name (rt_childs r ! c) \<mapsto> s)) pat ss = Some ps \<and> unshadowed (rt_childs r ! c) pat ss)"
        (is "?L \<longleftrightarrow> ?R")
      proof
        assume ?L
        then obtain b n pat where *: "handler_at r ((b, n) # pat) = Some h"
          "bind_params params ((b, n) # pat) (s # ss) = Some ps" "unshadowed r ((b, n) # pat) (s # ss)" by blast
        have b using * None by (auto split: if_splits)
        with * uniq show ?R by (auto split: option.splits)
      next
        assume ?R
        then obtain pat where "handler_at (rt_childs r ! c) pat = Some h"
          "bind_params (params(rt_name (rt_childs r ! c) \<mapsto> s)) pat ss = Some ps" "unshadowed (rt_childs r ! c) pat ss"
          by blast
        with pc None show ?L
          by (intro exI [of _ True] exI [of _ "rt_name (rt_childs r ! c)"] exI [of _ pat]) simp
      qed
      ultimately show ?thesis unfolding cons using Cons.IH [OF wfc [OF pc(1)]] by (simp only:)
    qed
  qed
qed

subsection \<open>Properties\<close>

definition wf_root :: "'h rootRoute \<Rightarrow> bool" where
  "wf_root root \<longleftrightarrow> (\<forall>m. wf_route (tree root m))"

lemma wf_root_iff:
  "wf_root root \<longleftrightarrow> wf_route (methodDelete root) \<and> wf_route (methodGet root) \<and> wf_route (methodPatch root) \<and>
     wf_route (methodPost root) \<and> wf_route (methodPut root)"
  unfolding wf_root_def by (metis httpMethod.exhaust tree.simps)

lemma wf_new: "wf_root newRootRoute"
  by (simp add: wf_root_iff newRootRoute_def newRoute_def)

lemma set_tree_same: "set_tree root m (tree root m) = root"
  by (cases m) simp_all

text \<open>
  C16: The routes are a table from methods and patterns to handlers. \<open>add\<close> never panics on a
  non-empty target; when it succeeds, the handler is registered for exactly the pattern of the
  target, in the tree of the method, and every other entry is as before; when it returns an error
  nothing at all has changed, although the loop extends the tree while it reads the target. A node
  never gets two children that are parameters.
\<close>

theorem root_add_table:
  assumes "wf_root root" "target \<noteq> []"
  shows "\<exists>root1 err. root_add root method target h = Some (root1, err) \<and> wf_root root1 \<and>
    (case err of
       None \<Rightarrow> \<exists>m. method_of (strings_ToUpper method) = Some m \<and>
         (\<forall>m1 pat. handler_at (tree root1 m1) pat =
            (if m1 = m \<and> pat = target_pattern target then Some h else handler_at (tree root m1) pat))
     | Some e \<Rightarrow> root1 = root)"
proof (cases "target ! 0 = pathSep \<and> method_of (strings_ToUpper method) \<noteq> None")
  case False
  with assms show ?thesis by (auto simp: root_add_def idx_def)
next
  case True
  then obtain m where m: "method_of (strings_ToUpper method) = Some m" by auto
  obtain r1 err where a: "add_segs (tree root m) (target_pattern target) h = (r1, err)" by (cases "add_segs (tree root m) (target_pattern target) h")
  note A = add_segs_spec [OF a]
  have eq: "root_add root method target h = Some (set_tree root m r1, err)"
    using True m a assms(2) by (simp add: root_add_def idx_def add_loop_segs target_pattern_def)
  have wf: "wf_root (set_tree root m r1)" using A assms(1) by (simp add: wf_root_def tree_set_tree)
  show ?thesis
  proof (cases err)
    case None
    with A eq wf m show ?thesis by (auto simp: tree_set_tree)
  next
    case (Some e)
    with A have "set_tree root m r1 = root" by (simp add: set_tree_same)
    with Some eq wf show ?thesis by simp
  qed
qed

theorem root_add_table_witness:
  "\<exists>root1 err. root_add newRootRoute (str ''get'') (str ''/a/:id'') (1 :: nat) = Some (root1, err) \<and> wf_root root1 \<and>
    (case err of
       None \<Rightarrow> \<exists>m. method_of (strings_ToUpper (str ''get'')) = Some m \<and>
         (\<forall>m1 pat. handler_at (tree root1 m1) pat =
            (if m1 = m \<and> pat = target_pattern (str ''/a/:id'') then Some 1 else handler_at (tree newRootRoute m1) pat))
     | Some e \<Rightarrow> root1 = newRootRoute)"
  by (rule root_add_table) (simp_all add: wf_new str_def)

text \<open>
  C17: \<open>get\<close> finds exactly what the table holds, static segments first: it returns a handler with
  parameters if and only if some pattern with that handler matches the segments of the path with
  those parameters, and no static sibling of one of its parameters has the name of the segment
  that the parameter takes. There is no backtracking to a parameter from a static segment.
\<close>

theorem root_get_table:
  assumes "wf_root root" "method \<noteq> []" "method_of (strings_ToUpper method) = Some m"
  shows "root_get root method (pathSep # t) = (Some ps, Some h) \<longleftrightarrow>
    (\<exists>pat. handler_at (tree root m) pat = Some h \<and> bind_params Map.empty pat (path_segs [] t) = Some ps \<and>
       unshadowed (tree root m) pat (path_segs [] t))"
  using get_segs_iff [of "tree root m" Map.empty "path_segs [] t" ps h] assms
  by (simp add: root_get_def wf_root_def get_loop_segs)

definition sample_root :: "nat rootRoute" where
  "sample_root = newRootRoute\<lparr>methodGet := Route [pathSep] [Route (str ''id'') [] (Some 1) True] None False\<rparr>"

theorem root_get_table_witness:
  "root_get sample_root (str ''get'') (pathSep # str ''a'') = (Some [str ''id'' \<mapsto> str ''a''], Some 1) \<longleftrightarrow>
    (\<exists>pat. handler_at (tree sample_root MGet) pat = Some 1 \<and>
       bind_params Map.empty pat (path_segs [] (str ''a'')) = Some [str ''id'' \<mapsto> str ''a''] \<and>
       unshadowed (tree sample_root MGet) pat (path_segs [] (str ''a'')))"
  by (rule root_get_table)
    (simp_all add: wf_root_iff sample_root_def newRootRoute_def newRoute_def str_def method_of_def)

text \<open>
  A colon makes its segment a parameter wherever it stands, not only at the start of the
  segment, because the flag \<open>started\<close> is not cleared by an ordinary byte: registering the target
  \<open>/user:id\<close> creates the parameter \<open>userid\<close>, and the handler then serves every path of one
  segment.
\<close>

theorem colon_inside_segment:
  assumes "v \<noteq> []" "pathSep \<notin> set v"
  shows "\<exists>root. root_add newRootRoute (str ''GET'') (str ''/user:id'') h = Some (root, None) \<and>
    root_get root (str ''GET'') (pathSep # v) = (Some [str ''userid'' \<mapsto> v], Some h)"
proof -
  define root where "root = newRootRoute\<lparr>methodGet :=
    Route [pathSep] [Route (str ''userid'') [] (Some h) True] None False\<rparr>"
  have "root_add newRootRoute (str ''GET'') (str ''/user:id'') h = Some (root, None)"
    by (simp add: root_add_def root_def newRootRoute_def newRoute_def method_of_def str_def path_consts idx_def
        addChild_def getChild_def getChildAsParam_def set_childs_def set_handler_def)
  moreover have "path_segs bb v = (if bb @ v = [] then [] else [bb @ v])" for bb
    using assms(2) by (induction v arbitrary: bb) auto
  then have "root_get root (str ''GET'') (pathSep # v) = (Some [str ''userid'' \<mapsto> v], Some h)"
    using assms(1)
    by (simp add: root_get_def root_def method_of_def str_def get_loop_segs get_down_def getChild_def getChildAsParam_def)
  ultimately show ?thesis by blast
qed

theorem colon_inside_segment_witness:
  "\<exists>root. root_add newRootRoute (str ''GET'') (str ''/user:id'') (7 :: nat) = Some (root, None) \<and>
    root_get root (str ''GET'') (pathSep # str ''admin'') = (Some [str ''userid'' \<mapsto> str ''admin''], Some 7)"
  by (rule colon_inside_segment) (simp_all add: str_def path_consts)

end
