(* ===== verification/HttpResponse.thy ===== *)
theory HttpResponse
  imports GoText
begin

section \<open>HTTP response headers (lib/http/response.go)\<close>

text \<open>
  \<open>ParseResponseHeader\<close> reads the status line and the header fields of an HTTP response and
  returns the rest of the packet. The websocket client uses it on the answer to its handshake.
  The \<open>http.Header\<close> of the standard library is a map from canonical keys to lists of values.
\<close>

subsection \<open>net/http: Header\<close>

type_synonym Header = "bytes \<Rightarrow> bytes list option"

text \<open>A byte of an HTTP token; a key with any other byte is left as it is.\<close>

definition token_byte :: "byte \<Rightarrow> bool" where
  "token_byte b \<longleftrightarrow> IsAlnum b \<or> b \<in> set (str ''!#$%&'' @ [39] @ str ''*+-.^_'' @ [96] @ str ''|~'')"

fun canonical_loop :: "bool \<Rightarrow> bytes \<Rightarrow> bytes" where
  "canonical_loop upper [] = []"
| "canonical_loop upper (c # cs) =
     (let d = (if upper \<and> 97 \<le> c \<and> c \<le> 122 then c - 32
               else if \<not> upper \<and> 65 \<le> c \<and> c \<le> 90 then c + 32 else c)
      in d # canonical_loop (d = 45) cs)"

definition CanonicalHeaderKey :: "bytes \<Rightarrow> bytes" where
  "CanonicalHeaderKey s = (if list_all token_byte s then canonical_loop True s else s)"

definition Header_Add :: "Header \<Rightarrow> bytes \<Rightarrow> bytes \<Rightarrow> Header" where
  "Header_Add h k v =
     (let k = CanonicalHeaderKey k
      in h(k \<mapsto> (case h k of None \<Rightarrow> [] | Some vs \<Rightarrow> vs) @ [v]))"

definition Header_Get :: "Header \<Rightarrow> bytes \<Rightarrow> bytes" where
  "Header_Get h k = (case h (CanonicalHeaderKey k) of Some (v # _) \<Rightarrow> v | _ \<Rightarrow> [])"

subsection \<open>Header fields\<close>

datatype httpError =
    ErrHeaderLength | ErrProtocolName | ErrProtocolSep | ErrVersionSep | ErrStatusCRLF | ErrMajor | ErrMinor
  | ErrStatusCode | ErrStatusRange | ErrLastCRLF | ErrFieldSep | ErrFieldCRLF | ErrFieldCR | ErrEmptyValue

definition header_spaces :: bytes where
  "header_spaces = [13, 10, 11, 9, 32]"

definition header_delims :: bytes where
  "header_delims = [34, 40, 41, 44, 47, 58, 59, 60, 61, 62, 63, 64, 91, 92, 93, 123, 125]"

text \<open>The loop of \<open>parseHeaders\<close>; \<open>rest\<close> is always the unread part of the reader's buffer.\<close>

function parseHeaders_loop :: "Reader \<Rightarrow> Header \<Rightarrow> (Header option \<times> bytes \<times> httpError option) option" where
  "parseHeaders_loop r header =
     (let rest = unread r in
      if length rest = 0 then Some (Some header, rest, None)
      else if length rest = 1 then Some (None, rest, Some ErrLastCRLF)
      else if rest ! 0 = 13 \<and> rest ! 1 = 10 then Some (Some header, drop 2 rest, None)
      else case ReadUntil r header_spaces header_delims of
             None \<Rightarrow> None
           | Some (r1, key, isTerm, c) \<Rightarrow>
               if \<not> isTerm \<or> c \<noteq> 58 then Some (None, [], Some ErrFieldSep)
               else case ReadUntil r1 [] [10] of
                      None \<Rightarrow> None
                    | Some (r2, tok, isTerm, c) \<Rightarrow>
                        if \<not> isTerm then Some (None, [], Some ErrFieldCRLF)
                        else case idxi (rV r2) (int (rX r2) - 2) of
                               None \<Rightarrow> None
                             | Some p \<Rightarrow>
                                 if p \<noteq> 13 then Some (None, [], Some ErrFieldCR)
                                 else case slicei tok 0 (int (length tok) - 1) of
                                        None \<Rightarrow> None
                                      | Some tok \<Rightarrow>
                                          let tok = TrimSpace tok in
                                          if length tok = 0 then Some (None, [], Some ErrEmptyValue)
                                          else parseHeaders_loop r2 (Header_Add header key tok))"
  by pat_completeness auto

termination parseHeaders_loop
proof (relation "measure (\<lambda>(r, _). length (unread r))", goal_cases)
  case (2 r header rest a r1 p1 key p2 isTerm c a2 r2 p3 tok p4 isTerm2 c2 p tok1 tok2)
  have ne: "unread r \<noteq> []" using 2(1,2) by auto
  have "ReadUntil r header_spaces header_delims = Some (r1, key, isTerm, c)" using 2 by auto
  note a = ReadUntil_progress [OF this ne]
  have "ReadUntil r1 [] [10] = Some (r2, tok, isTerm2, c2)" using 2 by auto
  note b = ReadUntil_mono [OF this]
  show ?case using a b by (auto simp: reader_ok_def)
qed simp

declare parseHeaders_loop.simps [simp del]

definition parseHeaders :: "bytes \<Rightarrow> (Header option \<times> bytes \<times> httpError option) option" where
  "parseHeaders raw = parseHeaders_loop \<lparr>rX = 0, rV = raw\<rparr> Map.empty"

subsection \<open>The status line\<close>

record Response =
  Proto :: bytes
  ProtoMajor :: int
  ProtoMinor :: int
  Status :: bytes
  StatusCode :: int
  res_Header :: Header

definition bytes_Index :: "bytes \<Rightarrow> byte \<Rightarrow> int" where
  "bytes_Index s b =
     (let n = length (takeWhile (\<lambda>c. c \<noteq> b) s) in if n < length s then int n else - 1)"

text \<open>
  Each error result of the code comes with a rest; the websocket client ignores it. The response
  is \<open>nil\<close>, without an error, when the packet is empty.
\<close>

definition ParseResponseHeader :: "bytes \<Rightarrow> (Response option \<times> bytes \<times> httpError option) option" where
  "ParseResponseHeader raw =
     (if length raw = 0 then Some (None, [], None)
      else if length raw < 16 then Some (None, raw, Some ErrHeaderLength)
      else if take 4 raw \<noteq> str ''HTTP'' then Some (None, raw, Some ErrProtocolName)
      else if raw ! 4 \<noteq> 47 then Some (None, raw, Some ErrProtocolSep)
      else if raw ! 6 \<noteq> 46 then Some (None, raw, Some ErrVersionSep)
      else let ilf = bytes_Index raw 10 in do {
        crlf \<leftarrow> (if ilf < 0 then Some False else do { c \<leftarrow> idxi raw (ilf - 1); Some (c = 13) });
        if \<not> crlf then Some (None, raw, Some ErrStatusCRLF)
        else do {
          status \<leftarrow> slicei raw 9 (ilf - 1);
          let major = uint (raw ! 5 - 48);
          let minor = uint (raw ! 7 - 48);
          if major \<le> 0 \<or> major > 2 then Some (None, raw, Some ErrMajor)
          else if minor < 0 \<or> minor > 1 then Some (None, raw, Some ErrMinor)
          else do {
            code \<leftarrow> slicei raw 9 12;
            case Atoi code of
              None \<Rightarrow> Some (None, raw, Some ErrStatusCode)
            | Some code \<Rightarrow>
                if code < 100 \<or> code \<ge> 600 then Some (None, raw, Some ErrStatusRange)
                else do {
                  rest \<leftarrow> slicei raw (ilf + 1) (int (length raw));
                  (header, rest, err) \<leftarrow> parseHeaders rest;
                  case (header, err) of
                    (Some header, None) \<Rightarrow>
                      Some (Some \<lparr>Proto = take 8 raw, ProtoMajor = major, ProtoMinor = minor, Status = status,
                        StatusCode = code, res_Header = header\<rparr>, rest, None)
                  | _ \<Rightarrow> Some (None, raw, err) } } } })"

subsection \<open>Reading back header lines\<close>

definition header_line :: "bytes \<times> bytes \<Rightarrow> bytes" where
  "header_line = (\<lambda>(k, v). k @ [58, 32] @ v @ [13, 10])"

text \<open>A field that survives: no separator in the key, and a value without line feed or outer space.\<close>

definition plain_field :: "bytes \<times> bytes \<Rightarrow> bool" where
  "plain_field = (\<lambda>(k, v). k \<noteq> [] \<and> set k \<inter> set (header_delims @ header_spaces) = {} \<and>
     v \<noteq> [] \<and> 10 \<notin> set v \<and> TrimSpace v = v)"

lemma nat_plus_int: "nat (1 + int n) = Suc n" "nat (numeral k + int n) = numeral k + n"
  by (simp_all add: nat_add_distrib)

lemma parseHeaders_line:
  assumes "reader_ok r" "unread r = header_line (k, v) @ rest" "plain_field (k, v)"
  shows "\<exists>r1. parseHeaders_loop r header = parseHeaders_loop r1 (Header_Add header k v) \<and>
    reader_ok r1 \<and> unread r1 = rest"
proof -
  from assms(3) have k: "k \<noteq> []" "set k \<inter> (set header_delims \<union> set header_spaces) = {}" "v \<noteq> []" "10 \<notin> set v" "TrimSpace v = v"
    by (auto simp: plain_field_def)
  have u: "unread r = k @ 58 # (32 # v @ [13]) @ 10 # rest" using assms(2) by (simp add: header_line_def)
  have c58: "58 \<in> set header_delims \<union> set header_spaces" by (simp add: header_delims_def)
  define r1 where "r1 = r\<lparr>rX := rX r + length k + 1\<rparr>"
  have R1: "ReadUntil r header_spaces header_delims = Some (r1, k, True, 58)"
    using ReadUntil_token [OF assms(1) u k(2) c58] by (simp add: r1_def header_delims_def)
  have ok1: "reader_ok r1"
    using arg_cong [OF u, of length] assms(1) by (simp add: reader_ok_def r1_def)
  have u1: "unread r1 = (32 # v @ [13]) @ 10 # rest"
    using arg_cong [OF u, of "drop (length k + 1)"] by (simp add: r1_def add.commute)
  define r2 where "r2 = r1\<lparr>rX := rX r1 + length (32 # v @ [13]) + 1\<rparr>"
  have "set (32 # v @ [13]) \<inter> (set [10] \<union> set []) = {}" using k(4) by auto
  from ReadUntil_token [OF ok1 u1 this] have R2: "ReadUntil r1 [] [10] = Some (r2, 32 # v @ [13], True, 10)"
    by (simp add: r2_def)
  have ok2: "reader_ok r2" using arg_cong [OF u1, of length] ok1 by (simp add: reader_ok_def r2_def)
  have u2: "unread r2 = rest"
    using arg_cong [OF u1, of "drop (length (32 # v @ [13]) + 1)"] by (simp add: r2_def add.commute)
  have V: "rV r2 ! (rX r2 - 2) = 13"
    using arg_cong [OF u1, of "\<lambda>l. l ! (length v + 1)"] ok1 ok2
    by (simp add: r2_def reader_ok_def nth_append)
  have i: "idxi (rV r2) (int (rX r2) - 2) = Some 13"
  proof -
    have x: "int (rX r2) - 2 = int (Suc (rX r1 + length v))" by (simp add: r2_def)
    show ?thesis using V ok2 unfolding x by (simp add: idxi_def idx_def r2_def reader_ok_def del: of_nat_Suc)
  qed
  have s: "slicei (32 # v @ [13]) 0 (1 + int (length v)) = Some (32 # v)"
    by (simp add: slicei_def subslice_def nat_plus_int)
  have u0: "length (unread r) \<noteq> 0" "length (unread r) \<noteq> 1" "\<not> (unread r ! 0 = 13 \<and> unread r ! 1 = 10)"
    using k(1,2) by (cases k; auto simp: u header_spaces_def)+
  have "parseHeaders_loop r header = parseHeaders_loop r2 (Header_Add header k v)"
    using u0 k(3,5) by (subst parseHeaders_loop.simps) (auto simp: R1 R2 i s TrimSpace_space Let_def)
  with ok2 u2 show ?thesis by blast
qed

lemma parseHeaders_lines:
  assumes "reader_ok r" "unread r = concat (map header_line kvs) @ [13, 10] @ rest" "list_all plain_field kvs"
  shows "parseHeaders_loop r header = Some (Some (foldl (\<lambda>h (k, v). Header_Add h k v) header kvs), rest, None)"
  using assms
proof (induction kvs arbitrary: r header)
  case Nil
  then show ?case by (subst parseHeaders_loop.simps) simp
next
  case (Cons kv kvs)
  obtain k v where kv: "kv = (k, v)" by (cases kv)
  from parseHeaders_line [OF Cons.prems(1), of k v "concat (map header_line kvs) @ [13, 10] @ rest" header] Cons.prems
  obtain r1 where "parseHeaders_loop r header = parseHeaders_loop r1 (Header_Add header k v)" "reader_ok r1"
    "unread r1 = concat (map header_line kvs) @ [13, 10] @ rest" by (auto simp: kv)
  with Cons.IH [of r1 "Header_Add header k v"] Cons.prems(3) show ?case by (simp add: kv)
qed

subsection \<open>Properties\<close>

lemma takeWhile_before: "b \<notin> set xs \<Longrightarrow> takeWhile (\<lambda>c. c \<noteq> b) (xs @ b # ys) = xs"
  by (subst takeWhile_append2) auto

text \<open>
  C26: A well-formed response is read back: for a version 1.0 to 2.1, a status code of three digits
  from 100 to 599, any reason without a line feed, any fields with plain keys and trimmed values,
  and any bytes after the empty line, \<open>ParseResponseHeader\<close> returns the version, the code, the
  status, the fields added in their order, and exactly the bytes after the header.
\<close>

theorem response_roundtrip:
  assumes "maj \<in> {1, 2}" "mnr \<in> {0, 1}" "Atoi code = Some n" "length code = 3" "list_all IsDigit code" "100 \<le> n" "n < 600"
    "10 \<notin> set reason" "list_all plain_field kvs"
  shows "ParseResponseHeader (str ''HTTP/'' @ [48 + maj, 46, 48 + mnr, 32] @ code @ reason @ [13, 10] @
      concat (map header_line kvs) @ [13, 10] @ rest) =
    Some (Some \<lparr>Proto = str ''HTTP/'' @ [48 + maj, 46, 48 + mnr], ProtoMajor = uint maj, ProtoMinor = uint mnr,
      Status = code @ reason, StatusCode = n,
      res_Header = foldl (\<lambda>h (k, v). Header_Add h k v) Map.empty kvs\<rparr>, rest, None)"
proof -
  define line where "line = str ''HTTP/'' @ [48 + maj, 46, 48 + mnr, 32] @ code @ reason @ [13]"
  define tl where "tl = concat (map header_line kvs) @ [13, 10] @ rest"
  define raw where "raw = line @ 10 # tl"
  obtain a b c where code: "code = [a, b, c]" using assms(4) by (auto simp: length_Suc_conv numeral_3_eq_3)
  have "10 \<notin> set code" using assms(5) by (auto simp: code IsDigit_def)
  moreover have "48 + maj \<noteq> 10" "48 + mnr \<noteq> 10" using assms(1,2) by auto
  ultimately have "10 \<notin> set line" using assms(8) by (simp add: line_def str_def)
  from takeWhile_before [OF this, of tl] have ilf: "bytes_Index raw 10 = int (length line)"
    by (simp add: raw_def bytes_Index_def)
  have len: "length line = 13 + length reason" by (simp add: line_def str_def code)
  have l: "line = [72, 84, 84, 80, 47, 48 + maj, 46, 48 + mnr, 32, a, b, c] @ reason @ [13]"
    by (simp add: line_def str_def code)
  have h: "parseHeaders tl = Some (Some (foldl (\<lambda>h (k, v). Header_Add h k v) Map.empty kvs), rest, None)"
    unfolding parseHeaders_def by (rule parseHeaders_lines) (simp_all add: reader_ok_def tl_def assms(9))
  have raw: "raw = [72, 84, 84, 80, 47, 48 + maj, 46, 48 + mnr, 32, a, b, c] @ reason @ 13 # 10 # tl"
    by (simp add: raw_def l)
  have len16: "\<not> length raw < 16" by (simp add: raw tl_def)
  have tk: "take (3 + length reason) (a # b # c # reason @ xs) = a # b # c # reason" for xs
    by (simp add: numeral_3_eq_3)
  have s1: "slicei raw 9 (int (length line) - 1) = Some (code @ reason)"
    by (simp add: slicei_def subslice_def len raw code nat_plus_int tk)
  have s2: "slicei raw 9 12 = Some code" by (simp add: slicei_def subslice_def raw code)
  have s3: "slicei raw (int (length line) + 1) (int (length raw)) = Some tl"
    by (simp add: slicei_def subslice_def raw_def nat_add_distrib)
  have i: "idxi raw (int (length line) - 1) = Some 13"
    by (simp add: idxi_def idx_def raw len nth_append nat_plus_int)
  have t: "take 4 raw = str ''HTTP''" "raw ! 4 = 47" "raw ! 6 = 46" "raw ! 5 - 48 = maj" "raw ! 7 - 48 = mnr"
    "take 8 raw = str ''HTTP/'' @ [48 + maj, 46, 48 + mnr]"
    by (simp_all add: raw str_def)
  have v: "\<not> (uint maj \<le> 0 \<or> uint maj > 2)" "\<not> (uint mnr < 0 \<or> uint mnr > 1)" using assms(1,2) by auto
  have "ParseResponseHeader raw = Some (Some \<lparr>Proto = str ''HTTP/'' @ [48 + maj, 46, 48 + mnr], ProtoMajor = uint maj,
      ProtoMinor = uint mnr, Status = code @ reason, StatusCode = n,
      res_Header = foldl (\<lambda>h (k, v). Header_Add h k v) Map.empty kvs\<rparr>, rest, None)"
    unfolding ParseResponseHeader_def ilf Let_def t i s1 s2 s3 using len16 v assms(3,6,7) h by (auto simp del: foldl_Nil)
  then show ?thesis by (simp add: raw_def line_def tl_def)
qed

theorem response_roundtrip_witness:
  "ParseResponseHeader (str ''HTTP/'' @ [48 + 1, 46, 48 + 1, 32] @ str ''200'' @ str '' OK'' @ [13, 10] @
      concat (map header_line [(str ''A'', str ''b'')]) @ [13, 10] @ [7]) =
    Some (Some \<lparr>Proto = str ''HTTP/'' @ [48 + 1, 46, 48 + 1], ProtoMajor = uint (1 :: byte), ProtoMinor = uint (1 :: byte),
      Status = str ''200'' @ str '' OK'', StatusCode = 200,
      res_Header = foldl (\<lambda>h (k, v). Header_Add h k v) Map.empty [(str ''A'', str ''b'')]\<rparr>, [7], None)"
proof (rule response_roundtrip)
  have "strip space_encs [98] = [98]" "strip (map rev space_encs) [98] = [98]"
    by (subst strip.simps, simp add: space_encs_def)+
  then show "list_all plain_field [(str ''A'', str ''b'')]"
    by (simp add: plain_field_def str_def header_delims_def header_spaces_def TrimSpace_def)
qed (simp_all add: str_def Atoi_def IsDigit_def)

end
