(* ===== verification/WsAccept.thy ===== *)
theory WsAccept
  imports WsFrame GoText
begin

section \<open>Handshake keys (lib/websocket/funcs.go)\<close>

text \<open>
  \<open>generateHandshakeKey\<close> and \<open>generateHandshakeAccept\<close>, with what they use of the standard
  library: \<open>base64.StdEncoding\<close> and \<open>sha1.Sum\<close>. The two values of \<open>rand.Uint64\<close> are arguments.
\<close>

subsection \<open>crypto/sha1\<close>

definition sha1_pad :: "bytes \<Rightarrow> bytes" where
  "sha1_pad m =
     m @ [0x80] @ replicate ((119 - length m mod 64) mod 64) 0 @ BigEndian_PutUint64 (of_nat (8 * length m))"

fun be_words :: "bytes \<Rightarrow> u32 list" where
  "be_words (a # b # c # d # r) =
     (push_bit 24 (ucast a) OR push_bit 16 (ucast b) OR push_bit 8 (ucast c) OR ucast d) # be_words r"
| "be_words _ = []"

text \<open>The message schedule, as the last sixteen words, newest first.\<close>

fun sha1_schedule :: "nat \<Rightarrow> u32 list \<Rightarrow> u32 list" where
  "sha1_schedule 0 w = []"
| "sha1_schedule (Suc n) w =
     (let x = word_rotl 1 (w ! 2 XOR w ! 7 XOR w ! 13 XOR w ! 15)
      in x # sha1_schedule n (x # w))"

type_synonym sha1_state = "u32 \<times> u32 \<times> u32 \<times> u32 \<times> u32"

definition sha1_f :: "nat \<Rightarrow> u32 \<Rightarrow> u32 \<Rightarrow> u32 \<Rightarrow> u32" where
  "sha1_f t b c d =
     (if t < 20 then (b AND c) OR (NOT b AND d)
      else if t < 40 then b XOR c XOR d
      else if t < 60 then (b AND c) OR (b AND d) OR (c AND d)
      else b XOR c XOR d)"

definition sha1_k :: "nat \<Rightarrow> u32" where
  "sha1_k t = (if t < 20 then 0x5A827999 else if t < 40 then 0x6ED9EBA1 else if t < 60 then 0x8F1BBCDC else 0xCA62C1D6)"

fun sha1_rounds :: "nat \<Rightarrow> u32 list \<Rightarrow> sha1_state \<Rightarrow> sha1_state" where
  "sha1_rounds t [] s = s"
| "sha1_rounds t (w # ws) (a, b, c, d, e) =
     sha1_rounds (Suc t) ws
       (word_rotl 5 a + sha1_f t b c d + e + w + sha1_k t, a, word_rotl 30 b, c, d)"

definition sha1_block :: "sha1_state \<Rightarrow> u32 list \<Rightarrow> sha1_state" where
  "sha1_block s w =
     (let (h0, h1, h2, h3, h4) = s;
          (a, b, c, d, e) = sha1_rounds 0 (w @ sha1_schedule 64 (rev w)) s
      in (h0 + a, h1 + b, h2 + c, h3 + d, h4 + e))"

fun sha1_blocks :: "nat \<Rightarrow> sha1_state \<Rightarrow> u32 list \<Rightarrow> sha1_state" where
  "sha1_blocks 0 s ws = s"
| "sha1_blocks (Suc n) s ws = sha1_blocks n (sha1_block s (take 16 ws)) (drop 16 ws)"

definition be_bytes :: "u32 \<Rightarrow> bytes" where
  "be_bytes w = [ucast (drop_bit 24 w), ucast (drop_bit 16 w), ucast (drop_bit 8 w), ucast w]"

definition sha1_Sum :: "bytes \<Rightarrow> bytes" where
  "sha1_Sum m =
     (let ws = be_words (sha1_pad m);
          (a, b, c, d, e) = sha1_blocks (length ws div 16) (0x67452301, 0xEFCDAB89, 0x98BADCFE, 0x10325476, 0xC3D2E1F0) ws
      in be_bytes a @ be_bytes b @ be_bytes c @ be_bytes d @ be_bytes e)"

subsection \<open>The keys\<close>

definition generateHandshakeAccept :: "bytes \<Rightarrow> bytes" where
  "generateHandshakeAccept key =
     base64_Encode (sha1_Sum (key @ str ''258EAFA5-E914-47DA-95CA-C5AB0DC85B11''))"

definition LittleEndian_PutUint64 :: "u64 \<Rightarrow> bytes" where
  "LittleEndian_PutUint64 v = rev (BigEndian_PutUint64 v)"

definition generateHandshakeKey :: "u64 \<Rightarrow> u64 \<Rightarrow> bytes" where
  "generateHandshakeKey r1 r2 = base64_Encode (LittleEndian_PutUint64 r1 @ LittleEndian_PutUint64 r2)"

subsection \<open>What the keys look like\<close>

lemma sha1_length: "length (sha1_Sum m) = 20"
  by (simp add: sha1_Sum_def be_bytes_def Let_def split: prod.splits)

lemma key_length: "length (generateHandshakeKey r1 r2) = 24"
  by (simp add: generateHandshakeKey_def base64_length LittleEndian_PutUint64_def BigEndian_PutUint64_def)

lemma accept_length: "length (generateHandshakeAccept key) = 28"
  by (simp add: generateHandshakeAccept_def base64_length sha1_length)

end
