(* ===== verification/WsHandshake.thy ===== *)
theory WsHandshake
  imports WsAccept HttpResponse "HOL-Library.Sublist"
begin

unbundle bit_operations_syntax

section \<open>The opening handshake (lib/websocket/handshake.go, client.go)\<close>

text \<open>
  The HTTP request that opens a websocket connection: the parser of the server (\<open>Handshake.parse\<close>)
  and the request and the check of the answer of the client (\<open>Client.handshake\<close>,
  \<open>handleHandshake\<close>).

  The parser works on one buffer, \<open>raw\<close>, and its results are slices of it. It converts the header
  keys to lower case in place; the parts of the buffer it has read are not read again, so a result
  is the list of its bytes. \<open>hs_cap\<close> is the capacity of the buffer: slicing behind the length is
  only a panic behind the capacity. \<open>headerValueContains\<close> converts the value it looks at in
  place, which no caller uses again. Go's \<open>int\<close> flags are 64-bit words.
\<close>

subsection \<open>The state of the parser\<close>

definition hdrFlagHost :: u64 where "hdrFlagHost = 1"
definition hdrFlagConn :: u64 where "hdrFlagConn = 2"
definition hdrFlagUpgrade :: u64 where "hdrFlagUpgrade = 4"
definition hdrFlagWSKey :: u64 where "hdrFlagWSKey = 8"
definition hdrFlagWSVersion :: u64 where "hdrFlagWSVersion = 16"
definition hdrFlagWSExtensions :: u64 where "hdrFlagWSExtensions = 32"
definition hdrFlagWSProtocol :: u64 where "hdrFlagWSProtocol = 64"

lemmas hdr_flags = hdrFlagHost_def hdrFlagConn_def hdrFlagUpgrade_def hdrFlagWSKey_def hdrFlagWSVersion_def
  hdrFlagWSExtensions_def hdrFlagWSProtocol_def

datatype hsError =
    ErrBadRequest | ErrRequestLength | ErrRequestHeaderLength | ErrInvalidHTTPMethod | ErrInvalidHTTPVersion
  | ErrInvalidHeaderUpgrade | ErrInvalidHeaderFormat | ErrInvalidHeaderHost | ErrInvalidHeaderWSKey
  | ErrInvalidHeaderWSVersion | ErrInvalidHeaderWSExtensions | ErrInvalidHeaderWSProtocol | ErrInvalidHeaderConn
  | ErrMissingRequiredHeader | ErrUnsupportedWSVersion

record Handshake =
  hs_start :: nat
  hs_end :: nat
  hs_headerFlags :: u64
  hs_raw :: bytes
  hs_cap :: nat
  hs_URI :: bytes
  hs_Host :: bytes
  hs_Key :: bytes
  hs_Extensions :: bytes
  hs_Protocol :: bytes
  hs_Header :: "Header option"

definition newHandshake :: Handshake where
  "newHandshake = \<lparr>hs_start = 0, hs_end = 0, hs_headerFlags = 0, hs_raw = [], hs_cap = 0, hs_URI = [], hs_Host = [],
     hs_Key = [], hs_Extensions = [], hs_Protocol = [], hs_Header = None\<rparr>"

text \<open>\<open>reset\<close> keeps \<open>Host\<close> and \<open>Key\<close>.\<close>

definition hs_reset :: "Handshake \<Rightarrow> bytes \<Rightarrow> nat \<Rightarrow> Handshake" where
  "hs_reset h req cap = h\<lparr>hs_start := 0, hs_end := 0, hs_headerFlags := 0, hs_raw := req, hs_cap := cap,
     hs_URI := [], hs_Extensions := [], hs_Protocol := [], hs_Header := None\<rparr>"

subsection \<open>Chunks\<close>

text \<open>
  The loop of \<open>getBytesChunk\<close> on the bytes from \<open>start\<close>: the bytes it passes, as it leaves them
  in the buffer, and the flag \<open>cr\<close>; \<open>None\<close> is the early return on a carriage return at the start.
\<close>

fun chunk_scan :: "byte \<Rightarrow> bool \<Rightarrow> bool \<Rightarrow> bool \<Rightarrow> bytes \<Rightarrow> (bytes \<times> bool) option" where
  "chunk_scan sep tolower atStart cr [] = Some ([], cr)"
| "chunk_scan sep tolower atStart cr (b # bs) =
     (if b \<noteq> sep then
        (if b = 13 then
           (if atStart then None
            else do { (cs, cr) \<leftarrow> chunk_scan sep tolower False True bs; Some (b # cs, cr) })
         else do {
           (cs, cr) \<leftarrow> chunk_scan sep tolower False cr bs;
           Some ((if tolower \<and> 65 \<le> b \<and> b \<le> 90 then b + 32 else b) # cs, cr) })
      else Some ([], cr))"

definition slice_cap :: "bytes \<Rightarrow> nat \<Rightarrow> nat \<Rightarrow> nat \<Rightarrow> bytes option" where
  "slice_cap raw cap a b = (if a \<le> b \<and> b \<le> cap then Some (take (b - a) (drop a raw)) else None)"

definition getBytesChunk :: "Handshake \<Rightarrow> byte \<Rightarrow> bool \<Rightarrow> (Handshake \<times> bytes) option" where
  "getBytesChunk h sep tolower =
     (case chunk_scan sep tolower True False (drop (hs_start h) (hs_raw h)) of
        None \<Rightarrow> Some (h\<lparr>hs_end := hs_start h\<rparr>, [])
      | Some (cs, cr) \<Rightarrow>
          let e = hs_start h + length cs;
              raw = take (hs_start h) (hs_raw h) @ cs @ drop e (hs_raw h)
          in do {
            chunk \<leftarrow> slice_cap raw (hs_cap h) (hs_start h) (if cr then e - 1 else e);
            Some (h\<lparr>hs_raw := raw, hs_end := e, hs_start := e + 1\<rparr>, chunk) })"

definition parseHTTPLine :: "Handshake \<Rightarrow> (Handshake \<times> hsError option) option" where
  "parseHTTPLine h = do {
     (h, chunk) \<leftarrow> getBytesChunk h 32 False;
     if chunk \<noteq> str ''GET'' then Some (h, Some ErrInvalidHTTPMethod)
     else do {
       (h, chunk) \<leftarrow> getBytesChunk h 32 False;
       if length chunk = 0 then Some (h, Some ErrBadRequest)
       else do {
         let h = h\<lparr>hs_URI := chunk\<rparr>;
         (h, chunk) \<leftarrow> getBytesChunk h 47 False;
         if chunk \<noteq> str ''HTTP'' then Some (h, Some ErrBadRequest)
         else do {
           (h, chunk) \<leftarrow> getBytesChunk h 10 False;
           if chunk \<noteq> str ''1.1'' then Some (h, Some ErrInvalidHTTPVersion)
           else Some (h, None) } } } }"

definition parseHeader :: "Handshake \<Rightarrow> (Handshake \<times> bytes \<times> bytes \<times> hsError option) option" where
  "parseHeader h = do {
     (h, k) \<leftarrow> getBytesChunk h 58 True;
     if length k = 0 then Some (h, [], [], None)
     else do {
       c \<leftarrow> idx (hs_raw h) (hs_start h);
       if c \<noteq> 32 then Some (h, [], [], Some ErrInvalidHeaderFormat)
       else do {
         let h = h\<lparr>hs_start := hs_start h + 1\<rparr>;
         (h, v) \<leftarrow> getBytesChunk h 10 False;
         if length v = 0 then Some (h, k, [], Some ErrInvalidHeaderFormat)
         else Some (h, k, v, None) } } }"

text \<open>
  The loop of \<open>headerValueContains\<close> with \<open>cur = hv[start:x]\<close>: a space moves \<open>start\<close> forward, so
  it drops the first byte of what has been collected, or itself.
\<close>

fun hvc_loop :: "bytes \<Rightarrow> bytes \<Rightarrow> bytes \<Rightarrow> bool" where
  "hvc_loop sub cur [] = (cur = sub)"
| "hvc_loop sub cur (b # bs) =
     (if b \<noteq> 44 then
        (if b = 32 then hvc_loop sub (drop 1 (cur @ [b])) bs
         else hvc_loop sub (cur @ [if 65 \<le> b \<and> b \<le> 90 then b + 32 else b]) bs)
      else if cur = sub then True
      else hvc_loop sub [] bs)"

definition headerValueContains :: "bytes \<Rightarrow> bytes \<Rightarrow> bool" where
  "headerValueContains hv sub = hvc_loop sub [] hv"

subsection \<open>parse\<close>

abbreviation flag_set :: "Handshake \<Rightarrow> u64 \<Rightarrow> bool" where
  "flag_set h f \<equiv> hs_headerFlags h AND f = f"

definition set_flag :: "Handshake \<Rightarrow> u64 \<Rightarrow> Handshake" where
  "set_flag h f = h\<lparr>hs_headerFlags := hs_headerFlags h OR f\<rparr>"

text \<open>The \<open>switch\<close> over the key of a header.\<close>

definition handle_header :: "Handshake \<Rightarrow> bytes \<Rightarrow> bytes \<Rightarrow> Handshake \<times> hsError option" where
  "handle_header h k v =
     (if k = str ''host'' then
        (if flag_set h hdrFlagHost then (h, Some ErrInvalidHeaderHost)
         else if length v = 0 then (h, Some ErrInvalidHeaderHost)
         else (set_flag (h\<lparr>hs_Host := v\<rparr>) hdrFlagHost, None))
      else if k = str ''connection'' then
        (if flag_set h hdrFlagConn then (h, Some ErrInvalidHeaderConn)
         else if \<not> headerValueContains v (str ''upgrade'') then (h, Some ErrInvalidHeaderConn)
         else (set_flag h hdrFlagConn, None))
      else if k = str ''upgrade'' then
        (if flag_set h hdrFlagUpgrade then (h, Some ErrInvalidHeaderUpgrade)
         else if \<not> headerValueContains v (str ''websocket'') then (h, Some ErrInvalidHeaderUpgrade)
         else (set_flag h hdrFlagUpgrade, None))
      else if k = str ''sec-websocket-key'' then
        (if flag_set h hdrFlagWSKey then (h, Some ErrInvalidHeaderWSKey)
         else if length v = 0 then (h, Some ErrInvalidHeaderWSKey)
         else let h = h\<lparr>hs_Key := v\<rparr>
              in if length (hs_Key h) \<noteq> 24 then (h, Some ErrInvalidHeaderWSKey)
                 else (set_flag h hdrFlagWSKey, None))
      else if k = str ''sec-websocket-version'' then
        (if flag_set h hdrFlagWSVersion then (h, Some ErrInvalidHeaderWSVersion)
         else if length v = 0 then (h, Some ErrInvalidHeaderWSVersion)
         else if v \<noteq> str ''13'' then (h, Some ErrUnsupportedWSVersion)
         else (set_flag h hdrFlagWSVersion, None))
      else if k = str ''sec-websocket-extensions'' then
        (if flag_set h hdrFlagWSExtensions then (h, Some ErrInvalidHeaderWSExtensions)
         else (set_flag (h\<lparr>hs_Extensions := v\<rparr>) hdrFlagWSExtensions, None))
      else if k = str ''sec-websocket-protocol'' then
        (if flag_set h hdrFlagWSProtocol then (h, Some ErrInvalidHeaderWSProtocol)
         else (set_flag (h\<lparr>hs_Protocol := v\<rparr>) hdrFlagWSProtocol, None))
      else
        (h\<lparr>hs_Header := Some (Header_Add (case hs_Header h of None \<Rightarrow> Map.empty | Some m \<Rightarrow> m) k v)\<rparr>, None))"

definition requiredFlags :: u64 where
  "requiredFlags = hdrFlagHost OR hdrFlagConn OR hdrFlagUpgrade OR hdrFlagWSKey OR hdrFlagWSVersion"

subsection \<open>Progress\<close>

lemma chunk_scan_length: "chunk_scan sep lo s cr bs = Some (cs, cr1) \<Longrightarrow> length cs \<le> length bs"
  by (induction bs arbitrary: s cr cs cr1) (auto simp: bind_Some_conv split: if_splits)

lemma getBytesChunk_fields:
  assumes "getBytesChunk h sep lo = Some (h1, chunk)"
  shows "length (hs_raw h1) = length (hs_raw h) \<and> hs_cap h1 = hs_cap h \<and> hs_start h \<le> hs_start h1 \<and>
    (chunk \<noteq> [] \<longrightarrow> hs_start h < hs_start h1) \<and> hs_headerFlags h1 = hs_headerFlags h \<and> hs_URI h1 = hs_URI h \<and>
    hs_Host h1 = hs_Host h \<and> hs_Key h1 = hs_Key h \<and> hs_Header h1 = hs_Header h \<and>
    hs_Extensions h1 = hs_Extensions h \<and> hs_Protocol h1 = hs_Protocol h"
proof (cases "chunk_scan sep lo True False (drop (hs_start h) (hs_raw h))")
  case None
  with assms show ?thesis by (auto simp: getBytesChunk_def)
next
  case (Some p)
  obtain cs cr where p: "p = (cs, cr)" by (cases p)
  have "length cs \<le> length (hs_raw h) - hs_start h" using chunk_scan_length [OF Some [unfolded p]] by simp
  then have "length (take (hs_start h) (hs_raw h) @ cs @ drop (hs_start h + length cs) (hs_raw h)) = length (hs_raw h)"
    by auto
  with Some assms p show ?thesis by (auto simp: getBytesChunk_def bind_Some_conv Let_def)
qed

lemma parseHeader_progress:
  assumes "parseHeader h = Some (h1, k, v, None)" "k \<noteq> []"
  shows "length (hs_raw h1) = length (hs_raw h) \<and> hs_start h < hs_start h1"
  using assms
  by (auto simp: parseHeader_def bind_Some_conv Let_def split: if_splits dest!: getBytesChunk_fields)

lemma handle_header_fields:
  "hs_raw (fst (handle_header h k v)) = hs_raw h" "hs_start (fst (handle_header h k v)) = hs_start h"
  "hs_cap (fst (handle_header h k v)) = hs_cap h" "hs_URI (fst (handle_header h k v)) = hs_URI h"
  unfolding handle_header_def set_flag_def Let_def if_distrib [of fst] if_distrib [of hs_raw]
    if_distrib [of hs_start] if_distrib [of hs_cap] if_distrib [of hs_URI]
  by (simp_all split del: if_split cong: if_cong)

text \<open>The loop over the headers.\<close>

function parse_loop :: "Handshake \<Rightarrow> (Handshake \<times> hsError option) option" where
  "parse_loop h =
     (if hs_start h < length (hs_raw h) then
        (case parseHeader h of
           None \<Rightarrow> None
         | Some (h1, k, v, Some e) \<Rightarrow> Some (h1, Some e)
         | Some (h1, k, v, None) \<Rightarrow>
             if length k = 0 then Some (h1, None)
             else if snd (handle_header h1 k v) \<noteq> None then Some (handle_header h1 k v)
             else parse_loop (fst (handle_header h1 k v)))
      else Some (h, None))"
  by pat_completeness auto
termination
proof (relation "measure (\<lambda>h. length (hs_raw h) - hs_start h)", goal_cases)
  case (2 h p h1 p1 k p2 v e)
  then have "parseHeader h = Some (h1, k, v, None)" "k \<noteq> []" by auto
  from parseHeader_progress [OF this] 2(1) show ?case by (simp add: handle_header_fields diff_less_mono2)
qed simp

declare parse_loop.simps [simp del]

definition parse :: "Handshake \<Rightarrow> bytes \<Rightarrow> nat \<Rightarrow> (Handshake \<times> hsError option) option" where
  "parse h req cap =
     (if length req < 144 then Some (h, Some ErrRequestLength)
      else do {
        (h, err) \<leftarrow> parseHTTPLine (hs_reset h req cap);
        if err \<noteq> None then Some (h, err)
        else if int (length (hs_raw h)) - int (hs_start h) < 128 then Some (h, Some ErrRequestHeaderLength)
        else do {
          (h, err) \<leftarrow> parse_loop h;
          if err \<noteq> None then Some (h, err)
          else if hs_headerFlags h AND requiredFlags \<noteq> requiredFlags then Some (h, Some ErrMissingRequiredHeader)
          else Some (h, None) } })"

subsection \<open>The client's side and the server's answer\<close>

definition CRLF :: bytes where "CRLF = [13, 10]"

text \<open>\<open>http.Header.Write\<close> on the sorted pairs of the header; values are put on one line and trimmed.\<close>

definition header_value :: "bytes \<Rightarrow> bytes" where
  "header_value v =
     (let sp = (\<lambda>b. b \<in> {32, 9, 10, 13})
      in rev (dropWhile sp (rev (dropWhile sp (map (\<lambda>b. if b = 10 \<or> b = 13 then 32 else b) v)))))"

definition Header_Write :: "(bytes \<times> bytes) list \<Rightarrow> bytes" where
  "Header_Write kvs = concat (map (\<lambda>(k, v). k @ [58, 32] @ header_value v @ CRLF) kvs)"

text \<open>The headers that \<open>init\<close> deletes.\<close>

definition client_init_Headers :: "(bytes \<times> bytes) list \<Rightarrow> (bytes \<times> bytes) list" where
  "client_init_Headers kvs =
     filter (\<lambda>(k, v). k \<notin> set (map CanonicalHeaderKey
       [str ''host'', str ''upgrade'', str ''origin'', str ''sec-websocket-key'', str ''sec-websocket-version''])) kvs"

text \<open>The target of the request, from the escaped path and the raw query of the endpoint.\<close>

definition client_path :: "bytes \<Rightarrow> bytes \<Rightarrow> bytes" where
  "client_path escapedPath rawQuery =
     (let path = (if length escapedPath = 0 then str ''/'' else escapedPath)
      in if length rawQuery > 0 then path @ str ''?'' @ rawQuery else path)"

definition handshake_request :: "bytes \<Rightarrow> bytes \<Rightarrow> bytes \<Rightarrow> (bytes \<times> bytes) list \<Rightarrow> bytes" where
  "handshake_request path host key headers =
     str ''GET '' @ path @ str '' HTTP/1.1'' @ CRLF @
     str ''Host: '' @ host @ CRLF @
     str ''Upgrade: websocket'' @ CRLF @
     str ''Connection: Upgrade'' @ CRLF @
     str ''Sec-Websocket-Key: '' @ key @ CRLF @
     str ''Sec-Websocket-Version: 13'' @ CRLF @
     Header_Write headers @ CRLF"

datatype clientHsError = ErrHttp httpError | ErrStatus bytes | ErrInvalidAccept

definition handleHandshake :: "bytes \<Rightarrow> bytes \<Rightarrow> (clientHsError + bytes) option" where
  "handleHandshake keyAccept resp = do {
     (httpRes, rest, err) \<leftarrow> ParseResponseHeader resp;
     case err of
       Some e \<Rightarrow> Some (Inl (ErrHttp e))
     | None \<Rightarrow> do {
         httpRes \<leftarrow> httpRes;
         if StatusCode httpRes \<noteq> 101 then Some (Inl (ErrStatus (Status httpRes)))
         else if keyAccept \<noteq> Header_Get (res_Header httpRes) (str ''sec-websocket-accept'') then Some (Inl ErrInvalidAccept)
         else Some (Inr rest) } }"

definition resUpgradeOK :: bytes where
  "resUpgradeOK =
     str ''HTTP/1.1 101 Switching Protocols'' @ CRLF @ str ''Upgrade: websocket'' @ CRLF @
     str ''Connection: Upgrade'' @ CRLF @ str ''Sec-Websocket-Accept: ''"

definition upgrade_response :: "bytes \<Rightarrow> bytes" where
  "upgrade_response key = resUpgradeOK @ generateHandshakeAccept key @ CRLF @ CRLF"

subsection \<open>Reading the lines of a request\<close>

definition at :: "Handshake \<Rightarrow> bytes \<Rightarrow> bool" where
  "at h bs \<longleftrightarrow> drop (hs_start h) (hs_raw h) = bs \<and> hs_start h \<le> length (hs_raw h) \<and> length (hs_raw h) \<le> hs_cap h"

definition moved :: "Handshake \<Rightarrow> Handshake \<Rightarrow> bool" where
  "moved h h1 \<longleftrightarrow> h1 = h\<lparr>hs_raw := hs_raw h1, hs_end := hs_end h1, hs_start := hs_start h1\<rparr> \<and> length (hs_raw h1) = length (hs_raw h)"

lemma moved_refl: "moved h h"
  by (cases h) (simp add: moved_def)

lemma moved_trans: "moved h h1 \<Longrightarrow> moved h1 h2 \<Longrightarrow> moved h h2"
  by (cases h; cases h1; cases h2) (simp add: moved_def)

definition lower :: "byte \<Rightarrow> byte" where
  "lower b = (if 65 \<le> b \<and> b \<le> 90 then b + 32 else b)"

lemma chunk_scan_plain:
  "sep \<notin> set c \<Longrightarrow> 13 \<notin> set c \<Longrightarrow>
   chunk_scan sep lo s cr (c @ sep # rest) = Some (map (if lo then lower else id) c, cr)"
  by (induction c arbitrary: s) (auto simp: lower_def)

lemma chunk_scan_line:
  assumes "10 \<notin> set c" "13 \<notin> set c" "c \<noteq> [] \<or> \<not> s"
  shows "chunk_scan 10 False s cr (c @ 13 # 10 # rest) = Some (c @ [13], True)"
  using assms by (induction c arbitrary: s) auto

lemma getBytesChunk_scan:
  assumes "at h (c @ sep # rest)" "chunk_scan sep lo True False (c @ sep # rest) = Some (cs, cr)" "length cs = length c"
    "cr \<longrightarrow> c \<noteq> []"
  shows "\<exists>h1. getBytesChunk h sep lo = Some (h1, if cr then butlast cs else cs) \<and> at h1 rest \<and> moved h h1"
proof -
  obtain pre where raw: "hs_raw h = pre @ c @ sep # rest" and st: "hs_start h = length pre"
    using assms(1) that [of "take (hs_start h) (hs_raw h)"]
    by (metis append_take_drop_id at_def length_take min.absorb2)
  define h1 where "h1 = h\<lparr>hs_raw := pre @ cs @ sep # rest, hs_end := length pre + length c, hs_start := length pre + length c + 1\<rparr>"
  have cap: "length pre + length c + 1 + length rest \<le> hs_cap h" using assms(1) raw by (simp add: at_def)
  have "cr \<Longrightarrow> length pre \<le> length pre + length c - Suc 0" using assms(4) by (cases c) auto
  then have "getBytesChunk h sep lo = Some (h1, if cr then butlast cs else cs)"
    using assms(2-4) cap by (auto simp: getBytesChunk_def raw st slice_cap_def h1_def Let_def butlast_conv_take)
  moreover have "at h1 rest" using cap assms(3) by (simp add: at_def h1_def)
  moreover have "moved h h1" using raw assms(3) by (simp add: moved_def h1_def)
  ultimately show ?thesis by blast
qed

lemma getBytesChunk_plain:
  assumes "at h (c @ sep # rest)" "sep \<notin> set c" "13 \<notin> set c"
  shows "\<exists>h1. getBytesChunk h sep lo = Some (h1, map (if lo then lower else id) c) \<and> at h1 rest \<and> moved h h1"
  using getBytesChunk_scan [OF assms(1) chunk_scan_plain [OF assms(2,3)]] by simp

lemma getBytesChunk_line:
  assumes "at h (c @ 13 # 10 # rest)" "10 \<notin> set c" "13 \<notin> set c" "c \<noteq> []"
  shows "\<exists>h1. getBytesChunk h 10 False = Some (h1, c) \<and> at h1 rest \<and> moved h h1"
  using getBytesChunk_scan [of h "c @ [13]" 10 rest False "c @ [13]" True] assms
    chunk_scan_line [of c True False rest] by simp

text \<open>A header line that the parser accepts.\<close>

definition good_line :: "bytes \<times> bytes \<Rightarrow> bool" where
  "good_line = (\<lambda>(k, v). k \<noteq> [] \<and> 58 \<notin> set k \<and> 13 \<notin> set k \<and> v \<noteq> [] \<and> 10 \<notin> set v \<and> 13 \<notin> set v)"

lemma at_skip: "at h (b # rest) \<Longrightarrow> at (h\<lparr>hs_start := hs_start h + 1\<rparr>) rest"
  unfolding at_def by (auto simp: Suc_le_eq) (metis drop_Suc list.sel(3) tl_drop, metis drop_all linorder_not_less list.distinct(1))

lemma parseHeader_line:
  assumes "at h (header_line (k, v) @ rest)" "good_line (k, v)"
  shows "\<exists>h1. parseHeader h = Some (h1, map lower k, v, None) \<and> at h1 rest \<and> moved h h1"
proof -
  have "at h (k @ 58 # 32 # v @ 13 # 10 # rest)" using assms(1) by (simp add: header_line_def)
  then obtain h1 where h1: "getBytesChunk h 58 True = Some (h1, map lower k)" "at h1 (32 # v @ 13 # 10 # rest)" "moved h h1"
    using getBytesChunk_plain [of h k 58 "32 # v @ 13 # 10 # rest" True] assms(2) by (auto simp: good_line_def)
  define h2 where "h2 = h1\<lparr>hs_start := hs_start h1 + 1\<rparr>"
  have "at h2 (v @ 13 # 10 # rest)" unfolding h2_def by (rule at_skip [OF h1(2)])
  then obtain h3 where h3: "getBytesChunk h2 10 False = Some (h3, v)" "at h3 rest" "moved h2 h3"
    using getBytesChunk_line [of h2 v rest] assms(2) by (auto simp: good_line_def)
  have "idx (hs_raw h1) (hs_start h1) = Some 32"
    using h1(2) unfolding at_def by (auto simp: nth_via_drop) (metis drop_all linorder_not_less list.distinct(1))
  then have "parseHeader h = Some (h3, map lower k, v, None)"
    using h1 h3 assms(2) by (simp add: parseHeader_def h2_def good_line_def idx_in Let_def)
  moreover have "moved h h3" using h1(3) h3(3) by (cases h; cases h1; cases h3) (simp add: moved_def h2_def)
  ultimately show ?thesis using h3(2) by blast
qed

lemma parse_loop_line:
  assumes "at h (header_line (k, v) @ rest)" "good_line (k, v)"
  shows "\<exists>h1. at h1 rest \<and> moved h h1 \<and>
    parse_loop h = (if snd (handle_header h1 (map lower k) v) \<noteq> None then Some (handle_header h1 (map lower k) v)
      else parse_loop (fst (handle_header h1 (map lower k) v)))"
proof -
  obtain h1 where h1: "parseHeader h = Some (h1, map lower k, v, None)" "at h1 rest" "moved h h1"
    using parseHeader_line [OF assms] by blast
  have "hs_start h < length (hs_raw h)"
    using assms(1) unfolding at_def by (cases "hs_start h < length (hs_raw h)") (auto simp: header_line_def)
  with h1 assms(2) show ?thesis
    by (intro exI [of _ h1]) (simp add: parse_loop.simps [of h] good_line_def del: not_None_eq)
qed

lemma parse_loop_end:
  assumes "at h (13 # rest)"
  shows "\<exists>h1. parse_loop h = Some (h1, None) \<and> moved h h1"
proof -
  have d: "drop (hs_start h) (hs_raw h) = 13 # rest" using assms by (simp add: at_def)
  then have "hs_start h < length (hs_raw h)" by (cases "hs_start h < length (hs_raw h)") auto
  moreover have "getBytesChunk h 58 True = Some (h\<lparr>hs_end := hs_start h\<rparr>, [])" using d by (simp add: getBytesChunk_def)
  ultimately show ?thesis
    by (intro exI [of _ "h\<lparr>hs_end := hs_start h\<rparr>"]) (simp add: parse_loop.simps [of h] parseHeader_def moved_def)
qed

definition special_keys :: "bytes list" where
  "special_keys = [str ''host'', str ''connection'', str ''upgrade'', str ''sec-websocket-key'',
     str ''sec-websocket-version'', str ''sec-websocket-extensions'', str ''sec-websocket-protocol'']"

text \<open>An additional header: the parser keeps it and nothing else.\<close>

definition extra_header :: "bytes \<times> bytes \<Rightarrow> bool" where
  "extra_header = (\<lambda>(k, v). good_line (k, header_value v) \<and> map lower k \<notin> set special_keys)"

abbreviation same_results :: "Handshake \<Rightarrow> Handshake \<Rightarrow> bool" where
  "same_results h h1 \<equiv> hs_headerFlags h1 = hs_headerFlags h \<and> hs_URI h1 = hs_URI h \<and> hs_Host h1 = hs_Host h \<and>
     hs_Key h1 = hs_Key h"

lemma moved_results: "moved h h1 \<Longrightarrow> same_results h h1"
  by (cases h; cases h1) (simp add: moved_def)

lemma Header_Write_Cons: "Header_Write ((k, v) # kvs) = header_line (k, header_value v) @ Header_Write kvs"
  by (simp add: Header_Write_def header_line_def CRLF_def)

lemma parse_loop_extra:
  assumes "at h (Header_Write kvs @ CRLF)" "list_all extra_header kvs"
  shows "\<exists>h1. parse_loop h = Some (h1, None) \<and> same_results h h1"
  using assms
proof (induction kvs arbitrary: h)
  case Nil
  then have "at h (13 # [10])" by (simp add: Header_Write_def CRLF_def)
  from parse_loop_end [OF this] show ?case by (auto dest: moved_results)
next
  case (Cons kv kvs)
  obtain k v where kv: "kv = (k, v)" by (cases kv)
  from Cons.prems have e: "good_line (k, header_value v)" "map lower k \<notin> set special_keys"
    by (simp_all add: kv extra_header_def)
  have "at h (header_line (k, header_value v) @ (Header_Write kvs @ CRLF))"
    using Cons.prems(1) by (simp add: kv Header_Write_Cons)
  from parse_loop_line [OF this e(1)] obtain h1 where h1: "at h1 (Header_Write kvs @ CRLF)" "moved h h1"
    "parse_loop h = (if snd (handle_header h1 (map lower k) (header_value v)) \<noteq> None
       then Some (handle_header h1 (map lower k) (header_value v))
       else parse_loop (fst (handle_header h1 (map lower k) (header_value v))))" by blast
  have hh: "snd (handle_header h1 (map lower k) (header_value v)) = None"
    "same_results h1 (fst (handle_header h1 (map lower k) (header_value v)))"
    using e(2) by (simp_all add: handle_header_def special_keys_def)
  have "at (fst (handle_header h1 (map lower k) (header_value v))) (Header_Write kvs @ CRLF)"
    using h1(1) by (simp add: at_def handle_header_fields)
  from Cons.IH [OF this] Cons.prems(2) h1(2,3) hh show ?case by (auto dest: moved_results)
qed

lemma parseHTTPLine_request:
  assumes "at h (str ''GET '' @ path @ str '' HTTP/1.1'' @ CRLF @ rest)" "path \<noteq> []" "32 \<notin> set path" "13 \<notin> set path"
  shows "\<exists>h1. parseHTTPLine h = Some (h1, None) \<and> at h1 rest \<and> hs_URI h1 = path \<and> length (hs_raw h1) = length (hs_raw h) \<and>
    hs_headerFlags h1 = hs_headerFlags h"
proof -
  have "at h (str ''GET'' @ 32 # path @ 32 # str ''HTTP'' @ 47 # str ''1.1'' @ 13 # 10 # rest)"
    using assms(1) by (simp add: str_def CRLF_def)
  from getBytesChunk_plain [OF this, of False] obtain h1 where
    h1: "getBytesChunk h 32 False = Some (h1, str ''GET'')" "at h1 (path @ 32 # str ''HTTP'' @ 47 # str ''1.1'' @ 13 # 10 # rest)"
      "moved h h1" by (auto simp: str_def)
  from getBytesChunk_plain [OF h1(2) assms(3,4), of False] obtain h2 where
    h2: "getBytesChunk h1 32 False = Some (h2, path)" "at h2 (str ''HTTP'' @ 47 # str ''1.1'' @ 13 # 10 # rest)" "moved h1 h2"
    by auto
  define h3 where "h3 = h2\<lparr>hs_URI := path\<rparr>"
  have "at h3 (str ''HTTP'' @ 47 # str ''1.1'' @ 13 # 10 # rest)" using h2(2) by (simp add: at_def h3_def)
  from getBytesChunk_plain [OF this, of False] obtain h4 where
    h4: "getBytesChunk h3 47 False = Some (h4, str ''HTTP'')" "at h4 (str ''1.1'' @ 13 # 10 # rest)" "moved h3 h4"
    by (auto simp: str_def)
  from getBytesChunk_line [OF h4(2)] obtain h5 where
    h5: "getBytesChunk h4 10 False = Some (h5, str ''1.1'')" "at h5 rest" "moved h4 h5" by (auto simp: str_def)
  have "parseHTTPLine h = Some (h5, None)"
    using h1(1) h2(1) h4(1) h5(1) assms(2) by (simp add: parseHTTPLine_def h3_def [symmetric])
  moreover have "hs_URI h5 = path \<and> length (hs_raw h5) = length (hs_raw h) \<and> hs_headerFlags h5 = hs_headerFlags h"
    using moved_results [OF h1(3)] moved_results [OF h2(3)] moved_results [OF h4(3)] moved_results [OF h5(3)]
      h1(3) h2(3) h4(3) h5(3)
    unfolding h3_def moved_def by simp
  ultimately show ?thesis using h5(2) by blast
qed

text \<open>One of the required lines: \<open>f\<close> is what its handling does to the handshake.\<close>

lemma parse_loop_required:
  assumes "at h (header_line (k, v) @ rest)" "good_line (k, v)" "hs_headerFlags h = fl"
    "\<And>h1. hs_headerFlags h1 = fl \<Longrightarrow> handle_header h1 (map lower k) v = (f h1, None)"
  obtains h0 where "same_results h h0" "parse_loop h = parse_loop (f h0)" "at (f h0) rest"
proof -
  obtain h1 where h1: "at h1 rest" "moved h h1"
    "parse_loop h = (if snd (handle_header h1 (map lower k) v) \<noteq> None then Some (handle_header h1 (map lower k) v)
      else parse_loop (fst (handle_header h1 (map lower k) v)))" using parse_loop_line [OF assms(1,2)] by blast
  have hh: "handle_header h1 (map lower k) v = (f h1, None)" using assms(3,4) moved_results [OF h1(2)] by simp
  have "at (f h1) rest"
    using h1(1) handle_header_fields [of h1 "map lower k" v] by (simp add: at_def hh)
  with h1(3) hh moved_results [OF h1(2)] show ?thesis by (intro that [of h1]) simp_all
qed

lemma hvc_upgrade: "headerValueContains (str ''Upgrade'') (str ''upgrade'')"
  "headerValueContains (str ''websocket'') (str ''websocket'')"
  by (simp_all add: headerValueContains_def str_def)

lemma header_keys:
  "map lower (str ''Host'') = str ''host''" "map lower (str ''Upgrade'') = str ''upgrade''"
  "map lower (str ''Connection'') = str ''connection''"
  "map lower (str ''Sec-Websocket-Key'') = str ''sec-websocket-key''"
  "map lower (str ''Sec-Websocket-Version'') = str ''sec-websocket-version''"
  by (simp_all add: str_def lower_def)

lemma handle_required:
  "v \<noteq> [] \<Longrightarrow> \<not> flag_set h hdrFlagHost \<Longrightarrow>
     handle_header h (str ''host'') v = (set_flag (h\<lparr>hs_Host := v\<rparr>) hdrFlagHost, None)"
  "\<not> flag_set h hdrFlagUpgrade \<Longrightarrow>
     handle_header h (str ''upgrade'') (str ''websocket'') = (set_flag h hdrFlagUpgrade, None)"
  "\<not> flag_set h hdrFlagConn \<Longrightarrow>
     handle_header h (str ''connection'') (str ''Upgrade'') = (set_flag h hdrFlagConn, None)"
  "length v = 24 \<Longrightarrow> \<not> flag_set h hdrFlagWSKey \<Longrightarrow>
     handle_header h (str ''sec-websocket-key'') v = (set_flag (h\<lparr>hs_Key := v\<rparr>) hdrFlagWSKey, None)"
  "\<not> flag_set h hdrFlagWSVersion \<Longrightarrow>
     handle_header h (str ''sec-websocket-version'') (str ''13'') = (set_flag h hdrFlagWSVersion, None)"
proof -
  have ne: "str ''upgrade'' \<noteq> str ''host''" "str ''upgrade'' \<noteq> str ''connection''" "str ''connection'' \<noteq> str ''host''"
    "str ''sec-websocket-key'' \<noteq> str ''host''" "str ''sec-websocket-key'' \<noteq> str ''connection''"
    "str ''sec-websocket-key'' \<noteq> str ''upgrade''" "str ''sec-websocket-version'' \<noteq> str ''host''"
    "str ''sec-websocket-version'' \<noteq> str ''connection''" "str ''sec-websocket-version'' \<noteq> str ''upgrade''"
    "str ''sec-websocket-version'' \<noteq> str ''sec-websocket-key''" "str ''13'' \<noteq> []"
    by (simp_all add: str_def)
  show "v \<noteq> [] \<Longrightarrow> \<not> flag_set h hdrFlagHost \<Longrightarrow>
     handle_header h (str ''host'') v = (set_flag (h\<lparr>hs_Host := v\<rparr>) hdrFlagHost, None)"
  "\<not> flag_set h hdrFlagUpgrade \<Longrightarrow>
     handle_header h (str ''upgrade'') (str ''websocket'') = (set_flag h hdrFlagUpgrade, None)"
  "\<not> flag_set h hdrFlagConn \<Longrightarrow>
     handle_header h (str ''connection'') (str ''Upgrade'') = (set_flag h hdrFlagConn, None)"
  "length v = 24 \<Longrightarrow> \<not> flag_set h hdrFlagWSKey \<Longrightarrow>
     handle_header h (str ''sec-websocket-key'') v = (set_flag (h\<lparr>hs_Key := v\<rparr>) hdrFlagWSKey, None)"
  "\<not> flag_set h hdrFlagWSVersion \<Longrightarrow>
     handle_header h (str ''sec-websocket-version'') (str ''13'') = (set_flag h hdrFlagWSVersion, None)"
    using ne hvc_upgrade by (auto simp: handle_header_def)
qed

lemma parse_loop_request:
  assumes "at h (header_line (str ''Host'', host) @ header_line (str ''Upgrade'', str ''websocket'') @
      header_line (str ''Connection'', str ''Upgrade'') @ header_line (str ''Sec-Websocket-Key'', key) @
      header_line (str ''Sec-Websocket-Version'', str ''13'') @ rest)"
    "hs_headerFlags h = 0" "good_line (str ''Host'', host)" "good_line (str ''Sec-Websocket-Key'', key)" "length key = 24"
  shows "\<exists>h1. parse_loop h = parse_loop h1 \<and> at h1 rest \<and> hs_URI h1 = hs_URI h \<and> hs_Host h1 = host \<and> hs_Key h1 = key \<and>
    hs_headerFlags h1 = 31"
proof -
  have g: "good_line (str ''Upgrade'', str ''websocket'')" "good_line (str ''Connection'', str ''Upgrade'')"
    "good_line (str ''Sec-Websocket-Version'', str ''13'')" by (simp_all add: good_line_def str_def)
  have hv: "host \<noteq> []" using assms(3) by (simp add: good_line_def)
  obtain h1 where h1: "same_results h h1" "parse_loop h = parse_loop (set_flag (h1\<lparr>hs_Host := host\<rparr>) 1)"
    and at1: "at (set_flag (h1\<lparr>hs_Host := host\<rparr>) 1) (header_line (str ''Upgrade'', str ''websocket'') @
      header_line (str ''Connection'', str ''Upgrade'') @ header_line (str ''Sec-Websocket-Key'', key) @
      header_line (str ''Sec-Websocket-Version'', str ''13'') @ rest)"
    by (rule parse_loop_required [OF assms(1,3,2), of "\<lambda>h. set_flag (h\<lparr>hs_Host := host\<rparr>) 1"])
      (use handle_required(1) [OF hv] in \<open>simp_all add: header_keys hdr_flags\<close>)
  have f1: "hs_headerFlags (set_flag (h1\<lparr>hs_Host := host\<rparr>) 1) = 1" using h1 assms(2) by (simp add: set_flag_def)
  obtain h2 where h2: "same_results (set_flag (h1\<lparr>hs_Host := host\<rparr>) 1) h2"
      "parse_loop (set_flag (h1\<lparr>hs_Host := host\<rparr>) 1) = parse_loop (set_flag h2 4)"
    and at2: "at (set_flag h2 4) (header_line (str ''Connection'', str ''Upgrade'') @ header_line (str ''Sec-Websocket-Key'', key) @
      header_line (str ''Sec-Websocket-Version'', str ''13'') @ rest)"
    by (rule parse_loop_required [OF at1 g(1) f1, of "\<lambda>h. set_flag h 4"])
      (use handle_required(2) in \<open>simp_all add: header_keys hdr_flags\<close>)
  have f2: "hs_headerFlags (set_flag h2 4) = 5" using h2 f1 by (simp add: set_flag_def)
  obtain h3 where h3: "same_results (set_flag h2 4) h3" "parse_loop (set_flag h2 4) = parse_loop (set_flag h3 2)"
    and at3: "at (set_flag h3 2) (header_line (str ''Sec-Websocket-Key'', key) @
      header_line (str ''Sec-Websocket-Version'', str ''13'') @ rest)"
    by (rule parse_loop_required [OF at2 g(2) f2, of "\<lambda>h. set_flag h 2"])
      (use handle_required(3) in \<open>simp_all add: header_keys hdr_flags\<close>)
  have f3: "hs_headerFlags (set_flag h3 2) = 7" using h3 f2 by (simp add: set_flag_def)
  obtain h4 where h4: "same_results (set_flag h3 2) h4"
      "parse_loop (set_flag h3 2) = parse_loop (set_flag (h4\<lparr>hs_Key := key\<rparr>) 8)"
    and at4: "at (set_flag (h4\<lparr>hs_Key := key\<rparr>) 8)
      (header_line (str ''Sec-Websocket-Version'', str ''13'') @ rest)"
    by (rule parse_loop_required [OF at3 assms(4) f3, of "\<lambda>h. set_flag (h\<lparr>hs_Key := key\<rparr>) 8"])
      (use handle_required(4) [OF assms(5)] in \<open>simp_all add: header_keys hdr_flags\<close>)
  have f4: "hs_headerFlags (set_flag (h4\<lparr>hs_Key := key\<rparr>) 8) = 15" using h4 f3 by (simp add: set_flag_def)
  obtain h5 where h5: "same_results (set_flag (h4\<lparr>hs_Key := key\<rparr>) 8) h5"
      "parse_loop (set_flag (h4\<lparr>hs_Key := key\<rparr>) 8) = parse_loop (set_flag h5 16)"
    and at5: "at (set_flag h5 16) (rest)"
    by (rule parse_loop_required [OF at4 g(3) f4, of "\<lambda>h. set_flag h 16"])
      (use handle_required(5) in \<open>simp_all add: header_keys hdr_flags\<close>)
  have f5: "hs_headerFlags (set_flag h5 16) = 31" using h5 f4 by (simp add: set_flag_def)
  with h1 h2 h3 h4 h5 at5 show ?thesis by (intro exI [of _ "set_flag h5 16"]) (simp add: set_flag_def)
qed

subsection \<open>What an accepted request has\<close>

lemma bit_flag: "m < 64 \<Longrightarrow> bit (push_bit m 1 :: u64) n \<longleftrightarrow> n = m"
  by (auto simp: bit_simps)

lemma flag_bit:
  assumes "n < 64"
  shows "(x :: u64) AND push_bit n 1 = push_bit n 1 \<longleftrightarrow> bit x n"
proof
  assume "x AND push_bit n 1 = push_bit n 1"
  from arg_cong [OF this, of "\<lambda>w. bit w n"] show "bit x n" using bit_flag [OF assms, of n] by (simp add: bit_and_iff)
next
  assume "bit x n"
  then show "x AND push_bit n 1 = push_bit n 1"
    by (intro bit_word_eqI) (auto simp: bit_and_iff bit_flag [OF assms] simp del: push_bit_of_1)
qed

lemma or_flag: "m < 64 \<Longrightarrow> bit ((x :: u64) OR push_bit m 1) n \<longleftrightarrow> bit x n \<or> n = m"
  by (simp only: bit_or_iff bit_flag)

lemma flag_bits:
  "x AND hdrFlagHost = hdrFlagHost \<longleftrightarrow> bit x 0" "x AND hdrFlagConn = hdrFlagConn \<longleftrightarrow> bit x 1"
  "x AND hdrFlagUpgrade = hdrFlagUpgrade \<longleftrightarrow> bit x 2" "x AND hdrFlagWSKey = hdrFlagWSKey \<longleftrightarrow> bit x 3"
  "x AND hdrFlagWSVersion = hdrFlagWSVersion \<longleftrightarrow> bit x 4"
  using flag_bit [of 0 x] flag_bit [of 1 x] flag_bit [of 2 x] flag_bit [of 3 x] flag_bit [of 4 x]
  by (simp_all add: hdr_flags push_bit_eq_mult)

lemma flag_or:
  "bit (x OR hdrFlagHost) n \<longleftrightarrow> bit x n \<or> n = 0" "bit (x OR hdrFlagConn) n \<longleftrightarrow> bit x n \<or> n = 1"
  "bit (x OR hdrFlagUpgrade) n \<longleftrightarrow> bit x n \<or> n = 2" "bit (x OR hdrFlagWSKey) n \<longleftrightarrow> bit x n \<or> n = 3"
  "bit (x OR hdrFlagWSVersion) n \<longleftrightarrow> bit x n \<or> n = 4" "bit (x OR hdrFlagWSExtensions) n \<longleftrightarrow> bit x n \<or> n = 5"
  "bit (x OR hdrFlagWSProtocol) n \<longleftrightarrow> bit x n \<or> n = 6"
  using or_flag [of 0 x n] or_flag [of 1 x n] or_flag [of 2 x n] or_flag [of 3 x n] or_flag [of 4 x n]
    or_flag [of 5 x n] or_flag [of 6 x n]
  by (simp_all add: hdr_flags push_bit_eq_mult)

text \<open>
  The bytes of a chunk as the parser takes them: when there is a carriage return in it, the last byte
  is left out. A header of the request is a line \<open>key: value\<close>, behind a line end, with the key in any
  case; the last line may end with the request.
\<close>

definition line_part :: "bytes \<Rightarrow> bytes" where
  "line_part raw = (if 13 \<in> set raw then butlast raw else raw)"

definition header_in :: "bytes \<Rightarrow> bytes \<Rightarrow> bytes \<Rightarrow> bool" where
  "header_in req k v \<longleftrightarrow> (\<exists>kraw vraw. sublist ([10] @ kraw @ [58, 32] @ vraw @ [10]) (req @ [10]) \<and> 58 \<notin> set kraw \<and> 10 \<notin> set vraw \<and>
     map lower (line_part kraw) = k \<and> line_part vraw = v)"

text \<open>A value with a token among its parts between commas, in any case and behind any spaces.\<close>

definition has_token :: "bytes \<Rightarrow> bytes \<Rightarrow> bool" where
  "has_token v t \<longleftrightarrow> (\<exists>n raw. replicate n 32 @ raw \<in> set (split_byte 44 v) \<and> map lower raw = t)"

definition spaces_in :: "bytes \<Rightarrow> nat" where
  "spaces_in x = length (filter (\<lambda>b. b = 32) x)"

lemma lower_32 [simp]: "lower b = 32 \<longleftrightarrow> b = 32"
proof -
  have "b + 32 \<noteq> 32" if "65 \<le> b" for b :: byte using that by auto
  then show ?thesis by (auto simp: lower_def)
qed

lemma lower_space: "lower 32 = 32"
  by (simp add: lower_def)

lemma hvc_part:
  assumes "hvc_loop sub cur bs" "cur = drop (spaces_in p) (map lower p)" "44 \<notin> set p"
  shows "\<exists>x \<in> set (split_byte 44 (p @ bs)). drop (spaces_in x) (map lower x) = sub"
  using assms
proof (induction bs arbitrary: cur p)
  case Nil
  then show ?case by (simp add: split_byte_none)
next
  case (Cons b bs)
  have le: "spaces_in p \<le> length (map lower p)" by (simp add: spaces_in_def)
  consider "b = 44" | "b = 32" | "b \<noteq> 44" "b \<noteq> 32" by blast
  then show ?case
  proof cases
    case 1
    then show ?thesis using Cons.IH [of "[]" "[]"] Cons.prems
      by (cases "cur = sub") (auto simp: split_byte_append spaces_in_def)
  next
    case 2
    have "drop 1 (cur @ [b]) = drop (spaces_in (p @ [b])) (map lower (p @ [b]))"
      using 2 Cons.prems(2) le by (simp add: spaces_in_def drop_Suc tl_drop [symmetric] lower_space)
    from Cons.IH [OF _ this] Cons.prems 2 show ?thesis by simp
  next
    case 3
    have "cur @ [lower b] = drop (spaces_in (p @ [b])) (map lower (p @ [b]))"
      using 3 Cons.prems(2) le by (simp add: spaces_in_def)
    from Cons.IH [OF _ this] Cons.prems 3 show ?thesis by (simp add: lower_def)
  qed
qed

lemma leading_spaces:
  assumes "32 \<notin> set (drop (spaces_in x) x)"
  shows "x = replicate (spaces_in x) 32 @ drop (spaces_in x) x"
proof -
  let ?n = "spaces_in x"
  have n: "?n \<le> length x" by (simp add: spaces_in_def)
  have "filter (\<lambda>b. b = 32) (drop ?n x) = []" using assms by (auto simp: filter_empty_conv)
  moreover have "filter (\<lambda>b. b = 32) x = filter (\<lambda>b. b = 32) (take ?n x) @ filter (\<lambda>b. b = 32) (drop ?n x)"
    by (metis append_take_drop_id filter_append)
  ultimately have "length (filter (\<lambda>b. b = 32) (take ?n x)) = ?n" by (metis append_Nil2 spaces_in_def)
  then have "length (filter (\<lambda>b. b = 32) (take ?n x)) = length (take ?n x)" using n by simp
  then have "b = 32" if "b \<in> set (take ?n x)" for b
    using length_filter_less [OF that, of "\<lambda>b. b = 32"] by (cases "b = 32") simp_all
  then have "take ?n x = replicate ?n 32" using n by (metis length_take min.absorb2 replicate_length_same)
  then show ?thesis by (metis append_take_drop_id)
qed

lemma headerValueContains_token:
  assumes "headerValueContains v sub" "32 \<notin> set sub"
  shows "has_token v sub"
proof -
  obtain x where x: "x \<in> set (split_byte 44 v)" "drop (spaces_in x) (map lower x) = sub"
    using hvc_part [of sub "[]" v "[]"] assms(1) by (auto simp: headerValueContains_def spaces_in_def)
  then have "map lower (drop (spaces_in x) x) = sub" by (simp add: drop_map)
  moreover from this have "32 \<notin> set (drop (spaces_in x) x)" using assms(2) by force
  ultimately show ?thesis using leading_spaces x(1) unfolding has_token_def by metis
qed

text \<open>Where the parser is in the request: what is behind its position is still as it came.\<close>

definition reading :: "bytes \<Rightarrow> Handshake \<Rightarrow> bool" where
  "reading req h \<longleftrightarrow> length (hs_raw h) = length req \<and> drop (hs_start h) (hs_raw h) = drop (hs_start h) req"

definition line_start :: "bytes \<Rightarrow> Handshake \<Rightarrow> bool" where
  "line_start req h \<longleftrightarrow> (hs_start h \<le> length req \<longrightarrow> (\<exists>pre. take (hs_start h) req = pre @ [10]))"

lemma chunk_scan_part:
  "chunk_scan sep lo s cr bs = Some (cs, cr1) \<Longrightarrow>
     cs = map (if lo then lower else id) (takeWhile (\<lambda>b. b \<noteq> sep) bs) \<and> cr1 = (cr \<or> 13 \<in> set (takeWhile (\<lambda>b. b \<noteq> sep) bs))"
  by (induction bs arbitrary: s cr cs cr1) (auto simp: bind_Some_conv lower_def split: if_splits)

lemma getBytesChunk_reading:
  assumes "getBytesChunk h sep lo = Some (h1, chunk)" "reading req h" "chunk \<noteq> []"
  shows "\<exists>raw. chunk = map (if lo then lower else id) (line_part raw) \<and> raw = takeWhile (\<lambda>b. b \<noteq> sep) (drop (hs_start h) req) \<and>
    hs_start h1 = hs_start h + length raw + 1 \<and> reading req h1"
proof -
  obtain cs cr where s: "chunk_scan sep lo True False (drop (hs_start h) (hs_raw h)) = Some (cs, cr)"
    using assms(1,3) by (cases "chunk_scan sep lo True False (drop (hs_start h) (hs_raw h))") (auto simp: getBytesChunk_def)
  define raw where "raw = takeWhile (\<lambda>b. b \<noteq> sep) (drop (hs_start h) req)"
  have cs: "cs = map (if lo then lower else id) raw" "cr = (13 \<in> set raw)"
    using chunk_scan_part [OF s] assms(2) by (simp_all add: raw_def reading_def)
  have len: "length raw \<le> length req - hs_start h" unfolding raw_def by (metis length_drop length_takeWhile_le)
  let ?raw = "take (hs_start h) (hs_raw h) @ cs @ drop (hs_start h + length cs) (hs_raw h)"
  have h1: "hs_raw h1 = ?raw" "hs_start h1 = hs_start h + length raw + 1"
    "slice_cap ?raw (hs_cap h) (hs_start h) (if cr then hs_start h + length cs - 1 else hs_start h + length cs) = Some chunk"
    using assms(1) s by (auto simp: getBytesChunk_def bind_Some_conv cs(1) Let_def)
  have st: "hs_start h \<le> length req"
  proof (rule ccontr)
    assume "\<not> hs_start h \<le> length req"
    then have "raw = []" by (simp add: raw_def)
    with h1(3) assms(2,3) show False using cs by (auto simp: slice_cap_def split: if_splits)
  qed
  have l: "length (hs_raw h) = length req" using assms(2) by (simp add: reading_def)
  have "chunk = (if cr then butlast cs else cs)"
    using h1(3) st l by (auto simp: slice_cap_def butlast_conv_take split: if_splits)
  then have "chunk = map (if lo then lower else id) (line_part raw)" by (simp add: cs line_part_def map_butlast)
  moreover have "reading req h1"
  proof -
    have "drop (hs_start h + length raw + 1) ?raw = drop (hs_start h + length raw + 1) (hs_raw h)"
      using st l len by (simp add: cs(1))
    also have "\<dots> = drop (hs_start h + length raw + 1) req"
      using assms(2) unfolding reading_def by (metis add.assoc add.commute drop_drop)
    finally show ?thesis using h1(1,2) l len st by (auto simp: reading_def cs(1))
  qed
  ultimately show ?thesis using h1(2) raw_def by blast
qed

lemma takeWhile_sep: "length (takeWhile (\<lambda>b. b \<noteq> sep) d) < length d \<Longrightarrow>
   d = takeWhile (\<lambda>b. b \<noteq> sep) d @ sep # drop (length (takeWhile (\<lambda>b. b \<noteq> sep) d) + 1) d"
  by (induction d) auto


lemma takeWhile_closed: "\<exists>rest. d @ [sep] = takeWhile (\<lambda>b. b \<noteq> sep) d @ [sep] @ rest"
  by (induction d) auto

lemma take_line:
  assumes "s + length raw + 1 \<le> length req" "raw = takeWhile (\<lambda>b. b \<noteq> sep) (drop s req)"
  shows "take (s + length raw + 1) req = take s req @ raw @ [sep]"
proof -
  have "drop s req = raw @ sep # drop (length raw + 1) (drop s req)" using takeWhile_sep [of sep "drop s req"] assms by simp
  then have "take (length raw + 1) (drop s req) = raw @ [sep]"
    by (metis append.assoc append_Cons append_Nil append_eq_conv_conj length_append_singleton Suc_eq_plus1)
  then show ?thesis by (simp only: add.assoc take_add)
qed

lemma parseHeader_in:
  assumes "parseHeader h = Some (h1, k, v, None)" "k \<noteq> []" "reading req h" "line_start req h" "hs_start h < length req"
  shows "header_in req k v \<and> reading req h1 \<and> line_start req h1"
proof -
  obtain h2 where h2: "getBytesChunk h 58 True = Some (h2, k)" "idx (hs_raw h2) (hs_start h2) = Some 32"
    and h1: "getBytesChunk (h2\<lparr>hs_start := hs_start h2 + 1\<rparr>) 10 False = Some (h1, v)" "v \<noteq> []"
    using assms(1,2) by (auto simp: parseHeader_def bind_Some_conv Let_def split: if_splits)
  define d where "d = drop (hs_start h) req"
  from getBytesChunk_reading [OF h2(1) assms(3,2)] obtain kraw where
    k: "k = map lower (line_part kraw)" "kraw = takeWhile (\<lambda>b. b \<noteq> 58) d" "hs_start h2 = hs_start h + length kraw + 1"
    and r2: "reading req h2" by (auto simp: d_def)
  have st2: "hs_start h2 < length req" "req ! hs_start h2 = 32"
  proof -
    show lt: "hs_start h2 < length req" using h2(2) r2 by (simp add: idx_def reading_def split: if_splits)
    then show "req ! hs_start h2 = 32"
      using h2(2) r2 unfolding reading_def by (metis idx_in nth_via_drop Cons_nth_drop_Suc option.inject)
  qed
  have dk: "d = kraw @ 58 # drop (length kraw + 1) d" using takeWhile_sep [of 58 d] st2(1) k(2,3) by (simp add: d_def)
  have "drop (length kraw + 1) d = drop (hs_start h2) req" using k(3) by (simp add: d_def add_ac)
  also have "\<dots> = 32 # drop (hs_start h2 + 1) req" using st2 by (metis Cons_nth_drop_Suc Suc_eq_plus1)
  finally have dv: "d = kraw @ 58 # 32 # drop (hs_start h2 + 1) req" using dk by simp
  have "reading req (h2\<lparr>hs_start := hs_start h2 + 1\<rparr>)"
    using r2 unfolding reading_def by simp (metis drop_Suc tl_drop)
  from getBytesChunk_reading [OF h1(1) this h1(2)] obtain vraw where
    v: "v = line_part vraw" "vraw = takeWhile (\<lambda>b. b \<noteq> 10) (drop (hs_start h2 + 1) req)"
      "hs_start h1 = hs_start h2 + 1 + length vraw + 1" and r1: "reading req h1" by auto
  obtain pre where pre: "take (hs_start h) req = pre @ [10]" using assms(4,5) by (auto simp: line_start_def)
  have req: "req = pre @ [10] @ kraw @ [58, 32] @ drop (hs_start h2 + 1) req"
    using append_take_drop_id [of "hs_start h" req] dv pre by (simp add: d_def)
  have tail: "\<exists>rest. drop (hs_start h2 + 1) req @ [10] = vraw @ [10] @ rest"
    using takeWhile_closed [of "drop (hs_start h2 + 1) req" 10] v(2) by simp
  then obtain rest where rest: "drop (hs_start h2 + 1) req @ [10] = vraw @ [10] @ rest" by blast
  have "req @ [10] = pre @ ([10] @ kraw @ [58, 32] @ vraw @ [10]) @ rest" using req rest by (metis append.assoc)
  then have "sublist ([10] @ kraw @ [58, 32] @ vraw @ [10]) (req @ [10])" by (metis sublist_appendI)
  moreover have "58 \<notin> set kraw" "10 \<notin> set vraw" unfolding k(2) v(2) by (auto dest: set_takeWhileD)
  moreover have "line_start req h1"
    using take_line [of "hs_start h2 + 1" vraw req 10] v(2,3) unfolding line_start_def by (metis append.assoc)
  ultimately show ?thesis using k(1) v(1) r1 unfolding header_in_def by blast
qed

text \<open>The header lines that the flags vouch for.\<close>

definition flags_ok :: "bytes \<Rightarrow> Handshake \<Rightarrow> bool" where
  "flags_ok req h \<longleftrightarrow>
     (bit (hs_headerFlags h) 0 \<longrightarrow> header_in req (str ''host'') (hs_Host h) \<and> hs_Host h \<noteq> []) \<and>
     (bit (hs_headerFlags h) 1 \<longrightarrow> (\<exists>v. header_in req (str ''connection'') v \<and> has_token v (str ''upgrade''))) \<and>
     (bit (hs_headerFlags h) 2 \<longrightarrow> (\<exists>v. header_in req (str ''upgrade'') v \<and> has_token v (str ''websocket''))) \<and>
     (bit (hs_headerFlags h) 3 \<longrightarrow> header_in req (str ''sec-websocket-key'') (hs_Key h) \<and> length (hs_Key h) = 24) \<and>
     (bit (hs_headerFlags h) 4 \<longrightarrow> header_in req (str ''sec-websocket-version'') (str ''13''))"

lemma contains_tokens:
  "headerValueContains v (str ''upgrade'') \<Longrightarrow> has_token v (str ''upgrade'')"
  "headerValueContains v (str ''websocket'') \<Longrightarrow> has_token v (str ''websocket'')"
  by (rule headerValueContains_token; simp add: str_def)+

lemma handle_header_cases:
  assumes "handle_header h k v = (h1, None)"
  obtains "k = str ''host''" "v \<noteq> []" "h1 = set_flag (h\<lparr>hs_Host := v\<rparr>) hdrFlagHost"
    | "k = str ''connection''" "headerValueContains v (str ''upgrade'')" "h1 = set_flag h hdrFlagConn"
    | "k = str ''upgrade''" "headerValueContains v (str ''websocket'')" "h1 = set_flag h hdrFlagUpgrade"
    | "k = str ''sec-websocket-key''" "length v = 24" "h1 = set_flag (h\<lparr>hs_Key := v\<rparr>) hdrFlagWSKey"
    | "k = str ''sec-websocket-version''" "v = str ''13''" "h1 = set_flag h hdrFlagWSVersion"
    | "h1 = set_flag (h\<lparr>hs_Extensions := v\<rparr>) hdrFlagWSExtensions"
    | "h1 = set_flag (h\<lparr>hs_Protocol := v\<rparr>) hdrFlagWSProtocol"
    | m where "h1 = h\<lparr>hs_Header := m\<rparr>"
  using assms unfolding handle_header_def Let_def by (simp split: if_splits) blast

lemma handle_header_ok:
  assumes "flags_ok req h" "header_in req k v" "handle_header h k v = (h1, None)"
  shows "flags_ok req h1"
  using assms(3)
proof (cases rule: handle_header_cases)
  case 2
  with assms(1,2) contains_tokens(1) show ?thesis unfolding flags_ok_def by (simp add: set_flag_def flag_or) blast
next
  case 3
  with assms(1,2) contains_tokens(2) show ?thesis unfolding flags_ok_def by (simp add: set_flag_def flag_or) blast
qed (use assms(1,2) in \<open>simp_all add: flags_ok_def set_flag_def flag_or\<close>)

lemma handle_header_reading:
  "handle_header h k v = (h1, e) \<Longrightarrow> reading req h1 = reading req h \<and> line_start req h1 = line_start req h \<and> hs_URI h1 = hs_URI h"
  using handle_header_fields [of h k v] by (simp add: reading_def line_start_def)

lemma parseHeader_same:
  assumes "parseHeader h = Some (h1, k, v, e)"
  shows "same_results h h1"
proof -
  obtain h2 c where h2: "getBytesChunk h 58 True = Some (h2, c)" using assms by (auto simp: parseHeader_def bind_Some_conv)
  note f = getBytesChunk_fields [OF h2]
  consider "h1 = h2" | c1 where "getBytesChunk (h2\<lparr>hs_start := hs_start h2 + 1\<rparr>) 10 False = Some (h1, c1)"
    using assms h2 by (auto simp: parseHeader_def bind_Some_conv Let_def split: if_splits)
  then show ?thesis
  proof cases
    case 2
    from getBytesChunk_fields [OF this] f show ?thesis by simp
  qed (use f in simp)
qed

lemma parse_loop_ok:
  assumes "parse_loop h = Some (h1, None)" "flags_ok req h" "reading req h" "line_start req h"
  shows "flags_ok req h1 \<and> hs_URI h1 = hs_URI h"
  using assms
proof (induction h rule: parse_loop.induct)
  case (1 h)
  show ?case
  proof (cases "hs_start h < length (hs_raw h)")
    case False
    then show ?thesis using 1 by (simp add: parse_loop.simps [of h])
  next
    case True
    then obtain h2 k v e where p: "parseHeader h = Some (h2, k, v, e)"
      using 1(2) by (cases "parseHeader h") (auto simp: parse_loop.simps [of h])
    have e: "e = None" using 1(2) True p by (cases e) (auto simp: parse_loop.simps [of h])
    have r: "same_results h h2" by (rule parseHeader_same [OF p])
    then have ok: "flags_ok req h2" using 1(3) by (simp add: flags_ok_def)
    obtain h3 e3 where hh: "handle_header h2 k v = (h3, e3)" by (cases "handle_header h2 k v")
    show ?thesis
    proof (cases "k = []")
      case k: True
      then show ?thesis using 1(2) True p e r ok by (simp add: parse_loop.simps [of h])
    next
      case k: False
      then have e3: "e3 = None" using 1(2) True p e hh by (cases e3) (auto simp: parse_loop.simps [of h])
      have "hs_start h < length req" using True 1(4) by (simp add: reading_def)
      from parseHeader_in [OF p [unfolded e] k 1(4,5) this]
      have hi: "header_in req k v" "reading req h2" "line_start req h2" by simp_all
      have "parse_loop h3 = Some (h1, None)" using 1(2) True p e hh k e3 by (simp add: parse_loop.simps [of h])
      moreover have "flags_ok req h3" using handle_header_ok [OF ok hi(1)] hh e3 by simp
      moreover note handle_header_reading [OF hh, of req]
      ultimately have "flags_ok req h1 \<and> hs_URI h1 = hs_URI h3"
        using 1(1) [OF True, of "(h2, k, v, e)" h2 "(k, v, e)" k "(v, e)" v e] p e hh k e3 hi by simp
      then show ?thesis using r handle_header_reading [OF hh] by simp
    qed
  qed
qed

text \<open>The line of the request: \<open>GET\<close>, the target, and \<open>HTTP/1.1\<close>.\<close>

definition request_line :: "bytes \<Rightarrow> bytes \<Rightarrow> bool" where
  "request_line req target \<longleftrightarrow> (\<exists>get u http ver rest. req = get @ [32] @ u @ [32] @ http @ [47] @ ver @ [10] @ rest \<and>
     line_part get = str ''GET'' \<and> line_part u = target \<and> 32 \<notin> set u \<and> line_part http = str ''HTTP'' \<and> line_part ver = str ''1.1'')"

lemma parseHTTPLine_in:
  assumes "parseHTTPLine (hs_reset h req cap) = Some (h1, None)" "hs_start h1 \<le> length req"
  shows "request_line req (hs_URI h1) \<and> hs_URI h1 \<noteq> [] \<and> hs_headerFlags h1 = 0 \<and> reading req h1 \<and> line_start req h1"
proof -
  let ?h0 = "hs_reset h req cap"
  obtain h2 h3 h4 u where g: "getBytesChunk ?h0 32 False = Some (h2, str ''GET'')" "getBytesChunk h2 32 False = Some (h3, u)" "u \<noteq> []"
    "getBytesChunk (h3\<lparr>hs_URI := u\<rparr>) 47 False = Some (h4, str ''HTTP'')" "getBytesChunk h4 10 False = Some (h1, str ''1.1'')"
    using assms(1) by (auto simp: parseHTTPLine_def bind_Some_conv Let_def split: if_splits)
  have ne: "str ''GET'' \<noteq> []" "str ''HTTP'' \<noteq> []" "str ''1.1'' \<noteq> []" by (simp_all add: str_def)
  have "reading req ?h0" by (simp add: reading_def hs_reset_def)
  from getBytesChunk_reading [OF g(1) this ne(1)] obtain r1 where
    r1: "str ''GET'' = line_part r1" "r1 = takeWhile (\<lambda>b. b \<noteq> 32) req" "hs_start h2 = length r1 + 1" "reading req h2"
    by (auto simp: hs_reset_def)
  from getBytesChunk_reading [OF g(2) r1(4) g(3)] obtain r2 where
    r2: "u = line_part r2" "r2 = takeWhile (\<lambda>b. b \<noteq> 32) (drop (hs_start h2) req)" "hs_start h3 = hs_start h2 + length r2 + 1" "reading req h3"
    by auto
  have "reading req (h3\<lparr>hs_URI := u\<rparr>)" using r2(4) by (simp add: reading_def)
  from getBytesChunk_reading [OF g(4) this ne(2)] obtain r3 where
    r3: "str ''HTTP'' = line_part r3" "r3 = takeWhile (\<lambda>b. b \<noteq> 47) (drop (hs_start h3) req)" "hs_start h4 = hs_start h3 + length r3 + 1"
      "reading req h4" by auto
  from getBytesChunk_reading [OF g(5) r3(4) ne(3)] obtain r4 where
    r4: "str ''1.1'' = line_part r4" "r4 = takeWhile (\<lambda>b. b \<noteq> 10) (drop (hs_start h4) req)" "hs_start h1 = hs_start h4 + length r4 + 1"
      "reading req h1" by auto
  note le = assms(2) [unfolded r4(3)]
  have t1: "take (hs_start h2) req = r1 @ [32]" using take_line [of 0 r1 req 32] r1(2,3) r2(3) r3(3) le by simp
  have t2: "take (hs_start h3) req = r1 @ [32] @ r2 @ [32]"
    using take_line [of "hs_start h2" r2 req 32] r2(2,3) r3(3) le t1 by simp
  have t3: "take (hs_start h4) req = r1 @ [32] @ r2 @ [32] @ r3 @ [47]"
    using take_line [of "hs_start h3" r3 req 47] r3(2,3) le t2 by simp
  have t4: "take (hs_start h1) req = r1 @ [32] @ r2 @ [32] @ r3 @ [47] @ r4 @ [10]"
    using take_line [of "hs_start h4" r4 req 10] r4(2,3) le t3 by simp
  have "req = r1 @ [32] @ r2 @ [32] @ r3 @ [47] @ r4 @ [10] @ drop (hs_start h1) req"
    using append_take_drop_id [of "hs_start h1" req] t4 by (metis append.assoc)
  moreover have "32 \<notin> set r2" unfolding r2(2) by (auto dest: set_takeWhileD)
  ultimately have "request_line req u" using r1(1) r2(1) r3(1) r4(1) unfolding request_line_def by metis
  moreover have "hs_URI h1 = u" "hs_headerFlags h1 = 0"
    using getBytesChunk_fields [OF g(1)] getBytesChunk_fields [OF g(2)] getBytesChunk_fields [OF g(4)] getBytesChunk_fields [OF g(5)]
    by (simp_all add: hs_reset_def)
  moreover have "line_start req h1" unfolding line_start_def t4 by (metis append.assoc)
  ultimately show ?thesis using g(3) r4(4) by simp
qed

subsection \<open>The request of the client\<close>

lemma request_lines:
  "handshake_request path host key kvs =
     str ''GET '' @ path @ str '' HTTP/1.1'' @ CRLF @ header_line (str ''Host'', host) @
     header_line (str ''Upgrade'', str ''websocket'') @ header_line (str ''Connection'', str ''Upgrade'') @
     header_line (str ''Sec-Websocket-Key'', key) @ header_line (str ''Sec-Websocket-Version'', str ''13'') @
     Header_Write kvs @ CRLF"
  by (simp add: handshake_request_def header_line_def CRLF_def str_def)

lemma request_length:
  "length key = 24 \<Longrightarrow> length (handshake_request path host key kvs) =
     15 + length path + (123 + length host + length (Header_Write kvs))"
  by (simp add: handshake_request_def CRLF_def str_def)

text \<open>A path, host and key that the line format can carry.\<close>

definition carried :: "bytes \<Rightarrow> bytes \<Rightarrow> bytes \<Rightarrow> bool" where
  "carried path host key \<longleftrightarrow> path \<noteq> [] \<and> 32 \<notin> set path \<and> 13 \<notin> set path \<and> host \<noteq> [] \<and> 10 \<notin> set host \<and> 13 \<notin> set host \<and>
     length key = 24 \<and> 10 \<notin> set key \<and> 13 \<notin> set key"

lemma parse_request:
  assumes "carried path host key" "list_all extra_header kvs" "length (handshake_request path host key kvs) \<le> cap"
  shows "if 5 \<le> length host + length (Header_Write kvs)
    then \<exists>h1. parse h (handshake_request path host key kvs) cap = Some (h1, None) \<and> hs_URI h1 = path \<and>
      hs_Host h1 = host \<and> hs_Key h1 = key
    else \<exists>h1 e. parse h (handshake_request path host key kvs) cap = Some (h1, Some e)"
proof -
  define req where "req = handshake_request path host key kvs"
  define h0 where "h0 = hs_reset h req cap"
  have key: "length key = 24" and p: "path \<noteq> []" using assms(1) by (simp_all add: carried_def)
  have len: "length req = 15 + length path + (123 + length host + length (Header_Write kvs))"
    unfolding req_def by (rule request_length [OF key])
  have plen: "1 \<le> length path" using p by (cases path) auto
  have "at h0 (handshake_request path host key kvs)"
    using assms(3) by (simp add: at_def h0_def hs_reset_def req_def)
  note at0 = this [unfolded request_lines]
  obtain h1 where h1: "parseHTTPLine h0 = Some (h1, None)" "hs_URI h1 = path" "length (hs_raw h1) = length (hs_raw h0)"
      "hs_headerFlags h1 = hs_headerFlags h0"
    and at1: "at h1 (header_line (str ''Host'', host) @
     header_line (str ''Upgrade'', str ''websocket'') @ header_line (str ''Connection'', str ''Upgrade'') @
     header_line (str ''Sec-Websocket-Key'', key) @ header_line (str ''Sec-Websocket-Version'', str ''13'') @
     Header_Write kvs @ CRLF)"
    using parseHTTPLine_request [OF at0] assms(1) unfolding carried_def by blast
  have f0: "hs_headerFlags h1 = 0" using h1(4) by (simp add: h0_def hs_reset_def)
  have rest: "int (length (hs_raw h1)) - int (hs_start h1) = int (123 + length host + length (Header_Write kvs))"
  proof -
    have "length (drop (hs_start h1) (hs_raw h1)) = 123 + length host + length (Header_Write kvs)"
      using at1 key by (simp add: at_def header_line_def str_def CRLF_def)
    then show ?thesis using at1 by (simp add: at_def of_nat_diff)
  qed
  have g: "good_line (str ''Host'', host)" "good_line (str ''Sec-Websocket-Key'', key)"
    using assms(1) by (auto simp: carried_def good_line_def str_def)
  obtain h3 where h3: "parse_loop h1 = parse_loop h3" "hs_URI h3 = path" "hs_Host h3 = host" "hs_Key h3 = key"
      "hs_headerFlags h3 = 31" and at3: "at h3 (Header_Write kvs @ CRLF)"
    using parse_loop_request [OF at1 f0 g key] h1(2) by auto
  obtain h2 where h2: "parse_loop h1 = Some (h2, None)" "hs_URI h2 = path" "hs_Host h2 = host" "hs_Key h2 = key"
      "hs_headerFlags h2 = 31"
    using parse_loop_extra [OF at3 assms(2)] h3 by auto
  have pl: "parseHTTPLine (hs_reset h (handshake_request path host key kvs) cap) = Some (h1, None)"
    using h1(1) by (simp add: h0_def req_def)
  show ?thesis
  proof (cases "5 \<le> length host + length (Header_Write kvs)")
    case True
    have "parse h (handshake_request path host key kvs) cap = Some (h2, None)"
      using True len plen pl h2 rest by (simp add: parse_def req_def requiredFlags_def hdr_flags)
    with True h2 show ?thesis by simp
  next
    case False
    show ?thesis
    proof (cases "length req < 144")
      case True
      with False show ?thesis by (simp add: parse_def req_def)
    next
      case long: False
      have "parse h (handshake_request path host key kvs) cap = Some (h1, Some ErrRequestHeaderLength)"
        using long False pl rest by (simp add: parse_def req_def)
      with False show ?thesis by simp
    qed
  qed
qed

subsection \<open>The answer of the server\<close>

lemma accept_plain: "plain_field (str ''Sec-Websocket-Accept'', generateHandshakeAccept key)"
proof -
  define acc where "acc = generateHandshakeAccept key"
  have pr: "32 < b \<and> b < 127" if "b \<in> set acc" for b
    using that base64_printable by (auto simp: acc_def generateHandshakeAccept_def)
  have "acc \<noteq> []" using accept_length [of key] by (auto simp: acc_def)
  moreover have "10 \<notin> set acc" using pr [of 10] by auto
  moreover have "TrimSpace acc = acc" by (rule TrimSpace_printable [OF pr])
  ultimately show ?thesis
    by (simp add: plain_field_def acc_def str_def header_delims_def header_spaces_def)
qed

lemma handleHandshake_upgrade:
  "handleHandshake (generateHandshakeAccept key) (upgrade_response key @ rest) = Some (Inr rest)"
proof -
  define acc where "acc = generateHandshakeAccept key"
  define kvs where "kvs = [(str ''Upgrade'', str ''websocket''), (str ''Connection'', str ''Upgrade''),
    (str ''Sec-Websocket-Accept'', acc)]"
  have tr: "TrimSpace (str ''websocket'') = str ''websocket''" "TrimSpace (str ''Upgrade'') = str ''Upgrade''"
    by (rule TrimSpace_printable; auto simp: str_def)+
  have "plain_field (str ''Upgrade'', str ''websocket'')" "plain_field (str ''Connection'', str ''Upgrade'')"
    using tr by (simp_all add: plain_field_def str_def header_delims_def header_spaces_def)
  then have pf: "list_all plain_field kvs" using accept_plain by (simp add: kvs_def acc_def)
  have eq: "upgrade_response key @ rest = str ''HTTP/'' @ [48 + 1, 46, 48 + 1, 32] @ str ''101'' @
      str '' Switching Protocols'' @ [13, 10] @ concat (map header_line kvs) @ [13, 10] @ rest"
    by (simp add: upgrade_response_def resUpgradeOK_def acc_def kvs_def header_line_def str_def CRLF_def)
  have canon: "CanonicalHeaderKey (str ''Upgrade'') = str ''Upgrade''" "CanonicalHeaderKey (str ''Connection'') = str ''Connection''"
    "CanonicalHeaderKey (str ''Sec-Websocket-Accept'') = str ''Sec-Websocket-Accept''"
    "CanonicalHeaderKey (str ''sec-websocket-accept'') = str ''Sec-Websocket-Accept''"
    by (simp_all add: CanonicalHeaderKey_def token_byte_def IsAlnum_def IsAlpha_def IsDigit_def str_def)
  have ne: "str ''Sec-Websocket-Accept'' \<noteq> str ''Upgrade''" "str ''Sec-Websocket-Accept'' \<noteq> str ''Connection''"
    by (simp_all add: str_def)
  have get: "Header_Get (foldl (\<lambda>h (k, v). Header_Add h k v) Map.empty kvs) (str ''sec-websocket-accept'') = acc"
    using ne by (simp add: kvs_def Header_Add_def Header_Get_def canon Let_def)
  show ?thesis
    unfolding eq handleHandshake_def
    by (subst response_roundtrip [where n = 101])
      (use pf get in \<open>simp_all add: acc_def [symmetric] str_def Atoi_def IsDigit_def\<close>)
qed

subsection \<open>Properties\<close>

text \<open>
  C7: The two sides of the package complete a handshake with each other. For every random key, every
  target without spaces and carriage returns, every host without line ends, and any additional
  headers that are plain lines and not the handshake's own, where the host and the additional headers
  have at least five bytes together (the parser refuses shorter requests, \<open>short_host_refused\<close>), the
  server's parser accepts the request that the client builds, with the client's path, host and key;
  and the client accepts the response that the server builds from the parsed key and is left with
  exactly the bytes that follow the response, the first websocket frames.
\<close>

theorem handshake_completes:
  assumes "path \<noteq> []" "32 \<notin> set path" "13 \<notin> set path" "host \<noteq> []" "10 \<notin> set host" "13 \<notin> set host"
    "list_all extra_header kvs" "5 \<le> length host + length (Header_Write kvs)"
    "length (handshake_request path host (generateHandshakeKey r1 r2) kvs) \<le> cap"
  shows "\<exists>h1. parse h (handshake_request path host (generateHandshakeKey r1 r2) kvs) cap = Some (h1, None) \<and>
    hs_URI h1 = path \<and> hs_Host h1 = host \<and> hs_Key h1 = generateHandshakeKey r1 r2 \<and>
    handleHandshake (generateHandshakeAccept (generateHandshakeKey r1 r2)) (upgrade_response (hs_Key h1) @ frames) =
      Some (Inr frames)"
proof -
  have "b \<in> set (generateHandshakeKey r1 r2) \<Longrightarrow> 32 < b \<and> b < 127" for b
    unfolding generateHandshakeKey_def by (rule base64_printable)
  from this [of 10] this [of 13] have "carried path host (generateHandshakeKey r1 r2)"
    using assms(1-6) key_length [of r1 r2] by (auto simp: carried_def)
  from parse_request [OF this assms(7,9), of h] assms(8) show ?thesis by (auto simp: handleHandshake_upgrade)
qed

theorem handshake_completes_witness:
  "\<exists>h1. parse newHandshake (handshake_request (str ''/'') (str ''a.com'') (generateHandshakeKey 1 2) []) 144 = Some (h1, None) \<and>
    hs_URI h1 = str ''/'' \<and> hs_Host h1 = str ''a.com'' \<and> hs_Key h1 = generateHandshakeKey 1 2 \<and>
    handleHandshake (generateHandshakeAccept (generateHandshakeKey 1 2)) (upgrade_response (hs_Key h1) @ [0x89, 0]) =
      Some (Inr [0x89, 0])"
  by (rule handshake_completes)
    (simp_all add: request_length [OF key_length] str_def Header_Write_def)

text \<open>
  C24: A request that \<open>parse\<close> accepts, from any state of a pooled handshake and for any bytes, has
  everything the handshake needs in its own bytes: it starts with a line of \<open>GET\<close>, a target and
  \<open>HTTP/1.1\<close>, and has lines with the headers \<open>Host\<close>, \<open>Upgrade\<close> with the token \<open>websocket\<close>,
  \<open>Connection\<close> with the token \<open>upgrade\<close>, \<open>Sec-Websocket-Key\<close> with 24 bytes and
  \<open>Sec-Websocket-Version\<close> 13; the target, host and key that the parser returns are those of these
  lines, and never the values of an earlier request that \<open>reset\<close> leaves in \<open>Host\<close> and \<open>Key\<close>.
\<close>

theorem parse_accepts_complete:
  assumes "parse h req cap = Some (h1, None)"
  shows "request_line req (hs_URI h1) \<and> hs_URI h1 \<noteq> [] \<and> header_in req (str ''host'') (hs_Host h1) \<and> hs_Host h1 \<noteq> [] \<and>
    (\<exists>v. header_in req (str ''upgrade'') v \<and> has_token v (str ''websocket'')) \<and>
    (\<exists>v. header_in req (str ''connection'') v \<and> has_token v (str ''upgrade'')) \<and>
    header_in req (str ''sec-websocket-key'') (hs_Key h1) \<and> length (hs_Key h1) = 24 \<and>
    header_in req (str ''sec-websocket-version'') (str ''13'')"
proof -
  obtain h2 where h2: "parseHTTPLine (hs_reset h req cap) = Some (h2, None)" "parse_loop h2 = Some (h1, None)"
    "128 \<le> int (length (hs_raw h2)) - int (hs_start h2)" and req: "hs_headerFlags h1 AND requiredFlags = requiredFlags"
    using assms by (auto simp: parse_def bind_Some_conv split: if_splits)
  have "length (hs_raw h2) = length req"
    using h2(1) by (auto simp: parseHTTPLine_def bind_Some_conv Let_def hs_reset_def split: if_splits dest!: getBytesChunk_fields)
  then have "hs_start h2 \<le> length req" using h2(3) by simp
  note l = parseHTTPLine_in [OF h2(1) this]
  then have "flags_ok req h2" by (simp add: flags_ok_def)
  from parse_loop_ok [OF h2(2) this] l have ok: "flags_ok req h1" "hs_URI h1 = hs_URI h2" by simp_all
  have "bit (hs_headerFlags h1) n" if "n \<in> {0, 1, 2, 3, 4}" for n
  proof -
    have "bit requiredFlags n" using that by (auto simp: requiredFlags_def hdr_flags bit_numeral_rec bit_simps)
    then show ?thesis using req by (metis bit_and_iff)
  qed
  then show ?thesis using ok l unfolding flags_ok_def by simp
qed

definition sample_request :: bytes where
  "sample_request = handshake_request (str ''/'') (str ''a.com'') (generateHandshakeKey 1 2) []"

lemma sample_accepted: "\<exists>h1. parse newHandshake sample_request 144 = Some (h1, None)"
proof -
  have "b \<in> set (generateHandshakeKey 1 2) \<Longrightarrow> 32 < b \<and> b < 127" for b
    unfolding generateHandshakeKey_def by (rule base64_printable)
  from this [of 10] this [of 13] have "carried (str ''/'') (str ''a.com'') (generateHandshakeKey 1 2)"
    using key_length [of 1 2] by (auto simp: carried_def str_def)
  from parse_request [OF this, of "[]" 144 newHandshake] show ?thesis
    by (auto simp: sample_request_def request_length [OF key_length] str_def Header_Write_def)
qed

theorem parse_accepts_complete_witness:
  "\<exists>h1. parse newHandshake sample_request 144 = Some (h1, None) \<and>
    request_line sample_request (hs_URI h1) \<and> hs_URI h1 \<noteq> [] \<and> header_in sample_request (str ''host'') (hs_Host h1) \<and> hs_Host h1 \<noteq> [] \<and>
    (\<exists>v. header_in sample_request (str ''upgrade'') v \<and> has_token v (str ''websocket'')) \<and>
    (\<exists>v. header_in sample_request (str ''connection'') v \<and> has_token v (str ''upgrade'')) \<and>
    header_in sample_request (str ''sec-websocket-key'') (hs_Key h1) \<and> length (hs_Key h1) = 24 \<and>
    header_in sample_request (str ''sec-websocket-version'') (str ''13'')"
  using sample_accepted parse_accepts_complete [of newHandshake sample_request 144] by blast

text \<open>
  The server refuses a correct request of its own client when the host is shorter than five
  bytes and there is no other header: \<open>parse\<close> asks for 128 bytes of headers, the length for a host
  like \<open>a.com\<close>, and the required headers with a shorter host have fewer.
\<close>

theorem short_host_refused:
  assumes "carried path host key" "length host < 5" "length (handshake_request path host key []) \<le> cap"
  shows "\<exists>h1 e. parse h (handshake_request path host key []) cap = Some (h1, Some e)"
  using parse_request [OF assms(1) _ assms(3), of h] assms(2) by (simp add: Header_Write_def)

theorem short_host_refused_witness:
  "\<exists>h1 e. parse newHandshake (handshake_request (str ''/chat'') (str ''t.co'') (str ''dGhlIHNhbXBsZSBub25jZQ=='') []) 200 =
    Some (h1, Some e)"
  by (rule short_host_refused) (simp_all add: carried_def handshake_request_def Header_Write_def CRLF_def str_def)

text \<open>
  A request without a colon after the request line makes the server panic: the parser takes the
  rest of the buffer for a header key and then reads the byte behind the end of the buffer. The
  panic is in the goroutine of \<open>upgrader\<close>, which nothing recovers, so one such request stops the
  whole server.
\<close>

theorem no_colon_panics:
  assumes "path \<noteq> []" "32 \<notin> set path" "13 \<notin> set path" "128 \<le> length body" "58 \<notin> set body" "13 \<notin> set body"
    "length (str ''GET '' @ path @ str '' HTTP/1.1'' @ CRLF @ body) \<le> cap"
  shows "parse h (str ''GET '' @ path @ str '' HTTP/1.1'' @ CRLF @ body) cap = None"
proof -
  define req where "req = str ''GET '' @ path @ str '' HTTP/1.1'' @ CRLF @ body"
  have "at (hs_reset h req cap) req" using assms(7) by (simp add: at_def hs_reset_def req_def)
  then obtain h1 where h1: "parseHTTPLine (hs_reset h req cap) = Some (h1, None)" "at h1 body"
    unfolding req_def using parseHTTPLine_request [of _ path body] assms(1-3) by blast
  have plen: "1 \<le> length path" using assms(1) by (cases path) auto
  then have len: "\<not> length req < 144" using assms(4) by (simp add: req_def str_def CRLF_def)
  have d: "drop (hs_start h1) (hs_raw h1) = body" "hs_start h1 \<le> length (hs_raw h1)" "length (hs_raw h1) \<le> hs_cap h1"
    using h1(2) by (simp_all add: at_def)
  then have lb: "length (hs_raw h1) = hs_start h1 + length body" by (metis le_add_diff_inverse length_drop)
  have scan: "chunk_scan 58 True s False bs = Some (map lower bs, False)" if "58 \<notin> set bs" "13 \<notin> set bs" for s bs
    using that by (induction bs arbitrary: s) (auto simp: lower_def)
  have "parseHeader h1 = None"
    using assms(4) d lb scan [OF assms(5,6)] by (auto simp: parseHeader_def getBytesChunk_def slice_cap_def idx_def Let_def)
  moreover have "hs_start h1 < length (hs_raw h1)" using lb assms(4) by linarith
  ultimately have "parse_loop h1 = None" by (simp add: parse_loop.simps [of h1])
  with h1(1) len lb assms(4) show ?thesis unfolding req_def [symmetric] by (simp add: parse_def)
qed

theorem no_colon_panics_witness:
  "parse newHandshake (str ''GET '' @ str ''/'' @ str '' HTTP/1.1'' @ CRLF @ replicate 128 65) 144 = None"
  by (rule no_colon_panics) (simp_all add: str_def CRLF_def)

text \<open>
  The client panics when its handshake is answered with nothing, which is what it gets when the
  server closes the connection (\<open>recv\<close> returns no error then): \<open>ParseResponseHeader\<close> returns a
  nil response and no error, and \<open>handleHandshake\<close> reads its status code. It panics too on a status
  line that ends right after the version, of any length of the answer from 16 bytes.
\<close>

theorem handleHandshake_panics:
  assumes "6 \<le> length t"
  shows "handleHandshake acc [] = None \<and> handleHandshake acc (str ''HTTP/1.1'' @ [13, 10] @ t) = None"
proof -
  have "bytes_Index (str ''HTTP/1.1'' @ [13, 10] @ t) 10 = 9" by (simp add: bytes_Index_def str_def)
  then have "ParseResponseHeader (str ''HTTP/1.1'' @ [13, 10] @ t) = None"
    using assms by (simp add: ParseResponseHeader_def Let_def str_def idxi_def idx_def slicei_def subslice_def)
  then show ?thesis by (simp add: handleHandshake_def ParseResponseHeader_def)
qed

theorem handleHandshake_panics_witness:
  "handleHandshake (str ''x'') [] = None \<and> handleHandshake (str ''x'') (str ''HTTP/1.1'' @ [13, 10] @ str ''Server'') = None"
  by (rule handleHandshake_panics) (simp add: str_def)

text \<open>
  A header \<open>Connection\<close> among the custom headers of the client is not deleted before the
  handshake, although the documentation of \<open>Headers\<close> says so (\<open>init\<close> deletes \<open>Origin\<close> in its
  place); the request then has the header twice and the server refuses it.
\<close>

theorem custom_connection_refused:
  assumes "carried path host key" "header_value v \<noteq> []"
    "length (handshake_request path host key [(str ''Connection'', v)]) \<le> cap"
  shows "client_init_Headers [(str ''Connection'', v)] = [(str ''Connection'', v)] \<and>
    (\<exists>h1. parse h (handshake_request path host key (client_init_Headers [(str ''Connection'', v)])) cap =
       Some (h1, Some ErrInvalidHeaderConn))"
proof -
  define hv where "hv = header_value v"
  have nl: "10 \<notin> set hv" "13 \<notin> set hv"
    by (auto simp: hv_def header_value_def Let_def dest!: set_dropWhileD)
  have g: "good_line (str ''Connection'', hv)" using nl assms(2) by (simp add: good_line_def str_def hv_def)
  have init: "client_init_Headers [(str ''Connection'', v)] = [(str ''Connection'', v)]"
    by (simp add: client_init_Headers_def CanonicalHeaderKey_def token_byte_def IsAlnum_def IsAlpha_def IsDigit_def str_def)
  define req where "req = handshake_request path host key [(str ''Connection'', v)]"
  have W: "Header_Write [(str ''Connection'', v)] = header_line (str ''Connection'', hv)"
    by (simp add: Header_Write_def header_line_def CRLF_def hv_def)
  have "at (hs_reset h req cap) req" using assms(3) by (simp add: at_def hs_reset_def req_def)
  note at0 = this [unfolded req_def request_lines W, folded req_def]
  have key: "length key = 24" and p: "path \<noteq> []" using assms(1) by (simp_all add: carried_def)
  have plen: "1 \<le> length path" using p by (cases path) auto
  obtain h1 where h1: "parseHTTPLine (hs_reset h req cap) = Some (h1, None)" "hs_headerFlags h1 = hs_headerFlags (hs_reset h req cap)"
    and at1: "at h1 (header_line (str ''Host'', host) @
     header_line (str ''Upgrade'', str ''websocket'') @ header_line (str ''Connection'', str ''Upgrade'') @
     header_line (str ''Sec-Websocket-Key'', key) @ header_line (str ''Sec-Websocket-Version'', str ''13'') @
     header_line (str ''Connection'', hv) @ CRLF)"
    using parseHTTPLine_request [of "hs_reset h req cap" path] at0 assms(1)
    unfolding carried_def req_def request_lines W by blast
  have f0: "hs_headerFlags h1 = 0" using h1(2) by (simp add: hs_reset_def)
  have g2: "good_line (str ''Host'', host)" "good_line (str ''Sec-Websocket-Key'', key)"
    using assms(1) by (auto simp: carried_def good_line_def str_def)
  obtain h2 where h2: "parse_loop h1 = parse_loop h2" "at h2 (header_line (str ''Connection'', hv) @ CRLF)" "hs_headerFlags h2 = 31"
    using parse_loop_request [OF at1 f0 g2 key] by blast
  obtain h3 where h3: "moved h2 h3" "parse_loop h2 = (if snd (handle_header h3 (str ''connection'') hv) \<noteq> None
      then Some (handle_header h3 (str ''connection'') hv) else parse_loop (fst (handle_header h3 (str ''connection'') hv)))"
    using parse_loop_line [OF h2(2) g] by (auto simp: header_keys)
  have "handle_header h3 (str ''connection'') hv = (h3, Some ErrInvalidHeaderConn)"
    using moved_results [OF h3(1)] h2(3) by (simp add: handle_header_def hdr_flags str_def)
  then have loop: "parse_loop h1 = Some (h3, Some ErrInvalidHeaderConn)" using h2(1) h3(2) by simp
  have len: "\<not> length req < 144" "\<not> int (length (hs_raw h1)) - int (hs_start h1) < 128"
  proof -
    have hl: "length (header_line (str ''Connection'', hv)) \<ge> 14" by (simp add: header_line_def str_def)
    show "\<not> length req < 144" unfolding req_def request_length [OF key] W using hl plen by simp
    have "length (drop (hs_start h1) (hs_raw h1)) \<ge> 128"
      using at1 key hl by (simp add: at_def header_line_def str_def CRLF_def)
    then show "\<not> int (length (hs_raw h1)) - int (hs_start h1) < 128" by simp
  qed
  have "parse h req cap = Some (h3, Some ErrInvalidHeaderConn)" using len h1(1) loop by (simp add: parse_def)
  with init show ?thesis by (auto simp: req_def)
qed

theorem custom_connection_refused_witness:
  "client_init_Headers [(str ''Connection'', str ''close'')] = [(str ''Connection'', str ''close'')] \<and>
    (\<exists>h1. parse newHandshake (handshake_request (str ''/'') (str ''a.com'') (str ''dGhlIHNhbXBsZSBub25jZQ=='')
       (client_init_Headers [(str ''Connection'', str ''close'')])) 300 = Some (h1, Some ErrInvalidHeaderConn))"
  by (rule custom_connection_refused)
    (simp_all add: carried_def handshake_request_def Header_Write_def header_value_def CRLF_def str_def)

end
