(* ===== verification/WsServer.thy ===== *)
theory WsServer
  imports WsClient WsManager WsRoutes WsHandshake
begin

section \<open>The websocket server (lib/websocket/server.go)\<close>

text \<open>
  The server handles the packets of all its connections in one goroutine (\<open>reader\<close>), opens
  connections in a second (\<open>upgrader\<close>), pings them in a third (\<open>pinger\<close>) and starts a new one for
  each message (\<open>HandleText\<close>, \<open>HandleBin\<close>). The shared state is the client manager. The handlers
  below are the bodies of these loops; a run of the server is a sequence of events, so it covers
  every interleaving of the bodies.

  A connection is a file descriptor. What the server does to it is the trace of effects: packets
  given to \<open>Send\<close> with its outcome, packets read and dropped (\<open>Recv\<close> in \<open>handleBadRequest\<close>),
  registrations with the poll, \<open>unix.Close\<close>, and the handlers called or started. Whether the
  \<open>n\<close>-th \<open>Send\<close> on a connection fails is the parameter \<open>send_fails\<close>. Errors that are only logged,
  and the trace output under \<open>debug.Value\<close>, are left out.
\<close>

subsection \<open>Sockets (lib/websocket/funcs.go)\<close>

text \<open>
  \<open>Recv\<close> and \<open>Send\<close> over the results of the system calls; \<open>None\<close> when the calls listed are not
  enough. \<open>Recv\<close> declares a second \<open>err\<close> in its loop, so the one it returns is always nil.
\<close>

datatype readResult = ReadErr | ReadBytes bytes

definition maxBuffer :: nat where "maxBuffer = 1024"

fun Recv_loop :: "bytes \<Rightarrow> readResult list \<Rightarrow> bytes option" where
  "Recv_loop packet [] = None"
| "Recv_loop packet (ReadErr # rs) = Some packet"
| "Recv_loop packet (ReadBytes bs # rs) =
     (let packet = packet @ bs
      in if length bs < maxBuffer then Some packet else Recv_loop packet rs)"

definition Recv :: "readResult list \<Rightarrow> (bytes \<times> bool) option" where
  "Recv rs = do { packet \<leftarrow> Recv_loop [] rs; Some (packet, False) }"

datatype writeResult = WriteAgain | WriteErr | Written nat

text \<open>The bytes on the wire, and whether there was no error.\<close>

fun Send_loop :: "bytes \<Rightarrow> bytes \<Rightarrow> writeResult list \<Rightarrow> (bytes \<times> bool) option" where
  "Send_loop out [] ws = Some (out, True)"
| "Send_loop out packet [] = None"
| "Send_loop out packet (WriteAgain # ws) = Send_loop out packet ws"
| "Send_loop out packet (WriteErr # ws) = Some (out, False)"
| "Send_loop out packet (Written n # ws) =
     (let max = (if length packet < maxBuffer then length packet else maxBuffer); n = min n max
      in Send_loop (out @ take n packet) (drop n packet) ws)"

lemma Send_loop_wire:
  "Send_loop out packet ws = Some (w, ok) \<Longrightarrow>
   (ok \<longrightarrow> w = out @ packet) \<and> (\<exists>rest. w @ rest = out @ packet)"
proof (induction out packet ws rule: Send_loop.induct)
  case (5 out p ps n ws)
  then show ?case by (auto simp: Let_def)
qed auto

subsection \<open>State and effects\<close>

datatype effect =
    Sent bytes bool | Received | Closed | Registered | Unregistered | Reregistered
  | GoText bytes | GoBin bytes | GoPong Frame | CallRsvControl Frame
  | CallClientRemove Context | GoClientAdd Context

record Server =
  sv_Clients :: ClientManager
  sv_allowRsv1 :: bool
  sv_allowRsv2 :: bool
  sv_allowRsv3 :: bool
  sv_trace :: "(int \<times> effect) list"

text \<open>What the server does not decide: the outcome of \<open>Send\<close>, and which optional handlers are set.\<close>

record serverEnv =
  send_fails :: "int \<Rightarrow> nat \<Rightarrow> bool"
  hasHandleClientAdd :: bool
  hasHandleClientRemove :: bool
  hasHandleRsvControl_sv :: bool
  hasHandlePong_sv :: bool

definition NewServer :: Server where
  "NewServer = \<lparr>sv_Clients = newClientManager, sv_allowRsv1 = False, sv_allowRsv2 = False, sv_allowRsv3 = False,
     sv_trace = []\<rparr>"

definition AllowReservedBits :: "Server \<Rightarrow> bool \<Rightarrow> bool \<Rightarrow> bool \<Rightarrow> Server" where
  "AllowReservedBits s one two three = s\<lparr>sv_allowRsv1 := one, sv_allowRsv2 := two, sv_allowRsv3 := three\<rparr>"

definition emit :: "Server \<Rightarrow> int \<Rightarrow> effect \<Rightarrow> Server" where
  "emit s c e = s\<lparr>sv_trace := sv_trace s @ [(c, e)]\<rparr>"

definition trace_of :: "Server \<Rightarrow> int \<Rightarrow> effect list" where
  "trace_of s c = map snd (filter (\<lambda>p. fst p = c) (sv_trace s))"

fun is_sent :: "effect \<Rightarrow> bool" where
  "is_sent (Sent _ _) = True"
| "is_sent _ = False"

definition sv_Send :: "serverEnv \<Rightarrow> Server \<Rightarrow> int \<Rightarrow> bytes \<Rightarrow> Server \<times> bool" where
  "sv_Send env s c packet =
     (let ok = \<not> send_fails env c (length (filter is_sent (trace_of s c)))
      in (emit s c (Sent packet ok), ok))"

abbreviation with_Clients :: "Server \<Rightarrow> ClientManager \<Rightarrow> Server" where
  "with_Clients s cls \<equiv> s\<lparr>sv_Clients := cls\<rparr>"

subsection \<open>Handlers of frames\<close>

definition ClientRemove :: "serverEnv \<Rightarrow> Server \<Rightarrow> int \<Rightarrow> Server" where
  "ClientRemove env s c =
     (let s = (case cm_Context (sv_Clients s) c of
                 Some ctx \<Rightarrow> if hasHandleClientRemove env then emit s c (CallClientRemove ctx) else s
               | None \<Rightarrow> s);
          s = with_Clients s (cm_remove (sv_Clients s) c);
          s = emit s c Unregistered
      in emit s c Closed)"

definition sv_handleBadRequest :: "serverEnv \<Rightarrow> Server \<Rightarrow> int \<Rightarrow> Server" where
  "sv_handleBadRequest env s c =
     (let (s, _) = sv_Send env s c (NewFrameClose 0 False StatusBadRequest []);
          s = emit s c Received
      in ClientRemove env s c)"

definition sv_handleInvalidData :: "serverEnv \<Rightarrow> Server \<Rightarrow> int \<Rightarrow> Server" where
  "sv_handleInvalidData env s c =
     (let (s, _) = sv_Send env s c (NewFrameClose 0 False StatusInvalidData []);
          s = emit s c Received
      in ClientRemove env s c)"

text \<open>The \<open>switch\<close> on the close code is the one of the client, \<open>close_status\<close>.\<close>

definition sv_handleClose :: "serverEnv \<Rightarrow> Server \<Rightarrow> int \<Rightarrow> Frame \<Rightarrow> Server" where
  "sv_handleClose env s c req =
     (let req = req\<lparr>closeCode := close_status (closeCode req)\<rparr>;
          req = (if length (payload req) \<ge> 2 then
                   let req = req\<lparr>payload := drop 2 (payload req)\<rparr>
                   in if \<not> utf8_Valid (payload req) then req\<lparr>closeCode := StatusBadRequest\<rparr> else req
                 else req);
          (s, _) = sv_Send env s c (NewFrameClose 0 False (closeCode req) (payload req))
      in ClientRemove env s c)"

definition sv_handlePing :: "serverEnv \<Rightarrow> Server \<Rightarrow> int \<Rightarrow> Frame \<Rightarrow> Server" where
  "sv_handlePing env s c req =
     (let req = req\<lparr>opcode := OpcodePong, masked := 0\<rparr>;
          (s, ok) = sv_Send env s c (snd (pack 0 req))
      in if \<not> ok then ClientRemove env s c else s)"

definition sv_handleFragment :: "serverEnv \<Rightarrow> Server \<Rightarrow> int \<Rightarrow> Frame \<Rightarrow> (Server \<times> bool) option" where
  "sv_handleFragment env s c req =
     (let frames = getFrames (sv_Clients s) c in
      if frames = None \<and> opcode req = OpcodeCont then Some (sv_handleBadRequest env s c, True)
      else if frames \<noteq> None \<and> opcode req \<noteq> OpcodeCont then Some (sv_handleBadRequest env s c, True)
      else if fin req = 0 then
        (if length (payload req) < unat (flen req) then
           Some (with_Clients s (setFrame (sv_Clients s) c (Some req)), False)
         else
           let fs = Append (case frames of None \<Rightarrow> [] | Some fs \<Rightarrow> fs) (Some req);
               cls = setFrame (sv_Clients s) c None
           in Some (with_Clients s (setFrames cls c (Some fs)), False))
      else if frames = None \<and> length (payload req) < unat (flen req) then
        Some (with_Clients s (setFrame (sv_Clients s) c (Some req)), False)
      else do {
        (cls, frame) \<leftarrow> finFrames (sv_Clients s) c req;
        let s = with_Clients s cls;
        Some (if opcode frame = OpcodeText then
                (if \<not> utf8_Valid (payload frame) then (sv_handleInvalidData env s c, True)
                 else (emit s c (GoText (payload frame)), False))
              else (emit s c (GoBin (payload frame)), False)) })"

definition sv_handleFrame :: "serverEnv \<Rightarrow> int \<Rightarrow> Server \<Rightarrow> Frame \<Rightarrow> (Server \<times> bool) option" where
  "sv_handleFrame env c s frame =
     (if \<not> isValid frame True (sv_allowRsv1 s) (sv_allowRsv2 s) (sv_allowRsv3 s) then
        Some (sv_handleBadRequest env s c, True)
      else if opcode frame = OpcodeCont \<or> opcode frame = OpcodeText \<or> opcode frame = OpcodeBin then
        sv_handleFragment env s c frame
      else if 3 \<le> opcode frame \<and> opcode frame \<le> 7 then Some (sv_handleBadRequest env s c, True)
      else if opcode frame = OpcodeClose then Some (sv_handleClose env s c frame, True)
      else if opcode frame = OpcodePing then Some (sv_handlePing env s c frame, False)
      else if opcode frame = OpcodePong then
        Some (if hasHandlePong_sv env then emit s c (GoPong frame) else s, False)
      else if 0xB \<le> opcode frame \<and> opcode frame \<le> 0xF then
        (if hasHandleRsvControl_sv env then Some (emit s c (CallRsvControl frame), False)
         else Some (sv_handleClose env s c frame, True))
      else Some (s, False))"

subsection \<open>The reader\<close>

text \<open>
  The body of the loop of \<open>reader\<close> over the readable connections. \<open>read_packet\<close> is its part
  after \<open>Recv\<close>; its flag says that the connection is not registered again, after a frame that
  closes it or a \<open>ClientRemove\<close>. The unfinished frame is updated in place in the manager.
\<close>

fun read_frames :: "serverEnv \<Rightarrow> int \<Rightarrow> Server \<Rightarrow> Frames \<Rightarrow> (Server \<times> bool) option" where
  "read_frames env c s [] = Some (s, False)"
| "read_frames env c s (f # fs) =
     (if \<not> isComplete f then read_frames env c (with_Clients s (setFrame (sv_Clients s) c (Some f))) fs
      else do {
        (s, isClosing) \<leftarrow> sv_handleFrame env c s f;
        if isClosing then Some (s, True) else read_frames env c s fs })"

definition read_rest :: "serverEnv \<Rightarrow> int \<Rightarrow> Server \<Rightarrow> bytes \<Rightarrow> (Server \<times> bool) option" where
  "read_rest env c s packet = do {
     frames \<leftarrow> Unpack packet;
     case frames of None \<Rightarrow> Some (ClientRemove env s c, True) | Some fs \<Rightarrow> read_frames env c s fs }"

definition read_packet :: "serverEnv \<Rightarrow> int \<Rightarrow> Server \<Rightarrow> bytes \<Rightarrow> (Server \<times> bool) option" where
  "read_packet env c s packet =
     (case getFrame (sv_Clients s) c of
        None \<Rightarrow> read_rest env c s packet
      | Some f \<Rightarrow> do {
          (f, packet) \<leftarrow> unpack f packet;
          (s, isClosing) \<leftarrow>
            (if isComplete f then sv_handleFrame env c (with_Clients s (setFrame (sv_Clients s) c None)) f
             else Some (with_Clients s (setFrame (sv_Clients s) c (Some f)), False));
          if isClosing then Some (s, True)
          else if length packet = 0 then Some (s, False)
          else read_rest env c s packet })"

definition reader_conn :: "serverEnv \<Rightarrow> Server \<Rightarrow> int \<Rightarrow> bytes option \<Rightarrow> Server option" where
  "reader_conn env s c recv =
     (case recv of
        None \<Rightarrow> Some (ClientRemove env s c)
      | Some packet \<Rightarrow>
          if length packet = 0 then Some (ClientRemove env s c)
          else do {
            (s, isClosing) \<leftarrow> read_packet env c s packet;
            Some (if isClosing then s else emit s c Reregistered) })"

subsection \<open>pinger, clientAdd and upgrader\<close>

text \<open>
  The body of the inner loop of \<open>pinger\<close>, for one connection of the list that \<open>All\<close> returned at the
  start of the round; other goroutines run between two of them, so a connection of the list may be
  gone. \<open>pinger_tick\<close> is a round that nothing interrupts.
\<close>

definition ping_one :: "serverEnv \<Rightarrow> Server \<Rightarrow> int \<Rightarrow> Server" where
  "ping_one env s c =
     (let (s, ok) = sv_Send env s c (NewFramePing 0 False []) in if \<not> ok then ClientRemove env s c else s)"

fun ping_loop :: "serverEnv \<Rightarrow> Server \<Rightarrow> int list \<Rightarrow> Server" where
  "ping_loop env s [] = s"
| "ping_loop env s (c # cs) = ping_loop env (ping_one env s c) cs"

definition pinger_tick :: "serverEnv \<Rightarrow> Server \<Rightarrow> Server" where
  "pinger_tick env s = ping_loop env s (cm_All (sv_Clients s))"

text \<open>\<open>registered\<close> says that \<open>poll.RegisterRead\<close> succeeds; the flag of the result is the error.\<close>

definition clientAdd :: "serverEnv \<Rightarrow> Server \<Rightarrow> Context option \<Rightarrow> int \<Rightarrow> bool \<Rightarrow> Server \<times> bool" where
  "clientAdd env s ctx c registered =
     (if \<not> registered then (s, True)
      else let s = emit s c Registered
           in case ctx of
                None \<Rightarrow> (s, False)
              | Some ctx \<Rightarrow>
                  let s = with_Clients s (cm_add (sv_Clients s) ctx c)
                  in (if hasHandleClientAdd env then emit s c (GoClientAdd ctx) else s, False))"

fun hs_message :: "hsError \<Rightarrow> bytes" where
  "hs_message ErrBadRequest = str ''bad request''"
| "hs_message ErrRequestLength = str ''bad request: length is less than minimum''"
| "hs_message ErrRequestHeaderLength = str ''bad request: header length is less than minimum''"
| "hs_message ErrInvalidHTTPMethod = str ''invalid HTTP method''"
| "hs_message ErrInvalidHTTPVersion = str ''invalid HTTP version''"
| "hs_message ErrInvalidHeaderUpgrade = str ''invalid Upgrade header''"
| "hs_message ErrInvalidHeaderFormat = str ''invalid Header format''"
| "hs_message ErrInvalidHeaderHost = str ''invalid Host header''"
| "hs_message ErrInvalidHeaderWSKey = str ''invalid Sec-Websocket-Key header''"
| "hs_message ErrInvalidHeaderWSVersion = str ''invalid Sec-Websocket-Version header''"
| "hs_message ErrInvalidHeaderWSExtensions = str ''invalid Sec-Websocket-Extensions header''"
| "hs_message ErrInvalidHeaderWSProtocol = str ''invalid Sec-Websocket-Protocol header''"
| "hs_message ErrInvalidHeaderConn = str ''invalid Connection header''"
| "hs_message ErrMissingRequiredHeader = str ''missing required headers''"
| "hs_message ErrUnsupportedWSVersion = str ''unsupported Sec-WebSocket-Version''"

definition sv_handleError :: "serverEnv \<Rightarrow> Server \<Rightarrow> int \<Rightarrow> bytes \<Rightarrow> bytes \<Rightarrow> Server" where
  "sv_handleError env s c code msg =
     (let (s, _) = sv_Send env s c (str ''HTTP/1.1 '' @ code @ str '' '' @ msg @ CRLF @ CRLF)
      in emit s c Closed)"

text \<open>
  \<open>auth\<close> is \<open>HandleAuth\<close> when it is set; it returns a context or an error with its text. \<open>h\<close> is
  the handshake that the pool returns, \<open>cap\<close> the capacity of the packet.
\<close>

definition handleUpgrade ::
    "(Handshake \<Rightarrow> Context option \<times> bytes option) option \<Rightarrow> Handshake \<Rightarrow> bytes \<Rightarrow> nat \<Rightarrow>
     (Context option \<times> bytes \<times> bytes option) option" where
  "handleUpgrade auth h httpRequest cap = do {
     (h, err) \<leftarrow> parse h httpRequest cap;
     Some (case err of
             Some e \<Rightarrow> (None, [], Some (hs_message e))
           | None \<Rightarrow>
               (case auth of
                  None \<Rightarrow> (None, hs_Key h, None)
                | Some f \<Rightarrow> let (ctx, err) = f h in (ctx, hs_Key h, err))) }"

definition upgrade ::
    "serverEnv \<Rightarrow> (Handshake \<Rightarrow> Context option \<times> bytes option) option \<Rightarrow> Handshake \<Rightarrow> nat \<Rightarrow> bool \<Rightarrow> Server \<Rightarrow> int \<Rightarrow>
     bytes option \<Rightarrow> Server option" where
  "upgrade env auth h cap registered s c recv =
     (case recv of
        None \<Rightarrow> Some (emit s c Closed)
      | Some packet \<Rightarrow>
          if length packet = 0 then Some (emit s c Closed)
          else do {
            (ctx, key, err) \<leftarrow> handleUpgrade auth h packet cap;
            case err of
              Some msg \<Rightarrow> Some (sv_handleError env s c (str ''400'') msg)
            | None \<Rightarrow>
                let (s, ok) = sv_Send env s c (upgrade_response key)
                in if \<not> ok then Some (emit s c Closed)
                   else let ctx = (case ctx of None \<Rightarrow> context_Background | Some ctx \<Rightarrow> ctx);
                            (s, err) = clientAdd env s (Some ctx) c registered
                        in Some (if err then emit s c Closed else s) })"

subsection \<open>Text messages\<close>

record wsResponse =
  wr_ID :: u64
  wr_Code :: int
  wr_Message :: bytes
  wr_Body :: bytes

definition response_reset :: wsResponse where
  "response_reset = \<lparr>wr_ID = 0, wr_Code = 0, wr_Message = [], wr_Body = []\<rparr>"

text \<open>
  \<open>encoding/json\<close>, \<open>url.ParseQuery\<close> and the registered handlers: \<open>unmarshal\<close> returns the request
  as far as it was filled in, with the text of the error; \<open>marshal\<close> fails with \<open>None\<close>; a handler
  returns its response and the request as it leaves it.
\<close>

record 'h textEnv =
  unmarshal :: "bytes \<Rightarrow> Request \<Rightarrow> Request \<times> bytes option"
  marshal :: "wsResponse \<Rightarrow> bytes option"
  parseQuery :: "bytes \<Rightarrow> Values \<times> bool"
  callHandler :: "'h \<Rightarrow> Context \<Rightarrow> Request \<Rightarrow> wsResponse \<times> Request"

definition RegisterTextHandler ::
    "'h rootRoute \<Rightarrow> bytes \<Rightarrow> bytes \<Rightarrow> 'h option \<Rightarrow> ('h rootRoute \<times> routeError option) option" where
  "RegisterTextHandler routes method target handler =
     (case handler of
        None \<Rightarrow> Some (routes, None)
      | Some h \<Rightarrow>
          if length method = 0 \<or> length target = 0 then Some (routes, None)
          else root_add routes method target h)"

definition sendResponse :: "serverEnv \<Rightarrow> 'h textEnv \<Rightarrow> Server \<Rightarrow> int \<Rightarrow> wsResponse \<Rightarrow> Server \<times> bool" where
  "sendResponse env te s c res =
     (case marshal te res of
        None \<Rightarrow> (s, False)
      | Some resb \<Rightarrow> sv_Send env s c (NewFrameText 0 False resb))"

text \<open>The packet of a message to all clients, from response.go.\<close>

definition NewBroadcast :: "'h textEnv \<Rightarrow> bytes \<Rightarrow> bytes \<Rightarrow> bytes option" where
  "NewBroadcast te message body =
     (case marshal te (response_reset\<lparr>wr_Message := message, wr_Body := body\<rparr>) of
        None \<Rightarrow> None
      | Some pl \<Rightarrow> Some (NewFrameText 0 False pl))"

text \<open>The response to a payload; \<open>req\<close> is the request from the pool.\<close>

definition text_response :: "'h textEnv \<Rightarrow> 'h rootRoute \<Rightarrow> Context option \<Rightarrow> Request \<Rightarrow> int \<Rightarrow> bytes \<Rightarrow> wsResponse" where
  "text_response te routes ctx req c pl =
     (let res = response_reset in
      case ctx of
        None \<Rightarrow> res\<lparr>wr_Code := 500, wr_Message := str ''client context not found''\<rparr>
      | Some ctx \<Rightarrow>
          let (req, err) = unmarshal te pl (request_reset req)
          in case err of
               Some msg \<Rightarrow> res\<lparr>wr_Code := 400, wr_Message := msg, wr_ID := rq_ID req\<rparr>
             | None \<Rightarrow>
                 let (req, handler, err) = request_unpack (parseQuery te) routes req
                 in if err then res\<lparr>wr_Code := 400, wr_Message := rq_Target req, wr_ID := rq_ID req\<rparr>
                    else case handler of
                           None \<Rightarrow> res\<lparr>wr_Code := 404, wr_Message := rq_Method req @ str '' '' @ rq_Target req, wr_ID := rq_ID req\<rparr>
                         | Some h \<Rightarrow>
                             let (res, req) = callHandler te h ctx (req\<lparr>rq_Conn := c\<rparr>)
                             in res\<lparr>wr_ID := rq_ID req\<rparr>)"

text \<open>
  \<open>handleText\<close> reads the context of the connection from the map of the manager, without its lock, and
  answers later: \<open>text_reply\<close> is the answer with the context that was read, and \<open>sv_handleText\<close> the run
  in which nothing comes in between.
\<close>

definition text_reply ::
    "serverEnv \<Rightarrow> 'h textEnv \<Rightarrow> 'h rootRoute \<Rightarrow> Request \<Rightarrow> Context option \<Rightarrow> Server \<Rightarrow> int \<Rightarrow> bytes \<Rightarrow> Server" where
  "text_reply env te routes req ctx s c pl =
     (let (s, ok) = sendResponse env te s c (text_response te routes ctx req c pl)
      in if \<not> ok then ClientRemove env s c else s)"

definition sv_handleText :: "serverEnv \<Rightarrow> 'h textEnv \<Rightarrow> 'h rootRoute \<Rightarrow> Request \<Rightarrow> Server \<Rightarrow> int \<Rightarrow> bytes \<Rightarrow> Server" where
  "sv_handleText env te routes req s c pl =
     text_reply env te routes req (cm_ctx (sv_Clients s) c) s c pl"

end
