(* ===== verification/WsServerProps.thy ===== *)
theory WsServerProps
  imports WsServer
begin

section \<open>Runs of the websocket server\<close>

text \<open>
  A run of the server is a sequence of events, each of which is one step: a connection is readable,
  a ping is sent to one connection (\<open>EvPing\<close>) or a whole round of pings is (\<open>EvTick\<close>), a connection is
  added after its handshake (\<open>EvForget\<close> is the first of the two critical sections of \<open>add\<close>, \<open>EvAdd\<close>
  both of them), a message handler runs (\<open>EvReply\<close> is the rest of it after it read the context, \<open>EvText\<close>
  all of it), a client is removed. The theorems hold for every sequence of these steps. What is inside
  one step is not interleaved with anything: the bodies between the locks are taken as a whole, and a
  read of a map without its lock, which Go may abort as a concurrent access, is an ordinary read.
  The server interprets the locale \<open>frame_reader\<close> for each connection.
\<close>

subsection \<open>What the handlers do to the manager\<close>

lemma emit_fields [simp]:
  "sv_Clients (emit s c e) = sv_Clients s" "sv_allowRsv1 (emit s c e) = sv_allowRsv1 s"
  "sv_allowRsv2 (emit s c e) = sv_allowRsv2 s" "sv_allowRsv3 (emit s c e) = sv_allowRsv3 s"
  by (simp_all add: emit_def)

lemma Send_fields [simp]:
  "sv_Clients (fst (sv_Send env s c p)) = sv_Clients s" "sv_allowRsv1 (fst (sv_Send env s c p)) = sv_allowRsv1 s"
  "sv_allowRsv2 (fst (sv_Send env s c p)) = sv_allowRsv2 s" "sv_allowRsv3 (fst (sv_Send env s c p)) = sv_allowRsv3 s"
  by (simp_all add: sv_Send_def Let_def)

lemma ClientRemove_fields [simp]:
  "sv_Clients (ClientRemove env s c) = cm_remove (sv_Clients s) c"
  "sv_allowRsv1 (ClientRemove env s c) = sv_allowRsv1 s" "sv_allowRsv2 (ClientRemove env s c) = sv_allowRsv2 s"
  "sv_allowRsv3 (ClientRemove env s c) = sv_allowRsv3 s"
  by (simp_all add: ClientRemove_def Let_def split: option.splits)

lemma closing_fields [simp]:
  "sv_Clients (sv_handleBadRequest env s c) = cm_remove (sv_Clients s) c"
  "sv_Clients (sv_handleInvalidData env s c) = cm_remove (sv_Clients s) c"
  "sv_Clients (sv_handleClose env s c f) = cm_remove (sv_Clients s) c"
  by (simp_all add: sv_handleBadRequest_def sv_handleInvalidData_def sv_handleClose_def Let_def split_beta)

text \<open>The invariant: the manager is a registry, and no list of fragments is empty.\<close>

definition server_ok :: "Server \<Rightarrow> bool" where
  "server_ok s \<longleftrightarrow> (\<exists>cs. registers (sv_Clients s) cs) \<and> fragments_ok (sv_Clients s)"

lemma server_okI: "sv_Clients s1 = sv_Clients s \<Longrightarrow> server_ok s \<Longrightarrow> server_ok s1"
  by (simp add: server_ok_def)

lemma server_ok_remove: "server_ok s \<Longrightarrow> sv_Clients s1 = cm_remove (sv_Clients s) c \<Longrightarrow> server_ok s1"
  by (auto simp: server_ok_def fragments_ok_def remove_fields intro: registers_remove)

lemma server_ok_setFrame [simp]: "server_ok (with_Clients s (setFrame (sv_Clients s) c f)) = server_ok s"
  by (simp add: server_ok_def fragments_ok_def setFrame_fields)

lemma handlePing_ok: "server_ok s \<Longrightarrow> server_ok (sv_handlePing env s c f)"
  by (auto simp: sv_handlePing_def Let_def split_beta intro: server_ok_remove server_okI)

definition returns_ok :: "(Server \<times> bool) option \<Rightarrow> bool" where
  "returns_ok r \<longleftrightarrow> (\<exists>s1 cl. r = Some (s1, cl) \<and> server_ok s1)"

lemma returns_ok_Some [simp]: "returns_ok (Some p) \<longleftrightarrow> server_ok (fst p)"
  by (cases p) (simp add: returns_ok_def)

lemma server_ok_emit [simp]: "server_ok (emit s c e) = server_ok s"
  by (simp add: server_ok_def)

lemma server_ok_closing:
  assumes "server_ok s"
  shows "server_ok (sv_handleBadRequest env s c)" "server_ok (sv_handleInvalidData env s c)"
    "server_ok (sv_handleClose env s c f)" "server_ok (ClientRemove env s c)"
  using assms by (auto intro: server_ok_remove)

lemma handleFragment_ok:
  assumes "server_ok s"
  shows "returns_ok (sv_handleFragment env s c f)"
proof -
  from assms have "fragments_ok (sv_Clients s)" by (simp add: server_ok_def)
  then obtain cls m where m: "finFrames (sv_Clients s) c f = Some (cls, m)" "fragments_ok cls" by (rule finFrames_total)
  have cls: "server_ok (with_Clients s cls)" using assms m by (auto simp: server_ok_def)
  have st: "server_ok (with_Clients s (setFrames (setFrame (sv_Clients s) c None) c (Some (Append fs (Some f)))))" for fs
    using assms by (auto simp: server_ok_def fragments_ok_def setFrame_fields Append_def)
  show ?thesis
    unfolding sv_handleFragment_def Let_def using assms
    by (simp add: m(1) st server_ok_closing cls)
qed

lemma handleFrame_returns: "server_ok s \<Longrightarrow> returns_ok (sv_handleFrame env c s f)"
  by (simp add: sv_handleFrame_def server_ok_closing handleFragment_ok handlePing_ok)

lemma handleFrame_ok_sv: "server_ok s \<Longrightarrow> \<exists>s1 cl. sv_handleFrame env c s f = Some (s1, cl) \<and> server_ok s1"
  using handleFrame_returns by (simp add: returns_ok_def)

subsection \<open>The reader of one connection\<close>

lemma setFrame_same: "getFrame cls c = None \<Longrightarrow> setFrame cls c None = cls"
  by (cases cls) (auto simp: setFrame_def getFrame_def fun_eq_iff)

lemma setFrame_setFrame: "setFrame (setFrame cls c x) c y = setFrame cls c y"
  by (auto simp: setFrame_def split: option.splits)

lemma getFrame_simps [simp]:
  "getFrame (setFrame cls c x) d = (if d = c then x else getFrame cls d)"
  "getFrame (cm_remove cls c) d = (if d = c then None else getFrame cls d)"
  "getFrame (setFrames cls c fs) d = getFrame cls d"
  by (auto simp: getFrame_def setFrame_fields remove_fields)

lemma finFrames_frame:
  "finFrames cls c l = Some (cls1, m) \<Longrightarrow> getFrame cls c = None \<Longrightarrow> getFrame cls1 c = None"
  by (auto simp: finFrames_def getFrame_def bind_Some_conv split: option.splits)

lemma handleFragment_frame:
  assumes "sv_handleFragment env s c f = Some (s1, cl)" "getFrame (sv_Clients s) c = None" "whole f"
  shows "getFrame (sv_Clients s1) c = None"
  using assms finFrames_frame [of "sv_Clients s" c f]
  by (auto simp: sv_handleFragment_def Let_def whole_def bind_Some_conv split: if_splits)

lemma handlePing_frame: "getFrame (sv_Clients s) c = None \<Longrightarrow> getFrame (sv_Clients (sv_handlePing env s c f)) c = None"
  by (simp add: sv_handlePing_def Let_def split_beta)

lemma handleFrame_frame:
  assumes "sv_handleFrame env c s f = Some (s1, cl)" "getFrame (sv_Clients s) c = None" "whole f"
  shows "getFrame (sv_Clients s1) c = None"
  using assms handleFragment_frame [of env s c f s1 cl]
  by (auto simp: sv_handleFrame_def handlePing_frame split: if_splits)

lemma read_frames_feed:
  "read_frames env c s fs = feed (sv_handleFrame env c) (\<lambda>x s. with_Clients s (setFrame (sv_Clients s) c x)) s fs"
  by (induction fs arbitrary: s) (auto intro!: bind_cong_Some)

lemma read_rest_Unpack:
  "p \<noteq> [] \<Longrightarrow> read_rest env c s p = do { fs \<leftarrow> Unpack_loop p [];
     feed (sv_handleFrame env c) (\<lambda>x s. with_Clients s (setFrame (sv_Clients s) c x)) s fs }"
  using Unpack_loop_total [of p] by (auto simp: read_rest_def Unpack_def read_frames_feed)

interpretation sr: frame_reader "sv_handleFrame env c" "\<lambda>s. getFrame (sv_Clients s) c"
  "\<lambda>x s. with_Clients s (setFrame (sv_Clients s) c x)" "read_packet env c" for env c
proof unfold_locales
  fix p :: bytes and s :: Server and f :: Frame
  assume "p \<noteq> []" "getFrame (sv_Clients s) c = Some f"
  then show "read_packet env c s p = do {
      (f, r) \<leftarrow> unpack f p;
      (s, isClosing) \<leftarrow> (if isComplete f then sv_handleFrame env c (with_Clients s (setFrame (sv_Clients s) c None)) f
        else Some (with_Clients s (setFrame (sv_Clients s) c (Some f)), False));
      if isClosing then Some (s, True)
      else if r = [] then Some (s, False)
      else do { fs \<leftarrow> Unpack_loop r [];
        feed (sv_handleFrame env c) (\<lambda>x s. with_Clients s (setFrame (sv_Clients s) c x)) s fs } }"
    by (auto simp: read_packet_def read_rest_Unpack intro!: bind_cong_Some)
qed (auto simp: setFrame_same setFrame_setFrame read_packet_def read_rest_Unpack dest: handleFrame_frame)

lemma read_packet_ok:
  assumes "server_ok s" "p \<noteq> []"
  shows "\<exists>s1 cl. read_packet env c s p = Some (s1, cl) \<and> server_ok s1"
  by (rule sr.step_inv [where P = server_ok, OF handleFrame_ok_sv _ assms]) simp_all

subsection \<open>Runs\<close>

datatype event =
    EvRead int "bytes option" | EvTick | EvPing int | EvForget int | EvAdd Context int | EvText int bytes Request
  | EvReply "Context option" int bytes Request | EvRemove int

fun ev_step :: "serverEnv \<Rightarrow> 'h textEnv \<Rightarrow> 'h rootRoute \<Rightarrow> Server \<Rightarrow> event \<Rightarrow> Server option" where
  "ev_step env te routes s (EvRead c recv) = reader_conn env s c recv"
| "ev_step env te routes s EvTick = Some (pinger_tick env s)"
| "ev_step env te routes s (EvPing c) = Some (ping_one env s c)"
| "ev_step env te routes s (EvForget c) = Some (with_Clients s (cm_remove (sv_Clients s) c))"
| "ev_step env te routes s (EvAdd ctx c) = Some (fst (clientAdd env s (Some ctx) c True))"
| "ev_step env te routes s (EvText c pl req) = Some (sv_handleText env te routes req s c pl)"
| "ev_step env te routes s (EvReply ctx c pl req) = Some (text_reply env te routes req ctx s c pl)"
| "ev_step env te routes s (EvRemove c) = Some (ClientRemove env s c)"

fun run :: "serverEnv \<Rightarrow> 'h textEnv \<Rightarrow> 'h rootRoute \<Rightarrow> Server \<Rightarrow> event list \<Rightarrow> Server option" where
  "run env te routes s [] = Some s"
| "run env te routes s (e # es) = do { s \<leftarrow> ev_step env te routes s e; run env te routes s es }"

lemma ping_one_ok: "server_ok s \<Longrightarrow> server_ok (ping_one env s c)"
  by (auto simp: ping_one_def Let_def split_beta intro: server_ok_remove server_okI)

lemma ping_loop_ok: "server_ok s \<Longrightarrow> server_ok (ping_loop env s cs)"
  by (induction cs arbitrary: s) (simp_all add: ping_one_ok)

lemma clientAdd_ok: "server_ok s \<Longrightarrow> server_ok (fst (clientAdd env s ctx c r))"
  by (auto simp: clientAdd_def Let_def server_ok_def fragments_ok_def add_fields split: option.splits intro: registers_add)

lemma text_reply_ok: "server_ok s \<Longrightarrow> server_ok (text_reply env te routes req ctx s c pl)"
proof -
  assume s: "server_ok s"
  have "server_ok (fst (sendResponse env te s c res))" for res
    using s by (auto simp: sendResponse_def split: option.splits intro: server_okI)
  then show ?thesis by (simp add: text_reply_def Let_def split_beta server_ok_closing)
qed

lemma forget_ok: "server_ok s \<Longrightarrow> server_ok (with_Clients s (cm_remove (sv_Clients s) c))"
  by (erule server_ok_remove) simp

lemma ev_step_ok:
  assumes "server_ok s"
  shows "\<exists>s1. ev_step env te routes s e = Some s1 \<and> server_ok s1"
proof (cases e)
  case (EvRead c recv)
  show ?thesis
  proof (cases "recv = None \<or> recv = Some []")
    case True
    then show ?thesis using EvRead assms by (auto simp: reader_conn_def server_ok_closing)
  next
    case False
    then obtain p where p: "recv = Some p" "p \<noteq> []" by auto
    with read_packet_ok [OF assms p(2), of env c] show ?thesis by (auto simp: EvRead reader_conn_def)
  qed
qed (use assms in \<open>simp_all add: pinger_tick_def ping_loop_ok ping_one_ok forget_ok clientAdd_ok text_reply_ok sv_handleText_def
    server_ok_closing\<close>)

lemma run_ok: "server_ok s \<Longrightarrow> \<exists>s1. run env te routes s es = Some s1 \<and> server_ok s1"
proof (induction es arbitrary: s)
  case (Cons e es)
  from ev_step_ok [OF Cons.prems, of env te routes e] obtain s1 where
    "ev_step env te routes s e = Some s1" "server_ok s1" by blast
  with Cons.IH show ?case by simp
qed simp

subsection \<open>Connections do not interfere\<close>

text \<open>
  Two states that agree on all the server keeps and has done for one connection, its new
  registrations with the poll included (\<open>re\<close>) or not.
\<close>

definition visible :: "bool \<Rightarrow> effect list \<Rightarrow> effect list" where
  "visible re es = filter (\<lambda>e. re \<or> e \<noteq> Reregistered) es"

lemma visible_simps [simp]:
  "visible re (es @ fs) = visible re es @ visible re fs" "visible re [] = []"
  "visible re [e] = (if re \<or> e \<noteq> Reregistered then [e] else [])" "visible True es = es"
  by (simp_all add: visible_def)

lemma visible_sent: "visible re es = visible re fs \<Longrightarrow> length (filter is_sent es) = length (filter is_sent fs)"
proof -
  have "filter is_sent (visible re es) = filter is_sent es" for es
    unfolding visible_def filter_filter by (intro filter_cong) auto
  then show "visible re es = visible re fs \<Longrightarrow> length (filter is_sent es) = length (filter is_sent fs)" by metis
qed

definition sim :: "bool \<Rightarrow> int \<Rightarrow> Server \<Rightarrow> Server \<Rightarrow> bool" where
  "sim re c s t \<longleftrightarrow> cm_ctx (sv_Clients s) c = cm_ctx (sv_Clients t) c \<and> getFrame (sv_Clients s) c = getFrame (sv_Clients t) c \<and>
     getFrames (sv_Clients s) c = getFrames (sv_Clients t) c \<and> visible re (trace_of s c) = visible re (trace_of t c) \<and>
     sv_allowRsv1 s = sv_allowRsv1 t \<and> sv_allowRsv2 s = sv_allowRsv2 t \<and> sv_allowRsv3 s = sv_allowRsv3 t"

lemma sim_refl [simp]: "sim re c s s"
  by (simp add: sim_def)

lemma sim_sym: "sim re c s t \<Longrightarrow> sim re c t s"
  by (simp add: sim_def)

lemma sim_trans: "sim re c s t \<Longrightarrow> sim re c t u \<Longrightarrow> sim re c s u"
  by (simp add: sim_def)

lemma trace_of_emit [simp]: "trace_of (emit s d e) c = trace_of s c @ (if d = c then [e] else [])"
  by (simp add: trace_of_def emit_def)

lemma trace_of_clients [simp]: "trace_of (with_Clients s cls) c = trace_of s c"
  by (simp add: trace_of_def)

lemma cm_ctx_simps [simp]:
  "cm_ctx (cm_remove cls d) = (cm_ctx cls)(d := None)" "cm_ctx (cm_add cls ctx d) = (cm_ctx cls)(d \<mapsto> ctx)"
  "cm_ctx (setFrame cls d f) = cm_ctx cls" "cm_ctx (setFrames cls d fs) = cm_ctx cls"
proof -
  show r: "cm_ctx (cm_remove cls d) = (cm_ctx cls)(d := None)" for cls
    by (auto simp: cm_remove_def remove_uid_def Let_def split: option.splits prod.splits)
  show "cm_ctx (cm_add cls ctx d) = (cm_ctx cls)(d \<mapsto> ctx)" by (simp add: cm_add_def r Let_def)
qed (simp_all add: setFrame_def setFrames_def split: option.splits)

lemma frames_simps [simp]:
  "getFrames (cm_remove cls d) c = (if c = d then None else getFrames cls c)"
  "getFrames (cm_add cls ctx d) c = (if c = d then None else getFrames cls c)"
  "getFrame (cm_add cls ctx d) c = (if c = d then None else getFrame cls c)"
  "getFrames (setFrame cls d f) c = getFrames cls c"
  "getFrames (setFrames cls d fs) c = (if c = d then fs else getFrames cls c)"
  by (auto simp: getFrames_def getFrame_def remove_fields add_fields setFrame_fields)

text \<open>Every step for the connection itself preserves the agreement, with equal results.\<close>

lemma sim_emit [intro]: "sim re c s t \<Longrightarrow> sim re c (emit s c e) (emit t c e)"
  by (simp add: sim_def)

lemma sim_Send: "sim re c s t \<Longrightarrow> sim re c (fst (sv_Send env s c p)) (fst (sv_Send env t c p)) \<and>
    snd (sv_Send env s c p) = snd (sv_Send env t c p)"
proof -
  assume st: "sim re c s t"
  then have "length (filter is_sent (trace_of s c)) = length (filter is_sent (trace_of t c))"
    by (intro visible_sent [of re]) (simp add: sim_def)
  with st show ?thesis by (simp add: sv_Send_def Let_def sim_emit)
qed

lemma sim_ClientRemove: "sim re c s t \<Longrightarrow> sim re c (ClientRemove env s c) (ClientRemove env t c)"
  by (simp add: sim_def ClientRemove_def cm_Context_def Let_def split: option.splits)

lemma sim_closing:
  assumes "sim re c s t"
  shows "sim re c (sv_handleBadRequest env s c) (sv_handleBadRequest env t c)"
    "sim re c (sv_handleInvalidData env s c) (sv_handleInvalidData env t c)"
    "sim re c (sv_handleClose env s c f) (sv_handleClose env t c f)"
    "sim re c (sv_handlePing env s c f) (sv_handlePing env t c f)"
  using sim_Send [OF assms]
  by (auto simp: sv_handleBadRequest_def sv_handleInvalidData_def sv_handleClose_def sv_handlePing_def Let_def split_beta
      intro!: sim_ClientRemove)

definition sim_res :: "bool \<Rightarrow> int \<Rightarrow> (Server \<times> bool) option \<Rightarrow> (Server \<times> bool) option \<Rightarrow> bool" where
  "sim_res re c r q \<longleftrightarrow> (case (r, q) of (None, None) \<Rightarrow> True | (Some (s, a), Some (t, b)) \<Rightarrow> sim re c s t \<and> a = b | _ \<Rightarrow> False)"

lemma sim_res_Some [simp]: "sim_res re c (Some (s, a)) (Some (t, b)) \<longleftrightarrow> sim re c s t \<and> a = b"
  by (simp add: sim_res_def)

lemma sim_res_None [simp]: "sim_res re c None q \<longleftrightarrow> q = None" "sim_res re c q None \<longleftrightarrow> q = None"
  by (auto simp: sim_res_def split: option.splits)

lemma sim_res_bind:
  assumes "sim_res re c r q" "\<And>s t b. sim re c s t \<Longrightarrow> sim_res re c (g (s, b)) (h (t, b))"
  shows "sim_res re c (Option.bind r g) (Option.bind q h)"
  using assms by (cases r; cases q) auto

lemma sim_finFrames:
  assumes "sim re c s t"
  shows "case (finFrames (sv_Clients s) c f, finFrames (sv_Clients t) c f) of
      (None, None) \<Rightarrow> True
    | (Some (k, m), Some (l, n)) \<Rightarrow> m = n \<and> sim re c (with_Clients s k) (with_Clients t l)
    | _ \<Rightarrow> False"
  using assms
  by (auto simp: finFrames_def sim_def getFrames_def getFrame_def bind_Some_conv bind_eq_None_conv split: option.splits)

lemma sim_handleFragment:
  assumes "sim re c s t"
  shows "sim_res re c (sv_handleFragment env s c f) (sv_handleFragment env t c f)"
proof -
  have fr: "getFrames (sv_Clients t) c = getFrames (sv_Clients s) c" using assms by (simp add: sim_def)
  have put: "sim re c (with_Clients s (setFrame (sv_Clients s) c x)) (with_Clients t (setFrame (sv_Clients t) c x))"
    "sim re c (with_Clients s (setFrames (setFrame (sv_Clients s) c x) c y)) (with_Clients t (setFrames (setFrame (sv_Clients t) c x) c y))"
    for x y using assms by (simp_all add: sim_def)
  show ?thesis
  proof (cases "finFrames (sv_Clients s) c f")
    case None
    then have "finFrames (sv_Clients t) c f = None" using sim_finFrames [OF assms, of f] by (simp split: option.splits)
    with None show ?thesis unfolding sv_handleFragment_def Let_def fr using put by (simp add: sim_closing [OF assms])
  next
    case (Some p)
    then obtain k m l where "finFrames (sv_Clients s) c f = Some (k, m)" "finFrames (sv_Clients t) c f = Some (l, m)"
      "sim re c (with_Clients s k) (with_Clients t l)"
      using sim_finFrames [OF assms, of f] by (cases p) (auto split: option.splits)
    then show ?thesis unfolding sv_handleFragment_def Let_def fr using put sim_closing(2) [of re c]
      by (simp add: sim_closing [OF assms] sim_emit)
  qed
qed

lemma sim_handleFrame:
  assumes "sim re c s t"
  shows "sim_res re c (sv_handleFrame env c s f) (sv_handleFrame env c t f)"
proof -
  have al: "sv_allowRsv1 t = sv_allowRsv1 s" "sv_allowRsv2 t = sv_allowRsv2 s" "sv_allowRsv3 t = sv_allowRsv3 s"
    using assms by (simp_all add: sim_def)
  show ?thesis
    unfolding sv_handleFrame_def al
    by (simp add: sim_closing [OF assms] sim_handleFragment [OF assms] sim_emit [OF assms] assms)
qed

lemma sim_put:
  "sim re c s t \<Longrightarrow> sim re c (with_Clients s (setFrame (sv_Clients s) c x)) (with_Clients t (setFrame (sv_Clients t) c x))"
  by (simp add: sim_def)

lemma sim_read_frames: "sim re c s t \<Longrightarrow> sim_res re c (read_frames env c s fs) (read_frames env c t fs)"
proof (induction fs arbitrary: s t)
  case (Cons f fs)
  have "sim_res re c (do { (s, isClosing) \<leftarrow> sv_handleFrame env c s f; if isClosing then Some (s, True) else read_frames env c s fs })
      (do { (t, isClosing) \<leftarrow> sv_handleFrame env c t f; if isClosing then Some (t, True) else read_frames env c t fs })"
    by (rule sim_res_bind [OF sim_handleFrame [OF Cons.prems]]) (simp add: Cons.IH)
  with Cons.IH [OF sim_put [OF Cons.prems]] show ?case by simp
qed simp

lemma sim_read_rest: "sim re c s t \<Longrightarrow> sim_res re c (read_rest env c s p) (read_rest env c t p)"
  by (cases "Unpack p") (auto simp: read_rest_def sim_read_frames sim_ClientRemove split: option.splits)

lemma read_packet_resume:
  assumes "getFrame (sv_Clients s) c = Some f" "unpack f p = Some (f1, r)"
  shows "read_packet env c s p = do {
    (s, isClosing) \<leftarrow> (if isComplete f1 then sv_handleFrame env c (with_Clients s (setFrame (sv_Clients s) c None)) f1
      else Some (with_Clients s (setFrame (sv_Clients s) c (Some f1)), False));
    if isClosing then Some (s, True) else if length r = 0 then Some (s, False) else read_rest env c s r }"
  using assms by (simp add: read_packet_def)

lemma sim_read_packet:
  assumes "sim re c s t"
  shows "sim_res re c (read_packet env c s p) (read_packet env c t p)"
proof -
  have fr: "getFrame (sv_Clients t) c = getFrame (sv_Clients s) c" using assms by (simp add: sim_def)
  show ?thesis
  proof (cases "getFrame (sv_Clients s) c")
    case None
    then show ?thesis using sim_read_rest [OF assms] by (simp add: read_packet_def fr)
  next
    case (Some f)
    show ?thesis
    proof (cases "unpack f p")
      case None
      then show ?thesis by (simp add: read_packet_def fr Some)
    next
      case u: (Some fr1)
      obtain f1 r where fr1: "fr1 = (f1, r)" by (cases fr1)
      have "sim_res re c (if isComplete f1 then sv_handleFrame env c (with_Clients s (setFrame (sv_Clients s) c None)) f1
          else Some (with_Clients s (setFrame (sv_Clients s) c (Some f1)), False))
        (if isComplete f1 then sv_handleFrame env c (with_Clients t (setFrame (sv_Clients t) c None)) f1
          else Some (with_Clients t (setFrame (sv_Clients t) c (Some f1)), False))"
        by (simp add: sim_handleFrame sim_put assms)
      then show ?thesis
        unfolding read_packet_resume [OF Some u [unfolded fr1]] read_packet_resume [OF fr [unfolded Some] u [unfolded fr1]]
        by (rule sim_res_bind) (simp add: sim_read_rest)
    qed
  qed
qed

definition sim_opt :: "bool \<Rightarrow> int \<Rightarrow> Server option \<Rightarrow> Server option \<Rightarrow> bool" where
  "sim_opt re c r q \<longleftrightarrow> (case (r, q) of (None, None) \<Rightarrow> True | (Some s, Some t) \<Rightarrow> sim re c s t | _ \<Rightarrow> False)"

lemma sim_reader_conn:
  assumes "sim re c s t"
  shows "sim_opt re c (reader_conn env s c recv) (reader_conn env t c recv)"
proof (cases recv)
  case None
  then show ?thesis using sim_ClientRemove [OF assms] by (simp add: reader_conn_def sim_opt_def)
next
  case (Some p)
  show ?thesis
    using Some sim_read_packet [OF assms, of env p] sim_ClientRemove [OF assms, of env]
    by (cases "read_packet env c s p"; cases "read_packet env c t p") (auto simp: reader_conn_def sim_opt_def sim_emit)
qed

text \<open>A step for another connection does not touch it.\<close>

lemma other_emit [simp]: "d \<noteq> c \<Longrightarrow> sim re c (emit s d e) t = sim re c s t"
  by (simp add: sim_def)

lemma other_Send [simp]: "d \<noteq> c \<Longrightarrow> sim re c (fst (sv_Send env s d p)) t = sim re c s t"
  by (simp add: sv_Send_def Let_def)

lemma other_put [simp]:
  "d \<noteq> c \<Longrightarrow> sim re c (with_Clients s (setFrame (sv_Clients s) d x)) t = sim re c s t"
  "d \<noteq> c \<Longrightarrow> sim re c (with_Clients s (setFrames (setFrame (sv_Clients s) d x) d y)) t = sim re c s t"
  by (simp_all add: sim_def)

lemma other_ClientRemove [simp]: "d \<noteq> c \<Longrightarrow> sim re c (ClientRemove env s d) t = sim re c s t"
  by (simp add: sim_def ClientRemove_def Let_def split: option.splits)

lemma other_closing [simp]:
  "d \<noteq> c \<Longrightarrow> sim re c (sv_handleBadRequest env s d) t = sim re c s t"
  "d \<noteq> c \<Longrightarrow> sim re c (sv_handleInvalidData env s d) t = sim re c s t"
  "d \<noteq> c \<Longrightarrow> sim re c (sv_handleClose env s d f) t = sim re c s t"
  "d \<noteq> c \<Longrightarrow> sim re c (sv_handlePing env s d f) t = sim re c s t"
  by (simp_all add: sv_handleBadRequest_def sv_handleInvalidData_def sv_handleClose_def sv_handlePing_def Let_def split_beta)

definition keeps :: "bool \<Rightarrow> int \<Rightarrow> Server \<Rightarrow> (Server \<times> bool) option \<Rightarrow> bool" where
  "keeps re c s r \<longleftrightarrow> (\<forall>s1 b. r = Some (s1, b) \<longrightarrow> sim re c s1 s)"

lemma keeps_simps [simp]: "keeps re c s None" "keeps re c s (Some (s1, b)) \<longleftrightarrow> sim re c s1 s"
  by (simp_all add: keeps_def)

lemma other_finFrames:
  "d \<noteq> c \<Longrightarrow> finFrames (sv_Clients s) d f = Some (k, m) \<Longrightarrow> sim re c (with_Clients s k) t = sim re c s t"
  by (auto simp: finFrames_def sim_def getFrame_def getFrames_def bind_Some_conv split: option.splits)

lemma keeps_handleFragment:
  assumes "d \<noteq> c"
  shows "keeps re c s (sv_handleFragment env s d f)"
proof (cases "finFrames (sv_Clients s) d f")
  case None
  then show ?thesis unfolding sv_handleFragment_def Let_def using assms by simp
next
  case (Some p)
  obtain k m where p: "p = (k, m)" by (cases p)
  from other_finFrames [OF assms Some [unfolded p]] show ?thesis
    unfolding sv_handleFragment_def Let_def using assms by (simp add: Some p)
qed

lemma keeps_handleFrame: "d \<noteq> c \<Longrightarrow> keeps re c s (sv_handleFrame env d s f)"
  by (simp add: sv_handleFrame_def keeps_handleFragment)

lemma keeps_bind:
  assumes "keeps re c s r" "\<And>s1 b. sim re c s1 s \<Longrightarrow> keeps re c s1 (g (s1, b))"
  shows "keeps re c s (Option.bind r g)"
  using assms unfolding keeps_def by (auto simp: bind_Some_conv) (metis sim_trans)

lemma keeps_trans: "sim re c s1 s \<Longrightarrow> keeps re c s1 r \<Longrightarrow> keeps re c s r"
  using sim_trans by (auto simp: keeps_def)

lemma keeps_read_frames: "d \<noteq> c \<Longrightarrow> keeps re c s (read_frames env d s fs)"
proof (induction fs arbitrary: s)
  case (Cons f fs)
  have "keeps re c s (do { (s, isClosing) \<leftarrow> sv_handleFrame env d s f; if isClosing then Some (s, True) else read_frames env d s fs })"
    by (rule keeps_bind [OF keeps_handleFrame [OF Cons.prems]]) (simp add: Cons)
  moreover have "keeps re c s (read_frames env d (with_Clients s (setFrame (sv_Clients s) d (Some f))) fs)"
    by (rule keeps_trans [OF _ Cons.IH [OF Cons.prems]]) (simp add: Cons.prems)
  ultimately show ?case by simp
qed simp

lemma keeps_read_rest: "d \<noteq> c \<Longrightarrow> keeps re c s (read_rest env d s p)"
  by (cases "Unpack p") (auto simp: read_rest_def keeps_read_frames split: option.splits)

lemma keeps_read_packet:
  assumes "d \<noteq> c"
  shows "keeps re c s (read_packet env d s p)"
proof (cases "getFrame (sv_Clients s) d")
  case None
  then show ?thesis using keeps_read_rest [OF assms] by (simp add: read_packet_def)
next
  case (Some f)
  show ?thesis
  proof (cases "unpack f p")
    case None
    then show ?thesis by (simp add: read_packet_def Some)
  next
    case u: (Some fr1)
    obtain f1 r where fr1: "fr1 = (f1, r)" by (cases fr1)
    let ?s = "with_Clients s (setFrame (sv_Clients s) d None)"
    have k: "keeps re c s (sv_handleFrame env d ?s f1)"
      by (rule keeps_trans [OF _ keeps_handleFrame [OF assms]]) (simp add: assms)
    have "keeps re c s (if isComplete f1 then sv_handleFrame env d ?s f1
        else Some (with_Clients s (setFrame (sv_Clients s) d (Some f1)), False))" using k assms by simp
    then show ?thesis
      unfolding read_packet_resume [OF Some u [unfolded fr1]]
      by (rule keeps_bind) (simp add: keeps_read_rest assms)
  qed
qed

lemma other_reader_conn:
  assumes "d \<noteq> c" "reader_conn env s d recv = Some s1"
  shows "sim re c s1 s"
proof (cases "recv = None \<or> recv = Some []")
  case True
  then show ?thesis using assms by (auto simp: reader_conn_def)
next
  case False
  then obtain p where p: "recv = Some p" "p \<noteq> []" by auto
  then obtain s2 b where "read_packet env d s p = Some (s2, b)" "s1 = (if b then s2 else emit s2 d Reregistered)"
    using assms(2) by (auto simp: reader_conn_def bind_Some_conv)
  with keeps_read_packet [OF assms(1), of re s env p] assms(1) show ?thesis by simp
qed

lemma sim_ping_one: "sim re c s t \<Longrightarrow> sim re c (ping_one env s c) (ping_one env t c)"
  using sim_Send [of re c s t env "NewFramePing 0 False []"]
  by (auto simp: ping_one_def Let_def split_beta intro: sim_ClientRemove)

lemma other_ping_one [simp]: "d \<noteq> c \<Longrightarrow> sim re c (ping_one env s d) t = sim re c s t"
  by (simp add: ping_one_def Let_def split_beta)

lemma ping_loop_sim:
  "distinct cs \<Longrightarrow> sim re c (ping_loop env s cs) (if c \<in> set cs then ping_one env s c else s)"
proof (induction cs arbitrary: s)
  case (Cons d cs)
  note IH = Cons.IH [of "ping_one env s d"]
  show ?case
  proof (cases "d = c")
    case True
    with IH Cons.prems show ?thesis by simp
  next
    case False
    have "sim re c (if c \<in> set cs then ping_one env (ping_one env s d) c else ping_one env s d)
        (if c \<in> set (d # cs) then ping_one env s c else s)"
      using False by (auto intro!: sim_ping_one)
    with IH Cons.prems show ?thesis unfolding ping_loop.simps by (auto elim: sim_trans)
  qed
qed simp

lemma sim_tick:
  assumes "sim re c s t" "server_ok s" "server_ok t"
  shows "sim re c (pinger_tick env s) (pinger_tick env t)"
proof -
  have *: "sim re c (pinger_tick env u) (if cm_ctx (sv_Clients u) c \<noteq> None then ping_one env u c else u)" if u: "server_ok u" for u
  proof -
    obtain cs where cs: "registers (sv_Clients u) cs" using u by (auto simp: server_ok_def)
    have "distinct (cm_All (sv_Clients u))" using cm.rel_distinct [OF cs] cm.all_conns [OF cs] by simp
    moreover have "c \<in> set (cm_All (sv_Clients u)) \<longleftrightarrow> cm_ctx (sv_Clients u) c \<noteq> None"
      using cm.all_iff [OF cs, of c] by (simp add: cm_Context_def)
    ultimately show ?thesis using ping_loop_sim [of "cm_All (sv_Clients u)" re c env u] by (simp add: pinger_tick_def)
  qed
  have "cm_ctx (sv_Clients s) c = cm_ctx (sv_Clients t) c" using assms(1) by (simp add: sim_def)
  then have "sim re c (if cm_ctx (sv_Clients s) c \<noteq> None then ping_one env s c else s)
      (if cm_ctx (sv_Clients t) c \<noteq> None then ping_one env t c else t)"
    using sim_ping_one [OF assms(1)] assms(1) by simp
  with * [OF assms(2)] * [OF assms(3)] show ?thesis using sim_trans sim_sym by meson
qed

lemma sim_clientAdd: "sim re c s t \<Longrightarrow> sim re c (fst (clientAdd env s (Some ctx) c True)) (fst (clientAdd env t (Some ctx) c True))"
  by (simp add: sim_def clientAdd_def Let_def)

lemma other_clientAdd: "d \<noteq> c \<Longrightarrow> sim re c (fst (clientAdd env s (Some ctx) d True)) s"
  by (simp add: sim_def clientAdd_def Let_def)

lemma sim_forget: "sim re c s t \<Longrightarrow>
    sim re c (with_Clients s (cm_remove (sv_Clients s) c)) (with_Clients t (cm_remove (sv_Clients t) c))"
  by (simp add: sim_def)

lemma other_forget: "d \<noteq> c \<Longrightarrow> sim re c (with_Clients s (cm_remove (sv_Clients s) d)) s"
  by (simp add: sim_def)

lemma sim_reply:
  assumes "sim re c s t"
  shows "sim re c (text_reply env te routes req ctx s c pl) (text_reply env te routes req ctx t c pl)"
proof -
  have "sim re c (fst (sendResponse env te s c res)) (fst (sendResponse env te t c res)) \<and>
      snd (sendResponse env te s c res) = snd (sendResponse env te t c res)" for res
    using sim_Send [OF assms] assms by (auto simp: sendResponse_def split: option.splits)
  then show ?thesis by (auto simp: text_reply_def Let_def split_beta intro: sim_ClientRemove)
qed

lemma sim_handleText:
  assumes "sim re c s t"
  shows "sim re c (sv_handleText env te routes req s c pl) (sv_handleText env te routes req t c pl)"
  using sim_reply [OF assms] assms by (simp add: sv_handleText_def sim_def)

lemma other_reply: "d \<noteq> c \<Longrightarrow> sim re c (text_reply env te routes req ctx s d pl) s"
  by (simp add: text_reply_def sendResponse_def Let_def split_beta split: option.splits)

text \<open>The events that concern a connection; a whole round of pings concerns all of them.\<close>

fun concerns :: "int \<Rightarrow> event \<Rightarrow> bool" where
  "concerns c (EvRead d _) = (d = c)"
| "concerns c EvTick = True"
| "concerns c (EvPing d) = (d = c)"
| "concerns c (EvForget d) = (d = c)"
| "concerns c (EvAdd _ d) = (d = c)"
| "concerns c (EvText d _ _) = (d = c)"
| "concerns c (EvReply _ d _ _) = (d = c)"
| "concerns c (EvRemove d) = (d = c)"

lemma sim_step:
  assumes "sim re c s t" "server_ok s" "server_ok t" "concerns c e"
  shows "sim_opt re c (ev_step env te routes s e) (ev_step env te routes t e)"
  using assms sim_reader_conn [OF assms(1)] sim_tick [OF assms(1-3)] sim_clientAdd [OF assms(1)] sim_handleText [OF assms(1)]
    sim_ClientRemove [OF assms(1)] sim_ping_one [OF assms(1)] sim_forget [OF assms(1)] sim_reply [OF assms(1)]
  by (cases e) (auto simp: sim_opt_def)

lemma other_step:
  assumes "ev_step env te routes s e = Some s1" "\<not> concerns c e"
  shows "sim re c s1 s"
proof (cases e)
  case (EvRead d recv)
  then show ?thesis using assms other_reader_conn [of d c env s recv s1] by simp
next
  case (EvAdd ctx d)
  then show ?thesis using assms other_clientAdd [of d c re env s ctx] by simp
next
  case (EvText d pl req)
  then show ?thesis using assms other_reply [of d c re env te routes req _ s pl] by (auto simp: sv_handleText_def)
next
  case (EvReply ctx d pl req)
  then show ?thesis using assms other_reply [of d c re env te routes req ctx s pl] by simp
next
  case (EvForget d)
  then show ?thesis using assms other_forget [of d c re s] by simp
qed (use assms in auto)

lemma isolation:
  assumes "sim re c s t" "server_ok s" "server_ok t"
  shows "\<exists>s1 t1. run env te routes s es = Some s1 \<and> run env te routes t (filter (concerns c) es) = Some t1 \<and> sim re c s1 t1"
  using assms
proof (induction es arbitrary: s t)
  case (Cons e es)
  obtain s1 where s1: "ev_step env te routes s e = Some s1" "server_ok s1" using ev_step_ok [OF Cons.prems(2)] by blast
  show ?case
  proof (cases "concerns c e")
    case True
    obtain t1 where t1: "ev_step env te routes t e = Some t1" "server_ok t1" using ev_step_ok [OF Cons.prems(3)] by blast
    have "sim re c s1 t1" using sim_step [OF Cons.prems True, of env te routes] s1 t1 by (simp add: sim_opt_def)
    from Cons.IH [OF this s1(2) t1(2)] True s1 t1 show ?thesis by simp
  next
    case False
    have "sim re c s1 t" using other_step [OF s1(1) False, of re] Cons.prems(1) by (blast intro: sim_trans)
    from Cons.IH [OF this s1(2) Cons.prems(3)] False s1 show ?thesis by simp
  qed
qed simp

subsection \<open>Reading a connection in packets\<close>

lemma sim_reads:
  assumes "each (read_packet env c) s ps = Some (s1, False)" "sim False c t s" "[] \<notin> set ps" "server_ok t"
  shows "\<exists>t1. run env te routes t (map (\<lambda>p. EvRead c (Some p)) ps) = Some t1 \<and> sim False c t1 s1"
  using assms
proof (induction ps arbitrary: s t)
  case (Cons p ps)
  from Cons.prems(1) obtain s2 where s2: "read_packet env c s p = Some (s2, False)" "each (read_packet env c) s2 ps = Some (s1, False)"
    by (auto simp: bind_Some_conv split: if_splits)
  have p: "p \<noteq> []" using Cons.prems(3) by auto
  obtain t2 where t2: "read_packet env c t p = Some (t2, False)" "sim False c t2 s2"
    using sim_read_packet [OF Cons.prems(2), of env p] s2(1) by (cases "read_packet env c t p") auto
  have e: "ev_step env te routes t (EvRead c (Some p)) = Some (emit t2 c Reregistered)"
    using p t2(1) by (simp add: reader_conn_def)
  have "sim False c (emit t2 c Reregistered) s2" using t2(2) by (simp add: sim_def)
  moreover have "server_ok (emit t2 c Reregistered)" using ev_step_ok [OF Cons.prems(4), of env te routes "EvRead c (Some p)"] e by simp
  ultimately show ?case using Cons.IH [OF s2(2)] Cons.prems(3) e by simp
qed simp

subsection \<open>Properties\<close>

text \<open>
  C2: No sequence of steps makes the server panic or corrupts its registry: from a new server, for
  every sequence of packets with any bytes, pings of single connections and whole ping rounds,
  additions in one or in two parts, removals, and message handlers in one part or with the context they
  read before, each of them run as one step, and whichever sends fail, every step returns and the run
  reaches a state, in which \<open>All\<close> lists each open connection once, exactly those that have a context,
  and \<open>Conns\<close> lists exactly the connections of the user, each once. Interleavings inside of a step are
  not covered, nor are concurrent accesses to the map of contexts, which \<open>handleText\<close> reads without the
  lock.
\<close>

theorem server_run_safe:
  "\<exists>s1. run env te routes NewServer es = Some s1 \<and>
    distinct (cm_All (sv_Clients s1)) \<and> set (cm_All (sv_Clients s1)) = {c. cm_Context (sv_Clients s1) c \<noteq> None} \<and>
    (\<forall>uid. uid = 0 \<or> distinct (cm_Conns (sv_Clients s1) uid) \<and>
      set (cm_Conns (sv_Clients s1) uid) = {c. \<exists>ctx. cm_Context (sv_Clients s1) c = Some ctx \<and> ctx_uid ctx = uid})"
proof -
  have "server_ok NewServer"
    using registers_new by (auto simp: server_ok_def NewServer_def fragments_ok_def newClientManager_def)
  from run_ok [OF this, of env te routes es] obtain s1 cs where
    s1: "run env te routes NewServer es = Some s1" "registers (sv_Clients s1) cs" by (auto simp: server_ok_def)
  have "distinct (cm_All (sv_Clients s1))" using cm.rel_distinct [OF s1(2)] cm.all_conns [OF s1(2)] by simp
  moreover have "set (cm_All (sv_Clients s1)) = {c. cm_Context (sv_Clients s1) c \<noteq> None}"
    using cm.all_iff [OF s1(2)] by blast
  moreover have "distinct (cm_Conns (sv_Clients s1) uid) \<and>
      set (cm_Conns (sv_Clients s1) uid) = {c. \<exists>ctx. cm_Context (sv_Clients s1) c = Some ctx \<and> ctx_uid ctx = uid}"
    if "uid \<noteq> 0" for uid
    using cm.conns_distinct [OF s1(2) that] cm.conns_iff [OF s1(2) that] by blast
  ultimately show ?thesis using s1(1) by blast
qed

text \<open>
  C3: Connections do not interfere: whatever the other connections send and however the events are
  interleaved, the server does exactly the same for a connection, the same effects in the same
  order, and keeps the same context, unfinished frame and fragments for it, as if only the events
  that concern it (its own, and the ping timer) had taken place.
\<close>

theorem connections_isolated:
  assumes "server_ok s"
  shows "\<exists>s1 s2. run env te routes s es = Some s1 \<and> run env te routes s (filter (concerns c) es) = Some s2 \<and>
    trace_of s1 c = trace_of s2 c \<and> cm_Context (sv_Clients s1) c = cm_Context (sv_Clients s2) c \<and>
    getFrame (sv_Clients s1) c = getFrame (sv_Clients s2) c \<and> getFrames (sv_Clients s1) c = getFrames (sv_Clients s2) c"
  using isolation [OF sim_refl [of True c s] assms assms, of env te routes es] by (auto simp: sim_def cm_Context_def)

definition env0 :: serverEnv where
  "env0 = \<lparr>send_fails = \<lambda>c n. True, hasHandleClientAdd = False, hasHandleClientRemove = False,
     hasHandleRsvControl_sv = False, hasHandlePong_sv = False\<rparr>"

definition textEnv0 :: "nat textEnv" where
  "textEnv0 = \<lparr>unmarshal = \<lambda>pl req. (req, None), marshal = \<lambda>res. Some [], parseQuery = \<lambda>q. ([], False),
     callHandler = \<lambda>h ctx req. (response_reset, req)\<rparr>"

lemma server_ok_new: "server_ok NewServer"
  using registers_new by (auto simp: server_ok_def NewServer_def fragments_ok_def newClientManager_def)

theorem connections_isolated_witness:
  "\<exists>s1 s2. run env0 textEnv0 newRootRoute NewServer [EvAdd context_Background 3, EvRead 4 (Some [0x81]), EvTick] = Some s1 \<and>
    run env0 textEnv0 newRootRoute NewServer
      (filter (concerns 3) [EvAdd context_Background 3, EvRead 4 (Some [0x81]), EvTick]) = Some s2 \<and>
    trace_of s1 3 = trace_of s2 3 \<and> cm_Context (sv_Clients s1) 3 = cm_Context (sv_Clients s2) 3 \<and>
    getFrame (sv_Clients s1) 3 = getFrame (sv_Clients s2) 3 \<and> getFrames (sv_Clients s1) 3 = getFrames (sv_Clients s2) 3"
  by (rule connections_isolated [OF server_ok_new])

text \<open>
  C4: The server reads each connection correctly however the network divides it and whatever happens
  on the others: when the packets of a connection, among any steps for other connections and with no
  other step for this one (no ping of it and no whole ping round either), hold the frames of its
  messages cut anywhere, where the frames are those that \<open>NewFrame\<close> builds, so each is final, with
  payloads of any length but 127 bytes, and handling the frames one by one does not close the
  connection, the server ends up with the same context, fragments and effects for it, up to its
  registrations with the poll, as after handling the frames one by one.
\<close>

theorem server_any_packets:
  assumes "server_ok s" "list_all valid_message ms" "[] \<notin> set ps" "concat ps = concat (map encode ms)"
    "getFrame (sv_Clients s) c = None" "filter (concerns c) es = map (\<lambda>p. EvRead c (Some p)) ps"
    "each (sv_handleFrame env c) s (map decoded ms) = Some (s1, False)"
  shows "\<exists>s2. run env te routes s es = Some s2 \<and>
    filter (\<lambda>e. e \<noteq> Reregistered) (trace_of s2 c) = filter (\<lambda>e. e \<noteq> Reregistered) (trace_of s1 c) \<and>
    cm_Context (sv_Clients s2) c = cm_Context (sv_Clients s1) c \<and> getFrame (sv_Clients s2) c = None \<and>
    getFrames (sv_Clients s2) c = getFrames (sv_Clients s1) c"
proof -
  have "each (read_packet env c) s ps = Some (s1, False)"
    using sr.steps_messages [OF assms(2,3), where s = s and env = env and c = c] assms(4,5,7)
    by (simp add: pending_def ws.stream_def setFrame_same)
  from sim_reads [OF this sim_refl assms(3,1)] obtain t1 where
    t1: "run env te routes s (map (\<lambda>p. EvRead c (Some p)) ps) = Some t1" "sim False c t1 s1" by blast
  obtain s2 where s2: "run env te routes s es = Some s2" "sim False c s2 t1"
    using isolation [OF sim_refl [of False c s] assms(1,1), of env te routes es] t1(1) assms(6) by auto
  have "getFrame (sv_Clients s1) c = None"
    using sr.each_keeps [OF assms(7,5)] decoded_whole_list [OF assms(2)] by simp
  with s2 t1(2) show ?thesis by (auto simp: sim_def cm_Context_def visible_def)
qed

theorem server_any_packets_witness:
  "\<exists>s2. run env0 textEnv0 newRootRoute NewServer [EvRead 3 (Some [0x81, 0x81]), EvRead 4 None, EvRead 3 (Some [5, 0, 0, 0, 109])] = Some s2 \<and>
    filter (\<lambda>e. e \<noteq> Reregistered) (trace_of s2 3) =
      filter (\<lambda>e. e \<noteq> Reregistered) (trace_of (emit NewServer 3 (GoText [104])) 3) \<and>
    cm_Context (sv_Clients s2) 3 = cm_Context (sv_Clients (emit NewServer 3 (GoText [104]))) 3 \<and>
    getFrame (sv_Clients s2) 3 = None \<and>
    getFrames (sv_Clients s2) 3 = getFrames (sv_Clients (emit NewServer 3 (GoText [104]))) 3"
proof (rule server_any_packets [OF server_ok_new, where ms = "[(5, OpcodeText, True, [104])]" and ps = "[[0x81, 0x81], [5, 0, 0, 0, 109]]"])
  show "each (sv_handleFrame env0 3) NewServer (map decoded [(5, OpcodeText, True, [104])]) =
      Some (emit NewServer 3 (GoText [104]), False)"
    by (simp add: decoded_def sv_handleFrame_def isValid_def received_fields sv_handleFragment_def getFrames_def
        finFrames_def NewServer_def newClientManager_def ws_consts Let_def)
qed (simp_all add: valid_message_def encode_def NewFrame_bytes mask_bytes_def ws_consts NewServer_def newClientManager_def
    getFrame_def LittleEndian_PutUint32_def)

text \<open>What \<open>ClientRemove\<close> does to the connection.\<close>

definition removal :: "serverEnv \<Rightarrow> Context option \<Rightarrow> effect list" where
  "removal env ctx =
     (case ctx of Some x \<Rightarrow> if hasHandleClientRemove env then [CallClientRemove x] else [] | None \<Rightarrow> []) @ [Unregistered, Closed]"

lemma trace_ClientRemove: "trace_of (ClientRemove env s c) c = trace_of s c @ removal env (cm_Context (sv_Clients s) c)"
  by (simp add: ClientRemove_def removal_def Let_def split: option.splits)

lemma trace_Send: "trace_of (fst (sv_Send env s c p)) c = trace_of s c @ [Sent p (snd (sv_Send env s c p))]"
  by (simp add: sv_Send_def Let_def)

lemma read_whole_frames:
  assumes "list_all valid_message ms" "ms \<noteq> []" "getFrame (sv_Clients s) c = None"
  shows "read_packet env c s (concat (map encode ms)) = each (sv_handleFrame env c) s (map decoded ms)"
proof -
  have ne: "concat (map encode ms) \<noteq> []" using assms(1,2) by (cases ms) (auto dest: ws.enc_ne)
  have "Unpack_loop (concat (map encode ms)) [] = Some (map decoded ms)"
    using ws.all_stream [OF assms(1)] by (simp add: ws.stream_def)
  then show ?thesis
    using decoded_whole_list [OF assms(1)] by (simp add: sr.step_None [OF ne assms(3)] feed_complete)
qed

text \<open>
  A frame that the client did not mask closes the connection, as the protocol demands: whatever
  its opcode and payload, the server sends a CLOSE frame with status 1002, removes the connection
  with its context, unfinished frame and fragments, takes it from the poll and closes it, and does
  not register it again.
\<close>

theorem unmasked_frame_closes:
  assumes "valid_message (rnd, op, False, pl)" "getFrame (sv_Clients s) c = None"
  shows "\<exists>s1 ok. reader_conn env s c (Some (NewFrame rnd op False pl)) = Some s1 \<and>
    trace_of s1 c = trace_of s c @ [Sent (NewFrameClose 0 False StatusBadRequest []) ok, Received] @
      removal env (cm_Context (sv_Clients s) c) \<and>
    cm_Context (sv_Clients s1) c = None \<and> getFrame (sv_Clients s1) c = None \<and> getFrames (sv_Clients s1) c = None"
proof -
  have "decoded (rnd, op, False, pl) = received rnd op False pl" by (simp add: decoded_def)
  then have "sv_handleFrame env c s (decoded (rnd, op, False, pl)) = Some (sv_handleBadRequest env s c, True)"
    by (simp add: sv_handleFrame_def isValid_def received_fields ws_consts)
  then have "read_packet env c s (NewFrame rnd op False pl) = Some (sv_handleBadRequest env s c, True)"
    using read_whole_frames [of "[(rnd, op, False, pl)]" s c env] assms by (simp add: encode_def)
  then have "reader_conn env s c (Some (NewFrame rnd op False pl)) = Some (sv_handleBadRequest env s c)"
    by (simp add: reader_conn_def NewFrame_ne)
  moreover have "trace_of (sv_handleBadRequest env s c) c = trace_of s c @
      [Sent (NewFrameClose 0 False StatusBadRequest []) (snd (sv_Send env s c (NewFrameClose 0 False StatusBadRequest []))), Received] @
      removal env (cm_Context (sv_Clients s) c)"
    by (simp add: sv_handleBadRequest_def Let_def split_beta trace_ClientRemove trace_Send)
  ultimately show ?thesis by (auto simp: cm_Context_def)
qed

theorem unmasked_frame_closes_witness:
  "\<exists>s1 ok. reader_conn env0 NewServer 3 (Some (NewFrame 1 OpcodeText False [104])) = Some s1 \<and>
    trace_of s1 3 = trace_of NewServer 3 @ [Sent (NewFrameClose 0 False StatusBadRequest []) ok, Received] @
      removal env0 (cm_Context (sv_Clients NewServer) 3) \<and>
    cm_Context (sv_Clients s1) 3 = None \<and> getFrame (sv_Clients s1) 3 = None \<and> getFrames (sv_Clients s1) 3 = None"
  by (rule unmasked_frame_closes)
    (simp_all add: valid_message_def ws_consts getFrame_def NewServer_def newClientManager_def)

text \<open>
  When the answer to a PING cannot be sent, the connection is removed and its descriptor closed,
  but the reader goes on with the rest of the packet: with a second PING in it the descriptor is
  closed a second time, when it may already belong to another connection, and then registered
  with the poll again.
\<close>

theorem failed_pong_closes_twice:
  assumes "getFrame (sv_Clients s) c = None" "\<forall>n. send_fails env c n" "length p1 \<le> 125" "length p2 \<le> 125"
  shows "\<exists>s1 q1 q2. reader_conn env s c (Some (NewFrame r1 OpcodePing True p1 @ NewFrame r2 OpcodePing True p2)) = Some s1 \<and>
    trace_of s1 c = trace_of s c @ [Sent q1 False] @ removal env (cm_Context (sv_Clients s) c) @
      [Sent q2 False, Unregistered, Closed, Reregistered]"
proof -
  define ms where "ms = [(r1, OpcodePing, True, p1), (r2, OpcodePing, True, p2)]"
  have v: "list_all valid_message ms" "ms \<noteq> []" using assms(3,4) by (auto simp: ms_def valid_message_def ws_consts)
  have ping: "sv_handleFrame env c t (decoded (r, OpcodePing, True, p)) =
      Some (sv_handlePing env t c (received r OpcodePing True p), False)" if "length p \<le> 125" for t r p
  proof -
    have "word_of_nat (length p) \<le> (125 :: u64)"
      using that by (simp add: word_le_nat_alt unat_of_nat)
    then show ?thesis by (simp add: decoded_def sv_handleFrame_def isValid_def received_fields ws_consts)
  qed
  have fail: "sv_handlePing env t c f = ClientRemove env (emit t c (Sent q False)) c"
    if "q = snd (pack 0 (f\<lparr>opcode := OpcodePong, masked := 0\<rparr>))" for t f q
    using assms(2) that by (simp add: sv_handlePing_def sv_Send_def Let_def)
  define q1 where "q1 = snd (pack 0 ((received r1 OpcodePing True p1)\<lparr>opcode := OpcodePong, masked := 0\<rparr>))"
  define q2 where "q2 = snd (pack 0 ((received r2 OpcodePing True p2)\<lparr>opcode := OpcodePong, masked := 0\<rparr>))"
  define s2 where "s2 = ClientRemove env (emit s c (Sent q1 False)) c"
  define s3 where "s3 = ClientRemove env (emit s2 c (Sent q2 False)) c"
  have "each (sv_handleFrame env c) s (map decoded ms) = Some (s3, False)"
    using ping [OF assms(3)] ping [OF assms(4)] fail [OF q1_def] fail [OF q2_def] by (simp add: ms_def s2_def s3_def)
  then have "read_packet env c s (concat (map encode ms)) = Some (s3, False)" using read_whole_frames [OF v assms(1)] by simp
  then have "reader_conn env s c (Some (NewFrame r1 OpcodePing True p1 @ NewFrame r2 OpcodePing True p2)) =
      Some (emit s3 c Reregistered)"
    by (simp add: reader_conn_def ms_def encode_def NewFrame_ne)
  moreover have "trace_of (emit s3 c Reregistered) c = trace_of s c @ [Sent q1 False] @ removal env (cm_Context (sv_Clients s) c) @
      [Sent q2 False, Unregistered, Closed, Reregistered]"
    by (simp add: s3_def s2_def trace_ClientRemove cm_Context_def, simp add: removal_def)
  ultimately show ?thesis by blast
qed

theorem failed_pong_closes_twice_witness:
  "\<exists>s1 q1 q2. reader_conn env0 NewServer 3 (Some (NewFrame 1 OpcodePing True [] @ NewFrame 2 OpcodePing True [])) = Some s1 \<and>
    trace_of s1 3 = trace_of NewServer 3 @ [Sent q1 False] @ removal env0 (cm_Context (sv_Clients NewServer) 3) @
      [Sent q2 False, Unregistered, Closed, Reregistered]"
  by (rule failed_pong_closes_twice) (simp_all add: getFrame_def NewServer_def newClientManager_def env0_def)

text \<open>
  A client of the package is taken in: when the server has neither an authentication handler nor a
  handler for new clients, and receives the request of a client with a target without spaces, a host of
  at least five bytes, a random key and no additional headers, and its answer can be sent, it answers
  with a response that this client accepts, leaving exactly the bytes behind it, registers the
  connection and adds it with the background context, and \<open>All\<close> then lists it.
\<close>

theorem client_upgraded:
  assumes "server_ok s" "path \<noteq> []" "32 \<notin> set path" "13 \<notin> set path" "5 \<le> length host" "10 \<notin> set host" "13 \<notin> set host"
    "length (handshake_request path host (generateHandshakeKey r1 r2) []) \<le> cap"
    "\<not> send_fails env c (length (filter is_sent (trace_of s c)))" "\<not> hasHandleClientAdd env"
  shows "\<exists>s1. upgrade env None h cap True s c (Some (handshake_request path host (generateHandshakeKey r1 r2) [])) = Some s1 \<and>
    trace_of s1 c = trace_of s c @ [Sent (upgrade_response (generateHandshakeKey r1 r2)) True, Registered] \<and>
    (\<forall>frames. handleHandshake (generateHandshakeAccept (generateHandshakeKey r1 r2))
      (upgrade_response (generateHandshakeKey r1 r2) @ frames) = Some (Inr frames)) \<and>
    cm_Context (sv_Clients s1) c = Some context_Background \<and> c \<in> set (cm_All (sv_Clients s1)) \<and> server_ok s1"
proof -
  have key: "b \<in> set (generateHandshakeKey r1 r2) \<Longrightarrow> 32 < b \<and> b < 127" for b
    unfolding generateHandshakeKey_def by (rule base64_printable)
  have "host \<noteq> []" using assms(5) by auto
  then have "carried path host (generateHandshakeKey r1 r2)"
    using assms(2-7) key_length [of r1 r2] key [of 10] key [of 13] by (auto simp: carried_def)
  from parse_request [OF this _ assms(8), of h] assms(5) obtain h1 where
    h1: "parse h (handshake_request path host (generateHandshakeKey r1 r2) []) cap = Some (h1, None)"
      "hs_Key h1 = generateHandshakeKey r1 r2" by (auto simp: Header_Write_def)
  have ne: "handshake_request path host (generateHandshakeKey r1 r2) [] \<noteq> []" by (simp add: handshake_request_def str_def)
  define t where "t = emit (emit s c (Sent (upgrade_response (generateHandshakeKey r1 r2)) True)) c Registered"
  define s1 where "s1 = with_Clients t (cm_add (sv_Clients t) context_Background c)"
  have u: "upgrade env None h cap True s c (Some (handshake_request path host (generateHandshakeKey r1 r2) [])) = Some s1"
    using ne h1 assms(9,10)
    by (simp add: upgrade_def handleUpgrade_def sv_Send_def clientAdd_def s1_def t_def Let_def)
  have ok: "server_ok s1"
    using assms(1) by (auto simp: server_ok_def s1_def t_def fragments_ok_def add_fields intro: registers_add)
  then obtain cs where cs: "registers (sv_Clients s1) cs" by (auto simp: server_ok_def)
  have ctx: "cm_Context (sv_Clients s1) c = Some context_Background" by (simp add: cm_Context_def s1_def)
  then have "c \<in> set (cm_All (sv_Clients s1))" using cm.all_iff [OF cs, of c] by simp
  with u ok ctx show ?thesis by (auto simp: s1_def t_def handleHandshake_upgrade)
qed

theorem client_upgraded_witness:
  "\<exists>s1. upgrade (env0\<lparr>send_fails := \<lambda>c n. False\<rparr>) None newHandshake 144 True NewServer 3
      (Some (handshake_request (str ''/'') (str ''a.com'') (generateHandshakeKey 1 2) [])) = Some s1 \<and>
    trace_of s1 3 = trace_of NewServer 3 @ [Sent (upgrade_response (generateHandshakeKey 1 2)) True, Registered] \<and>
    (\<forall>frames. handleHandshake (generateHandshakeAccept (generateHandshakeKey 1 2))
      (upgrade_response (generateHandshakeKey 1 2) @ frames) = Some (Inr frames)) \<and>
    cm_Context (sv_Clients s1) 3 = Some context_Background \<and> 3 \<in> set (cm_All (sv_Clients s1)) \<and> server_ok s1"
  by (rule client_upgraded [OF server_ok_new])
    (simp_all add: request_length [OF key_length] str_def Header_Write_def env0_def)

end
