(* ===== verification/DnsHeader.thy ===== *)
theory DnsHeader
  imports Ascii Bytes
begin

section \<open>DNS header and question sections (lib/dns/sectionheader.go, sectionquestion.go, dns.go)\<close>

text \<open>
  The constants of \<open>dns.go\<close>, the header section with its packing and unpacking, and the question
  section. A method that changes its receiver returns the new value; a slice that a method writes
  into (the packet whose labels are turned to lower case in place) is returned as well. Errors are
  values of \<open>dns_error\<close>, a run-time panic is \<open>None\<close>.
\<close>

unbundle bit_operations_syntax

datatype dns_error = ErrLabelSizeLimit | ErrIPv4Length | ErrIPv6Length
  | ErrInvalidQuestion | ErrMissingQuestion | ErrOPTLength

definition maskPointer :: byte where "maskPointer = 0xC0"
definition maskOffset :: byte where "maskOffset = 0x3F"
definition maskOPTDO :: u32 where "maskOPTDO = 0x8000"
definition maxLabelSize :: byte where "maxLabelSize = 63"
definition maxUDPPacketSize :: nat where "maxUDPPacketSize = 4096"
definition rdataIPv4Size :: nat where "rdataIPv4Size = 4"
definition rdataIPv6Size :: nat where "rdataIPv6Size = 16"
definition sectionHeaderSize :: nat where "sectionHeaderSize = 12"

definition OpCodeQuery :: byte where "OpCodeQuery = 0"
definition OpCodeIQuery :: byte where "OpCodeIQuery = 1"
definition OpCodeStatus :: byte where "OpCodeStatus = 2"
definition RCodeOK :: byte where "RCodeOK = 0"

definition QueryTypeA :: u16 where "QueryTypeA = 1"
definition QueryTypeNS :: u16 where "QueryTypeNS = 2"
definition QueryTypeMD :: u16 where "QueryTypeMD = 3"
definition QueryTypeMF :: u16 where "QueryTypeMF = 4"
definition QueryTypeCNAME :: u16 where "QueryTypeCNAME = 5"
definition QueryTypeSOA :: u16 where "QueryTypeSOA = 6"
definition QueryTypeMB :: u16 where "QueryTypeMB = 7"
definition QueryTypeMG :: u16 where "QueryTypeMG = 8"
definition QueryTypeMR :: u16 where "QueryTypeMR = 9"
definition QueryTypeNULL :: u16 where "QueryTypeNULL = 10"
definition QueryTypeWKS :: u16 where "QueryTypeWKS = 11"
definition QueryTypePTR :: u16 where "QueryTypePTR = 12"
definition QueryTypeHINFO :: u16 where "QueryTypeHINFO = 13"
definition QueryTypeMINFO :: u16 where "QueryTypeMINFO = 14"
definition QueryTypeMX :: u16 where "QueryTypeMX = 15"
definition QueryTypeTXT :: u16 where "QueryTypeTXT = 16"
definition QueryTypeAAAA :: u16 where "QueryTypeAAAA = 28"
definition QueryTypeSRV :: u16 where "QueryTypeSRV = 33"
definition QueryTypeOPT :: u16 where "QueryTypeOPT = 41"
definition QueryClassIN :: u16 where "QueryClassIN = 1"

lemmas query_types =
  QueryTypeA_def QueryTypeNS_def QueryTypeMD_def QueryTypeMF_def QueryTypeCNAME_def QueryTypeSOA_def
  QueryTypeMB_def QueryTypeMG_def QueryTypeMR_def QueryTypeNULL_def QueryTypeWKS_def QueryTypePTR_def
  QueryTypeHINFO_def QueryTypeMINFO_def QueryTypeMX_def QueryTypeTXT_def QueryTypeAAAA_def
  QueryTypeSRV_def QueryTypeOPT_def

definition headerIsQuery :: byte where "headerIsQuery = 0x00"
definition headerIsResponse :: byte where "headerIsResponse = 0x80"
definition headerIsAA :: byte where "headerIsAA = 0x04"
definition headerIsTC :: byte where "headerIsTC = 0x02"
definition headerIsRD :: byte where "headerIsRD = 0x01"
definition headerIsRA :: byte where "headerIsRA = 0x80"

lemmas header_flags = headerIsQuery_def headerIsResponse_def headerIsAA_def headerIsTC_def
  headerIsRD_def headerIsRA_def

subsection \<open>Header\<close>

record SectionHeader =
  ID :: u16
  IsQuery :: bool
  Op :: byte
  IsAA :: bool
  IsTC :: bool
  IsRD :: bool
  IsRA :: bool
  RCode :: byte
  QDCount :: u16
  ANCount :: u16
  NSCount :: u16
  ARCount :: u16

definition header_Reset :: "SectionHeader \<Rightarrow> SectionHeader" where
  "header_Reset hdr = \<lparr>ID = 0, IsQuery = True, Op = OpCodeQuery, IsAA = False, IsTC = False, IsRD = True,
     IsRA = False, RCode = RCodeOK, QDCount = 0, ANCount = 0, NSCount = 0, ARCount = 0\<rparr>"

definition header_pack :: "SectionHeader \<Rightarrow> bytes" where
  "header_pack hdr =
     (let b0 = (if IsQuery hdr then headerIsQuery else headerIsResponse);
          b0 = b0 OR (0x78 AND push_bit 2 (Op hdr));
          b0 = (if IsRD hdr then b0 OR headerIsRD else b0);
          (b0, b1) = (if \<not> IsQuery hdr then
              let b0 = (if IsAA hdr then b0 OR headerIsAA else b0);
                  b0 = (if IsTC hdr then b0 OR headerIsTC else b0);
                  b1 = (if IsRA hdr then headerIsRA else 0)
              in (b0, b1 OR (0x0F AND RCode hdr))
            else (b0, 0));
          packet = [ucast (drop_bit 8 (ID hdr)), ucast (ID hdr), b0, b1];
          packet = AppendUint16 packet (QDCount hdr);
          packet = AppendUint16 packet (ANCount hdr);
          packet = AppendUint16 packet (NSCount hdr)
      in AppendUint16 packet (ARCount hdr))"

definition header_unpack :: "SectionHeader \<Rightarrow> bytes \<Rightarrow> SectionHeader option" where
  "header_unpack hdr packet = do {
     ident \<leftarrow> ReadUint16 packet 0;
     p2 \<leftarrow> idx packet 2;
     let hdr = hdr\<lparr>ID := ident\<rparr>;
     let hdr = (if p2 AND headerIsResponse = headerIsResponse then hdr\<lparr>IsQuery := False\<rparr> else hdr);
     let hdr = hdr\<lparr>Op := drop_bit 2 (p2 AND 0x78)\<rparr>;
     let hdr = (if p2 AND headerIsAA = headerIsAA then hdr\<lparr>IsAA := True\<rparr> else hdr);
     let hdr = (if p2 AND headerIsTC = headerIsTC then hdr\<lparr>IsTC := True\<rparr> else hdr);
     let hdr = hdr\<lparr>IsRD := (p2 AND headerIsRD = headerIsRD)\<rparr>;
     p3 \<leftarrow> idx packet 3;
     let hdr = (if p3 AND headerIsRA = headerIsRA then hdr\<lparr>IsRA := True\<rparr> else hdr);
     let hdr = hdr\<lparr>RCode := 0x0F AND p3\<rparr>;
     qd \<leftarrow> ReadUint16 packet 4;
     an \<leftarrow> ReadUint16 packet 6;
     ns \<leftarrow> ReadUint16 packet 8;
     ar \<leftarrow> ReadUint16 packet 10;
     Some (hdr\<lparr>QDCount := qd, ANCount := an, NSCount := ns, ARCount := ar\<rparr>) }"

subsection \<open>Question\<close>

record SectionQuestion =
  QName :: bytes
  QType :: u16
  QClass :: u16

definition question_Reset :: "SectionQuestion \<Rightarrow> SectionQuestion" where
  "question_Reset q = q\<lparr>QName := [], QType := QueryTypeA, QClass := QueryClassIN\<rparr>"

definition question_size :: "SectionQuestion \<Rightarrow> nat" where
  "question_size q = length (QName q) + 6"

text \<open>Turning a byte of the packet to lower case in place.\<close>

definition lower_at :: "bytes \<Rightarrow> nat \<Rightarrow> (bytes \<times> byte) option" where
  "lower_at packet x = do {
     c \<leftarrow> idx packet x;
     if c \<ge> 65 \<and> c \<le> 90 then Some (packet[x := c + 32], c + 32) else Some (packet, c) }"

text \<open>
  The inner loop of \<open>SectionQuestion.unpack\<close> over the bytes of one label. The packet is the slice
  after the header, the result the packet, the name and the position, or the error.
\<close>

fun question_label :: "nat \<Rightarrow> bytes \<Rightarrow> bytes \<Rightarrow> nat \<Rightarrow> (bytes \<times> bytes \<times> nat \<times> dns_error option) option" where
  "question_label 0 packet name x = Some (packet, name, x, None)"
| "question_label (Suc k) packet name x = do {
     (packet, c) \<leftarrow> lower_at packet x;
     if x + 1 \<ge> length packet then Some (packet, name @ [c], x + 1, Some ErrInvalidQuestion)
     else question_label k packet (name @ [c]) (x + 1) }"

lemma lower_at_length: "lower_at packet x = Some (packet1, c) \<Longrightarrow> length packet1 = length packet"
  by (auto simp: lower_at_def bind_Some_conv split: if_splits)

lemma question_label_bounds:
  "question_label k packet name x = Some (packet1, name1, y, e) \<Longrightarrow>
     length packet1 = length packet \<and> x \<le> y"
proof (induction k arbitrary: packet name x)
  case (Suc k)
  then obtain p c where l: "lower_at packet x = Some (p, c)" by (auto simp: bind_Some_conv)
  show ?case
  proof (cases "x + 1 \<ge> length p")
    case True
    then show ?thesis using Suc.prems l lower_at_length [OF l] by auto
  next
    case False
    then have "question_label k p (name @ [c]) (x + 1) = Some (packet1, name1, y, e)" using Suc.prems l by simp
    from Suc.IH [OF this] lower_at_length [OF l] show ?thesis by simp
  qed
qed auto

function question_loop :: "byte \<Rightarrow> bytes \<Rightarrow> bytes \<Rightarrow> nat \<Rightarrow> (bytes \<times> bytes \<times> nat \<times> dns_error option) option" where
  "question_loop count packet name x =
     (if count = 0 then
        (case idx packet x of
           None \<Rightarrow> None
         | Some count \<Rightarrow>
             (if x + 1 \<ge> length packet then Some (packet, name @ [46], x + 1, Some ErrInvalidQuestion)
              else question_loop count packet (name @ [46]) (x + 1)))
      else
        (case question_label (unat count) packet name x of
           None \<Rightarrow> None
         | Some (packet, name, x, Some e) \<Rightarrow> Some (packet, name, x, Some e)
         | Some (packet, name, x, None) \<Rightarrow>
             (case idx packet x of
                None \<Rightarrow> None
              | Some count \<Rightarrow>
                  (if count = 0 then Some (packet, name, x + 1, None)
                   else if x + 1 \<ge> length packet then Some (packet, name, x + 1, Some ErrInvalidQuestion)
                   else question_loop count packet (name @ [46]) (x + 1)))))"
  by pat_completeness auto
termination
  by (relation "measure (\<lambda>(count, packet, name, x). length packet - x)")
    (auto dest!: question_label_bounds)

declare question_loop.simps [simp del]

definition question_unpack ::
  "SectionQuestion \<Rightarrow> bytes \<Rightarrow> (SectionQuestion \<times> bytes \<times> dns_error option) option" where
  "question_unpack q packet =
     (if length packet = 0 then Some (q, packet, None)
      else do {
        count \<leftarrow> idx packet 0;
        (packet, name, x, e) \<leftarrow> question_loop count packet (QName q) 1;
        let q = q\<lparr>QName := name\<rparr>;
        case e of
          Some e \<Rightarrow> Some (q, packet, Some e)
        | None \<Rightarrow>
            if x + 4 > length packet then Some (q, packet, Some ErrInvalidQuestion)
            else do {
              t \<leftarrow> ReadUint16 packet x;
              c \<leftarrow> ReadUint16 packet (x + 2);
              Some (q\<lparr>QType := t, QClass := c\<rparr>, packet, None) } })"

subsection \<open>Header lemmas\<close>

definition flags0 :: "bool \<Rightarrow> byte \<Rightarrow> bool \<Rightarrow> bool \<Rightarrow> bool \<Rightarrow> byte" where
  "flags0 query op rd aa tc = (if query then 0 else 0x80) OR (0x78 AND push_bit 2 op) OR
     (if rd then 1 else 0) OR (if aa then 4 else 0) OR (if tc then 2 else 0)"

lemma and_78: "(0x78 AND (x :: byte)) AND m = x AND (0x78 AND m)"
  by (simp add: ac_simps)

lemma flags0_bits:
  "flags0 query op rd aa tc AND 0x80 = (if query then 0 else 0x80)"
  "flags0 query op rd aa tc AND 4 = (if aa then 4 else 0)"
  "flags0 query op rd aa tc AND 2 = (if tc then 2 else 0)"
  "flags0 query op rd aa tc AND 1 = (if rd then 1 else 0)"
  "flags0 query op rd aa tc AND 0x78 = push_bit 2 op AND 0x78"
  by (simp_all add: flags0_def bit.conj_disj_distrib2 and_78)

lemma op_bits:
  "drop_bit 2 (push_bit 2 op AND 0x78) = (op :: byte) AND 0x1E"
  "drop_bit 3 (push_bit 2 op AND 0x78) = (drop_bit 1 op AND 0xF :: byte)"
proof -
  have "\<forall>n \<in> set [0..<256]. drop_bit 2 (push_bit 2 (of_nat n) AND 0x78) = (of_nat n :: byte) AND 0x1E \<and>
      drop_bit 3 (push_bit 2 (of_nat n) AND 0x78) = (drop_bit 1 (of_nat n) AND 0xF :: byte)"
    by code_simp
  from bspec [OF this, of "unat op"] unat_byte_less [of op]
  show "drop_bit 2 (push_bit 2 op AND 0x78) = op AND 0x1E"
    "drop_bit 3 (push_bit 2 op AND 0x78) = drop_bit 1 op AND 0xF" by simp_all
qed

lemma flags1_bits:
  "((if ra then 0x80 else 0) OR (0x0F AND rc)) AND 0x80 = (if ra then 0x80 else 0 :: byte)"
  "0x0F AND ((if ra then 0x80 else 0) OR (0x0F AND rc)) = (rc AND 0x0F :: byte)"
  by (simp_all add: bit.conj_disj_distrib2 bit.conj_disj_distrib and.commute [of rc] and.assoc
      and.left_commute [of _ rc] flip: and.assoc [of 15 15] and.assoc [of 15 128])

lemma header_pack_eq:
  "header_pack hdr =
     AppendUint16 [] (ID hdr) @
     [flags0 (IsQuery hdr) (Op hdr) (IsRD hdr) (\<not> IsQuery hdr \<and> IsAA hdr) (\<not> IsQuery hdr \<and> IsTC hdr),
      if IsQuery hdr then 0 else (if IsRA hdr then 0x80 else 0) OR (0x0F AND RCode hdr)] @
     AppendUint16 [] (QDCount hdr) @ AppendUint16 [] (ANCount hdr) @
     AppendUint16 [] (NSCount hdr) @ AppendUint16 [] (ARCount hdr)"
  by (simp add: header_pack_def flags0_def AppendUint16_def header_flags Let_def or.assoc)

lemma length_header_pack [simp]: "length (header_pack hdr) = 12"
  by (simp add: header_pack_eq AppendUint16_def)

text \<open>What the receiver sees of a header: the fields that are sent, at the width that is sent.\<close>

definition header_seen :: "SectionHeader \<Rightarrow> SectionHeader \<Rightarrow> SectionHeader" where
  "header_seen hdr r = r\<lparr>ID := ID hdr, IsQuery := IsQuery r \<and> IsQuery hdr, Op := Op hdr AND 0x1E,
     IsAA := IsAA r \<or> (\<not> IsQuery hdr \<and> IsAA hdr), IsTC := IsTC r \<or> (\<not> IsQuery hdr \<and> IsTC hdr),
     IsRD := IsRD hdr, IsRA := IsRA r \<or> (\<not> IsQuery hdr \<and> IsRA hdr),
     RCode := (if IsQuery hdr then 0 else RCode hdr AND 0x0F),
     QDCount := QDCount hdr, ANCount := ANCount hdr, NSCount := NSCount hdr, ARCount := ARCount hdr\<rparr>"

lemma header_unpack_pack:
  "header_unpack r (header_pack hdr @ rest) = Some (header_seen hdr r)"
proof -
  let ?p = "header_pack hdr @ rest"
  let ?b0 = "flags0 (IsQuery hdr) (Op hdr) (IsRD hdr) (\<not> IsQuery hdr \<and> IsAA hdr) (\<not> IsQuery hdr \<and> IsTC hdr)"
  let ?b1 = "if IsQuery hdr then 0 else (if IsRA hdr then 0x80 else 0) OR (0x0F AND RCode hdr)"
  note A = AppendUint16_def
  have rd: "ReadUint16 ?p 0 = Some (ID hdr)" "ReadUint16 ?p 4 = Some (QDCount hdr)"
    "ReadUint16 ?p 6 = Some (ANCount hdr)" "ReadUint16 ?p 8 = Some (NSCount hdr)"
    "ReadUint16 ?p 10 = Some (ARCount hdr)"
    by (simp_all add: header_pack_eq A ReadUint16_def idx_def u16_bytes)
  have b: "idx ?p 2 = Some ?b0" "idx ?p 3 = Some ?b1"
    by (simp_all add: header_pack_eq A idx_def)
  have ra: "?b1 AND 0x80 = (if \<not> IsQuery hdr \<and> IsRA hdr then 0x80 else 0)"
    "0x0F AND ?b1 = (if IsQuery hdr then 0 else RCode hdr AND 0x0F)"
    using flags1_bits [of "IsRA hdr" "RCode hdr"] by auto
  show ?thesis
    unfolding header_unpack_def rd b header_flags
    by (simp only: Let_def Option.bind.simps(2) ra flags0_bits op_bits)
      (cases r; simp add: header_seen_def; auto)
qed

text \<open>
  A header that is packed and read by a receiver with a reset header is seen as it was sent:
  identifier, recursion desired and the counts always; for a response also the other flags and the
  low four bits of the response code. Of the operation code only the bits 1 to 4 survive.
\<close>

theorem header_roundtrip:
  "header_unpack (header_Reset h0) (header_pack hdr @ rest) =
     Some (if IsQuery hdr
       then hdr\<lparr>Op := Op hdr AND 0x1E, IsAA := False, IsTC := False, IsRA := False, RCode := 0\<rparr>
       else hdr\<lparr>Op := Op hdr AND 0x1E, RCode := RCode hdr AND 0x0F\<rparr>)"
  unfolding header_unpack_pack by (cases hdr) (simp add: header_seen_def header_Reset_def)

text \<open>
  The operation code is packed one bit too low: the four bits of the operation code field (the
  bits 3 to 6 of the third byte) hold half of it, so that a status request (2) is sent as an
  inverse query (1) and an inverse query as a standard query.
\<close>

theorem header_opcode_halved:
  "unat (drop_bit 3 (header_pack hdr ! 2 AND 0x78)) = (unat (Op hdr) div 2) mod 16"
proof -
  have "header_pack hdr ! 2 AND 0x78 = push_bit 2 (Op hdr) AND 0x78"
    by (simp add: header_pack_eq AppendUint16_def flags0_bits)
  moreover have "unat (drop_bit 1 op AND 0xF) = (unat op div 2) mod 16" for op :: byte
  proof -
    have "unat (drop_bit 1 op AND mask 4) = take_bit 4 (unat (drop_bit 1 op))"
      by (simp only: take_bit_eq_mask unsigned_take_bit_eq flip: take_bit_eq_mask)
    then show ?thesis by (simp add: mask_eq_exp_minus_1 take_bit_eq_mod unsigned_drop_bit_eq drop_bit_eq_div unat_div)
  qed
  ultimately show ?thesis by (simp only: op_bits)
qed

end
