(* ===== verification/NetIP.thy ===== *)
theory NetIP
  imports Prelude
begin

section \<open>Internet addresses of the Go standard library (package net)\<close>

text \<open>
  The part of \<open>net.IP\<close> that the DNS code uses: \<open>ParseIP\<close>, \<open>To4\<close> and \<open>String\<close>. An address is the
  list of its 4 or 16 bytes, a string the list of its bytes, and \<open>nil\<close> is \<open>None\<close>. \<open>ParseIP\<close> is that of
  the Go releases before 1.17, which accept leading zeros in decimal parts.
\<close>

subsection \<open>Parsing\<close>

definition netBig :: nat where "netBig = 0xFFFFFF"

text \<open>\<open>dtoi\<close> and \<open>xtoi\<close>: the number, and the rest of the string; \<open>None\<close> when not ok.\<close>

fun dtoi_loop :: "nat \<Rightarrow> bytes \<Rightarrow> (nat \<times> bytes) option" where
  "dtoi_loop n [] = Some (n, [])"
| "dtoi_loop n (c # s) =
     (if 48 \<le> c \<and> c \<le> 57 then
        let n = n * 10 + unat (c - 48) in if n \<ge> netBig then None else dtoi_loop n s
      else Some (n, c # s))"

definition dtoi :: "bytes \<Rightarrow> (nat \<times> bytes) option" where
  "dtoi s = do { (n, rest) \<leftarrow> dtoi_loop 0 s; if length rest = length s then None else Some (n, rest) }"

definition xdigit :: "byte \<Rightarrow> nat option" where
  "xdigit c =
     (if 48 \<le> c \<and> c \<le> 57 then Some (unat (c - 48))
      else if 97 \<le> c \<and> c \<le> 102 then Some (unat (c - 97) + 10)
      else if 65 \<le> c \<and> c \<le> 70 then Some (unat (c - 65) + 10)
      else None)"

fun xtoi_loop :: "nat \<Rightarrow> bytes \<Rightarrow> (nat \<times> bytes) option" where
  "xtoi_loop n [] = Some (n, [])"
| "xtoi_loop n (c # s) =
     (case xdigit c of
        Some d \<Rightarrow> let n = n * 16 + d in if n \<ge> netBig then None else xtoi_loop n s
      | None \<Rightarrow> Some (n, c # s))"

definition xtoi :: "bytes \<Rightarrow> (nat \<times> bytes) option" where
  "xtoi s = do { (n, rest) \<leftarrow> xtoi_loop 0 s; if length rest = length s then None else Some (n, rest) }"

fun parseIPv4_loop :: "nat \<Rightarrow> bool \<Rightarrow> bytes \<Rightarrow> bytes option" where
  "parseIPv4_loop 0 dot s = (if s = [] then Some [] else None)"
| "parseIPv4_loop (Suc k) dot s =
     (case s of
        [] \<Rightarrow> None
      | c # s' \<Rightarrow>
          if dot \<and> c \<noteq> 46 then None
          else do {
            (n, rest) \<leftarrow> dtoi (if dot then s' else s);
            if n > 0xFF then None
            else do { ps \<leftarrow> parseIPv4_loop k True rest; Some (of_nat n # ps) } })"

definition v4InV6Prefix :: bytes where
  "v4InV6Prefix = replicate 10 0 @ [0xFF, 0xFF]"

definition parseIPv4 :: "bytes \<Rightarrow> bytes option" where
  "parseIPv4 s = do { p \<leftarrow> parseIPv4_loop 4 False s; Some (v4InV6Prefix @ p) }"

text \<open>
  The loop of \<open>parseIPv6\<close> over at most \<open>k\<close> more groups: the bytes so far, the position of the
  ellipsis, and the rest of the string.
\<close>

fun parseIPv6_loop :: "nat \<Rightarrow> bytes \<Rightarrow> nat option \<Rightarrow> bytes \<Rightarrow> (bytes \<times> nat option \<times> bytes) option" where
  "parseIPv6_loop 0 ip ell s = Some (ip, ell, s)"
| "parseIPv6_loop (Suc k) ip ell s = do {
     (n, rest) \<leftarrow> xtoi s;
     if n > 0xFFFF then None
     else if rest \<noteq> [] \<and> hd rest = 46 then
       (if ell = None \<and> length ip \<noteq> 12 then None
        else if length ip + 4 > 16 then None
        else do { ip4 \<leftarrow> parseIPv4 s; Some (ip @ drop 12 ip4, ell, []) })
     else let ip = ip @ [of_nat (n div 256), of_nat n] in
       (case rest of
          [] \<Rightarrow> Some (ip, ell, [])
        | c # s \<Rightarrow>
            if c \<noteq> 58 \<or> s = [] then None
            else if hd s = 58 then
              (if ell \<noteq> None then None
               else if tl s = [] then Some (ip, Some (length ip), [])
               else parseIPv6_loop k ip (Some (length ip)) (tl s))
            else parseIPv6_loop k ip ell s) }"

definition parseIPv6 :: "bytes \<Rightarrow> bytes option" where
  "parseIPv6 s =
     (let lead = (take 2 s = [58, 58]); ell = (if lead then Some 0 else None); s = (if lead then drop 2 s else s)
      in if lead \<and> s = [] then Some (replicate 16 0)
         else do {
           (ip, ell, s) \<leftarrow> parseIPv6_loop 8 [] ell s;
           if s \<noteq> [] then None
           else if length ip < 16 then
             (case ell of
                None \<Rightarrow> None
              | Some e \<Rightarrow> Some (take e ip @ replicate (16 - length ip) 0 @ drop e ip))
           else if ell \<noteq> None then None
           else Some ip })"

fun ParseIP_loop :: "bytes \<Rightarrow> bytes \<Rightarrow> bytes option" where
  "ParseIP_loop s [] = None"
| "ParseIP_loop s (c # cs) =
     (if c = 46 then parseIPv4 s else if c = 58 then parseIPv6 s else ParseIP_loop s cs)"

definition ParseIP :: "bytes \<Rightarrow> bytes option" where
  "ParseIP s = ParseIP_loop s s"

definition To4 :: "bytes \<Rightarrow> bytes option" where
  "To4 ip =
     (if length ip = 4 then Some ip
      else if length ip = 16 \<and> take 12 ip = v4InV6Prefix then Some (drop 12 ip)
      else None)"

subsection \<open>Printing\<close>

definition decimal :: "byte \<Rightarrow> bytes" where
  "decimal b =
     (let n = unat b in
      (if n \<ge> 100 then [of_nat (48 + n div 100)] else []) @
      (if n \<ge> 10 then [of_nat (48 + n div 10 mod 10)] else []) @ [of_nat (48 + n mod 10)])"

definition hexchar :: "nat \<Rightarrow> byte" where
  "hexchar d = (if d < 10 then of_nat (48 + d) else of_nat (87 + d))"

definition appendHex :: "nat \<Rightarrow> bytes" where
  "appendHex n =
     (if n \<ge> 0x1000 then [hexchar (n div 0x1000)] else []) @
     (if n \<ge> 0x100 then [hexchar (n div 0x100 mod 16)] else []) @
     (if n \<ge> 0x10 then [hexchar (n div 0x10 mod 16)] else []) @ [hexchar (n mod 16)]"

fun groups :: "bytes \<Rightarrow> nat list" where
  "groups (a # b # ps) = (unat a * 256 + unat b) # groups ps"
| "groups _ = []"

text \<open>The first longest run of zero groups: its start and length.\<close>

fun zero_run :: "nat \<Rightarrow> nat list \<Rightarrow> nat \<times> nat \<Rightarrow> nat \<times> nat" where
  "zero_run i [] best = best"
| "zero_run i (g # gs) best =
     (let k = length (takeWhile (\<lambda>x. x = 0) (g # gs))
      in zero_run (i + 1) gs (if k > snd best then (i, k) else best))"

fun print_groups :: "nat \<Rightarrow> nat list \<Rightarrow> nat \<times> nat \<Rightarrow> bytes" where
  "print_groups i [] run = []"
| "print_groups i (g # gs) run =
     (if snd run \<ge> 2 \<and> i = fst run then [58, 58] @ print_groups (i + 1) gs run
      else if snd run \<ge> 2 \<and> fst run < i \<and> i < fst run + snd run then print_groups (i + 1) gs run
      else (if i > 0 \<and> \<not> (snd run \<ge> 2 \<and> i = fst run + snd run) then [58] else []) @
        appendHex g @ print_groups (i + 1) gs run)"

definition IP_String :: "bytes \<Rightarrow> bytes" where
  "IP_String ip =
     (if ip = [] then [60, 110, 105, 108, 62]
      else case To4 ip of
        Some (a # b # c # d # _) \<Rightarrow> decimal a @ [46] @ decimal b @ [46] @ decimal c @ [46] @ decimal d
      | _ \<Rightarrow>
          if length ip \<noteq> 16 then 63 # concat (map (\<lambda>b. [hexchar (unat b div 16), hexchar (unat b mod 16)]) ip)
          else print_groups 0 (groups ip) (zero_run 0 (groups ip) (0, 0)))"

subsection \<open>Printing and parsing IPv4 addresses\<close>

lemma digit_props:
  assumes "d < 10"
  shows "48 \<le> (of_nat (48 + d) :: byte)" "(of_nat (48 + d) :: byte) \<le> 57" "unat (of_nat (48 + d) - 48 :: byte) = d"
    "(of_nat (48 + d) :: byte) \<noteq> 46" "(of_nat (48 + d) :: byte) \<noteq> 58"
proof -
  have u: "unat (of_nat (48 + d) :: byte) = 48 + d" using assms by (simp add: unat_of_nat del: of_nat_add)
  show "48 \<le> (of_nat (48 + d) :: byte)" "(of_nat (48 + d) :: byte) \<le> 57"
    using assms u by (simp_all add: word_le_nat_alt del: of_nat_add)
  show "unat (of_nat (48 + d) - 48 :: byte) = d" using assms by (simp add: unat_of_nat)
  show "(of_nat (48 + d) :: byte) \<noteq> 46" "(of_nat (48 + d) :: byte) \<noteq> 58"
    using assms u by (auto simp: word_unat_eq_iff simp del: of_nat_add)
qed

lemma dtoi_digit:
  "d < 10 \<Longrightarrow> n * 10 + d < netBig \<Longrightarrow> dtoi_loop n (of_nat (48 + d) # s) = dtoi_loop (n * 10 + d) s"
  using digit_props [of d] by (simp add: Let_def not_le del: of_nat_add)

lemma decimal_props: "dtoi_loop 0 (decimal b) = Some (unat b, [])" "decimal b \<noteq> []"
  "46 \<notin> set (decimal b)" "58 \<notin> set (decimal b)"
proof -
  define n where "n = unat b"
  have n: "n < 256" using unat_byte_less [of b] by (simp add: n_def)
  have d: "n div 100 < 10" "n div 10 mod 10 < 10" "n mod 10 < 10" using n by auto
  have eq: "(n div 100 * 10 + n div 10 mod 10) * 10 + n mod 10 = n"
  proof -
    have "n div 100 = n div 10 div 10" by (simp add: div_mult2_eq [of n 10 10, symmetric])
    then have "n div 100 * 10 + n div 10 mod 10 = n div 10" by simp
    then show ?thesis by simp
  qed
  have eq2: "n < 100 \<Longrightarrow> n div 10 mod 10 * 10 + n mod 10 = n" "n < 10 \<Longrightarrow> n mod 10 = n" by simp_all
  have big: "n div 100 < netBig" "n div 100 * 10 + n div 10 mod 10 < netBig" "n div 10 mod 10 < netBig"
    "n < netBig" using n by (auto simp: netBig_def)
  note st = dtoi_digit [where n = 0 and d = "n div 100"] dtoi_digit [where n = 0 and d = "n div 10 mod 10"]
    dtoi_digit [where n = 0 and d = "n mod 10"]
    dtoi_digit [where n = "n div 100" and d = "n div 10 mod 10"]
    dtoi_digit [where n = "n div 100 * 10 + n div 10 mod 10" and d = "n mod 10"]
    dtoi_digit [where n = "n div 10 mod 10" and d = "n mod 10"]
  consider "n \<ge> 100" | "10 \<le> n" "n < 100" | "n < 10" by linarith
  then show "dtoi_loop 0 (decimal b) = Some (unat b, [])"
  proof cases
    case 1
    then show ?thesis
      using st(1,4,5) d eq big unfolding decimal_def n_def [symmetric]
      by (simp add: Let_def del: of_nat_add dtoi_loop.simps(2))
  next
    case 2
    then show ?thesis
      using st(2,6) d eq2(1) big unfolding decimal_def n_def [symmetric]
      by (simp add: Let_def del: of_nat_add dtoi_loop.simps(2))
  next
    case 3
    then show ?thesis
      using st(3) d eq2(2) big unfolding decimal_def n_def [symmetric]
      by (simp add: Let_def del: of_nat_add dtoi_loop.simps(2))
  qed
  show "decimal b \<noteq> []" by (simp add: decimal_def Let_def)
  show "46 \<notin> set (decimal b)" "58 \<notin> set (decimal b)"
    using digit_props(4,5) [OF d(1)] digit_props(4,5) [OF d(2)] digit_props(4,5) [OF d(3)]
    unfolding decimal_def n_def [symmetric] by (auto simp: Let_def simp del: of_nat_add)
qed

lemma dtoi_loop_append:
  "dtoi_loop n s = Some (m, []) \<Longrightarrow> rest = [] \<or> hd rest = 46 \<Longrightarrow> dtoi_loop n (s @ rest) = Some (m, rest)"
proof (induction s arbitrary: n)
  case Nil
  then show ?case by (cases rest) auto
next
  case (Cons c s)
  then show ?case by (auto simp: Let_def split: if_splits)
qed

lemma dtoi_decimal: "rest = [] \<or> hd rest = 46 \<Longrightarrow> dtoi (decimal b @ rest) = Some (unat b, rest)"
  using dtoi_loop_append [OF decimal_props(1), of rest b] decimal_props(2) [of b] by (simp add: dtoi_def)

text \<open>An IPv4 address that is printed and parsed again is the same address.\<close>

lemma parse_print_IPv4:
  assumes "length ip = 4"
  shows "ParseIP (IP_String ip) = Some (v4InV6Prefix @ ip)" "To4 (v4InV6Prefix @ ip) = Some ip"
proof -
  obtain a b c d where ip: "ip = [a, b, c, d]"
    using assms by (auto simp: length_Suc_conv eval_nat_numeral)
  have four: "(4 :: nat) = Suc (Suc (Suc (Suc 0)))" by simp
  let ?s = "decimal a @ 46 # decimal b @ 46 # decimal c @ 46 # decimal d"
  have s: "IP_String ip = ?s" by (simp add: IP_String_def To4_def ip)
  have "ParseIP_loop t (decimal a @ 46 # u) = parseIPv4 t" for t u
  proof -
    have "ParseIP_loop t (xs @ 46 # u) = parseIPv4 t" if "58 \<notin> set xs" for xs using that by (induction xs) auto
    then show ?thesis using decimal_props(4) by blast
  qed
  moreover have step: "parseIPv4_loop (Suc k) dot ((if dot then [46] else []) @ decimal x @ rest) =
      do { ps \<leftarrow> parseIPv4_loop k True rest; Some (x # ps) }" if "rest = [] \<or> hd rest = 46" for k dot x rest
    using dtoi_decimal [OF that, of x] decimal_props(2) [of x] unat_byte_less [of x]
    by (cases "decimal x") auto
  have "parseIPv4_loop 4 False ?s = Some [a, b, c, d]"
    using step [of "46 # decimal b @ 46 # decimal c @ 46 # decimal d" 3 False a]
      step [of "46 # decimal c @ 46 # decimal d" 2 True b] step [of "46 # decimal d" 1 True c] step [of "[]" 0 True d]
    by (simp add: eval_nat_numeral del: parseIPv4_loop.simps(2))
  with calculation show "ParseIP (IP_String ip) = Some (v4InV6Prefix @ ip)"
    by (simp add: ParseIP_def s [unfolded ip] parseIPv4_def ip)
  show "To4 (v4InV6Prefix @ ip) = Some ip" by (simp add: To4_def v4InV6Prefix_def ip)
qed

end
