(* ===== verification/DnsRR.thy ===== *)
theory DnsRR
  imports DnsHeader NetIP
begin

section \<open>DNS resource records (lib/dns/resourcerecord.go, rdata*.go)\<close>

text \<open>
  The resource record, its record data, and how they are read from a packet. A pointer field that
  may be \<open>nil\<close> is an option. The methods return the new record, the packet (labels are turned to
  lower case in place) and the error, inside an option that is \<open>None\<close> for a panic.

  \<open>unpackDomainName\<close> calls itself for every label and for every compression pointer, and a packet
  whose pointers form a circle makes it recurse until the stack overflows. The model counts the
  calls down from \<open>fuel\<close>; running out of it is the same fatal \<open>None\<close>. The methods start with
  \<open>name_fuel\<close> calls, which are enough for every call that ends (\<open>name_fuel_enough\<close> in
  \<open>DnsNameCalls\<close>), so that out of fuel means a recursion without end.
\<close>

unbundle bit_operations_syntax

record RDataSOA =
  MName :: bytes
  RName :: bytes
  Serial :: u32
  Refresh :: u32
  Retry :: u32
  Expire :: u32
  Minimum :: u32

record RDataWKS =
  Address :: bytes
  Protocol :: byte
  BitMap :: bytes

record RDataHINFO =
  CPU :: bytes
  OS :: bytes

record RDataMINFO =
  RMailBox :: bytes
  EmailBox :: bytes

record RDataMX =
  Preference :: u16
  Exchange :: bytes

record RDataOPT =
  ExtRCode :: byte
  Version :: byte
  DO :: bool
  OptCode :: u16
  OptLength :: u16
  OptData :: bytes

record RDataSRV =
  Service :: bytes
  Proto :: bytes
  SrvName :: bytes
  Priority :: u16
  Weight :: u16
  Port :: u16
  Target :: bytes

record ResourceRecord =
  Name :: bytes
  RType :: u16
  Class :: u16
  TTL :: u32
  rdlen :: u16
  rdata :: bytes
  Text :: "bytes option"
  SOA :: "RDataSOA option"
  WKS :: "RDataWKS option"
  HInfo :: "RDataHINFO option"
  MInfo :: "RDataMINFO option"
  MX :: "RDataMX option"
  OPT :: "RDataOPT option"
  SRV :: "RDataSRV option"
  rr_off :: nat
  offTTL :: nat

definition NewResourceRecord :: ResourceRecord where
  "NewResourceRecord = \<lparr>Name = [], RType = 0, Class = 0, TTL = 0, rdlen = 0, rdata = [], Text = Some [],
     SOA = None, WKS = None, HInfo = None, MInfo = None, MX = None, OPT = None, SRV = None,
     rr_off = 0, offTTL = 0\<rparr>"

type_synonym rr_result = "(ResourceRecord \<times> bytes \<times> dns_error option) option"

subsection \<open>Domain names\<close>

fun unpack_label :: "nat \<Rightarrow> bytes \<Rightarrow> bytes \<Rightarrow> nat \<Rightarrow> (bytes \<times> bytes) option" where
  "unpack_label 0 out packet x = Some (out, packet)"
| "unpack_label (Suc k) out packet x = do {
     (packet, c) \<leftarrow> lower_at packet x;
     unpack_label k (out @ [c]) packet (x + 1) }"

type_synonym name_reader = "nat \<Rightarrow> bytes \<Rightarrow> bytes \<Rightarrow> nat \<Rightarrow> (nat \<times> bytes \<times> bytes \<times> dns_error option) option"

text \<open>
  The body of one call, where \<open>again\<close> stands for the recursive call; \<open>None\<close> of the body itself is
  a panic.
\<close>

definition unpackDomainName_call :: "name_reader \<Rightarrow> name_reader" where
  "unpackDomainName_call again off out packet x =
     (if x \<ge> length packet then Some (off, out, packet, Some ErrLabelSizeLimit)
      else let count = packet ! x in
        if count = 0 then Some (off, out, packet, None)
        else if count AND maskPointer = maskPointer then do {
          low \<leftarrow> idx packet (x + 1);
          let offset = (push_bit 8 (ucast (count AND maskOffset)) OR ucast low :: u16);
          again (if off = 0 then x + 1 else off) out packet (unat offset) }
        else if count > maxLabelSize then Some (off, out, packet, Some ErrLabelSizeLimit)
        else do {
          (out, packet) \<leftarrow> unpack_label (unat count) (if out \<noteq> [] then out @ [46] else out) packet (x + 1);
          again off out packet (x + 1 + unat count) })"

text \<open>The function allowed a number of calls.\<close>

fun unpackDomainName :: "nat \<Rightarrow> name_reader" where
  "unpackDomainName 0 off out packet x = None"
| "unpackDomainName (Suc fuel) off out packet x = unpackDomainName_call (unpackDomainName fuel) off out packet x"

text \<open>
  Between two changes of the packet a recursion that ends is at each position at most once, and a
  change turns at least one capital into a small letter for good.
\<close>

definition name_fuel :: "bytes \<Rightarrow> nat" where
  "name_fuel packet = Suc (length packet) * Suc (length packet)"

text \<open>The call on a record: \<open>rr.unpackDomainName(&out, packet, x)\<close>.\<close>

definition unpackName ::
  "ResourceRecord \<Rightarrow> bytes \<Rightarrow> bytes \<Rightarrow> nat \<Rightarrow> (ResourceRecord \<times> bytes \<times> bytes \<times> dns_error option) option" where
  "unpackName rr out packet x = do {
     (off, out, packet, e) \<leftarrow> unpackDomainName (name_fuel packet) (rr_off rr) out packet x;
     Some (rr\<lparr>rr_off := off\<rparr>, out, packet, e) }"

subsection \<open>Record data\<close>

definition wks_unpack :: "bytes \<Rightarrow> RDataWKS option" where
  "wks_unpack packet = do {
     addr \<leftarrow> subslice packet 0 4;
     prot \<leftarrow> idx packet 4;
     bm \<leftarrow> subslice packet 5 (length packet);
     Some \<lparr>Address = addr, Protocol = prot, BitMap = bm\<rparr> }"

definition hinfo_unpack :: "bytes \<Rightarrow> RDataHINFO option" where
  "hinfo_unpack packet = do {
     let x = length (takeWhile (\<lambda>b. b \<noteq> 0) packet);
     cpu \<leftarrow> subslice packet 0 x;
     os \<leftarrow> subslice packet (x + 1) (length packet);
     Some \<lparr>CPU = cpu, OS = os\<rparr> }"

definition unpackA :: "ResourceRecord \<Rightarrow> ResourceRecord \<times> dns_error option" where
  "unpackA rr =
     (if unat (rdlen rr) \<noteq> rdataIPv4Size \<or> length (rdata rr) \<noteq> rdataIPv4Size then (rr, Some ErrIPv4Length)
      else (rr\<lparr>Text := map_option (\<lambda>t. t @ IP_String (rdata rr)) (Text rr)\<rparr>, None))"

definition unpackAAAA :: "ResourceRecord \<Rightarrow> ResourceRecord \<times> dns_error option" where
  "unpackAAAA rr =
     (if unat (rdlen rr) \<noteq> rdataIPv6Size \<or> length (rdata rr) \<noteq> rdataIPv6Size then (rr, Some ErrIPv6Length)
      else (rr\<lparr>Text := map_option (\<lambda>t. t @ IP_String (rdata rr)) (Text rr)\<rparr>, None))"

definition unpackText :: "ResourceRecord \<Rightarrow> bytes \<Rightarrow> nat \<Rightarrow> rr_result" where
  "unpackText rr packet startIdx = do {
     (rr, out, packet, e) \<leftarrow> unpackName rr [] packet startIdx;
     Some (rr\<lparr>Text := Some out\<rparr>, packet, e) }"

text \<open>The position after a name that starts at \<open>x\<close>: behind the pointer, or behind its labels.\<close>

definition after_name :: "ResourceRecord \<Rightarrow> bytes \<Rightarrow> nat \<Rightarrow> ResourceRecord \<times> nat" where
  "after_name rr name x =
     (if rr_off rr > 0 then (rr\<lparr>rr_off := 0\<rparr>, rr_off rr + 1) else (rr, x + length name + 2))"

definition unpackMInfo :: "ResourceRecord \<Rightarrow> bytes \<Rightarrow> nat \<Rightarrow> rr_result" where
  "unpackMInfo rr packet startIdx = do {
     let rr = rr\<lparr>rr_off := 0\<rparr>;
     (rr, rmail, packet, e) \<leftarrow> unpackName rr [] packet startIdx;
     let rr = rr\<lparr>MInfo := Some \<lparr>RMailBox = rmail, EmailBox = []\<rparr>\<rparr>;
     if e \<noteq> None then Some (rr, packet, e)
     else do {
       let (rr, x) = after_name rr rmail startIdx;
       (rr, email, packet, e) \<leftarrow> unpackName rr [] packet x;
       Some (rr\<lparr>MInfo := Some \<lparr>RMailBox = rmail, EmailBox = email\<rparr>\<rparr>, packet, e) } }"

definition unpackMX :: "ResourceRecord \<Rightarrow> bytes \<Rightarrow> nat \<Rightarrow> rr_result" where
  "unpackMX rr packet startIdx = do {
     pref \<leftarrow> ReadInt16 packet startIdx;
     let rr = rr\<lparr>rr_off := 0\<rparr>;
     (rr, ex, packet, e) \<leftarrow> unpackName rr [] packet (startIdx + 2);
     Some (rr\<lparr>MX := Some \<lparr>Preference = pref, Exchange = ex\<rparr>\<rparr>, packet, e) }"

definition unpackSRV :: "ResourceRecord \<Rightarrow> bytes \<Rightarrow> nat \<Rightarrow> rr_result" where
  "unpackSRV rr packet x = do {
     let service = takeWhile (\<lambda>c. c \<noteq> 46) (Name rr);
     let rest = drop (length service + 1) (Name rr);
     let proto = takeWhile (\<lambda>c. c \<noteq> 46) rest;
     let name = drop (length proto + 1) rest;
     prio \<leftarrow> ReadUint16 packet x;
     weight \<leftarrow> ReadUint16 packet (x + 2);
     port \<leftarrow> ReadUint16 packet (x + 4);
     (rr, target, packet, e) \<leftarrow> unpackName rr [] packet (x + 6);
     Some (rr\<lparr>SRV := Some \<lparr>Service = service, Proto = proto, SrvName = name, Priority = prio,
       Weight = weight, Port = port, Target = target\<rparr>\<rparr>, packet, e) }"

definition unpackOPT :: "ResourceRecord \<Rightarrow> bytes \<Rightarrow> nat \<Rightarrow> rr_result" where
  "unpackOPT rr packet x = do {
     let opt = \<lparr>ExtRCode = ucast (drop_bit 24 (TTL rr)), Version = ucast (drop_bit 16 (TTL rr)),
        DO = (TTL rr AND maskOPTDO = maskOPTDO), OptCode = 0, OptLength = 0, OptData = []\<rparr>;
     if rdlen rr = 0 then Some (rr\<lparr>OPT := Some opt\<rparr>, packet, None)
     else do {
       code \<leftarrow> ReadUint16 packet x;
       len \<leftarrow> ReadUint16 packet (x + 2);
       let opt = opt\<lparr>OptCode := code, OptLength := len\<rparr>;
       let endIdx = x + 4 + unat (rdlen rr);
       if endIdx \<ge> length packet then Some (rr\<lparr>OPT := Some opt\<rparr>, packet, Some ErrOPTLength)
       else do {
         data \<leftarrow> subslice packet (x + 4) endIdx;
         Some (rr\<lparr>OPT := Some (opt\<lparr>OptData := data\<rparr>)\<rparr>, packet, None) } } }"

definition unpackSOA :: "ResourceRecord \<Rightarrow> bytes \<Rightarrow> nat \<Rightarrow> rr_result" where
  "unpackSOA rr packet startIdx = do {
     let soa = \<lparr>MName = [], RName = [], Serial = 0, Refresh = 0, Retry = 0, Expire = 0, Minimum = 0\<rparr>;
     let rr = rr\<lparr>rr_off := 0\<rparr>;
     (rr, mname, packet, e) \<leftarrow> unpackName rr [] packet startIdx;
     let soa = soa\<lparr>MName := mname\<rparr>;
     if e \<noteq> None then Some (rr\<lparr>SOA := Some soa\<rparr>, packet, e)
     else do {
       let (rr, x) = after_name rr mname startIdx;
       (rr, rname, packet, e) \<leftarrow> unpackName rr [] packet x;
       let soa = soa\<lparr>RName := rname\<rparr>;
       if e \<noteq> None then Some (rr\<lparr>SOA := Some soa\<rparr>, packet, e)
       else do {
         let (rr, x) = after_name rr rname x;
         serial \<leftarrow> ReadUint32 packet x;
         refresh \<leftarrow> ReadInt32 packet (x + 4);
         retry \<leftarrow> ReadInt32 packet (x + 8);
         expire \<leftarrow> ReadInt32 packet (x + 12);
         minimum \<leftarrow> ReadUint32 packet (x + 16);
         Some (rr\<lparr>SOA := Some (soa\<lparr>Serial := serial, Refresh := refresh, Retry := retry,
           Expire := expire, Minimum := minimum\<rparr>)\<rparr>, packet, None) } } }"

definition unpackRData :: "ResourceRecord \<Rightarrow> bytes \<Rightarrow> nat \<Rightarrow> rr_result" where
  "unpackRData rr packet startIdx =
     (let t = RType rr; endIdx = startIdx + unat (rdlen rr) in
      if t = QueryTypeA then
        (let (rr, e) = unpackA (rr\<lparr>Text := Some []\<rparr>) in Some (rr, packet, e))
      else if t = QueryTypeNS then unpackText rr packet startIdx
      else if t = QueryTypeMD \<or> t = QueryTypeMF then Some (rr, packet, None)
      else if t = QueryTypeCNAME then unpackText rr packet startIdx
      else if t = QueryTypeSOA then unpackSOA rr packet startIdx
      else if t = QueryTypeMB \<or> t = QueryTypeMG \<or> t = QueryTypeMR then unpackText rr packet startIdx
      else if t = QueryTypeNULL then do {
        v \<leftarrow> subslice packet startIdx (startIdx + endIdx);
        Some (rr\<lparr>Text := Some v\<rparr>, packet, None) }
      else if t = QueryTypeWKS then do {
        s \<leftarrow> subslice packet startIdx endIdx;
        w \<leftarrow> wks_unpack s;
        Some (rr\<lparr>WKS := Some w\<rparr>, packet, None) }
      else if t = QueryTypePTR then unpackText rr packet startIdx
      else if t = QueryTypeHINFO then do {
        s \<leftarrow> subslice packet startIdx endIdx;
        h \<leftarrow> hinfo_unpack s;
        Some (rr\<lparr>HInfo := Some h\<rparr>, packet, None) }
      else if t = QueryTypeMINFO then unpackMInfo rr packet startIdx
      else if t = QueryTypeMX then unpackMX rr packet startIdx
      else if t = QueryTypeTXT then do {
        v \<leftarrow> subslice packet (startIdx + 1) endIdx;
        Some (rr\<lparr>Text := Some v\<rparr>, packet, None) }
      else if t = QueryTypeAAAA then
        (let (rr, e) = unpackAAAA (rr\<lparr>Text := Some []\<rparr>) in Some (rr, packet, e))
      else if t = QueryTypeSRV then unpackSRV rr packet startIdx
      else if t = QueryTypeOPT then unpackOPT rr packet startIdx
      else Some (rr, packet, None))"

definition rr_unpack :: "ResourceRecord \<Rightarrow> bytes \<Rightarrow> nat \<Rightarrow> (ResourceRecord \<times> bytes \<times> nat \<times> dns_error option) option" where
  "rr_unpack rr packet startIdx = do {
     (rr, name, packet, e) \<leftarrow> unpackName rr (Name rr) packet startIdx;
     let rr = rr\<lparr>Name := name\<rparr>;
     if e \<noteq> None then Some (rr, packet, startIdx, e)
     else do {
       let x = (if rr_off rr > 0 then rr_off rr + 1
                else if length (Name rr) = 0 then startIdx + 1 else startIdx + length (Name rr) + 2);
       t \<leftarrow> ReadUint16 packet x;
       c \<leftarrow> ReadUint16 packet (x + 2);
       ttl \<leftarrow> ReadUint32 packet (x + 4);
       rl \<leftarrow> ReadUint16 packet (x + 8);
       let rr = rr\<lparr>RType := t, Class := c, offTTL := x + 4, TTL := ttl, rdlen := rl\<rparr>;
       let x = x + 10;
       d \<leftarrow> subslice packet x (x + unat rl);
       let rr = rr\<lparr>rdata := rdata rr @ d\<rparr>;
       (rr, packet, e) \<leftarrow> unpackRData rr packet x;
       Some (rr, packet, x + unat rl, e) } }"

datatype rdata_value = RDBytes bytes | RDSOA RDataSOA | RDWKS RDataWKS | RDHINFO RDataHINFO
  | RDMINFO RDataMINFO | RDMX RDataMX | RDOPT RDataOPT | RDSRV RDataSRV

text \<open>
  \<open>RData\<close>: the outer option is the panic on a \<open>nil\<close> \<open>Text\<close>, the inner one a \<open>nil\<close> result.
\<close>

definition RData :: "ResourceRecord \<Rightarrow> rdata_value option option" where
  "RData rr =
     (let t = RType rr in
      if t \<in> {QueryTypeA, QueryTypeNS, QueryTypeCNAME, QueryTypeMB, QueryTypeMG, QueryTypeMR, QueryTypeNULL,
           QueryTypePTR, QueryTypeTXT, QueryTypeAAAA}
      then map_option (\<lambda>v. Some (RDBytes v)) (Text rr)
      else if t = QueryTypeSOA then Some (map_option RDSOA (SOA rr))
      else if t = QueryTypeWKS then Some (map_option RDWKS (WKS rr))
      else if t = QueryTypeHINFO then Some (map_option RDHINFO (HInfo rr))
      else if t = QueryTypeMINFO then Some (map_option RDMINFO (MInfo rr))
      else if t = QueryTypeMX then Some (map_option RDMX (MX rr))
      else if t = QueryTypeSRV then Some (map_option RDSRV (SRV rr))
      else if t = QueryTypeOPT then Some (map_option RDOPT (OPT rr))
      else Some None)"

end
