(* ===== verification/DnsMessage.thy ===== *)
theory DnsMessage
  imports DnsRR
begin

section \<open>DNS messages (lib/dns/message.go)\<close>

text \<open>
  The message, with the packet it is packed into or unpacked from, and every operation on it but
  \<open>String\<close>. The packing methods return the message and the record they packed: \<open>packDomainName\<close>
  turns the name it is given to lower case in place, and \<open>packRR\<close> sets the position of the TTL.
  The map of names is the empty map where the code sets it to \<open>nil\<close>.
\<close>

unbundle bit_operations_syntax

record Message =
  Header :: SectionHeader
  Question :: SectionQuestion
  Answer :: "ResourceRecord list"
  Authority :: "ResourceRecord list"
  Additional :: "ResourceRecord list"
  Packet :: bytes
  off :: u16
  dnameOff :: "bytes \<rightharpoonup> u16"
  dname :: bytes

definition NewMessage :: Message where
  "NewMessage = \<lparr>Header = \<lparr>ID = 0, IsQuery = True, Op = 0, IsAA = False, IsTC = False, IsRD = True, IsRA = False,
       RCode = 0, QDCount = 1, ANCount = 0, NSCount = 0, ARCount = 0\<rparr>,
     Question = \<lparr>QName = [], QType = QueryTypeA, QClass = QueryClassIN\<rparr>,
     Answer = [], Authority = [], Additional = [], Packet = [], off = 0, dnameOff = Map.empty, dname = []\<rparr>"

fun FilterAnswers_loop :: "u16 \<Rightarrow> ResourceRecord list \<Rightarrow> ResourceRecord list" where
  "FilterAnswers_loop t [] = []"
| "FilterAnswers_loop t (rr # rrs) =
     (if RType rr = t then rr # FilterAnswers_loop t rrs else FilterAnswers_loop t rrs)"

definition FilterAnswers :: "Message \<Rightarrow> u16 \<Rightarrow> ResourceRecord list" where
  "FilterAnswers msg t = FilterAnswers_loop t (Answer msg)"

subsection \<open>Packing domain names\<close>

definition compress :: "Message \<Rightarrow> Message \<times> bool" where
  "compress msg =
     (case dnameOff msg (dname msg) of
        Some o1 \<Rightarrow>
          (msg\<lparr>Packet := Packet msg @ [maskPointer OR ucast (drop_bit 8 o1)] @ [ucast o1], off := off msg + 2\<rparr>, True)
      | None \<Rightarrow> (msg, False))"

text \<open>\<open>strconv.Atoi\<close> of three bytes, of which the code ignores the error.\<close>

definition Atoi3 :: "byte \<Rightarrow> byte \<Rightarrow> byte \<Rightarrow> nat" where
  "Atoi3 a b c =
     (if IsDigit a \<and> IsDigit b \<and> IsDigit c
      then unat (a - 48) * 100 + unat (b - 48) * 10 + unat (c - 48) else 0)"

text \<open>
  The loop of \<open>packDomainName\<close> over the rest of the name (\<open>dname[x:]\<close>), with the length of the label
  so far and the number of bytes written; \<open>nonempty\<close> is \<open>len(dname) > 0\<close>.
\<close>

fun packDomainName_loop :: "bool \<Rightarrow> bool \<Rightarrow> bytes \<Rightarrow> Message \<Rightarrow> byte \<Rightarrow> nat \<Rightarrow> (Message \<times> nat) option" where
  "packDomainName_loop doCompress nonempty [] msg count n = do {
     (msg, n) \<leftarrow> (if count > 0 then do {
         packet \<leftarrow> upd (Packet msg) (unat (off msg)) count;
         Some (msg\<lparr>Packet := packet, off := off msg + ucast (count + 1)\<rparr>, n + unat (count + 1)) }
       else Some (msg, n));
     if nonempty then Some (msg\<lparr>Packet := Packet msg @ [0], off := off msg + 1\<rparr>, n + 1)
     else Some (msg, n) }"
| "packDomainName_loop doCompress nonempty (c # rest) msg count n =
     (if c = 92 then
        (case rest of
           [] \<Rightarrow> Some (msg, n)
         | c # rest \<Rightarrow>
             if IsDigit c then
               (case rest of
                  d2 # d3 # rest \<Rightarrow>
                    let c = of_nat (Atoi3 c d2 d3);
                        c = (if c \<ge> 65 \<and> c \<le> 90 then c + 32 else c)
                    in packDomainName_loop doCompress nonempty rest (msg\<lparr>Packet := Packet msg @ [c]\<rparr>) (count + 1) n
                | _ \<Rightarrow> Some (msg, n))
             else packDomainName_loop doCompress nonempty rest (msg\<lparr>Packet := Packet msg @ [c]\<rparr>) (count + 1) n)
      else if c = 46 then
        (if count = 0 then packDomainName_loop doCompress nonempty rest msg count n
         else (case upd (Packet msg) (unat (off msg)) count of
             None \<Rightarrow> None
           | Some packet \<Rightarrow>
               let msg = msg\<lparr>Packet := packet, dname := rest, off := off msg + ucast (count + 1)\<rparr>;
                   n = n + unat (count + 1);
                   (msg, ok) = (if doCompress then compress msg else (msg, False))
               in if ok then Some (msg, n + 2)
                  else let msg = msg\<lparr>Packet := Packet msg @ [0],
                                     dnameOff := (dnameOff msg)(dname msg \<mapsto> off msg)\<rparr>
                       in if rest = [] then Some (msg, n)
                          else packDomainName_loop doCompress nonempty rest msg 0 n))
      else packDomainName_loop doCompress nonempty rest (msg\<lparr>Packet := Packet msg @ [c]\<rparr>) (count + 1) n)"

definition packDomainName :: "Message \<Rightarrow> bytes \<Rightarrow> bool \<Rightarrow> (Message \<times> nat) option" where
  "packDomainName msg name doCompress =
     (let name = ToLower name;
          msg = msg\<lparr>dname := name\<rparr>;
          (msg, ok) = (if doCompress then compress msg else (msg, False))
      in if ok then Some (msg, 2)
         else let msg = msg\<lparr>Packet := Packet msg @ [0], dnameOff := (dnameOff msg)(dname msg \<mapsto> off msg)\<rparr>
              in packDomainName_loop doCompress (length name > 0) name msg 0 0)"

definition packQuestion :: "Message \<Rightarrow> Message option" where
  "packQuestion msg = do {
     (msg, _) \<leftarrow> packDomainName msg (QName (Question msg)) False;
     let msg = msg\<lparr>Question := (Question msg)\<lparr>QName := ToLower (QName (Question msg))\<rparr>\<rparr>;
     let msg = msg\<lparr>Packet := AppendUint16 (Packet msg) (QType (Question msg))\<rparr>;
     let msg = msg\<lparr>Packet := AppendUint16 (Packet msg) (QClass (Question msg))\<rparr>;
     Some (msg\<lparr>off := off msg + 4\<rparr>) }"

subsection \<open>Packing record data\<close>

type_synonym pack_result = "(Message \<times> ResourceRecord) option"

text \<open>Reserving two bytes for the length of the record data, which is written at \<open>at\<close> in the end.\<close>

definition append16 :: "Message \<Rightarrow> u16 \<Rightarrow> Message" where
  "append16 msg v = msg\<lparr>Packet := AppendUint16 (Packet msg) v, off := off msg + 2\<rparr>"

definition write16 :: "Message \<Rightarrow> u16 \<Rightarrow> u16 \<Rightarrow> Message option" where
  "write16 msg at v = do { p \<leftarrow> WriteUint16 (Packet msg) (unat at) v; Some (msg\<lparr>Packet := p\<rparr>) }"

definition packA :: "Message \<Rightarrow> ResourceRecord \<Rightarrow> pack_result" where
  "packA msg rr = do {
     let msg = append16 msg (of_nat rdataIPv4Size);
     v \<leftarrow> Text rr;
     b \<leftarrow> (case ParseIP v of
        None \<Rightarrow> subslice v 0 rdataIPv4Size
      | Some ip \<Rightarrow> (case To4 ip of
            None \<Rightarrow> subslice ip 0 rdataIPv4Size
          | Some ipv4 \<Rightarrow> Some ipv4));
     Some (msg\<lparr>Packet := Packet msg @ b, off := off msg + of_nat rdataIPv4Size\<rparr>, rr) }"

definition packTextAsDomain :: "Message \<Rightarrow> ResourceRecord \<Rightarrow> pack_result" where
  "packTextAsDomain msg rr = do {
     let at = off msg;
     let msg = append16 msg 0;
     v \<leftarrow> Text rr;
     (msg, n) \<leftarrow> packDomainName msg v True;
     msg \<leftarrow> write16 msg at (of_nat n);
     Some (msg, rr\<lparr>Text := Some (ToLower v)\<rparr>) }"

definition packSOA :: "Message \<Rightarrow> ResourceRecord \<Rightarrow> pack_result" where
  "packSOA msg rr = do {
     let at = off msg;
     let msg = append16 msg 0;
     soa \<leftarrow> SOA rr;
     (msg, n) \<leftarrow> packDomainName msg (MName soa) True;
     (msg, k) \<leftarrow> packDomainName msg (RName soa) True;
     let n = n + k;
     let p = AppendUint32 (Packet msg) (Serial soa);
     let p = AppendInt32 p (Refresh soa);
     let p = AppendInt32 p (Retry soa);
     let p = AppendInt32 p (Expire soa);
     let p = AppendUint32 p (Minimum soa);
     msg \<leftarrow> write16 (msg\<lparr>Packet := p\<rparr>) at (of_nat (n + 20));
     Some (msg\<lparr>off := off msg + of_nat (n + 20)\<rparr>,
       rr\<lparr>SOA := Some (soa\<lparr>MName := ToLower (MName soa), RName := ToLower (RName soa)\<rparr>)\<rparr>) }"

definition packWKS :: "Message \<Rightarrow> ResourceRecord \<Rightarrow> pack_result" where
  "packWKS msg rr = do {
     wks \<leftarrow> WKS rr;
     let n = of_nat (5 + length (BitMap wks));
     let msg = append16 msg n;
     a \<leftarrow> subslice (Address wks) 0 4;
     Some (msg\<lparr>Packet := Packet msg @ a @ [Protocol wks] @ BitMap wks, off := off msg + n\<rparr>, rr) }"

definition packHINFO :: "Message \<Rightarrow> ResourceRecord \<Rightarrow> pack_result" where
  "packHINFO msg rr = do {
     h \<leftarrow> HInfo rr;
     let n = of_nat (length (CPU h) + length (OS h));
     let msg = append16 msg n;
     Some (msg\<lparr>Packet := Packet msg @ CPU h @ OS h, off := off msg + n\<rparr>, rr) }"

definition packMINFO :: "Message \<Rightarrow> ResourceRecord \<Rightarrow> pack_result" where
  "packMINFO msg rr = do {
     let at = off msg;
     let msg = append16 msg 0;
     m \<leftarrow> MInfo rr;
     (msg, n) \<leftarrow> packDomainName msg (RMailBox m) True;
     (msg, k) \<leftarrow> packDomainName msg (EmailBox m) True;
     msg \<leftarrow> write16 msg at (of_nat (n + k));
     Some (msg, rr\<lparr>MInfo := Some \<lparr>RMailBox = ToLower (RMailBox m), EmailBox = ToLower (EmailBox m)\<rparr>\<rparr>) }"

definition packMX :: "Message \<Rightarrow> ResourceRecord \<Rightarrow> pack_result" where
  "packMX msg rr = do {
     let at = off msg;
     let msg = append16 msg 0;
     mx \<leftarrow> MX rr;
     let msg = msg\<lparr>Packet := AppendInt16 (Packet msg) (Preference mx), off := off msg + 2\<rparr>;
     (msg, n) \<leftarrow> packDomainName msg (Exchange mx) True;
     msg \<leftarrow> write16 msg at (of_nat (n + 2));
     Some (msg, rr\<lparr>MX := Some (mx\<lparr>Exchange := ToLower (Exchange mx)\<rparr>)\<rparr>) }"

definition packTXT :: "Message \<Rightarrow> ResourceRecord \<Rightarrow> pack_result" where
  "packTXT msg rr = do {
     v \<leftarrow> Text rr;
     let n = (of_nat (length v) :: u16);
     let msg = append16 msg (n + 1);
     Some (msg\<lparr>Packet := Packet msg @ [ucast n] @ v, off := off msg + n\<rparr>, rr) }"

definition packSRV :: "Message \<Rightarrow> ResourceRecord \<Rightarrow> pack_result" where
  "packSRV msg rr = do {
     let at = off msg;
     let msg = append16 msg 0;
     srv \<leftarrow> SRV rr;
     let msg = append16 msg (Priority srv);
     let msg = append16 msg (Weight srv);
     let msg = append16 msg (Port srv);
     (msg, n) \<leftarrow> packDomainName msg (Target srv) False;
     msg \<leftarrow> write16 msg at (of_nat (n + 6));
     Some (msg, rr\<lparr>SRV := Some (srv\<lparr>Target := ToLower (Target srv)\<rparr>)\<rparr>) }"

definition packAAAA :: "Message \<Rightarrow> ResourceRecord \<Rightarrow> pack_result" where
  "packAAAA msg rr = do {
     let msg = append16 msg (of_nat rdataIPv6Size);
     v \<leftarrow> Text rr;
     b \<leftarrow> (case ParseIP v of
        None \<Rightarrow> subslice v 0 rdataIPv6Size
      | Some ip \<Rightarrow> Some ip);
     let msg = msg\<lparr>Packet := Packet msg @ b, off := off msg + of_nat rdataIPv6Size\<rparr>;
     Some (msg\<lparr>off := off msg + of_nat rdataIPv6Size\<rparr>, rr) }"

definition packOPT :: "Message \<Rightarrow> ResourceRecord \<Rightarrow> pack_result" where
  "packOPT msg rr = do {
     let at = off msg;
     let msg = append16 msg 0;
     opt \<leftarrow> OPT rr;
     if OptLength opt = 0 then Some (msg, rr)
     else do {
       let p = AppendUint16 (Packet msg) (OptCode opt);
       let p = AppendUint16 p (if OptLength opt < 512 then 512 else OptLength opt);
       d \<leftarrow> subslice (OptData opt) 0 (unat (OptLength opt));
       let n = 4 + OptLength opt;
       msg \<leftarrow> write16 (msg\<lparr>Packet := p @ d\<rparr>) at n;
       Some (msg\<lparr>off := off msg + n\<rparr>, rr) } }"

definition packRData :: "Message \<Rightarrow> ResourceRecord \<Rightarrow> pack_result" where
  "packRData msg rr =
     (let t = RType rr in
      if t = QueryTypeA then packA msg rr
      else if t = QueryTypeNS then packTextAsDomain msg rr
      else if t = QueryTypeMD \<or> t = QueryTypeMF then Some (msg, rr)
      else if t = QueryTypeCNAME then packTextAsDomain msg rr
      else if t = QueryTypeSOA then packSOA msg rr
      else if t = QueryTypeMB \<or> t = QueryTypeMG \<or> t = QueryTypeMR \<or> t = QueryTypeNULL then packTextAsDomain msg rr
      else if t = QueryTypeWKS then packWKS msg rr
      else if t = QueryTypePTR then packTextAsDomain msg rr
      else if t = QueryTypeHINFO then packHINFO msg rr
      else if t = QueryTypeMINFO then packMINFO msg rr
      else if t = QueryTypeMX then packMX msg rr
      else if t = QueryTypeTXT then packTXT msg rr
      else if t = QueryTypeSRV then packSRV msg rr
      else if t = QueryTypeAAAA then packAAAA msg rr
      else if t = QueryTypeOPT then packOPT msg rr
      else Some (msg, rr))"

definition packRR :: "Message \<Rightarrow> ResourceRecord \<Rightarrow> pack_result" where
  "packRR msg rr = do {
     (msg, rr) \<leftarrow> (if RType rr = QueryTypeOPT then Some (msg\<lparr>Packet := Packet msg @ [0]\<rparr>, rr)
        else do {
          (msg, _) \<leftarrow> packDomainName msg (Name rr) True;
          Some (msg, rr\<lparr>Name := ToLower (Name rr)\<rparr>) });
     let msg = msg\<lparr>Packet := AppendUint16 (Packet msg) (RType rr)\<rparr>;
     let msg = msg\<lparr>Packet := AppendUint16 (Packet msg) (Class rr), off := off msg + 4\<rparr>;
     rr \<leftarrow> (if RType rr = QueryTypeOPT then do {
          opt \<leftarrow> OPT rr;
          let ttl = push_bit 24 (ucast (ExtRCode opt)) OR push_bit 16 (ucast (Version opt));
          Some (rr\<lparr>TTL := (if DO opt then ttl OR maskOPTDO else ttl)\<rparr>) }
        else Some rr);
     let rr = rr\<lparr>offTTL := unat (off msg)\<rparr>;
     let msg = msg\<lparr>Packet := AppendUint32 (Packet msg) (TTL rr), off := off msg + 4\<rparr>;
     packRData msg rr }"

fun packRRs :: "Message \<Rightarrow> ResourceRecord list \<Rightarrow> (Message \<times> ResourceRecord list) option" where
  "packRRs msg [] = Some (msg, [])"
| "packRRs msg (rr # rrs) = do {
     (msg, rr) \<leftarrow> packRR msg rr;
     (msg, rrs) \<leftarrow> packRRs msg rrs;
     Some (msg, rr # rrs) }"

definition Pack :: "Message \<Rightarrow> (Message \<times> bytes) option" where
  "Pack msg = do {
     let msg = msg\<lparr>dnameOff := Map.empty, Packet := []\<rparr>;
     let msg = msg\<lparr>Header := (Header msg)\<lparr>ANCount := of_nat (length (Answer msg)),
        NSCount := of_nat (length (Authority msg)), ARCount := of_nat (length (Additional msg))\<rparr>\<rparr>;
     let msg = msg\<lparr>Packet := Packet msg @ header_pack (Header msg), off := of_nat sectionHeaderSize\<rparr>;
     msg \<leftarrow> packQuestion msg;
     if IsQuery (Header msg) then Some (msg\<lparr>dnameOff := Map.empty\<rparr>, Packet msg)
     else do {
       (msg, an) \<leftarrow> packRRs msg (Answer msg);
       let msg = msg\<lparr>Answer := an\<rparr>;
       (msg, ns) \<leftarrow> packRRs msg (Authority msg);
       let msg = msg\<lparr>Authority := ns\<rparr>;
       (msg, ar) \<leftarrow> packRRs msg (Additional msg);
       let msg = msg\<lparr>Additional := ar\<rparr>;
       Some (msg\<lparr>dnameOff := Map.empty\<rparr>, Packet msg) } }"

subsection \<open>Other operations\<close>

definition ResetRR :: "Message \<Rightarrow> Message" where
  "ResetRR msg = msg\<lparr>Answer := [], Authority := [], Additional := []\<rparr>"

definition message_Reset :: "Message \<Rightarrow> Message" where
  "message_Reset msg =
     (let msg = msg\<lparr>Header := header_Reset (Header msg), Question := question_Reset (Question msg)\<rparr>;
          msg = ResetRR msg
      in msg\<lparr>Packet := replicate maxUDPPacketSize 0, dname := [], off := 0, dnameOff := Map.empty\<rparr>)"

fun has_expired :: "ResourceRecord list \<Rightarrow> bool" where
  "has_expired [] = False"
| "has_expired (rr # rrs) = (if TTL rr = 0 then True else has_expired rrs)"

definition IsExpired :: "Message \<Rightarrow> bool" where
  "IsExpired msg =
     (if has_expired (Answer msg) then True
      else if length (Answer msg) > 0 then False
      else has_expired (Authority msg))"

definition SetAuthorativeAnswer :: "Message \<Rightarrow> bool \<Rightarrow> Message" where
  "SetAuthorativeAnswer msg isAA =
     (let msg = msg\<lparr>Header := (Header msg)\<lparr>IsAA := isAA\<rparr>\<rparr>; p = Packet msg
      in if length p > 2 then
           msg\<lparr>Packet := p[2 := (if isAA then p ! 2 OR headerIsAA else p ! 2 AND 0xFB)]\<rparr>
         else msg)"

definition SetID :: "Message \<Rightarrow> u16 \<Rightarrow> Message option" where
  "SetID msg i = do {
     let msg = msg\<lparr>Header := (Header msg)\<lparr>ID := i\<rparr>\<rparr>;
     if length (Packet msg) > 2 then do {
       p \<leftarrow> WriteUint16 (Packet msg) 0 i;
       Some (msg\<lparr>Packet := p\<rparr>) }
     else Some msg }"

definition SetQuery :: "Message \<Rightarrow> bool \<Rightarrow> Message" where
  "SetQuery msg isQuery =
     (let msg = msg\<lparr>Header := (Header msg)\<lparr>IsQuery := isQuery\<rparr>\<rparr>; p = Packet msg
      in if length p > 3 then
           msg\<lparr>Packet := (if isQuery then p[2 := p ! 2 AND 0x71, 3 := p ! 3 AND 0x7F]
                          else p[2 := p ! 2 OR headerIsResponse])\<rparr>
         else msg)"

definition SetRecursionDesired :: "Message \<Rightarrow> bool \<Rightarrow> Message" where
  "SetRecursionDesired msg isRD =
     (let msg = msg\<lparr>Header := (Header msg)\<lparr>IsRD := isRD\<rparr>\<rparr>; p = Packet msg
      in if length p > 2 then
           msg\<lparr>Packet := p[2 := (if isRD then p ! 2 OR headerIsRD else p ! 2 AND 0xFE)]\<rparr>
         else msg)"

definition SetResponseCode :: "Message \<Rightarrow> byte \<Rightarrow> Message" where
  "SetResponseCode msg code =
     (let msg = msg\<lparr>Header := (Header msg)\<lparr>RCode := code\<rparr>\<rparr>; p = Packet msg
      in if length p > 3 then
           msg\<lparr>Packet := p[3 := (if code = RCodeOK then p ! 3 AND 0xF0 else p ! 3 OR (0x0F AND code))]\<rparr>
         else msg)"

text \<open>One of the three loops of \<open>SubTTL\<close>; only the last one skips OPT records.\<close>

fun SubTTL_loop :: "bool \<Rightarrow> u32 \<Rightarrow> ResourceRecord list \<Rightarrow> bytes \<Rightarrow> (ResourceRecord list \<times> bytes) option" where
  "SubTTL_loop skipOPT n [] packet = Some ([], packet)"
| "SubTTL_loop skipOPT n (rr # rrs) packet =
     (if skipOPT \<and> RType rr = QueryTypeOPT then do {
        (rrs, packet) \<leftarrow> SubTTL_loop skipOPT n rrs packet;
        Some (rr # rrs, packet) }
      else do {
        let rr = rr\<lparr>TTL := (if TTL rr < n then 0 else TTL rr - n)\<rparr>;
        packet \<leftarrow> WriteUint32 packet (offTTL rr) (TTL rr);
        (rrs, packet) \<leftarrow> SubTTL_loop skipOPT n rrs packet;
        Some (rr # rrs, packet) })"

definition SubTTL :: "Message \<Rightarrow> u32 \<Rightarrow> Message option" where
  "SubTTL msg n = do {
     (an, p) \<leftarrow> SubTTL_loop False n (Answer msg) (Packet msg);
     (ns, p) \<leftarrow> SubTTL_loop False n (Authority msg) p;
     (ar, p) \<leftarrow> SubTTL_loop True n (Additional msg) p;
     Some (msg\<lparr>Answer := an, Authority := ns, Additional := ar, Packet := p\<rparr>) }"

subsection \<open>Unpacking\<close>

definition UnpackHeaderQuestion :: "Message \<Rightarrow> (Message \<times> dns_error option) option" where
  "UnpackHeaderQuestion msg = do {
     hdr \<leftarrow> header_unpack (Header msg) (Packet msg);
     let msg = msg\<lparr>Header := hdr\<rparr>;
     if length (Packet msg) \<le> sectionHeaderSize then Some (msg, Some ErrMissingQuestion)
     else do {
       (q, p, e) \<leftarrow> question_unpack (Question msg) (drop sectionHeaderSize (Packet msg));
       Some (msg\<lparr>Question := q, Packet := take sectionHeaderSize (Packet msg) @ p\<rparr>, e) } }"

fun Unpack_RRs ::
  "nat \<Rightarrow> ResourceRecord list \<Rightarrow> bytes \<Rightarrow> nat \<Rightarrow> (ResourceRecord list \<times> bytes \<times> nat \<times> dns_error option) option" where
  "Unpack_RRs 0 rrs packet startIdx = Some (rrs, packet, startIdx, None)"
| "Unpack_RRs (Suc k) rrs packet startIdx = do {
     (rr, packet, startIdx, e) \<leftarrow> rr_unpack NewResourceRecord packet startIdx;
     if e \<noteq> None then Some (rrs, packet, startIdx, e)
     else Unpack_RRs k (rrs @ [rr]) packet startIdx }"

definition message_Unpack :: "Message \<Rightarrow> (Message \<times> dns_error option) option" where
  "message_Unpack msg = do {
     (msg, e) \<leftarrow> UnpackHeaderQuestion msg;
     if e \<noteq> None then Some (msg, e)
     else do {
       let startIdx = sectionHeaderSize + question_size (Question msg);
       (an, p, startIdx, e) \<leftarrow> Unpack_RRs (unat (ANCount (Header msg))) (Answer msg) (Packet msg) startIdx;
       let msg = msg\<lparr>Answer := an, Packet := p\<rparr>;
       if e \<noteq> None then Some (msg, e)
       else do {
         (ns, p, startIdx, e) \<leftarrow> Unpack_RRs (unat (NSCount (Header msg))) (Authority msg) p startIdx;
         let msg = msg\<lparr>Authority := ns, Packet := p\<rparr>;
         if e \<noteq> None then Some (msg, e)
         else do {
           (ar, p, startIdx, e) \<leftarrow> Unpack_RRs (unat (ARCount (Header msg))) (Additional msg) p startIdx;
           Some (msg\<lparr>Additional := ar, Packet := p\<rparr>, e) } } } }"

end
