(* ===== verification/DnsNames.thy ===== *)
theory DnsNames
  imports DnsMessage
begin

section \<open>Domain names in packets: packing, compression and unpacking\<close>

text \<open>
  The specification of domain names in a packet and the proofs that \<open>packDomainName\<close> writes them
  and \<open>unpackDomainName\<close> and \<open>SectionQuestion.unpack\<close> read them.

  A host name is a non-empty list of labels of 1 to 63 bytes without dots, escapes and upper case
  letters. \<open>name_at p x ls vs e\<close> says that the packet \<open>p\<close> has the labels \<open>ls\<close> at position \<open>x\<close>, where
  \<open>vs\<close> are the positions that reading it visits and \<open>e\<close> is the position of its first compression
  pointer, if it has one. Every pointer leads to an earlier position.
\<close>

unbundle bit_operations_syntax

subsection \<open>Labels and host names\<close>

definition plain :: "byte \<Rightarrow> bool" where
  "plain c \<longleftrightarrow> c \<noteq> 46 \<and> c \<noteq> 92 \<and> \<not> (65 \<le> c \<and> c \<le> 90)"

definition label :: "bytes \<Rightarrow> bool" where
  "label l \<longleftrightarrow> l \<noteq> [] \<and> length l \<le> 63 \<and> list_all plain l"

fun dotted :: "bytes list \<Rightarrow> bytes" where
  "dotted [] = []"
| "dotted [l] = l"
| "dotted (l # ls) = l @ 46 # dotted ls"

definition hostname :: "bytes list \<Rightarrow> bool" where
  "hostname ls \<longleftrightarrow> ls \<noteq> [] \<and> list_all label ls"

lemma dotted_Cons: "ls \<noteq> [] \<Longrightarrow> dotted (l # ls) = l @ 46 # dotted ls"
  by (cases ls) auto

lemma hostname_Cons: "hostname (l # ls) \<longleftrightarrow> label l \<and> (ls = [] \<or> hostname ls)"
  by (auto simp: hostname_def)

lemma dotted_ne: "hostname ls \<Longrightarrow> dotted ls \<noteq> []"
  by (cases ls rule: dotted.cases) (auto simp: hostname_def label_def)

lemma label_no_dot: "label l \<Longrightarrow> 46 \<notin> set l"
  by (auto simp: label_def list_all_iff plain_def)

lemma takeWhile_dotted: "label l \<Longrightarrow> takeWhile (\<lambda>c. c \<noteq> 46) (dotted (l # ls)) = l"
  using label_no_dot [of l] by (cases "ls = []") (auto simp: dotted_Cons takeWhile_tail takeWhile_eq_all_conv)

lemma dotted_inj:
  assumes "hostname ls" "hostname ls'" "dotted ls = dotted ls'"
  shows "ls = ls'"
  using assms
proof (induction ls arbitrary: ls')
  case Nil
  then show ?case by (simp add: hostname_def)
next
  case (Cons l ls)
  then obtain l' ls2 where ls': "ls' = l' # ls2" by (cases ls') (auto simp: hostname_def)
  have l: "label l" "label l'" using Cons.prems ls' by (auto simp: hostname_Cons)
  have eq: "l = l'" using takeWhile_dotted [OF l(1), of ls] takeWhile_dotted [OF l(2), of ls2] Cons.prems(3) ls' by simp
  show ?case
  proof (cases "ls = [] \<or> ls2 = []")
    case True
    have "ls = []" "ls2 = []"
      using True Cons.prems(3) label_no_dot [OF l(1)] label_no_dot [OF l(2)] unfolding ls' eq
      by (auto simp: dotted_Cons) (cases ls; cases ls2; auto)+
    then show ?thesis using eq ls' by simp
  next
    case False
    then have "dotted ls = dotted ls2" using Cons.prems(3) by (simp add: ls' eq dotted_Cons)
    with Cons.IH [of ls2] Cons.prems False ls' eq show ?thesis by (auto simp: hostname_Cons)
  qed
qed

lemma ToLower_plain: "list_all plain l \<Longrightarrow> ToLower l = l"
  by (induction l) (auto simp: plain_def)

subsection \<open>Names at a position of a packet\<close>

definition ptr_target :: "byte \<Rightarrow> byte \<Rightarrow> nat" where
  "ptr_target a b = unat (push_bit 8 (ucast (a AND maskOffset)) OR ucast b :: u16)"

inductive name_at :: "bytes \<Rightarrow> nat \<Rightarrow> bytes list \<Rightarrow> nat list \<Rightarrow> nat option \<Rightarrow> bool" for p where
  name_end: "x < length p \<Longrightarrow> p ! x = 0 \<Longrightarrow> name_at p x [] [x] None"
| name_label: "label l \<Longrightarrow> x < length p \<Longrightarrow> p ! x = of_nat (length l) \<Longrightarrow> take (length l) (drop (x + 1) p) = l \<Longrightarrow>
    name_at p (x + 1 + length l) ls vs e \<Longrightarrow> name_at p x (l # ls) (x # vs) e"
| name_ptr: "x + 1 < length p \<Longrightarrow> p ! x AND maskPointer = maskPointer \<Longrightarrow> ptr_target (p ! x) (p ! (x + 1)) = t \<Longrightarrow>
    t < x \<Longrightarrow> name_at p t ls vs e \<Longrightarrow> name_at p x ls (x # vs) (Some x)"

inductive_cases name_at_NilE: "name_at p x [] vs e"
inductive_cases name_at_ConsE: "name_at p x (l # ls) vs e"
inductive_cases name_atE: "name_at p x ls vs e"

lemma label_length_byte:
  assumes "label l"
  shows "unat (of_nat (length l) :: byte) = length l" "(of_nat (length l) :: byte) \<noteq> 0"
    "(of_nat (length l) :: byte) AND maskPointer \<noteq> maskPointer" "\<not> (of_nat (length l) :: byte) > maxLabelSize"
proof -
  have len: "length l \<le> 63" "0 < length l" using assms by (auto simp: label_def)
  then show u: "unat (of_nat (length l) :: byte) = length l" by (simp add: unat_of_nat)
  with len show "(of_nat (length l) :: byte) \<noteq> 0" "\<not> (of_nat (length l) :: byte) > maxLabelSize"
    by (auto simp: maxLabelSize_def word_less_nat_alt word_unat_eq_iff)
  have "\<forall>n \<in> set [0..<64]. (of_nat n :: byte) AND 0xC0 = 0" by code_simp
  then have "(of_nat (length l) :: byte) AND 0xC0 = 0" using len(1) by (auto simp del: of_nat_numeral)
  then show "(of_nat (length l) :: byte) AND maskPointer \<noteq> maskPointer" by (simp add: maskPointer_def)
qed

lemma name_at_pos: "name_at p x ls vs e \<Longrightarrow> x < length p"
  by (induction rule: name_at.induct) auto

lemma name_at_append: "name_at p x ls vs e \<Longrightarrow> name_at (p @ q) x ls vs e"
proof (induction rule: name_at.induct)
  case (name_end x)
  then show ?case by (simp add: name_at.name_end nth_append)
next
  case (name_label l x ls vs e)
  have "x + 1 + length l < length p" by (rule name_at_pos [OF name_label.hyps(5)])
  with name_label have "take (length l) (drop (x + 1) (p @ q)) = l" by simp
  with name_label show ?case by (simp add: name_at.name_label nth_append)
next
  case (name_ptr x t ls vs e)
  then show ?case by (intro name_at.name_ptr) (simp_all add: nth_append)
qed

lemma name_at_det:
  assumes "name_at p x ls vs e" "name_at p x ls' vs' e'"
  shows "ls = ls'"
  using assms
proof (induction arbitrary: ls' vs' e' rule: name_at.induct)
  case (name_end x)
  have "\<not> p ! x AND maskPointer = maskPointer" using name_end.hyps(2) by (simp add: maskPointer_def)
  with name_end.prems name_end.hyps(2) show ?case
    by (cases rule: name_at.cases) (use label_length_byte(2) in metis)+
next
  case (name_label l x ls vs e)
  note l = label_length_byte [OF name_label.hyps(1)]
  from name_label.prems show ?case
  proof (cases rule: name_at.cases)
    case a: (name_label l2 ls2 vs2)
    have "unat (p ! x) = length l" unfolding name_label.hyps(3) by (rule l(1))
    moreover have "unat (p ! x) = length l2" unfolding a(5) by (rule label_length_byte(1) [OF a(3)])
    ultimately have len: "length l2 = length l" by linarith
    have l2: "l2 = l" using a(6) name_label.hyps(4) unfolding len by metis
    show ?thesis using name_label.IH [OF a(7) [unfolded l2]] unfolding a(1) l2 by blast
  qed (use name_label.hyps(3) l in metis)+
next
  case (name_ptr x t ls vs e)
  have ne: "p ! x \<noteq> 0" using name_ptr.hyps(2) by (auto simp: maskPointer_def)
  from name_ptr.prems show ?case
  proof (cases rule: name_at.cases)
    case name_end
    with ne show ?thesis by blast
  next
    case (name_label l2 ls2 vs2)
    then show ?thesis using label_length_byte(3) name_ptr.hyps(2) by metis
  next
    case a: (name_ptr t2 vs2 e2)
    have "t2 = t" using a name_ptr.hyps(3) by metis
    then show ?thesis using a name_ptr.IH by blast
  qed
qed

text \<open>Reading a name never comes to a position twice.\<close>

lemma name_at_visits:
  assumes "name_at p x ls vs e" "y \<in> set vs"
  shows "y < length p \<and> (\<exists>ls' vs' e'. name_at p y ls' vs' e' \<and> (length ls' < length ls \<or> length ls' = length ls \<and> y \<le> x))"
  using assms
proof (induction rule: name_at.induct)
  case (name_label l x ls vs e)
  show ?case
  proof (cases "y = x")
    case True
    then show ?thesis using name_at.name_label [OF name_label.hyps] name_label.hyps(2) by blast
  next
    case False
    with name_label show ?thesis by fastforce
  qed
next
  case (name_ptr x t ls vs e)
  show ?case
  proof (cases "y = x")
    case True
    then show ?thesis using name_at.name_ptr [OF name_ptr.hyps] name_ptr.hyps(1) by auto
  next
    case False
    with name_ptr show ?thesis by fastforce
  qed
qed (auto intro: name_at.intros)

lemma name_at_distinct: "name_at p x ls vs e \<Longrightarrow> distinct vs"
proof (induction rule: name_at.induct)
  case (name_label l x ls vs e)
  have "x \<notin> set vs"
  proof
    assume "x \<in> set vs"
    from name_at_visits [OF name_label.hyps(5) this] obtain ls' vs' e' where
      n: "name_at p x ls' vs' e'" "length ls' \<le> length ls" by auto
    have "l # ls = ls'" by (rule name_at_det [OF name_at.name_label [OF name_label.hyps] n(1)])
    with n(2) show False by auto
  qed
  with name_label show ?case by simp
next
  case (name_ptr x t ls vs e)
  have "x \<notin> set vs"
  proof
    assume "x \<in> set vs"
    from name_at_visits [OF name_ptr.hyps(5) this] obtain ls' vs' e' where
      n: "name_at p x ls' vs' e'" "length ls' < length ls \<or> x \<le> t" by auto
    have "ls = ls'" by (rule name_at_det [OF name_at.name_ptr [OF name_ptr.hyps] n(1)])
    with n(2) name_ptr.hyps(4) show False by auto
  qed
  with name_ptr show ?case by simp
qed simp

lemma name_at_steps: "name_at p x ls vs e \<Longrightarrow> length vs \<le> length p"
proof -
  assume n: "name_at p x ls vs e"
  have "set vs \<subseteq> {..<length p}" using name_at_visits [OF n] by auto
  then have "card (set vs) \<le> length p" using card_mono [of "{..<length p}" "set vs"] by simp
  then show ?thesis using name_at_distinct [OF n] by (simp add: distinct_card)
qed

subsection \<open>Unpacking\<close>

lemma lower_at_plain: "x < length p \<Longrightarrow> plain (p ! x) \<Longrightarrow> lower_at p x = Some (p, p ! x)"
  by (auto simp: lower_at_def idx_def plain_def)

lemma take_drop_Suc_Cons:
  assumes "take (Suc k) (drop x p) = c # l"
  shows "x < length p" "p ! x = c" "take k (drop (x + 1) p) = l"
proof -
  have "drop x p \<noteq> []" using assms by auto
  then show "x < length p" by simp
  then have "drop x p = p ! x # drop (x + 1) p" by (simp add: Cons_nth_drop_Suc)
  with assms show "p ! x = c" "take k (drop (x + 1) p) = l" by simp_all
qed

lemma unpack_label_plain:
  "take (length l) (drop x p) = l \<Longrightarrow> list_all plain l \<Longrightarrow> unpack_label (length l) out p x = Some (out @ l, p)"
proof (induction l arbitrary: x out)
  case (Cons c l)
  from take_drop_Suc_Cons [of "length l" x p c l] Cons show ?case by (simp add: lower_at_plain)
qed simp

definition extend :: "bytes \<Rightarrow> bytes list \<Rightarrow> bytes" where
  "extend out ls = (if ls = [] then out else if out = [] then dotted ls else out @ 46 # dotted ls)"

definition name_off :: "nat \<Rightarrow> nat option \<Rightarrow> nat" where
  "name_off o0 e = (if o0 \<noteq> 0 then o0 else case e of None \<Rightarrow> 0 | Some q \<Rightarrow> q + 1)"

lemma extend_Cons: "label l \<Longrightarrow> extend ((if out \<noteq> [] then out @ [46] else out) @ l) ls = extend out (l # ls)"
  by (auto simp: extend_def dotted_Cons label_def)

lemma unpackDomainName_Suc [simp]:
  "unpackDomainName (Suc fuel) o0 out packet x =
     (if x \<ge> length packet then Some (o0, out, packet, Some ErrLabelSizeLimit)
      else let count = packet ! x in
        if count = 0 then Some (o0, out, packet, None)
        else if count AND maskPointer = maskPointer then do {
          low \<leftarrow> idx packet (x + 1);
          let offset = (push_bit 8 (ucast (count AND maskOffset)) OR ucast low :: u16);
          unpackDomainName fuel (if o0 = 0 then x + 1 else o0) out packet (unat offset) }
        else if count > maxLabelSize then Some (o0, out, packet, Some ErrLabelSizeLimit)
        else do {
          (out, packet) \<leftarrow> unpack_label (unat count) (if out \<noteq> [] then out @ [46] else out) packet (x + 1);
          unpackDomainName fuel o0 out packet (x + 1 + unat count) })"
  by (simp add: unpackDomainName_call_def)

declare unpackDomainName.simps(2) [simp del]

text \<open>\<open>unpackDomainName\<close> reads the name at a position, leaves the packet as it is and remembers the pointer.\<close>

lemma unpackDomainName_at:
  assumes "name_at p x ls vs e" "length vs \<le> fuel"
  shows "unpackDomainName fuel o0 out p x = Some (name_off o0 e, extend out ls, p, None)"
  using assms
proof (induction arbitrary: fuel o0 out rule: name_at.induct)
  case (name_end x)
  then obtain k where "fuel = Suc k" by (cases fuel) auto
  with name_end show ?case by (simp add: extend_def name_off_def)
next
  case (name_label l x ls vs e)
  then obtain k where k: "fuel = Suc k" "length vs \<le> k" by (cases fuel) auto
  note l = label_length_byte [OF name_label.hyps(1)]
  have pl: "list_all plain l" using name_label.hyps(1) by (simp add: label_def)
  have "unpack_label (length l) (if out \<noteq> [] then out @ [46] else out) p (x + 1) =
      Some ((if out \<noteq> [] then out @ [46] else out) @ l, p)"
    by (rule unpack_label_plain [OF name_label.hyps(4) pl])
  then have "unpackDomainName fuel o0 out p x =
      unpackDomainName k o0 ((if out \<noteq> [] then out @ [46] else out) @ l) p (x + 1 + length l)"
    unfolding k(1) using l name_label.hyps(2) unfolding unpackDomainName_Suc name_label.hyps(3)
    by (simp only: Let_def if_False if_True not_le [symmetric] l(1) Option.bind.simps prod.case)
  then show ?case using name_label.IH [OF k(2)] extend_Cons [OF name_label.hyps(1)] by simp
next
  case (name_ptr x t ls vs e)
  then obtain k where k: "fuel = Suc k" "length vs \<le> k" by (cases fuel) auto
  have ne: "p ! x \<noteq> 0" using name_ptr.hyps(2) by (auto simp: maskPointer_def)
  have t: "unat (push_bit 8 (ucast (p ! x AND maskOffset)) OR ucast (p ! (x + 1)) :: u16) = t"
    using name_ptr.hyps(3) by (simp add: ptr_target_def)
  have "unpackDomainName fuel o0 out p x = unpackDomainName k (if o0 = 0 then x + 1 else o0) out p t"
    unfolding k(1) unpackDomainName_Suc using name_ptr.hyps(1,2) ne t by (simp add: Let_def idx_def)
  moreover have "name_off (if o0 = 0 then x + 1 else o0) e = name_off o0 (Some x)" by (simp add: name_off_def)
  ultimately show ?case using name_ptr.IH [OF k(2)] by simp
qed

lemma unpackName_at:
  assumes "name_at p x ls vs e"
  shows "unpackName rr [] p x = Some (rr\<lparr>rr_off := name_off (rr_off rr) e\<rparr>, dotted ls, p, None)"
  using unpackDomainName_at [OF assms, of "name_fuel p"] name_at_steps [OF assms]
  by (simp add: unpackName_def extend_def name_fuel_def)

subsection \<open>Packing\<close>

text \<open>
  What \<open>packDomainName\<close> appends for the labels of a name at position \<open>o1\<close>, and the map of names
  afterwards.
\<close>

fun enc_labels :: "bool \<Rightarrow> (bytes \<rightharpoonup> u16) \<Rightarrow> nat \<Rightarrow> bytes list \<Rightarrow> bytes \<times> (bytes \<rightharpoonup> u16)" where
  "enc_labels c m o1 [] = ([0], m)"
| "enc_labels c m o1 (l # ls) =
     (case (if c then m (dotted (l # ls)) else None) of
        Some q \<Rightarrow> ([maskPointer OR ucast (drop_bit 8 q), ucast q], m)
      | None \<Rightarrow>
          let (b, m) = enc_labels c (m(dotted (l # ls) \<mapsto> of_nat o1)) (o1 + 1 + length l) ls
          in (of_nat (length l) # l @ b, m))"

lemma enc_labels_length:
  "list_all label ls \<Longrightarrow> length (fst (enc_labels c m o1 ls)) \<le> (if ls = [] then 1 else length (dotted ls) + 2)"
proof (induction ls arbitrary: m o1)
  case (Cons l ls)
  obtain b m1 where e: "enc_labels c (m(dotted (l # ls) \<mapsto> of_nat o1)) (o1 + 1 + length l) ls = (b, m1)" by fastforce
  have "length b \<le> (if ls = [] then 1 else length (dotted ls) + 2)"
    using Cons.IH [of "m(dotted (l # ls) \<mapsto> of_nat o1)" "o1 + 1 + length l"] Cons.prems unfolding e by simp
  moreover have "length (dotted (l # ls)) = length l + (if ls = [] then 0 else length (dotted ls) + 1)"
    by (simp add: dotted_Cons)
  moreover have "1 \<le> length l" using Cons.prems by (auto simp: label_def Suc_le_eq)
  ultimately show ?case using e by (auto split: option.splits)
qed simp

text \<open>The map of names is sound: at the position of every name the packet has that name.\<close>

definition good :: "bytes \<Rightarrow> bytes \<Rightarrow> u16 \<Rightarrow> bool" where
  "good p nm q \<longleftrightarrow> (\<exists>ls vs e. hostname ls \<and> nm = dotted ls \<and> name_at p (unat q) ls vs e)"

definition sound :: "bytes \<Rightarrow> (bytes \<rightharpoonup> u16) \<Rightarrow> bool" where
  "sound p m \<longleftrightarrow> (\<forall>nm q. m nm = Some q \<longrightarrow> good p nm q)"

lemma good_append: "good p nm q \<Longrightarrow> good (p @ r) nm q"
  unfolding good_def using name_at_append by blast

lemma sound_append: "sound p m \<Longrightarrow> sound (p @ r) m"
  unfolding sound_def using good_append by blast

lemma pointer_bytes:
  assumes "unat q < 0x4000"
  shows "(maskPointer OR ucast (drop_bit 8 (q :: u16))) AND maskPointer = maskPointer"
    "ptr_target (maskPointer OR ucast (drop_bit 8 q)) (ucast q) = unat q"
proof -
  define h :: byte where "h = ucast (drop_bit 8 q)"
  have "unat (drop_bit 8 q) < 64" using assms by (simp add: unsigned_drop_bit_eq drop_bit_eq_div unat_div less_mult_imp_div_less)
  then have h: "unat h < 64" by (simp add: h_def unsigned_ucast_eq take_bit_nat_eq_self)
  have "\<forall>n \<in> set [0..<64]. (0xC0 OR of_nat n :: byte) AND 0x3F = of_nat n \<and> (0xC0 OR of_nat n :: byte) AND 0xC0 = 0xC0"
    by code_simp
  from bspec [OF this, of "unat h"] h have b: "(0xC0 OR h) AND 0x3F = h" "(0xC0 OR h) AND 0xC0 = 0xC0" by simp_all
  from b(2) show "(maskPointer OR ucast (drop_bit 8 q)) AND maskPointer = maskPointer"
    by (simp only: h_def [symmetric] maskPointer_def)
  have "push_bit 8 (ucast h) OR ucast (ucast q :: byte) = q" unfolding h_def by (rule u16_bytes)
  then show "ptr_target (maskPointer OR ucast (drop_bit 8 q)) (ucast q) = unat q"
    by (simp only: ptr_target_def h_def [symmetric] maskPointer_def maskOffset_def b(1))
qed

text \<open>The position behind a name.\<close>

definition name_ends :: "nat \<Rightarrow> bytes list \<Rightarrow> nat option \<Rightarrow> nat \<Rightarrow> bool" where
  "name_ends x ls e y \<longleftrightarrow>
     y = (case e of None \<Rightarrow> x + (if ls = [] then 1 else length (dotted ls) + 2) | Some q \<Rightarrow> q + 2)"

lemma enc_labels_sound:
  assumes "list_all label ls" "length p = o1" "enc_labels c m o1 ls = (b, m')" "length (p @ b) \<le> 0x4000"
    "\<And>nm q. m nm = Some q \<Longrightarrow> length nm \<le> length (dotted ls) \<Longrightarrow> good p nm q"
  shows "\<exists>vs e. name_at (p @ b) o1 ls vs e \<and> name_ends o1 ls e (length (p @ b)) \<and>
    (\<forall>nm q. m' nm = Some q \<longrightarrow> m nm = Some q \<or> good (p @ b) nm q)"
  using assms
proof (induction ls arbitrary: p o1 m b)
  case Nil
  then have "name_at (p @ b) o1 [] [o1] None" by (intro name_at.name_end) auto
  with Nil show ?case by (intro exI [of _ "[o1]"] exI [of _ None]) (auto simp: name_ends_def)
next
  case (Cons l ls)
  have l: "label l" "list_all label ls" using Cons.prems(1) by simp_all
  show ?case
  proof (cases "if c then m (dotted (l # ls)) else None")
    case (Some q)
    then have q: "m (dotted (l # ls)) = Some q" "b = [maskPointer OR ucast (drop_bit 8 q), ucast q]" "m' = m"
      using Cons.prems(3) by (auto split: if_splits)
    obtain ls2 vs e where n: "hostname ls2" "dotted (l # ls) = dotted ls2" "name_at p (unat q) ls2 vs e"
      using Cons.prems(5) [OF q(1)] by (auto simp: good_def)
    have "hostname (l # ls)" using Cons.prems(1) by (simp add: hostname_def)
    then have ls2: "ls2 = l # ls" using dotted_inj [OF _ n(1,2)] by simp
    have lt: "unat q < o1" using name_at_pos [OF n(3)] Cons.prems(2) by simp
    have bound: "unat q < 0x4000" using lt Cons.prems(2,4) by simp
    have "name_at (p @ b) o1 (l # ls) (o1 # vs) (Some o1)"
    proof (rule name_at.name_ptr)
      show "name_at (p @ b) (unat q) (l # ls) vs e" using name_at_append [OF n(3)] ls2 by simp
      show "ptr_target ((p @ b) ! o1) ((p @ b) ! (o1 + 1)) = unat q"
        using Cons.prems(2) pointer_bytes(2) [OF bound] by (simp add: q(2) nth_append)
      show "(p @ b) ! o1 AND maskPointer = maskPointer"
        using Cons.prems(2) pointer_bytes(1) [OF bound] by (simp add: q(2) nth_append)
    qed (use lt Cons.prems(2) q(2) in auto)
    then show ?thesis
      using q Cons.prems(2) by (intro exI [of _ "o1 # vs"] exI [of _ "Some o1"]) (auto simp: name_ends_def)
  next
    case None
    let ?m = "m(dotted (l # ls) \<mapsto> of_nat o1)" and ?p = "p @ of_nat (length l) # l"
    obtain b1 m1 where e: "enc_labels c ?m (o1 + 1 + length l) ls = (b1, m1)" by fastforce
    have b: "b = of_nat (length l) # l @ b1" "m' = m1" using Cons.prems(3) None e by auto
    have pb: "p @ b = ?p @ b1" by (simp add: b(1))
    have len: "length ?p = o1 + 1 + length l" using Cons.prems(2) by simp
    have dl: "length (dotted ls) < length (dotted (l # ls))"
      using l(1) by (cases "ls = []") (auto simp: dotted_Cons label_def)
    have "good ?p nm q" if "?m nm = Some q" "length nm \<le> length (dotted ls)" for nm q
      using that dl Cons.prems(5) [of nm q] by (intro good_append) (auto split: if_splits)
    from Cons.IH [OF l(2) len e [folded b(2)] Cons.prems(4) [unfolded pb] this] e obtain vs x where
      n: "name_at (p @ b) (o1 + 1 + length l) ls vs x" "name_ends (o1 + 1 + length l) ls x (length (p @ b))"
        "\<And>nm q. m' nm = Some q \<Longrightarrow> ?m nm = Some q \<or> good (p @ b) nm q"
      unfolding pb b(2) by blast
    have at: "name_at (p @ b) o1 (l # ls) (o1 # vs) x"
      using l(1) Cons.prems(2) n(1) by (intro name_at.name_label) (auto simp: b(1))
    have "unat (of_nat o1 :: u16) = o1" using Cons.prems(2,4) by (simp add: unat_of_nat)
    then have "good (p @ b) (dotted (l # ls)) (of_nat o1)"
      using at Cons.prems(1) unfolding good_def hostname_def by fastforce
    then have "m nm = Some q \<or> good (p @ b) nm q" if "m' nm = Some q" for nm q
      using n(3) [OF that] by (auto split: if_splits)
    moreover have "name_ends o1 (l # ls) x (length (p @ b))"
      using n(2) by (cases "ls = []") (auto simp: name_ends_def dotted_Cons split: option.splits)
    ultimately show ?thesis using at by blast
  qed
qed

subsection \<open>The packing loop writes the specified bytes\<close>

lemma pack_loop_chars:
  "list_all plain l \<Longrightarrow> packDomainName_loop c ne (l @ rest) msg count n =
     packDomainName_loop c ne rest (msg\<lparr>Packet := Packet msg @ l\<rparr>) (count + of_nat (length l)) n"
proof (induction l arbitrary: msg count)
  case (Cons a l)
  then show ?case by (simp add: plain_def add.assoc)
qed simp

lemma label_count:
  assumes "label l"
  shows "0 < (of_nat (length l) :: byte)" "unat (of_nat (length l) + 1 :: byte) = length l + 1"
    "(ucast (of_nat (length l) + 1 :: byte) :: u16) = of_nat (length l + 1)"
proof -
  have len: "length l \<le> 63" "0 < length l" using assms by (auto simp: label_def)
  then show "0 < (of_nat (length l) :: byte)" by (simp add: word_less_nat_alt unat_of_nat)
  show u: "unat (of_nat (length l) + 1 :: byte) = length l + 1"
    using len unat_of_nat [of "length l + 1", where 'a = 8] by (simp add: ac_simps)
  show "(ucast (of_nat (length l) + 1 :: byte) :: u16) = of_nat (length l + 1)"
  proof -
    have "unat (of_nat (length l + 1) :: u16) = length l + 1" unfolding unat_of_nat using len by simp
    moreover have "take_bit LENGTH(16) (length l + 1) = length l + 1" using len by (intro take_bit_nat_eq_self) simp
    ultimately show ?thesis by (simp only: word_unat_eq_iff unsigned_ucast_eq u)
  qed
qed

text \<open>Closing a label: its length is written where the label starts.\<close>

lemma close_label:
  assumes "label l" "off msg = of_nat (length p)" "length p < 0x10000" "Packet msg = p @ 0 # l"
  shows "upd (Packet msg) (unat (off msg)) (of_nat (length l)) = Some (p @ of_nat (length l) # l)"
    "off msg + ucast (of_nat (length l) + 1 :: byte) = of_nat (length p + 1 + length l)"
proof -
  have "unat (off msg) = length p" using assms(2,3) by (simp add: unat_of_nat)
  then show "upd (Packet msg) (unat (off msg)) (of_nat (length l)) = Some (p @ of_nat (length l) # l)"
    using assms(4) by (simp add: upd_def)
  show "off msg + ucast (of_nat (length l) + 1 :: byte) = of_nat (length p + 1 + length l)"
    unfolding label_count(3) [OF assms(1)] assms(2) by simp
qed

lemma pack_loop_labels:
  assumes "label l" "list_all label ls" "off msg = of_nat (length p)" "Packet msg = p @ [0]"
    "length p + length (dotted (l # ls)) < 0x10000"
    "enc_labels c (dnameOff msg) (length p + 1 + length l) ls = (b, m')"
  shows "\<exists>d. packDomainName_loop c True (dotted (l # ls)) msg 0 n =
    Some (msg\<lparr>Packet := p @ of_nat (length l) # l @ b, off := of_nat (length p + 1 + length l + length b),
      dnameOff := m', dname := d\<rparr>, n + (1 + length l + length b))"
  using assms
proof (induction ls arbitrary: l p msg n b m')
  case Nil
  have l: "list_all plain l" using Nil.prems(1) by (simp add: label_def)
  let ?msg = "msg\<lparr>Packet := Packet msg @ l\<rparr>"
  have p: "length p < 0x10000" "off ?msg = of_nat (length p)" "Packet ?msg = p @ 0 # l" using Nil.prems by simp_all
  note cl = close_label [OF Nil.prems(1) p(2,1,3)]
  have "packDomainName_loop c True (l @ []) msg 0 n = packDomainName_loop c True [] ?msg (of_nat (length l)) n"
    using pack_loop_chars [OF l, of c True "[]" msg 0 n] by simp
  then show ?case
    using cl label_count [OF Nil.prems(1)] Nil.prems(6)
    by (intro exI [of _ "dname msg"]) (auto simp: algebra_simps)
next
  case (Cons l2 ls)
  have l: "list_all plain l" "label l2" "list_all label ls" using Cons.prems(1,2) by (auto simp: label_def [of l])
  let ?msg = "msg\<lparr>Packet := Packet msg @ l\<rparr>" and ?p = "p @ of_nat (length l) # l"
  have p: "length p < 0x10000" "off ?msg = of_nat (length p)" "Packet ?msg = p @ 0 # l" using Cons.prems by simp_all
  note cl = close_label [OF Cons.prems(1) p(2,1,3)]
  let ?msg1 = "?msg\<lparr>Packet := ?p, dname := dotted (l2 # ls), off := of_nat (length p + 1 + length l)\<rparr>"
  have ne: "dotted (l2 # ls) \<noteq> []" "(of_nat (length l) :: byte) \<noteq> 0"
    using dotted_ne [of "l2 # ls"] l label_count(1) [OF Cons.prems(1)] by (auto simp: hostname_Cons hostname_def)
  have start: "packDomainName_loop c True (dotted (l # l2 # ls)) msg 0 n =
      (let (m1, ok) = (if c then compress ?msg1 else (?msg1, False)); n = n + (length l + 1)
       in if ok then Some (m1, n + 2)
          else packDomainName_loop c True (dotted (l2 # ls))
            (m1\<lparr>Packet := Packet m1 @ [0], dnameOff := (dnameOff m1)(dname m1 \<mapsto> off m1)\<rparr>) 0 n)"
    using pack_loop_chars [OF l(1), of c True "46 # dotted (l2 # ls)" msg 0 n] cl ne
      label_count(2) [OF Cons.prems(1)]
    by (simp add: dotted_Cons Let_def split: prod.splits)
  show ?case
  proof (cases "if c then dnameOff msg (dotted (l2 # ls)) else None")
    case (Some q)
    then have "c" "dnameOff msg (dotted (l2 # ls)) = Some q" by (auto split: if_splits)
    then show ?thesis
      using Cons.prems(6) Some unfolding start
      by (intro exI [of _ "dotted (l2 # ls)"]) (cases msg, auto simp: compress_def algebra_simps)
  next
    case None
    let ?msg2 = "?msg1\<lparr>Packet := ?p @ [0], dnameOff := (dnameOff msg)(dotted (l2 # ls) \<mapsto> of_nat (length ?p))\<rparr>"
    obtain b1 m1 where e: "enc_labels c (dnameOff ?msg2) (length ?p + 1 + length l2) ls = (b1, m1)" by fastforce
    have lp: "length ?p = length p + 1 + length l" by simp
    have b: "b = of_nat (length l2) # l2 @ b1" "m' = m1"
      using Cons.prems(6) None e by (auto simp: ac_simps)
    have step: "packDomainName_loop c True (dotted (l # l2 # ls)) msg 0 n =
        packDomainName_loop c True (dotted (l2 # ls)) ?msg2 0 (n + (length l + 1))"
      using None unfolding start compress_def by (cases c) (auto simp: ac_simps)
    have "length ?p + length (dotted (l2 # ls)) < 0x10000" using Cons.prems(5) by (simp add: dotted_Cons)
    from Cons.IH [OF l(2,3) _ _ this e, of "n + (length l + 1)"] obtain d where
      "packDomainName_loop c True (dotted (l2 # ls)) ?msg2 0 (n + (length l + 1)) =
        Some (?msg2\<lparr>Packet := ?p @ of_nat (length l2) # l2 @ b1, off := of_nat (length ?p + 1 + length l2 + length b1),
          dnameOff := m1, dname := d\<rparr>, n + (length l + 1) + (1 + length l2 + length b1))" by auto
    then show ?thesis unfolding step b by (intro exI [of _ d]) (simp add: ac_simps)
  qed
qed

text \<open>\<open>packDomainName\<close> on a host name appends what \<open>enc_labels\<close> says.\<close>

lemma packDomainName_eq:
  assumes "hostname ls" "ToLower name = dotted ls" "off msg = of_nat (length (Packet msg))"
    "length (Packet msg) + length name < 0x10000"
    "enc_labels c (dnameOff msg) (length (Packet msg)) ls = (b, m')"
  shows "\<exists>d. packDomainName msg name c =
    Some (msg\<lparr>Packet := Packet msg @ b, off := of_nat (length (Packet msg @ b)), dnameOff := m', dname := d\<rparr>, length b)"
proof -
  obtain l ls2 where ls: "ls = l # ls2" using assms(1) by (cases ls) (auto simp: hostname_def)
  have l: "label l" "list_all label ls2" using assms(1) ls by (auto simp: hostname_def)
  have len: "length name = length (dotted ls)" using arg_cong [OF assms(2), of length] by simp
  show ?thesis
  proof (cases "if c then dnameOff msg (dotted ls) else None")
    case (Some q)
    then have "c" "dnameOff msg (dotted ls) = Some q" by (auto split: if_splits)
    then show ?thesis
      using assms(2,3,5) Some ls
      by (intro exI [of _ "dotted ls"]) (auto simp: packDomainName_def compress_def Let_def)
  next
    case None
    let ?msg = "msg\<lparr>dname := dotted ls, Packet := Packet msg @ [0],
      dnameOff := (dnameOff msg)(dotted ls \<mapsto> of_nat (length (Packet msg)))\<rparr>"
    obtain b1 m1 where e: "enc_labels c (dnameOff ?msg) (length (Packet msg) + 1 + length l) ls2 = (b1, m1)" by fastforce
    have b: "b = of_nat (length l) # l @ b1" "m' = m1" using assms(5) None e ls by auto
    have "packDomainName msg name c = packDomainName_loop c True (dotted ls) ?msg 0 0"
      using None assms(2,3) dotted_ne [OF assms(1)]
      by (cases c) (simp_all add: packDomainName_def compress_def Let_def)
    moreover obtain d where "packDomainName_loop c True (dotted ls) ?msg 0 0 =
        Some (?msg\<lparr>Packet := Packet msg @ of_nat (length l) # l @ b1,
          off := of_nat (length (Packet msg) + 1 + length l + length b1), dnameOff := m1, dname := d\<rparr>,
          0 + (1 + length l + length b1))"
      using pack_loop_labels [OF l _ _ _ e, of 0] assms(3,4) len ls by auto
    ultimately show ?thesis unfolding b by (intro exI [of _ d]) (simp add: ac_simps)
  qed
qed

lemma enc_name:
  assumes "hostname ls" "sound p m" "length p + length (dotted ls) + 2 \<le> 0x4000"
    "enc_labels c m (length p) ls = (b, m')"
  shows "length b \<le> length (dotted ls) + 2 \<and> sound (p @ b) m' \<and>
    (\<exists>vs e. name_at (p @ b) (length p) ls vs e \<and> name_ends (length p) ls e (length (p @ b)))"
proof -
  have ls: "list_all label ls" "ls \<noteq> []" using assms(1) by (simp_all add: hostname_def)
  have len: "length b \<le> length (dotted ls) + 2" using enc_labels_length [OF ls(1), of c m "length p"] ls(2) assms(4) by simp
  have "length (p @ b) \<le> 0x4000" using len assms(3) by simp
  from enc_labels_sound [OF ls(1) refl assms(4) this] assms(2) obtain vs e where
    n: "name_at (p @ b) (length p) ls vs e" "name_ends (length p) ls e (length (p @ b))"
      "\<And>nm q. m' nm = Some q \<Longrightarrow> m nm = Some q \<or> good (p @ b) nm q"
    unfolding sound_def by blast
  have "sound (p @ b) m'"
    unfolding sound_def using n(3) assms(2) good_append unfolding sound_def by blast
  with len n(1,2) show ?thesis by blast
qed

subsection \<open>The question section\<close>

definition wire :: "bytes list \<Rightarrow> bytes" where
  "wire ls = concat (map (\<lambda>l. of_nat (length l) # l) ls) @ [0]"

lemma wire_Cons: "wire (l # ls) = of_nat (length l) # l @ wire ls"
  by (simp add: wire_def)

lemma length_wire: "list_all label ls \<Longrightarrow> length (wire ls) = (if ls = [] then 1 else length (dotted ls) + 2)"
proof (induction ls)
  case (Cons l ls)
  then show ?case by (cases "ls = []") (auto simp: wire_Cons dotted_Cons)
qed (simp add: wire_def)

lemma enc_labels_uncompressed: "fst (enc_labels False m o1 ls) = wire ls"
proof (induction ls arbitrary: m o1)
  case (Cons l ls)
  show ?case by (simp add: wire_Cons split_beta Cons.IH)
qed (simp add: wire_def)

lemma question_label_plain:
  "list_all plain l \<Longrightarrow> question_label (length l) (pre @ l @ a # rest) name (length pre) =
     Some (pre @ l @ a # rest, name @ l, length pre + length l, None)"
proof (induction l arbitrary: pre name)
  case (Cons c l)
  have "lower_at (pre @ c # l @ a # rest) (length pre) = Some (pre @ c # l @ a # rest, c)"
    using Cons.prems lower_at_plain [of "length pre" "pre @ c # l @ a # rest"] by simp
  with Cons.IH [of "pre @ [c]" "name @ [c]"] Cons.prems show ?case by simp
qed simp

lemma question_loop_wire:
  assumes "label l" "list_all label ls"
  shows "question_loop (of_nat (length l)) (pre @ wire (l # ls) @ rest) name (length pre + 1) =
    Some (pre @ wire (l # ls) @ rest, name @ dotted (l # ls), length pre + length (wire (l # ls)), None)"
  using assms
proof (induction ls arbitrary: l pre name)
  case Nil
  note l = label_length_byte [OF Nil.prems(1)]
  have "list_all plain l" using Nil.prems by (simp add: label_def)
  from question_label_plain [OF this, of "pre @ [of_nat (length l)]" 0 rest name] l(1,2) show ?case
    by (simp add: question_loop.simps wire_Cons wire_def idx_def nth_append)
next
  case (Cons l2 ls)
  note l = label_length_byte [OF Cons.prems(1)]
  have l2: "label l2" "list_all label ls" using Cons.prems by simp_all
  have "list_all plain l" using Cons.prems by (simp add: label_def [of l])
  from question_label_plain [OF this, of "pre @ [of_nat (length l)]" "of_nat (length l2)" "l2 @ wire ls @ rest" name]
    l(1,2) label_length_byte(2) [OF l2(1)] l2(1)
  have "question_loop (of_nat (length l)) (pre @ wire (l # l2 # ls) @ rest) name (length pre + 1) =
      question_loop (of_nat (length l2)) ((pre @ of_nat (length l) # l) @ wire (l2 # ls) @ rest) (name @ l @ [46])
        (length (pre @ of_nat (length l) # l) + 1)"
    by (simp add: question_loop.simps [of "of_nat (length l)"] wire_Cons idx_def nth_append label_def)
  with Cons.IH [OF l2, of "pre @ of_nat (length l) # l" "name @ l @ [46]"] show ?case
    by (simp add: wire_Cons)
qed

lemma question_unpack_wire:
  assumes "hostname ls"
  shows "question_unpack q (wire ls @ AppendUint16 [] t @ AppendUint16 [] c @ rest) =
    Some (q\<lparr>QName := QName q @ dotted ls, QType := t, QClass := c\<rparr>,
      wire ls @ AppendUint16 [] t @ AppendUint16 [] c @ rest, None)"
proof -
  obtain l ls2 where ls: "ls = l # ls2" using assms by (cases ls) (auto simp: hostname_def)
  have l: "label l" "list_all label ls2" using assms ls by (auto simp: hostname_def)
  define p where "p = wire ls @ AppendUint16 [] t @ AppendUint16 [] c @ rest"
  have loop: "question_loop (of_nat (length l)) p (QName q) 1 = Some (p, QName q @ dotted ls, length (wire ls), None)"
    using question_loop_wire [OF l, of "[]" "AppendUint16 [] t @ AppendUint16 [] c @ rest" "QName q"] ls
    by (simp add: p_def)
  have "idx p 0 = Some (of_nat (length l))" "p \<noteq> []" by (simp_all add: p_def ls wire_Cons idx_def)
  moreover have "ReadUint16 p (length (wire ls)) = Some t" "ReadUint16 p (length (wire ls) + 2) = Some c"
    by (rule uint16.rd_at [of _ "wire ls"] uint16.rd_at [of _ "wire ls @ AppendUint16 [] t"];
        simp add: AppendUint16_def p_def)+
  moreover have "\<not> length p < length (wire ls) + 4" by (simp add: AppendUint16_def p_def)
  ultimately show ?thesis
    unfolding question_unpack_def p_def [symmetric] using loop by (simp del: idx_Some_iff)
qed

subsection \<open>Properties\<close>

text \<open>The state of a message that is being packed.\<close>

definition pack_inv :: "Message \<Rightarrow> bool" where
  "pack_inv msg \<longleftrightarrow> off msg = of_nat (length (Packet msg)) \<and> sound (Packet msg) (dnameOff msg)"

lemma name_ends_off:
  "name_ends x ls e y \<Longrightarrow> ls \<noteq> [] \<Longrightarrow>
     (if name_off 0 e > 0 then name_off 0 e + 1 else x + length (dotted ls) + 2) = y"
  by (auto simp: name_ends_def name_off_def split: option.splits)

text \<open>
  C13: Compression is correct: packing a host name, with or without compression, onto a message whose
  map of names is sound extends the packet by the returned number of bytes, keeps the map sound and
  the offset equal to the length of the packet, and reading the packet at that place (whatever is
  appended later) returns the name in lower case, without an error, and leads to the position behind
  it, also when the name ends in a compression pointer.
\<close>

theorem domain_name_roundtrip:
  assumes "hostname ls" "ToLower name = dotted ls" "pack_inv msg"
    "length (Packet msg) + length name + 2 \<le> 0x4000"
  shows "\<exists>msg1 n. packDomainName msg name c = Some (msg1, n) \<and> pack_inv msg1 \<and>
    take (length (Packet msg)) (Packet msg1) = Packet msg \<and> length (Packet msg1) = length (Packet msg) + n \<and>
    (\<forall>rest. \<exists>rr. unpackName NewResourceRecord [] (Packet msg1 @ rest) (length (Packet msg)) =
       Some (rr, ToLower name, Packet msg1 @ rest, None) \<and>
       snd (after_name rr (ToLower name) (length (Packet msg))) = length (Packet msg1))"
proof -
  let ?p = "Packet msg"
  obtain b m1 where e: "enc_labels c (dnameOff msg) (length ?p) ls = (b, m1)" by fastforce
  have len: "length name = length (dotted ls)" using arg_cong [OF assms(2), of length] by simp
  have inv: "off msg = of_nat (length ?p)" "sound ?p (dnameOff msg)" using assms(3) by (simp_all add: pack_inv_def)
  have "length ?p + length (dotted ls) + 2 \<le> 0x4000" using assms(4) len by simp
  from enc_name [OF assms(1) inv(2) this e] obtain vs x where
    n: "sound (?p @ b) m1" "name_at (?p @ b) (length ?p) ls vs x" "name_ends (length ?p) ls x (length (?p @ b))"
    by blast
  have "length ?p + length name < 0x10000" using assms(4) by simp
  from packDomainName_eq [OF assms(1,2) inv(1) this e] obtain d where
    pk: "packDomainName msg name c =
      Some (msg\<lparr>Packet := ?p @ b, off := of_nat (length (?p @ b)), dnameOff := m1, dname := d\<rparr>, length b)" by blast
  have "\<exists>rr. unpackName NewResourceRecord [] ((?p @ b) @ rest) (length ?p) =
       Some (rr, ToLower name, (?p @ b) @ rest, None) \<and>
       snd (after_name rr (ToLower name) (length ?p)) = length (?p @ b)" for rest
    using unpackName_at [OF name_at_append [OF n(2), of rest], of NewResourceRecord] name_ends_off [OF n(3)] assms(1,2)
    by (auto simp: after_name_def NewResourceRecord_def hostname_def split: if_splits)
  with pk n(1) show ?thesis by (simp add: pack_inv_def)
qed

theorem domain_name_roundtrip_witness:
  "\<exists>msg1 n. packDomainName NewMessage [65, 46, 98] True = Some (msg1, n) \<and> pack_inv msg1 \<and>
    take (length (Packet NewMessage)) (Packet msg1) = Packet NewMessage \<and>
    length (Packet msg1) = length (Packet NewMessage) + n \<and>
    (\<forall>rest. \<exists>rr. unpackName NewResourceRecord [] (Packet msg1 @ rest) (length (Packet NewMessage)) =
       Some (rr, ToLower [65, 46, 98], Packet msg1 @ rest, None) \<and>
       snd (after_name rr (ToLower [65, 46, 98]) (length (Packet NewMessage))) = length (Packet msg1))"
  by (rule domain_name_roundtrip [where ls = "[[97], [98]]"])
    (simp_all add: hostname_def label_def plain_def NewMessage_def pack_inv_def sound_def)

end
