(* ===== verification/DnsRoundtrip.thy ===== *)
theory DnsRoundtrip
  imports DnsNames
begin

section \<open>Packing and unpacking whole DNS messages\<close>

text \<open>
  A message that is packed and unpacked again is the same message: its header as far as it is sent,
  its question, and its resource records of the types A, NS, CNAME, MB, MG, MR, PTR, MX and MINFO,
  with their names compressed. The other types are excluded because the code packs them in a way
  that does not unpack (see the findings on the offsets of SOA, TXT, AAAA and OPT records).
\<close>

unbundle bit_operations_syntax

subsection \<open>Well-formed records\<close>

definition host :: "bytes \<Rightarrow> bool" where
  "host v \<longleftrightarrow> (\<exists>ls. hostname ls \<and> ToLower v = dotted ls)"

definition text_types :: "u16 set" where
  "text_types = {QueryTypeNS, QueryTypeCNAME, QueryTypeMB, QueryTypeMG, QueryTypeMR, QueryTypePTR}"

definition wf_rdata :: "ResourceRecord \<Rightarrow> bool" where
  "wf_rdata rr \<longleftrightarrow>
     RType rr = QueryTypeA \<and> (\<exists>ip. length ip = 4 \<and> Text rr = Some (IP_String ip)) \<or>
     RType rr \<in> text_types \<and> (\<exists>v. Text rr = Some v \<and> host v) \<or>
     RType rr = QueryTypeMX \<and> (\<exists>mx. MX rr = Some mx \<and> host (Exchange mx)) \<or>
     RType rr = QueryTypeMINFO \<and> (\<exists>mi. MInfo rr = Some mi \<and> host (RMailBox mi) \<and> host (EmailBox mi))"

definition wf_rr :: "ResourceRecord \<Rightarrow> bool" where
  "wf_rr rr \<longleftrightarrow> host (Name rr) \<and> wf_rdata rr"

text \<open>The size of the record data, and of a record, without compression.\<close>

definition rdata_size :: "ResourceRecord \<Rightarrow> nat" where
  "rdata_size rr =
     (if RType rr = QueryTypeA then 4
      else if RType rr = QueryTypeMX then (case MX rr of None \<Rightarrow> 0 | Some mx \<Rightarrow> length (Exchange mx) + 4)
      else if RType rr = QueryTypeMINFO then
        (case MInfo rr of None \<Rightarrow> 0 | Some mi \<Rightarrow> length (RMailBox mi) + length (EmailBox mi) + 4)
      else (case Text rr of None \<Rightarrow> 0 | Some v \<Rightarrow> length v + 2))"

definition rr_size :: "ResourceRecord \<Rightarrow> nat" where
  "rr_size rr = length (Name rr) + 12 + rdata_size rr"

text \<open>What the receiver is meant to see: the record with its names in lower case.\<close>

definition lower_rr :: "ResourceRecord \<Rightarrow> ResourceRecord" where
  "lower_rr rr = rr\<lparr>Name := ToLower (Name rr),
     Text := (if RType rr = QueryTypeA then Text rr else map_option ToLower (Text rr)),
     MX := map_option (\<lambda>mx. mx\<lparr>Exchange := ToLower (Exchange mx)\<rparr>) (MX rr),
     MInfo := map_option (\<lambda>mi. mi\<lparr>RMailBox := ToLower (RMailBox mi), EmailBox := ToLower (EmailBox mi)\<rparr>) (MInfo rr)\<rparr>"

text \<open>Two records that agree on everything a user sees.\<close>

definition same_core :: "ResourceRecord \<Rightarrow> ResourceRecord \<Rightarrow> bool" where
  "same_core a b \<longleftrightarrow> Name a = Name b \<and> RType a = RType b \<and> Class a = Class b \<and> TTL a = TTL b \<and> offTTL a = offTTL b"

definition same_rr :: "ResourceRecord \<Rightarrow> ResourceRecord \<Rightarrow> bool" where
  "same_rr a b \<longleftrightarrow> Name a = Name b \<and> RType a = RType b \<and> Class a = Class b \<and> TTL a = TTL b \<and> RData a = RData b"

definition same_frame :: "Message \<Rightarrow> Message \<Rightarrow> bool" where
  "same_frame a b \<longleftrightarrow> Header a = Header b \<and> Question a = Question b \<and> Answer a = Answer b \<and>
     Authority a = Authority b \<and> Additional a = Additional b"

subsection \<open>Record data\<close>

lemma append16_eq [simp]:
  "Packet (append16 msg v) = Packet msg @ AppendUint16 [] v" "off (append16 msg v) = off msg + 2"
  "dnameOff (append16 msg v) = dnameOff msg"
  by (simp_all add: append16_def AppendUint16_def)

lemma length_append16 [simp]: "length (AppendUint16 p v) = length p + 2" "length (AppendInt16 p v) = length p + 2"
  "length (AppendUint32 p w) = length p + 4"
  by (simp_all add: AppendUint16_def AppendInt16_def AppendUint32_def)

lemma WriteUint16_reserved:
  "WriteUint16 (p @ AppendUint16 [] v @ b) (length p) w = Some (p @ AppendUint16 [] w @ b)"
  by (simp add: WriteUint16_def AppendUint16_def upd_def list_update_append)

lemma write16_reserved:
  assumes "Packet msg = p @ AppendUint16 [] v @ b" "at = of_nat (length p)" "length p < 0x10000"
  shows "write16 msg at w = Some (msg\<lparr>Packet := p @ AppendUint16 [] w @ b\<rparr>)"
proof -
  have "unat at = length p" using assms(2,3) by (simp add: unat_of_nat)
  then show ?thesis using WriteUint16_reserved assms(1) by (simp add: write16_def)
qed

text \<open>
  What packing the data of a record gives: its length and the data themselves are appended, the
  invariant is kept, and unpacking them into a record with the same type reads the same data.
\<close>

definition packs_rdata :: "Message \<Rightarrow> ResourceRecord \<Rightarrow> bool" where
  "packs_rdata msg rr \<longleftrightarrow>
     (\<exists>msg1 rr1 d. packRData msg rr = Some (msg1, rr1) \<and>
        Packet msg1 = Packet msg @ AppendUint16 [] (of_nat (length d)) @ d \<and> pack_inv msg1 \<and>
        length d \<le> rdata_size rr \<and> same_frame msg msg1 \<and> same_core rr rr1 \<and> RData rr1 = RData (lower_rr rr) \<and>
        (\<forall>rr0 rest. RType rr0 = RType rr \<longrightarrow> rdlen rr0 = of_nat (length d) \<longrightarrow> rdata rr0 = d \<longrightarrow>
          (\<exists>u. unpackRData rr0 (Packet msg1 @ rest) (length (Packet msg) + 2) = Some (u, Packet msg1 @ rest, None) \<and>
            RData rr1 = RData u \<and> same_core rr0 u)))"

lemma packs_rdataI:
  assumes "packRData msg rr = Some (msg1, rr1)" "Packet msg1 = Packet msg @ AppendUint16 [] (of_nat (length d)) @ d"
    "pack_inv msg1" "length d \<le> rdata_size rr" "same_frame msg msg1" "same_core rr rr1"
    "RData rr1 = RData (lower_rr rr)"
    "\<And>rr0 rest. RType rr0 = RType rr \<Longrightarrow> rdlen rr0 = of_nat (length d) \<Longrightarrow> rdata rr0 = d \<Longrightarrow>
      \<exists>u. unpackRData rr0 (Packet msg1 @ rest) (length (Packet msg) + 2) = Some (u, Packet msg1 @ rest, None) \<and>
        RData rr1 = RData u \<and> same_core rr0 u"
  shows "packs_rdata msg rr"
  unfolding packs_rdata_def using assms by blast

lemma packs_rdata_A:
  assumes "RType rr = QueryTypeA" "length ip = 4" "Text rr = Some (IP_String ip)" "pack_inv msg"
  shows "packs_rdata msg rr"
proof -
  let ?msg = "(append16 msg 4)\<lparr>Packet := Packet msg @ AppendUint16 [] 4 @ ip, off := off msg + 6\<rparr>"
  have "packA msg rr = Some (?msg, rr)"
    using parse_print_IPv4 [OF assms(2)] assms(3) by (simp add: packA_def rdataIPv4Size_def add.assoc)
  then have pr: "packRData msg rr = Some (?msg, rr)" using assms(1) by (simp add: packRData_def)
  show ?thesis
  proof (rule packs_rdataI [OF pr, of ip])
    show "pack_inv ?msg" using assms(2,4) sound_append by (auto simp: pack_inv_def)
    show "RData rr = RData (lower_rr rr)" using assms(1) by (simp add: RData_def lower_rr_def)
    fix rr0 :: ResourceRecord and rest assume "RType rr0 = RType rr" "rdlen rr0 = of_nat (length ip)" "rdata rr0 = ip"
    then show "\<exists>u. unpackRData rr0 (Packet ?msg @ rest) (length (Packet msg) + 2) = Some (u, Packet ?msg @ rest, None) \<and>
        RData rr = RData u \<and> same_core rr0 u"
      using assms(1-3)
      by (simp add: unpackRData_def unpackA_def rdataIPv4Size_def RData_def same_core_def Let_def)
  qed (use assms in \<open>simp_all add: rdata_size_def same_frame_def same_core_def append16_def\<close>)
qed

text \<open>A name at the end of the data, after the reserved length and the bytes \<open>x\<close>.\<close>

lemma pack_name_reserved:
  assumes "hostname ls" "ToLower v = dotted ls" "Packet msg = p @ AppendUint16 [] 0 @ x"
    "off msg = of_nat (length (Packet msg))" "length (Packet msg) + length v + 2 \<le> 0x4000"
    "\<And>w. sound (p @ AppendUint16 [] w @ x) (dnameOff msg)"
  obtains b m1 d where
    "packDomainName msg v True = Some (msg\<lparr>Packet := p @ AppendUint16 [] 0 @ x @ b,
      off := of_nat (length (p @ AppendUint16 [] 0 @ x @ b)), dnameOff := m1, dname := d\<rparr>, length b)"
    "length b \<le> length v + 2" "\<forall>w. sound (p @ AppendUint16 [] w @ x @ b) m1"
    "\<forall>w rest. \<exists>vs e. name_at (p @ AppendUint16 [] w @ x @ b @ rest) (length p + 2 + length x) ls vs e \<and>
       name_ends (length p + 2 + length x) ls e (length (p @ AppendUint16 [] w @ x @ b))"
proof -
  obtain b m1 where e: "enc_labels True (dnameOff msg) (length (Packet msg)) ls = (b, m1)" by fastforce
  have len: "length v = length (dotted ls)" using arg_cong [OF assms(2), of length] by simp
  have "length (Packet msg) + length v < 0x10000" using assms(5) by simp
  from packDomainName_eq [OF assms(1,2,4) this e] obtain d where
    pk: "packDomainName msg v True = Some (msg\<lparr>Packet := Packet msg @ b, off := of_nat (length (Packet msg @ b)),
      dnameOff := m1, dname := d\<rparr>, length b)" by blast
  have en: "length b \<le> length (dotted ls) + 2 \<and> sound ((p @ AppendUint16 [] w @ x) @ b) m1 \<and>
    (\<exists>vs e. name_at ((p @ AppendUint16 [] w @ x) @ b) (length (p @ AppendUint16 [] w @ x)) ls vs e \<and>
      name_ends (length (p @ AppendUint16 [] w @ x)) ls e (length ((p @ AppendUint16 [] w @ x) @ b)))" for w
    using assms(3,5) len e by (intro enc_name [OF assms(1,6)]) (simp_all add: ac_simps)
  show ?thesis
  proof (rule that)
    show "packDomainName msg v True = Some (msg\<lparr>Packet := p @ AppendUint16 [] 0 @ x @ b,
      off := of_nat (length (p @ AppendUint16 [] 0 @ x @ b)), dnameOff := m1, dname := d\<rparr>, length b)"
      using pk assms(3) by simp
    show "length b \<le> length v + 2" using en len by simp
    show "\<forall>w. sound (p @ AppendUint16 [] w @ x @ b) m1" using en by simp
    have "\<exists>vs e. name_at (p @ AppendUint16 [] w @ x @ b @ rest) (length p + 2 + length x) ls vs e \<and>
       name_ends (length p + 2 + length x) ls e (length (p @ AppendUint16 [] w @ x @ b))" for w rest
    proof -
      obtain vs e where "name_at (p @ AppendUint16 [] w @ x @ b) (length p + 2 + length x) ls vs e"
        "name_ends (length p + 2 + length x) ls e (length (p @ AppendUint16 [] w @ x @ b))"
        using en [of w] by (auto simp: ac_simps)
      with name_at_append [of "p @ AppendUint16 [] w @ x @ b" _ ls vs e rest] show ?thesis by auto
    qed
    then show "\<forall>w rest. \<exists>vs e. name_at (p @ AppendUint16 [] w @ x @ b @ rest) (length p + 2 + length x) ls vs e \<and>
       name_ends (length p + 2 + length x) ls e (length (p @ AppendUint16 [] w @ x @ b))" by blast
  qed
qed

lemma pack_inv_append16:
  "pack_inv msg \<Longrightarrow> pack_inv (append16 msg v)"
  "pack_inv msg \<Longrightarrow> off msg = of_nat (length (Packet msg))"
  "pack_inv msg \<Longrightarrow> sound (Packet msg @ b) (dnameOff msg)"
  by (auto simp: pack_inv_def intro: sound_append)

lemma packs_rdata_text:
  assumes "RType rr \<in> text_types" "Text rr = Some v" "host v" "pack_inv msg"
    "length (Packet msg) + 2 + rdata_size rr \<le> 0x4000"
  shows "packs_rdata msg rr"
proof -
  obtain ls where ls: "hostname ls" "ToLower v = dotted ls" using assms(3) by (auto simp: host_def)
  have t: "RType rr \<noteq> QueryTypeA" "RType rr \<noteq> QueryTypeMX" "RType rr \<noteq> QueryTypeMINFO"
    using assms(1) by (auto simp: text_types_def query_types)
  have sz: "rdata_size rr = length v + 2" using t assms(2) by (simp add: rdata_size_def)
  let ?p = "Packet msg"
  have h: "Packet (append16 msg 0) = ?p @ AppendUint16 [] 0 @ []"
    "off (append16 msg 0) = of_nat (length (Packet (append16 msg 0)))"
    "length (Packet (append16 msg 0)) + length v + 2 \<le> 0x4000"
    "\<And>w. sound (?p @ AppendUint16 [] w @ []) (dnameOff (append16 msg 0))"
    using pack_inv_append16(2,3) [OF assms(4)] assms(5) sz by simp_all
  obtain b m1 d where
    pk: "packDomainName (append16 msg 0) v True = Some ((append16 msg 0)\<lparr>Packet := ?p @ AppendUint16 [] 0 @ [] @ b,
      off := of_nat (length (?p @ AppendUint16 [] 0 @ [] @ b)), dnameOff := m1, dname := d\<rparr>, length b)"
    and n: "length b \<le> length v + 2" "\<forall>w. sound (?p @ AppendUint16 [] w @ [] @ b) m1"
    "\<forall>w rest. \<exists>vs e. name_at (?p @ AppendUint16 [] w @ [] @ b @ rest) (length ?p + 2 + length ([] :: bytes)) ls vs e \<and>
       name_ends (length ?p + 2 + length ([] :: bytes)) ls e (length (?p @ AppendUint16 [] w @ [] @ b))"
    by (rule pack_name_reserved [OF ls h]) (rule that, assumption+)
  let ?msg = "(append16 msg 0)\<lparr>Packet := ?p @ AppendUint16 [] (of_nat (length b)) @ b,
      off := of_nat (length (?p @ AppendUint16 [] (of_nat (length b)) @ b)), dnameOff := m1, dname := d\<rparr>"
  have "length ?p < 0x10000" using assms(5) by simp
  then have "packTextAsDomain msg rr = Some (?msg, rr\<lparr>Text := Some (dotted ls)\<rparr>)"
    using assms(2) pk ls(2) pack_inv_append16(2) [OF assms(4)]
    by (simp add: packTextAsDomain_def write16_reserved [where p = ?p and v = 0 and b = b])
  then have pr: "packRData msg rr = Some (?msg, rr\<lparr>Text := Some (dotted ls)\<rparr>)"
    using assms(1) by (auto simp: packRData_def text_types_def query_types)
  show ?thesis
  proof (rule packs_rdataI [OF pr])
    show "pack_inv ?msg" using n(2) by (simp add: pack_inv_def)
    show "RData (rr\<lparr>Text := Some (dotted ls)\<rparr>) = RData (lower_rr rr)"
      using assms(1,2) ls(2) by (auto simp: RData_def lower_rr_def text_types_def query_types)
    fix rr0 :: ResourceRecord and rest assume rr0: "RType rr0 = RType rr"
    obtain vs e where "name_at (Packet ?msg @ rest) (length ?p + 2) ls vs e"
      using spec [OF spec [OF n(3)], of "of_nat (length b)" rest] by auto
    from unpackName_at [OF this, of rr0] rr0 assms(1)
    show "\<exists>u. unpackRData rr0 (Packet ?msg @ rest) (length ?p + 2) = Some (u, Packet ?msg @ rest, None) \<and>
        RData (rr\<lparr>Text := Some (dotted ls)\<rparr>) = RData u \<and> same_core rr0 u"
      by (auto simp: unpackRData_def unpackText_def text_types_def query_types same_core_def RData_def)
  qed (use n(1) sz in \<open>auto simp: same_frame_def same_core_def append16_def\<close>)
qed

lemma dispatch:
  "RType rr = QueryTypeMX \<Longrightarrow> unpackRData rr p x = unpackMX rr p x"
  "RType rr = QueryTypeMX \<Longrightarrow> RData rr = Some (map_option RDMX (MX rr))"
  "RType rr = QueryTypeMX \<Longrightarrow> packRData msg rr = packMX msg rr"
  "RType rr = QueryTypeMINFO \<Longrightarrow> unpackRData rr p x = unpackMInfo rr p x"
  "RType rr = QueryTypeMINFO \<Longrightarrow> RData rr = Some (map_option RDMINFO (MInfo rr))"
  "RType rr = QueryTypeMINFO \<Longrightarrow> packRData msg rr = packMINFO msg rr"
  by (simp_all add: unpackRData_def packRData_def RData_def query_types)

lemma packs_rdata_MX:
  assumes "RType rr = QueryTypeMX" "MX rr = Some mx" "host (Exchange mx)" "pack_inv msg"
    "length (Packet msg) + 2 + rdata_size rr \<le> 0x4000"
  shows "packs_rdata msg rr"
proof -
  obtain ls where ls: "hostname ls" "ToLower (Exchange mx) = dotted ls" using assms(3) by (auto simp: host_def)
  have sz: "rdata_size rr = length (Exchange mx) + 4" using assms(1,2) by (simp add: rdata_size_def query_types)
  let ?p = "Packet msg" and ?x = "AppendInt16 [] (Preference mx)"
  define msg0 where "msg0 = (append16 msg 0)\<lparr>Packet := AppendInt16 (Packet (append16 msg 0)) (Preference mx),
    off := off (append16 msg 0) + 2\<rparr>"
  have p0: "Packet msg0 = ?p @ AppendUint16 [] 0 @ ?x" "dnameOff msg0 = dnameOff msg"
    by (simp_all add: msg0_def AppendInt16_def)
  have h: "off msg0 = of_nat (length (Packet msg0))" "length (Packet msg0) + length (Exchange mx) + 2 \<le> 0x4000"
    "\<And>w. sound (?p @ AppendUint16 [] w @ ?x) (dnameOff msg0)"
    using pack_inv_append16(2,3) [OF assms(4)] assms(5) sz by (simp_all add: p0) (simp add: msg0_def)
  obtain b m1 d where
    pk: "packDomainName msg0 (Exchange mx) True = Some (msg0\<lparr>Packet := ?p @ AppendUint16 [] 0 @ ?x @ b,
      off := of_nat (length (?p @ AppendUint16 [] 0 @ ?x @ b)), dnameOff := m1, dname := d\<rparr>, length b)"
    and n: "length b \<le> length (Exchange mx) + 2" "\<forall>w. sound (?p @ AppendUint16 [] w @ ?x @ b) m1"
    "\<forall>w rest. \<exists>vs e. name_at (?p @ AppendUint16 [] w @ ?x @ b @ rest) (length ?p + 2 + length ?x) ls vs e \<and>
       name_ends (length ?p + 2 + length ?x) ls e (length (?p @ AppendUint16 [] w @ ?x @ b))"
    by (rule pack_name_reserved [OF ls p0(1) h]) (rule that, assumption+)
  let ?msg = "msg0\<lparr>Packet := ?p @ AppendUint16 [] (of_nat (length (?x @ b))) @ ?x @ b,
      off := of_nat (length (?p @ AppendUint16 [] (of_nat (length (?x @ b))) @ ?x @ b)), dnameOff := m1, dname := d\<rparr>"
  let ?rr = "rr\<lparr>MX := Some (mx\<lparr>Exchange := dotted ls\<rparr>)\<rparr>"
  have "length ?p < 0x10000" using assms(5) by simp
  moreover have "packMX msg rr = do { (m, n) \<leftarrow> packDomainName msg0 (Exchange mx) True;
      m \<leftarrow> write16 m (off msg) (of_nat (n + 2));
      Some (m, rr\<lparr>MX := Some (mx\<lparr>Exchange := ToLower (Exchange mx)\<rparr>)\<rparr>) }"
    using assms(2) by (simp add: packMX_def msg0_def Let_def)
  ultimately have "packMX msg rr = Some (?msg, ?rr)"
    using pk ls(2) pack_inv_append16(2) [OF assms(4)]
    by (simp add: write16_reserved [where p = ?p and v = 0 and b = "?x @ b"] ac_simps)
  then have pr: "packRData msg rr = Some (?msg, ?rr)" using assms(1) by (simp add: dispatch)
  show ?thesis
  proof (rule packs_rdataI [OF pr, of "?x @ b"])
    show "pack_inv ?msg" using n(2) by (simp add: pack_inv_def)
    show "RData ?rr = RData (lower_rr rr)" using assms(1,2) ls(2) by (simp add: dispatch lower_rr_def)
    fix rr0 :: ResourceRecord and rest assume rr0: "RType rr0 = RType rr"
    obtain vs e where "name_at (Packet ?msg @ rest) (length ?p + 4) ls vs e"
      using spec [OF spec [OF n(3)], of "of_nat (length (?x @ b))" rest] by (auto simp: ac_simps numeral_eq_Suc)
    moreover have "ReadInt16 (Packet ?msg @ rest) (length ?p + 2) = Some (Preference mx)"
      by (rule int16.rd_at [where data = "?p @ AppendUint16 [] (of_nat (length (?x @ b)))" and rest = "b @ rest"]) simp_all
    ultimately have "unpackMX rr0 (Packet ?msg @ rest) (length ?p + 2) =
        Some (rr0\<lparr>rr_off := name_off 0 e, MX := Some (mx\<lparr>Exchange := dotted ls\<rparr>)\<rparr>, Packet ?msg @ rest, None)"
      using unpackName_at [of "Packet ?msg @ rest" "length ?p + 4" ls vs e "rr0\<lparr>rr_off := 0\<rparr>"]
      by (cases mx) (simp add: unpackMX_def ac_simps numeral_eq_Suc)
    then show "\<exists>u. unpackRData rr0 (Packet ?msg @ rest) (length ?p + 2) = Some (u, Packet ?msg @ rest, None) \<and>
        RData ?rr = RData u \<and> same_core rr0 u"
      using rr0 assms(1) by (simp add: dispatch same_core_def)
  qed (use n(1) sz in \<open>simp_all add: same_frame_def same_core_def append16_def msg0_def\<close>)
qed

lemma packs_rdata_MINFO:
  assumes "RType rr = QueryTypeMINFO" "MInfo rr = Some mi" "host (RMailBox mi)" "host (EmailBox mi)" "pack_inv msg"
    "length (Packet msg) + 2 + rdata_size rr \<le> 0x4000"
  shows "packs_rdata msg rr"
proof -
  obtain ls1 where ls1: "hostname ls1" "ToLower (RMailBox mi) = dotted ls1" using assms(3) by (auto simp: host_def)
  obtain ls2 where ls2: "hostname ls2" "ToLower (EmailBox mi) = dotted ls2" using assms(4) by (auto simp: host_def)
  have sz: "rdata_size rr = length (RMailBox mi) + length (EmailBox mi) + 4"
    using assms(1,2) by (simp add: rdata_size_def query_types)
  let ?p = "Packet msg"
  have h1: "Packet (append16 msg 0) = ?p @ AppendUint16 [] 0 @ []"
    "off (append16 msg 0) = of_nat (length (Packet (append16 msg 0)))"
    "length (Packet (append16 msg 0)) + length (RMailBox mi) + 2 \<le> 0x4000"
    "\<And>w. sound (?p @ AppendUint16 [] w @ []) (dnameOff (append16 msg 0))"
    using pack_inv_append16(2,3) [OF assms(5)] assms(6) sz by simp_all
  obtain b1 m1 d1 where
    pk1: "packDomainName (append16 msg 0) (RMailBox mi) True = Some ((append16 msg 0)\<lparr>Packet := ?p @ AppendUint16 [] 0 @ [] @ b1,
      off := of_nat (length (?p @ AppendUint16 [] 0 @ [] @ b1)), dnameOff := m1, dname := d1\<rparr>, length b1)"
    and n1: "length b1 \<le> length (RMailBox mi) + 2" "\<forall>w. sound (?p @ AppendUint16 [] w @ [] @ b1) m1"
    "\<forall>w rest. \<exists>vs e. name_at (?p @ AppendUint16 [] w @ [] @ b1 @ rest) (length ?p + 2 + length ([] :: bytes)) ls1 vs e \<and>
       name_ends (length ?p + 2 + length ([] :: bytes)) ls1 e (length (?p @ AppendUint16 [] w @ [] @ b1))"
    by (rule pack_name_reserved [OF ls1 h1]) (rule that, assumption+)
  define msg1 where "msg1 = (append16 msg 0)\<lparr>Packet := ?p @ AppendUint16 [] 0 @ b1,
      off := of_nat (length (?p @ AppendUint16 [] 0 @ b1)), dnameOff := m1, dname := d1\<rparr>"
  have h2: "Packet msg1 = ?p @ AppendUint16 [] 0 @ b1" "off msg1 = of_nat (length (Packet msg1))"
    "length (Packet msg1) + length (EmailBox mi) + 2 \<le> 0x4000"
    "\<And>w. sound (?p @ AppendUint16 [] w @ b1) (dnameOff msg1)"
    using n1(1,2) assms(6) sz by (simp_all add: msg1_def)
  obtain b2 m2 d2 where
    pk2: "packDomainName msg1 (EmailBox mi) True = Some (msg1\<lparr>Packet := ?p @ AppendUint16 [] 0 @ b1 @ b2,
      off := of_nat (length (?p @ AppendUint16 [] 0 @ b1 @ b2)), dnameOff := m2, dname := d2\<rparr>, length b2)"
    and n2: "length b2 \<le> length (EmailBox mi) + 2" "\<forall>w. sound (?p @ AppendUint16 [] w @ b1 @ b2) m2"
    "\<forall>w rest. \<exists>vs e. name_at (?p @ AppendUint16 [] w @ b1 @ b2 @ rest) (length ?p + 2 + length b1) ls2 vs e \<and>
       name_ends (length ?p + 2 + length b1) ls2 e (length (?p @ AppendUint16 [] w @ b1 @ b2))"
    by (rule pack_name_reserved [OF ls2 h2]) (rule that, assumption+)
  let ?b = "b1 @ b2"
  let ?msg = "msg1\<lparr>Packet := ?p @ AppendUint16 [] (of_nat (length ?b)) @ ?b,
      off := of_nat (length (?p @ AppendUint16 [] (of_nat (length ?b)) @ ?b)), dnameOff := m2, dname := d2\<rparr>"
  let ?mi = "\<lparr>RMailBox = dotted ls1, EmailBox = dotted ls2\<rparr>"
  have "length ?p < 0x10000" using assms(6) by simp
  then have "packMINFO msg rr = Some (?msg, rr\<lparr>MInfo := Some ?mi\<rparr>)"
    using assms(2) pk1 [simplified, folded msg1_def [simplified]] pk2 ls1(2) ls2(2) pack_inv_append16(2) [OF assms(5)]
    by (simp add: packMINFO_def write16_reserved [where p = ?p and v = 0 and b = ?b])
  then have pr: "packRData msg rr = Some (?msg, rr\<lparr>MInfo := Some ?mi\<rparr>)" using assms(1) by (simp add: dispatch)
  show ?thesis
  proof (rule packs_rdataI [OF pr, of ?b])
    show "pack_inv ?msg" using n2(2) by (simp add: pack_inv_def)
    show "RData (rr\<lparr>MInfo := Some ?mi\<rparr>) = RData (lower_rr rr)"
      using assms(1,2) ls1(2) ls2(2) by (cases mi) (simp add: dispatch lower_rr_def)
    fix rr0 :: ResourceRecord and rest assume rr0: "RType rr0 = RType rr"
    define q where "q = Packet ?msg @ rest"
    obtain vs1 e1 where a1: "name_at q (length ?p + 2) ls1 vs1 e1"
      "name_ends (length ?p + 2) ls1 e1 (length ?p + 2 + length b1)"
      using spec [OF spec [OF n1(3)], of "of_nat (length ?b)" "b2 @ rest"] by (auto simp: q_def)
    obtain vs2 e2 where a2: "name_at q (length ?p + 2 + length b1) ls2 vs2 e2"
      using spec [OF spec [OF n2(3)], of "of_nat (length ?b)" rest] by (auto simp: q_def)
    have "snd (after_name (rr0\<lparr>rr_off := name_off 0 e1, MInfo := x\<rparr>) (dotted ls1) (length ?p + 2)) = length ?p + 2 + length b1"
      for x using name_ends_off [OF a1(2)] ls1(1) by (simp add: after_name_def hostname_def split: if_splits)
    then have "unpackMInfo rr0 q (length ?p + 2) = Some (rr0\<lparr>rr_off := name_off 0 e2, MInfo := Some ?mi\<rparr>, q, None)"
      unfolding unpackMInfo_def
      using unpackName_at [OF a1(1), of "rr0\<lparr>rr_off := 0\<rparr>"] unpackName_at [OF a2]
      by (simp add: after_name_def split_beta Let_def split: if_splits)
    then show "\<exists>u. unpackRData rr0 (Packet ?msg @ rest) (length ?p + 2) = Some (u, Packet ?msg @ rest, None) \<and>
        RData (rr\<lparr>MInfo := Some ?mi\<rparr>) = RData u \<and> same_core rr0 u"
      unfolding q_def [symmetric] using rr0 assms(1) by (auto simp add: dispatch same_core_def)
  qed (use n1(1) n2(1) sz in \<open>simp_all add: same_frame_def same_core_def append16_def msg1_def\<close>)
qed

text \<open>The data of every well-formed record is packed so that it unpacks again.\<close>

lemma packs_rdata_wf:
  assumes "wf_rdata rr" "pack_inv msg" "length (Packet msg) + 2 + rdata_size rr \<le> 0x4000"
  shows "packs_rdata msg rr"
  using assms unfolding wf_rdata_def
  by (auto intro: packs_rdata_A packs_rdata_text packs_rdata_MX packs_rdata_MINFO)

subsection \<open>Resource records\<close>

lemma pack_inv_cong:
  "pack_inv msg \<Longrightarrow> Packet msg1 = Packet msg @ b \<Longrightarrow> off msg1 = off msg + of_nat (length b) \<Longrightarrow>
   dnameOff msg1 = dnameOff msg \<Longrightarrow> pack_inv msg1"
  by (auto simp: pack_inv_def intro: sound_append)

lemma rr_unpack_at:
  assumes "unpackName rr (Name rr) p s = Some (rr1, nm, q, None)"
    "(if rr_off rr1 > 0 then rr_off rr1 + 1 else if length nm = 0 then s + 1 else s + length nm + 2) = x"
    "ReadUint16 q x = Some t" "ReadUint16 q (x + 2) = Some c" "ReadUint32 q (x + 4) = Some ttl"
    "ReadUint16 q (x + 8) = Some rl" "subslice q (x + 10) (x + 10 + unat rl) = Some d"
    "unpackRData (rr1\<lparr>Name := nm, RType := t, Class := c, offTTL := x + 4, TTL := ttl, rdlen := rl,
      rdata := rdata rr1 @ d\<rparr>) q (x + 10) = Some (u, q1, e)"
  shows "rr_unpack rr p s = Some (u, q1, x + 10 + unat rl, e)"
  unfolding rr_unpack_def assms(1) using assms(2-8)
  by (simp add: Let_def del: length_0_conv add_2_eq_Suc' add_2_eq_Suc cong: if_cong split del: if_split)

text \<open>Packing a record appends bytes that unpack into the same record, whatever follows them.\<close>

definition packs_rr :: "Message \<Rightarrow> ResourceRecord \<Rightarrow> bool" where
  "packs_rr msg rr \<longleftrightarrow>
     (\<exists>msg1 rr1 b. packRR msg rr = Some (msg1, rr1) \<and> Packet msg1 = Packet msg @ b \<and> pack_inv msg1 \<and>
        length b \<le> rr_size rr \<and> same_frame msg msg1 \<and>
        (\<forall>rest. \<exists>u. rr_unpack NewResourceRecord (Packet msg1 @ rest) (length (Packet msg)) =
            Some (u, Packet msg1 @ rest, length (Packet msg1), None) \<and> same_rr (lower_rr rr) u \<and>
            ReadUint32 (Packet msg1 @ rest) (offTTL u) = Some (TTL u)))"

lemma packs_rr_wf:
  assumes "wf_rr rr" "pack_inv msg" "length (Packet msg) + rr_size rr \<le> 0x4000"
  shows "packs_rr msg rr"
proof -
  obtain ls where ls: "hostname ls" "ToLower (Name rr) = dotted ls" using assms(1) by (auto simp: wf_rr_def host_def)
  have wd: "wf_rdata rr" using assms(1) by (simp add: wf_rr_def)
  then have nopt: "RType rr \<noteq> QueryTypeOPT" by (auto simp: wf_rdata_def text_types_def query_types)
  have len: "length (Name rr) = length (dotted ls)" using arg_cong [OF ls(2), of length] by simp
  let ?p = "Packet msg"
  obtain b m1 where e: "enc_labels True (dnameOff msg) (length ?p) ls = (b, m1)" by fastforce
  have inv: "off msg = of_nat (length ?p)" "sound ?p (dnameOff msg)" using assms(2) by (simp_all add: pack_inv_def)
  have "length ?p + length (dotted ls) + 2 \<le> 0x4000" using assms(3) len by (simp add: rr_size_def)
  from enc_name [OF ls(1) inv(2) this e] obtain vs x where
    n: "length b \<le> length (dotted ls) + 2" "sound (?p @ b) m1" "name_at (?p @ b) (length ?p) ls vs x"
      "name_ends (length ?p) ls x (length (?p @ b))" by blast
  have "length ?p + length (Name rr) < 0x10000" using assms(3) by (simp add: rr_size_def)
  from packDomainName_eq [OF ls inv(1) this e] obtain d where
    pk: "packDomainName msg (Name rr) True =
      Some (msg\<lparr>Packet := ?p @ b, off := of_nat (length (?p @ b)), dnameOff := m1, dname := d\<rparr>, length b)" by blast
  let ?tc = "AppendUint16 [] (RType rr) @ AppendUint16 [] (Class rr)" and ?ttl = "AppendUint32 [] (TTL rr)"
  define msg2 where "msg2 = msg\<lparr>Packet := ?p @ b @ ?tc @ ?ttl, off := of_nat (length (?p @ b) + 8), dnameOff := m1, dname := d\<rparr>"
  define rr2 where "rr2 = rr\<lparr>Name := dotted ls, offTTL := length (?p @ b) + 4\<rparr>"
  have offw: "unat (of_nat (length (?p @ b)) + 4 :: u16) = length (?p @ b) + 4"
  proof -
    have "length (?p @ b) + 4 < 0x10000" using n(1) assms(3) len by (simp add: rr_size_def)
    then show ?thesis using unat_of_nat [of "length (?p @ b) + 4", where 'a = 16] by simp
  qed
  have start: "packRR msg rr = packRData msg2 rr2"
    using nopt pk ls(2) offw
    by (cases msg) (simp add: packRR_def msg2_def rr2_def AppendUint16_def AppendUint32_def Let_def add.assoc)
  have wd2: "wf_rdata rr2" "rdata_size rr2 = rdata_size rr" using wd by (simp_all add: wf_rdata_def rdata_size_def rr2_def)
  have lrr: "RData (lower_rr rr2) = RData (lower_rr rr)" by (simp add: rr2_def RData_def lower_rr_def Let_def cong: if_cong)
  have inv2: "pack_inv msg2" using sound_append [OF n(2), of "?tc @ ?ttl"] by (simp add: pack_inv_def msg2_def)
  have "length (Packet msg2) + 2 + rdata_size rr2 \<le> 0x4000"
    using n(1) assms(3) len wd2(2) by (simp add: msg2_def rr_size_def)
  from packs_rdata_wf [OF wd2(1) inv2 this] obtain msg3 rr3 c where
    r: "packRData msg2 rr2 = Some (msg3, rr3)" "Packet msg3 = Packet msg2 @ AppendUint16 [] (of_nat (length c)) @ c"
      "pack_inv msg3" "length c \<le> rdata_size rr2" "same_frame msg2 msg3" "same_core rr2 rr3"
      "\<And>rr0 rest. RType rr0 = RType rr2 \<Longrightarrow> rdlen rr0 = of_nat (length c) \<Longrightarrow> rdata rr0 = c \<Longrightarrow>
        \<exists>u. unpackRData rr0 (Packet msg3 @ rest) (length (Packet msg2) + 2) = Some (u, Packet msg3 @ rest, None) \<and>
          RData rr3 = RData u \<and> same_core rr0 u"
      "RData rr3 = RData (lower_rr rr2)"
    unfolding packs_rdata_def by blast
  have un: "\<exists>u. rr_unpack NewResourceRecord (Packet msg3 @ rest) (length ?p) =
      Some (u, Packet msg3 @ rest, length (Packet msg3), None) \<and> same_rr (lower_rr rr) u \<and>
      ReadUint32 (Packet msg3 @ rest) (offTTL u) = Some (TTL u)" for rest
  proof -
    define q where "q = Packet msg3 @ rest"
    have q: "q = (?p @ b) @ AppendUint16 [] (RType rr) @ AppendUint16 [] (Class rr) @ AppendUint32 [] (TTL rr) @
        AppendUint16 [] (of_nat (length c)) @ c @ rest" by (simp add: q_def r(2) msg2_def)
    have lc: "unat (of_nat (length c) :: u16) = length c"
      using r(4) wd2(2) assms(3) by (simp add: rr_size_def unat_of_nat)
    let ?x = "length (?p @ b)"
    let ?rr = "NewResourceRecord\<lparr>rr_off := name_off 0 x, Name := dotted ls, RType := RType rr, Class := Class rr,
      offTTL := ?x + 4, TTL := TTL rr, rdlen := of_nat (length c), rdata := c\<rparr>"
    have "RType ?rr = RType rr2" "rdlen ?rr = of_nat (length c)" "rdata ?rr = c" by (simp_all add: rr2_def)
    from r(7) [OF this, of rest] obtain u where
      u: "unpackRData ?rr q (?x + 10) = Some (u, q, None)" "RData rr3 = RData u" "same_core ?rr u"
      by (auto simp: msg2_def q_def ac_simps)
    have nm: "unpackName NewResourceRecord [] q (length ?p) = Some (NewResourceRecord\<lparr>rr_off := name_off 0 x\<rparr>, dotted ls, q, None)"
      using unpackName_at [OF name_at_append [OF n(3)], where rr = NewResourceRecord] by (simp add: q NewResourceRecord_def)
    have x: "(if name_off 0 x > 0 then name_off 0 x + 1
        else if length (dotted ls) = 0 then length ?p + 1 else length ?p + length (dotted ls) + 2) = ?x"
      using name_ends_off [OF n(4)] ls(1) dotted_ne [OF ls(1)] by (simp add: hostname_def split: if_splits)
    have rd: "ReadUint16 q ?x = Some (RType rr)" "ReadUint16 q (?x + 2) = Some (Class rr)"
      "ReadUint32 q (?x + 4) = Some (TTL rr)" "ReadUint16 q (?x + 8) = Some (of_nat (length c))"
      by (rule uint16.rd_at [where data = "?p @ b"] uint16.rd_at [where data = "?p @ b @ AppendUint16 [] (RType rr)"]
          uint32.rd_at [where data = "?p @ b @ ?tc"] uint16.rd_at [where data = "?p @ b @ ?tc @ ?ttl"], simp add: q, simp)+
    have new: "Name NewResourceRecord = []" "rdata NewResourceRecord = []" by (simp_all add: NewResourceRecord_def)
    have lm: "length (Packet msg3) = ?x + 10 + length c" by (simp add: r(2) msg2_def)
    have sl: "subslice q (?x + 10) (?x + 10 + length c) = Some c" by (simp add: q subslice_def)
    have "rr_unpack NewResourceRecord q (length ?p) = Some (u, q, length (Packet msg3), None)"
      using rr_unpack_at [OF _ _ rd, of NewResourceRecord q "length ?p" "NewResourceRecord\<lparr>rr_off := name_off 0 x\<rparr>" "dotted ls" c u q None]
        nm x sl u(1) new lm lc by (simp del: length_0_conv add_2_eq_Suc' cong: if_cong split del: if_split)
    moreover have "same_rr (lower_rr rr) u" using u(2,3) r(6,8) lrr ls(2)
      by (simp add: same_rr_def same_core_def rr2_def) (simp add: lower_rr_def)
    moreover have "ReadUint32 q (offTTL u) = Some (TTL u)" using rd(3) u(3) by (simp add: same_core_def)
    ultimately show ?thesis by (auto simp: q_def)
  qed
  show ?thesis
    unfolding packs_rr_def
    using start r un n(1) len wd2(2)
    by (intro exI [of _ msg3] exI [of _ rr3] exI [of _ "b @ ?tc @ ?ttl @ AppendUint16 [] (of_nat (length c)) @ c"])
      (auto simp: msg2_def rr_size_def same_frame_def)
qed

subsection \<open>Lists of records\<close>

lemma Unpack_RRs_step:
  "rr_unpack NewResourceRecord p x = Some (u, p, y, None) \<Longrightarrow>
   Unpack_RRs (Suc k) acc p x = Unpack_RRs k (acc @ [u]) p y"
  by simp

definition packs_rrs :: "Message \<Rightarrow> ResourceRecord list \<Rightarrow> bool" where
  "packs_rrs msg rrs \<longleftrightarrow>
     (\<exists>msg1 rrs1 b. packRRs msg rrs = Some (msg1, rrs1) \<and> Packet msg1 = Packet msg @ b \<and> pack_inv msg1 \<and>
        length b \<le> sum_list (map rr_size rrs) \<and> same_frame msg msg1 \<and>
        (\<forall>rest. \<exists>us. (\<forall>acc. Unpack_RRs (length rrs) acc (Packet msg1 @ rest) (length (Packet msg)) =
            Some (acc @ us, Packet msg1 @ rest, length (Packet msg1), None)) \<and>
          list_all2 (\<lambda>rr u. same_rr (lower_rr rr) u \<and> ReadUint32 (Packet msg1 @ rest) (offTTL u) = Some (TTL u)) rrs us))"

lemma packs_rrs_wf:
  assumes "list_all wf_rr rrs" "pack_inv msg" "length (Packet msg) + sum_list (map rr_size rrs) \<le> 0x4000"
  shows "packs_rrs msg rrs"
  using assms
proof (induction rrs arbitrary: msg)
  case Nil
  then show ?case by (simp add: packs_rrs_def same_frame_def)
next
  case (Cons rr rrs)
  have "packs_rr msg rr" using Cons.prems by (intro packs_rr_wf) simp_all
  then obtain msg1 rr1 b where r: "packRR msg rr = Some (msg1, rr1)" "Packet msg1 = Packet msg @ b" "pack_inv msg1"
    "length b \<le> rr_size rr" "same_frame msg msg1"
    "\<forall>rest. \<exists>u. rr_unpack NewResourceRecord (Packet msg1 @ rest) (length (Packet msg)) =
       Some (u, Packet msg1 @ rest, length (Packet msg1), None) \<and> same_rr (lower_rr rr) u \<and>
       ReadUint32 (Packet msg1 @ rest) (offTTL u) = Some (TTL u)"
    unfolding packs_rr_def by blast
  have "packs_rrs msg1 rrs" using Cons.prems r(2-4) by (intro Cons.IH) simp_all
  then obtain msg2 rrs2 c where s: "packRRs msg1 rrs = Some (msg2, rrs2)" "Packet msg2 = Packet msg1 @ c" "pack_inv msg2"
    "length c \<le> sum_list (map rr_size rrs)" "same_frame msg1 msg2"
    "\<forall>rest. \<exists>us. (\<forall>acc. Unpack_RRs (length rrs) acc (Packet msg2 @ rest) (length (Packet msg1)) =
            Some (acc @ us, Packet msg2 @ rest, length (Packet msg2), None)) \<and>
          list_all2 (\<lambda>rr u. same_rr (lower_rr rr) u \<and> ReadUint32 (Packet msg2 @ rest) (offTTL u) = Some (TTL u)) rrs us"
    unfolding packs_rrs_def by blast
  have "\<exists>us. (\<forall>acc. Unpack_RRs (length (rr # rrs)) acc (Packet msg2 @ rest) (length (Packet msg)) =
          Some (acc @ us, Packet msg2 @ rest, length (Packet msg2), None)) \<and>
        list_all2 (\<lambda>rr u. same_rr (lower_rr rr) u \<and> ReadUint32 (Packet msg2 @ rest) (offTTL u) = Some (TTL u)) (rr # rrs) us" for rest
  proof -
    obtain u where u: "rr_unpack NewResourceRecord (Packet msg2 @ rest) (length (Packet msg)) =
        Some (u, Packet msg2 @ rest, length (Packet msg1), None)" "same_rr (lower_rr rr) u"
      "ReadUint32 (Packet msg2 @ rest) (offTTL u) = Some (TTL u)"
      using spec [OF r(6), of "c @ rest"] s(2) by auto
    obtain us where us: "\<forall>acc. Unpack_RRs (length rrs) acc (Packet msg2 @ rest) (length (Packet msg1)) =
        Some (acc @ us, Packet msg2 @ rest, length (Packet msg2), None)"
      "list_all2 (\<lambda>rr u. same_rr (lower_rr rr) u \<and> ReadUint32 (Packet msg2 @ rest) (offTTL u) = Some (TTL u)) rrs us"
      using s(6) by blast
    show ?thesis using Unpack_RRs_step [OF u(1)] u(2,3) us by (intro exI [of _ "u # us"]) simp
  qed
  then show ?case
    unfolding packs_rrs_def using r s
    by (intro exI [of _ msg2] exI [of _ "rr1 # rrs2"] exI [of _ "b @ c"]) (simp add: same_frame_def)
qed

subsection \<open>Messages\<close>

definition message_size :: "Message \<Rightarrow> nat" where
  "message_size msg = 18 + length (QName (Question msg)) +
     sum_list (map rr_size (Answer msg)) + sum_list (map rr_size (Authority msg)) + sum_list (map rr_size (Additional msg))"

definition wf_message :: "Message \<Rightarrow> bool" where
  "wf_message msg \<longleftrightarrow> host (QName (Question msg)) \<and> list_all wf_rr (Answer msg) \<and> list_all wf_rr (Authority msg) \<and>
     list_all wf_rr (Additional msg) \<and> message_size msg \<le> 0x4000 \<and>
     (IsQuery (Header msg) \<longrightarrow> Answer msg = [] \<and> Authority msg = [] \<and> Additional msg = [])"

text \<open>What is sent of a header.\<close>

definition sent_header :: "Message \<Rightarrow> SectionHeader" where
  "sent_header msg =
     (let hdr = (Header msg)\<lparr>Op := Op (Header msg) AND 0x1E, ANCount := of_nat (length (Answer msg)),
        NSCount := of_nat (length (Authority msg)), ARCount := of_nat (length (Additional msg))\<rparr>
      in if IsQuery hdr then hdr\<lparr>IsAA := False, IsTC := False, IsRA := False, RCode := 0\<rparr>
         else hdr\<lparr>RCode := RCode hdr AND 0x0F\<rparr>)"

definition lower_question :: "SectionQuestion \<Rightarrow> SectionQuestion" where
  "lower_question q = q\<lparr>QName := ToLower (QName q)\<rparr>"

lemma packQuestion_wf:
  assumes "hostname ls" "ToLower (QName (Question msg)) = dotted ls" "pack_inv msg"
    "length (Packet msg) + length (QName (Question msg)) + 6 \<le> 0x4000"
  shows "\<exists>msg1. packQuestion msg = Some msg1 \<and> pack_inv msg1 \<and> Question msg1 = lower_question (Question msg) \<and>
    Packet msg1 = Packet msg @ wire ls @ AppendUint16 [] (QType (Question msg)) @ AppendUint16 [] (QClass (Question msg)) \<and>
    Header msg1 = Header msg \<and> Answer msg1 = Answer msg \<and> Authority msg1 = Authority msg \<and> Additional msg1 = Additional msg"
proof -
  let ?p = "Packet msg" and ?q = "Question msg"
  obtain m1 where e: "enc_labels False (dnameOff msg) (length ?p) ls = (wire ls, m1)"
    using enc_labels_uncompressed [of "dnameOff msg" "length ?p" ls] by (metis prod.collapse)
  have len: "length (QName ?q) = length (dotted ls)" using arg_cong [OF assms(2), of length] by simp
  have inv: "off msg = of_nat (length ?p)" "sound ?p (dnameOff msg)" using assms(3) by (simp_all add: pack_inv_def)
  have "length ?p + length (dotted ls) + 2 \<le> 0x4000" using assms(4) len by simp
  from enc_name [OF assms(1) inv(2) this e] have sound: "sound (?p @ wire ls) m1" by blast
  have "length ?p + length (QName ?q) < 0x10000" using assms(4) by simp
  from packDomainName_eq [OF assms(1,2) inv(1) this e] obtain d where
    pk: "packDomainName msg (QName ?q) False = Some (msg\<lparr>Packet := ?p @ wire ls, off := of_nat (length (?p @ wire ls)),
      dnameOff := m1, dname := d\<rparr>, length (wire ls))" by blast
  have "sound (?p @ wire ls @ b) m1" for b using sound_append [OF sound, of b] by simp
  with pk show ?thesis
    by (simp add: packQuestion_def lower_question_def pack_inv_def AppendUint16_def)
qed

text \<open>The packet of a message, and how it is taken apart.\<close>

lemma sum_size_length: "length rrs \<le> sum_list (map rr_size rrs)"
  by (induction rrs) (auto simp: rr_size_def)

lemma UnpackHeaderQuestion_pack:
  assumes "hostname ls" "QName (Question r) = []"
    "Packet r = header_pack hdr @ wire ls @ AppendUint16 [] t @ AppendUint16 [] c @ rest"
  shows "UnpackHeaderQuestion r =
    Some (r\<lparr>Header := header_seen hdr (Header r), Question := \<lparr>QName = dotted ls, QType = t, QClass = c\<rparr>\<rparr>, None)"
  using assms question_unpack_wire [OF assms(1), of "Question r" t c rest]
  by (cases r) (simp add: UnpackHeaderQuestion_def header_unpack_pack sectionHeaderSize_def)

definition counts :: "Message \<Rightarrow> SectionHeader" where
  "counts msg = (Header msg)\<lparr>ANCount := of_nat (length (Answer msg)), NSCount := of_nat (length (Authority msg)),
     ARCount := of_nat (length (Additional msg))\<rparr>"

text \<open>Packing three sections one after the other, and reading them back.\<close>

definition reads_rrs :: "bytes \<Rightarrow> ResourceRecord list \<Rightarrow> nat \<Rightarrow> ResourceRecord list \<Rightarrow> nat \<Rightarrow> bool" where
  "reads_rrs p rrs x us y \<longleftrightarrow> Unpack_RRs (length rrs) [] p x = Some (us, p, y, None) \<and>
     list_all2 (\<lambda>rr u. same_rr (lower_rr rr) u \<and> ReadUint32 p (offTTL u) = Some (TTL u)) rrs us"

lemma packs_rrsE:
  assumes "packs_rrs msg rrs"
  obtains msg1 rrs1 b where "packRRs msg rrs = Some (msg1, rrs1)" "Packet msg1 = Packet msg @ b" "pack_inv msg1"
    "length b \<le> sum_list (map rr_size rrs)" "same_frame msg msg1"
    "\<forall>rest. \<exists>us. reads_rrs (Packet msg1 @ rest) rrs (length (Packet msg)) us (length (Packet msg1))"
proof -
  from assms obtain msg1 rrs1 b where r: "packRRs msg rrs = Some (msg1, rrs1)" "Packet msg1 = Packet msg @ b" "pack_inv msg1"
    "length b \<le> sum_list (map rr_size rrs)" "same_frame msg msg1"
    "\<forall>rest. \<exists>us. (\<forall>acc. Unpack_RRs (length rrs) acc (Packet msg1 @ rest) (length (Packet msg)) =
            Some (acc @ us, Packet msg1 @ rest, length (Packet msg1), None)) \<and>
          list_all2 (\<lambda>rr u. same_rr (lower_rr rr) u \<and> ReadUint32 (Packet msg1 @ rest) (offTTL u) = Some (TTL u)) rrs us"
    unfolding packs_rrs_def by blast
  have "\<exists>us. reads_rrs (Packet msg1 @ rest) rrs (length (Packet msg)) us (length (Packet msg1))" for rest
  proof -
    obtain us where "\<forall>acc. Unpack_RRs (length rrs) acc (Packet msg1 @ rest) (length (Packet msg)) =
            Some (acc @ us, Packet msg1 @ rest, length (Packet msg1), None)"
      "list_all2 (\<lambda>rr u. same_rr (lower_rr rr) u \<and> ReadUint32 (Packet msg1 @ rest) (offTTL u) = Some (TTL u)) rrs us"
      using r(6) by blast
    from spec [OF this(1), of "[]"] this(2) show ?thesis by (auto simp: reads_rrs_def)
  qed
  then have "\<forall>rest. \<exists>us. reads_rrs (Packet msg1 @ rest) rrs (length (Packet msg)) us (length (Packet msg1))" by blast
  with r(1-5) show ?thesis by (rule that)
qed

lemma pack_inv_sections [simp]:
  "pack_inv (msg\<lparr>Answer := x\<rparr>) = pack_inv msg" "pack_inv (msg\<lparr>Authority := x\<rparr>) = pack_inv msg"
  "pack_inv (msg\<lparr>Additional := x\<rparr>) = pack_inv msg"
  by (simp_all add: pack_inv_def)

lemma pack_sections:
  assumes "pack_inv msg" "list_all wf_rr (Answer msg)" "list_all wf_rr (Authority msg)" "list_all wf_rr (Additional msg)"
    "length (Packet msg) + sum_list (map rr_size (Answer msg)) + sum_list (map rr_size (Authority msg)) +
       sum_list (map rr_size (Additional msg)) \<le> 0x4000"
  obtains m1 an m2 ns m3 ar b us1 x1 us2 x2 us3 x3 where
    "packRRs msg (Answer msg) = Some (m1, an)" "packRRs (m1\<lparr>Answer := an\<rparr>) (Authority m1) = Some (m2, ns)"
    "packRRs (m2\<lparr>Authority := ns\<rparr>) (Additional m2) = Some (m3, ar)" "Packet m3 = Packet msg @ b"
    "reads_rrs (Packet m3) (Answer msg) (length (Packet msg)) us1 x1"
    "reads_rrs (Packet m3) (Authority msg) x1 us2 x2" "reads_rrs (Packet m3) (Additional msg) x2 us3 x3"
proof -
  have h1: "packs_rrs msg (Answer msg)" using assms by (intro packs_rrs_wf) simp_all
  obtain m1 an b1 where a: "packRRs msg (Answer msg) = Some (m1, an)" "Packet m1 = Packet msg @ b1" "pack_inv m1"
    "length b1 \<le> sum_list (map rr_size (Answer msg))" "same_frame msg m1"
    "\<forall>rest. \<exists>us. reads_rrs (Packet m1 @ rest) (Answer msg) (length (Packet msg)) us (length (Packet m1))"
    by (rule packs_rrsE [OF h1]) blast
  let ?m1 = "m1\<lparr>Answer := an\<rparr>"
  have f1: "Authority m1 = Authority msg" "Additional m1 = Additional msg" using a(5) by (simp_all add: same_frame_def)
  have h2: "packs_rrs ?m1 (Authority msg)" using assms a(2-4) by (intro packs_rrs_wf) simp_all
  obtain m2 ns b2 where b: "packRRs ?m1 (Authority msg) = Some (m2, ns)" "Packet m2 = Packet ?m1 @ b2" "pack_inv m2"
    "length b2 \<le> sum_list (map rr_size (Authority msg))" "same_frame ?m1 m2"
    "\<forall>rest. \<exists>us. reads_rrs (Packet m2 @ rest) (Authority msg) (length (Packet ?m1)) us (length (Packet m2))"
    by (rule packs_rrsE [OF h2]) blast
  let ?m2 = "m2\<lparr>Authority := ns\<rparr>"
  have f2: "Additional m2 = Additional msg" using b(5) f1 by (simp add: same_frame_def)
  have h3: "packs_rrs ?m2 (Additional msg)" using assms a(2-4) b(2-4) by (intro packs_rrs_wf) simp_all
  obtain m3 ar b3 where c: "packRRs ?m2 (Additional msg) = Some (m3, ar)" "Packet m3 = Packet ?m2 @ b3"
    "\<forall>rest. \<exists>us. reads_rrs (Packet m3 @ rest) (Additional msg) (length (Packet ?m2)) us (length (Packet m3))"
    by (rule packs_rrsE [OF h3]) blast
  note b = b [simplified] and c = c [simplified]
  have p: "Packet m3 = Packet m1 @ b2 @ b3" "Packet m3 = Packet m2 @ b3" "Packet m3 = Packet m3 @ []"
    using b(2) c(2) by simp_all
  obtain us1 us2 us3 where "reads_rrs (Packet m3) (Answer msg) (length (Packet msg)) us1 (length (Packet m1))"
    "reads_rrs (Packet m3) (Authority msg) (length (Packet m1)) us2 (length (Packet m2))"
    "reads_rrs (Packet m3) (Additional msg) (length (Packet m2)) us3 (length (Packet m3))"
    using spec [OF a(6), of "b2 @ b3", folded p] spec [OF b(6), of b3, folded p] spec [OF c(3), of "[]", folded p] by blast
  moreover have "Packet m3 = Packet msg @ b1 @ b2 @ b3" using p(1) a(2) by simp
  ultimately show ?thesis using a(1) b(1) c(1) f1 f2 that by metis
qed

lemma Pack_wf:
  assumes "wf_message msg"
  obtains msg1 ls b us1 x1 us2 x2 us3 x3 p where "Pack msg = Some (msg1, p)" "hostname ls"
    "ToLower (QName (Question msg)) = dotted ls"
    "p = header_pack (counts msg) @ wire ls @ AppendUint16 [] (QType (Question msg)) @
       AppendUint16 [] (QClass (Question msg)) @ b"
    "reads_rrs p (Answer msg) (18 + length (dotted ls)) us1 x1"
    "reads_rrs p (Authority msg) x1 us2 x2" "reads_rrs p (Additional msg) x2 us3 x3"
proof -
  let ?q = "Question msg"
  obtain ls where ls: "hostname ls" "ToLower (QName ?q) = dotted ls" using assms by (auto simp: wf_message_def host_def)
  have len: "length (QName ?q) = length (dotted ls)" using arg_cong [OF ls(2), of length] by simp
  have wl: "length (wire ls) = length (dotted ls) + 2" using ls(1) length_wire [of ls] by (simp add: hostname_def)
  let ?m0 = "msg\<lparr>Header := counts msg, Packet := header_pack (counts msg), off := 12, dnameOff := Map.empty\<rparr>"
  have "pack_inv ?m0" by (simp add: pack_inv_def sound_def)
  then obtain mq where q: "packQuestion ?m0 = Some mq" "pack_inv mq"
    "Packet mq = header_pack (counts msg) @ wire ls @ AppendUint16 [] (QType ?q) @ AppendUint16 [] (QClass ?q)"
    "Header mq = counts msg" "Answer mq = Answer msg" "Authority mq = Authority msg" "Additional mq = Additional msg"
    using packQuestion_wf [of ls ?m0] ls assms by (auto simp: wf_message_def message_size_def)
  have lq: "length (Packet mq) = 18 + length (dotted ls)" using wl by (simp add: q(3))
  have pk: "Pack msg = (if IsQuery (Header msg) then Some (mq\<lparr>dnameOff := Map.empty\<rparr>, Packet mq)
     else do {
       (msg, an) \<leftarrow> packRRs mq (Answer mq);
       (msg, ns) \<leftarrow> packRRs (msg\<lparr>Answer := an\<rparr>) (Authority msg);
       (msg, ar) \<leftarrow> packRRs (msg\<lparr>Authority := ns\<rparr>) (Additional msg);
       Some (msg\<lparr>Additional := ar, dnameOff := Map.empty\<rparr>, Packet msg) })"
    using q(1,4) by (cases msg) (simp add: Pack_def counts_def sectionHeaderSize_def Let_def)
  show ?thesis
  proof (cases "IsQuery (Header msg)")
    case True
    then have e: "Answer msg = []" "Authority msg = []" "Additional msg = []" using assms by (simp_all add: wf_message_def)
    have "reads_rrs (Packet mq) [] x [] x" for x by (simp add: reads_rrs_def)
    then show ?thesis
      by (intro that [OF _ ls, of "mq\<lparr>dnameOff := Map.empty\<rparr>" "Packet mq" "[]"]) (use True q(3) pk e in auto)
  next
    case False
    have "length (Packet mq) + sum_list (map rr_size (Answer mq)) + sum_list (map rr_size (Authority mq)) +
       sum_list (map rr_size (Additional mq)) \<le> 0x4000"
      using assms by (simp add: wf_message_def message_size_def lq q(5-7) len)
    moreover have "list_all wf_rr (Answer mq)" "list_all wf_rr (Authority mq)" "list_all wf_rr (Additional mq)"
      using assms q(5-7) by (simp_all add: wf_message_def)
    ultimately obtain m1 an m2 ns m3 ar b us1 x1 us2 x2 us3 x3 where
      r: "packRRs mq (Answer mq) = Some (m1, an)" "packRRs (m1\<lparr>Answer := an\<rparr>) (Authority m1) = Some (m2, ns)"
        "packRRs (m2\<lparr>Authority := ns\<rparr>) (Additional m2) = Some (m3, ar)" "Packet m3 = Packet mq @ b"
        "reads_rrs (Packet m3) (Answer mq) (length (Packet mq)) us1 x1"
        "reads_rrs (Packet m3) (Authority mq) x1 us2 x2" "reads_rrs (Packet m3) (Additional mq) x2 us3 x3"
      using pack_sections [OF q(2)] by blast
    show ?thesis
      by (rule that [OF _ ls, of "m3\<lparr>Additional := ar, dnameOff := Map.empty\<rparr>" "Packet m3" b us1 x1 us2 x2 us3 x3])
        (use r pk False q lq in simp_all)
  qed
qed

lemma reads_rrs_same: "reads_rrs p rrs x us y \<Longrightarrow>
    list_all2 (\<lambda>rr. same_rr (lower_rr rr)) rrs us \<and> (\<forall>u \<in> set us. ReadUint32 p (offTTL u) = Some (TTL u))"
  by (auto simp: reads_rrs_def list_all2_conv_all_nth in_set_conv_nth)

lemma message_Unpack_pack:
  assumes "hostname ls" "header_seen hdr (header_Reset h) = g"
    "p = header_pack hdr @ wire ls @ AppendUint16 [] t @ AppendUint16 [] c @ b"
    "unat (ANCount g) = length an" "unat (NSCount g) = length ns" "unat (ARCount g) = length ar"
    "reads_rrs p an (18 + length (dotted ls)) us1 x1" "reads_rrs p ns x1 us2 x2" "reads_rrs p ar x2 us3 x3"
    "Header r = header_Reset h" "QName (Question r) = []" "Answer r = []" "Authority r = []" "Additional r = []" "Packet r = p"
  shows "message_Unpack r = Some (r\<lparr>Header := g, Question := \<lparr>QName = dotted ls, QType = t, QClass = c\<rparr>,
    Answer := us1, Authority := us2, Additional := us3\<rparr>, None)"
proof -
  have "UnpackHeaderQuestion r = Some (r\<lparr>Header := g, Question := \<lparr>QName = dotted ls, QType = t, QClass = c\<rparr>\<rparr>, None)"
    using UnpackHeaderQuestion_pack [OF assms(1,11), of hdr t c b] assms(2,3,10,15) by simp
  then show ?thesis
    using assms(4-9,12-15)
    by (cases r) (simp add: message_Unpack_def question_size_def sectionHeaderSize_def reads_rrs_def ac_simps)
qed

lemma message_wire:
  assumes "wf_message msg"
  shows "\<exists>msg1 packet u. Pack msg = Some (msg1, packet) \<and>
    message_Unpack ((message_Reset r)\<lparr>Packet := packet\<rparr>) = Some (u, None) \<and> Packet u = packet \<and>
    Header u = sent_header msg \<and> Question u = lower_question (Question msg) \<and>
    list_all2 (\<lambda>rr. same_rr (lower_rr rr)) (Answer msg) (Answer u) \<and>
    list_all2 (\<lambda>rr. same_rr (lower_rr rr)) (Authority msg) (Authority u) \<and>
    list_all2 (\<lambda>rr. same_rr (lower_rr rr)) (Additional msg) (Additional u) \<and>
    (\<forall>rr \<in> set (Answer u @ Authority u @ Additional u). ReadUint32 packet (offTTL rr) = Some (TTL rr))"
proof -
  obtain msg1 ls b us1 x1 us2 x2 us3 x3 p where pk: "Pack msg = Some (msg1, p)" and ls: "hostname ls"
    "ToLower (QName (Question msg)) = dotted ls" and
    p: "p = header_pack (counts msg) @ wire ls @ AppendUint16 [] (QType (Question msg)) @
       AppendUint16 [] (QClass (Question msg)) @ b" and
    rd: "reads_rrs p (Answer msg) (18 + length (dotted ls)) us1 x1"
    "reads_rrs p (Authority msg) x1 us2 x2" "reads_rrs p (Additional msg) x2 us3 x3"
    by (rule Pack_wf [OF assms])
  have h: "header_seen (counts msg) (header_Reset (Header r)) = sent_header msg"
    by (cases "Header msg") (simp add: header_seen_def header_Reset_def sent_header_def counts_def Let_def)
  have "length (Answer msg) < 0x10000" "length (Authority msg) < 0x10000" "length (Additional msg) < 0x10000"
    using assms sum_size_length [of "Answer msg"] sum_size_length [of "Authority msg"] sum_size_length [of "Additional msg"]
    by (simp_all add: wf_message_def message_size_def)
  then have n: "unat (ANCount (sent_header msg)) = length (Answer msg)"
    "unat (NSCount (sent_header msg)) = length (Authority msg)" "unat (ARCount (sent_header msg)) = length (Additional msg)"
    by (simp_all add: sent_header_def Let_def unat_of_nat)
  have "message_Unpack ((message_Reset r)\<lparr>Packet := p\<rparr>) = Some ((message_Reset r)\<lparr>Packet := p,
      Header := sent_header msg, Question := lower_question (Question msg),
      Answer := us1, Authority := us2, Additional := us3\<rparr>, None)"
    using message_Unpack_pack [OF ls(1) h p n rd] ls(2)
    by (cases "Question msg") (simp add: message_Reset_def ResetRR_def question_Reset_def lower_question_def)
  with pk reads_rrs_same [OF rd(1)] reads_rrs_same [OF rd(2)] reads_rrs_same [OF rd(3)] show ?thesis by auto
qed

text \<open>
  C1: Messages survive the wire: every well-formed message (a host name as question; records of the
  types A, NS, CNAME, MB, MG, MR, PTR, MX and MINFO with host names and IPv4 addresses; at most 16384
  bytes without compression; no records in a query) is packed without a panic, and a receiver with a
  reset message unpacks the packet without an error into the same header as far as it is sent, the
  same question and the same records in the same order, with names in lower case. The position of the
  TTL that the receiver keeps for every record is where the packet has it.
\<close>

theorem message_roundtrip:
  assumes "wf_message msg"
  shows "\<exists>msg1 packet u. Pack msg = Some (msg1, packet) \<and>
    message_Unpack ((message_Reset r)\<lparr>Packet := packet\<rparr>) = Some (u, None) \<and> Packet u = packet \<and>
    Header u = sent_header msg \<and> Question u = lower_question (Question msg) \<and>
    list_all2 (\<lambda>rr. same_rr (lower_rr rr)) (Answer msg) (Answer u) \<and>
    list_all2 (\<lambda>rr. same_rr (lower_rr rr)) (Authority msg) (Authority u) \<and>
    list_all2 (\<lambda>rr. same_rr (lower_rr rr)) (Additional msg) (Additional u) \<and>
    (\<forall>rr \<in> set (Answer u @ Authority u @ Additional u). ReadUint32 packet (offTTL rr) = Some (TTL rr))"
  by (rule message_wire [OF assms])

text \<open>A response with an address and a mail exchange, whose names share the question's suffix.\<close>

definition example_response :: Message where
  "example_response = NewMessage\<lparr>Header := (Header NewMessage)\<lparr>IsQuery := False\<rparr>,
     Question := \<lparr>QName = [65, 46, 98], QType = QueryTypeMX, QClass = QueryClassIN\<rparr>,
     Answer := [NewResourceRecord\<lparr>Name := [97, 46, 98], RType := QueryTypeMX, Class := QueryClassIN, TTL := 60,
       MX := Some \<lparr>Preference = 10, Exchange = [109, 46, 98]\<rparr>\<rparr>],
     Additional := [NewResourceRecord\<lparr>Name := [109, 46, 98], RType := QueryTypeA, Class := QueryClassIN, TTL := 60,
       Text := Some (IP_String [10, 0, 0, 1])\<rparr>]\<rparr>"

lemma hostI: "list_all label ls \<Longrightarrow> ls \<noteq> [] \<Longrightarrow> ToLower v = dotted ls \<Longrightarrow> host v"
  by (auto simp: host_def hostname_def)

lemma example_response_wf: "wf_message example_response"
proof -
  have "host [65, 46, 98]" "host [97, 46, 98]" by (rule hostI [of "[[97], [98]]"]; simp add: label_def plain_def)+
  moreover have "host [109, 46, 98]" by (rule hostI [of "[[109], [98]]"]; simp add: label_def plain_def)
  moreover have "\<exists>ip. length ip = 4 \<and> IP_String [10, 0, 0, 1] = IP_String ip" by (rule exI [of _ "[10, 0, 0, 1]"]) simp
  ultimately show ?thesis
    by (simp add: wf_message_def example_response_def NewMessage_def wf_rr_def wf_rdata_def message_size_def rr_size_def
        rdata_size_def text_types_def NewResourceRecord_def query_types)
qed

theorem message_roundtrip_witness:
  "\<exists>msg1 packet u. Pack example_response = Some (msg1, packet) \<and>
    message_Unpack ((message_Reset NewMessage)\<lparr>Packet := packet\<rparr>) = Some (u, None) \<and> Packet u = packet \<and>
    Header u = sent_header example_response \<and> Question u = lower_question (Question example_response) \<and>
    list_all2 (\<lambda>rr. same_rr (lower_rr rr)) (Answer example_response) (Answer u) \<and>
    list_all2 (\<lambda>rr. same_rr (lower_rr rr)) (Authority example_response) (Authority u) \<and>
    list_all2 (\<lambda>rr. same_rr (lower_rr rr)) (Additional example_response) (Additional u) \<and>
    (\<forall>rr \<in> set (Answer u @ Authority u @ Additional u). ReadUint32 packet (offTTL rr) = Some (TTL rr))"
  by (rule message_roundtrip [OF example_response_wf])

end
