(* ===== verification/DnsCaches.thy ===== *)
theory DnsCaches
  imports DnsRoundtrip
begin

section \<open>The caches of the DNS server (lib/dns/answer.go, answers.go, caches.go)\<close>

text \<open>
  The cache keeps answers in two places: a map from names to lists of answers, and the list \<open>lru\<close>
  of the answers that came from other servers. Both hold pointers to the same answers, so the model
  has an explicit store: \<open>heap\<close> maps addresses to answers. A list element of \<open>lru\<close> is a number with
  the address it holds (\<open>e.Value\<close>); the operations of \<open>container/list\<close> are written on a list of such
  pairs. A \<open>nil\<close> pointer is \<open>None\<close>, and so is a panic. Every operation of the code runs under the
  mutex of the cache, so that it is one step. The clock is the argument \<open>now\<close>, in nanoseconds.
\<close>

subsection \<open>Answers\<close>

record answer =
  receivedAt :: int
  accessedAt :: int
  an_qname :: bytes
  an_qtype :: u16
  an_qclass :: u16
  an_msg :: "Message option"
  an_el :: "nat option"

definition Unix :: "int \<Rightarrow> int" where
  "Unix now = now div 1000000000"

definition newAnswer :: "int \<Rightarrow> Message \<Rightarrow> bool \<Rightarrow> answer" where
  "newAnswer now msg isLocal =
     (let an = \<lparr>receivedAt = 0, accessedAt = 0, an_qname = QName (Question msg), an_qtype = QType (Question msg),
        an_qclass = QClass (Question msg), an_msg = Some msg, an_el = None\<rparr>
      in if isLocal then an else an\<lparr>receivedAt := Unix now, accessedAt := Unix now\<rparr>)"

definition answer_clear :: "answer \<Rightarrow> answer" where
  "answer_clear an = an\<lparr>an_msg := None, an_el := None\<rparr>"

definition updateTTL :: "int \<Rightarrow> answer \<Rightarrow> answer option" where
  "updateTTL now an =
     (if receivedAt an = 0 then Some an
      else do {
        let an = an\<lparr>accessedAt := Unix now\<rparr>;
        let ttl = (word_of_int (accessedAt an - receivedAt an) :: u32);
        msg \<leftarrow> an_msg an;
        msg \<leftarrow> SubTTL msg ttl;
        Some (an\<lparr>an_msg := Some msg\<rparr>) })"

definition answer_get :: "int \<Rightarrow> answer \<Rightarrow> (answer \<times> bytes) option" where
  "answer_get now an = do {
     an \<leftarrow> updateTTL now an;
     msg \<leftarrow> an_msg an;
     Some (an, Packet msg) }"

type_synonym heap = "nat \<rightharpoonup> answer"

text \<open>\<open>an.update(nu)\<close> on the addresses \<open>a\<close> and \<open>n\<close>.\<close>

definition answer_update :: "heap \<Rightarrow> nat \<Rightarrow> nat option \<Rightarrow> heap option" where
  "answer_update h a nu =
     (case nu of
        None \<Rightarrow> Some h
      | Some n \<Rightarrow> do {
          nu \<leftarrow> h n;
          if an_msg nu = None then Some h
          else do {
            an \<leftarrow> h a;
            let an = (if receivedAt an > 0 then an\<lparr>receivedAt := receivedAt nu, accessedAt := accessedAt nu\<rparr> else an);
            let h = h(a \<mapsto> an\<lparr>an_msg := an_msg nu\<rparr>);
            nu \<leftarrow> h n;
            Some (h(n \<mapsto> nu\<lparr>an_msg := None\<rparr>)) } })"

subsection \<open>Lists of answers\<close>

definition newAnswers :: "heap \<Rightarrow> nat option \<Rightarrow> nat list option" where
  "newAnswers h nu =
     (case nu of
        None \<Rightarrow> Some []
      | Some n \<Rightarrow> do { an \<leftarrow> h n; if an_msg an \<noteq> None then Some [n] else Some [] })"

text \<open>\<open>answers.get\<close> returns the answer and the index where the loop ended.\<close>

fun answers_get :: "heap \<Rightarrow> nat list \<Rightarrow> u16 \<Rightarrow> u16 \<Rightarrow> nat \<Rightarrow> (nat option \<times> nat) option" where
  "answers_get h [] qtype qclass x = Some (None, x)"
| "answers_get h (a # v) qtype qclass x = do {
     an \<leftarrow> h a;
     if an_qtype an \<noteq> qtype then answers_get h v qtype qclass (x + 1)
     else if an_qclass an \<noteq> qclass then answers_get h v qtype qclass (x + 1)
     else Some (Some a, x) }"

definition answers_remove :: "heap \<Rightarrow> nat list \<Rightarrow> u16 \<Rightarrow> u16 \<Rightarrow> nat list option" where
  "answers_remove h v qtype qclass = do {
     (an, x) \<leftarrow> answers_get h v qtype qclass 0;
     if an \<noteq> None then do {
       l \<leftarrow> idx v (length v - 1);
       v \<leftarrow> upd v x l;
       subslice v 0 (length v - 1) }
     else Some v }"

definition answers_upsert :: "heap \<Rightarrow> nat list \<Rightarrow> nat option \<Rightarrow> (heap \<times> nat list \<times> nat option) option" where
  "answers_upsert h v nu =
     (case nu of
        None \<Rightarrow> Some (h, v, None)
      | Some n \<Rightarrow> do {
          an \<leftarrow> h n;
          if an_msg an = None then Some (h, v, None)
          else do {
            (old, x) \<leftarrow> answers_get h v (an_qtype an) (an_qclass an) 0;
            case old of
              Some a \<Rightarrow> do { h \<leftarrow> answer_update h a (Some n); Some (h, v, Some a) }
            | None \<Rightarrow> Some (h, v @ [n], None) } })"

subsection \<open>Caches\<close>

record caches =
  heap :: heap
  next_addr :: nat
  cv :: "bytes \<rightharpoonup> nat list"
  lru :: "(nat \<times> nat) list"
  next_el :: nat
  pruneDelay :: int
  pruneThreshold :: int

definition minute :: int where "minute = 60000000000"
definition hour :: int where "hour = 3600000000000"

text \<open>The worker that \<open>newCaches\<close> starts calls \<open>prune\<close> after every delay.\<close>

definition newCaches :: "int \<Rightarrow> int \<Rightarrow> caches" where
  "newCaches delay threshold =
     \<lparr>heap = Map.empty, next_addr = 0, cv = Map.empty, lru = [], next_el = 0,
      pruneDelay = (if delay < minute then hour else delay),
      pruneThreshold = (if threshold > - minute then - hour else threshold)\<rparr>"

text \<open>\<open>&answer{...}\<close>: a new address.\<close>

definition alloc :: "caches \<Rightarrow> answer \<Rightarrow> caches \<times> nat" where
  "alloc c an = (c\<lparr>heap := (heap c)(next_addr c \<mapsto> an), next_addr := next_addr c + 1\<rparr>, next_addr c)"

text \<open>\<open>list.List\<close>: \<open>MoveToBack\<close> does nothing for an element that is not in the list.\<close>

definition MoveToBack :: "(nat \<times> nat) list \<Rightarrow> nat \<Rightarrow> (nat \<times> nat) list" where
  "MoveToBack l e = filter (\<lambda>p. fst p \<noteq> e) l @ filter (\<lambda>p. fst p = e) l"

definition list_Remove :: "(nat \<times> nat) list \<Rightarrow> nat \<Rightarrow> (nat \<times> nat) list" where
  "list_Remove l e = filter (\<lambda>p. fst p \<noteq> e) l"

text \<open>\<open>nu.el = c.lru.PushBack(nu)\<close> for an answer that is not local.\<close>

definition push_lru :: "caches \<Rightarrow> nat \<Rightarrow> caches option" where
  "push_lru c n = do {
     an \<leftarrow> heap c n;
     if receivedAt an > 0 then
       Some (c\<lparr>lru := lru c @ [(next_el c, n)], next_el := next_el c + 1,
         heap := (heap c)(n \<mapsto> an\<lparr>an_el := Some (next_el c)\<rparr>)\<rparr>)
     else Some c }"

definition caches_get :: "int \<Rightarrow> caches \<Rightarrow> bytes \<Rightarrow> u16 \<Rightarrow> u16 \<Rightarrow> (caches \<times> nat list option \<times> nat option) option" where
  "caches_get now c qname qtype qclass =
     (case cv c qname of
        None \<Rightarrow> Some (c, None, None)
      | Some v \<Rightarrow> do {
          (an, _) \<leftarrow> answers_get (heap c) v qtype qclass 0;
          case an of
            None \<Rightarrow> Some (c, Some v, None)
          | Some a \<Rightarrow> do {
              an \<leftarrow> heap c a;
              if receivedAt an > 0 then do {
                e \<leftarrow> an_el an;
                Some (c\<lparr>lru := MoveToBack (lru c) e, heap := (heap c)(a \<mapsto> an\<lparr>accessedAt := Unix now\<rparr>)\<rparr>, Some v, Some a) }
              else Some (c, Some v, Some a) } })"

definition caches_list :: "caches \<Rightarrow> nat list" where
  "caches_list c = map snd (lru c)"

definition caches_remove :: "caches \<Rightarrow> nat \<Rightarrow> caches option" where
  "caches_remove c a = do {
     an \<leftarrow> heap c a;
     c \<leftarrow> (case cv c (an_qname an) of
        None \<Rightarrow> Some c
      | Some v \<Rightarrow> do {
          v \<leftarrow> answers_remove (heap c) v (an_qtype an) (an_qclass an);
          Some (c\<lparr>cv := (cv c)(an_qname an \<mapsto> v)\<rparr>) });
     Some (c\<lparr>heap := (heap c)(a \<mapsto> answer_clear an)\<rparr>) }"

text \<open>The loop of \<open>prune\<close> from an element on.\<close>

fun prune_loop :: "int \<Rightarrow> caches \<Rightarrow> (nat \<times> nat) list \<Rightarrow> nat \<Rightarrow> (caches \<times> nat) option" where
  "prune_loop exp c [] n = Some (c, n)"
| "prune_loop exp c ((e, a) # rest) n = do {
     an \<leftarrow> heap c a;
     if accessedAt an > exp then Some (c, n)
     else do {
       let c = c\<lparr>lru := list_Remove (lru c) e\<rparr>;
       c \<leftarrow> caches_remove c a;
       prune_loop exp c rest (n + 1) } }"

definition prune :: "int \<Rightarrow> caches \<Rightarrow> (caches \<times> nat) option" where
  "prune now c = prune_loop (Unix (now + pruneThreshold c)) c (lru c) 0"

definition caches_upsert :: "caches \<Rightarrow> nat option \<Rightarrow> (caches \<times> bool) option" where
  "caches_upsert c nu =
     (case nu of
        None \<Rightarrow> Some (c, False)
      | Some n \<Rightarrow> do {
          an \<leftarrow> heap c n;
          if an_msg an = None then Some (c, False)
          else (case cv c (an_qname an) of
              None \<Rightarrow> do {
                v \<leftarrow> newAnswers (heap c) (Some n);
                c \<leftarrow> push_lru (c\<lparr>cv := (cv c)(an_qname an \<mapsto> v)\<rparr>) n;
                Some (c, True) }
            | Some v \<Rightarrow> do {
                (h, v, old) \<leftarrow> answers_upsert (heap c) v (Some n);
                let c = c\<lparr>heap := h, cv := (cv c)(an_qname an \<mapsto> v)\<rparr>;
                if old = None then do { c \<leftarrow> push_lru c n; Some (c, True) }
                else Some (c, False) }) })"

text \<open>\<open>newAnswer\<close> and \<open>upsert\<close>, the way the server adds a message to the cache.\<close>

definition cache_message :: "int \<Rightarrow> caches \<Rightarrow> Message \<Rightarrow> bool \<Rightarrow> (caches \<times> bool) option" where
  "cache_message now c msg isLocal =
     (let (c, n) = alloc c (newAnswer now msg isLocal) in caches_upsert c (Some n))"

subsection \<open>Lookup in a list of answers\<close>

definition matches :: "heap \<Rightarrow> u16 \<Rightarrow> u16 \<Rightarrow> nat \<Rightarrow> bool" where
  "matches h t k a = (case h a of None \<Rightarrow> False | Some an \<Rightarrow> an_qtype an = t \<and> an_qclass an = k)"

lemma answers_get_find:
  "(\<And>a. a \<in> set v \<Longrightarrow> h a \<noteq> None) \<Longrightarrow>
   answers_get h v t k x = Some (find (matches h t k) v, x + length (takeWhile (\<lambda>a. \<not> matches h t k a) v))"
proof (induction v arbitrary: x)
  case (Cons a v)
  from Cons.prems [of a] obtain an where an: "h a = Some an" by auto
  have "\<And>b. b \<in> set v \<Longrightarrow> h b \<noteq> None" using Cons.prems by simp
  from Cons.IH [OF this, of "x + 1"] an show ?case by (auto simp: matches_def)
qed simp

lemma find_unique:
  assumes "b \<in> set v" "P b" "\<And>a. a \<in> set v \<Longrightarrow> P a \<Longrightarrow> a = b"
  shows "find P v = Some b"
proof (cases "find P v")
  case None
  then show ?thesis using assms(1,2) by (auto simp: find_None_iff)
next
  case (Some a)
  then have "a \<in> set v" "P a" by (auto simp: find_Some_iff)
  with assms(3) Some show ?thesis by blast
qed

text \<open>Removing by overwriting with the last one.\<close>

lemma swap_remove:
  assumes "distinct v" "i < length v"
  shows "set (take (length v - 1) (v[i := last v])) = set v - {v ! i} \<and> distinct (take (length v - 1) (v[i := last v]))"
proof -
  obtain w l where v: "v = w @ [l]" using assms(2) by (cases v rule: rev_cases) auto
  show ?thesis
  proof (cases "i = length w")
    case True
    then show ?thesis using assms v by auto
  next
    case False
    then have i: "i < length w" using assms(2) v by simp
    have "l \<notin> set w" "distinct w" using assms(1) v by simp_all
    moreover have "set (w[i := l]) = insert l (set w - {w ! i})"
      using set_update_distinct [OF \<open>distinct w\<close> i] by simp
    ultimately show ?thesis
      using i v distinct_list_update [of w l i] by (auto simp: nth_append list_update_append)
  qed
qed

lemma answers_remove_spec:
  assumes "distinct v" "\<And>b. b \<in> set v \<Longrightarrow> h b \<noteq> None" "a \<in> set v" "matches h t k a"
    "\<And>b. b \<in> set v \<Longrightarrow> matches h t k b \<Longrightarrow> b = a"
  shows "\<exists>w. answers_remove h v t k = Some w \<and> set w = set v - {a} \<and> distinct w"
proof -
  let ?i = "length (takeWhile (\<lambda>a. \<not> matches h t k a) v)"
  have "takeWhile (\<lambda>a. \<not> matches h t k a) v \<noteq> v" using assms(3,4) by (auto simp: takeWhile_eq_all_conv)
  then have i: "?i < length v"
    using takeWhile_eq_take [of "\<lambda>a. \<not> matches h t k a" v] by (metis linorder_not_le take_all)
  then have "matches h t k (v ! ?i)" using nth_length_takeWhile by blast
  then have "v ! ?i = a" using assms(5) nth_mem [OF i] by blast
  moreover have "find (matches h t k) v \<noteq> None" using assms(3,4) by (auto simp: find_None_iff)
  moreover have "idx v (length v - 1) = Some (last v)" using i by (cases v rule: rev_cases) auto
  ultimately have "answers_remove h v t k = Some (take (length v - 1) (v[?i := last v]))"
    unfolding answers_remove_def using answers_get_find [of v h t k 0] assms(2) i
    by (simp add: upd_def subslice_def idx_def)
  with swap_remove [OF assms(1) i] \<open>v ! ?i = a\<close> show ?thesis by simp
qed

subsection \<open>The invariant\<close>

definition entry_ok :: "heap \<Rightarrow> bytes \<Rightarrow> nat list \<Rightarrow> bool" where
  "entry_ok h n v \<longleftrightarrow> distinct v \<and> (\<forall>a \<in> set v. \<exists>an. h a = Some an \<and> an_qname an = n \<and> an_msg an \<noteq> None) \<and>
     (\<forall>a \<in> set v. \<forall>b \<in> set v. \<forall>t k. matches h t k a \<longrightarrow> matches h t k b \<longrightarrow> a = b)"

text \<open>An answer that the map holds.\<close>

definition live :: "caches \<Rightarrow> nat \<Rightarrow> answer \<Rightarrow> bool" where
  "live c a an \<longleftrightarrow> heap c a = Some an \<and> (\<exists>v. cv c (an_qname an) = Some v \<and> a \<in> set v)"

definition cache_inv :: "caches \<Rightarrow> bool" where
  "cache_inv c \<longleftrightarrow>
     (\<forall>a. heap c a \<noteq> None \<longrightarrow> a < next_addr c) \<and>
     (\<forall>e a. (e, a) \<in> set (lru c) \<longrightarrow> e < next_el c) \<and>
     distinct (map fst (lru c)) \<and> distinct (map snd (lru c)) \<and>
     (\<forall>n v. cv c n = Some v \<longrightarrow> entry_ok (heap c) n v) \<and>
     (\<forall>e a. (e, a) \<in> set (lru c) \<longrightarrow> (\<exists>an. live c a an \<and> an_el an = Some e)) \<and>
     (\<forall>a an e. live c a an \<longrightarrow> an_el an = Some e \<longrightarrow> (e, a) \<in> set (lru c)) \<and>
     (\<forall>a an. live c a an \<longrightarrow> receivedAt an > 0 \<longrightarrow> an_el an \<noteq> None)"

text \<open>What a client sees of the cache.\<close>

definition cache_lookup :: "caches \<Rightarrow> bytes \<Rightarrow> u16 \<Rightarrow> u16 \<Rightarrow> answer option" where
  "cache_lookup c n t k =
     (case cv c n of
        None \<Rightarrow> None
      | Some v \<Rightarrow> (case find (matches (heap c) t k) v of None \<Rightarrow> None | Some a \<Rightarrow> heap c a))"

lemma cache_invD:
  assumes "cache_inv c"
  shows "heap c a \<noteq> None \<Longrightarrow> a < next_addr c" "(e, a) \<in> set (lru c) \<Longrightarrow> e < next_el c"
    "distinct (map fst (lru c))" "distinct (map snd (lru c))" "cv c n = Some v \<Longrightarrow> entry_ok (heap c) n v"
    "(e, a) \<in> set (lru c) \<Longrightarrow> \<exists>an. live c a an \<and> an_el an = Some e"
    "live c a an \<Longrightarrow> an_el an = Some e \<Longrightarrow> (e, a) \<in> set (lru c)"
    "live c a an \<Longrightarrow> receivedAt an > 0 \<Longrightarrow> an_el an \<noteq> None"
  using assms unfolding cache_inv_def by blast+

lemma cache_inv_fresh: "cache_inv c \<Longrightarrow> next_addr c \<le> a \<Longrightarrow> heap c a = None"
  using cache_invD(1) by fastforce

lemma live_ok:
  assumes "cache_inv c" "cv c n = Some v" "a \<in> set v"
  shows "\<exists>an. live c a an \<and> an_qname an = n \<and> an_msg an \<noteq> None"
  using assms unfolding cache_inv_def entry_ok_def live_def by blast

lemma live_unique:
  assumes "cache_inv c" "live c a an" "live c b bn" "an_qname an = an_qname bn" "an_qtype an = an_qtype bn"
    "an_qclass an = an_qclass bn"
  shows "a = b"
proof -
  obtain v where v: "cv c (an_qname an) = Some v" "a \<in> set v" "b \<in> set v" using assms(2-4) by (auto simp: live_def)
  then have "entry_ok (heap c) (an_qname an) v" using assms(1) by (simp add: cache_inv_def)
  moreover have "matches (heap c) (an_qtype an) (an_qclass an) a" "matches (heap c) (an_qtype an) (an_qclass an) b"
    using assms by (simp_all add: matches_def live_def)
  ultimately show ?thesis using v unfolding entry_ok_def by blast
qed

lemma find_live:
  assumes "cache_inv c" "cv c n = Some v" "find (matches (heap c) t k) v = Some a"
  shows "\<exists>an. live c a an \<and> an_qname an = n \<and> an_qtype an = t \<and> an_qclass an = k \<and> an_msg an \<noteq> None"
proof -
  have a: "a \<in> set v" "matches (heap c) t k a" using assms(3) by (auto simp: find_Some_iff)
  from live_ok [OF assms(1,2) a(1)] a(2) show ?thesis by (auto simp: matches_def live_def)
qed

lemma find_None_live:
  assumes "cv c n = Some v" "find (matches (heap c) t k) v = None" "live c a an" "an_qname an = n"
  shows "\<not> (an_qtype an = t \<and> an_qclass an = k)"
  using assms by (auto simp: find_None_iff live_def matches_def)

lemma cache_lookup_iff:
  assumes "cache_inv c"
  shows "cache_lookup c n t k = Some an \<longleftrightarrow>
    (\<exists>a. live c a an \<and> an_qname an = n \<and> an_qtype an = t \<and> an_qclass an = k)"
proof
  assume "cache_lookup c n t k = Some an"
  then obtain v a where "cv c n = Some v" "find (matches (heap c) t k) v = Some a" "heap c a = Some an"
    by (auto simp: cache_lookup_def split: option.splits)
  with find_live [OF assms] show "\<exists>a. live c a an \<and> an_qname an = n \<and> an_qtype an = t \<and> an_qclass an = k"
    by (fastforce simp: live_def)
next
  assume "\<exists>a. live c a an \<and> an_qname an = n \<and> an_qtype an = t \<and> an_qclass an = k"
  then obtain a v where a: "live c a an" "an_qname an = n" "an_qtype an = t" "an_qclass an = k" "cv c n = Some v"
    by (auto simp: live_def)
  then obtain b where b: "find (matches (heap c) t k) v = Some b"
    using find_None_live [OF a(5)] by (cases "find (matches (heap c) t k) v") auto
  from find_live [OF assms a(5) b] obtain bn where "live c b bn" "an_qname bn = n" "an_qtype bn = t" "an_qclass bn = k"
    by blast
  moreover from this have "a = b" using live_unique [OF assms a(1)] a by metis
  ultimately show "cache_lookup c n t k = Some an" using a b by (auto simp: cache_lookup_def live_def)
qed

subsection \<open>How the operations change the cache\<close>

text \<open>A new answer that nothing refers to yet.\<close>

lemma alloc_inv:
  assumes "cache_inv c" "next_addr c \<le> a"
  shows "cache_inv (c\<lparr>heap := (heap c)(a \<mapsto> an), next_addr := a + 1\<rparr>)"
    "live (c\<lparr>heap := (heap c)(a \<mapsto> an), next_addr := a + 1\<rparr>) b bn \<longleftrightarrow> live c b bn"
proof -
  let ?c = "c\<lparr>heap := (heap c)(a \<mapsto> an), next_addr := a + 1\<rparr>"
  have fresh: "heap c a = None" by (rule cache_inv_fresh [OF assms])
  have nv: "a \<notin> set v" if "cv c n = Some v" for n v
    using live_ok [OF assms(1) that, of a] fresh by (auto simp: live_def)
  then have l: "live ?c b bn \<longleftrightarrow> live c b bn" for b bn using fresh by (auto simp: live_def)
  have m: "matches ((heap c)(a \<mapsto> an)) t k b = matches (heap c) t k b" if "b \<noteq> a" for t k b
    using that by (simp add: matches_def)
  have "entry_ok ((heap c)(a \<mapsto> an)) n v" if "cv c n = Some v" for n v
  proof -
    have "entry_ok (heap c) n v" using assms(1) that by (simp add: cache_inv_def)
    then show ?thesis using nv [OF that] m unfolding entry_ok_def by (metis fun_upd_other)
  qed
  moreover have "b < a + 1" if "heap ?c b \<noteq> None" for b
    using that assms by (cases "b = a") (force simp: cache_inv_def)+
  ultimately show "cache_inv ?c" using assms(1) unfolding cache_inv_def l by simp
  show "live ?c b bn \<longleftrightarrow> live c b bn" by (rule l)
qed

text \<open>Changing an answer in place.\<close>

definition same_place :: "answer \<Rightarrow> answer \<Rightarrow> bool" where
  "same_place an bn \<longleftrightarrow> an_qname bn = an_qname an \<and> an_qtype bn = an_qtype an \<and> an_qclass bn = an_qclass an \<and>
     an_el bn = an_el an \<and> an_msg bn \<noteq> None \<and> (receivedAt bn > 0 \<longrightarrow> receivedAt an > 0)"

lemma modify_inv:
  assumes "cache_inv c" "live c b bn" "same_place bn bn1"
  shows "cache_inv (c\<lparr>heap := (heap c)(b \<mapsto> bn1)\<rparr>)"
    "live (c\<lparr>heap := (heap c)(b \<mapsto> bn1)\<rparr>) x xn \<longleftrightarrow> (if x = b then xn = bn1 else live c x xn)"
proof -
  let ?c = "c\<lparr>heap := (heap c)(b \<mapsto> bn1)\<rparr>"
  have l: "live ?c x xn \<longleftrightarrow> (if x = b then xn = bn1 else live c x xn)" for x xn
    using assms(2,3) by (auto simp: live_def same_place_def)
  have m: "matches ((heap c)(b \<mapsto> bn1)) t k x = matches (heap c) t k x" for t k x
    using assms(2,3) by (simp add: matches_def live_def same_place_def)
  have "entry_ok ((heap c)(b \<mapsto> bn1)) n v" if "cv c n = Some v" for n v
  proof -
    have e: "entry_ok (heap c) n v" using assms(1) that by (simp add: cache_inv_def)
    then have "\<exists>an. ((heap c)(b \<mapsto> bn1)) a = Some an \<and> an_qname an = n \<and> an_msg an \<noteq> None" if "a \<in> set v" for a
      using that assms(2,3) by (cases "a = b") (fastforce simp: entry_ok_def live_def same_place_def)+
    with e show ?thesis by (simp add: entry_ok_def m)
  qed
  moreover have "\<exists>an. live ?c a an \<and> an_el an = Some e" if "(e, a) \<in> set (lru c)" for e a
  proof -
    from cache_invD(6) [OF assms(1) that] obtain an where "live c a an" "an_el an = Some e" by blast
    then show ?thesis using assms(2,3) by (cases "a = b") (auto simp: l same_place_def live_def)
  qed
  moreover have "(e, a) \<in> set (lru c)" if "live ?c a an" "an_el an = Some e" for a an e
    using that [unfolded l] assms(2,3) cache_invD(7) [OF assms(1)] unfolding same_place_def by (auto split: if_splits)
  moreover have "an_el an \<noteq> None" if "live ?c a an" "receivedAt an > 0" for a an
    using that [unfolded l] assms(2,3) cache_invD(8) [OF assms(1)] unfolding same_place_def by (auto split: if_splits)
  moreover have "a < next_addr c" if "heap ?c a \<noteq> None" for a
    using that assms(1,2) by (cases "a = b") (auto simp: cache_inv_def live_def)
  ultimately show "cache_inv ?c" using assms(1) unfolding cache_inv_def by simp
  show "live ?c x xn \<longleftrightarrow> (if x = b then xn = bn1 else live c x xn)" by (rule l)
qed

text \<open>Adding an answer for a question that the cache has no answer for.\<close>

definition with_answer :: "caches \<Rightarrow> answer \<Rightarrow> caches" where
  "with_answer c an =
     (let a = next_addr c; v = (case cv c (an_qname an) of None \<Rightarrow> [] | Some v \<Rightarrow> v)
      in c\<lparr>heap := (heap c)(a \<mapsto> (if receivedAt an > 0 then an\<lparr>an_el := Some (next_el c)\<rparr> else an)), next_addr := a + 1,
           cv := (cv c)(an_qname an \<mapsto> v @ [a]),
           lru := (if receivedAt an > 0 then lru c @ [(next_el c, a)] else lru c),
           next_el := (if receivedAt an > 0 then next_el c + 1 else next_el c)\<rparr>)"

lemma with_answer_live:
  assumes "cache_inv c" "an_el an = None"
  shows "live (with_answer c an) x xn \<longleftrightarrow>
    (if x = next_addr c then xn = (if receivedAt an > 0 then an\<lparr>an_el := Some (next_el c)\<rparr> else an) else live c x xn)"
proof -
  have "heap c (next_addr c) = None" by (rule cache_inv_fresh [OF assms(1)]) simp
  then show ?thesis
    by (cases "cv c (an_qname an)") (auto simp: live_def with_answer_def Let_def split: if_splits)
qed

lemma with_answer_inv:
  assumes "cache_inv c" "an_el an = None" "an_msg an \<noteq> None"
    "\<And>x xn. live c x xn \<Longrightarrow> an_qname xn = an_qname an \<Longrightarrow> \<not> (an_qtype xn = an_qtype an \<and> an_qclass xn = an_qclass an)"
  shows "cache_inv (with_answer c an)"
proof -
  let ?a = "next_addr c" and ?c = "with_answer c an"
  have l: "live ?c x xn \<longleftrightarrow> (if x = ?a then xn = (if receivedAt an > 0 then an\<lparr>an_el := Some (next_el c)\<rparr> else an)
    else live c x xn)" for x xn by (rule with_answer_live [OF assms(1,2)])
  have fresh: "heap c ?a = None" by (rule cache_inv_fresh [OF assms(1)]) simp
  have nv: "?a \<notin> set v" if "cv c n = Some v" for n v
    using live_ok [OF assms(1) that, of ?a] fresh by (auto simp: live_def)
  have nl: "(e, ?a) \<notin> set (lru c)" for e using cache_invD(6) [OF assms(1), of e ?a] fresh by (auto simp: live_def)
  have m: "matches (heap ?c) t k b = (if b = ?a then an_qtype an = t \<and> an_qclass an = k else matches (heap c) t k b)" for t k b
    by (simp add: matches_def with_answer_def Let_def)
  have "entry_ok (heap ?c) n v" if "cv ?c n = Some v" for n v
  proof -
    define w where "w = (case cv c n of None \<Rightarrow> [] | Some v \<Rightarrow> v)"
    have w: "distinct w" "?a \<notin> set w" "\<And>x. x \<in> set w \<Longrightarrow> \<exists>xn. live c x xn \<and> an_qname xn = n \<and> an_msg xn \<noteq> None"
      "\<And>x y t k. x \<in> set w \<Longrightarrow> y \<in> set w \<Longrightarrow> matches (heap c) t k x \<Longrightarrow> matches (heap c) t k y \<Longrightarrow> x = y"
      using cache_invD(5) [OF assms(1), of n] live_ok [OF assms(1), of n] nv
      by (cases "cv c n"; auto simp: w_def entry_ok_def)+
    have v: "v = (if n = an_qname an then w @ [?a] else w)" using that by (auto simp: with_answer_def Let_def w_def split: if_splits)
    have new: "\<not> matches (heap c) (an_qtype an) (an_qclass an) x" if "x \<in> set w" "n = an_qname an" for x
      using w(3) [OF that(1)] assms(4) that(2) by (auto simp: matches_def live_def)
    have h: "heap ?c x = heap c x" if "x \<noteq> ?a" for x using that by (simp add: with_answer_def Let_def)
    have ha: "\<exists>xn. heap ?c ?a = Some xn \<and> an_qname xn = an_qname an \<and> an_msg xn \<noteq> None"
      using assms(3) by (simp add: with_answer_def Let_def)
    have "\<exists>xn. heap ?c x = Some xn \<and> an_qname xn = n \<and> an_msg xn \<noteq> None" if "x \<in> set v" for x
      using that w(2,3) ha h unfolding v live_def by (auto split: if_splits) (metis, metis)
    moreover have "x = y" if "x \<in> set v" "y \<in> set v" "matches (heap ?c) t k x" "matches (heap ?c) t k y" for x y t k
      using that w(2,4) new unfolding v m by (auto split: if_splits)
    ultimately show ?thesis using w(1,2) unfolding entry_ok_def v by auto
  qed
  moreover have "\<exists>xn. live ?c x xn \<and> an_el xn = Some e" if "(e, x) \<in> set (lru ?c)" for e x
  proof (cases "x = ?a")
    case True
    then show ?thesis using that nl l by (auto simp: with_answer_def Let_def split: if_splits)
  next
    case False
    then have "(e, x) \<in> set (lru c)" using that by (auto simp: with_answer_def Let_def split: if_splits)
    from cache_invD(6) [OF assms(1) this] False show ?thesis by (auto simp: l)
  qed
  moreover have "(e, x) \<in> set (lru ?c)" if "live ?c x xn" "an_el xn = Some e" for x xn e
    using that(1) [unfolded l] that(2) assms(2) cache_invD(7) [OF assms(1), of x xn]
    by (auto simp: with_answer_def Let_def split: if_splits)
  moreover have "an_el xn \<noteq> None" if "live ?c x xn" "receivedAt xn > 0" for x xn
    using that(1) [unfolded l] that(2) cache_invD(8) [OF assms(1), of x xn] by (auto split: if_splits)
  moreover have "x < next_addr ?c" if "heap ?c x \<noteq> None" for x
    using that cache_invD(1) [OF assms(1), of x] by (auto simp: with_answer_def Let_def split: if_splits)
  moreover have "e < next_el ?c" if "(e, x) \<in> set (lru ?c)" for e x
    using that cache_invD(2) [OF assms(1), of e x] by (auto simp: with_answer_def Let_def split: if_splits)
  moreover have "next_el c \<notin> fst ` set (lru c)" using cache_invD(2) [OF assms(1), of "next_el c"] by auto
  then have "distinct (map fst (lru ?c))" "distinct (map snd (lru ?c))"
    using cache_invD(3,4) [OF assms(1)] nl by (auto simp: with_answer_def Let_def)
  ultimately show ?thesis unfolding cache_inv_def by blast
qed

subsection \<open>Adding and finding answers\<close>

lemma newAnswer_simps [simp]:
  "an_qname (newAnswer now msg loc) = QName (Question msg)" "an_qtype (newAnswer now msg loc) = QType (Question msg)"
  "an_qclass (newAnswer now msg loc) = QClass (Question msg)" "an_msg (newAnswer now msg loc) = Some msg"
  "an_el (newAnswer now msg loc) = None" "receivedAt (newAnswer now msg loc) = (if loc then 0 else Unix now)"
  "accessedAt (newAnswer now msg loc) = (if loc then 0 else Unix now)"
  by (simp_all add: newAnswer_def Let_def)

definition refreshed :: "answer \<Rightarrow> answer \<Rightarrow> answer" where
  "refreshed an nu = (if receivedAt an > 0 then an\<lparr>receivedAt := receivedAt nu, accessedAt := accessedAt nu\<rparr> else an)
     \<lparr>an_msg := an_msg nu\<rparr>"

lemma cache_message_new:
  assumes "cache_inv c" "cache_lookup c (QName (Question msg)) (QType (Question msg)) (QClass (Question msg)) = None"
  shows "cache_message now c msg loc = Some (with_answer c (newAnswer now msg loc), True)"
proof (cases "cv c (QName (Question msg))")
  case None
  then show ?thesis
    by (simp add: cache_message_def alloc_def caches_upsert_def newAnswers_def push_lru_def with_answer_def Let_def)
next
  case (Some v)
  let ?h = "(heap c)(next_addr c \<mapsto> newAnswer now msg loc)"
  have fresh: "heap c (next_addr c) = None" by (rule cache_inv_fresh [OF assms(1)]) simp
  have ok: "a \<noteq> next_addr c" "heap c a \<noteq> None" if "a \<in> set v" for a
    using live_ok [OF assms(1) Some that] fresh by (auto simp: live_def)
  have "find (matches (heap c) (QType (Question msg)) (QClass (Question msg))) v = None"
  proof (cases "find (matches (heap c) (QType (Question msg)) (QClass (Question msg))) v")
    case a: (Some a)
    from find_live [OF assms(1) Some a] a Some assms(2) show ?thesis by (auto simp: cache_lookup_def live_def)
  qed
  then have "find (matches ?h (QType (Question msg)) (QClass (Question msg))) v = None"
    using ok(1) by (auto simp: find_None_iff matches_def)
  then have "answers_get ?h v (QType (Question msg)) (QClass (Question msg)) 0 =
      Some (None, length (takeWhile (\<lambda>a. \<not> matches ?h (QType (Question msg)) (QClass (Question msg)) a) v))"
    using answers_get_find [of v ?h] ok by simp
  with Some show ?thesis
    by (simp add: cache_message_def alloc_def caches_upsert_def answers_upsert_def push_lru_def with_answer_def Let_def)
qed

lemma cache_message_old:
  assumes "cache_inv c" "live c b bn" "an_qname bn = QName (Question msg)" "an_qtype bn = QType (Question msg)"
    "an_qclass bn = QClass (Question msg)"
  shows "cache_message now c msg loc = Some (c\<lparr>heap := (heap c)(b \<mapsto> refreshed bn (newAnswer now msg loc),
      next_addr c \<mapsto> (newAnswer now msg loc)\<lparr>an_msg := None\<rparr>), next_addr := next_addr c + 1\<rparr>, False)"
proof -
  let ?nu = "newAnswer now msg loc"
  let ?h = "(heap c)(next_addr c \<mapsto> ?nu)" and ?t = "QType (Question msg)" and ?k = "QClass (Question msg)"
  obtain v where v: "cv c (QName (Question msg)) = Some v" "b \<in> set v" using assms(2,3) by (auto simp: live_def)
  have fresh: "heap c (next_addr c) = None" by (rule cache_inv_fresh [OF assms(1)]) simp
  have ok: "a \<noteq> next_addr c" "heap c a \<noteq> None" if "a \<in> set v" for a
    using live_ok [OF assms(1) v(1) that] fresh by (auto simp: live_def)
  have hb: "heap c b = Some bn" using assms(2) by (simp add: live_def)
  have "matches ?h ?t ?k a = matches (heap c) ?t ?k a" if "a \<in> set v" for a using ok(1) [OF that] by (simp add: matches_def)
  moreover have "matches (heap c) ?t ?k b" using hb assms by (simp add: matches_def)
  moreover have "a = b" if "a \<in> set v" "matches (heap c) ?t ?k a" for a
    using that v(2) \<open>matches (heap c) ?t ?k b\<close> cache_invD(5) [OF assms(1) v(1)] unfolding entry_ok_def by blast
  ultimately have "find (matches ?h ?t ?k) v = Some b"
    using v(2) by (intro find_unique) metis+
  then have "answers_get ?h v ?t ?k 0 = Some (Some b, length (takeWhile (\<lambda>a. \<not> matches ?h ?t ?k a) v))"
    using answers_get_find [of v ?h] ok by simp
  then have au: "answers_upsert ?h v (Some (next_addr c)) =
      Some ((heap c)(b \<mapsto> refreshed bn ?nu, next_addr c \<mapsto> ?nu\<lparr>an_msg := None\<rparr>), v, Some b)"
    using hb ok(1) [OF v(2)] by (cases "receivedAt bn > 0") (simp_all add: answers_upsert_def answer_update_def refreshed_def Let_def)
  have "(cv c)(QName (Question msg) \<mapsto> v) = cv c" using v(1) by (simp add: fun_upd_idem)
  then show ?thesis
    using v(1) au unfolding cache_message_def alloc_def by (cases c) (simp add: caches_upsert_def)
qed

lemma caches_get_eq:
  assumes "cache_inv c"
  shows "caches_get now c n t k =
    (case cv c n of
       None \<Rightarrow> Some (c, None, None)
     | Some v \<Rightarrow>
        (case find (matches (heap c) t k) v of
           None \<Rightarrow> Some (c, Some v, None)
         | Some a \<Rightarrow>
             let an = the (heap c a) in
             if receivedAt an > 0
             then Some (c\<lparr>lru := MoveToBack (lru c) (the (an_el an)), heap := (heap c)(a \<mapsto> an\<lparr>accessedAt := Unix now\<rparr>)\<rparr>, Some v, Some a)
             else Some (c, Some v, Some a)))"
proof (cases "cv c n")
  case (Some v)
  have ok: "heap c a \<noteq> None" if "a \<in> set v" for a using live_ok [OF assms(1) Some that] by (auto simp: live_def)
  note g = answers_get_find [of v "heap c" t k 0, OF ok]
  show ?thesis
  proof (cases "find (matches (heap c) t k) v")
    case a: (Some a)
    from find_live [OF assms Some a] obtain an where an: "live c a an" by blast
    show ?thesis
    proof (cases "receivedAt an > 0")
      case True
      then obtain e where "an_el an = Some e" using cache_invD(8) [OF assms an] by auto
      then show ?thesis using Some g a an True by (simp add: caches_get_def live_def)
    qed (use Some g a an in \<open>simp add: caches_get_def live_def\<close>)
  qed (use Some g in \<open>simp add: caches_get_def\<close>)
qed (simp add: caches_get_def)

subsection \<open>Lookups after the operations\<close>

lemma option_eqI: "(\<And>a. x = Some a \<longleftrightarrow> y = Some a) \<Longrightarrow> x = y"
  by (cases x; cases y) auto

lemma lookup_cong:
  assumes "cache_inv c" "cache_inv d" "\<And>x xn. live d x xn \<longleftrightarrow> live c x xn"
  shows "cache_lookup d n t k = cache_lookup c n t k"
  by (rule option_eqI) (simp add: cache_lookup_iff assms)

definition question_of :: "answer \<Rightarrow> bytes \<times> u16 \<times> u16" where
  "question_of an = (an_qname an, an_qtype an, an_qclass an)"

lemma lookup_question:
  "cache_inv c \<Longrightarrow> cache_lookup c n t k = Some an \<longleftrightarrow> (\<exists>a. live c a an) \<and> question_of an = (n, t, k)"
  by (auto simp: cache_lookup_iff question_of_def)

text \<open>One answer is changed or added.\<close>

lemma changed_lookup:
  assumes "cache_inv c" "cache_inv d" "\<And>x xn. live d x xn \<longleftrightarrow> (if x = b then xn = bn else live c x xn)"
    "\<And>xn. live c b xn \<Longrightarrow> question_of xn = question_of bn"
    "\<And>x xn. live c x xn \<Longrightarrow> question_of xn = question_of bn \<Longrightarrow> x = b"
  shows "cache_lookup d n t k = (if (n, t, k) = question_of bn then Some bn else cache_lookup c n t k)"
proof (cases "(n, t, k) = question_of bn")
  case True
  have "live d b bn" using assms(3) by simp
  then show ?thesis using True lookup_question [OF assms(2), of n t k bn] by auto
next
  case False
  have "(\<exists>a. live d a xn) \<longleftrightarrow> (\<exists>a. live c a xn)" if "question_of xn = (n, t, k)" for xn
    using assms(3,4) that False by metis
  then have "cache_lookup d n t k = Some xn \<longleftrightarrow> cache_lookup c n t k = Some xn" for xn
    unfolding lookup_question [OF assms(1)] lookup_question [OF assms(2)] by blast
  then show ?thesis using False option_eqI by metis
qed

lemma live_question:
  "cache_inv c \<Longrightarrow> live c a an \<Longrightarrow> live c b bn \<Longrightarrow> question_of an = question_of bn \<Longrightarrow> a = b"
  using live_unique by (auto simp: question_of_def)

lemma live_det: "live c a an \<Longrightarrow> live c a bn \<Longrightarrow> an = bn"
  by (simp add: live_def)

lemma modify_lookup:
  assumes "cache_inv c" "live c b bn" "same_place bn bn1"
  shows "cache_lookup (c\<lparr>heap := (heap c)(b \<mapsto> bn1)\<rparr>) n t k =
    (if (n, t, k) = question_of bn then Some bn1 else cache_lookup c n t k)"
proof -
  have q: "question_of bn1 = question_of bn" using assms(3) by (simp add: question_of_def same_place_def)
  show ?thesis unfolding q [symmetric]
  proof (rule changed_lookup [OF assms(1) modify_inv [OF assms]])
    show "question_of xn = question_of bn1" if "live c b xn" for xn using live_det [OF that assms(2)] q by simp
    show "x = b" if "live c x xn" "question_of xn = question_of bn1" for x xn
      using live_question [OF assms(1) that(1) assms(2)] that(2) q by simp
  qed
qed

lemma with_answer_lookup:
  assumes "cache_inv c" "an_el an = None" "an_msg an \<noteq> None" "cache_lookup c (an_qname an) (an_qtype an) (an_qclass an) = None"
  shows "cache_lookup (with_answer c an) n t k =
    (if (n, t, k) = question_of an then Some (if receivedAt an > 0 then an\<lparr>an_el := Some (next_el c)\<rparr> else an)
     else cache_lookup c n t k)"
    "cache_inv (with_answer c an)"
proof -
  let ?an = "if receivedAt an > 0 then an\<lparr>an_el := Some (next_el c)\<rparr> else an"
  have q: "question_of ?an = question_of an" by (simp add: question_of_def)
  have no: "question_of xn \<noteq> question_of an" if "live c x xn" for x xn
    using that assms(4) lookup_question [OF assms(1), of "an_qname an" "an_qtype an" "an_qclass an" xn]
    by (auto simp: question_of_def)
  then show inv: "cache_inv (with_answer c an)"
    by (intro with_answer_inv [OF assms(1-3)]) (auto simp: question_of_def)
  show "cache_lookup (with_answer c an) n t k = (if (n, t, k) = question_of an then Some ?an else cache_lookup c n t k)"
    unfolding q [symmetric]
    by (rule changed_lookup [OF assms(1) inv with_answer_live [OF assms(1,2)]])
      (use no cache_inv_fresh [OF assms(1), of "next_addr c"] in \<open>auto simp: q live_def [of c "next_addr c"] \<close>)
qed

text \<open>The answer that the cache has for a message that was added to it.\<close>

definition stored :: "int \<Rightarrow> caches \<Rightarrow> Message \<Rightarrow> bool \<Rightarrow> answer" where
  "stored now c msg loc =
     (let nu = newAnswer now msg loc in
      case cache_lookup c (QName (Question msg)) (QType (Question msg)) (QClass (Question msg)) of
        Some an \<Rightarrow> refreshed an nu
      | None \<Rightarrow> if receivedAt nu > 0 then nu\<lparr>an_el := Some (next_el c)\<rparr> else nu)"

definition message_question :: "Message \<Rightarrow> bytes \<times> u16 \<times> u16" where
  "message_question msg = (QName (Question msg), QType (Question msg), QClass (Question msg))"

lemma cache_message_ok:
  assumes "cache_inv c"
  shows "\<exists>d. cache_message now c msg loc =
      Some (d, cache_lookup c (QName (Question msg)) (QType (Question msg)) (QClass (Question msg)) = None) \<and> cache_inv d \<and>
    (\<forall>n t k. cache_lookup d n t k =
      (if (n, t, k) = message_question msg then Some (stored now c msg loc) else cache_lookup c n t k)) \<and>
    pruneThreshold d = pruneThreshold c"
proof (cases "cache_lookup c (QName (Question msg)) (QType (Question msg)) (QClass (Question msg))")
  case None
  have q: "question_of (newAnswer now msg loc) = message_question msg" by (simp add: question_of_def message_question_def)
  have st: "stored now c msg loc = (if receivedAt (newAnswer now msg loc) > 0
      then (newAnswer now msg loc)\<lparr>an_el := Some (next_el c)\<rparr> else newAnswer now msg loc)"
    using None by (simp add: stored_def)
  show ?thesis
    using with_answer_lookup [OF assms, of "newAnswer now msg loc"] None cache_message_new [OF assms None] q
    unfolding st by (simp add: with_answer_def Let_def)
next
  case (Some an)
  then obtain b where b: "live c b an" "an_qname an = QName (Question msg)" "an_qtype an = QType (Question msg)"
    "an_qclass an = QClass (Question msg)" using cache_lookup_iff [OF assms] by auto
  let ?nu = "newAnswer now msg loc"
  have sp: "same_place an (refreshed an ?nu)" by (simp add: same_place_def refreshed_def)
  let ?c = "c\<lparr>heap := (heap c)(b \<mapsto> refreshed an ?nu)\<rparr>"
  let ?d = "?c\<lparr>heap := (heap ?c)(next_addr c \<mapsto> ?nu\<lparr>an_msg := None\<rparr>), next_addr := next_addr c + 1\<rparr>"
  note m = modify_inv [OF assms b(1) sp]
  have a: "cache_inv ?d" "live ?d x xn \<longleftrightarrow> live ?c x xn" for x xn using alloc_inv [OF m(1), of "next_addr c"] by simp_all
  have q: "question_of an = message_question msg" using b by (simp add: question_of_def message_question_def)
  have "stored now c msg loc = refreshed an ?nu" using Some by (simp add: stored_def)
  then have "cache_lookup ?d n t k =
      (if (n, t, k) = message_question msg then Some (stored now c msg loc) else cache_lookup c n t k)" for n t k
    unfolding lookup_cong [OF m(1) a(1) a(2)] modify_lookup [OF assms b(1) sp] q by simp
  moreover have "cache_message now c msg loc = Some (?d, False)" using cache_message_old [OF assms b] by simp
  moreover have "pruneThreshold ?d = pruneThreshold c" by simp
  ultimately show ?thesis using Some a(1) by (intro exI [of _ ?d]) simp
qed

subsection \<open>The list of recently used answers\<close>

lemma reorder_inv:
  assumes "cache_inv c" "set l = set (lru c)" "distinct (map fst l)" "distinct (map snd l)"
  shows "cache_inv (c\<lparr>lru := l\<rparr>)" "live (c\<lparr>lru := l\<rparr>) x xn \<longleftrightarrow> live c x xn"
proof -
  have l: "live (c\<lparr>lru := l\<rparr>) x xn \<longleftrightarrow> live c x xn" for x xn by (simp add: live_def)
  then show "live (c\<lparr>lru := l\<rparr>) x xn \<longleftrightarrow> live c x xn" .
  show "cache_inv (c\<lparr>lru := l\<rparr>)" using assms unfolding cache_inv_def l by simp
qed

lemma MoveToBack_props:
  "set (MoveToBack l e) = set l" "distinct (map fst l) \<Longrightarrow> distinct (map fst (MoveToBack l e))"
  "distinct (map snd l) \<Longrightarrow> distinct (map snd (MoveToBack l e))"
  by (auto simp: MoveToBack_def distinct_map inj_on_def)

text \<open>\<open>get\<close> finds the answer of a question, and makes it the most recently used one.\<close>

lemma caches_get_ok:
  assumes "cache_inv c"
  shows "\<exists>d ans a. caches_get now c n t k = Some (d, ans, a) \<and> cache_inv d \<and> pruneThreshold d = pruneThreshold c \<and>
    (case cache_lookup c n t k of
       None \<Rightarrow> a = None \<and> d = c
     | Some an \<Rightarrow> \<exists>b. ans \<noteq> None \<and> a = Some b \<and> live c b an \<and>
         live d b (if receivedAt an > 0 then an\<lparr>accessedAt := Unix now\<rparr> else an) \<and>
         lru d = (if receivedAt an > 0 then MoveToBack (lru c) (the (an_el an)) else lru c) \<and>
         (\<forall>x xn. x \<noteq> b \<longrightarrow> live d x xn = live c x xn))"
proof (cases "cv c n")
  case None
  then show ?thesis using assms caches_get_eq [OF assms, of now n t k] by (simp add: cache_lookup_def)
next
  case v: (Some v)
  show ?thesis
  proof (cases "find (matches (heap c) t k) v")
    case None
    then show ?thesis using v assms caches_get_eq [OF assms, of now n t k] by (simp add: cache_lookup_def)
  next
    case a: (Some a)
    from find_live [OF assms v a] obtain an where an: "live c a an" "an_msg an \<noteq> None" by blast
    then have lk: "cache_lookup c n t k = Some an" using v a by (simp add: cache_lookup_def live_def)
    show ?thesis
    proof (cases "receivedAt an > 0")
      case True
      let ?an = "an\<lparr>accessedAt := Unix now\<rparr>" and ?l = "MoveToBack (lru c) (the (an_el an))"
      have sp: "same_place an ?an" using an(2) by (simp add: same_place_def)
      note m = modify_inv [OF assms an(1) sp]
      let ?c = "c\<lparr>heap := (heap c)(a \<mapsto> ?an)\<rparr>"
      have "cache_inv (?c\<lparr>lru := ?l\<rparr>)" "live (?c\<lparr>lru := ?l\<rparr>) x xn \<longleftrightarrow> live ?c x xn" for x xn
        using cache_invD(3,4) [OF m(1)] by (intro reorder_inv [OF m(1)]; simp add: MoveToBack_props)+
      then show ?thesis
        using v a lk an True caches_get_eq [OF assms, of now n t k] m(2)
        by (intro exI [of _ "?c\<lparr>lru := ?l\<rparr>"] exI [of _ "Some v"] exI [of _ "Some a"]) (simp add: live_def [of c a])
    next
      case False
      then show ?thesis using v a lk an assms caches_get_eq [OF assms, of now n t k] by (simp add: live_def)
    qed
  qed
qed

text \<open>Removing the first answer of the list.\<close>

lemma list_Remove_front:
  "distinct (map fst ((e, a) # rest)) \<Longrightarrow> list_Remove ((e, a) # rest) e = rest"
  unfolding list_Remove_def by (induction rest) auto

lemma remove_front:
  assumes "cache_inv c" "lru c = (e, a) # rest"
  shows "\<exists>d. caches_remove (c\<lparr>lru := list_Remove (lru c) e\<rparr>) a = Some d \<and> cache_inv d \<and> lru d = rest \<and>
    (\<forall>x xn. live d x xn \<longleftrightarrow> x \<noteq> a \<and> live c x xn) \<and> (\<forall>x. x \<noteq> a \<longrightarrow> heap d x = heap c x) \<and>
    pruneThreshold d = pruneThreshold c"
proof -
  have lr: "list_Remove (lru c) e = rest" using list_Remove_front cache_invD(3) [OF assms(1)] assms(2) by simp
  obtain an where an: "live c a an" "an_el an = Some e" using cache_invD(6) [OF assms(1), of e a] assms(2) by auto
  obtain v where v: "cv c (an_qname an) = Some v" "a \<in> set v" "heap c a = Some an" using an(1) by (auto simp: live_def)
  have eok: "entry_ok (heap c) (an_qname an) v" by (rule cache_invD(5) [OF assms(1) v(1)])
  have "matches (heap c) (an_qtype an) (an_qclass an) a" using v(3) by (simp add: matches_def)
  moreover have "b = a" if "b \<in> set v" "matches (heap c) (an_qtype an) (an_qclass an) b" for b
    using that eok v(2) \<open>matches (heap c) (an_qtype an) (an_qclass an) a\<close> unfolding entry_ok_def by blast
  moreover have "distinct v" "\<And>b. b \<in> set v \<Longrightarrow> heap c b \<noteq> None" using eok by (auto simp: entry_ok_def)
  ultimately obtain w where w: "answers_remove (heap c) v (an_qtype an) (an_qclass an) = Some w" "set w = set v - {a}" "distinct w"
    using answers_remove_spec [of v "heap c" a "an_qtype an" "an_qclass an"] v(2) by blast
  let ?d = "c\<lparr>lru := rest, cv := (cv c)(an_qname an \<mapsto> w), heap := (heap c)(a \<mapsto> answer_clear an)\<rparr>"
  have rm: "caches_remove (c\<lparr>lru := list_Remove (lru c) e\<rparr>) a = Some ?d"
    unfolding lr using v w(1) by (simp add: caches_remove_def)
  have ns: "a \<notin> set u" if "cv c n = Some u" "n \<noteq> an_qname an" for n u
    using live_ok [OF assms(1) that(1), of a] v(3) that(2) by (auto simp: live_def)
  have l: "live ?d x xn \<longleftrightarrow> x \<noteq> a \<and> live c x xn" for x xn
    using v w(2) ns by (auto simp: live_def answer_clear_def)
  have "entry_ok (heap ?d) n u" if u: "cv ?d n = Some u" for n u
  proof -
    obtain u0 where u0: "cv c n = Some u0" "set u = set u0 - {a}" "distinct u"
    proof (cases "n = an_qname an")
      case True
      then show ?thesis using that v w u by simp
    next
      case False
      then show ?thesis using that [of u] ns [of n u] u cache_invD(5) [OF assms(1), of n u] by (simp add: entry_ok_def)
    qed
    then show ?thesis
      using cache_invD(5) [OF assms(1) u0(1)] by (auto simp: entry_ok_def matches_def)
  qed
  moreover have "a \<notin> snd ` set rest" using cache_invD(4) [OF assms(1)] assms(2) by simp
  then have "\<exists>xn. live ?d x xn \<and> an_el xn = Some f" if "(f, x) \<in> set (lru ?d)" for f x
    using that cache_invD(6) [OF assms(1), of f x] assms(2) by (force simp: l)
  moreover have "(f, x) \<in> set (lru ?d)" if "live ?d x xn" "an_el xn = Some f" for x xn f
    using that [unfolded l] cache_invD(7) [OF assms(1), of x xn f] assms(2) by auto
  moreover have "an_el xn \<noteq> None" if "live ?d x xn" "receivedAt xn > 0" for x xn
    using that [unfolded l] cache_invD(8) [OF assms(1), of x xn] by auto
  moreover have "x < next_addr ?d" if "heap ?d x \<noteq> None" for x
    using that cache_invD(1) [OF assms(1), of x] v(3) by (auto split: if_splits)
  moreover have "f < next_el ?d" if "(f, x) \<in> set (lru ?d)" for f x
    using that cache_invD(2) [OF assms(1), of f x] assms(2) by simp
  moreover have "distinct (map fst (lru ?d))" "distinct (map snd (lru ?d))"
    using cache_invD(3,4) [OF assms(1)] assms(2) by simp_all
  ultimately have "cache_inv ?d" unfolding cache_inv_def by blast
  with rm l show ?thesis by (intro exI [of _ ?d]) simp
qed

end
