(* ===== verification/DnsCacheProps.thy ===== *)
theory DnsCacheProps
  imports DnsCaches
begin

section \<open>Properties of the DNS caches\<close>

text \<open>
  The loop that prunes the cache, the cache as a state machine whose steps are the operations of the
  code with a clock that does not go back, its invariant, and its refinement of a map from questions
  to messages.
\<close>

subsection \<open>Pruning\<close>

definition old_entry :: "int \<Rightarrow> caches \<Rightarrow> nat \<times> nat \<Rightarrow> bool" where
  "old_entry exp c p \<longleftrightarrow> accessedAt (the (heap c (snd p))) \<le> exp"

lemma takeWhile_cong_set: "(\<And>x. x \<in> set xs \<Longrightarrow> P x = Q x) \<Longrightarrow> takeWhile P xs = takeWhile Q xs \<and> dropWhile P xs = dropWhile Q xs"
  by (induction xs) auto

lemma prune_loop_ok:
  assumes "cache_inv c"
  shows "\<exists>d. prune_loop exp c (lru c) m = Some (d, m + length (takeWhile (old_entry exp c) (lru c))) \<and> cache_inv d \<and>
    lru d = dropWhile (old_entry exp c) (lru c) \<and> pruneThreshold d = pruneThreshold c \<and>
    (\<forall>x xn. live d x xn \<longleftrightarrow> live c x xn \<and> x \<notin> snd ` set (takeWhile (old_entry exp c) (lru c)))"
  using assms
proof (induction "lru c" arbitrary: c m)
  case Nil
  then show ?case by simp
next
  case (Cons p rest)
  obtain e a where p: "p = (e, a)" by force
  then have lru: "lru c = (e, a) # rest" using Cons.hyps(2) by simp
  obtain an where an: "heap c a = Some an" using cache_invD(6) [OF Cons.prems, of e a] lru by (auto simp: live_def)
  show ?case
  proof (cases "accessedAt an > exp")
    case True
    then have "\<not> old_entry exp c (e, a)" using an by (simp add: old_entry_def)
    then show ?thesis using True an lru Cons.prems by simp
  next
    case False
    then have old: "old_entry exp c (e, a)" using an by (simp add: old_entry_def)
    from remove_front [OF Cons.prems lru] obtain d where
      d: "caches_remove (c\<lparr>lru := list_Remove (lru c) e\<rparr>) a = Some d" "cache_inv d" "lru d = rest"
        "\<And>x xn. live d x xn \<longleftrightarrow> x \<noteq> a \<and> live c x xn" "\<And>x. x \<noteq> a \<Longrightarrow> heap d x = heap c x"
        "pruneThreshold d = pruneThreshold c" by blast
    have "a \<notin> snd ` set rest" using cache_invD(4) [OF Cons.prems] lru by simp
    then have "old_entry exp d q = old_entry exp c q" if "q \<in> set rest" for q
      using d(5) that by (force simp: old_entry_def)
    then have w: "takeWhile (old_entry exp d) rest = takeWhile (old_entry exp c) rest"
      "dropWhile (old_entry exp d) rest = dropWhile (old_entry exp c) rest"
      using takeWhile_cong_set by blast+
    from Cons.hyps(1) [OF d(3) [symmetric] d(2), of "m + 1"] obtain d2 where
      d2: "prune_loop exp d rest (m + 1) = Some (d2, m + 1 + length (takeWhile (old_entry exp c) rest))"
        "cache_inv d2" "lru d2 = dropWhile (old_entry exp c) rest" "pruneThreshold d2 = pruneThreshold d"
        "\<And>x xn. live d2 x xn \<longleftrightarrow> live d x xn \<and> x \<notin> snd ` set (takeWhile (old_entry exp c) rest)"
      unfolding d(3) w by blast
    have "prune_loop exp c (lru c) m = prune_loop exp d rest (m + 1)" using False an d(1) lru by simp
    then show ?thesis using d2 d(4,6) old lru by (intro exI [of _ d2]) auto
  qed
qed

text \<open>The time before which an answer must have been used to be removed.\<close>

definition expiry :: "int \<Rightarrow> caches \<Rightarrow> int" where
  "expiry now c = Unix (now + pruneThreshold c)"

lemma prune_ok:
  assumes "cache_inv c"
  shows "\<exists>d. prune now c = Some (d, length (takeWhile (old_entry (expiry now c) c) (lru c))) \<and> cache_inv d \<and>
    lru d = dropWhile (old_entry (expiry now c) c) (lru c) \<and> pruneThreshold d = pruneThreshold c \<and>
    (\<forall>x xn. live d x xn \<longleftrightarrow> live c x xn \<and> x \<notin> snd ` set (takeWhile (old_entry (expiry now c) c) (lru c)))"
  unfolding prune_def expiry_def using prune_loop_ok [OF assms, of _ 0] by simp

text \<open>The list is in the order of the last use.\<close>

definition lru_sorted :: "caches \<Rightarrow> bool" where
  "lru_sorted c \<longleftrightarrow> sorted (map (\<lambda>p. accessedAt (the (heap c (snd p)))) (lru c))"

lemma sorted_takeWhile_filter: "sorted (map f xs) \<Longrightarrow> takeWhile (\<lambda>x. f x \<le> (b :: int)) xs = filter (\<lambda>x. f x \<le> b) xs"
  by (induction xs) (auto simp: filter_empty_conv empty_filter_conv intro: order_trans)

lemma sorted_dropWhile_filter: "sorted (map f xs) \<Longrightarrow> dropWhile (\<lambda>x. f x \<le> (b :: int)) xs = filter (\<lambda>x. \<not> f x \<le> b) xs"
proof (induction xs)
  case (Cons x xs)
  then show ?case by (cases "f x \<le> b") (auto intro!: filter_True [symmetric])
qed simp

subsection \<open>The cache as a state machine\<close>

text \<open>
  The operations that the server calls: adding a message, looking an answer up, and pruning, each at
  the time \<open>now\<close>, which never goes back.
\<close>

inductive cache_step :: "int \<times> caches \<Rightarrow> int \<times> caches \<Rightarrow> bool" where
  step_message: "t0 \<le> now \<Longrightarrow> cache_message now c msg loc = Some (d, ins) \<Longrightarrow> cache_step (t0, c) (now, d)"
| step_get: "t0 \<le> now \<Longrightarrow> caches_get now c n t k = Some (d, ans, an) \<Longrightarrow> cache_step (t0, c) (now, d)"
| step_prune: "t0 \<le> now \<Longrightarrow> prune now c = Some (d, m) \<Longrightarrow> cache_step (t0, c) (now, d)"

inductive_cases cache_stepE: "cache_step s1 s2"

lemma cache_inv_new: "cache_inv (newCaches d t)"
  by (simp add: cache_inv_def newCaches_def live_def)

lemma cache_step_inv:
  assumes "cache_step s1 s2" "cache_inv (snd s1)"
  shows "cache_inv (snd s2)"
  using assms
proof (cases rule: cache_step.cases)
  case (step_message t0 now c msg loc d ins)
  then show ?thesis using cache_message_ok [of c now msg loc] assms(2) by auto
next
  case (step_get t0 now c n t k d ans an)
  then show ?thesis using caches_get_ok [of c now n t k] assms(2) by auto
next
  case (step_prune t0 now c d m)
  then show ?thesis using prune_ok [of c now] assms(2) by auto
qed

lemma cache_steps_inv: "cache_step\<^sup>*\<^sup>* s1 s2 \<Longrightarrow> cache_inv (snd s1) \<Longrightarrow> cache_inv (snd s2)"
  by (induction rule: rtranclp_induct) (auto intro: cache_step_inv)

subsection \<open>A store that may forget\<close>

text \<open>
  The contract of a cache, for any type of state, question and message: adding a message makes it the
  answer of its question and changes no other, looking up changes no answer, and evicting only
  removes answers. Whatever is done, the answer of a question is then the last message added for it,
  or none.
\<close>

datatype ('t, 'm, 'q) store_op = Put 't 'm | Touch 't 'q | Evict 't

fun last_put :: "('m \<Rightarrow> 'q) \<Rightarrow> ('t, 'm, 'q) store_op list \<Rightarrow> 'q \<Rightarrow> 'm option" where
  "last_put key [] q = None"
| "last_put key (Put t m # ops) q =
     (case last_put key ops q of Some m1 \<Rightarrow> Some m1 | None \<Rightarrow> if key m = q then Some m else None)"
| "last_put key (_ # ops) q = last_put key ops q"

fun is_evict :: "('t, 'm, 'q) store_op \<Rightarrow> bool" where
  "is_evict (Evict t) = True"
| "is_evict _ = False"

fun run_store :: "('s \<Rightarrow> ('t, 'm, 'q) store_op \<Rightarrow> 's option) \<Rightarrow> 's \<Rightarrow> ('t, 'm, 'q) store_op list \<Rightarrow> 's option" where
  "run_store f s [] = Some s"
| "run_store f s (op # ops) = do { s \<leftarrow> f s op; run_store f s ops }"

locale forgetful_store =
  fixes valid :: "'s \<Rightarrow> bool"
    and look :: "'s \<Rightarrow> 'q \<Rightarrow> 'm option"
    and key :: "'m \<Rightarrow> 'q"
    and step :: "'s \<Rightarrow> ('t, 'm, 'q) store_op \<Rightarrow> 's option"
  assumes step_valid: "valid s \<Longrightarrow> \<exists>s1. step s op = Some s1 \<and> valid s1"
    and look_put: "valid s \<Longrightarrow> step s (Put t m) = Some s1 \<Longrightarrow> look s1 q = (if q = key m then Some m else look s q)"
    and look_touch: "valid s \<Longrightarrow> step s (Touch t q1) = Some s1 \<Longrightarrow> look s1 q = look s q"
    and look_evict: "valid s \<Longrightarrow> step s (Evict t) = Some s1 \<Longrightarrow> look s1 q = Some m \<Longrightarrow> look s q = Some m"
begin

lemma run_valid: "valid s \<Longrightarrow> \<exists>s1. run_store step s ops = Some s1 \<and> valid s1"
proof (induction ops arbitrary: s)
  case (Cons op ops)
  from step_valid [OF Cons.prems, of op] obtain s1 where "step s op = Some s1" "valid s1" by blast
  with Cons.IH show ?case by simp
qed simp

lemma run_look:
  "valid s \<Longrightarrow> run_store step s ops = Some s1 \<Longrightarrow> look s1 q = Some m \<Longrightarrow>
     last_put key ops q = Some m \<or> last_put key ops q = None \<and> look s q = Some m"
proof (induction ops arbitrary: s)
  case (Cons op ops)
  from step_valid [OF Cons.prems(1), of op] obtain s2 where s2: "step s op = Some s2" "valid s2" by blast
  with Cons.prems have "run_store step s2 ops = Some s1" by simp
  note ih = Cons.IH [OF s2(2) this Cons.prems(3)]
  show ?case
  proof (cases op)
    case (Put t x)
    then show ?thesis using ih look_put [OF Cons.prems(1), of t x s2 q] s2(1) by (auto split: if_splits)
  next
    case (Touch t q1)
    then show ?thesis using ih look_touch [OF Cons.prems(1), of t q1 s2 q] s2(1) by simp
  next
    case (Evict t)
    then show ?thesis using ih look_evict [OF Cons.prems(1), of t s2 q] s2(1) by auto
  qed
qed simp

lemma run_look_all:
  "valid s \<Longrightarrow> run_store step s ops = Some s1 \<Longrightarrow> \<not> list_ex is_evict ops \<Longrightarrow>
     look s1 q = (case last_put key ops q of Some m \<Rightarrow> Some m | None \<Rightarrow> look s q)"
proof (induction ops arbitrary: s)
  case (Cons op ops)
  from step_valid [OF Cons.prems(1), of op] obtain s2 where s2: "step s op = Some s2" "valid s2" by blast
  with Cons.prems have "run_store step s2 ops = Some s1" "\<not> list_ex is_evict ops" "\<not> is_evict op" by simp_all
  note ih = Cons.IH [OF s2(2) this(1,2)] and this(3)
  then show ?case
    using look_put [OF Cons.prems(1)] look_touch [OF Cons.prems(1)] s2(1)
    by (cases op) (auto split: option.splits)
qed simp

end

subsection \<open>The cache is such a store\<close>

type_synonym question = "bytes \<times> u16 \<times> u16"

definition cache_map :: "caches \<Rightarrow> question \<Rightarrow> Message option" where
  "cache_map c = (\<lambda>(n, t, k). case cache_lookup c n t k of None \<Rightarrow> None | Some an \<Rightarrow> an_msg an)"

text \<open>The operations at a time, and for a message whether it is local.\<close>

fun cache_op :: "caches \<Rightarrow> (int \<times> bool, Message, question) store_op \<Rightarrow> caches option" where
  "cache_op c (Put (now, loc) msg) = map_option fst (cache_message now c msg loc)"
| "cache_op c (Touch (now, _) (n, t, k)) = map_option fst (caches_get now c n t k)"
| "cache_op c (Evict (now, _)) = map_option fst (prune now c)"

lemma stored_msg: "an_msg (stored now c msg loc) = Some msg"
  by (simp add: stored_def refreshed_def Let_def split: option.splits)

lemma message_map:
  assumes "cache_inv c" "cache_message now c msg loc = Some (d, b)"
  shows "cache_map d q = (if q = message_question msg then Some msg else cache_map c q)"
  using cache_message_ok [OF assms(1), of now msg loc] assms(2)
  by (cases q) (auto simp: cache_map_def stored_msg split: option.splits)

lemma get_lookup:
  assumes "cache_inv c" "caches_get now c n t k = Some (d, ans, a)"
  shows "cache_lookup d n1 t1 k1 =
    (case cache_lookup c n t k of
       Some an \<Rightarrow> if (n1, t1, k1) = (n, t, k) \<and> receivedAt an > 0 then Some (an\<lparr>accessedAt := Unix now\<rparr>) else cache_lookup c n1 t1 k1
     | None \<Rightarrow> cache_lookup c n1 t1 k1)"
proof -
  from caches_get_ok [OF assms(1), of now n t k] assms(2) have inv: "cache_inv d" by auto
  show ?thesis
  proof (cases "cache_lookup c n t k")
    case None
    then show ?thesis using caches_get_ok [OF assms(1), of now n t k] assms(2) by auto
  next
    case (Some an)
    let ?an = "if receivedAt an > 0 then an\<lparr>accessedAt := Unix now\<rparr> else an"
    obtain b where b: "live c b an" "live d b ?an" "\<And>x xn. x \<noteq> b \<Longrightarrow> live d x xn = live c x xn"
      using caches_get_ok [OF assms(1), of now n t k] assms(2) Some by auto
    have q: "question_of an = (n, t, k)" "question_of ?an = (n, t, k)"
      using Some lookup_question [OF assms(1)] by (auto simp: question_of_def)
    have "cache_lookup d n1 t1 k1 = (if (n1, t1, k1) = question_of ?an then Some ?an else cache_lookup c n1 t1 k1)"
    proof (rule changed_lookup [OF assms(1) inv, of b])
      show "live d x xn \<longleftrightarrow> (if x = b then xn = ?an else live c x xn)" for x xn
        using b(2,3) live_det by (auto split: if_splits)
      show "question_of xn = question_of ?an" if "live c b xn" for xn using live_det [OF that b(1)] q by simp
      show "x = b" if "live c x xn" "question_of xn = question_of ?an" for x xn
        using live_question [OF assms(1) that(1) b(1)] that(2) q by simp
    qed
    then show ?thesis using Some q by auto
  qed
qed

lemma get_map:
  assumes "cache_inv c" "caches_get now c n t k = Some (d, ans, a)"
  shows "cache_map d q = cache_map c q"
  by (cases q) (auto simp: cache_map_def get_lookup [OF assms] split: option.splits)

lemma prune_lookup:
  assumes "cache_inv c" "prune now c = Some (d, m)" "cache_lookup d n t k = Some an"
  shows "cache_lookup c n t k = Some an"
proof -
  from prune_ok [OF assms(1), of now] assms(2) have "cache_inv d" "\<And>x xn. live d x xn \<Longrightarrow> live c x xn" by auto
  then show ?thesis using assms(3) by (auto simp: lookup_question assms(1))
qed

interpretation dc: forgetful_store cache_inv cache_map message_question cache_op
proof
  show "\<exists>s1. cache_op c op = Some s1 \<and> cache_inv s1" if "cache_inv c" for c op
  proof (cases "(c, op)" rule: cache_op.cases)
    case (1 c1 now loc msg)
    then show ?thesis using cache_message_ok [OF that, of now msg loc] by auto
  next
    case (2 c1 now loc n t k)
    then show ?thesis using caches_get_ok [OF that, of now n t k] by auto
  next
    case (3 c1 now loc)
    then show ?thesis using prune_ok [OF that, of now] by auto
  qed
  show "cache_map d q = (if q = message_question m then Some m else cache_map c q)"
    if "cache_inv c" "cache_op c (Put t m) = Some d" for c t m d q
    using that message_map [OF that(1), of _ m _ d _ q] by (cases t) auto
  show "cache_map d q = cache_map c q" if "cache_inv c" "cache_op c (Touch t q1) = Some d" for c t q1 d q
    using that get_map [OF that(1), of _ _ _ _ d _ _ q] by (cases t; cases q1) auto
  show "cache_map c q = Some m" if "cache_inv c" "cache_op c (Evict t) = Some d" "cache_map d q = Some m" for c t d q m
    using that prune_lookup [OF that(1), of _ d] by (cases t; cases q) (fastforce simp: cache_map_def split: option.splits)
qed

text \<open>
  C9: The cache refines a map that may forget: after every sequence of additions, lookups and prunings
  on a new cache, none of which panics, the answer the cache has for a question is the message that
  was last added for it; and while nothing was pruned, it has an answer for every question that a
  message was added for.
\<close>

theorem cache_refines_map:
  "\<exists>c. run_store cache_op (newCaches delay threshold) ops = Some c \<and>
     (\<forall>q msg. cache_map c q = Some msg \<longrightarrow> last_put message_question ops q = Some msg) \<and>
     (\<not> list_ex is_evict ops \<longrightarrow> cache_map c = last_put message_question ops)"
proof -
  let ?c = "newCaches delay threshold"
  have e: "cache_map ?c q = None" for q by (cases q) (simp add: cache_map_def cache_lookup_def newCaches_def)
  from dc.run_valid [OF cache_inv_new, of delay threshold ops] obtain c where
    c: "run_store cache_op ?c ops = Some c" by blast
  have "last_put message_question ops q = Some msg" if "cache_map c q = Some msg" for q msg
    using dc.run_look [OF cache_inv_new c that] e by simp
  moreover have "cache_map c = last_put message_question ops" if "\<not> list_ex is_evict ops"
    using dc.run_look_all [OF cache_inv_new c that] e by (intro ext) (simp split: option.splits)
  ultimately show ?thesis using c by blast
qed

theorem cache_refines_map_witness:
  "\<exists>c. run_store cache_op (newCaches 0 0) [Put (1000000000, False) example_response] = Some c \<and>
     cache_map c (message_question example_response) = Some example_response"
  using cache_refines_map [of 0 0 "[Put (1000000000, False) example_response]"] by auto

subsection \<open>The invariant\<close>

text \<open>
  C18: In every state the server can bring the cache into, the map and the list of recently used
  answers agree: a name has at most one answer for a type and class, every answer in the map has a
  message, the elements of the list are the answers in the map that hold a list element, each once,
  and every answer that was received from another server is in the list. So no further operation
  panics on a dangling or missing list element.
\<close>

theorem cache_invariant:
  assumes "cache_step\<^sup>*\<^sup>* (t0, newCaches delay threshold) (t1, c)"
  shows "cache_inv c \<and> cache_message now c msg loc \<noteq> None \<and> caches_get now c n t k \<noteq> None \<and> prune now c \<noteq> None"
proof -
  have inv: "cache_inv c" using cache_steps_inv [OF assms] cache_inv_new by simp
  then show ?thesis
    using cache_message_ok [OF inv, of now msg loc] caches_get_ok [OF inv, of now n t k] prune_ok [OF inv, of now] by auto
qed

theorem cache_invariant_witness:
  "cache_inv (newCaches 0 0) \<and> cache_message 5 (newCaches 0 0) NewMessage False \<noteq> None \<and>
   caches_get 5 (newCaches 0 0) [97] 1 1 \<noteq> None \<and> prune 5 (newCaches 0 0) \<noteq> None"
  by (rule cache_invariant) (rule rtranclp.rtrancl_refl)

subsection \<open>What pruning removes\<close>

lemma lookup_in_lru:
  assumes "cache_inv c" "live c a an"
  shows "an_el an \<noteq> None \<longleftrightarrow> a \<in> snd ` set (lru c)"
proof
  assume "an_el an \<noteq> None"
  then obtain e where "(e, a) \<in> set (lru c)" using cache_invD(7) [OF assms] by auto
  then show "a \<in> snd ` set (lru c)" by force
next
  assume "a \<in> snd ` set (lru c)"
  then obtain e where "(e, a) \<in> set (lru c)" by auto
  from cache_invD(6) [OF assms(1) this] show "an_el an \<noteq> None" using live_det [OF assms(2)] by auto
qed

lemma removed_lookup:
  assumes "cache_inv c" "cache_inv d" "\<And>x xn. live d x xn \<longleftrightarrow> live c x xn \<and> x \<notin> W"
    "live c a an" "question_of an = (n, t, k)"
  shows "cache_lookup d n t k = (if a \<in> W then None else Some an)"
proof (cases "a \<in> W")
  case True
  have "question_of bn \<noteq> (n, t, k)" if "live d b bn" for b bn
    using that live_question [OF assms(1) _ assms(4)] assms(3,5) True by metis
  then have "cache_lookup d n t k \<noteq> Some bn" for bn using lookup_question [OF assms(2)] by blast
  then show ?thesis using True by (cases "cache_lookup d n t k") auto
next
  case False
  then have "live d a an" using assms(3,4) by blast
  then show ?thesis using False assms(5) lookup_question [OF assms(2)] by auto
qed

text \<open>What a lookup finds after pruning, by the place of the answer in the list.\<close>

lemma prune_lookup_cases:
  assumes "cache_inv c" "prune now c = Some (d, m)" "cache_lookup c n t k = Some an"
  obtains a where "live c a an"
    "cache_lookup d n t k = (if a \<in> snd ` set (takeWhile (old_entry (expiry now c) c) (lru c)) then None else Some an)"
proof -
  let ?w = "takeWhile (old_entry (expiry now c) c) (lru c)"
  from prune_ok [OF assms(1), of now] assms(2) have d: "cache_inv d"
    "\<And>x xn. live d x xn \<longleftrightarrow> live c x xn \<and> x \<notin> snd ` set ?w" by auto
  obtain a where a: "live c a an" "question_of an = (n, t, k)" using assms(3) lookup_question [OF assms(1)] by auto
  from that [OF a(1) removed_lookup [OF assms(1) d a]] show ?thesis .
qed

lemma prune_sound:
  assumes "cache_inv c" "prune now c = Some (d, m)" "cache_lookup c n t k = Some an" "cache_lookup d n t k \<noteq> Some an"
  shows "cache_lookup d n t k = None" "accessedAt an \<le> expiry now c" "an_el an \<noteq> None"
proof -
  obtain a where a: "live c a an"
    "cache_lookup d n t k = (if a \<in> snd ` set (takeWhile (old_entry (expiry now c) c) (lru c)) then None else Some an)"
    by (rule prune_lookup_cases [OF assms(1-3)])
  then have r: "a \<in> snd ` set (takeWhile (old_entry (expiry now c) c) (lru c))" using assms(4) by (auto split: if_splits)
  then obtain e where e: "(e, a) \<in> set (lru c)" "old_entry (expiry now c) c (e, a)" by (auto dest: set_takeWhileD)
  show "cache_lookup d n t k = None" using a(2) r by simp
  show "accessedAt an \<le> expiry now c" using e(2) a(1) by (simp add: old_entry_def live_def)
  have "a \<in> snd ` set (lru c)" using e(1) by force
  then show "an_el an \<noteq> None" using lookup_in_lru [OF assms(1) a(1)] by simp
qed

lemma prune_complete:
  assumes "cache_inv c" "prune now c = Some (d, m)" "cache_lookup c n t k = Some an"
    "an_el an \<noteq> None" "accessedAt an \<le> expiry now c"
    "lru_sorted c \<or> list_all (old_entry (expiry now c) c) (lru c)"
  shows "cache_lookup d n t k = None"
proof -
  let ?o = "old_entry (expiry now c) c"
  have w: "takeWhile ?o (lru c) = filter ?o (lru c)"
    using assms(6)
  proof
    assume "lru_sorted c"
    then show ?thesis unfolding lru_sorted_def old_entry_def by (rule sorted_takeWhile_filter)
  next
    assume "list_all ?o (lru c)"
    then show ?thesis by (induction "lru c") (auto simp: list_all_iff takeWhile_eq_all_conv)
  qed
  obtain a where a: "live c a an" "cache_lookup d n t k = (if a \<in> snd ` set (takeWhile ?o (lru c)) then None else Some an)"
    by (rule prune_lookup_cases [OF assms(1-3)])
  obtain e where e: "(e, a) \<in> set (lru c)" using lookup_in_lru [OF assms(1) a(1)] assms(4) by auto
  have "?o (e, a)" using assms(5) a(1) by (simp add: old_entry_def live_def)
  then have "a \<in> snd ` set (takeWhile ?o (lru c))" unfolding w using e by force
  then show ?thesis using a(2) by simp
qed

subsection \<open>The order of the list\<close>

abbreviation accessed :: "caches \<Rightarrow> nat \<times> nat \<Rightarrow> int" where
  "accessed c p \<equiv> accessedAt (the (heap c (snd p)))"

definition ordered_cache :: "int \<Rightarrow> caches \<Rightarrow> bool" where
  "ordered_cache now c \<longleftrightarrow> cache_inv c \<and> lru_sorted c \<and> (\<forall>p \<in> set (lru c). accessed c p \<le> Unix now) \<and>
     (\<forall>a an. live c a an \<longrightarrow> (an_el an \<noteq> None \<longleftrightarrow> receivedAt an > 0))"

lemma Unix_mono: "a \<le> b \<Longrightarrow> Unix a \<le> Unix b"
  by (simp add: Unix_def zdiv_mono1)

lemma ordered_cong:
  assumes "ordered_cache t0 c" "t0 \<le> now" "cache_inv d" "lru d = filter P (lru c) @ q"
    "\<And>p. p \<in> set (filter P (lru c)) \<Longrightarrow> heap d (snd p) = heap c (snd p)"
    "\<And>p. p \<in> set q \<Longrightarrow> accessed d p = Unix now"
    "\<And>a an. live d a an \<Longrightarrow> an_el an \<noteq> None \<longleftrightarrow> receivedAt an > 0"
  shows "ordered_cache now d"
proof -
  have le: "accessed d p \<le> Unix now" if "p \<in> set (lru d)" for p
  proof (cases "p \<in> set q")
    case False
    then have p: "p \<in> set (filter P (lru c))" using that assms(4) by auto
    then have "accessed c p \<le> Unix t0" using assms(1) by (simp add: ordered_cache_def)
    then show ?thesis using assms(5) [OF p] Unix_mono [OF assms(2)] by simp
  qed (use assms(6) in simp)
  have m: "map (accessed d) (filter P (lru c)) = map (accessed c) (filter P (lru c))" using assms(5) by auto
  have "sorted (map (accessed c) (filter P (lru c)))"
    using assms(1) sorted_filter [of "accessed c" "lru c"] by (simp add: ordered_cache_def lru_sorted_def)
  moreover have "sorted (map (accessed d) q)"
    using assms(6) by (induction q) auto
  moreover have "x \<le> y" if "x \<in> set (map (accessed d) (filter P (lru c)))" "y \<in> set (map (accessed d) q)" for x y
    using that le assms(4,6) by auto
  ultimately have "lru_sorted d"
    unfolding lru_sorted_def assms(4) map_append sorted_append m by blast
  then show ?thesis using assms(3,7) le by (simp add: ordered_cache_def)
qed

lemma live_heap: "live c a an \<Longrightarrow> heap c a = Some an"
  by (simp add: live_def)

lemma lru_heap:
  assumes "cache_inv c" "p \<in> set (lru c)"
  shows "\<exists>an. live c (snd p) an"
  using cache_invD(6) [OF assms(1), of "fst p" "snd p"] assms(2) by auto

lemma ordered_message:
  assumes "ordered_cache t0 c" "t0 \<le> now" "cache_message now c msg loc = Some (d, True)"
  shows "ordered_cache now d"
proof -
  let ?nu = "newAnswer now msg loc"
  have inv: "cache_inv c" using assms(1) by (simp add: ordered_cache_def)
  have new: "cache_lookup c (QName (Question msg)) (QType (Question msg)) (QClass (Question msg)) = None"
    using cache_message_ok [OF inv, of now msg loc] assms(3) by auto
  have d: "d = with_answer c ?nu" using cache_message_new [OF inv new] assms(3) by simp
  have idn: "cache_inv d" using with_answer_lookup(2) [OF inv, of ?nu] new d by simp
  let ?q = "if receivedAt ?nu > 0 then [(next_el c, next_addr c)] else []"
  show ?thesis
  proof (rule ordered_cong [OF assms(1,2) idn, of "\<lambda>_. True" ?q])
    show "lru d = filter (\<lambda>_. True) (lru c) @ ?q" by (simp add: d with_answer_def Let_def)
    show "heap d (snd p) = heap c (snd p)" if "p \<in> set (filter (\<lambda>_. True) (lru c))" for p
      using lru_heap [OF inv, of p] that cache_inv_fresh [OF inv, of "next_addr c"]
      by (auto simp: d with_answer_def Let_def live_def)
    show "accessed d p = Unix now" if "p \<in> set ?q" for p
      using that by (auto simp: d with_answer_def Let_def split: if_splits)
    show "an_el an \<noteq> None \<longleftrightarrow> receivedAt an > 0" if "live d a an" for a an
      using that assms(1) unfolding d with_answer_live [OF inv newAnswer_simps(5)] ordered_cache_def
      by (auto split: if_splits)
  qed
qed

lemma ordered_get:
  assumes "ordered_cache t0 c" "t0 \<le> now" "caches_get now c n t k = Some (d, ans, a)"
  shows "ordered_cache now d"
proof -
  have inv: "cache_inv c" using assms(1) by (simp add: ordered_cache_def)
  have el: "an_el xn \<noteq> None \<longleftrightarrow> receivedAt xn > 0" if "live c x xn" for x xn using assms(1) that by (auto simp: ordered_cache_def)
  have idn: "cache_inv d" using caches_get_ok [OF inv, of now n t k] assms(3) by auto
  have same: "ordered_cache now c" by (rule ordered_cong [OF assms(1,2) inv, of "\<lambda>_. True" "[]"]) (use el in auto)
  show ?thesis
  proof (cases "cache_lookup c n t k")
    case None
    then show ?thesis using caches_get_ok [OF inv, of now n t k] assms(3) same by auto
  next
    case (Some an)
    obtain b where b: "live c b an" "live d b (if receivedAt an > 0 then an\<lparr>accessedAt := Unix now\<rparr> else an)"
      "lru d = (if receivedAt an > 0 then MoveToBack (lru c) (the (an_el an)) else lru c)"
      "\<And>x xn. x \<noteq> b \<Longrightarrow> live d x xn = live c x xn"
      using caches_get_ok [OF inv, of now n t k] assms(3) Some by auto
    have el2: "an_el xn \<noteq> None \<longleftrightarrow> receivedAt xn > 0" if "live d x xn" for x xn
    proof (cases "x = b")
      case True
      then show ?thesis using live_det [OF that [unfolded True] b(2)] el [OF b(1)] by (simp split: if_splits)
    next
      case False
      then show ?thesis using that b(4) el by blast
    qed
    have hp: "heap d (snd p) = heap c (snd p)" if "p \<in> set (lru c)" "snd p \<noteq> b" for p
      using lru_heap [OF inv that(1)] b(4) [OF that(2)] live_heap by metis
    show ?thesis
    proof (cases "receivedAt an > 0")
      case True
      then obtain e where e: "an_el an = Some e" using cache_invD(8) [OF inv b(1)] by auto
      have lr: "(e, b) \<in> set (lru c)" by (rule cache_invD(7) [OF inv b(1) e])
      have nb: "snd p \<noteq> b" if "p \<in> set (lru c)" "fst p \<noteq> e" for p
        using cache_invD(6) [OF inv, of "fst p" "snd p"] that b(1) e by (auto dest: live_det)
      have pe: "snd p = b" if "p \<in> set (lru c)" "fst p = e" for p
        using eq_key_imp_eq_value [OF cache_invD(3) [OF inv], of e "snd p" b] lr that by (metis prod.collapse)
      show ?thesis
      proof (rule ordered_cong [OF assms(1,2) idn, of "\<lambda>p. fst p \<noteq> e" "filter (\<lambda>p. fst p = e) (lru c)"])
        show "lru d = filter (\<lambda>p. fst p \<noteq> e) (lru c) @ filter (\<lambda>p. fst p = e) (lru c)"
          using b(3) True e by (simp add: MoveToBack_def)
        show "heap d (snd p) = heap c (snd p)" if "p \<in> set (filter (\<lambda>p. fst p \<noteq> e) (lru c))" for p
          using hp nb that by auto
        show "accessed d p = Unix now" if "p \<in> set (filter (\<lambda>p. fst p = e) (lru c))" for p
          using pe [of p] that b(2) True by (auto simp: live_def)
      qed (rule el2)
    next
      case False
      then have "heap d (snd p) = heap c (snd p)" if "p \<in> set (lru c)" for p
        using hp that b(1,2) by (cases "snd p = b") (auto simp: live_def)
      then show ?thesis
        using b(3) False el2 by (intro ordered_cong [OF assms(1,2) idn, of "\<lambda>_. True" "[]"]) auto
    qed
  qed
qed

lemma ordered_prune:
  assumes "ordered_cache t0 c" "t0 \<le> now" "prune now c = Some (d, m)"
  shows "ordered_cache now d"
proof -
  have inv: "cache_inv c" using assms(1) by (simp add: ordered_cache_def)
  let ?o = "old_entry (expiry now c) c"
  from prune_ok [OF inv, of now] assms(3) have d: "cache_inv d" "lru d = dropWhile ?o (lru c)"
    "\<And>x xn. live d x xn \<Longrightarrow> live c x xn" by auto
  have f: "dropWhile ?o (lru c) = filter (\<lambda>p. \<not> ?o p) (lru c)"
    using assms(1) sorted_dropWhile_filter unfolding ordered_cache_def lru_sorted_def old_entry_def by blast
  have hp: "heap d (snd p) = heap c (snd p)" if "p \<in> set (lru d)" for p
    using lru_heap [OF d(1) that] d(3) live_heap by metis
  have "an_el xn \<noteq> None \<longleftrightarrow> receivedAt xn > 0" if "live d x xn" for x xn
    using d(3) [OF that] assms(1) unfolding ordered_cache_def by blast
  then show ?thesis
    by (intro ordered_cong [OF assms(1,2) d(1), of "\<lambda>p. \<not> ?o p" "[]"]) (use d(2) f hp in auto)
qed

text \<open>The steps in which no message replaces another one.\<close>

inductive fill_step :: "int \<times> caches \<Rightarrow> int \<times> caches \<Rightarrow> bool" where
  fill_message: "t0 \<le> now \<Longrightarrow> cache_message now c msg loc = Some (d, True) \<Longrightarrow> fill_step (t0, c) (now, d)"
| fill_get: "t0 \<le> now \<Longrightarrow> caches_get now c n t k = Some (d, ans, an) \<Longrightarrow> fill_step (t0, c) (now, d)"
| fill_prune: "t0 \<le> now \<Longrightarrow> prune now c = Some (d, m) \<Longrightarrow> fill_step (t0, c) (now, d)"

lemma fill_step_ordered: "fill_step s1 s2 \<Longrightarrow> ordered_cache (fst s1) (snd s1) \<Longrightarrow> ordered_cache (fst s2) (snd s2)"
  by (cases rule: fill_step.cases) (auto intro: ordered_message ordered_get ordered_prune)

lemma fill_steps_ordered: "fill_step\<^sup>*\<^sup>* s1 s2 \<Longrightarrow> ordered_cache (fst s1) (snd s1) \<Longrightarrow> ordered_cache (fst s2) (snd s2)"
  by (induction rule: rtranclp_induct) (auto intro: fill_step_ordered)

lemma ordered_new: "ordered_cache t (newCaches d th)"
  by (simp add: ordered_cache_def cache_inv_new lru_sorted_def) (simp add: newCaches_def live_def)

text \<open>
  Pruning is exact as long as no cached answer was replaced by a new message: it removes just the
  answers that were received from other servers and have not been used after the threshold, and
  leaves every other answer as it is.
\<close>

theorem prune_exact:
  assumes "fill_step\<^sup>*\<^sup>* (t0, newCaches delay threshold) (t1, c)" "prune now c = Some (d, m)"
    "cache_lookup c n t k = Some an"
  shows "cache_lookup d n t k = (if receivedAt an > 0 \<and> accessedAt an \<le> expiry now c then None else Some an)"
proof -
  have o: "ordered_cache t1 c" using fill_steps_ordered [OF assms(1)] ordered_new by simp
  then have inv: "cache_inv c" "lru_sorted c" by (simp_all add: ordered_cache_def)
  obtain a where "live c a an" using assms(3) lookup_question [OF inv(1)] by auto
  then have el: "an_el an \<noteq> None \<longleftrightarrow> receivedAt an > 0" using o by (simp add: ordered_cache_def)
  show ?thesis
  proof (cases "receivedAt an > 0 \<and> accessedAt an \<le> expiry now c")
    case True
    then show ?thesis using prune_complete [OF inv(1) assms(2,3)] inv(2) el by simp
  next
    case False
    then have "cache_lookup d n t k = Some an" using prune_sound(2,3) [OF inv(1) assms(2,3)] el by blast
    then show ?thesis using False by simp
  qed
qed

text \<open>
  C38: Nothing that came from another server stays for ever: when a prune runs after the threshold has
  passed since the last use of every answer, no answer that is in the list of recently used ones is
  left, in any state the cache can be in.
\<close>

theorem prune_empties:
  assumes "cache_step\<^sup>*\<^sup>* (t0, newCaches delay threshold) (t1, c)"
    "\<And>n t k an. cache_lookup c n t k = Some an \<Longrightarrow> accessedAt an \<le> expiry now c"
  shows "\<exists>d. prune now c = Some (d, length (lru c)) \<and> caches_list d = [] \<and>
    (\<forall>n t k an. cache_lookup d n t k = Some an \<longrightarrow> receivedAt an \<le> 0)"
proof -
  have inv: "cache_inv c" using cache_steps_inv [OF assms(1)] cache_inv_new by simp
  have "old_entry (expiry now c) c p" if "p \<in> set (lru c)" for p
  proof -
    from lru_heap [OF inv that] obtain an where "live c (snd p) an" by blast
    moreover from this have "accessedAt an \<le> expiry now c"
      using assms(2) cache_lookup_iff [OF inv] by blast
    ultimately show ?thesis by (simp add: old_entry_def live_def)
  qed
  then have w: "takeWhile (old_entry (expiry now c) c) (lru c) = lru c" "dropWhile (old_entry (expiry now c) c) (lru c) = []"
    by (simp_all add: takeWhile_eq_all_conv)
  from prune_ok [OF inv, of now] obtain d where d: "prune now c = Some (d, length (lru c))" "cache_inv d" "lru d = []"
    unfolding w by auto
  have "receivedAt an \<le> 0" if l: "cache_lookup d n t k = Some an" for n t k an
  proof (rule ccontr)
    assume "\<not> receivedAt an \<le> 0"
    moreover obtain a where "live d a an" using l lookup_question [OF d(2)] by auto
    ultimately show False using cache_invD(7,8) [OF d(2), of a an] d(3) by (cases "an_el an") auto
  qed
  then show ?thesis using d(1,3) by (simp add: caches_list_def)
qed

text \<open>A cache with one answer that was received at second 1, and its state after pruning.\<close>

lemma one_answer:
  "\<exists>d. prune 3602000000000 (with_answer (newCaches 0 0) (newAnswer 1000000000 NewMessage False)) = Some (d, 1)"
  by (simp add: with_answer_def newCaches_def newAnswer_def prune_def Unix_def hour_def minute_def Let_def
      caches_remove_def answers_remove_def idx_def upd_def subslice_def)

lemma one_answer_reached:
  "cache_step\<^sup>*\<^sup>* (0, newCaches 0 0) (1000000000, with_answer (newCaches 0 0) (newAnswer 1000000000 NewMessage False))"
  "cache_lookup (with_answer (newCaches 0 0) (newAnswer 1000000000 NewMessage False)) n t k =
     (if (n, t, k) = ([], QueryTypeA, QueryClassIN) then Some ((newAnswer 1000000000 NewMessage False)\<lparr>an_el := Some 0\<rparr>) else None)"
proof -
  have new: "cache_lookup (newCaches 0 0) n t k = None" for n t k by (simp add: cache_lookup_def newCaches_def)
  have "cache_message 1000000000 (newCaches 0 0) NewMessage False =
      Some (with_answer (newCaches 0 0) (newAnswer 1000000000 NewMessage False), True)"
    by (rule cache_message_new [OF cache_inv_new new])
  then show "cache_step\<^sup>*\<^sup>* (0, newCaches 0 0) (1000000000, with_answer (newCaches 0 0) (newAnswer 1000000000 NewMessage False))"
    by (intro r_into_rtranclp step_message) simp_all
  show "cache_lookup (with_answer (newCaches 0 0) (newAnswer 1000000000 NewMessage False)) n t k =
     (if (n, t, k) = ([], QueryTypeA, QueryClassIN) then Some ((newAnswer 1000000000 NewMessage False)\<lparr>an_el := Some 0\<rparr>) else None)"
    using with_answer_lookup(1) [OF cache_inv_new [of 0 0], of "newAnswer 1000000000 NewMessage False"] new
    by (auto simp: question_of_def NewMessage_def newAnswer_def Unix_def newCaches_def)
qed

theorem prune_empties_witness:
  "\<exists>d an. cache_lookup (with_answer (newCaches 0 0) (newAnswer 1000000000 NewMessage False)) [] QueryTypeA QueryClassIN = Some an \<and>
    receivedAt an = 1 \<and> caches_list (with_answer (newCaches 0 0) (newAnswer 1000000000 NewMessage False)) = [0] \<and>
    prune 3602000000000 (with_answer (newCaches 0 0) (newAnswer 1000000000 NewMessage False)) = Some (d, 1) \<and> caches_list d = [] \<and>
    cache_lookup d [] QueryTypeA QueryClassIN \<noteq> Some an"
proof -
  let ?c = "with_answer (newCaches 0 0) (newAnswer 1000000000 NewMessage False)"
  have old: "accessedAt an \<le> expiry 3602000000000 ?c" if "cache_lookup ?c n t k = Some an" for n t k an
  proof -
    have "accessedAt an = 1" using that unfolding one_answer_reached(2)
      by (auto simp: newAnswer_def Unix_def split: if_splits)
    moreover have "1 \<le> expiry 3602000000000 ?c"
      by (simp add: newAnswer_def Unix_def expiry_def with_answer_def newCaches_def minute_def hour_def Let_def)
    ultimately show ?thesis by simp
  qed
  have "\<exists>d. prune 3602000000000 ?c = Some (d, length (lru ?c)) \<and> caches_list d = [] \<and>
      (\<forall>n t k an. cache_lookup d n t k = Some an \<longrightarrow> receivedAt an \<le> 0)"
    by (rule prune_empties [OF one_answer_reached(1)]) (erule old)
  then obtain d where d: "prune 3602000000000 ?c = Some (d, length (lru ?c))" "caches_list d = []"
    "\<forall>n t k an. cache_lookup d n t k = Some an \<longrightarrow> receivedAt an \<le> 0" by blast
  have lru: "lru ?c = [(0, 0)]" by (simp add: with_answer_def newCaches_def newAnswer_def Unix_def Let_def)
  let ?an = "(newAnswer 1000000000 NewMessage False)\<lparr>an_el := Some 0\<rparr>"
  have an: "receivedAt ?an = 1" by (simp add: newAnswer_def Unix_def)
  then have "cache_lookup d [] QueryTypeA QueryClassIN \<noteq> Some ?an" using d(3) by fastforce
  then show ?thesis using d(1,2) an lru
    by (intro exI [of _ d] exI [of _ ?an]) (simp add: one_answer_reached(2) caches_list_def)
qed

theorem prune_exact_witness:
  "\<exists>d m an. prune 3602000000000 (with_answer (newCaches 0 0) (newAnswer 1000000000 NewMessage False)) = Some (d, m) \<and>
     cache_lookup (with_answer (newCaches 0 0) (newAnswer 1000000000 NewMessage False)) [] QueryTypeA QueryClassIN = Some an \<and>
     receivedAt an > 0 \<and> cache_lookup d [] QueryTypeA QueryClassIN = None"
proof -
  let ?c = "with_answer (newCaches 0 0) (newAnswer 1000000000 NewMessage False)"
  obtain d where d: "prune 3602000000000 ?c = Some (d, 1)" using one_answer by blast
  have new: "cache_lookup (newCaches 0 0) n t k = None" for n t k by (simp add: cache_lookup_def newCaches_def)
  have "cache_message 1000000000 (newCaches 0 0) NewMessage False = Some (?c, True)"
    by (rule cache_message_new [OF cache_inv_new new])
  then have "fill_step (0, newCaches 0 0) (1000000000, ?c)" by (intro fill_message) simp_all
  then have s: "fill_step\<^sup>*\<^sup>* (0, newCaches 0 0) (1000000000, ?c)" by (rule r_into_rtranclp)
  define an where "an = (newAnswer 1000000000 NewMessage False)\<lparr>an_el := Some 0\<rparr>"
  have l: "cache_lookup ?c [] QueryTypeA QueryClassIN = Some an"
    using with_answer_lookup(1) [OF cache_inv_new [of 0 0], of "newAnswer 1000000000 NewMessage False"] new
    by (simp add: question_of_def NewMessage_def Unix_def an_def newCaches_def)
  have "cache_lookup d [] QueryTypeA QueryClassIN =
      (if receivedAt an > 0 \<and> accessedAt an \<le> expiry 3602000000000 ?c then None else Some an)"
    by (rule prune_exact [OF s d l])
  moreover have "receivedAt an > 0" "accessedAt an \<le> expiry 3602000000000 ?c"
    by (simp_all add: an_def Unix_def expiry_def with_answer_def newCaches_def minute_def hour_def Let_def)
  ultimately show ?thesis using d l by auto
qed

subsection \<open>Where the code departs from its documentation\<close>

lemmas cache_eval = cache_message_def alloc_def caches_upsert_def answers_upsert_def answer_update_def newAnswers_def
  push_lru_def newCaches_def

text \<open>
  Replacing the message of a cached answer refreshes its time but leaves it at its place in the
  list, so that the list is no longer in the order of use and pruning stops too early: when the first
  answer of the list is replaced, an answer behind it is kept however long ago it was used.
\<close>

theorem update_blocks_prune:
  assumes "message_question m1 \<noteq> message_question m2" "message_question m3 = message_question m1"
    "0 < Unix t1" "0 < Unix t2" "expiry now (newCaches delay threshold) < Unix t3"
  shows "\<exists>c an. run_store cache_op (newCaches delay threshold)
      [Put (t1, False) m1, Put (t2, False) m2, Put (t3, False) m3] = Some c \<and>
    prune now c = Some (c, 0) \<and> caches_list c = [0, 1] \<and> heap c 1 = Some an \<and> accessedAt an = Unix t2 \<and> an_msg an = Some m2"
  using assms
  by (cases "QName (Question m1) = QName (Question m2)"; cases "QType (Question m1) = QType (Question m2)")
    (auto simp: cache_eval message_question_def prune_def expiry_def caches_list_def)

text \<open>
  A local answer can be pruned, although the documentation says that it never is: a message from a
  hosts or zone file that is loaded for a question with a cached answer takes the place of that answer
  in the list, with no time of use, and the next prune removes it.
\<close>

theorem local_answer_pruned:
  assumes "message_question m2 = message_question m1" "0 < Unix t1" "0 \<le> expiry now (newCaches delay threshold)"
  shows "\<exists>c d an. run_store cache_op (newCaches delay threshold) [Put (t1, False) m1, Put (t2, True) m2] = Some c \<and>
    cache_map c (message_question m2) = Some m2 \<and> heap c 0 = Some an \<and> receivedAt an = 0 \<and>
    prune now c = Some (d, 1) \<and> cache_map d (message_question m2) = None"
  using assms
  by (auto simp: cache_eval message_question_def prune_def expiry_def cache_map_def cache_lookup_def matches_def
      caches_remove_def answers_remove_def idx_def upd_def subslice_def)

text \<open>The question of a new message, and a message with another question.\<close>

lemma question_examples: "message_question NewMessage \<noteq> message_question example_response"
  by (simp add: message_question_def NewMessage_def example_response_def)

theorem update_blocks_prune_witness:
  "\<exists>c an. run_store cache_op (newCaches 0 0)
      [Put (1000000000, False) NewMessage, Put (1000000000, False) example_response,
       Put (7200000000000, False) NewMessage] = Some c \<and>
    prune 7200000000000 c = Some (c, 0) \<and> caches_list c = [0, 1] \<and> heap c 1 = Some an \<and>
    accessedAt an = Unix 1000000000 \<and> an_msg an = Some example_response"
  by (rule update_blocks_prune [OF question_examples refl])
    (simp_all add: Unix_def expiry_def newCaches_def minute_def hour_def)

theorem local_answer_pruned_witness:
  "\<exists>c d an. run_store cache_op (newCaches 0 0) [Put (1000000000, False) NewMessage, Put (2000000000, True) NewMessage] = Some c \<and>
    cache_map c (message_question NewMessage) = Some NewMessage \<and> heap c 0 = Some an \<and> receivedAt an = 0 \<and>
    prune 7200000000000 c = Some (d, 1) \<and> cache_map d (message_question NewMessage) = None"
  by (rule local_answer_pruned [OF refl]) (simp_all add: Unix_def expiry_def newCaches_def minute_def hour_def)

end
