(* ===== verification/DnsTTL.thy ===== *)
theory DnsTTL
  imports DnsCaches
begin

section \<open>Time to live of cached records\<close>

text \<open>
  \<open>Message.SubTTL\<close> keeps the time to live in the records and in the packet equal: it writes the new
  value at the position that unpacking (or packing) remembered for each record. These lemmas show
  where those positions are, what \<open>SubTTL\<close> does to the records and to the packet, and what
  \<open>answer.updateTTL\<close> makes of it.
\<close>

subsection \<open>Subtracting from the records and from the packet\<close>

definition sub_ttl :: "u32 \<Rightarrow> ResourceRecord \<Rightarrow> ResourceRecord" where
  "sub_ttl n rr = rr\<lparr>TTL := (if TTL rr < n then 0 else TTL rr - n)\<rparr>"

definition sub_ttl_opt :: "u32 \<Rightarrow> ResourceRecord \<Rightarrow> ResourceRecord" where
  "sub_ttl_opt n rr = (if RType rr = QueryTypeOPT then rr else sub_ttl n rr)"

definition ttl_fits :: "ResourceRecord list \<Rightarrow> bytes \<Rightarrow> bool" where
  "ttl_fits rrs p \<longleftrightarrow> list_all (\<lambda>rr. offTTL rr + 4 \<le> length p) rrs"

lemma unat_sub_ttl: "unat (TTL (sub_ttl n rr)) = unat (TTL rr) - unat n"
  by (auto simp: sub_ttl_def unat_sub word_le_nat_alt word_less_nat_alt)

lemma sub_ttl_simps [simp]:
  "offTTL (sub_ttl n rr) = offTTL rr" "RType (sub_ttl n rr) = RType rr" "Name (sub_ttl n rr) = Name rr"
  "Class (sub_ttl n rr) = Class rr" "offTTL (sub_ttl_opt n rr) = offTTL rr"
  by (simp_all add: sub_ttl_def sub_ttl_opt_def)

text \<open>The bytes of a packet that hold the times to live of the records.\<close>

definition ttl_bytes :: "ResourceRecord list \<Rightarrow> nat set" where
  "ttl_bytes rrs = (\<Union>rr \<in> set rrs. {offTTL rr ..< offTTL rr + 4})"

definition ttl_apart :: "ResourceRecord list \<Rightarrow> bool" where
  "ttl_apart rrs \<longleftrightarrow> sorted_wrt (\<lambda>a b. offTTL a + 4 \<le> offTTL b) rrs"

lemma write_ttl:
  assumes "x + 4 \<le> length p"
  obtains q where "WriteUint32 p x v = Some q" "length q = length p" "ReadUint32 q x = Some v"
    "\<And>i. i \<notin> {x ..< x + 4} \<Longrightarrow> q ! i = p ! i"
proof
  show "WriteUint32 p x v = Some (take x p @ AppendUint32 [] v @ drop (x + 4) p)" by (rule WriteUint32_eq [OF assms])
  show "length (take x p @ AppendUint32 [] v @ drop (x + 4) p) = length p" using assms by simp
  show "ReadUint32 (take x p @ AppendUint32 [] v @ drop (x + 4) p) x = Some v"
    using assms by (intro uint32.rd_at [OF refl]) simp
  show "(take x p @ AppendUint32 [] v @ drop (x + 4) p) ! i = p ! i" if "i \<notin> {x ..< x + 4}" for i
    using nth_window [OF assms, of "AppendUint32 [] v" i] that by auto
qed

lemma ReadUint32_cong:
  "length q = length p \<Longrightarrow> (\<And>i. i \<in> {x ..< x + 4} \<Longrightarrow> q ! i = p ! i) \<Longrightarrow> ReadUint32 q x = ReadUint32 p x"
  by (simp add: ReadUint32_def idx_def)

definition step_ttl :: "bool \<Rightarrow> u32 \<Rightarrow> ResourceRecord \<Rightarrow> ResourceRecord" where
  "step_ttl skip n = (if skip then sub_ttl_opt n else sub_ttl n)"

lemma step_ttl_off [simp]: "offTTL (step_ttl skip n rr) = offTTL rr"
  by (simp add: step_ttl_def)

text \<open>The records that the loop changes, and those of a message.\<close>

definition ages :: "bool \<Rightarrow> ResourceRecord \<Rightarrow> bool" where
  "ages skip rr \<longleftrightarrow> \<not> (skip \<and> RType rr = QueryTypeOPT)"

lemma ages_sections: "ages False = (\<lambda>rr. True)" "ages True = (\<lambda>rr. RType rr \<noteq> QueryTypeOPT)"
  by (auto simp: ages_def)

definition aged :: "Message \<Rightarrow> ResourceRecord list" where
  "aged msg = Answer msg @ Authority msg @ filter (\<lambda>rr. RType rr \<noteq> QueryTypeOPT) (Additional msg)"

lemma aged_subset: "set (aged msg) \<subseteq> set (Answer msg @ Authority msg @ Additional msg)"
  by (auto simp: aged_def)

lemma apart_members:
  "ttl_apart rrs \<Longrightarrow> a \<in> set rrs \<Longrightarrow> b \<in> set rrs \<Longrightarrow> a \<noteq> b \<Longrightarrow> offTTL a + 4 \<le> offTTL b \<or> offTTL b + 4 \<le> offTTL a"
  by (induction rrs) (auto simp: ttl_apart_def)

lemma SubTTL_loop_ok:
  assumes "ttl_fits rrs p"
  shows "\<exists>q. SubTTL_loop skip n rrs p = Some (map (step_ttl skip n) rrs, q) \<and> length q = length p \<and>
    (\<forall>i. i \<notin> ttl_bytes (filter (ages skip) rrs) \<longrightarrow> q ! i = p ! i) \<and>
    (ttl_apart rrs \<longrightarrow> (\<forall>rr \<in> set rrs. skip \<and> RType rr = QueryTypeOPT \<or>
       ReadUint32 q (offTTL rr) = Some (TTL (step_ttl skip n rr))))"
  using assms
proof (induction rrs arbitrary: p)
  case (Cons rr rrs)
  show ?case
  proof (cases "skip \<and> RType rr = QueryTypeOPT")
    case True
    have "ttl_fits rrs p" using Cons.prems by (simp add: ttl_fits_def)
    from Cons.IH [OF this] obtain q where q: "SubTTL_loop skip n rrs p = Some (map (step_ttl skip n) rrs, q)" "length q = length p"
      "\<forall>i. i \<notin> ttl_bytes (filter (ages skip) rrs) \<longrightarrow> q ! i = p ! i" "ttl_apart rrs \<longrightarrow> (\<forall>rr \<in> set rrs. skip \<and> RType rr = QueryTypeOPT \<or>
       ReadUint32 q (offTTL rr) = Some (TTL (step_ttl skip n rr)))" by blast
    then show ?thesis using True
      by (intro exI [of _ q]) (auto simp: ttl_bytes_def ttl_apart_def step_ttl_def sub_ttl_opt_def ages_def)
  next
    case False
    have ages: "ages skip rr" using False by (simp add: ages_def)
    have s: "step_ttl skip n rr = sub_ttl n rr" using False by (auto simp: step_ttl_def sub_ttl_opt_def)
    have "offTTL rr + 4 \<le> length p" using Cons.prems by (simp add: ttl_fits_def)
    then obtain p1 where p1: "WriteUint32 p (offTTL rr) (TTL (sub_ttl n rr)) = Some p1" "length p1 = length p"
      "ReadUint32 p1 (offTTL rr) = Some (TTL (sub_ttl n rr))" "\<And>i. i \<notin> {offTTL rr ..< offTTL rr + 4} \<Longrightarrow> p1 ! i = p ! i"
      using write_ttl [of "offTTL rr" p "TTL (sub_ttl n rr)"] by blast
    have "ttl_fits rrs p1" using Cons.prems p1(2) by (simp add: ttl_fits_def)
    from Cons.IH [OF this] obtain q where q: "SubTTL_loop skip n rrs p1 = Some (map (step_ttl skip n) rrs, q)" "length q = length p1"
      "\<forall>i. i \<notin> ttl_bytes (filter (ages skip) rrs) \<longrightarrow> q ! i = p1 ! i" "ttl_apart rrs \<longrightarrow> (\<forall>rr \<in> set rrs. skip \<and> RType rr = QueryTypeOPT \<or>
       ReadUint32 q (offTTL rr) = Some (TTL (step_ttl skip n rr)))" by blast
    have run: "SubTTL_loop skip n (rr # rrs) p = Some (map (step_ttl skip n) (rr # rrs), q)"
      using False p1(1) q(1) s by (auto simp: sub_ttl_def Let_def)
    have rd: "ReadUint32 q (offTTL rr) = Some (TTL (step_ttl skip n rr))" if "ttl_apart (rr # rrs)"
    proof -
      have "i \<notin> ttl_bytes (filter (ages skip) rrs)" if "i \<in> {offTTL rr ..< offTTL rr + 4}" for i
        using that \<open>ttl_apart (rr # rrs)\<close> by (fastforce simp: ttl_bytes_def ttl_apart_def)
      then show ?thesis using ReadUint32_cong [OF q(2), of "offTTL rr"] q(3) p1(3) s by simp
    qed
    show ?thesis
      using run rd q(2,3,4) p1(2,4) ages
      by (intro exI [of _ q]) (auto simp: ttl_bytes_def ttl_apart_def)
  qed
qed (simp add: ttl_bytes_def)

lemma SubTTL_ok:
  assumes "ttl_fits (Answer msg @ Authority msg @ Additional msg) (Packet msg)"
    "ttl_apart (Answer msg @ Authority msg @ Additional msg)"
  shows "\<exists>q. SubTTL msg n = Some (msg\<lparr>Answer := map (sub_ttl n) (Answer msg), Authority := map (sub_ttl n) (Authority msg),
      Additional := map (sub_ttl_opt n) (Additional msg), Packet := q\<rparr>) \<and> length q = length (Packet msg) \<and>
    (\<forall>rr. unat (TTL (sub_ttl n rr)) = unat (TTL rr) - unat n) \<and>
    (\<forall>rr \<in> set (aged msg). ReadUint32 q (offTTL rr) = Some (TTL (sub_ttl n rr))) \<and>
    (\<forall>i. i \<notin> ttl_bytes (aged msg) \<longrightarrow> q ! i = Packet msg ! i)"
proof -
  let ?p = "Packet msg" and ?an = "Answer msg" and ?ns = "Authority msg" and ?ar = "Additional msg"
  have ap: "ttl_apart ?an" "ttl_apart ?ns" "ttl_apart ?ar"
    "\<And>a b. a \<in> set ?an \<Longrightarrow> b \<in> set ?ns \<union> set ?ar \<Longrightarrow> offTTL a + 4 \<le> offTTL b"
    "\<And>a b. a \<in> set ?ns \<Longrightarrow> b \<in> set ?ar \<Longrightarrow> offTTL a + 4 \<le> offTTL b"
    using assms(2) by (auto simp: ttl_apart_def sorted_wrt_append)
  have "ttl_fits ?an ?p" using assms(1) by (simp add: ttl_fits_def)
  from SubTTL_loop_ok [OF this, of False n] obtain p1 where
    p1: "SubTTL_loop False n ?an ?p = Some (map (sub_ttl n) ?an, p1)" "length p1 = length ?p"
      "\<And>i. i \<notin> ttl_bytes ?an \<Longrightarrow> p1 ! i = ?p ! i" "\<And>rr. rr \<in> set ?an \<Longrightarrow> ReadUint32 p1 (offTTL rr) = Some (TTL (sub_ttl n rr))"
    using ap(1) by (auto simp: step_ttl_def ages_sections)
  have "ttl_fits ?ns p1" using assms(1) p1(2) by (simp add: ttl_fits_def)
  from SubTTL_loop_ok [OF this, of False n] obtain p2 where
    p2: "SubTTL_loop False n ?ns p1 = Some (map (sub_ttl n) ?ns, p2)" "length p2 = length p1"
      "\<And>i. i \<notin> ttl_bytes ?ns \<Longrightarrow> p2 ! i = p1 ! i" "\<And>rr. rr \<in> set ?ns \<Longrightarrow> ReadUint32 p2 (offTTL rr) = Some (TTL (sub_ttl n rr))"
    using ap(2) by (auto simp: step_ttl_def ages_sections)
  have "ttl_fits ?ar p2" using assms(1) p1(2) p2(2) by (simp add: ttl_fits_def)
  from SubTTL_loop_ok [OF this, of True n] obtain p3 where
    p3: "SubTTL_loop True n ?ar p2 = Some (map (sub_ttl_opt n) ?ar, p3)" "length p3 = length p2"
      "\<And>i. i \<notin> ttl_bytes (filter (\<lambda>rr. RType rr \<noteq> QueryTypeOPT) ?ar) \<Longrightarrow> p3 ! i = p2 ! i"
      "\<forall>rr \<in> set ?ar. RType rr = QueryTypeOPT \<or> ReadUint32 p3 (offTTL rr) = Some (TTL (sub_ttl_opt n rr))"
    using ap(3) by (auto simp: step_ttl_def ages_sections)
  have ar: "ReadUint32 p3 (offTTL rr) = Some (TTL (sub_ttl n rr))" if "rr \<in> set ?ar" "RType rr \<noteq> QueryTypeOPT" for rr
    using bspec [OF p3(4) that(1)] that(2) by (simp add: sub_ttl_opt_def)
  have un: "i \<notin> ttl_bytes rrs" if "i \<in> {offTTL a ..< offTTL a + 4}" "\<And>b. b \<in> set rrs \<Longrightarrow> offTTL a + 4 \<le> offTTL b" for i a rrs
    using that by (fastforce simp: ttl_bytes_def)
  have "ReadUint32 p3 (offTTL rr) = Some (TTL (sub_ttl n rr))" if "rr \<in> set ?an" for rr
    using ReadUint32_cong [of p3 p1 "offTTL rr"] un [of _ rr ?ns] un [of _ rr "filter (\<lambda>rr. RType rr \<noteq> QueryTypeOPT) ?ar"] p1(4) [OF that] p2(2,3) p3(2,3) ap(4) [OF that] by simp
  moreover have "ReadUint32 p3 (offTTL rr) = Some (TTL (sub_ttl n rr))" if "rr \<in> set ?ns" for rr
    using ReadUint32_cong [of p3 p2 "offTTL rr"] un [of _ rr "filter (\<lambda>rr. RType rr \<noteq> QueryTypeOPT) ?ar"] p2(4) [OF that] p3(2,3) ap(5) [OF that] by simp
  moreover have "p3 ! i = ?p ! i" if "i \<notin> ttl_bytes (aged msg)" for i
    using that p1(3) p2(3) p3(3) by (auto simp: ttl_bytes_def aged_def)
  ultimately show ?thesis
    using p1(1,2) p2(1,2) p3(1,2) ar by (intro exI [of _ p3]) (auto simp: SubTTL_def unat_sub_ttl aged_def)
qed

text \<open>
  C36: Subtracting a time from the records of a message whose records have their places in the packet
  one after the other gives every record but the OPT records of the additional section the
  difference, or 0 when that is negative, and keeps the packet in step: at the place of each of
  these records the packet holds the new value, and no other byte changes; the OPT records, whose
  field holds flags and not a time, stay as they are in the message and in the packet.
\<close>

theorem SubTTL_spec:
  assumes "ttl_fits (Answer msg @ Authority msg @ Additional msg) (Packet msg)"
    "ttl_apart (Answer msg @ Authority msg @ Additional msg)"
  shows "\<exists>q. SubTTL msg n = Some (msg\<lparr>Answer := map (sub_ttl n) (Answer msg), Authority := map (sub_ttl n) (Authority msg),
      Additional := map (sub_ttl_opt n) (Additional msg), Packet := q\<rparr>) \<and> length q = length (Packet msg) \<and>
    (\<forall>rr. unat (TTL (sub_ttl n rr)) = unat (TTL rr) - unat n) \<and>
    (\<forall>rr \<in> set (aged msg). ReadUint32 q (offTTL rr) = Some (TTL (sub_ttl n rr))) \<and>
    (\<forall>i. i \<notin> ttl_bytes (aged msg) \<longrightarrow> q ! i = Packet msg ! i) \<and>
    (\<forall>rr \<in> set (Additional msg). RType rr = QueryTypeOPT \<longrightarrow>
      sub_ttl_opt n rr = rr \<and> (\<forall>i. offTTL rr \<le> i \<longrightarrow> i < offTTL rr + 4 \<longrightarrow> q ! i = Packet msg ! i))"
proof -
  from SubTTL_ok [OF assms, of n] obtain q where
    q: "SubTTL msg n = Some (msg\<lparr>Answer := map (sub_ttl n) (Answer msg), Authority := map (sub_ttl n) (Authority msg),
      Additional := map (sub_ttl_opt n) (Additional msg), Packet := q\<rparr>)" "length q = length (Packet msg)"
    "\<forall>rr. unat (TTL (sub_ttl n rr)) = unat (TTL rr) - unat n"
    "\<forall>rr \<in> set (aged msg). ReadUint32 q (offTTL rr) = Some (TTL (sub_ttl n rr))"
    "\<forall>i. i \<notin> ttl_bytes (aged msg) \<longrightarrow> q ! i = Packet msg ! i" by blast
  have "i \<notin> ttl_bytes (aged msg)" if rr: "rr \<in> set (Additional msg)" "RType rr = QueryTypeOPT" and
    i: "offTTL rr \<le> i" "i < offTTL rr + 4" and no: "\<forall>b \<in> set (Answer msg @ Authority msg). b \<noteq> rr" for rr i
  proof
    assume "i \<in> ttl_bytes (aged msg)"
    then obtain b where b: "b \<in> set (aged msg)" "offTTL b \<le> i" "i < offTTL b + 4" by (auto simp: ttl_bytes_def)
    then have "b \<noteq> rr" using rr no by (auto simp: aged_def)
    with apart_members [OF assms(2), of b rr] b i rr aged_subset [of msg] show False by auto
  qed
  moreover have "b \<noteq> rr" if "rr \<in> set (Additional msg)" "b \<in> set (Answer msg @ Authority msg)" for rr b
  proof -
    have "offTTL b + 4 \<le> offTTL rr" using assms(2) that unfolding ttl_apart_def sorted_wrt_append by auto
    then show ?thesis by auto
  qed
  ultimately show ?thesis using q by (intro exI [of _ q]) (auto simp: sub_ttl_opt_def)
qed

subsection \<open>The places that unpacking remembers\<close>

lemma unpack_label_length: "unpack_label k out p x = Some (out1, q) \<Longrightarrow> length q = length p"
proof (induction k arbitrary: out p x)
  case (Suc k)
  then obtain p1 c where "lower_at p x = Some (p1, c)" "unpack_label k (out @ [c]) p1 (x + 1) = Some (out1, q)"
    by (auto simp: bind_Some_conv)
  then show ?case using Suc.IH lower_at_length by metis
qed simp

lemma unpackDomainName_length:
  "unpackDomainName fuel o0 out p x = Some (o1, out1, q, e) \<Longrightarrow>
     length q = length p \<and> (if o0 = 0 then o1 = 0 \<or> x < o1 else o1 = o0)"
proof (induction fuel arbitrary: o0 out p x)
  case (Suc fuel)
  let ?c = "p ! x"
  let ?t = "unat (push_bit 8 (ucast (?c AND maskOffset)) OR ucast (p ! (x + 1)) :: u16)"
  consider "length p \<le> x \<or> ?c = 0 \<or> (?c AND maskPointer \<noteq> maskPointer \<and> ?c > maxLabelSize)"
    | "x < length p" "?c \<noteq> 0" "?c AND maskPointer = maskPointer"
    | "x < length p" "?c \<noteq> 0" "?c AND maskPointer \<noteq> maskPointer" "\<not> ?c > maxLabelSize" by fastforce
  then show ?case
  proof cases
    case 1
    then show ?thesis using Suc.prems by (auto simp: Let_def split: if_splits)
  next
    case 2
    then have "unpackDomainName fuel (if o0 = 0 then x + 1 else o0) out p ?t = Some (o1, out1, q, e)"
      using Suc.prems by (auto simp: Let_def bind_Some_conv)
    from Suc.IH [OF this] show ?thesis by (auto split: if_splits)
  next
    case 3
    then obtain out2 p2 where l: "unpack_label (unat ?c) (if out \<noteq> [] then out @ [46] else out) p (x + 1) = Some (out2, p2)"
      "unpackDomainName fuel o0 out2 p2 (x + 1 + unat ?c) = Some (o1, out1, q, e)"
      using Suc.prems by (auto simp: Let_def bind_Some_conv)
    from Suc.IH [OF l(2)] unpack_label_length [OF l(1)] show ?thesis by (auto split: if_splits)
  qed
qed simp

lemma unpackName_length:
  assumes "unpackName rr out p x = Some (rr1, out1, q, e)"
  shows "length q = length p" "TTL rr1 = TTL rr" "offTTL rr1 = offTTL rr" "rdata rr1 = rdata rr"
    "rr_off rr = 0 \<Longrightarrow> rr_off rr1 = 0 \<or> x < rr_off rr1"
proof -
  from assms obtain o1 where u: "unpackDomainName (name_fuel p) (rr_off rr) out p x = Some (o1, out1, q, e)"
    "rr1 = rr\<lparr>rr_off := o1\<rparr>" unfolding unpackName_def by (auto simp: bind_Some_conv)
  show "length q = length p" "TTL rr1 = TTL rr" "offTTL rr1 = offTTL rr" "rdata rr1 = rdata rr"
    using unpackDomainName_length [OF u(1)] u(2) by simp_all
  show "rr_off rr1 = 0 \<or> x < rr_off rr1" if "rr_off rr = 0" using unpackDomainName_length [OF u(1)] u(2) that by simp
qed

text \<open>Reading record data keeps the length of the packet and the place of the time to live.\<close>

definition keeps_ttl :: "ResourceRecord \<Rightarrow> bytes \<Rightarrow> rr_result \<Rightarrow> bool" where
  "keeps_ttl rr p r \<longleftrightarrow> (\<forall>u q e. r = Some (u, q, e) \<longrightarrow> length q = length p \<and> TTL u = TTL rr \<and> offTTL u = offTTL rr)"

lemma keeps_ttl_pure: "TTL u = TTL rr \<Longrightarrow> offTTL u = offTTL rr \<Longrightarrow> keeps_ttl rr p (Some (u, p, e))"
  by (simp add: keeps_ttl_def)

lemma keeps_ttl_bind: "(\<And>a. x = Some a \<Longrightarrow> keeps_ttl rr p (f a)) \<Longrightarrow> keeps_ttl rr p (Option.bind x f)"
  by (cases x) (auto simp: keeps_ttl_def)

lemma keeps_ttl_some: "TTL u = TTL rr \<Longrightarrow> offTTL u = offTTL rr \<Longrightarrow> length q = length p \<Longrightarrow> keeps_ttl rr p (Some (u, q, e))"
  by (simp add: keeps_ttl_def)

lemma after_name_ttl: "TTL (fst (after_name rr n x)) = TTL rr" "offTTL (fst (after_name rr n x)) = offTTL rr"
  by (simp_all add: after_name_def)

lemma keeps_ttl_name:
  assumes "TTL r0 = TTL rr" "offTTL r0 = offTTL rr" "length p0 = length p"
    "\<And>r1 out q e. TTL r1 = TTL rr \<Longrightarrow> offTTL r1 = offTTL rr \<Longrightarrow> length q = length p \<Longrightarrow> keeps_ttl rr p (f (r1, out, q, e))"
  shows "keeps_ttl rr p (Option.bind (unpackName r0 out0 p0 x) f)"
proof (rule keeps_ttl_bind)
  fix a assume a: "unpackName r0 out0 p0 x = Some a"
  obtain r1 out q e where r: "a = (r1, out, q, e)" by (cases a) auto
  show "keeps_ttl rr p (f a)"
    using unpackName_length(1-3) [OF a [unfolded r]] assms unfolding r by simp
qed

lemma keeps_ttl_if: "(b \<Longrightarrow> keeps_ttl rr p x) \<Longrightarrow> (\<not> b \<Longrightarrow> keeps_ttl rr p y) \<Longrightarrow> keeps_ttl rr p (if b then x else y)"
  by simp

lemmas keeps_rules = keeps_ttl_if keeps_ttl_name keeps_ttl_some keeps_ttl_bind

text \<open>The readers of the types of record data.\<close>

lemma keeps_unpack:
  "keeps_ttl rr p (unpackText rr p x)" "keeps_ttl rr p (unpackMX rr p x)" "keeps_ttl rr p (unpackSRV rr p x)"
  "keeps_ttl rr p (unpackOPT rr p x)" "keeps_ttl rr p (unpackMInfo rr p x)" "keeps_ttl rr p (unpackSOA rr p x)"
  unfolding unpackText_def unpackMX_def unpackSRV_def unpackOPT_def unpackMInfo_def unpackSOA_def Let_def split_beta
  by (intro keeps_rules; simp add: after_name_ttl)+

lemma keeps_unpackRData: "keeps_ttl rr p (unpackRData rr p x)"
  unfolding unpackRData_def Let_def split_beta
  by (intro keeps_unpack keeps_rules; simp add: unpackA_def unpackAAAA_def)

lemma rr_unpack_ttl:
  assumes "rr_unpack NewResourceRecord p s = Some (u, q, y, None)"
  shows "length q = length p" "s + 4 \<le> offTTL u" "offTTL u + 4 \<le> y" "y \<le> length p"
proof -
  from assms obtain rr1 nm p1 where
    n: "unpackName NewResourceRecord (Name NewResourceRecord) p s = Some (rr1, nm, p1, None)"
    unfolding rr_unpack_def by (auto simp: bind_Some_conv Let_def split: if_splits)
  have n2: "length p1 = length p" "rr_off rr1 = 0 \<or> s < rr_off rr1"
    using unpackName_length(1,5) [OF n] by (simp_all add: NewResourceRecord_def)
  obtain x where x: "(if rr_off rr1 > 0 then rr_off rr1 + 1 else if length nm = 0 then s + 1 else s + length nm + 2) = x"
    "s < x" using n2(2) by fastforce
  have "\<exists>t c ttl rl d. unpackRData (rr1\<lparr>Name := nm, RType := t, Class := c, offTTL := x + 4, TTL := ttl, rdlen := rl,
        rdata := rdata rr1 @ d\<rparr>) p1 (x + 10) = Some (u, q, None) \<and> y = x + 10 + unat rl \<and>
      subslice p1 (x + 10) (x + 10 + unat rl) = Some d"
    using assms x(1) unfolding rr_unpack_def n
    by (simp add: bind_Some_conv Let_def del: length_0_conv add_2_eq_Suc add_2_eq_Suc' cong: if_cong split del: if_split) blast
  then obtain t c ttl rl d where e: "unpackRData (rr1\<lparr>Name := nm, RType := t, Class := c, offTTL := x + 4, TTL := ttl,
      rdlen := rl, rdata := rdata rr1 @ d\<rparr>) p1 (x + 10) = Some (u, q, None)" "y = x + 10 + unat rl"
    "subslice p1 (x + 10) (x + 10 + unat rl) = Some d" by blast
  have l: "x + 10 + unat rl \<le> length p1" using subslice_Some_length [OF e(3)] by simp
  have "length q = length p1" "offTTL u = x + 4" using keeps_unpackRData e(1) unfolding keeps_ttl_def by fastforce+
  then show "length q = length p" "s + 4 \<le> offTTL u" "offTTL u + 4 \<le> y" "y \<le> length p"
    using n2(1) x(2) e(2) l by simp_all
qed

lemma Unpack_RRs_ttl:
  assumes "Unpack_RRs k acc p s = Some (rrs, q, y, None)"
  shows "\<exists>us. rrs = acc @ us \<and> length q = length p \<and> s \<le> y \<and> ttl_apart us \<and>
    (\<forall>u \<in> set us. s + 4 \<le> offTTL u \<and> offTTL u + 4 \<le> y \<and> offTTL u + 4 \<le> length p)"
  using assms
proof (induction k arbitrary: acc p s)
  case (Suc k)
  then obtain u p1 s1 where u: "rr_unpack NewResourceRecord p s = Some (u, p1, s1, None)"
    "Unpack_RRs k (acc @ [u]) p1 s1 = Some (rrs, q, y, None)"
    by (auto simp: bind_Some_conv split: if_splits)
  from Suc.IH [OF u(2)] obtain us where us: "rrs = (acc @ [u]) @ us" "length q = length p1" "s1 \<le> y" "ttl_apart us"
    "\<forall>u \<in> set us. s1 + 4 \<le> offTTL u \<and> offTTL u + 4 \<le> y \<and> offTTL u + 4 \<le> length p1" by blast
  show ?case
    using us rr_unpack_ttl [OF u(1)] by (intro exI [of _ "u # us"]) (force simp: ttl_apart_def)
qed (simp add: ttl_apart_def)

lemma message_Unpack_ttl:
  assumes "message_Unpack r = Some (u, None)" "Answer r = []" "Authority r = []" "Additional r = []"
  shows "ttl_fits (Answer u @ Authority u @ Additional u) (Packet u) \<and> ttl_apart (Answer u @ Authority u @ Additional u) \<and>
    (\<forall>rr \<in> set (Answer u @ Authority u @ Additional u). 12 \<le> offTTL rr)"
proof -
  from assms(1) obtain m1 where m1: "UnpackHeaderQuestion r = Some (m1, None)"
    by (auto simp: message_Unpack_def bind_Some_conv Let_def split: if_splits)
  have e: "Answer m1 = []" "Authority m1 = []" "Additional m1 = []"
    using m1 assms(2-4) by (auto simp: UnpackHeaderQuestion_def bind_Some_conv Let_def split: if_splits)
  let ?s = "sectionHeaderSize + question_size (Question m1)"
  obtain an p1 s1 where a: "Unpack_RRs (unat (ANCount (Header m1))) [] (Packet m1) ?s = Some (an, p1, s1, None)"
    using assms(1) m1 e by (auto simp: message_Unpack_def bind_Some_conv Let_def split: if_splits)
  obtain ns p2 s2 where b: "Unpack_RRs (unat (NSCount (Header m1))) [] p1 s1 = Some (ns, p2, s2, None)"
    using assms(1) m1 a e by (auto simp: message_Unpack_def bind_Some_conv Let_def split: if_splits)
  obtain ar p3 s3 where c: "Unpack_RRs (unat (ARCount (Header m1))) [] p2 s2 = Some (ar, p3, s3, None)"
    and u: "u = m1\<lparr>Answer := an, Authority := ns, Additional := ar, Packet := p3\<rparr>"
    using assms(1) m1 a b e by (cases m1) (auto simp: message_Unpack_def bind_Some_conv Let_def split: if_splits)
  note t = Unpack_RRs_ttl [OF a] Unpack_RRs_ttl [OF b] Unpack_RRs_ttl [OF c]
  have "ttl_apart (an @ ns @ ar)"
    using t by (fastforce simp: ttl_apart_def sorted_wrt_append)
  moreover have "ttl_fits (an @ ns @ ar) p3"
    using t by (fastforce simp: ttl_fits_def list_all_iff)
  moreover have "\<forall>rr \<in> set (an @ ns @ ar). 12 \<le> offTTL rr"
    using t by (fastforce simp: sectionHeaderSize_def)
  ultimately show ?thesis by (simp add: u)
qed

text \<open>
  C39: The server can age every message that it received: for every packet that unpacks without an
  error, the places that unpacking remembered lie inside the packet and do not overlap, so that
  subtracting any time does not panic and keeps the length of the packet, and the reduced times are
  what a reader of the packet finds.
\<close>

theorem unpacked_can_age:
  assumes "message_Unpack ((message_Reset r)\<lparr>Packet := packet\<rparr>) = Some (u, None)"
  shows "\<exists>v. SubTTL u n = Some v \<and> length (Packet v) = length (Packet u) \<and>
    (\<forall>rr \<in> set (Answer v @ Authority v). ReadUint32 (Packet v) (offTTL rr) = Some (TTL rr)) \<and>
    map (\<lambda>rr. unat (TTL rr)) (Answer v) = map (\<lambda>rr. unat (TTL rr) - unat n) (Answer u)"
proof -
  have f: "ttl_fits (Answer u @ Authority u @ Additional u) (Packet u)" "ttl_apart (Answer u @ Authority u @ Additional u)"
    using message_Unpack_ttl [OF assms] by (simp_all add: message_Reset_def ResetRR_def)
  from SubTTL_ok [OF f, of n] obtain q where
    q: "SubTTL u n = Some (u\<lparr>Answer := map (sub_ttl n) (Answer u), Authority := map (sub_ttl n) (Authority u),
      Additional := map (sub_ttl_opt n) (Additional u), Packet := q\<rparr>)" "length q = length (Packet u)"
    "\<forall>rr \<in> set (aged u). ReadUint32 q (offTTL rr) = Some (TTL (sub_ttl n rr))" by blast
  then have "\<forall>rr \<in> set (Answer u @ Authority u). ReadUint32 q (offTTL rr) = Some (TTL (sub_ttl n rr))" by (auto simp: aged_def)
  with q show ?thesis by (auto simp: unat_sub_ttl)
qed

text \<open>A received message with a record whose time to live is 60.\<close>

lemma example_unpacks:
  "\<exists>packet u. message_Unpack ((message_Reset NewMessage)\<lparr>Packet := packet\<rparr>) = Some (u, None) \<and>
     map (\<lambda>rr. unat (TTL rr)) (Answer u) = [60]"
proof -
  from message_wire [OF example_response_wf, of NewMessage] obtain msg1 packet u where
    u: "message_Unpack ((message_Reset NewMessage)\<lparr>Packet := packet\<rparr>) = Some (u, None)"
      "list_all2 (\<lambda>rr. same_rr (lower_rr rr)) (Answer example_response) (Answer u)" by blast
  from u(2) obtain rr where "Answer u = [rr]" "TTL rr = 60"
    by (auto simp: example_response_def list_all2_Cons1 same_rr_def lower_rr_def)
  with u(1) show ?thesis by (intro exI [of _ packet] exI [of _ u]) simp
qed

theorem unpacked_can_age_witness:
  "\<exists>packet u v. message_Unpack ((message_Reset NewMessage)\<lparr>Packet := packet\<rparr>) = Some (u, None) \<and>
    map (\<lambda>rr. unat (TTL rr)) (Answer u) = [60] \<and> SubTTL u 25 = Some v \<and> map (\<lambda>rr. unat (TTL rr)) (Answer v) = [35]"
proof -
  obtain packet u where u: "message_Unpack ((message_Reset NewMessage)\<lparr>Packet := packet\<rparr>) = Some (u, None)"
    "map (\<lambda>rr. unat (TTL rr)) (Answer u) = [60]" using example_unpacks by metis
  from unpacked_can_age [OF u(1), of 25] obtain v where
    v: "SubTTL u 25 = Some v" "map (\<lambda>rr. unat (TTL rr)) (Answer v) = map (\<lambda>rr. unat (TTL rr) - unat (25 :: u32)) (Answer u)" by blast
  from u(2) obtain rr where "Answer u = [rr]" "unat (TTL rr) = 60" by (cases "Answer u") auto
  then show ?thesis using u v by (intro exI [of _ packet] exI [of _ u] exI [of _ v]) simp
qed

text \<open>A record whose time to live is 60, and an OPT record with a flag.\<close>

definition example_ttl :: Message where
  "example_ttl = NewMessage\<lparr>Answer := [NewResourceRecord\<lparr>TTL := 60, offTTL := 1\<rparr>],
     Additional := [NewResourceRecord\<lparr>RType := QueryTypeOPT, TTL := 0x8000, offTTL := 5\<rparr>],
     Packet := [9, 0, 0, 0, 60, 0, 0, 0x80, 0]\<rparr>"

lemma example_ttl_ok:
  "ttl_fits (Answer example_ttl @ Authority example_ttl @ Additional example_ttl) (Packet example_ttl)"
  "ttl_apart (Answer example_ttl @ Authority example_ttl @ Additional example_ttl)"
  by (simp_all add: example_ttl_def ttl_fits_def ttl_apart_def NewMessage_def)

theorem SubTTL_spec_witness:
  "\<exists>q. SubTTL example_ttl 25 = Some (example_ttl\<lparr>Answer := [NewResourceRecord\<lparr>TTL := 35, offTTL := 1\<rparr>], Packet := q\<rparr>) \<and>
     length q = 9 \<and> ReadUint32 q 1 = Some 35 \<and> q ! 0 = 9 \<and> q ! 7 = 0x80"
proof -
  let ?e = example_ttl
  from SubTTL_spec [OF example_ttl_ok, of 25] obtain q where
    q: "SubTTL ?e 25 = Some (?e\<lparr>Answer := map (sub_ttl 25) (Answer ?e), Authority := map (sub_ttl 25) (Authority ?e),
        Additional := map (sub_ttl_opt 25) (Additional ?e), Packet := q\<rparr>)" "length q = length (Packet ?e)"
      "\<forall>rr \<in> set (aged ?e). ReadUint32 q (offTTL rr) = Some (TTL (sub_ttl 25 rr))"
      "\<forall>i. i \<notin> ttl_bytes (aged ?e) \<longrightarrow> q ! i = Packet ?e ! i"
    by blast
  have "q ! 0 = 9" "q ! 7 = 0x80"
    using spec [OF q(4), of 0] spec [OF q(4), of 7] by (simp_all add: example_ttl_def ttl_bytes_def aged_def NewMessage_def)
  then show ?thesis
    using q(1-3) by (intro exI [of _ q]) (simp add: example_ttl_def aged_def sub_ttl_def sub_ttl_opt_def NewMessage_def)
qed

subsection \<open>Ageing an answer\<close>

lemma ttl_fits_map [simp]: "(\<And>rr. offTTL (f rr) = offTTL rr) \<Longrightarrow> ttl_fits (map f rrs) p = ttl_fits rrs p"
  by (simp add: ttl_fits_def list_all_iff)

lemma ttl_apart_map: "ttl_apart (map (sub_ttl n) a @ map (sub_ttl n) b @ map (sub_ttl_opt n) c) = ttl_apart (a @ b @ c)"
  by (simp add: ttl_apart_def sorted_wrt_append sorted_wrt_map ball_Un)

definition can_age :: "Message \<Rightarrow> bool" where
  "can_age m \<longleftrightarrow> ttl_fits (Answer m @ Authority m @ Additional m) (Packet m) \<and> ttl_apart (Answer m @ Authority m @ Additional m)"

lemma updateTTL_ok:
  assumes "an_msg an = Some m" "can_age m" "0 < receivedAt an" "receivedAt an \<le> Unix now" "Unix now - receivedAt an < 2 ^ 32"
  shows "\<exists>m1. updateTTL now an = Some (an\<lparr>accessedAt := Unix now, an_msg := Some m1\<rparr>) \<and> can_age m1 \<and>
    map (\<lambda>rr. unat (TTL rr)) (Answer m1) = map (\<lambda>rr. unat (TTL rr) - nat (Unix now - receivedAt an)) (Answer m)"
proof -
  define n :: u32 where "n = word_of_int (Unix now - receivedAt an)"
  have n: "unat n = nat (Unix now - receivedAt an)"
    using assms(4,5) unfolding n_def unat_eq_nat_uint uint_word_of_int_eq by (subst take_bit_int_eq_self) simp_all
  from SubTTL_ok [of m n] assms(2) obtain q where
    q: "SubTTL m n = Some (m\<lparr>Answer := map (sub_ttl n) (Answer m), Authority := map (sub_ttl n) (Authority m),
      Additional := map (sub_ttl_opt n) (Additional m), Packet := q\<rparr>)" "length q = length (Packet m)"
    unfolding can_age_def by blast
  have "can_age (m\<lparr>Answer := map (sub_ttl n) (Answer m), Authority := map (sub_ttl n) (Authority m),
      Additional := map (sub_ttl_opt n) (Additional m), Packet := q\<rparr>)"
    using assms(2) q(2) by (simp add: can_age_def ttl_apart_map) (simp add: ttl_fits_def list_all_iff ball_Un)
  moreover have "word_of_int (Unix now) - word_of_int (receivedAt an) = n" by (simp add: n_def)
  ultimately show ?thesis
    using q(1) assms(1,3) n
    by (intro exI [of _ "m\<lparr>Answer := map (sub_ttl n) (Answer m), Authority := map (sub_ttl n) (Authority m),
        Additional := map (sub_ttl_opt n) (Additional m), Packet := q\<rparr>"]) (simp add: updateTTL_def unat_sub_ttl)
qed

text \<open>
  An answer ages too fast: \<open>updateTTL\<close> subtracts the whole time since the answer was received from
  the times that an earlier \<open>updateTTL\<close> already reduced, so that after two requests, at \<open>t1\<close> and
  \<open>t2\<close>, the records have lost the sum of both ages and not the age at \<open>t2\<close>.
\<close>

theorem ttl_subtracted_twice:
  assumes "an_msg an = Some m" "can_age m" "0 < receivedAt an" "receivedAt an \<le> Unix t1" "Unix t1 \<le> Unix t2"
    "Unix t2 - receivedAt an < 2 ^ 32"
  shows "\<exists>an1 an2 m2. updateTTL t1 an = Some an1 \<and> updateTTL t2 an1 = Some an2 \<and> an_msg an2 = Some m2 \<and>
    map (\<lambda>rr. unat (TTL rr)) (Answer m2) =
    map (\<lambda>rr. unat (TTL rr) - (nat (Unix t1 - receivedAt an) + nat (Unix t2 - receivedAt an))) (Answer m)"
proof -
  have "Unix t1 - receivedAt an < 2 ^ 32" using assms(5,6) by simp
  from updateTTL_ok [OF assms(1-4) this] obtain m1 where
    m1: "updateTTL t1 an = Some (an\<lparr>accessedAt := Unix t1, an_msg := Some m1\<rparr>)" "can_age m1"
      "map (\<lambda>rr. unat (TTL rr)) (Answer m1) = map (\<lambda>rr. unat (TTL rr) - nat (Unix t1 - receivedAt an)) (Answer m)" by blast
  let ?an = "an\<lparr>accessedAt := Unix t1, an_msg := Some m1\<rparr>"
  have h: "an_msg ?an = Some m1" "0 < receivedAt ?an" "receivedAt ?an \<le> Unix t2" "Unix t2 - receivedAt ?an < 2 ^ 32"
    using assms by simp_all
  from updateTTL_ok [OF h(1) m1(2) h(2-4)] obtain m2 where
    m2: "updateTTL t2 ?an = Some (?an\<lparr>accessedAt := Unix t2, an_msg := Some m2\<rparr>)"
      "map (\<lambda>rr. unat (TTL rr)) (Answer m2) = map (\<lambda>rr. unat (TTL rr) - nat (Unix t2 - receivedAt an)) (Answer m1)" by auto
  have "map (\<lambda>x. x - nat (Unix t2 - receivedAt an)) (map (\<lambda>rr. unat (TTL rr)) (Answer m1)) =
      map (\<lambda>x. x - nat (Unix t2 - receivedAt an)) (map (\<lambda>rr. unat (TTL rr) - nat (Unix t1 - receivedAt an)) (Answer m))"
    using m1(3) by simp
  then show ?thesis using m1(1) m2 by (auto simp: comp_def diff_diff_left)
qed

theorem ttl_subtracted_twice_witness:
  "\<exists>an1 an2 m2. updateTTL 11000000000 (newAnswer 1000000000 example_ttl False) = Some an1 \<and>
    updateTTL 21000000000 an1 = Some an2 \<and> an_msg an2 = Some m2 \<and> map (\<lambda>rr. unat (TTL rr)) (Answer m2) = [30]"
  using ttl_subtracted_twice [of "newAnswer 1000000000 example_ttl False" example_ttl 11000000000 21000000000] example_ttl_ok
  by (auto simp: can_age_def Unix_def) (simp add: example_ttl_def)

end
