(* ===== verification/DnsServer.thy ===== *)
theory DnsServer
  imports DnsCacheProps DnsTTL
begin

section \<open>The DNS server (lib/dns/server.go, request.go)\<close>

text \<open>
  The server between its sockets: how it answers a request from the cache or passes it to the
  forwarders, what it does with a response, and how the forwarders run. A connection is a number; what
  is written to it is appended to \<open>out\<close>; an error of \<open>Write\<close> is only logged, except by
  \<open>processResponse\<close>, which has its success as an argument. A channel is a queue; where the code waits
  because a queue is full, the model's step is the one it takes in the end. The sockets, the clients that query other servers and the files are inputs: a step receives
  the request or the response that they delivered.
\<close>

record request =
  message :: Message
  writer :: nat

record Server =
  caches :: caches
  primaryq :: "request list"
  fallbackq :: "request list option"
  fwn :: int
  out :: "(nat \<times> bytes) list"

definition QueryClassCS :: u16 where "QueryClassCS = 2"
definition QueryClassCH :: u16 where "QueryClassCH = 3"
definition QueryClassHS :: u16 where "QueryClassHS = 4"
definition QueryTypeAXFR :: u16 where "QueryTypeAXFR = 252"
definition QueryTypeMAILB :: u16 where "QueryTypeMAILB = 253"
definition QueryTypeMAILA :: u16 where "QueryTypeMAILA = 254"
definition RCodeErrServer :: byte where "RCodeErrServer = 2"
definition RCodeNotImplemented :: byte where "RCodeNotImplemented = 4"

definition newRequest :: "nat \<Rightarrow> request" where
  "newRequest w = \<lparr>message = NewMessage, writer = w\<rparr>"

definition srv_write :: "Server \<Rightarrow> nat \<Rightarrow> bytes \<Rightarrow> Server" where
  "srv_write srv w p = srv\<lparr>out := out srv @ [(w, p)]\<rparr>"

text \<open>\<open>request.error\<close> changes the message of the request and writes it back.\<close>

definition request_error :: "Server \<Rightarrow> request \<Rightarrow> byte \<Rightarrow> Server" where
  "request_error srv req rcode =
     (let msg = SetQuery (message req) False;
          msg = SetResponseCode msg rcode
      in srv_write srv (writer req) (Packet msg))"

definition isResponseValid :: "request \<Rightarrow> Message \<Rightarrow> bool" where
  "isResponseValid req res =
     (if QName (Question (message req)) \<noteq> QName (Question res) then False
      else if QType (Question (message req)) \<noteq> QType (Question res) then False
      else if QClass (Question (message req)) \<noteq> QClass (Question res) then False
      else True)"

text \<open>\<open>populateCaches\<close> returns how many messages were inserted.\<close>

fun populateCaches :: "int \<Rightarrow> Server \<Rightarrow> Message list \<Rightarrow> nat \<Rightarrow> (Server \<times> nat) option" where
  "populateCaches now srv [] n = Some (srv, n)"
| "populateCaches now srv (msg # msgs) n = do {
     (c, inserted) \<leftarrow> cache_message now (caches srv) msg True;
     populateCaches now (srv\<lparr>caches := c\<rparr>) msgs (if inserted then n + 1 else n) }"

definition hasForwarders :: "Server \<Rightarrow> bool" where
  "hasForwarders srv = (fwn srv > 0)"

definition decForwarder :: "Server \<Rightarrow> Server" where
  "decForwarder srv =
     (let srv = srv\<lparr>fwn := fwn srv - 1\<rparr> in if fwn srv \<le> 0 then srv\<lparr>fwn := 0\<rparr> else srv)"

definition incForwarder :: "Server \<Rightarrow> Server" where
  "incForwarder srv = srv\<lparr>fwn := fwn srv + 1\<rparr>"

definition isImplemented :: "Message \<Rightarrow> bool" where
  "isImplemented msg =
     (let k = QClass (Question msg); t = QType (Question msg) in
      if k = QueryClassCS \<or> k = QueryClassCH \<or> k = QueryClassHS then False
      else if t \<ge> QueryTypeA \<and> t \<le> QueryTypeTXT then True
      else if t = QueryTypeAAAA \<or> t = QueryTypeSRV \<or> t = QueryTypeOPT \<or> t = QueryTypeAXFR \<or>
        t = QueryTypeMAILB \<or> t = QueryTypeMAILA then True
      else False)"

text \<open>The \<open>switch\<close> for a request that the cache cannot answer.\<close>

definition forward :: "Server \<Rightarrow> request \<Rightarrow> Server" where
  "forward srv req =
     (if hasForwarders srv then srv\<lparr>primaryq := primaryq srv @ [req]\<rparr>
      else case fallbackq srv of
        Some q \<Rightarrow> srv\<lparr>fallbackq := Some (q @ [req])\<rparr>
      | None \<Rightarrow> request_error srv req RCodeErrServer)"

text \<open>
  The body of the loop of \<open>processRequest\<close> in two parts: \<open>caches.get\<close>, which holds the lock of the cache, and what follows it,
  which uses the answer that it returned without the lock. The message of the answer is \<open>nil\<close> when
  \<open>prune\<close> cleared it in between; \<open>processRequest\<close> is the run in which nothing comes in between.
\<close>

definition request_get :: "int \<Rightarrow> Server \<Rightarrow> request \<Rightarrow> (Server \<times> nat option) option" where
  "request_get now srv req = do {
     (c, ans, an) \<leftarrow> caches_get now (caches srv) (QName (Question (message req)))
       (QType (Question (message req))) (QClass (Question (message req)));
     Some (srv\<lparr>caches := c\<rparr>, if ans = None then None else an) }"

definition request_answer :: "int \<Rightarrow> Server \<Rightarrow> request \<Rightarrow> nat option \<Rightarrow> Server option" where
  "request_answer now srv req an =
     (case an of
        None \<Rightarrow> Some (forward srv req)
      | Some a \<Rightarrow> do {
          an \<leftarrow> heap (caches srv) a;
          msg \<leftarrow> an_msg an;
          if IsExpired msg then Some (forward srv req)
          else do {
            msg \<leftarrow> SetID msg (ID (Header (message req)));
            an \<leftarrow> updateTTL now (an\<lparr>an_msg := Some msg\<rparr>);
            res \<leftarrow> an_msg an;
            let srv = srv\<lparr>caches := (caches srv)\<lparr>heap := (heap (caches srv))(a \<mapsto> an)\<rparr>\<rparr>;
            Some (srv_write srv (writer req) (Packet res)) } })"

definition processRequest :: "int \<Rightarrow> Server \<Rightarrow> request \<Rightarrow> Server option" where
  "processRequest now srv req =
     (if \<not> isImplemented (message req) then Some (request_error srv req RCodeNotImplemented)
      else do {
        (srv, an) \<leftarrow> request_get now srv req;
        request_answer now srv req an })"

definition processResponse :: "int \<Rightarrow> bool \<Rightarrow> Server \<Rightarrow> request \<Rightarrow> Message \<Rightarrow> Server option" where
  "processResponse now written srv req res =
     (if \<not> isResponseValid req res then Some (request_error srv req RCodeErrServer)
      else do {
        let srv = srv_write srv (writer req) (Packet res);
        if \<not> written then Some srv
        else if RCode (Header res) \<noteq> 0 then Some srv
        else do {
          (c, inserted) \<leftarrow> cache_message now (caches srv) res False;
          Some (srv\<lparr>caches := c\<rparr>) } })"

subsection \<open>Messages and answers that can be aged\<close>

definition received :: "Message \<Rightarrow> bool" where
  "received m \<longleftrightarrow> can_age m \<and> (\<forall>rr \<in> set (Answer m @ Authority m @ Additional m). 12 \<le> offTTL rr)"

lemma message_Unpack_received:
  "message_Unpack r = Some (u, None) \<Longrightarrow> Answer r = [] \<Longrightarrow> Authority r = [] \<Longrightarrow> Additional r = [] \<Longrightarrow> received u"
  using message_Unpack_ttl by (simp add: received_def can_age_def)

definition answer_ok :: "answer \<Rightarrow> bool" where
  "answer_ok an \<longleftrightarrow> receivedAt an \<ge> 0 \<and> (receivedAt an \<noteq> 0 \<longrightarrow> (\<forall>m. an_msg an = Some m \<longrightarrow> received m))"

definition srv_inv :: "Server \<Rightarrow> bool" where
  "srv_inv srv \<longleftrightarrow> cache_inv (caches srv) \<and> (\<forall>n t k an. cache_lookup (caches srv) n t k = Some an \<longrightarrow> answer_ok an)"

lemma SetID_ok:
  "\<exists>m1. SetID m i = Some m1 \<and> length (Packet m1) = length (Packet m) \<and> Answer m1 = Answer m \<and> Authority m1 = Authority m \<and>
     Additional m1 = Additional m \<and> Question m1 = Question m \<and>
     (length (Packet m) > 2 \<longrightarrow> ReadUint16 (Packet m1) 0 = Some i) \<and> (\<forall>j \<ge> 2. Packet m1 ! j = Packet m ! j)"
proof (cases "length (Packet m) > 2")
  case True
  then obtain a b c p where p: "Packet m = a # b # c # p"
    by (cases "Packet m"; cases "tl (Packet m)"; cases "tl (tl (Packet m))") auto
  have "WriteUint16 (Packet m) 0 i = Some (AppendUint16 [] i @ c # p)"
    by (simp add: p WriteUint16_def AppendUint16_def upd_def)
  moreover have "ReadUint16 (AppendUint16 [] i @ c # p) 0 = Some i" by (rule uint16.rd_at [where data = "[]"]) simp_all
  moreover have "(AppendUint16 [] i @ c # p) ! j = Packet m ! j" if "j \<ge> 2" for j
    using that by (simp add: AppendUint16_def p nth_Cons split: nat.splits)
  ultimately show ?thesis using True by (simp add: SetID_def p AppendUint16_def)
qed (simp add: SetID_def)

lemma received_cong:
  "received m \<Longrightarrow> length (Packet m1) = length (Packet m) \<Longrightarrow> Answer m1 = Answer m \<Longrightarrow> Authority m1 = Authority m \<Longrightarrow>
   Additional m1 = Additional m \<Longrightarrow> received m1"
  by (simp add: received_def can_age_def ttl_fits_def)

lemma updateTTL_total:
  assumes "an_msg an = Some m" "answer_ok an"
  shows "\<exists>an1 m1. updateTTL now an = Some an1 \<and> an_msg an1 = Some m1 \<and> answer_ok an1 \<and> same_place an an1 \<and>
    length (Packet m1) = length (Packet m) \<and> Question m1 = Question m \<and> (\<forall>i < 12. Packet m1 ! i = Packet m ! i) \<and>
    (if receivedAt an = 0 then Packet m1 = Packet m
     else (\<forall>rr \<in> set (aged m). ReadUint32 (Packet m1) (offTTL rr) =
         Some (TTL (sub_ttl (word_of_int (Unix now - receivedAt an)) rr))) \<and>
       (\<forall>i. i \<notin> ttl_bytes (aged m) \<longrightarrow> Packet m1 ! i = Packet m ! i))"
proof (cases "receivedAt an = 0")
  case True
  then show ?thesis using assms by (simp add: updateTTL_def same_place_def)
next
  case False
  define n :: u32 where "n = word_of_int (Unix now - receivedAt an)"
  have r: "received m" using assms False by (simp add: answer_ok_def)
  then have "can_age m" by (simp add: received_def)
  from SubTTL_ok [of m n] this obtain q where
    q: "SubTTL m n = Some (m\<lparr>Answer := map (sub_ttl n) (Answer m), Authority := map (sub_ttl n) (Authority m),
      Additional := map (sub_ttl_opt n) (Additional m), Packet := q\<rparr>)" "length q = length (Packet m)"
      "\<forall>rr \<in> set (aged m). ReadUint32 q (offTTL rr) = Some (TTL (sub_ttl n rr))"
      "\<forall>i. i \<notin> ttl_bytes (aged m) \<longrightarrow> q ! i = Packet m ! i"
    unfolding can_age_def by blast
  let ?m = "m\<lparr>Answer := map (sub_ttl n) (Answer m), Authority := map (sub_ttl n) (Authority m),
      Additional := map (sub_ttl_opt n) (Additional m), Packet := q\<rparr>"
  have "received ?m"
    using r q(2) by (simp add: received_def can_age_def ttl_apart_map ball_Un) (simp add: ttl_fits_def list_all_iff ball_Un)
  moreover have "i \<notin> ttl_bytes (aged m)" if "i < 12" for i
  proof
    assume "i \<in> ttl_bytes (aged m)"
    then obtain rr where "rr \<in> set (Answer m @ Authority m @ Additional m)" "offTTL rr \<le> i"
      using aged_subset [of m] by (auto simp: ttl_bytes_def)
    with r that show False unfolding received_def by fastforce
  qed
  moreover have "updateTTL now an = Some (an\<lparr>accessedAt := Unix now, an_msg := Some ?m\<rparr>)"
    using False q(1) assms(1) by (simp add: updateTTL_def n_def)
  ultimately show ?thesis using assms(2) False q(2-4) by (simp add: answer_ok_def same_place_def n_def)
qed

subsection \<open>The invariant of the server\<close>

lemma stored_ok:
  assumes "\<And>an. cache_lookup c (QName (Question msg)) (QType (Question msg)) (QClass (Question msg)) = Some an \<Longrightarrow> answer_ok an"
    "loc \<or> received msg" "0 \<le> now"
  shows "answer_ok (stored now c msg loc)"
proof -
  have "0 \<le> Unix now" using assms(3) by (simp add: Unix_def pos_imp_zdiv_nonneg_iff)
  then show ?thesis
    using assms(1,2) by (fastforce simp: stored_def refreshed_def answer_ok_def Let_def split: option.splits)
qed

lemma srv_inv_message:
  assumes "srv_inv srv" "loc \<or> received msg" "0 \<le> now"
  shows "\<exists>c ins. cache_message now (caches srv) msg loc = Some (c, ins) \<and> srv_inv (srv\<lparr>caches := c, out := o1\<rparr>) \<and>
    (\<forall>n t k. (n, t, k) \<noteq> message_question msg \<longrightarrow> cache_lookup c n t k = cache_lookup (caches srv) n t k) \<and>
    cache_map c (message_question msg) = Some msg"
proof -
  have inv: "cache_inv (caches srv)" "\<And>n t k an. cache_lookup (caches srv) n t k = Some an \<Longrightarrow> answer_ok an"
    using assms(1) by (auto simp: srv_inv_def)
  from cache_message_ok [OF inv(1), of now msg loc] obtain c ins where
    c: "cache_message now (caches srv) msg loc = Some (c, ins)" "cache_inv c"
      "\<And>n t k. cache_lookup c n t k =
        (if (n, t, k) = message_question msg then Some (stored now (caches srv) msg loc) else cache_lookup (caches srv) n t k)"
    by blast
  have "answer_ok an" if "cache_lookup c n t k = Some an" for n t k an
    using that stored_ok [OF inv(2) assms(2,3)] inv(2) by (auto simp: c(3) split: if_splits)
  then have "srv_inv (srv\<lparr>caches := c, out := o1\<rparr>)" using c(2) by (simp add: srv_inv_def)
  moreover have "cache_map c (message_question msg) = Some msg"
    using message_map [OF inv(1) c(1)] by simp
  ultimately show ?thesis using c(1,3) by auto
qed

lemma srv_inv_simps [simp]:
  "srv_inv (srv\<lparr>primaryq := q\<rparr>) = srv_inv srv" "srv_inv (srv\<lparr>fallbackq := f\<rparr>) = srv_inv srv"
  "srv_inv (srv\<lparr>out := o1\<rparr>) = srv_inv srv" "srv_inv (srv\<lparr>fwn := n\<rparr>) = srv_inv srv"
  "srv_inv (srv\<lparr>out := o1, caches := c\<rparr>) = srv_inv (srv\<lparr>caches := c\<rparr>)"
  "srv_inv (request_error srv req rc) = srv_inv srv" "srv_inv (forward srv req) = srv_inv srv"
  by (simp_all add: srv_inv_def request_error_def srv_write_def forward_def split: option.splits)

lemma srv_inv_get:
  assumes "srv_inv srv" "caches_get now (caches srv) n t k = Some (c, ans, a)"
  shows "srv_inv (srv\<lparr>caches := c\<rparr>)"
proof -
  have inv: "cache_inv (caches srv)" "\<And>n t k an. cache_lookup (caches srv) n t k = Some an \<Longrightarrow> answer_ok an"
    using assms(1) by (auto simp: srv_inv_def)
  have "cache_inv c" using caches_get_ok [OF inv(1), of now n t k] assms(2) by auto
  moreover have "answer_ok an" if "cache_lookup c n1 t1 k1 = Some an" for n1 t1 k1 an
    using that inv(2) by (auto simp: get_lookup [OF inv(1) assms(2)] answer_ok_def split: option.splits if_splits)
  ultimately show ?thesis by (simp add: srv_inv_def)
qed

text \<open>A request that the cache answers.\<close>

lemma processRequest_hit:
  assumes "srv_inv srv" "isImplemented (message req)"
    "cache_lookup (caches srv) (QName (Question (message req))) (QType (Question (message req))) (QClass (Question (message req))) = Some an"
    "an_msg an = Some m" "\<not> IsExpired m"
  shows "\<exists>srv1 p. processRequest now srv req = Some srv1 \<and> srv_inv srv1 \<and>
    out srv1 = out srv @ [(writer req, p)] \<and> primaryq srv1 = primaryq srv \<and> fallbackq srv1 = fallbackq srv \<and>
    length p = length (Packet m) \<and> (length p \<ge> 12 \<longrightarrow> ReadUint16 p 0 = Some (ID (Header (message req)))) \<and>
    (if receivedAt an = 0 then \<forall>i \<ge> 2. p ! i = Packet m ! i
     else (\<forall>rr \<in> set (aged m). ReadUint32 p (offTTL rr) = Some (TTL (sub_ttl (word_of_int (Unix now - receivedAt an)) rr))) \<and>
       (\<forall>i \<ge> 2. i \<notin> ttl_bytes (aged m) \<longrightarrow> p ! i = Packet m ! i))"
proof -
  let ?q = "Question (message req)" and ?c = "caches srv"
  have inv: "cache_inv ?c" using assms(1) by (simp add: srv_inv_def)
  from caches_get_ok [OF inv, of now "QName ?q" "QType ?q" "QClass ?q"] assms(3) obtain c ans a where
    g: "caches_get now ?c (QName ?q) (QType ?q) (QClass ?q) = Some (c, ans, Some a)" "cache_inv c" "ans \<noteq> None" and
    l: "live c a (if receivedAt an > 0 then an\<lparr>accessedAt := Unix now\<rparr> else an)" by auto
  define an1 where "an1 = (if receivedAt an > 0 then an\<lparr>accessedAt := Unix now\<rparr> else an)"
  have an1: "live c a an1" "an_msg an1 = Some m" "receivedAt an1 = receivedAt an" using l assms(4) by (auto simp: an1_def)
  have invc: "srv_inv (srv\<lparr>caches := c\<rparr>)" by (rule srv_inv_get [OF assms(1) g(1)])
  have ok1: "answer_ok an1"
    using invc an1(1) cache_lookup_iff [OF g(2)] by (auto simp: srv_inv_def)
  obtain m1 where m1: "SetID m (ID (Header (message req))) = Some m1" "length (Packet m1) = length (Packet m)"
    "Answer m1 = Answer m" "Authority m1 = Authority m" "Additional m1 = Additional m"
    "length (Packet m) > 2 \<longrightarrow> ReadUint16 (Packet m1) 0 = Some (ID (Header (message req)))"
    "\<forall>j \<ge> 2. Packet m1 ! j = Packet m ! j" using SetID_ok [of m "ID (Header (message req))"] by blast
  have aged: "aged m1 = aged m" using m1(3-5) by (simp add: aged_def)
  let ?an = "an1\<lparr>an_msg := Some m1\<rparr>"
  have "answer_ok ?an" using ok1 an1(2) received_cong [of m m1] m1(2-5) by (auto simp: answer_ok_def)
  from updateTTL_total [OF _ this, of m1 now] obtain an2 m2 where
    u: "updateTTL now ?an = Some an2" "an_msg an2 = Some m2" "answer_ok an2" "same_place ?an an2"
      "length (Packet m2) = length (Packet m1)" "\<forall>i < 12. Packet m2 ! i = Packet m1 ! i" and
    t: "if receivedAt an = 0 then Packet m2 = Packet m1
        else (\<forall>rr \<in> set (aged m). ReadUint32 (Packet m2) (offTTL rr) =
            Some (TTL (sub_ttl (word_of_int (Unix now - receivedAt an)) rr))) \<and>
          (\<forall>i. i \<notin> ttl_bytes (aged m) \<longrightarrow> Packet m2 ! i = Packet m1 ! i)"
    by (auto simp: aged an1(3))
  have sp: "same_place an1 an2" using u(4) an1(2) by (simp add: same_place_def)
  have "answer_ok xn" if "cache_lookup (c\<lparr>heap := (heap c)(a \<mapsto> an2)\<rparr>) n t k = Some xn" for n t k xn
    using that invc u(3) by (auto simp: modify_lookup [OF g(2) an1(1) sp] srv_inv_def split: if_splits)
  then have fin: "srv_inv (srv\<lparr>caches := c\<lparr>heap := (heap c)(a \<mapsto> an2)\<rparr>, out := o1\<rparr>)" for o1
    using modify_inv(1) [OF g(2) an1(1) sp] by (simp add: srv_inv_def)
  have "processRequest now srv req = Some (srv_write (srv\<lparr>caches := c\<lparr>heap := (heap c)(a \<mapsto> an2)\<rparr>\<rparr>) (writer req) (Packet m2))"
    using assms(2,5) g an1 m1(1) u(1,2) by (auto simp: processRequest_def request_get_def request_answer_def live_def Let_def)
  moreover have "ReadUint16 (Packet m2) 0 = ReadUint16 (Packet m1) 0" if "length (Packet m) \<ge> 12"
    using that u(5,6) m1(2) by (simp add: ReadUint16_def idx_def)
  moreover have "if receivedAt an = 0 then \<forall>i \<ge> 2. Packet m2 ! i = Packet m ! i
     else (\<forall>rr \<in> set (aged m). ReadUint32 (Packet m2) (offTTL rr) = Some (TTL (sub_ttl (word_of_int (Unix now - receivedAt an)) rr))) \<and>
       (\<forall>i \<ge> 2. i \<notin> ttl_bytes (aged m) \<longrightarrow> Packet m2 ! i = Packet m ! i)"
    using t m1(7) by (auto split: if_splits)
  ultimately show ?thesis
    using fin u(5) m1(2,6)
    by (intro exI [of _ "srv_write (srv\<lparr>caches := c\<lparr>heap := (heap c)(a \<mapsto> an2)\<rparr>\<rparr>) (writer req) (Packet m2)"] exI [of _ "Packet m2"])
      (simp add: srv_write_def)
qed

lemma processRequest_hit_map:
  assumes "srv_inv srv" "isImplemented (message req)"
    "cache_map (caches srv) (message_question (message req)) = Some m" "\<not> IsExpired m"
  shows "\<exists>srv1 p. processRequest now srv req = Some srv1 \<and> srv_inv srv1 \<and>
    out srv1 = out srv @ [(writer req, p)] \<and> primaryq srv1 = primaryq srv \<and> fallbackq srv1 = fallbackq srv"
proof -
  obtain an where "cache_lookup (caches srv) (QName (Question (message req))) (QType (Question (message req)))
      (QClass (Question (message req))) = Some an" "an_msg an = Some m"
    using assms(3) by (auto simp: cache_map_def message_question_def split: option.splits)
  from processRequest_hit [OF assms(1,2) this assms(4), of now] show ?thesis by blast
qed

text \<open>A request that the cache does not answer, or whose answer has expired.\<close>

lemma processRequest_miss:
  assumes "srv_inv srv" "isImplemented (message req)"
    "case cache_map (caches srv) (message_question (message req)) of None \<Rightarrow> True | Some m \<Rightarrow> IsExpired m"
  shows "\<exists>c. processRequest now srv req = Some (forward (srv\<lparr>caches := c\<rparr>) req) \<and> srv_inv (srv\<lparr>caches := c\<rparr>)"
proof -
  let ?q = "Question (message req)" and ?c = "caches srv"
  have inv: "cache_inv ?c" using assms(1) by (simp add: srv_inv_def)
  from caches_get_ok [OF inv, of now "QName ?q" "QType ?q" "QClass ?q"] obtain c ans a where
    g: "caches_get now ?c (QName ?q) (QType ?q) (QClass ?q) = Some (c, ans, a)" and
    l: "case cache_lookup ?c (QName ?q) (QType ?q) (QClass ?q) of None \<Rightarrow> a = None
      | Some an \<Rightarrow> \<exists>b. ans \<noteq> None \<and> a = Some b \<and> live c b (if receivedAt an > 0 then an\<lparr>accessedAt := Unix now\<rparr> else an)"
    by (auto split: option.splits)
  have invc: "srv_inv (srv\<lparr>caches := c\<rparr>)" by (rule srv_inv_get [OF assms(1) g])
  have "processRequest now srv req = Some (forward (srv\<lparr>caches := c\<rparr>) req)"
  proof (cases "cache_lookup ?c (QName ?q) (QType ?q) (QClass ?q)")
    case None
    then show ?thesis using g l assms(2) by (cases ans) (simp_all add: processRequest_def request_get_def request_answer_def)
  next
    case (Some an)
    then obtain b where b: "a = Some b" "ans \<noteq> None" "live c b (if receivedAt an > 0 then an\<lparr>accessedAt := Unix now\<rparr> else an)"
      using l by auto
    obtain x where "live ?c x an" "an_qname an = QName ?q" using Some cache_lookup_iff [OF inv] by blast
    then have "an_msg an \<noteq> None" using live_ok [OF inv, of "QName ?q" _ x] live_det by (auto simp: live_def)
    then obtain m where m: "an_msg an = Some m" by auto
    then have "IsExpired m" using assms(3) Some by (simp add: cache_map_def message_question_def)
    then show ?thesis using g b m assms(2) by (auto simp: processRequest_def request_get_def request_answer_def live_def Let_def)
  qed
  with invc show ?thesis by blast
qed

lemma processRequest_ok:
  assumes "srv_inv srv"
  shows "\<exists>srv1. processRequest now srv req = Some srv1 \<and> srv_inv srv1"
proof (cases "isImplemented (message req)")
  case True
  show ?thesis
  proof (cases "case cache_map (caches srv) (message_question (message req)) of None \<Rightarrow> True | Some m \<Rightarrow> IsExpired m")
    case miss: True
    then show ?thesis using processRequest_miss [OF assms True miss, of now] by auto
  next
    case False
    then obtain m where "cache_map (caches srv) (message_question (message req)) = Some m" "\<not> IsExpired m"
      by (auto split: option.splits)
    then show ?thesis using processRequest_hit_map [OF assms True, of m now] by blast
  qed
qed (use assms in \<open>simp add: processRequest_def\<close>)

lemma processResponse_ok:
  assumes "srv_inv srv" "received res" "0 \<le> now"
  shows "\<exists>srv1. processResponse now written srv req res = Some srv1 \<and> srv_inv srv1"
  using srv_inv_message [OF assms(1), of False res now] assms
  by (auto simp: processResponse_def srv_write_def Let_def)

lemma populateCaches_ok:
  assumes "srv_inv srv" "0 \<le> now"
  shows "\<exists>srv1 k. populateCaches now srv msgs n = Some (srv1, k) \<and> srv_inv srv1"
  using assms(1)
proof (induction msgs arbitrary: srv n)
  case (Cons msg msgs)
  from srv_inv_message [OF Cons.prems, of True msg now "out srv"] assms(2) obtain c ins where
    c: "cache_message now (caches srv) msg True = Some (c, ins)" "srv_inv (srv\<lparr>caches := c\<rparr>)" by auto
  with Cons.IH [OF c(2)] show ?case by simp
qed simp

lemma srv_prune_ok:
  assumes "srv_inv srv"
  shows "\<exists>c m. prune now (caches srv) = Some (c, m) \<and> srv_inv (srv\<lparr>caches := c\<rparr>)"
proof -
  have inv: "cache_inv (caches srv)" using assms by (simp add: srv_inv_def)
  from prune_ok [OF inv, of now] obtain c m where c: "prune now (caches srv) = Some (c, m)" "cache_inv c" by blast
  have "answer_ok an" if "cache_lookup c n t k = Some an" for n t k an
    using prune_lookup [OF inv c(1) that] assms unfolding srv_inv_def by blast
  then show ?thesis using c by (simp add: srv_inv_def)
qed

subsection \<open>Properties of the server\<close>

text \<open>
  The steps of the server: a request arrives, a forwarder delivers a response that it unpacked, files
  are loaded, the worker of the cache prunes, or the forwarders and the queues change.
\<close>

inductive srv_step :: "Server \<Rightarrow> Server \<Rightarrow> bool" where
  srv_request: "0 \<le> now \<Longrightarrow> processRequest now srv req = Some srv1 \<Longrightarrow> srv_step srv srv1"
| srv_response: "0 \<le> now \<Longrightarrow> message_Unpack ((message_Reset r)\<lparr>Packet := packet\<rparr>) = Some (res, None) \<Longrightarrow>
    processResponse now written srv req res = Some srv1 \<Longrightarrow> srv_step srv srv1"
| srv_load: "0 \<le> now \<Longrightarrow> populateCaches now srv msgs 0 = Some (srv1, k) \<Longrightarrow> srv_step srv srv1"
| srv_prune: "0 \<le> now \<Longrightarrow> prune now (caches srv) = Some (c, m) \<Longrightarrow> srv_step srv (srv\<lparr>caches := c\<rparr>)"
| srv_queues: "srv_step srv (srv\<lparr>primaryq := q, fallbackq := f, fwn := n\<rparr>)"

definition NewServer :: "int \<Rightarrow> int \<Rightarrow> Server" where
  "NewServer delay threshold = \<lparr>caches = newCaches delay threshold, primaryq = [], fallbackq = None, fwn = 0, out = []\<rparr>"

lemma unpacked_received: "message_Unpack ((message_Reset r)\<lparr>Packet := packet\<rparr>) = Some (res, None) \<Longrightarrow> received res"
  by (erule message_Unpack_received) (simp_all add: message_Reset_def ResetRR_def)

lemma srv_step_inv:
  assumes "srv_step srv srv1" "srv_inv srv"
  shows "srv_inv srv1"
  using assms
proof (cases rule: srv_step.cases)
  case (srv_request now req)
  then show ?thesis using processRequest_ok [OF assms(2), of now req] by auto
next
  case (srv_response now r packet res written req)
  then show ?thesis using processResponse_ok [OF assms(2) unpacked_received, of r packet res now written req] by auto
next
  case (srv_load now msgs k)
  then show ?thesis using populateCaches_ok [OF assms(2), of now msgs 0] by auto
next
  case (srv_prune now c m)
  then show ?thesis using srv_prune_ok [OF assms(2), of now] by auto
next
  case srv_queues
  then show ?thesis using assms(2) by (simp add: srv_inv_def)
qed

lemma srv_steps_inv: "srv_step\<^sup>*\<^sup>* srv srv1 \<Longrightarrow> srv_inv srv \<Longrightarrow> srv_inv srv1"
  by (induction rule: rtranclp_induct) (auto intro: srv_step_inv)

lemma srv_inv_new: "srv_inv (NewServer delay threshold)"
  by (simp add: srv_inv_def NewServer_def cache_inv_new) (simp add: newCaches_def cache_lookup_def)

text \<open>
  C8: The handlers of the server do not panic when they run one at a time: in every state that
  requests, responses, loaded files and prunings lead to, in any order, each of them run to its end,
  the server can process the next request whatever its question is, every response that a forwarder
  unpacked without an error, every list of messages from a file, and the next prune. (Unpacking
  itself is not part of this, and \<open>prune_races_request\<close> below is the case of a prune inside of
  \<open>processRequest\<close>.)
\<close>

theorem server_never_panics:
  assumes "srv_step\<^sup>*\<^sup>* (NewServer delay threshold) srv" "0 \<le> now"
    "message_Unpack ((message_Reset r)\<lparr>Packet := packet\<rparr>) = Some (res, None)"
  shows "processRequest now srv req \<noteq> None \<and> processResponse now written srv req res \<noteq> None \<and>
    populateCaches now srv msgs n \<noteq> None \<and> prune now (caches srv) \<noteq> None"
proof -
  have inv: "srv_inv srv" by (rule srv_steps_inv [OF assms(1) srv_inv_new])
  show ?thesis
    using processRequest_ok [OF inv, of now req] processResponse_ok [OF inv unpacked_received [OF assms(3)] assms(2), of written req]
      populateCaches_ok [OF inv assms(2), of msgs n] srv_prune_ok [OF inv, of now] by auto
qed

text \<open>
  C33: A request of an implemented class and type whose answer is in the cache and has not expired is
  answered at once and to nobody else: exactly one packet is written, to the connection of the
  request, and the queues of the forwarders do not change. The packet has the identifier of the
  request in its first two bytes; when the answer came from a file, all its other bytes are those of
  the cached packet; when it was received, the times to live of its records (but the OPT records) are
  reduced by the seconds since then, and all other bytes are those of the cached packet.
\<close>

theorem cached_answer_served:
  assumes "srv_step\<^sup>*\<^sup>* (NewServer delay threshold) srv" "isImplemented (message req)"
    "cache_lookup (caches srv) (QName (Question (message req))) (QType (Question (message req))) (QClass (Question (message req))) = Some an"
    "an_msg an = Some m" "\<not> IsExpired m" "12 \<le> length (Packet m)"
  shows "\<exists>srv1 p. processRequest now srv req = Some srv1 \<and> out srv1 = out srv @ [(writer req, p)] \<and>
    primaryq srv1 = primaryq srv \<and> fallbackq srv1 = fallbackq srv \<and> length p = length (Packet m) \<and>
    ReadUint16 p 0 = Some (ID (Header (message req))) \<and>
    (if receivedAt an = 0 then \<forall>i \<ge> 2. p ! i = Packet m ! i
     else (\<forall>rr \<in> set (aged m). ReadUint32 p (offTTL rr) = Some (TTL (sub_ttl (word_of_int (Unix now - receivedAt an)) rr))) \<and>
       (\<forall>i \<ge> 2. i \<notin> ttl_bytes (aged m) \<longrightarrow> p ! i = Packet m ! i))"
  using processRequest_hit [OF srv_steps_inv [OF assms(1) srv_inv_new] assms(2-5), of now] assms(6) by (elim exE conjE) auto

text \<open>
  C32: No request is lost or handled twice: in every state that the server can be in, a request is
  either answered with exactly one packet to its own connection, or put at the end of exactly one
  queue of the forwarders.
\<close>

theorem request_handled_once:
  assumes "srv_step\<^sup>*\<^sup>* (NewServer delay threshold) srv"
  shows "\<exists>srv1. processRequest now srv req = Some srv1 \<and>
    ((\<exists>p. out srv1 = out srv @ [(writer req, p)] \<and> primaryq srv1 = primaryq srv \<and> fallbackq srv1 = fallbackq srv) \<or>
     (out srv1 = out srv \<and> primaryq srv1 = primaryq srv @ [req] \<and> fallbackq srv1 = fallbackq srv) \<or>
     (\<exists>q. out srv1 = out srv \<and> primaryq srv1 = primaryq srv \<and> fallbackq srv = Some q \<and> fallbackq srv1 = Some (q @ [req])))"
proof -
  have inv: "srv_inv srv" by (rule srv_steps_inv [OF assms srv_inv_new])
  consider "\<not> isImplemented (message req)"
    | m where "isImplemented (message req)" "cache_map (caches srv) (message_question (message req)) = Some m" "\<not> IsExpired m"
    | "isImplemented (message req)"
      "case cache_map (caches srv) (message_question (message req)) of None \<Rightarrow> True | Some m \<Rightarrow> IsExpired m"
    by (fastforce split: option.splits)
  then show ?thesis
  proof cases
    case 1
    then show ?thesis by (simp add: processRequest_def request_error_def srv_write_def Let_def)
  next
    case (2 m)
    then show ?thesis using processRequest_hit_map [OF inv, of req m now] by blast
  next
    case 3
    then show ?thesis using processRequest_miss [OF inv, of req now]
      by (auto simp: forward_def request_error_def srv_write_def Let_def split: option.splits)
  qed
qed

text \<open>
  A response fills the cache only for the question that was asked: whatever message a forwarder
  delivers for a request, the answers of all other questions stay as they are; a response to another
  question or with an error code leaves the whole cache as it is, and a valid one becomes the cached
  answer.
\<close>

theorem response_cached_for_request:
  assumes "srv_step\<^sup>*\<^sup>* (NewServer delay threshold) srv" "0 \<le> now"
    "message_Unpack ((message_Reset r)\<lparr>Packet := packet\<rparr>) = Some (res, None)"
  shows "\<exists>srv1. processResponse now written srv req res = Some srv1 \<and>
    (\<forall>n t k. (n, t, k) \<noteq> message_question (message req) \<longrightarrow>
       cache_lookup (caches srv1) n t k = cache_lookup (caches srv) n t k) \<and>
    (message_question res = message_question (message req) \<and> written \<and> RCode (Header res) = 0 \<longrightarrow>
       cache_map (caches srv1) (message_question (message req)) = Some res) \<and>
    (message_question res \<noteq> message_question (message req) \<or> RCode (Header res) \<noteq> 0 \<longrightarrow> caches srv1 = caches srv)"
proof -
  have inv: "srv_inv srv" by (rule srv_steps_inv [OF assms(1) srv_inv_new])
  have v: "isResponseValid req res \<longleftrightarrow> message_question res = message_question (message req)"
    by (auto simp: isResponseValid_def message_question_def)
  from srv_inv_message [OF inv, of False res now] unpacked_received [OF assms(3)] assms(2) obtain c ins where
    "cache_message now (caches srv) res False = Some (c, ins)"
    "\<forall>n t k. (n, t, k) \<noteq> message_question res \<longrightarrow> cache_lookup c n t k = cache_lookup (caches srv) n t k"
    "cache_map c (message_question res) = Some res" by blast
  then show ?thesis
    by (cases "isResponseValid req res"; cases "RCode (Header res) = 0"; cases written)
      (auto simp: processResponse_def v srv_write_def request_error_def Let_def)
qed

subsection \<open>Examples\<close>

text \<open>A server that received an answer with one record at second 5.\<close>

definition example_request :: request where
  "example_request = \<lparr>message = NewMessage\<lparr>Header := (Header NewMessage)\<lparr>ID := 7\<rparr>,
     Question := \<lparr>QName = [97, 46, 98], QType = QueryTypeMX, QClass = QueryClassIN\<rparr>\<rparr>, writer = 1\<rparr>"

lemma example_received:
  "\<exists>srv an m rr. srv_step\<^sup>*\<^sup>* (NewServer 0 0) srv \<and> cache_lookup (caches srv) [97, 46, 98] QueryTypeMX QueryClassIN = Some an \<and>
     an_msg an = Some m \<and> receivedAt an = 5 \<and> \<not> IsExpired m \<and> 12 \<le> length (Packet m) \<and> Answer m = [rr] \<and> TTL rr = 60"
proof -
  from message_wire [OF example_response_wf, of NewMessage] obtain packet u where
    u: "message_Unpack ((message_Reset NewMessage)\<lparr>Packet := packet\<rparr>) = Some (u, None)"
      "Header u = sent_header example_response" "Question u = lower_question (Question example_response)"
      "list_all2 (\<lambda>rr. same_rr (lower_rr rr)) (Answer example_response) (Answer u)" by blast
  from u(4) obtain rr where rr: "Answer u = [rr]" "TTL rr = 60"
    by (auto simp: example_response_def list_all2_Cons1 same_rr_def lower_rr_def)
  have r: "received u" by (rule unpacked_received [OF u(1)])
  have len: "12 \<le> length (Packet u)" using r rr(1) by (simp add: received_def can_age_def ttl_fits_def)
  have q: "Question u = Question (message example_request)" "RCode (Header u) = 0"
    by (simp_all add: u(2,3) lower_question_def example_response_def example_request_def sent_header_def NewMessage_def Let_def)
  have inv: "srv_inv (NewServer 0 0)" by (rule srv_inv_new)
  have new: "cache_lookup (caches (NewServer 0 0)) n t k = None" for n t k by (simp add: NewServer_def newCaches_def cache_lookup_def)
  from cache_message_ok [of "caches (NewServer 0 0)" 5000000000 u False] inv obtain c ins where
    c: "cache_message 5000000000 (caches (NewServer 0 0)) u False = Some (c, ins)"
      "cache_lookup c [97, 46, 98] QueryTypeMX QueryClassIN = Some (stored 5000000000 (caches (NewServer 0 0)) u False)"
    by (auto simp: srv_inv_def message_question_def q example_request_def)
  have "processResponse 5000000000 True (NewServer 0 0) example_request u =
      Some (srv_write (NewServer 0 0) 1 (Packet u)\<lparr>caches := c\<rparr>)"
    using c(1) q by (simp add: processResponse_def isResponseValid_def srv_write_def example_request_def)
  then have "srv_step (NewServer 0 0) (srv_write (NewServer 0 0) 1 (Packet u)\<lparr>caches := c\<rparr>)"
    using u(1) by (intro srv_response) simp_all
  moreover have "stored 5000000000 (caches (NewServer 0 0)) u False =
      (newAnswer 5000000000 u False)\<lparr>an_el := Some (next_el (caches (NewServer 0 0)))\<rparr>"
    by (simp add: stored_def new newAnswer_def Unix_def)
  ultimately show ?thesis using c(2) rr len
    by (intro exI [of _ "srv_write (NewServer 0 0) 1 (Packet u)\<lparr>caches := c\<rparr>"]
        exI [of _ "(newAnswer 5000000000 u False)\<lparr>an_el := Some (next_el (caches (NewServer 0 0)))\<rparr>"] exI [of _ u] exI [of _ rr])
      (auto simp: newAnswer_def Unix_def IsExpired_def)
qed

theorem server_never_panics_witness:
  "\<exists>srv an packet res. cache_lookup (caches srv) [97, 46, 98] QueryTypeMX QueryClassIN = Some an \<and> receivedAt an = 5 \<and>
    message_Unpack ((message_Reset NewMessage)\<lparr>Packet := packet\<rparr>) = Some (res, None) \<and>
    processRequest 30000000000 srv example_request \<noteq> None \<and> processResponse 30000000000 True srv example_request res \<noteq> None \<and>
    populateCaches 30000000000 srv [NewMessage] 0 \<noteq> None \<and> prune 30000000000 (caches srv) \<noteq> None"
proof -
  obtain srv an where s: "srv_step\<^sup>*\<^sup>* (NewServer 0 0) srv"
    "cache_lookup (caches srv) [97, 46, 98] QueryTypeMX QueryClassIN = Some an" "receivedAt an = 5" using example_received by blast
  obtain packet res where u: "message_Unpack ((message_Reset NewMessage)\<lparr>Packet := packet\<rparr>) = Some (res, None)"
    using example_unpacks by metis
  have "(0 :: int) \<le> 30000000000" by simp
  from server_never_panics [OF s(1) this u, of example_request True "[NewMessage]" 0] s u show ?thesis by blast
qed

theorem cached_answer_served_witness:
  "\<exists>srv an m rr srv1 p. cache_lookup (caches srv) [97, 46, 98] QueryTypeMX QueryClassIN = Some an \<and> an_msg an = Some m \<and>
    receivedAt an = 5 \<and> Answer m = [rr] \<and> TTL rr = 60 \<and>
    processRequest 30000000000 srv example_request = Some srv1 \<and> out srv1 = out srv @ [(1, p)] \<and> length p = length (Packet m) \<and>
    ReadUint16 p 0 = Some 7 \<and> ReadUint32 p (offTTL rr) = Some 35 \<and> (\<forall>i \<ge> 2. i \<notin> ttl_bytes (aged m) \<longrightarrow> p ! i = Packet m ! i)"
proof -
  obtain srv an m rr where s: "srv_step\<^sup>*\<^sup>* (NewServer 0 0) srv"
    "cache_lookup (caches srv) [97, 46, 98] QueryTypeMX QueryClassIN = Some an" "an_msg an = Some m" "receivedAt an = 5"
    "\<not> IsExpired m" "12 \<le> length (Packet m)" "Answer m = [rr]" "TTL rr = 60" using example_received by blast
  have i: "isImplemented (message example_request)"
    by (simp add: isImplemented_def example_request_def NewMessage_def query_types QueryClassIN_def QueryClassCS_def
        QueryClassCH_def QueryClassHS_def)
  have l: "cache_lookup (caches srv) (QName (Question (message example_request))) (QType (Question (message example_request)))
      (QClass (Question (message example_request))) = Some an" using s(2) by (simp add: example_request_def)
  obtain srv1 p where "processRequest 30000000000 srv example_request = Some srv1"
    "out srv1 = out srv @ [(writer example_request, p)]" "length p = length (Packet m)"
    "ReadUint16 p 0 = Some (ID (Header (message example_request)))" and
    t: "\<forall>rr \<in> set (aged m). ReadUint32 p (offTTL rr) = Some (TTL (sub_ttl (word_of_int (Unix 30000000000 - receivedAt an)) rr))"
      "\<forall>i \<ge> 2. i \<notin> ttl_bytes (aged m) \<longrightarrow> p ! i = Packet m ! i"
    using cached_answer_served [OF s(1) i l s(3,5,6), of 30000000000] s(4) by auto
  moreover have "ReadUint32 p (offTTL rr) = Some 35"
    using bspec [OF t(1), of rr] s(4,7,8) by (simp add: aged_def Unix_def sub_ttl_def)
  ultimately show ?thesis using s(2-4,7,8) by (intro exI [of _ srv] exI [of _ an] exI [of _ m] exI [of _ rr] exI [of _ srv1] exI [of _ p])
    (simp add: example_request_def)
qed

text \<open>
  A prune between the two parts of \<open>processRequest\<close> makes it panic: the answer that \<open>caches.get\<close>
  returned is cleared by a prune whose time limit it has reached, and \<open>an.msg.IsExpired\<close> reads the
  \<open>nil\<close> message.
\<close>

theorem prune_races_request:
  assumes "Question (message req) = Question m" "0 < Unix t1" "Unix t2 \<le> expiry now (newCaches delay threshold)"
  shows "\<exists>c srv1 a d. cache_message t1 (newCaches delay threshold) m False = Some (c, True) \<and>
    request_get t2 ((NewServer delay threshold)\<lparr>caches := c\<rparr>) req = Some (srv1, Some a) \<and>
    prune now (caches srv1) = Some (d, 1) \<and> request_answer t2 (srv1\<lparr>caches := d\<rparr>) req (Some a) = None"
  using assms
  by (auto simp: cache_eval request_get_def request_answer_def caches_get_def NewServer_def prune_def expiry_def
      cache_lookup_def matches_def caches_remove_def answers_remove_def idx_def upd_def subslice_def MoveToBack_def answer_clear_def)

theorem request_handled_once_witness:
  "\<exists>srv1. processRequest 5 (NewServer 0 0) (newRequest 1) = Some srv1 \<and>
    ((\<exists>p. out srv1 = out (NewServer 0 0) @ [(writer (newRequest 1), p)] \<and> primaryq srv1 = primaryq (NewServer 0 0) \<and>
        fallbackq srv1 = fallbackq (NewServer 0 0)) \<or>
     (out srv1 = out (NewServer 0 0) \<and> primaryq srv1 = primaryq (NewServer 0 0) @ [newRequest 1] \<and>
        fallbackq srv1 = fallbackq (NewServer 0 0)) \<or>
     (\<exists>q. out srv1 = out (NewServer 0 0) \<and> primaryq srv1 = primaryq (NewServer 0 0) \<and>
        fallbackq (NewServer 0 0) = Some q \<and> fallbackq srv1 = Some (q @ [newRequest 1])))"
  by (rule request_handled_once) (rule rtranclp.rtrancl_refl)

theorem response_cached_for_request_witness:
  "\<exists>packet res srv1. message_Unpack ((message_Reset NewMessage)\<lparr>Packet := packet\<rparr>) = Some (res, None) \<and>
    processResponse 5 True (NewServer 0 0) (newRequest 1) res = Some srv1"
proof -
  obtain packet res where u: "message_Unpack ((message_Reset NewMessage)\<lparr>Packet := packet\<rparr>) = Some (res, None)"
    using example_unpacks by metis
  have "(0 :: int) \<le> 5" by simp
  from response_cached_for_request [OF rtranclp.rtrancl_refl this u, where delay = 0 and threshold = 0 and written = True and req = "newRequest 1"] u show ?thesis by blast
qed

subsection \<open>Forwarders\<close>

text \<open>
  A forwarder takes requests from a queue and asks another server. It is connecting, running or
  stopped. A primary forwarder reads \<open>primaryq\<close> and passes a request whose query failed to
  \<open>fallbackq\<close>; the others read \<open>fallbackq\<close>. Their number \<open>fwn\<close> tells \<open>processRequest\<close> whether one runs.
\<close>

datatype fw_state = Connecting | Running | Stopped

definition stopForwarder :: "bool \<Rightarrow> Server \<Rightarrow> Server" where
  "stopForwarder isPrimary srv = (if isPrimary then decForwarder srv else srv)"

definition take_request :: "bool \<Rightarrow> Server \<Rightarrow> (request \<times> Server) option" where
  "take_request isPrimary srv =
     (if isPrimary then (case primaryq srv of [] \<Rightarrow> None | req # q \<Rightarrow> Some (req, srv\<lparr>primaryq := q\<rparr>))
      else (case fallbackq srv of Some (req # q) \<Rightarrow> Some (req, srv\<lparr>fallbackq := Some q\<rparr>) | _ \<Rightarrow> None))"

definition to_fallback :: "bool \<Rightarrow> Server \<Rightarrow> request \<Rightarrow> Server" where
  "to_fallback isPrimary srv req =
     (if isPrimary then (case fallbackq srv of Some q \<Rightarrow> srv\<lparr>fallbackq := Some (q @ [req])\<rparr> | None \<Rightarrow> srv) else srv)"

inductive runUDPForwarder :: "bool \<Rightarrow> fw_state \<times> Server \<Rightarrow> fw_state \<times> Server \<Rightarrow> bool" for isPrimary where
  fw_connect: "runUDPForwarder isPrimary (Connecting, srv) (Running, if isPrimary then incForwarder srv else srv)"
| fw_retry: "runUDPForwarder isPrimary (Connecting, srv) (Connecting, srv)"
| fw_give_up: "runUDPForwarder isPrimary (Connecting, srv) (Stopped, stopForwarder isPrimary srv)"
| fw_response: "take_request isPrimary srv = Some (req, srv1) \<Longrightarrow> processResponse now written srv1 req res = Some srv2 \<Longrightarrow>
    runUDPForwarder isPrimary (Running, srv) (Running, srv2)"
| fw_failed: "take_request isPrimary srv = Some (req, srv1) \<Longrightarrow>
    runUDPForwarder isPrimary (Running, srv) (Connecting, stopForwarder isPrimary (to_fallback isPrimary srv1 req))"
| fw_alive: "runUDPForwarder isPrimary (Running, srv) (Running, srv)"
| fw_stop: "runUDPForwarder isPrimary (Running, srv) (Stopped, stopForwarder isPrimary srv)"

inductive_cases runUDPForwarderE: "runUDPForwarder p (st, srv) (st1, srv1)"

text \<open>The forwarders over HTTPS and TLS have the same loop, with another client.\<close>

definition runDohForwarder :: "bool \<Rightarrow> fw_state \<times> Server \<Rightarrow> fw_state \<times> Server \<Rightarrow> bool" where
  "runDohForwarder = runUDPForwarder"

definition runTLSForwarder :: "bool \<Rightarrow> fw_state \<times> Server \<Rightarrow> fw_state \<times> Server \<Rightarrow> bool" where
  "runTLSForwarder = runUDPForwarder"

text \<open>
  A forwarder over TCP is counted from its start to its end and connects for every request; a request
  for which it cannot connect is dropped.
\<close>

inductive runTCPForwarder :: "bool \<Rightarrow> fw_state \<times> Server \<Rightarrow> fw_state \<times> Server \<Rightarrow> bool" for isPrimary where
  tcp_start: "runTCPForwarder isPrimary (Connecting, srv) (Running, if isPrimary then incForwarder srv else srv)"
| tcp_no_client: "take_request isPrimary srv = Some (req, srv1) \<Longrightarrow> runTCPForwarder isPrimary (Running, srv) (Running, srv1)"
| tcp_response: "take_request isPrimary srv = Some (req, srv1) \<Longrightarrow> processResponse now written srv1 req res = Some srv2 \<Longrightarrow>
    runTCPForwarder isPrimary (Running, srv) (Running, srv2)"
| tcp_failed: "take_request isPrimary srv = Some (req, srv1) \<Longrightarrow>
    runTCPForwarder isPrimary (Running, srv) (Running, to_fallback isPrimary srv1 req)"
| tcp_alive: "runTCPForwarder isPrimary (Running, srv) (Running, srv)"
| tcp_stop: "runTCPForwarder isPrimary (Running, srv) (Stopped, if isPrimary then decForwarder srv else srv)"

inductive_cases runTCPForwarderE: "runTCPForwarder p (st, srv) (st1, srv1)"

text \<open>
  What \<open>startAllForwarders\<close> does to the queue of the fallback servers, by whether the options have
  some; the forwarders it starts are in the state \<open>Connecting\<close>.
\<close>

definition startAllForwarders :: "bool \<Rightarrow> Server \<Rightarrow> Server" where
  "startAllForwarders hasFallback srv =
     (if hasFallback \<and> fallbackq srv = None then srv\<lparr>fallbackq := Some []\<rparr> else srv\<lparr>fallbackq := None\<rparr>)"

text \<open>The forwarders of a server: one of them moves in every step.\<close>

inductive forwarders_step :: "(bool \<times> fw_state) list \<times> Server \<Rightarrow> (bool \<times> fw_state) list \<times> Server \<Rightarrow> bool" where
  udp_moves: "fws = xs @ (p, st) # ys \<Longrightarrow> runUDPForwarder p (st, srv) (st1, srv1) \<Longrightarrow>
    forwarders_step (fws, srv) (xs @ (p, st1) # ys, srv1)"
| tcp_moves: "fws = xs @ (p, st) # ys \<Longrightarrow> runTCPForwarder p (st, srv) (st1, srv1) \<Longrightarrow>
    forwarders_step (fws, srv) (xs @ (p, st1) # ys, srv1)"

text \<open>The steps in which no forwarder is stopped while it connects.\<close>

inductive connected_step :: "(bool \<times> fw_state) list \<times> Server \<Rightarrow> (bool \<times> fw_state) list \<times> Server \<Rightarrow> bool" where
  connected: "runUDPForwarder p (st, srv) (st1, srv1) \<or> runTCPForwarder p (st, srv) (st1, srv1) \<Longrightarrow>
    st = Running \<or> st1 \<noteq> Stopped \<Longrightarrow> connected_step (xs @ (p, st) # ys, srv) (xs @ (p, st1) # ys, srv1)"

definition running :: "(bool \<times> fw_state) list \<Rightarrow> nat" where
  "running fws = length (filter (\<lambda>(p, st). p \<and> st = Running) fws)"

lemma fwn_simps [simp]:
  "fwn (request_error srv req rc) = fwn srv" "fwn (to_fallback p srv req) = fwn srv" "fwn (srv_write srv w q) = fwn srv"
  "take_request p srv = Some (req, srv1) \<Longrightarrow> fwn srv1 = fwn srv"
  "processResponse now written srv req res = Some srv2 \<Longrightarrow> fwn srv2 = fwn srv"
  by (auto simp: request_error_def srv_write_def to_fallback_def take_request_def processResponse_def Let_def bind_Some_conv
      split: option.splits list.splits if_splits)

definition is_running :: "bool \<Rightarrow> fw_state \<Rightarrow> int" where
  "is_running p st = (if p \<and> st = Running then 1 else 0)"

lemma fwn_step:
  assumes "runUDPForwarder p (st, srv) (st1, srv1) \<or> runTCPForwarder p (st, srv) (st1, srv1)"
    "st = Running \<or> st1 \<noteq> Stopped" "is_running p st \<le> fwn srv"
  shows "fwn srv1 = fwn srv + is_running p st1 - is_running p st"
  using assms
  by (auto elim!: runUDPForwarderE runTCPForwarderE
      simp: is_running_def incForwarder_def decForwarder_def stopForwarder_def Let_def split: if_splits)

lemma running_split: "int (running (xs @ (p, st) # ys)) = int (running xs) + is_running p st + int (running ys)"
  by (simp add: running_def is_running_def)

lemma connected_step_fwn:
  assumes "connected_step s1 s2" "fwn (snd s1) = int (running (fst s1))"
  shows "fwn (snd s2) = int (running (fst s2))"
  using assms
proof (cases rule: connected_step.cases)
  case (connected p st srv st1 srv1 xs ys)
  have "is_running p st \<le> fwn srv" using assms(2) connected(1) running_split [of xs p st ys] by simp
  from fwn_step [OF connected(3,4) this] assms(2) show ?thesis by (simp add: connected(1,2) running_split)
qed

text \<open>
  The number that decides whether requests are forwarded is the number of running primary
  forwarders, in every state that any number of forwarders lead to by connecting, querying, failing
  and stopping in any order, as long as none is stopped while it is connecting.
\<close>

theorem fwn_counts_running:
  assumes "connected_step\<^sup>*\<^sup>* (replicate n (True, Connecting) @ replicate m (False, Connecting), start) (fws, srv)" "fwn start = 0"
  shows "fwn srv = int (running fws) \<and> (hasForwarders srv \<longleftrightarrow> (True, Running) \<in> set fws)"
proof -
  have "fwn (snd s2) = int (running (fst s2))" if "connected_step\<^sup>*\<^sup>* s1 s2" "fwn (snd s1) = int (running (fst s1))" for s1 s2
    using that by (induction rule: rtranclp_induct) (auto intro: connected_step_fwn)
  from this [OF assms(1)] assms(2) have f: "fwn srv = int (running fws)" by (simp add: running_def)
  have "0 < running fws \<longleftrightarrow> (True, Running) \<in> set fws"
    by (auto simp: running_def length_greater_0_conv filter_empty_conv)
  then show ?thesis using f by (simp add: hasForwarders_def)
qed

theorem fwn_counts_running_witness:
  "fwn (incForwarder (NewServer 0 0)) = int (running [(True, Running)]) \<and>
   (hasForwarders (incForwarder (NewServer 0 0)) \<longleftrightarrow> (True, Running) \<in> set [(True, Running)])"
proof (rule fwn_counts_running [where start = "NewServer 0 0" and n = 1 and m = 0])
  have "runUDPForwarder True (Connecting, NewServer 0 0) (Running, incForwarder (NewServer 0 0))"
    using fw_connect [of True "NewServer 0 0"] by simp
  then have "connected_step ([] @ (True, Connecting) # [], NewServer 0 0) ([] @ (True, Running) # [], incForwarder (NewServer 0 0))"
    by (intro connected) simp_all
  then show "connected_step\<^sup>*\<^sup>* (replicate 1 (True, Connecting) @ replicate 0 (False, Connecting), NewServer 0 0)
      ([(True, Running)], incForwarder (NewServer 0 0))" by (intro r_into_rtranclp) simp
qed (simp add: NewServer_def)

text \<open>
  Stopping a primary forwarder that is still connecting counts it down although it was never
  counted: with one other forwarder running, the number becomes 0, and a request that the cache cannot
  answer is refused with a server failure (when there is no fallback) although a forwarder is running.
\<close>

theorem stop_connecting_miscounts:
  assumes "fwn srv = 1" "fallbackq srv = None"
  shows "\<exists>srv1. forwarders_step ([(True, Running), (True, Connecting)], srv) ([(True, Running), (True, Stopped)], srv1) \<and>
    fwn srv1 = 0 \<and> forward srv1 req = request_error srv1 req RCodeErrServer"
proof -
  let ?s = "stopForwarder True srv"
  have "forwarders_step ([(True, Running), (True, Connecting)], srv) ([(True, Running)] @ (True, Stopped) # [], ?s)"
    by (rule udp_moves [where ys = "[]"]) (simp, rule fw_give_up)
  moreover have "fwn ?s = 0" "fallbackq ?s = None" using assms by (simp_all add: stopForwarder_def decForwarder_def Let_def)
  ultimately show ?thesis by (intro exI [of _ ?s]) (simp add: forward_def hasForwarders_def)
qed

theorem stop_connecting_miscounts_witness:
  "\<exists>srv1. forwarders_step ([(True, Running), (True, Connecting)], incForwarder (NewServer 0 0))
      ([(True, Running), (True, Stopped)], srv1) \<and>
    fwn srv1 = 0 \<and> forward srv1 (newRequest 1) = request_error srv1 (newRequest 1) RCodeErrServer"
  by (rule stop_connecting_miscounts) (simp_all add: incForwarder_def NewServer_def)

text \<open>
  Every second start of the forwarders switches the fallback servers off: \<open>startAllForwarders\<close> makes
  the queue of the fallback servers when there is none and removes it otherwise, so that after a
  restart with fallback servers there is no queue.
\<close>

theorem restart_loses_fallback:
  "fallbackq (startAllForwarders True (startAllForwarders True (NewServer delay threshold))) = None"
  by (simp add: startAllForwarders_def NewServer_def)

end
