(* ===== verification/SmtpPath.thy ===== *)
theory SmtpPath
  imports GoText
begin

section \<open>Mail paths (lib/smtp/smtp.go)\<close>

text \<open>
  The argument of \<open>MAIL FROM:\<close> and \<open>RCPT TO:\<close>: an optional source route and a mailbox in angle
  brackets. \<open>nil\<close> is the empty list: each result that is not \<open>nil\<close> is not empty, so the tests for
  \<open>nil\<close> are tests for emptiness.
\<close>

text \<open>The rest of the data from the closing parenthesis on, or nothing.\<close>

fun skipComment :: "bytes \<Rightarrow> bytes" where
  "skipComment [] = []"
| "skipComment (c # cs) = (if c = 41 then c # cs else skipComment cs)"

lemma skipComment_length: "length (skipComment cs) \<le> length cs"
  by (induction cs) auto

function localDomain_loop :: "bytes \<Rightarrow> bool \<Rightarrow> bytes \<Rightarrow> bytes \<Rightarrow> bytes" where
  "localDomain_loop allow isDot out [] = out"
| "localDomain_loop allow isDot out (c # cs) =
     (if c = 40 then
        (case skipComment (c # cs) of
           [] \<Rightarrow> []
         | _ # cs \<Rightarrow> localDomain_loop allow isDot out cs)
      else if isDot \<and> c = 46 then []
      else let out = (if isDot then out @ [46] else out) in
        if IsAlnum c then localDomain_loop allow False (out @ [c]) cs
        else if c \<in> set allow then localDomain_loop allow False (out @ [c]) cs
        else if c = 46 then localDomain_loop allow True out cs
        else [])"
  by pat_completeness auto
termination
proof (relation "measure (\<lambda>(_, _, _, cs). length cs)", goal_cases)
  case (2 allow isDot out c cs x xs)
  then show ?case using skipComment_length [of "c # cs"] by simp
qed auto

definition parseLocalDomain :: "bytes \<Rightarrow> bytes \<Rightarrow> bytes option" where
  "parseLocalDomain data allow = do {
     a \<leftarrow> idx data 0;
     z \<leftarrow> idxi data (int (length data) - 1);
     Some (if a = 46 \<or> z = 46 then [] else localDomain_loop allow False [] data) }"

definition allowOnDomain :: bytes where
  "allowOnDomain = str ''-_''"

definition parseDomainAddress :: "bytes \<Rightarrow> bytes option" where
  "parseDomainAddress data = do {
     a \<leftarrow> idx data 0;
     z \<leftarrow> idxi data (int (length data) - 1);
     if a = 91 \<and> z = 93 then Some data else parseLocalDomain data allowOnDomain }"

fun quoted_loop :: "bytes \<Rightarrow> bytes \<Rightarrow> bytes" where
  "quoted_loop out [] = out @ [34]"
| "quoted_loop out (c # cs) =
     (if c < 32 \<or> c = 34 \<or> c > 126 then []
      else if c = 92 then
        (case cs of
           [] \<Rightarrow> []
         | d # ds \<Rightarrow> if d < 32 \<or> d > 126 then [] else quoted_loop (out @ [d]) ds)
      else quoted_loop (out @ [c]) cs)"

definition parseQuotedMailbox :: "bytes \<Rightarrow> bytes" where
  "parseQuotedMailbox data = quoted_loop [34] data"

definition allowOnLocal :: bytes where
  "allowOnLocal = str ''!#$%&'' @ [39] @ str ''*+-/=?^_'' @ [96] @ str ''{|}~''"

text \<open>\<open>bytes.LastIndex\<close> of a byte.\<close>

fun LastIndex :: "byte \<Rightarrow> bytes \<Rightarrow> nat option" where
  "LastIndex b [] = None"
| "LastIndex b (c # cs) =
     (case LastIndex b cs of Some i \<Rightarrow> Some (Suc i) | None \<Rightarrow> if c = b then Some 0 else None)"

definition ParseMailbox :: "bytes \<Rightarrow> bytes option" where
  "ParseMailbox data =
     (if length data = 0 then Some []
      else case LastIndex 64 data of
             None \<Rightarrow> parseLocalDomain data allowOnLocal
           | Some at \<Rightarrow>
               let lpart = take at data; domain = drop (at + 1) data in do {
                 a \<leftarrow> idx lpart 0;
                 lpart \<leftarrow>
                   (if a = 34 then
                      (if length lpart = 1 then Some []
                       else if last lpart = 34 then Some (parseQuotedMailbox (take (length lpart - 2) (drop 1 lpart)))
                       else Some lpart)
                    else parseLocalDomain lpart allowOnLocal);
                 if lpart = [] then Some []
                 else do {
                   domain \<leftarrow> parseDomainAddress domain;
                   if domain = [] then Some [] else Some (lpart @ [64] @ domain) } })"

datatype pathError = ErrEmptyPath | ErrMissingOpening | ErrMissingClosing | ErrInvalidMailbox

text \<open>Skipping the source route: the position after the first colon, or the end of the path.\<close>

definition skip_route :: "bytes \<Rightarrow> nat" where
  "skip_route path =
     (if path ! 1 = 64 then
        let n = length (takeWhile (\<lambda>b. b \<noteq> 58) path)
        in if n < length path then n + 1 else length path
      else 1)"

definition ParsePath :: "bytes \<Rightarrow> (pathError + bytes) option" where
  "ParsePath path =
     (if length path = 0 then Some (Inl ErrEmptyPath)
      else if path ! 0 \<noteq> 60 then Some (Inl ErrMissingOpening)
      else if path ! (length path - 1) \<noteq> 62 then Some (Inl ErrMissingClosing)
      else if length path = 2 then Some (Inr [])
      else do {
        mb \<leftarrow> subslice path (skip_route path) (length path - 1);
        mb \<leftarrow> ParseMailbox mb;
        if mb = [] then Some (Inl ErrInvalidMailbox) else Some (Inr mb) })"

subsection \<open>Dot-atoms\<close>

text \<open>The form of a local part or a domain: words of allowed bytes, separated by single dots.\<close>

fun atoms :: "bytes \<Rightarrow> bool \<Rightarrow> bytes \<Rightarrow> bool" where
  "atoms allow start [] = (\<not> start)"
| "atoms allow start (c # cs) =
     (if c = 46 then \<not> start \<and> atoms allow True cs
      else (IsAlnum c \<or> c \<in> set allow) \<and> atoms allow False cs)"

definition dot_atom :: "bytes \<Rightarrow> bytes \<Rightarrow> bool" where
  "dot_atom allow s \<longleftrightarrow> atoms allow True s"

lemma atoms_snoc:
  "IsAlnum c \<or> c \<in> set allow \<Longrightarrow> c \<noteq> 46 \<Longrightarrow> atoms allow False s \<Longrightarrow>
   atoms allow False (s @ [c]) \<and> atoms allow False (s @ [46, c])"
  by (induction s rule: induct_list012) (auto split: if_splits)

lemma not_alnum [simp]: "\<not> IsAlnum 46" "\<not> IsAlnum 40" "\<not> IsAlnum 34" "\<not> IsAlnum 64"
  by (simp_all add: IsAlnum_def IsAlpha_def IsDigit_def)

lemma atoms_last: "atoms allow start s \<Longrightarrow> s \<noteq> [] \<Longrightarrow> last s \<noteq> 46"
  by (induction s arbitrary: start) (auto split: if_splits)

lemma atoms_set: "atoms allow start s \<Longrightarrow> b \<in> set s \<Longrightarrow> b = 46 \<or> IsAlnum b \<or> b \<in> set allow"
  by (induction s arbitrary: start) (auto split: if_splits)

text \<open>Without comments the loop checks and copies; a dot waits for the byte after it.\<close>

lemma localDomain_loop_copies:
  assumes "40 \<notin> set cs" "cs \<noteq> []" "last cs \<noteq> 46" "46 \<notin> set allow"
  shows "localDomain_loop allow isDot out cs = (if atoms allow isDot cs then out @ (if isDot then [46] else []) @ cs else [])"
  using assms(1-3)
proof (induction cs arbitrary: isDot out)
  case (Cons c cs)
  show ?case
  proof (cases "cs = []")
    case True
    with Cons.prems show ?thesis by (auto simp: Let_def)
  next
    case False
    with Cons.prems have p: "40 \<notin> set cs" "last cs \<noteq> 46" by auto
    show ?thesis using Cons.prems(1) Cons.IH [OF p(1) False p(2)] assms(4) by (auto simp: Let_def)
  qed
qed simp

lemma parseLocalDomain_plain:
  assumes "40 \<notin> set data" "data \<noteq> []" "46 \<notin> set allow"
  shows "parseLocalDomain data allow = Some (if dot_atom allow data then data else [])"
proof -
  have z: "idx data 0 = Some (hd data)" "idxi data (int (length data) - 1) = Some (last data)"
    using assms(2) by (simp_all add: idxi_last hd_conv_nth)
  have "last data = 46 \<or> hd data = 46 \<Longrightarrow> \<not> dot_atom allow data"
    using atoms_last [of allow True data] assms(2) by (cases data) (auto simp: dot_atom_def)
  moreover have "hd data \<noteq> 46 \<Longrightarrow> atoms allow False data = atoms allow True data" using assms(2) by (cases data) auto
  ultimately show ?thesis
    using localDomain_loop_copies [OF assms(1,2) _ assms(3), of False "[]"]
    by (auto simp: parseLocalDomain_def z dot_atom_def)
qed

text \<open>With comments the result still has no two dots in a row and none at the end.\<close>

lemma localDomain_loop_atoms:
  assumes "46 \<notin> set allow" "atoms allow False out"
  shows "atoms allow False (localDomain_loop allow isDot out cs)"
  using assms
proof (induction allow isDot out cs rule: localDomain_loop.induct)
  case (2 allow isDot out c cs)
  show ?case
  proof (cases "c = 40 \<or> isDot \<and> c = 46")
    case True
    then show ?thesis using 2(1) 2(5,6) by (auto split: list.splits)
  next
    case False
    define o1 where "o1 = (if isDot then out @ [46] else out)"
    have step: "IsAlnum c \<or> c \<in> set allow \<Longrightarrow> atoms allow False (o1 @ [c])"
      using 2(5,6) atoms_snoc [of c allow out] by (cases "c = 46") (auto simp: o1_def)
    show ?thesis
    proof (cases "IsAlnum c \<or> c \<in> set allow")
      case T: True
      then have "localDomain_loop allow isDot out (c # cs) = localDomain_loop allow False (o1 @ [c]) cs"
        using False by (auto simp: o1_def Let_def)
      moreover have "atoms allow False (localDomain_loop allow False (o1 @ [c]) cs)"
        using T 2(2,3) False step [OF T] 2(5) unfolding o1_def by (cases "IsAlnum c") auto
      ultimately show ?thesis by simp
    next
      case F: False
      then show ?thesis using False 2(4) 2(5,6) by (auto simp: Let_def)
    qed
  qed
qed auto

subsection \<open>Mailboxes\<close>

lemma LastIndex_last: "b \<notin> set ys \<Longrightarrow> LastIndex b (xs @ b # ys) = Some (length xs)"
proof -
  assume "b \<notin> set ys"
  then have "LastIndex b ys = None" by (induction ys) auto
  then show ?thesis by (induction xs) auto
qed

lemma LastIndex_None: "LastIndex b xs = None \<longleftrightarrow> b \<notin> set xs"
  by (induction xs) (auto split: option.splits)

lemma LastIndex_Some: "LastIndex b xs = Some i \<Longrightarrow> i < length xs \<and> xs ! i = b \<and> b \<notin> set (drop (i + 1) xs)"
proof (induction xs arbitrary: i)
  case (Cons x xs)
  then show ?case by (auto split: option.splits if_splits simp: LastIndex_None)
qed simp

lemma allow_sets [simp]: "46 \<notin> set allowOnLocal" "46 \<notin> set allowOnDomain" "40 \<notin> set allowOnLocal" "40 \<notin> set allowOnDomain"
  "34 \<notin> set allowOnLocal" "64 \<notin> set allowOnLocal" "64 \<notin> set allowOnDomain" "91 \<notin> set allowOnDomain"
  by (simp_all add: allowOnLocal_def allowOnDomain_def str_def)

lemma dot_atom_bytes:
  assumes "dot_atom allow s" "b \<in> set s"
  shows "b = 46 \<or> IsAlnum b \<or> b \<in> set allow"
  using atoms_set [of allow True s b] assms by (simp add: dot_atom_def)

lemma dot_atom_ne [simp]: "\<not> dot_atom allow []"
  by (simp add: dot_atom_def)

text \<open>A plain address: two dot-atoms.\<close>

definition plain_address :: "bytes \<Rightarrow> bool" where
  "plain_address a \<longleftrightarrow> (\<exists>l d. a = l @ 64 # d \<and> dot_atom allowOnLocal l \<and> dot_atom allowOnDomain d)"

lemma ParseMailbox_plain:
  assumes "dot_atom allowOnLocal l" "dot_atom allowOnDomain d"
  shows "ParseMailbox (l @ 64 # d) = Some (l @ 64 # d)"
proof -
  have l: "l \<noteq> []" "40 \<notin> set l" "34 \<notin> set l" using assms(1) dot_atom_bytes [OF assms(1), of 40] dot_atom_bytes [OF assms(1), of 34] by auto
  have d: "d \<noteq> []" "40 \<notin> set d" "64 \<notin> set d" "91 \<notin> set d"
    using assms(2) dot_atom_bytes [OF assms(2), of 40] dot_atom_bytes [OF assms(2), of 64] dot_atom_bytes [OF assms(2), of 91]
    by (auto simp: IsAlnum_def IsAlpha_def IsDigit_def)
  have hd: "l ! 0 \<noteq> 34" using l(1,3) by (cases l) auto
  have dom: "parseDomainAddress d = Some d"
  proof -
    have "d ! 0 \<noteq> 91" using d(1,4) by (cases d) auto
    moreover have "idxi d (int (length d) - 1) = Some (last d)"
      using d(1) by (rule idxi_last)
    ultimately show ?thesis using d(1) parseLocalDomain_plain [OF d(2,1), of allowOnDomain] assms(2)
      by (simp add: parseDomainAddress_def idx_in)
  qed
  show ?thesis
    using LastIndex_last [OF d(3), of l] hd parseLocalDomain_plain [OF l(2,1), of allowOnLocal] assms(1) dom d(1) l(1)
    by (simp add: ParseMailbox_def Let_def idx_in)
qed

lemma ParsePath_plain:
  assumes "plain_address a"
  shows "ParsePath (60 # a @ [62]) = Some (Inr a)"
proof -
  obtain l d where a: "a = l @ 64 # d" "dot_atom allowOnLocal l" "dot_atom allowOnDomain d"
    using assms by (auto simp: plain_address_def)
  have "l \<noteq> []" "64 \<notin> set l" using a(2) dot_atom_bytes [OF a(2), of 64] by auto
  then have "hd l \<noteq> 64" by (metis hd_in_set)
  then have "skip_route (60 # a @ [62]) = 1" using \<open>l \<noteq> []\<close> by (cases l) (auto simp: skip_route_def a(1))
  moreover have "subslice (60 # a @ [62]) 1 (length a + 1) = Some a" by (simp add: subslice_def)
  ultimately show ?thesis using ParseMailbox_plain [OF a(2,3)] a(1) by (simp add: ParsePath_def nth_append)
qed

subsection \<open>What a mailbox looks like\<close>

lemma parseLocalDomain_atoms:
  "parseLocalDomain data allow = Some out \<Longrightarrow> 46 \<notin> set allow \<Longrightarrow> atoms allow False out"
  using localDomain_loop_atoms [of allow "[]" False data]
  by (auto simp: parseLocalDomain_def bind_eq_Some_conv split: if_splits)

text \<open>
  C25: What a mailbox with an unquoted local part looks like: when \<open>ParseMailbox\<close> accepts data with an
  at sign that does not start with a quote, the result is a local part and a domain with an at sign
  between them; the local part consists of letters, digits, the allowed punctuation and dots, with no
  two dots in a row and none at the end, so comments, quotes, spaces and line ends are gone; and the
  domain is either of the same form with its own punctuation, or it stands in square brackets and is
  what follows the last at sign of the data, unchecked and as it is.
\<close>

theorem mailbox_form:
  assumes "ParseMailbox data = Some mb" "mb \<noteq> []" "64 \<in> set data" "data ! 0 \<noteq> 34"
  shows "\<exists>l d. mb = l @ 64 # d \<and> l \<noteq> [] \<and> d \<noteq> [] \<and> atoms allowOnLocal False l \<and>
    (atoms allowOnDomain False d \<or> d ! 0 = 91 \<and> last d = 93 \<and> 64 \<notin> set d \<and> (\<exists>pre. data = pre @ 64 # d))"
proof -
  have "data \<noteq> []" using assms(3) by auto
  obtain i where i: "LastIndex 64 data = Some i" using LastIndex_None [of 64 data] assms(3) by fastforce
  define lp where "lp = take i data"
  have "lp \<noteq> []" using assms(1) i \<open>data \<noteq> []\<close> by (auto simp: ParseMailbox_def lp_def Let_def bind_eq_Some_conv)
  then have l0: "idx lp 0 = Some (data ! 0)" by (auto simp: lp_def)
  obtain l d where l: "parseLocalDomain lp allowOnLocal = Some l" "l \<noteq> []" and
    d: "parseDomainAddress (drop (i + 1) data) = Some d" "d \<noteq> []" and mb: "mb = l @ 64 # d"
    using assms(1,2,4) i \<open>data \<noteq> []\<close> l0
    by (auto simp: ParseMailbox_def lp_def [symmetric] Let_def bind_eq_Some_conv split: if_splits)
  have split: "data = take i data @ 64 # drop (i + 1) data" "64 \<notin> set (drop (i + 1) data)"
    using LastIndex_Some [OF i] id_take_nth_drop [of i data] by auto
  have "atoms allowOnDomain False d \<or> d ! 0 = 91 \<and> last d = 93 \<and> d = drop (i + 1) data"
  proof (cases "drop (i + 1) data = []")
    case True
    then show ?thesis using d(1) by (simp add: parseDomainAddress_def idx_def)
  next
    case False
    then show ?thesis using d(1) parseLocalDomain_atoms [of "drop (i + 1) data" allowOnDomain d] idxi_last [OF False]
      by (auto simp: parseDomainAddress_def bind_eq_Some_conv split: if_splits)
  qed
  moreover have "atoms allowOnLocal False l" using parseLocalDomain_atoms [OF l(1)] by simp
  ultimately show ?thesis using mb l(2) d(2) split by metis
qed

theorem mailbox_form_witness:
  "ParseMailbox (str ''a(x).b@c'') = Some (str ''a.b@c'') \<and>
   (\<exists>l d. str ''a.b@c'' = l @ 64 # d \<and> l \<noteq> [] \<and> d \<noteq> [] \<and> atoms allowOnLocal False l \<and>
    (atoms allowOnDomain False d \<or> d ! 0 = 91 \<and> last d = 93 \<and> 64 \<notin> set d \<and> (\<exists>pre. str ''a(x).b@c'' = pre @ 64 # d)))"
proof
  show p: "ParseMailbox (str ''a(x).b@c'') = Some (str ''a.b@c'')" by code_simp
  show "\<exists>l d. str ''a.b@c'' = l @ 64 # d \<and> l \<noteq> [] \<and> d \<noteq> [] \<and> atoms allowOnLocal False l \<and>
    (atoms allowOnDomain False d \<or> d ! 0 = 91 \<and> last d = 93 \<and> 64 \<notin> set d \<and> (\<exists>pre. str ''a(x).b@c'' = pre @ 64 # d))"
    by (rule mailbox_form [OF p]) (simp_all add: str_def)
qed

text \<open>A domain in brackets is not looked at: spaces and line ends go through.\<close>

theorem bracket_domain_unchecked:
  "ParseMailbox (str ''a@'' @ [91, 32, 13, 10, 93]) = Some (str ''a@'' @ [91, 32, 13, 10, 93])"
  by code_simp

end
