(* ===== verification/SmtpCommand.thy ===== *)
theory SmtpCommand
  imports SmtpPath
begin

section \<open>SMTP commands (lib/smtp/command.go, error.go)\<close>

text \<open>
  A command line and its parts. Only the equality of the numbers of \<open>CommandKind\<close> is used, so it is
  a datatype. An error is a value of \<open>lib/errors\<close> with its code and text, or another error with
  its text.
\<close>

datatype smtpError = ErrE int bytes | ErrOther bytes

definition StatusHelp :: int where "StatusHelp = 214"
definition StatusReady :: int where "StatusReady = 220"
definition StatusClosing :: int where "StatusClosing = 221"
definition StatusAuthenticated :: int where "StatusAuthenticated = 235"
definition StatusOK :: int where "StatusOK = 250"
definition StatusAuthReady :: int where "StatusAuthReady = 334"
definition StatusDataReady :: int where "StatusDataReady = 354"
definition StatusLocalError :: int where "StatusLocalError = 451"
definition StatusNoStorage :: int where "StatusNoStorage = 452"
definition StatusCmdUnknown :: int where "StatusCmdUnknown = 500"
definition StatusCmdTooLong :: int where "StatusCmdTooLong = 500"
definition StatusCmdSyntaxError :: int where "StatusCmdSyntaxError = 501"
definition StatusCmdNotImplemented :: int where "StatusCmdNotImplemented = 502"
definition StatusCmdBadSequence :: int where "StatusCmdBadSequence = 503"
definition StatusParamUnimplemented :: int where "StatusParamUnimplemented = 504"
definition StatusNotAuthenticated :: int where "StatusNotAuthenticated = 530"
definition StatusInvalidCredential :: int where "StatusInvalidCredential = 535"
definition StatusMailboxNotFound :: int where "StatusMailboxNotFound = 550"

lemmas smtp_status = StatusHelp_def StatusReady_def StatusClosing_def StatusAuthenticated_def StatusOK_def
  StatusAuthReady_def StatusDataReady_def StatusLocalError_def StatusNoStorage_def StatusCmdUnknown_def
  StatusCmdTooLong_def StatusCmdSyntaxError_def StatusCmdNotImplemented_def StatusCmdBadSequence_def
  StatusParamUnimplemented_def StatusNotAuthenticated_def StatusInvalidCredential_def StatusMailboxNotFound_def

definition ErrInvalidCredential :: smtpError where
  "ErrInvalidCredential = ErrE StatusInvalidCredential (str ''5.7.8 Authentication credentials invalid'')"

definition errCmdSyntaxError :: smtpError where
  "errCmdSyntaxError = ErrE StatusCmdSyntaxError (str ''Syntax error in parameter or arguments'')"

definition errCmdTooLong :: smtpError where
  "errCmdTooLong = ErrE StatusCmdTooLong (str ''Line too long'')"

definition errCmdUnknown :: smtpError where
  "errCmdUnknown = ErrE StatusCmdUnknown (str ''Syntax error, command unknown'')"

definition errAuthMechanism :: smtpError where
  "errAuthMechanism = ErrE StatusParamUnimplemented (str ''5.5.4 Command parameter not implemented'')"

definition errNotAuthenticated :: smtpError where
  "errNotAuthenticated = ErrE StatusNotAuthenticated (str ''5.7.0 Authentication required'')"

definition errBadSequence :: smtpError where
  "errBadSequence = ErrE StatusCmdBadSequence (str ''Bad sequence of commands'')"

datatype CommandKind =
    CommandZERO | CommandHELO | CommandEHLO | CommandAUTH | CommandMAIL | CommandRCPT | CommandDATA | CommandRSET
  | CommandVRFY | CommandEXPN | CommandHELP | CommandNOOP | CommandQUIT

record Command =
  cmd_Kind :: CommandKind
  cmd_Arg :: bytes
  cmd_Param :: bytes
  cmd_Params :: "bytes \<Rightarrow> bytes option"

definition newCommand :: Command where
  "newCommand = \<lparr>cmd_Kind = CommandZERO, cmd_Arg = [], cmd_Param = [], cmd_Params = Map.empty\<rparr>"

text \<open>
  \<open>parseParams\<close>: a key runs up to an equals sign, a value up to a space; a key at the end of the
  line, with or without an equals sign, is dropped.
\<close>

function parseParams_loop :: "(bytes \<Rightarrow> bytes option) \<Rightarrow> bytes \<Rightarrow> (bytes \<Rightarrow> bytes option)" where
  "parseParams_loop params line =
     (if line = [] then params
      else let line = dropWhile (\<lambda>b. b = 32) line;
               k = takeWhile (\<lambda>b. b \<noteq> 61) line;
               line = drop 1 (dropWhile (\<lambda>b. b \<noteq> 61) line)
           in if line = [] then params
              else let v = takeWhile (\<lambda>b. b \<noteq> 32) line;
                       line = drop 1 (dropWhile (\<lambda>b. b \<noteq> 32) line)
                   in parseParams_loop (if length k > 0 \<and> length v > 0 then params(k \<mapsto> v) else params) line)"
  by pat_completeness auto
termination
proof (relation "measure (\<lambda>(_, l). length l)", goal_cases)
  case (2 params line l1 k l2 v l3)
  have "length l3 \<le> length l2 - 1" "length l2 \<le> length l1 - 1" "length l1 \<le> length line"
    using 2 length_dropWhile_le [of "\<lambda>b. b \<noteq> 32" l2] length_dropWhile_le [of "\<lambda>b. b \<noteq> 61" l1]
      length_dropWhile_le [of "\<lambda>b. b = 32" line] by auto
  moreover have "l2 \<noteq> []" using 2 by simp
  ultimately show ?case by (cases l2) auto
qed simp

declare parseParams_loop.simps [simp del]

definition parseParams :: "Command \<Rightarrow> bytes \<Rightarrow> Command" where
  "parseParams cmd line = cmd\<lparr>cmd_Params := parseParams_loop (cmd_Params cmd) line\<rparr>"

text \<open>The position of the last closing bracket; 0 when there is none after the first byte.\<close>

definition closing :: "bytes \<Rightarrow> nat" where
  "closing b = (case LastIndex 62 b of None \<Rightarrow> 0 | Some x \<Rightarrow> x)"

definition cmd_parsePath :: "Command \<Rightarrow> bytes \<Rightarrow> (Command \<times> smtpError option) option" where
  "cmd_parsePath cmd b =
     (if length b = 0 then Some (cmd, Some errCmdSyntaxError)
      else if b ! 0 \<noteq> 60 then Some (cmd, Some errCmdSyntaxError)
      else let x = closing b
           in if x = 0 then Some (cmd, Some errCmdSyntaxError)
              else do {
                r \<leftarrow> ParsePath (take (x + 1) b);
                case r of
                  Inl _ \<Rightarrow> Some (cmd, Some errCmdSyntaxError)
                | Inr mb \<Rightarrow> Some (parseParams (cmd\<lparr>cmd_Arg := mb\<rparr>) (drop (x + 1) b), None) })"

definition cmd_reset :: "Command \<Rightarrow> Command" where
  "cmd_reset cmd = cmd\<lparr>cmd_Arg := [], cmd_Params := Map.empty\<rparr>"

text \<open>A command whose name is in \<open>cmds[0]\<close>, with an optional or a required argument.\<close>

definition opt_arg :: "Command \<Rightarrow> CommandKind \<Rightarrow> bytes \<Rightarrow> Command \<times> smtpError option" where
  "opt_arg cmd k arg =
     (let cmd = cmd\<lparr>cmd_Kind := k\<rparr> in (if length arg > 0 then cmd\<lparr>cmd_Arg := arg\<rparr> else cmd, None))"

definition req_arg :: "Command \<Rightarrow> CommandKind \<Rightarrow> bytes \<Rightarrow> Command \<times> smtpError option" where
  "req_arg cmd k arg =
     (if length arg = 0 then (cmd, Some errCmdSyntaxError) else (cmd\<lparr>cmd_Arg := arg, cmd_Kind := k\<rparr>, None))"

definition path_arg :: "Command \<Rightarrow> CommandKind \<Rightarrow> bytes \<Rightarrow> (Command \<times> smtpError option) option" where
  "path_arg cmd k b = do {
     (cmd, err) \<leftarrow> cmd_parsePath cmd b;
     Some (if err \<noteq> None then (cmd, err) else (cmd\<lparr>cmd_Kind := k\<rparr>, None)) }"

definition cmd_unpack :: "Command \<Rightarrow> bytes \<Rightarrow> (Command \<times> smtpError option) option" where
  "cmd_unpack cmd b =
     (if length b < 6 then Some (cmd, Some errCmdUnknown)
      else if length b > 512 then Some (cmd, Some errCmdTooLong)
      else if drop (length b - 2) b \<noteq> [13, 10] then Some (cmd, Some errCmdSyntaxError)
      else let b = TrimRight 32 (take (length b - 2) b);
               cmds = split_byte 32 b;
               cmdName = bytes_ToLower (cmds ! 0);
               arg = (if length cmds > 1 then TrimSpace (cmds ! 1) else [])
           in do {
             c \<leftarrow> idx cmdName 0;
             if c = 97 \<and> cmdName = str ''auth'' then
               (if length cmds = 1 \<or> length cmds > 3 then Some (cmd, Some errCmdSyntaxError)
                else let cmd = cmd\<lparr>cmd_Arg := arg\<rparr>;
                         cmd = (if length cmds = 3 then cmd\<lparr>cmd_Param := cmds ! 2\<rparr> else cmd)
                     in Some (cmd\<lparr>cmd_Kind := CommandAUTH\<rparr>, None))
             else if c = 100 \<and> cmdName = str ''data'' then Some (cmd\<lparr>cmd_Kind := CommandDATA\<rparr>, None)
             else if c = 101 \<and> cmdName = str ''ehlo'' then Some (opt_arg cmd CommandEHLO arg)
             else if c = 101 \<and> cmdName = str ''expn'' then Some (req_arg cmd CommandEXPN arg)
             else if c = 104 \<and> cmdName = str ''helo'' then Some (opt_arg cmd CommandHELO arg)
             else if c = 104 \<and> cmdName = str ''help'' then Some (opt_arg cmd CommandHELP arg)
             else if c = 109 \<and> length b \<ge> 10 \<and> EqualFold (str ''mail from:'') (take 10 b) then path_arg cmd CommandMAIL (drop 10 b)
             else if c = 110 \<and> cmdName = str ''noop'' then Some (cmd\<lparr>cmd_Kind := CommandNOOP\<rparr>, None)
             else if c = 113 \<and> cmdName = str ''quit'' then Some (cmd\<lparr>cmd_Kind := CommandQUIT\<rparr>, None)
             else if c = 114 \<and> length b \<ge> 8 \<and> EqualFold (str ''rcpt to:'') (take 8 b) then path_arg cmd CommandRCPT (drop 8 b)
             else if c = 114 \<and> cmdName = str ''rset'' then Some (cmd\<lparr>cmd_Kind := CommandRSET\<rparr>, None)
             else if c = 118 \<and> cmdName = str ''vrfy'' then Some (req_arg cmd CommandVRFY arg)
             else Some (cmd, Some errCmdUnknown) })"

subsection \<open>Command lines of a client\<close>

definition smtp_line :: "bytes \<Rightarrow> bytes" where
  "smtp_line s = s @ [13, 10]"

lemma smtp_line_parts:
  assumes "4 \<le> length s" "length s \<le> 510" "last s \<noteq> 32"
  shows "\<not> length (smtp_line s) < 6" "\<not> length (smtp_line s) > 512"
    "drop (length (smtp_line s) - 2) (smtp_line s) = [13, 10]"
    "TrimRight 32 (take (length (smtp_line s) - 2) (smtp_line s)) = s"
  using assms by (simp_all add: smtp_line_def TrimRight_no)

lemma plain_address_bytes:
  assumes "plain_address a"
  shows "a \<noteq> []" "32 \<notin> set a" "62 \<notin> set a" "last a \<noteq> 32"
proof -
  obtain l d where a: "a = l @ 64 # d" "dot_atom allowOnLocal l" "dot_atom allowOnDomain d"
    using assms by (auto simp: plain_address_def)
  have s: "\<not> IsAlnum 32" "\<not> IsAlnum 62" "32 \<notin> set allowOnLocal" "62 \<notin> set allowOnLocal" "32 \<notin> set allowOnDomain" "62 \<notin> set allowOnDomain"
    by (simp_all add: IsAlnum_def IsAlpha_def IsDigit_def allowOnLocal_def allowOnDomain_def str_def)
  show "a \<noteq> []" by (simp add: a(1))
  show n: "32 \<notin> set a" "62 \<notin> set a"
    using a(1) s dot_atom_bytes [OF a(2)] dot_atom_bytes [OF a(3)] by fastforce+
  show "last a \<noteq> 32" using n(1) by (metis \<open>a \<noteq> []\<close> last_in_set)
qed

lemma cmd_parsePath_plain:
  assumes "plain_address a"
  shows "cmd_parsePath cmd (60 # a @ [62]) = Some (cmd\<lparr>cmd_Arg := a\<rparr>, None)"
proof -
  have "closing (60 # a @ [62]) = length a + 1"
    using LastIndex_last [of 62 "[]" "60 # a"] by (simp add: closing_def)
  then show ?thesis
    using ParsePath_plain [OF assms]
    by (simp add: cmd_parsePath_def Let_def parseParams_def parseParams_loop.simps [of _ "[]"])
qed

text \<open>The lines that a client sends for a mail.\<close>

lemma unpack_MAIL:
  assumes "plain_address a" "length a \<le> 498"
  shows "cmd_unpack cmd (smtp_line (str ''MAIL FROM:<'' @ a @ str ''>'')) = Some (cmd\<lparr>cmd_Arg := a, cmd_Kind := CommandMAIL\<rparr>, None)"
proof -
  define s where "s = str ''MAIL FROM:<'' @ a @ str ''>''"
  have len: "4 \<le> length s" "length s \<le> 510" "last s \<noteq> 32" using assms(2) by (simp_all add: s_def str_def)
  note p = smtp_line_parts [OF len]
  have s: "s = str ''MAIL'' @ 32 # (str ''FROM:<'' @ a @ str ''>'')" by (simp add: s_def str_def)
  have cmds: "split_byte 32 s = str ''MAIL'' # split_byte 32 (str ''FROM:<'' @ a @ str ''>'')"
    unfolding s by (rule split_byte_append) (simp add: str_def)
  have t: "take 10 s = str ''MAIL FROM:''" "drop 10 s = 60 # a @ [62]" "length s \<ge> 10" by (simp_all add: s_def str_def)
  have n: "bytes_ToLower (str ''MAIL'') = str ''mail''" by (simp add: str_def)
  show ?thesis
    unfolding s_def [symmetric] cmd_unpack_def
    by (simp only: p if_False not_True_eq_False simp_thms Let_def cmds nth_Cons_0 n)
      (simp add: t EqualFold_def ascii_lower_def path_arg_def cmd_parsePath_plain [OF assms(1)] str_def idx_def)
qed

lemma unpack_RCPT:
  assumes "plain_address a" "length a \<le> 498"
  shows "cmd_unpack cmd (smtp_line (str ''RCPT TO:<'' @ a @ str ''>'')) = Some (cmd\<lparr>cmd_Arg := a, cmd_Kind := CommandRCPT\<rparr>, None)"
proof -
  define s where "s = str ''RCPT TO:<'' @ a @ str ''>''"
  have len: "4 \<le> length s" "length s \<le> 510" "last s \<noteq> 32" using assms(2) by (simp_all add: s_def str_def)
  note p = smtp_line_parts [OF len]
  have s: "s = str ''RCPT'' @ 32 # (str ''TO:<'' @ a @ str ''>'')" by (simp add: s_def str_def)
  have cmds: "split_byte 32 s = str ''RCPT'' # split_byte 32 (str ''TO:<'' @ a @ str ''>'')"
    unfolding s by (rule split_byte_append) (simp add: str_def)
  have t: "take 8 s = str ''RCPT TO:''" "drop 8 s = 60 # a @ [62]" "length s \<ge> 8" by (simp_all add: s_def str_def)
  have n: "bytes_ToLower (str ''RCPT'') = str ''rcpt''" by (simp add: str_def)
  show ?thesis
    unfolding s_def [symmetric] cmd_unpack_def
    by (simp only: p if_False not_True_eq_False simp_thms Let_def cmds nth_Cons_0 n)
      (simp add: t EqualFold_def ascii_lower_def path_arg_def cmd_parsePath_plain [OF assms(1)] str_def idx_def)
qed

lemma unpack_DATA: "cmd_unpack cmd (smtp_line (str ''DATA'')) = Some (cmd\<lparr>cmd_Kind := CommandDATA\<rparr>, None)"
  by (simp add: cmd_unpack_def smtp_line_def str_def TrimRight_def idx_def Let_def)

end
