(* ===== verification/SmtpResponse.thy ===== *)
theory SmtpResponse
  imports SmtpCommand
begin

section \<open>SMTP responses (lib/smtp/response.go, the reply of receiver.go)\<close>

text \<open>
  The reply that the server writes (\<open>sendReply\<close>) and the parser of the client (\<open>NewResponse\<close>).
\<close>

record smtpResponse =
  rs_Code :: int
  rs_Message :: bytes
  rs_Body :: "bytes list"

text \<open>The text of a reply: every line but the last has a dash after the code.\<close>

fun reply_body :: "int \<Rightarrow> bytes list \<Rightarrow> bytes" where
  "reply_body code [] = []"
| "reply_body code [l] = Itoa code @ [32] @ l @ [13, 10]"
| "reply_body code (l # ls) = Itoa code @ [45] @ l @ [13, 10] @ reply_body code ls"

definition reply_text :: "int \<Rightarrow> bytes \<Rightarrow> bytes list \<Rightarrow> bytes" where
  "reply_text code msg body =
     Itoa code @ (if length body = 0 then [32] else [45]) @ msg @ [13, 10] @ reply_body code body"

datatype responseError =
    ErrResponseLength | ErrResponseCode | ErrMessageCRLF | ErrMessageTrailing | ErrBodySep | ErrBodyCode
  | ErrBodyCRLF | ErrBodyTrailing

text \<open>The code, whether there are more lines, and the bytes of the code.\<close>

definition parseCode :: "bytes \<Rightarrow> responseError + (int \<times> bool \<times> bytes)" where
  "parseCode raw =
     (let code = take 3 raw
      in if \<not> list_all IsDigit code then Inl ErrResponseCode
         else case Atoi code of
                None \<Rightarrow> Inl ErrResponseCode
              | Some n \<Rightarrow> Inr (n, raw ! 3 = 45, code))"

definition parseMessage :: "Reader \<Rightarrow> bool \<Rightarrow> (Reader \<times> bytes \<times> responseError option) option" where
  "parseMessage r isMultiline = do {
     (r, bb, _, c) \<leftarrow> ReadUntil r [] [10];
     if c = 0 then Some (r, [], Some ErrMessageCRLF)
     else let (r, c) = SkipSpaces r
          in if \<not> isMultiline \<and> c \<noteq> 0 then Some (r, TrimSpace bb, Some ErrMessageTrailing)
             else Some (r, TrimSpace bb, None) }"

function parseBody :: "Reader \<Rightarrow> bytes \<Rightarrow> bytes list \<Rightarrow> (bytes list \<times> responseError option) option" where
  "parseBody r code body =
     (case ReadUntil r [45, 32] [10] of
        None \<Rightarrow> None
      | Some (r1, bb, _, c) \<Rightarrow>
          if c \<noteq> 45 \<and> c \<noteq> 32 then Some (body, Some ErrBodySep)
          else if bb \<noteq> code then Some (body, Some ErrBodyCode)
          else case ReadUntil r1 [] [10] of
                 None \<Rightarrow> None
               | Some (r2, bb, _, d) \<Rightarrow>
                   if d = 0 then Some (body, Some ErrBodyCRLF)
                   else let bb = TrimSpace bb;
                            body = (if length bb > 0 then body @ [bb] else body)
                        in if c = 32 then
                             (if snd (SkipSpaces r2) \<noteq> 0 then Some (body, Some ErrBodyTrailing) else Some (body, None))
                           else parseBody r2 code body)"
  by pat_completeness auto

lemma ReadUntil_char:
  assumes "ReadUntil r seps terms = Some (r1, tok, isTerm, c)" "c \<noteq> 0"
  shows "length (unread r1) < length (unread r)"
proof -
  have "reader_ok r"
  proof (rule ccontr)
    assume n: "\<not> reader_ok r"
    then have "drop (rX r) (rV r) = []" by (simp add: reader_ok_def)
    then show False using assms n by (simp add: ReadUntil_def go_defs reader_ok_def)
  qed
  from ReadUntil_ok [OF this, of seps terms] assms show ?thesis by (auto simp: reader_ok_def)
qed

termination parseBody
proof (relation "measure (\<lambda>(r, _). length (unread r))", goal_cases)
  case (2 r code body a r1 p1 bb p2 t c a2 r2 p3 bb2 p4 t2 d)
  then have "ReadUntil r [45, 32] [10] = Some (r1, bb, t, c)" "c \<noteq> 0" "ReadUntil r1 [] [10] = Some (r2, bb2, t2, d)" "d \<noteq> 0"
    by auto
  from ReadUntil_char [OF this(1,2)] ReadUntil_char [OF this(3,4)] show ?case by simp
qed simp

declare parseBody.simps [simp del]

text \<open>A response of no bytes is \<open>nil\<close> without an error.\<close>

definition NewResponse :: "bytes \<Rightarrow> (smtpResponse option \<times> responseError option) option" where
  "NewResponse raw =
     (if length raw = 0 then Some (None, None)
      else if length raw < 5 then Some (None, Some ErrResponseLength)
      else case parseCode raw of
             Inl e \<Rightarrow> Some (None, Some e)
           | Inr (n, isMultiline, code) \<Rightarrow> do {
               (r, msg, err) \<leftarrow> parseMessage \<lparr>rX = 0, rV = drop 4 raw\<rparr> isMultiline;
               if err \<noteq> None then Some (None, err)
               else if \<not> isMultiline then Some (Some \<lparr>rs_Code = n, rs_Message = msg, rs_Body = []\<rparr>, None)
               else do {
                 (body, err) \<leftarrow> parseBody r code [];
                 Some (Some \<lparr>rs_Code = n, rs_Message = msg, rs_Body = body\<rparr>, err) } })"

subsection \<open>Reading back a reply\<close>

text \<open>The reader after a token.\<close>

lemma ReadUntil_unread:
  assumes "reader_ok r" "unread r = t @ c # rest" "set t \<inter> (set terms \<union> set seps) = {}" "c \<in> set terms \<union> set seps"
  obtains r1 where "ReadUntil r seps terms = Some (r1, t, c \<in> set terms, c)" "reader_ok r1" "unread r1 = rest"
proof (rule that)
  show "ReadUntil r seps terms = Some (r\<lparr>rX := rX r + length t + 1\<rparr>, t, c \<in> set terms, c)"
    by (rule ReadUntil_token [OF assms])
  show "reader_ok (r\<lparr>rX := rX r + length t + 1\<rparr>)"
    using arg_cong [OF assms(2), of length] assms(1) by (simp add: reader_ok_def)
  show "unread (r\<lparr>rX := rX r + length t + 1\<rparr>) = rest"
    using arg_cong [OF assms(2), of "drop (length t + 1)"] by (simp add: add.commute)
qed

lemma SkipSpaces_none:
  assumes "unread r = [] \<or> \<not> IsSpace (hd (unread r))"
  shows "SkipSpaces r = (r, if unread r = [] then 0 else hd (unread r))"
  using assms by (cases "unread r") (simp_all add: SkipSpaces_def)

lemma digits3:
  assumes "100 \<le> code" "code \<le> 999"
  obtains a b c where "Itoa code = [a, b, c]" "IsDigit a" "IsDigit b" "IsDigit c"
proof -
  have l: "length (digits10 n) = (if n < 10 then 1 else length (digits10 (n div 10)) + 1)" for n
    by (subst digits10.simps) simp
  define n where "n = nat code"
  have n: "100 \<le> n" "n \<le> 999" using assms by (simp_all add: n_def)
  then have "\<not> n < 10" "\<not> n div 10 < 10" "n div 10 div 10 < 10" by linarith+
  then have "length (digits10 n) = 3" using l [of n] l [of "n div 10"] l [of "n div 10 div 10"] by simp
  then have "length (Itoa code) = 3" using assms by (simp add: Itoa_def n_def)
  moreover have "list_all IsDigit (Itoa code)" using assms digits10_decimal [of "nat code"] by (simp add: Itoa_def)
  ultimately show ?thesis using that by (auto simp: length_Suc_conv numeral_3_eq_3)
qed

text \<open>A line of printable text, and the line without the spaces around it.\<close>

definition printable :: "bytes \<Rightarrow> bool" where
  "printable l \<longleftrightarrow> list_all (\<lambda>b. 32 \<le> b \<and> b < 127) l"

definition trim :: "bytes \<Rightarrow> bytes" where
  "trim l = rev (dropWhile (\<lambda>b. b = 32) (rev (dropWhile (\<lambda>b. b = 32) l)))"

lemma printable_no_lf: "printable l \<Longrightarrow> 10 \<notin> set l"
  by (auto simp: printable_def list_all_iff)

lemma leading_32: "l = replicate (length (takeWhile (\<lambda>b. b = 32) l)) 32 @ dropWhile (\<lambda>b. b = 32) l"
proof -
  have "replicate (length (takeWhile (\<lambda>b. b = 32) l)) 32 = takeWhile (\<lambda>b. b = 32) l"
    by (rule replicate_length_same) (auto dest: set_takeWhileD)
  then show ?thesis by simp
qed

lemma trim_padding: "\<exists>a b. l = replicate a 32 @ trim l @ replicate b 32"
proof -
  let ?m = "dropWhile (\<lambda>b. b = 32) l"
  have "rev (rev ?m) = rev (replicate (length (takeWhile (\<lambda>b. b = 32) (rev ?m))) 32 @ dropWhile (\<lambda>b. b = 32) (rev ?m))"
    using leading_32 [of "rev ?m"] by (rule arg_cong)
  then have "?m = trim l @ replicate (length (takeWhile (\<lambda>b. b = 32) (rev ?m))) 32" by (simp add: trim_def)
  then show ?thesis using leading_32 [of l] by metis
qed

lemma trim_clean: "printable l \<Longrightarrow> clean_text (trim l)"
proof -
  assume p: "printable l"
  let ?m = "dropWhile (\<lambda>b. b = 32) l"
  let ?r = "dropWhile (\<lambda>b. b = 32) (rev ?m)"
  have "set (trim l) \<subseteq> set l" by (auto simp: trim_def dest!: set_dropWhileD)
  moreover have "trim l \<noteq> [] \<Longrightarrow> last (trim l) \<noteq> 32"
    using hd_dropWhile [of "\<lambda>b. b = 32" "rev ?m"] by (simp add: trim_def last_rev)
  moreover have "hd (trim l) \<noteq> 32" if ne: "trim l \<noteq> []"
  proof -
    have "?m = trim l @ replicate (length (takeWhile (\<lambda>b. b = 32) (rev ?m))) 32"
      using arg_cong [OF leading_32 [of "rev ?m"], of rev] by (simp add: trim_def)
    then have "hd (trim l) = hd ?m" "?m \<noteq> []" using ne by (metis hd_append2, metis append_is_Nil_conv)
    then show ?thesis using hd_dropWhile [of "\<lambda>b. b = 32" l] by simp
  qed
  ultimately show ?thesis using p by (auto simp: clean_text_def printable_def list_all_iff)
qed

lemma trim_id: "clean_text l \<Longrightarrow> trim l = l"
proof (cases "l = []")
  case False
  assume c: "clean_text l"
  then have "hd l \<noteq> 32" "hd (rev l) \<noteq> 32" using False by (simp_all add: clean_text_def hd_rev)
  then have "dropWhile (\<lambda>b. b = 32) l = l" "dropWhile (\<lambda>b. b = 32) (rev l) = rev l"
    using False by (cases l; cases "rev l"; simp)+
  then show ?thesis by (simp add: trim_def)
qed (simp add: trim_def)

lemma TrimSpace_lead: "TrimSpace (replicate a 32 @ s) = TrimSpace s"
  by (induction a) (simp_all add: TrimSpace_space)

lemma TrimSpace_padded:
  assumes "clean_text s"
  shows "TrimSpace (s @ replicate b 32 @ [13]) = s"
proof (cases "s = []")
  case True
  then show ?thesis using TrimSpace_cr [of "[]"] by (simp add: TrimSpace_lead clean_text_def)
next
  case False
  have "strip (map rev space_encs) (replicate b 32 @ x) = strip (map rev space_encs) x" for x
    by (induction b) (simp_all, subst strip.simps, simp add: space_encs_def)
  moreover have "strip (map rev space_encs) (13 # x) = strip (map rev space_encs) x" for x
    by (subst strip.simps) (simp add: space_encs_def)
  moreover have "strip space_encs (s @ x) = s @ x" for x
    using clean_ends [OF assms False] False space_enc_ends(1) by (intro strip_hd) (force simp: hd_append)+
  ultimately show ?thesis using TrimSpace_cr [OF assms] by (simp add: TrimSpace_def)
qed

lemma TrimSpace_line:
  assumes "printable l"
  shows "TrimSpace (l @ [13]) = trim l"
proof -
  obtain a b where l: "l = replicate a 32 @ trim l @ replicate b 32" using trim_padding by blast
  have "TrimSpace (l @ [13]) = TrimSpace (replicate a 32 @ trim l @ replicate b 32 @ [13])" using l by (metis append.assoc)
  then show ?thesis using TrimSpace_padded [OF trim_clean [OF assms]] by (simp add: TrimSpace_lead)
qed

lemma digit_bytes: "IsDigit d \<Longrightarrow> \<not> IsSpace d \<and> d \<noteq> 45 \<and> d \<noteq> 32 \<and> d \<noteq> 10 \<and> d \<noteq> 0"
  by (auto simp: IsDigit_def IsSpace_def Spaces_def)

lemma read_reply_line:
  assumes "100 \<le> code" "code \<le> 999" "printable l" "sep \<in> {45, 32}" "reader_ok r" "unread r = Itoa code @ sep # l @ 13 # 10 # rest"
  obtains r1 r2 where "ReadUntil r [45, 32] [10] = Some (r1, Itoa code, False, sep)"
    "ReadUntil r1 [] [10] = Some (r2, l @ [13], True, 10)" "reader_ok r2" "unread r2 = rest"
proof -
  obtain a b c where d: "Itoa code = [a, b, c]" "IsDigit a" "IsDigit b" "IsDigit c" using digits3 [OF assms(1,2)] .
  have s: "set (Itoa code) \<inter> (set [10] \<union> set [45, 32]) = {}" using d digit_bytes by auto
  have sep: "sep \<in> set [10] \<union> set [45, 32]" "(sep \<in> set [10]) = False" using assms(4) by auto
  obtain r1 where r1: "ReadUntil r [45, 32] [10] = Some (r1, Itoa code, False, sep)" "reader_ok r1" "unread r1 = l @ 13 # 10 # rest"
    using ReadUntil_unread [OF assms(5,6) s sep(1)] unfolding sep(2) by blast
  have u: "unread r1 = (l @ [13]) @ 10 # rest" using r1(3) by simp
  have t: "set (l @ [13]) \<inter> (set [10] \<union> set []) = {}" "10 \<in> set [10] \<union> set []" "(10 \<in> set [10]) = True"
    using assms(3) printable_no_lf by auto
  obtain r2 where "ReadUntil r1 [] [10] = Some (r2, l @ [13], True, 10)" "reader_ok r2" "unread r2 = rest"
    using ReadUntil_unread [OF r1(2) u t(1,2)] unfolding t(3) by blast
  with r1(1) show ?thesis by (rule that)
qed

lemma parseBody_reply:
  assumes "100 \<le> code" "code \<le> 999" "ls \<noteq> []" "list_all printable ls"
    "reader_ok r" "unread r = reply_body code ls"
  shows "parseBody r (Itoa code) body = Some (body @ filter (\<lambda>l. l \<noteq> []) (map trim ls), None)"
  using assms(3-)
proof (induction ls arbitrary: r body rule: induct_list012)
  case (2 l)
  then have l: "printable l" "unread r = Itoa code @ 32 # l @ 13 # 10 # []" by simp_all
  obtain r1 r2 where r: "ReadUntil r [45, 32] [10] = Some (r1, Itoa code, False, 32)"
    "ReadUntil r1 [] [10] = Some (r2, l @ [13], True, 10)" "unread r2 = []"
    using read_reply_line [OF assms(1,2) l(1) _ 2(3) l(2)] by blast
  have "snd (SkipSpaces r2) = 0" using SkipSpaces_none [of r2] r(3) by simp
  then show ?case using r(1,2) TrimSpace_line [OF l(1)] by (subst parseBody.simps) simp
next
  case (3 l m ls)
  then have l: "printable l" "unread r = Itoa code @ 45 # l @ 13 # 10 # reply_body code (m # ls)" by simp_all
  obtain r1 r2 where r: "ReadUntil r [45, 32] [10] = Some (r1, Itoa code, False, 45)"
    "ReadUntil r1 [] [10] = Some (r2, l @ [13], True, 10)" "reader_ok r2" "unread r2 = reply_body code (m # ls)"
    using read_reply_line [OF assms(1,2) l(1) _ 3(5) l(2)] by blast
  have "parseBody r2 (Itoa code) b = Some (b @ filter (\<lambda>l. l \<noteq> []) (map trim (m # ls)), None)" for b
    using 3(2) [OF _ _ r(3,4)] 3(4) by simp
  then show ?case using r(1,2) TrimSpace_line [OF l(1)] by (subst parseBody.simps) simp
qed simp

lemma reply_body_Nil: "reply_body code body = [] \<longleftrightarrow> body = []"
  by (induction code body rule: reply_body.induct) simp_all

lemma reply_body_hd:
  assumes "100 \<le> code" "code \<le> 999"
  shows "reply_body code body = [] \<or> \<not> IsSpace (hd (reply_body code body))"
proof -
  obtain a b c where d: "Itoa code = [a, b, c]" "IsDigit a" using digits3 [OF assms] .
  then show ?thesis using digit_bytes by (induction code body rule: reply_body.induct) auto
qed

lemma NewResponse_trimmed:
  assumes "100 \<le> code" "code \<le> 999" "printable msg" "list_all printable body"
  shows "NewResponse (reply_text code msg body) =
    Some (Some \<lparr>rs_Code = code, rs_Message = trim msg, rs_Body = filter (\<lambda>l. l \<noteq> []) (map trim body)\<rparr>, None)"
proof -
  obtain a b c where d: "Itoa code = [a, b, c]" "IsDigit a" "IsDigit b" "IsDigit c" using digits3 [OF assms(1,2)] .
  define sep :: byte where "sep = (if body = [] then 32 else 45)"
  define r where "r = \<lparr>rX = 0, rV = msg @ 13 # 10 # reply_body code body\<rparr>"
  have raw: "reply_text code msg body = a # b # c # sep # rV r" by (simp add: reply_text_def d(1) sep_def r_def)
  have "Atoi [a, b, c] = Some code" using Atoi_Itoa [of code] assms(1,2) d(1) by simp
  then have pc: "parseCode (reply_text code msg body) = Inr (code, body \<noteq> [], Itoa code)"
    using d by (simp add: parseCode_def raw sep_def)
  have u: "unread r = (msg @ [13]) @ 10 # reply_body code body" by (simp add: r_def)
  have t: "set (msg @ [13]) \<inter> (set [10] \<union> set []) = {}" "10 \<in> set [10] \<union> set []" "(10 \<in> set [10]) = True"
    using assms(3) printable_no_lf by auto
  have "reader_ok r" by (simp add: r_def reader_ok_def)
  then obtain r1 where r1: "ReadUntil r [] [10] = Some (r1, msg @ [13], True, 10)" "reader_ok r1" "unread r1 = reply_body code body"
    using ReadUntil_unread [OF _ u t(1,2)] unfolding t(3) by blast
  have sk: "SkipSpaces r1 = (r1, if body = [] then 0 else hd (reply_body code body))"
    using SkipSpaces_none [of r1] reply_body_hd [OF assms(1,2), of body] r1(3) by (simp add: reply_body_Nil split: if_splits)
  have pm: "parseMessage r (body \<noteq> []) = Some (r1, trim msg, None)"
    using r1(1) sk TrimSpace_line [OF assms(3)] by (simp add: parseMessage_def)
  have pb: "body \<noteq> [] \<Longrightarrow> parseBody r1 (Itoa code) [] = Some (filter (\<lambda>l. l \<noteq> []) (map trim body), None)"
    using parseBody_reply [OF assms(1,2) _ assms(4) r1(2,3), of "[]"] by simp
  have r: "\<lparr>rX = 0, rV = drop 4 (reply_text code msg body)\<rparr> = r" by (simp add: raw r_def)
  have len: "\<not> length (reply_text code msg body) < 5" "length (reply_text code msg body) \<noteq> 0" by (simp_all add: raw r_def)
  show ?thesis
    unfolding NewResponse_def pc r using len pm pb by (cases "body = []") simp_all
qed

lemma NewResponse_reply:
  assumes "100 \<le> code" "code \<le> 999" "clean_text msg"
  shows "NewResponse (reply_text code msg []) = Some (Some \<lparr>rs_Code = code, rs_Message = msg, rs_Body = []\<rparr>, None)"
  using NewResponse_trimmed [OF assms(1,2), of msg "[]"] assms(3) trim_id [OF assms(3)] by (simp add: printable_def clean_text_def)

text \<open>
  C27: The client reads what the server writes: for a code of three digits, a message and any number of
  body lines of printable ASCII text, \<open>NewResponse\<close> on the text of the reply returns the code, the
  message and the lines, without the spaces around each of them and without the lines that have nothing
  else; so the \<open>DSN\<close> with a space behind it in the answer to \<open>EHLO\<close> is read as \<open>DSN\<close>.
\<close>

theorem reply_roundtrip:
  assumes "100 \<le> code" "code \<le> 999" "printable msg" "list_all printable body"
  shows "NewResponse (reply_text code msg body) =
    Some (Some \<lparr>rs_Code = code, rs_Message = trim msg, rs_Body = filter (\<lambda>l. l \<noteq> []) (map trim body)\<rparr>, None)"
  by (rule NewResponse_trimmed [OF assms])

theorem reply_roundtrip_witness:
  "NewResponse (reply_text 250 (str ''mx'') [str ''DSN '', str ''AUTH PLAIN'']) =
     Some (Some \<lparr>rs_Code = 250, rs_Message = str ''mx'', rs_Body = [str ''DSN'', str ''AUTH PLAIN'']\<rparr>, None)"
proof -
  have "NewResponse (reply_text 250 (str ''mx'') [str ''DSN '', str ''AUTH PLAIN'']) =
      Some (Some \<lparr>rs_Code = 250, rs_Message = trim (str ''mx''),
        rs_Body = filter (\<lambda>l. l \<noteq> []) (map trim [str ''DSN '', str ''AUTH PLAIN''])\<rparr>, None)"
    by (rule reply_roundtrip) (simp_all add: printable_def str_def)
  then show ?thesis by (simp add: trim_def str_def)
qed

end
