(* ===== verification/SmtpServer.thy ===== *)
theory SmtpServer
  imports SmtpResponse
begin

section \<open>The SMTP server (lib/smtp/server.go, receiver.go, mail.go and the local handler)\<close>

text \<open>
  One connection is served by one goroutine (\<open>Server.handle\<close>), which owns a \<open>receiver\<close>. What the
  connection yields is a list of results of \<open>Read\<close>; where the code would wait for one that is not
  in the list, the model stops in the state \<open>HBlock\<close>. What is written is recorded together with
  whether \<open>Write\<close> succeeded. The flag \<open>running\<close> of the server is true.

  The mails that are accepted go into the channel \<open>mailTxQueue\<close>, a list of at most 512 mails; a send
  to a full channel waits. A time is a number of nanoseconds since 1970; the clock and the format of
  a date are parameters, as is \<open>bcrypt\<close>, which is not part of the repository.
\<close>

subsection \<open>Mails (mail.go)\<close>

record MailTx =
  mt_ID :: bytes
  mt_From :: bytes
  mt_Recipients :: "bytes list"
  mt_Data :: bytes
  mt_Postpone :: int
  mt_Received :: int
  mt_Retry :: int

text \<open>The zero value of \<open>time.Time\<close> is the first of January of the year 1.\<close>

definition zero_time :: int where
  "zero_time = - 62135596800 * 10 ^ 9"

definition zero_mail :: MailTx where
  "zero_mail = \<lparr>mt_ID = [], mt_From = [], mt_Recipients = [], mt_Data = [], mt_Postpone = zero_time,
     mt_Received = zero_time, mt_Retry = 0\<rparr>"

definition NewMailTx :: "int \<Rightarrow> bytes \<Rightarrow> bytes list \<Rightarrow> bytes \<Rightarrow> MailTx" where
  "NewMailTx now from to data =
     zero_mail\<lparr>mt_From := from, mt_Recipients := to, mt_Received := now, mt_ID := Itoa now, mt_Data := data\<rparr>"

definition mail_Reset :: "MailTx \<Rightarrow> MailTx" where
  "mail_Reset mail = mail\<lparr>mt_ID := [], mt_From := [], mt_Recipients := [], mt_Data := []\<rparr>"

definition mail_end :: bytes where
  "mail_end = [13, 10, 46, 13, 10]"

definition isTerminated :: "bytes \<Rightarrow> bool" where
  "isTerminated data =
     (let l = length data in if l < 5 then False else drop (l - 5) data = mail_end)"

definition postpone :: "MailTx \<Rightarrow> MailTx" where
  "postpone mail =
     (let mail = mail\<lparr>mt_Retry := mt_Retry mail + 1\<rparr>
      in mail\<lparr>mt_Postpone := mt_Received mail + mt_Retry mail * 30 * 60 * 10 ^ 9\<rparr>)"

definition isPostponed :: "int \<Rightarrow> MailTx \<Rightarrow> bool" where
  "isPostponed now mail \<longleftrightarrow> mt_Postpone mail > now"

definition seal :: "(int \<Rightarrow> bytes) \<Rightarrow> MailTx \<Rightarrow> bytes \<Rightarrow> bytes \<Rightarrow> bytes \<Rightarrow> MailTx" where
  "seal formatTime mail clientDomain clientAddress localAddress =
     mail\<lparr>mt_Data := str ''FROM '' @ clientDomain @ str '' ('' @ clientAddress @ str '')'' @ [13, 10, 9] @
       str ''BY '' @ localAddress @ str '' WITH SMTP ID '' @ mt_ID mail @ str '';'' @ [13, 10, 9] @
       formatTime (mt_Received mail) @ mt_Data mail\<rparr>"

subsection \<open>The receiver (receiver.go)\<close>

datatype receiverMode = receiverModeServer | receiverModeClient

datatype readErr = EOF | ReadFailed bytes

datatype read = Read bytes "readErr option"

record receiver =
  rc_mode :: receiverMode
  rc_clientDomain :: bytes
  rc_clientAddress :: bytes
  rc_localAddress :: bytes
  rc_state :: CommandKind
  rc_mail :: MailTx
  rc_authenticated :: bool
  rc_in :: "read list"
  rc_out :: "(bytes \<times> bool) list"

record smtpEnv =
  write_fails :: "nat \<Rightarrow> bool"
  clock :: "nat \<Rightarrow> int"
  formatTime :: "int \<Rightarrow> bytes"

text \<open>The result of a handler: done, an error that ends the session, or waiting.\<close>

datatype hres = HOk | HErr | HBlock

definition newReceiver :: "read list \<Rightarrow> bytes \<Rightarrow> bytes \<Rightarrow> receiverMode \<Rightarrow> receiver" where
  "newReceiver input remote addr mode =
     \<lparr>rc_mode = mode, rc_clientDomain = [], rc_clientAddress = remote, rc_localAddress = addr, rc_state = CommandZERO,
      rc_mail = zero_mail, rc_authenticated = False, rc_in = input, rc_out = []\<rparr>"

definition isAuthenticated :: "receiver \<Rightarrow> bool" where
  "isAuthenticated r = (if rc_mode r = receiverModeClient \<and> rc_authenticated r then True else False)"

definition recv_reset :: "receiver \<Rightarrow> receiver" where
  "recv_reset r = r\<lparr>rc_state := CommandZERO, rc_mail := mail_Reset (rc_mail r)\<rparr>"

definition conn_write :: "smtpEnv \<Rightarrow> receiver \<Rightarrow> bytes \<Rightarrow> receiver \<times> bool" where
  "conn_write env r bs =
     (let ok = \<not> write_fails env (length (rc_out r)) in (r\<lparr>rc_out := rc_out r @ [(bs, ok)]\<rparr>, ok))"

definition sendReply :: "smtpEnv \<Rightarrow> receiver \<Rightarrow> int \<Rightarrow> bytes \<Rightarrow> bytes list \<Rightarrow> receiver \<times> bool" where
  "sendReply env r code msg body = conn_write env r (reply_text code msg body)"

fun error_reply :: "smtpError \<Rightarrow> int \<times> bytes" where
  "error_reply (ErrE code msg) = (if code = 0 then StatusLocalError else code, msg)"
| "error_reply (ErrOther msg) = (StatusLocalError, msg)"

definition sendError :: "smtpEnv \<Rightarrow> receiver \<Rightarrow> smtpError \<Rightarrow> receiver \<times> bool" where
  "sendError env r err =
     (let (code, msg) = error_reply err;
          (r, ok) = conn_write env r (Itoa code @ [32] @ msg @ [13, 10])
      in if \<not> ok then (r, False) else (recv_reset r, True))"

text \<open>The loop of \<open>readCommand\<close> and \<open>readAuthData\<close>: a read that fills the buffer is followed by another.\<close>

datatype readAll = RDone bytes "read list" | RFail bytes "read list" | RBlock

fun read_loop :: "bytes \<Rightarrow> read list \<Rightarrow> readAll" where
  "read_loop buff [] = RBlock"
| "read_loop buff (Read bs err # rs) =
     (let buff = buff @ bs
      in case err of
           Some EOF \<Rightarrow> RDone buff rs
         | Some (ReadFailed msg) \<Rightarrow> RFail msg rs
         | None \<Rightarrow> if length bs = 4096 then read_loop buff rs else RDone buff rs)"

definition readAuthData :: "receiver \<Rightarrow> Command \<Rightarrow> receiver \<times> Command \<times> hres" where
  "readAuthData r cmd =
     (case read_loop [] (rc_in r) of
        RBlock \<Rightarrow> (r, cmd, HBlock)
      | RFail _ rs \<Rightarrow> (r\<lparr>rc_in := rs\<rparr>, cmd, HErr)
      | RDone b rs \<Rightarrow> (r\<lparr>rc_in := rs\<rparr>, cmd\<lparr>cmd_Param := TrimSpace b\<rparr>, HOk))"

datatype cmdRead = CBlock | CErr smtpError | CGot Command

fun err_text :: "smtpError \<Rightarrow> bytes" where
  "err_text (ErrE _ msg) = msg"
| "err_text (ErrOther msg) = msg"

definition readCommand :: "receiver \<Rightarrow> (receiver \<times> cmdRead) option" where
  "readCommand r =
     (case read_loop [] (rc_in r) of
        RBlock \<Rightarrow> Some (r, CBlock)
      | RFail msg rs \<Rightarrow> Some (r\<lparr>rc_in := rs\<rparr>, CErr (ErrOther (str ''smtp: recv: readCommand: '' @ msg)))
      | RDone b rs \<Rightarrow> do {
          (cmd, err) \<leftarrow> cmd_unpack newCommand b;
          Some (r\<lparr>rc_in := rs\<rparr>,
            case err of
              Some e \<Rightarrow> CErr (ErrOther (str ''smtp: cmd.unpack: '' @ err_text e))
            | None \<Rightarrow> CGot cmd) })"

fun data_loop :: "bytes \<Rightarrow> read list \<Rightarrow> bytes \<times> read list \<times> hres" where
  "data_loop data [] = (data, [], HBlock)"
| "data_loop data (Read bs err # rs) =
     (if err \<noteq> None then (data, rs, HErr)
      else let data = data @ bs
           in if isTerminated data then (data, rs, HOk) else data_loop data rs)"

definition readDATA :: "smtpEnv \<Rightarrow> receiver \<Rightarrow> receiver \<times> hres" where
  "readDATA env r =
     (let (data, rs, res) = data_loop (mt_Data (rc_mail r)) (rc_in r);
          r = r\<lparr>rc_in := rs, rc_mail := (rc_mail r)\<lparr>mt_Data := data\<rparr>\<rparr>
      in if res \<noteq> HOk then (r, res)
         else let mail = (rc_mail r)\<lparr>mt_Data := take (length data - 5) data\<rparr>
              in (r\<lparr>rc_mail := seal (formatTime env) mail (rc_clientDomain r) (rc_clientAddress r) (rc_localAddress r)\<rparr>, HOk))"

subsection \<open>Handlers of commands (server.go)\<close>

text \<open>
  The interfaces \<open>Handler\<close> and \<open>Extension\<close>. A handler returns a response or an error. The functions
  that the goroutines of the queues call, \<open>ServeMailTx\<close> and \<open>ServeBounce\<close>, come further down.
\<close>

record handler =
  ServeAuth :: "bytes \<Rightarrow> bytes \<Rightarrow> smtpError + smtpResponse"
  ServeExpand :: "bytes \<Rightarrow> smtpError + smtpResponse"
  ServeVerify :: "bytes \<Rightarrow> smtpError + smtpResponse"

record extension =
  ext_Name :: bytes
  ext_Params :: bytes
  ValidateCommand :: "Command \<Rightarrow> smtpError option"

definition extDSN :: extension where
  "extDSN = \<lparr>ext_Name = str ''DSN'', ext_Params = [], ValidateCommand = (\<lambda>cmd. None)\<rparr>"

record smtpServer =
  sv_domain :: bytes
  sv_Exts :: "extension list"
  sv_Handler :: handler

definition defaultExts :: "extension list" where
  "defaultExts = [extDSN]"

abbreviation ended :: "receiver \<times> bool \<Rightarrow> receiver \<times> hres" where
  "ended p \<equiv> (fst p, if snd p then HOk else HErr)"

definition auth_credentials :: "bytes \<Rightarrow> (bytes \<times> bytes) option" where
  "auth_credentials param =
     (let args = split_byte 0 param in if length args \<noteq> 3 then None else Some (args ! 1, args ! 2))"

text \<open>The part of \<open>handleAUTH\<close> after the initial response of the client is known.\<close>

definition auth_plain :: "smtpEnv \<Rightarrow> smtpServer \<Rightarrow> receiver \<Rightarrow> bytes \<Rightarrow> receiver \<times> hres" where
  "auth_plain env srv r param =
     (case base64_DecodeString param of
        None \<Rightarrow> (fst (sendError env r errCmdSyntaxError), HErr)
      | Some param \<Rightarrow>
          (case auth_credentials param of
             None \<Rightarrow> ended (sendError env r errCmdSyntaxError)
           | Some (username, password) \<Rightarrow>
               (case ServeAuth (sv_Handler srv) username password of
                  Inl e \<Rightarrow> ended (sendError env r e)
                | Inr res \<Rightarrow>
                    let (r, ok) = sendReply env r (rs_Code res) (rs_Message res) (rs_Body res)
                    in if \<not> ok then (r, HErr)
                       else (r\<lparr>rc_authenticated := True, rc_state := CommandAUTH\<rparr>, HOk))))"

definition handleAUTH :: "smtpEnv \<Rightarrow> smtpServer \<Rightarrow> receiver \<Rightarrow> Command \<Rightarrow> receiver \<times> hres" where
  "handleAUTH env srv r cmd =
     (if rc_mode r = receiverModeServer then ended (sendError env r errCmdUnknown)
      else if isAuthenticated r then ended (sendError env r errBadSequence)
      else if rc_state r = CommandMAIL \<or> rc_state r = CommandRCPT \<or> rc_state r = CommandDATA then
        ended (sendError env r errBadSequence)
      else if cmd_Arg cmd = str ''PLAIN'' then
        (if length (cmd_Param cmd) = 0 then
           let (r, ok) = sendReply env r StatusAuthReady [] []
           in if \<not> ok then (r, HErr)
              else let (r, cmd, res) = readAuthData r cmd
                   in if res \<noteq> HOk then (r, res)
                      else if cmd_Param cmd = str ''*'' then
                        ended (sendReply env r StatusCmdSyntaxError (str ''Authentication cancelled'') [])
                      else auth_plain env srv r (cmd_Param cmd)
         else auth_plain env srv r (cmd_Param cmd))
      else ended (sendError env r errAuthMechanism))"

text \<open>
  Several handlers reply to a client that is not authenticated with an error and then go on.
  \<open>refuse\<close> is that beginning.
\<close>

definition refuse :: "smtpEnv \<Rightarrow> receiver \<Rightarrow> receiver \<times> bool" where
  "refuse env r = (if \<not> isAuthenticated r then sendError env r errNotAuthenticated else (r, True))"

definition handleDATA :: "smtpEnv \<Rightarrow> receiver \<Rightarrow> receiver \<times> hres" where
  "handleDATA env r =
     (let (r, ok) = refuse env r in
      if \<not> ok then (r, HErr)
      else if rc_state r \<noteq> CommandRCPT then
        let (r, ok) = sendReply env r StatusCmdBadSequence (str ''Bad sequences of commands'') []
        in if \<not> ok then (r, HErr) else (recv_reset r, HOk)
      else let (r, ok) = sendReply env r StatusDataReady (str ''Start mail input.'') []
           in if \<not> ok then (r, HErr)
              else let (r, res) = readDATA env r
                   in if res \<noteq> HOk then (r, res) else (r\<lparr>rc_state := CommandDATA\<rparr>, HOk))"

definition handleEHLO :: "smtpEnv \<Rightarrow> smtpServer \<Rightarrow> receiver \<Rightarrow> Command \<Rightarrow> receiver \<times> hres" where
  "handleEHLO env srv r cmd =
     (let r = r\<lparr>rc_clientDomain := cmd_Arg cmd\<rparr>;
          body = map (\<lambda>ext. ext_Name ext @ [32] @ ext_Params ext) (sv_Exts srv);
          body = (if \<not> isAuthenticated r then body @ [str ''AUTH PLAIN''] else body);
          (r, ok) = sendReply env r StatusOK (sv_domain srv) body
      in if \<not> ok then (r, HErr) else (r\<lparr>rc_state := cmd_Kind cmd\<rparr>, HOk))"

definition handleHELO :: "smtpEnv \<Rightarrow> smtpServer \<Rightarrow> receiver \<Rightarrow> Command \<Rightarrow> receiver \<times> hres" where
  "handleHELO env srv r cmd =
     (let r = r\<lparr>rc_clientDomain := cmd_Arg cmd\<rparr>;
          (r, ok) = sendReply env r StatusOK (sv_domain srv) []
      in if \<not> ok then (r, HErr) else (r\<lparr>rc_state := cmd_Kind cmd\<rparr>, HOk))"

text \<open>\<open>handleEXPN\<close> and \<open>handleVRFY\<close> differ in the function of the handler that they call.\<close>

definition handle_query ::
    "smtpEnv \<Rightarrow> receiver \<Rightarrow> (bytes \<Rightarrow> smtpError + smtpResponse) \<Rightarrow> Command \<Rightarrow> receiver \<times> hres" where
  "handle_query env r serve cmd =
     (if rc_mode r = receiverModeServer then ended (sendError env r errCmdUnknown)
      else let (r, ok) = refuse env r in
        if \<not> ok then (r, HErr)
        else case serve (cmd_Arg cmd) of
               Inl _ \<Rightarrow> (r, HErr)
             | Inr res \<Rightarrow> ended (sendReply env r (rs_Code res) (rs_Message res) (rs_Body res)))"

definition handleEXPN :: "smtpEnv \<Rightarrow> smtpServer \<Rightarrow> receiver \<Rightarrow> Command \<Rightarrow> receiver \<times> hres" where
  "handleEXPN env srv r cmd = handle_query env r (ServeExpand (sv_Handler srv)) cmd"

definition handleVRFY :: "smtpEnv \<Rightarrow> smtpServer \<Rightarrow> receiver \<Rightarrow> Command \<Rightarrow> receiver \<times> hres" where
  "handleVRFY env srv r cmd = handle_query env r (ServeVerify (sv_Handler srv)) cmd"

definition handleMAIL :: "smtpEnv \<Rightarrow> receiver \<Rightarrow> Command \<Rightarrow> receiver \<times> hres" where
  "handleMAIL env r cmd =
     (if \<not> isAuthenticated r then ended (sendError env r errNotAuthenticated)
      else let r = r\<lparr>rc_mail := (rc_mail r)\<lparr>mt_From := cmd_Arg cmd\<rparr>\<rparr>;
               (r, ok) = sendReply env r StatusOK (str ''OK'') []
           in if \<not> ok then (r, HErr) else (r\<lparr>rc_state := CommandMAIL\<rparr>, HOk))"

definition handleRCPT :: "smtpEnv \<Rightarrow> receiver \<Rightarrow> Command \<Rightarrow> receiver \<times> hres" where
  "handleRCPT env r cmd =
     (let (r, ok) = refuse env r in
      if \<not> ok then (r, HErr)
      else let r = r\<lparr>rc_mail := (rc_mail r)\<lparr>mt_Recipients := mt_Recipients (rc_mail r) @ [cmd_Arg cmd]\<rparr>\<rparr>;
               (r, ok) = (if length (mt_Recipients (rc_mail r)) > 100
                          then sendReply env r StatusNoStorage (str ''Too many recipients'') []
                          else sendReply env r StatusOK (str ''OK'') [])
           in if \<not> ok then (r, HErr) else (r\<lparr>rc_state := CommandRCPT\<rparr>, HOk))"

definition handleHELP :: "smtpEnv \<Rightarrow> receiver \<Rightarrow> receiver \<times> hres" where
  "handleHELP env r =
     (let (r, ok) = refuse env r in
      if \<not> ok then (r, HErr)
      else ended (sendReply env r StatusHelp (str ''Everything will be alright'') []))"

fun handle_kind :: "smtpEnv \<Rightarrow> smtpServer \<Rightarrow> receiver \<Rightarrow> Command \<Rightarrow> CommandKind \<Rightarrow> receiver \<times> hres" where
  "handle_kind env srv r cmd CommandAUTH = handleAUTH env srv r cmd"
| "handle_kind env srv r cmd CommandDATA = handleDATA env r"
| "handle_kind env srv r cmd CommandEHLO = handleEHLO env srv r cmd"
| "handle_kind env srv r cmd CommandHELO = handleHELO env srv r cmd"
| "handle_kind env srv r cmd CommandMAIL = handleMAIL env r cmd"
| "handle_kind env srv r cmd CommandRCPT = handleRCPT env r cmd"
| "handle_kind env srv r cmd CommandRSET = ended (sendReply env (recv_reset r) StatusOK (str ''OK'') [])"
| "handle_kind env srv r cmd CommandVRFY = handleVRFY env srv r cmd"
| "handle_kind env srv r cmd CommandEXPN = handleEXPN env srv r cmd"
| "handle_kind env srv r cmd CommandHELP = handleHELP env r"
| "handle_kind env srv r cmd CommandNOOP = ended (sendReply env r StatusOK (str ''OK'') [])"
| "handle_kind env srv r cmd CommandQUIT =
     ((fst (sendReply env r StatusClosing (str ''Service closing transmission channel'') []))\<lparr>rc_state := CommandQUIT\<rparr>, HOk)"
| "handle_kind env srv r cmd CommandZERO = (r, HOk)"

definition handleCommand :: "smtpEnv \<Rightarrow> smtpServer \<Rightarrow> receiver \<Rightarrow> Command \<Rightarrow> receiver \<times> hres" where
  "handleCommand env srv r cmd = handle_kind env srv r cmd (cmd_Kind cmd)"

subsection \<open>A session\<close>

text \<open>
  \<open>processMailTx\<close> makes one mail for each recipient and puts them into the queue; the flag says
  that all of them fit.
\<close>

definition queueSize :: nat where "queueSize = 512"

fun new_mails :: "(nat \<Rightarrow> int) \<Rightarrow> nat \<Rightarrow> MailTx \<Rightarrow> bytes list \<Rightarrow> MailTx list" where
  "new_mails now n mail [] = []"
| "new_mails now n mail (rcpt # rcpts) = NewMailTx (now n) (mt_From mail) [rcpt] (mt_Data mail) # new_mails now (n + 1) mail rcpts"

definition processMailTx :: "smtpEnv \<Rightarrow> MailTx list \<Rightarrow> MailTx \<Rightarrow> MailTx list \<times> bool" where
  "processMailTx env q mail =
     (let mails = new_mails (clock env) (length q) mail (mt_Recipients mail)
      in if length q + length mails \<le> queueSize then (q @ mails, True)
         else (q @ take (queueSize - length q) mails, False))"

text \<open>One round of the loop of \<open>handle\<close>: the session goes on, waits, or is closed.\<close>

datatype session = Going | Waiting | Closed

fun validate :: "extension list \<Rightarrow> Command \<Rightarrow> smtpError option" where
  "validate [] cmd = None"
| "validate (ext # exts) cmd = (case ValidateCommand ext cmd of Some e \<Rightarrow> Some e | None \<Rightarrow> validate exts cmd)"

definition after_command :: "smtpEnv \<Rightarrow> receiver \<Rightarrow> MailTx list \<Rightarrow> receiver \<times> MailTx list \<times> session" where
  "after_command env r q =
     (if rc_state r = CommandDATA then
        let (q, fits) = processMailTx env q (rc_mail r)
        in if \<not> fits then (r, q, Waiting)
           else let (r, ok) = sendReply env r StatusOK (str ''OK'') []
                in if \<not> ok then (r, q, Closed) else (recv_reset r, q, Going)
      else if rc_state r = CommandQUIT then (r, q, Closed)
      else (r, q, Going))"

definition handle_step :: "smtpEnv \<Rightarrow> smtpServer \<Rightarrow> receiver \<Rightarrow> MailTx list \<Rightarrow> (receiver \<times> MailTx list \<times> session) option" where
  "handle_step env srv r q = do {
     (r, got) \<leftarrow> readCommand r;
     case got of
       CBlock \<Rightarrow> Some (r, q, Waiting)
     | CErr e \<Rightarrow> Some (fst (sendError env r e), q, Closed)
     | CGot cmd \<Rightarrow>
         (case validate (sv_Exts srv) cmd of
            Some e \<Rightarrow> Some (fst (sendError env r e), q, Going)
          | None \<Rightarrow>
              let (r, res) = handleCommand env srv r cmd
              in Some (case res of
                         HErr \<Rightarrow> (r, q, Closed)
                       | HBlock \<Rightarrow> (r, q, Waiting)
                       | HOk \<Rightarrow> after_command env r q)) }"

lemma read_loop_shorter:
  "read_loop buff rs = RDone b rs1 \<Longrightarrow> length rs1 < length rs"
  "read_loop buff rs = RFail b rs1 \<Longrightarrow> length rs1 < length rs"
  by (induction buff rs rule: read_loop.induct) (auto simp: Let_def split: option.splits readErr.splits if_splits)

lemma data_loop_shorter: "data_loop data rs = (d, rs1, res) \<Longrightarrow> length rs1 \<le> length rs"
  by (induction data rs rule: data_loop.induct) (auto simp: Let_def split: if_splits)

text \<open>Replies do not touch the input.\<close>

lemma send_in [simp]:
  "rc_in (fst (conn_write env r bs)) = rc_in r" "rc_in (fst (sendReply env r code msg body)) = rc_in r"
  "rc_in (fst (sendError env r e)) = rc_in r" "rc_in (recv_reset r) = rc_in r" "rc_in (fst (refuse env r)) = rc_in r"
  by (simp_all add: conn_write_def sendReply_def sendError_def recv_reset_def refuse_def Let_def split: prod.splits)

lemma readDATA_in: "length (rc_in (fst (readDATA env r))) \<le> length (rc_in r)"
  using data_loop_shorter [of "mt_Data (rc_mail r)" "rc_in r"]
  by (cases "data_loop (mt_Data (rc_mail r)) (rc_in r)") (auto simp: readDATA_def seal_def Let_def)

lemma readAuthData_in: "length (rc_in (fst (readAuthData r cmd))) \<le> length (rc_in r)"
  using read_loop_shorter [of "[]" "rc_in r"] by (auto simp: readAuthData_def less_imp_le split: readAll.splits)

lemma auth_plain_in: "rc_in (fst (auth_plain env srv r param)) = rc_in r"
  by (simp add: auth_plain_def split_beta Let_def split: option.splits sum.splits)

lemma handleAUTH_in: "length (rc_in (fst (handleAUTH env srv r cmd))) \<le> length (rc_in r)"
  using readAuthData_in [of "fst (sendReply env r StatusAuthReady [] [])" cmd]
  by (simp add: handleAUTH_def split_beta Let_def auth_plain_in)

lemma handleDATA_in: "length (rc_in (fst (handleDATA env r))) \<le> length (rc_in r)"
  using readDATA_in [of env "fst (sendReply env (fst (refuse env r)) StatusDataReady (str ''Start mail input.'') [])"]
  by (simp add: handleDATA_def split_beta Let_def)

lemma handleCommand_in: "length (rc_in (fst (handleCommand env srv r cmd))) \<le> length (rc_in r)"
  by (cases "cmd_Kind cmd")
    (simp_all add: handleCommand_def handleAUTH_in handleDATA_in handleEHLO_def handleHELO_def handleMAIL_def handleRCPT_def
      handleVRFY_def handleEXPN_def handle_query_def handleHELP_def split_beta Let_def split: sum.splits)

lemma after_command_in: "rc_in (fst (after_command env r q)) = rc_in r"
  by (simp add: after_command_def split_beta Let_def)

lemma readCommand_got:
  assumes "readCommand r = Some (r1, CGot cmd)"
  obtains b rs where "read_loop [] (rc_in r) = RDone b rs" "cmd_unpack newCommand b = Some (cmd, None)" "r1 = r\<lparr>rc_in := rs\<rparr>"
  using assms by (auto simp: readCommand_def bind_eq_Some_conv split: readAll.splits option.splits)

lemma handle_step_shorter:
  assumes "handle_step env srv r q = Some (r1, q1, Going)"
  shows "length (rc_in r1) < length (rc_in r)"
proof -
  obtain r2 got where got: "readCommand r = Some (r2, got)" using assms by (auto simp: handle_step_def bind_eq_Some_conv)
  obtain cmd where "got = CGot cmd" using assms by (cases got) (auto simp: handle_step_def got)
  with got have r2: "readCommand r = Some (r2, CGot cmd)" by simp
  obtain b rs where "read_loop [] (rc_in r) = RDone b rs" "r2 = r\<lparr>rc_in := rs\<rparr>" using readCommand_got [OF r2] .
  then have l: "length (rc_in r2) < length (rc_in r)" using read_loop_shorter(1) by auto
  have "length (rc_in r1) \<le> length (rc_in r2)"
  proof (cases "validate (sv_Exts srv) cmd")
    case None
    have "snd (handleCommand env srv r2 cmd) = HOk" "r1 = fst (after_command env (fst (handleCommand env srv r2 cmd)) q)"
      using assms None r2 by (auto simp: handle_step_def split_beta Let_def split: hres.splits)
    then show ?thesis using handleCommand_in [of env srv r2 cmd] by (simp add: after_command_in)
  next
    case (Some e)
    then have "r1 = fst (sendError env r2 e)" using assms r2 by (auto simp: handle_step_def)
    then show ?thesis by simp
  qed
  with l show ?thesis by simp
qed

function handle_loop :: "smtpEnv \<Rightarrow> smtpServer \<Rightarrow> receiver \<Rightarrow> MailTx list \<Rightarrow> (receiver \<times> MailTx list \<times> session) option" where
  "handle_loop env srv r q =
     (case handle_step env srv r q of
        None \<Rightarrow> None
      | Some (r, q, s) \<Rightarrow> if s = Going then handle_loop env srv r q else Some (r, q, s))"
  by pat_completeness auto
termination
  by (relation "measure (\<lambda>(_, _, r, _). length (rc_in r))") (auto dest: handle_step_shorter)

declare handle_loop.simps [simp del]

definition handle :: "smtpEnv \<Rightarrow> smtpServer \<Rightarrow> receiver \<Rightarrow> MailTx list \<Rightarrow> (receiver \<times> MailTx list \<times> session) option" where
  "handle env srv r q =
     (let (r, ok) = sendReply env r StatusReady (sv_domain srv) []
      in if \<not> ok then Some (r, q, Closed) else handle_loop env srv r q)"

subsection \<open>Accounts and the local handler (account.go, domain.go, localhandler.go)\<close>

text \<open>
  \<open>strings.ToLower\<close> on user names is the parameter \<open>lower\<close>. The map of virtual domains is the list
  of its values in the order in which an iteration visits them.
\<close>

record Account =
  ac_Name :: bytes
  ac_Local :: bytes
  ac_Domain :: bytes
  ac_HashPass :: bytes

record Domain =
  dm_Name :: bytes
  dm_Accounts :: "bytes \<Rightarrow> Account option"

record Environment =
  PrimaryDomain :: Domain
  VirtualDomains :: "Domain list"

text \<open>\<open>gen n pass\<close> is the result of the \<open>n\<close>-th call of \<open>bcrypt.GenerateFromPassword\<close>; three are made.\<close>

definition NewAccount :: "(nat \<Rightarrow> bytes \<Rightarrow> bytes option) \<Rightarrow> (bytes \<Rightarrow> bytes) \<Rightarrow> bytes \<Rightarrow> bytes \<Rightarrow> bytes \<Rightarrow> bytes \<Rightarrow> Account option" where
  "NewAccount gen lower name loc domain pass =
     (if length pass > 0 then
        (case find (\<lambda>x. gen x pass \<noteq> None) [0, 1, 2] of
           None \<Rightarrow> None
         | Some x \<Rightarrow>
             Some \<lparr>ac_Name = name, ac_Local = lower loc, ac_Domain = domain, ac_HashPass = the (gen x pass)\<rparr>)
      else Some \<lparr>ac_Name = name, ac_Local = lower loc, ac_Domain = domain, ac_HashPass = []\<rparr>)"

definition account_String :: "Account \<Rightarrow> bytes" where
  "account_String acc =
     (let out = (if length (ac_Name acc) > 0 then ac_Name acc @ str '' <'' else []);
          out = out @ ac_Local acc @ str ''@'' @ ac_Domain acc
      in if length (ac_Name acc) > 0 then out @ str ''>'' else out)"

definition account_Short :: "Account \<Rightarrow> bytes" where
  "account_Short acc = ac_Local acc @ str ''@'' @ ac_Domain acc"

definition NewDomain :: "bytes \<Rightarrow> Domain" where
  "NewDomain name =
     \<lparr>dm_Name = name,
      dm_Accounts = [str ''postmaster'' \<mapsto>
        \<lparr>ac_Name = str ''Postmaster'', ac_Local = str ''postmaster'', ac_Domain = [], ac_HashPass = []\<rparr>]\<rparr>"

definition authenticated_response :: smtpResponse where
  "authenticated_response =
     \<lparr>rs_Code = StatusAuthenticated, rs_Message = str ''2.7.0 Authentication successful'', rs_Body = []\<rparr>"

text \<open>\<open>compare hash password\<close> is \<open>bcrypt.CompareHashAndPassword\<close> without an error.\<close>

definition auth_in :: "(bytes \<Rightarrow> bytes \<Rightarrow> bool) \<Rightarrow> Domain \<Rightarrow> bytes \<Rightarrow> bytes \<Rightarrow> smtpError + smtpResponse" where
  "auth_in compare dm user password =
     (case dm_Accounts dm user of
        None \<Rightarrow> Inl ErrInvalidCredential
      | Some acc \<Rightarrow>
          if length (ac_HashPass acc) = 0 then Inl ErrInvalidCredential
          else if \<not> compare (ac_HashPass acc) password then Inl ErrInvalidCredential
          else Inr authenticated_response)"

definition lh_ServeAuth ::
    "(bytes \<Rightarrow> bytes) \<Rightarrow> (bytes \<Rightarrow> bytes \<Rightarrow> bool) \<Rightarrow> Environment \<Rightarrow> bytes \<Rightarrow> bytes \<Rightarrow> smtpError + smtpResponse" where
  "lh_ServeAuth lower compare env username password =
     (let localDomain = split_byte 64 (lower username) in
      if length localDomain \<noteq> 2 then Inl ErrInvalidCredential
      else if localDomain ! 1 = dm_Name (PrimaryDomain env) then
        auth_in compare (PrimaryDomain env) (localDomain ! 0) password
      else case find (\<lambda>vdom. localDomain ! 1 = dm_Name vdom) (VirtualDomains env) of
             None \<Rightarrow> Inl ErrInvalidCredential
           | Some vdom \<Rightarrow> auth_in compare vdom (localDomain ! 0) password)"

definition lh_ServeExpand :: "bytes \<Rightarrow> smtpError + smtpResponse" where
  "lh_ServeExpand mailingList =
     Inr \<lparr>rs_Code = StatusCmdNotImplemented, rs_Message = str ''Command not implemented'', rs_Body = []\<rparr>"

definition lh_ServeVerify :: "(bytes \<Rightarrow> bytes) \<Rightarrow> Environment \<Rightarrow> bytes \<Rightarrow> smtpError + smtpResponse" where
  "lh_ServeVerify lower env username =
     (let localDomain = split_byte 64 (lower username) in
      if length localDomain \<noteq> 2 then Inl errCmdSyntaxError
      else let has = (\<lambda>dm. localDomain ! 1 = dm_Name dm \<and> dm_Accounts dm (localDomain ! 0) \<noteq> None)
           in case find has (PrimaryDomain env # VirtualDomains env) of
                Some dm \<Rightarrow>
                  Inr \<lparr>rs_Code = StatusOK, rs_Message = account_String (the (dm_Accounts dm (localDomain ! 0))), rs_Body = []\<rparr>
              | None \<Rightarrow> Inr \<lparr>rs_Code = StatusMailboxNotFound, rs_Message = str ''mailbox not found'', rs_Body = []\<rparr>)"

definition NewLocalHandler :: "(bytes \<Rightarrow> bytes) \<Rightarrow> (bytes \<Rightarrow> bytes \<Rightarrow> bool) \<Rightarrow> Environment \<Rightarrow> handler" where
  "NewLocalHandler lower compare env =
     \<lparr>ServeAuth = lh_ServeAuth lower compare env, ServeExpand = lh_ServeExpand, ServeVerify = lh_ServeVerify lower env\<rparr>"

subsection \<open>The queue of mails\<close>

text \<open>
  \<open>processMailTxQueue\<close> receives a mail in the initialisation of its \<open>for\<close> statement, which has no
  post statement: the body runs again and again on that mail. \<open>serve_fails n\<close> says whether the
  \<open>n\<close>-th call of \<open>ServeMailTx\<close> returns an error, \<open>now n\<close> is the \<open>n\<close>-th reading of the clock.
\<close>

record queues =
  q_mail :: "MailTx list"
  q_relay :: "MailTx list"
  q_bounce :: "MailTx list"
  q_served :: "MailTx list"

definition isOurDomain :: "Environment \<Rightarrow> bytes \<Rightarrow> bool" where
  "isOurDomain env d =
     (if d = dm_Name (PrimaryDomain env) then True
      else list_ex (\<lambda>domain. d = dm_Name domain) (VirtualDomains env))"

definition to_relay :: "queues \<Rightarrow> MailTx \<Rightarrow> queues option" where
  "to_relay qs mail = (if length (q_relay qs) < queueSize then Some (qs\<lparr>q_relay := q_relay qs @ [mail]\<rparr>) else None)"

definition to_bounce :: "queues \<Rightarrow> MailTx \<Rightarrow> queues option" where
  "to_bounce qs mail = (if length (q_bounce qs) < queueSize then Some (qs\<lparr>q_bounce := q_bounce qs @ [mail]\<rparr>) else None)"

definition serve_mail :: "(nat \<Rightarrow> bool) \<Rightarrow> queues \<Rightarrow> MailTx \<Rightarrow> (MailTx \<times> queues) option" where
  "serve_mail serve_fails qs mail =
     (let err = serve_fails (length (q_served qs)); qs = qs\<lparr>q_served := q_served qs @ [mail]\<rparr>
      in if err then
           (if mt_Retry mail < 5 then Some (postpone mail, qs) else do { qs \<leftarrow> to_bounce qs mail; Some (mail, qs) })
         else Some (mail, qs))"

text \<open>The body of the loop; \<open>None\<close> when it waits on a full queue. A mail without a recipient would panic.\<close>

definition queue_body :: "Environment \<Rightarrow> (nat \<Rightarrow> bool) \<Rightarrow> int \<Rightarrow> MailTx \<times> queues \<Rightarrow> (MailTx \<times> queues) option option" where
  "queue_body env serve_fails now = (\<lambda>(mail, qs).
     if isPostponed now mail then Some (Some (mail, qs))
     else do {
       rcpt \<leftarrow> idx (mt_Recipients mail) 0;
       let addr = split_byte 64 rcpt;
       Some (if length addr = 2 then
               (if isOurDomain env (addr ! 1) then serve_mail serve_fails qs mail
                else do { qs \<leftarrow> to_relay qs mail; Some (mail, qs) })
             else if length addr = 1 then
               (if addr ! 0 = str ''postmaster'' then serve_mail serve_fails qs mail
                else do { qs \<leftarrow> to_bounce qs mail; Some (mail, qs) })
             else do { qs \<leftarrow> to_bounce qs mail; Some (mail, qs) }) })"

text \<open>The state after \<open>n\<close> rounds; a round that waits leaves the state as it is.\<close>

fun queue_rounds :: "Environment \<Rightarrow> (nat \<Rightarrow> bool) \<Rightarrow> (nat \<Rightarrow> int) \<Rightarrow> nat \<Rightarrow> MailTx \<times> queues \<Rightarrow> (MailTx \<times> queues) option" where
  "queue_rounds env serve_fails now 0 s = Some s"
| "queue_rounds env serve_fails now (Suc n) s = do {
     s \<leftarrow> queue_rounds env serve_fails now n s;
     r \<leftarrow> queue_body env serve_fails (now n) s;
     Some (case r of None \<Rightarrow> s | Some s \<Rightarrow> s) }"

definition processMailTxQueue :: "Environment \<Rightarrow> (nat \<Rightarrow> bool) \<Rightarrow> (nat \<Rightarrow> int) \<Rightarrow> nat \<Rightarrow> queues \<Rightarrow> (MailTx \<times> queues) option" where
  "processMailTxQueue env serve_fails now n qs = do {
     mail \<leftarrow> idx (q_mail qs) 0;
     queue_rounds env serve_fails now n (mail, qs\<lparr>q_mail := drop 1 (q_mail qs)\<rparr>) }"

end
