(* ===== verification/SmtpClient.thy ===== *)
theory SmtpClient
  imports SmtpServer
begin

section \<open>The SMTP client (lib/smtp/client.go, serverinfo.go)\<close>

text \<open>
  The client after it has connected: the commands it sends and what it does with the responses. The
  connection is modelled as in the server, by the results of \<open>Read\<close> and a record of what is
  written. A result is a response (\<open>nil\<close> when the response was empty), an error, waiting for a
  response that has not come, or a panic, which a \<open>nil\<close> response causes where its code is read.
  Dialling, TLS and the look-up of the server are input and output and are left out.
\<close>

record ServerInfo =
  si_Domain :: bytes
  si_Info :: bytes
  si_Exts :: "bytes \<Rightarrow> bytes list option"

record smtpClient =
  sc_in :: "read list"
  sc_out :: "(bytes \<times> bool) list"
  sc_info :: "ServerInfo option"

datatype cresult = CRes "smtpResponse option" | CFail | CWait | CPanic

text \<open>Every error of \<open>Read\<close> ends the loop, the end of the input too.\<close>

fun recv_loop :: "bytes \<Rightarrow> read list \<Rightarrow> readAll" where
  "recv_loop buf [] = RBlock"
| "recv_loop buf (Read bs err # rs) =
     (let buf = buf @ bs
      in if err \<noteq> None then RFail [] rs
         else if length bs = 4096 then recv_loop buf rs else RDone buf rs)"

definition cl_recv :: "smtpClient \<Rightarrow> smtpClient \<times> cresult" where
  "cl_recv cl =
     (case recv_loop [] (sc_in cl) of
        RBlock \<Rightarrow> (cl, CWait)
      | RFail _ rs \<Rightarrow> (cl\<lparr>sc_in := rs\<rparr>, CFail)
      | RDone b rs \<Rightarrow>
          (cl\<lparr>sc_in := rs\<rparr>,
           case NewResponse b of
             None \<Rightarrow> CPanic
           | Some (res, Some _) \<Rightarrow> CFail
           | Some (res, None) \<Rightarrow> CRes res))"

definition cl_write :: "smtpEnv \<Rightarrow> smtpClient \<Rightarrow> bytes \<Rightarrow> smtpClient \<times> bool" where
  "cl_write env cl bs =
     (let ok = \<not> write_fails env (length (sc_out cl)) in (cl\<lparr>sc_out := sc_out cl @ [(bs, ok)]\<rparr>, ok))"

definition SendCommand :: "smtpEnv \<Rightarrow> smtpClient \<Rightarrow> bytes \<Rightarrow> smtpClient \<times> cresult" where
  "SendCommand env cl cmd =
     (let (cl, ok) = cl_write env cl cmd in if \<not> ok then (cl, CFail) else cl_recv cl)"

definition Authenticate :: "smtpEnv \<Rightarrow> smtpClient \<Rightarrow> int \<Rightarrow> bytes \<Rightarrow> bytes \<Rightarrow> smtpClient \<times> cresult" where
  "Authenticate env cl mech username password =
     (if mech = 1 then
        SendCommand env cl (smtp_line (str ''AUTH PLAIN '' @ base64_Encode ([0] @ username @ [0] @ password)))
      else (cl, CFail))"

definition NewServerInfo :: "(bytes \<Rightarrow> bytes) \<Rightarrow> smtpResponse \<Rightarrow> ServerInfo" where
  "NewServerInfo lower res =
     \<lparr>si_Domain = split_byte 32 (rs_Message res) ! 0, si_Info = rs_Message res,
      si_Exts = foldl (\<lambda>m body. let p = split_byte 32 body in m(lower (p ! 0) \<mapsto> drop 1 p)) Map.empty (rs_Body res)\<rparr>"

text \<open>\<open>ehlo\<close> with a name that is not empty, the one given or the one of the host.\<close>

definition ehlo :: "smtpEnv \<Rightarrow> (bytes \<Rightarrow> bytes) \<Rightarrow> smtpClient \<Rightarrow> bytes \<Rightarrow> smtpClient \<times> cresult" where
  "ehlo env lower cl localName =
     (case SendCommand env cl (smtp_line (str ''EHLO '' @ localName)) of
        (cl, CRes None) \<Rightarrow> (cl, CPanic)
      | (cl, CRes (Some res)) \<Rightarrow>
          if rs_Code res = StatusOK then (cl\<lparr>sc_info := Some (NewServerInfo lower res)\<rparr>, CRes (Some res)) else (cl, CFail)
      | (cl, r) \<Rightarrow> (cl, r))"

definition Expand :: "smtpEnv \<Rightarrow> smtpClient \<Rightarrow> bytes \<Rightarrow> smtpClient \<times> cresult" where
  "Expand env cl mlist =
     (if length mlist = 0 then (cl, CRes None) else SendCommand env cl (smtp_line (str ''EXPN '' @ mlist)))"

definition Help :: "smtpEnv \<Rightarrow> smtpClient \<Rightarrow> bytes \<Rightarrow> smtpClient \<times> cresult" where
  "Help env cl cmdName = SendCommand env cl (smtp_line (str ''HELP '' @ cmdName))"

definition Verify :: "smtpEnv \<Rightarrow> smtpClient \<Rightarrow> bytes \<Rightarrow> smtpClient \<times> cresult" where
  "Verify env cl mailbox =
     (if length mailbox = 0 then (cl, CRes None) else SendCommand env cl (smtp_line (str ''VRFY '' @ mailbox)))"

definition cl_Quit :: "smtpEnv \<Rightarrow> smtpClient \<Rightarrow> smtpClient \<times> cresult" where
  "cl_Quit env cl = SendCommand env cl (smtp_line (str ''QUIT''))"

text \<open>
  The check of a response in \<open>MailTx\<close> for \<open>RCPT\<close>, \<open>DATA\<close> and the message: an error of the connection
  comes with a \<open>nil\<close> response, whose code the error message reads.
\<close>

definition want :: "int \<Rightarrow> cresult \<Rightarrow> cresult" where
  "want code r =
     (case r of
        CRes (Some res) \<Rightarrow> if rs_Code res \<noteq> code then CFail else CRes (Some res)
      | CWait \<Rightarrow> CWait
      | _ \<Rightarrow> CPanic)"

fun mail_rcpts :: "smtpEnv \<Rightarrow> smtpClient \<Rightarrow> bytes list \<Rightarrow> smtpClient \<times> cresult" where
  "mail_rcpts env cl [] = (cl, CRes None)"
| "mail_rcpts env cl (to # tos) =
     (let (cl, r) = SendCommand env cl (smtp_line (str ''RCPT TO:<'' @ to @ str ''>''))
      in case want StatusOK r of
           CRes _ \<Rightarrow> mail_rcpts env cl tos
         | e \<Rightarrow> (cl, e))"

definition mail_data :: "smtpEnv \<Rightarrow> smtpClient \<Rightarrow> bytes \<Rightarrow> smtpClient \<times> cresult" where
  "mail_data env cl data =
     (let (cl, r) = SendCommand env cl (smtp_line (str ''DATA''))
      in case want StatusDataReady r of
           CRes _ \<Rightarrow>
             let (cl, ok) = cl_write env cl (data @ mail_end)
             in if \<not> ok then (cl, CFail)
                else let (cl, r) = cl_recv cl in (cl, want StatusOK r)
         | e \<Rightarrow> (cl, e))"

definition client_MailTx :: "smtpEnv \<Rightarrow> smtpClient \<Rightarrow> MailTx option \<Rightarrow> smtpClient \<times> cresult" where
  "client_MailTx env cl m =
     (case m of
        None \<Rightarrow> (cl, CRes None)
      | Some mail \<Rightarrow>
          if length (mt_From mail) = 0 then (cl, CFail)
          else if length (mt_Recipients mail) = 0 then (cl, CFail)
          else case SendCommand env cl (smtp_line (str ''MAIL FROM:<'' @ mt_From mail @ str ''>'')) of
                 (cl, CRes None) \<Rightarrow> (cl, CPanic)
               | (cl, CRes (Some res)) \<Rightarrow>
                   if rs_Code res \<noteq> StatusOK then (cl, CFail)
                   else (case mail_rcpts env cl (mt_Recipients mail) of
                           (cl, CRes _) \<Rightarrow> mail_data env cl (mt_Data mail)
                         | (cl, e) \<Rightarrow> (cl, e))
               | (cl, e) \<Rightarrow> (cl, e))"

end
