(* ===== verification/SmtpProps.thy ===== *)
theory SmtpProps
  imports SmtpClient "HOL-Library.Sublist"
begin

section \<open>What holds of SMTP sessions\<close>

text \<open>
  Who can put a mail into the queue, what a transaction of the client leads to, and what becomes of
  the queue.
\<close>

subsection \<open>Only authenticated clients deliver\<close>

text \<open>What replies keep.\<close>

lemma send_keeps [simp]:
  "rc_mode (fst (sendReply env r code msg body)) = rc_mode r" "rc_authenticated (fst (sendReply env r code msg body)) = rc_authenticated r"
  "rc_state (fst (sendReply env r code msg body)) = rc_state r" "rc_mail (fst (sendReply env r code msg body)) = rc_mail r"
  "rc_clientDomain (fst (sendReply env r code msg body)) = rc_clientDomain r"
  "rc_mode (fst (sendError env r e)) = rc_mode r" "rc_authenticated (fst (sendError env r e)) = rc_authenticated r"
  "rc_mode (recv_reset r) = rc_mode r" "rc_authenticated (recv_reset r) = rc_authenticated r" "rc_state (recv_reset r) = CommandZERO"
  by (simp_all add: conn_write_def sendReply_def sendError_def recv_reset_def Let_def split: prod.splits)

lemma sendError_state: "rc_state (fst (sendError env r e)) = (if snd (sendError env r e) then CommandZERO else rc_state r)"
  by (simp add: conn_write_def sendError_def recv_reset_def Let_def split: prod.splits)

text \<open>The bytes that a list of reads yields.\<close>

fun read_bytes :: "read \<Rightarrow> bytes" where
  "read_bytes (Read bs _) = bs"

definition input_bytes :: "read list \<Rightarrow> bytes" where
  "input_bytes rs = concat (map read_bytes rs)"

lemma input_bytes_Cons [simp]: "input_bytes [] = []" "input_bytes (x # rs) = read_bytes x @ input_bytes rs"
  by (simp_all add: input_bytes_def)

lemma read_loop_bytes:
  "read_loop buff rs = RDone b rs1 \<Longrightarrow> buff @ input_bytes rs = b @ input_bytes rs1"
  "read_loop buff rs = RFail m rs1 \<Longrightarrow> suffix (input_bytes rs1) (input_bytes rs)"
  by (induction buff rs rule: read_loop.induct)
    (auto simp: Let_def suffix_def split: option.splits readErr.splits if_splits)

lemma data_loop_bytes: "data_loop data rs = (d, rs1, res) \<Longrightarrow> suffix (input_bytes rs1) (input_bytes rs)"
  by (induction data rs rule: data_loop.induct) (auto simp: Let_def suffix_def split: if_splits)

text \<open>Parts of a command line are parts of the input.\<close>

lemma split_byte_sublist: "x \<in> set (split_byte sep s) \<Longrightarrow> sublist x s"
proof (induction s arbitrary: x)
  case (Cons b s)
  obtain y ys where y: "split_byte sep s = y # ys" by (metis list.exhaust split_byte_not_Nil)
  have "prefix y s"
    using y by (induction s arbitrary: y ys) (auto split: if_splits list.splits)
  then have "sublist (b # y) (b # s)" by (simp add: sublist_Cons_right)
  with Cons y show ?case by (auto simp: sublist_Cons_right split: if_splits)
qed simp

lemma strip_suffix: "suffix (strip encs s) s"
proof (induction encs s rule: strip.induct)
  case (1 encs s)
  show ?case
  proof (cases "find (\<lambda>e. e \<noteq> [] \<and> take (length e) s = e) encs")
    case (Some e)
    then have "suffix (strip encs s) (drop (length e) s)" using 1 by (subst strip.simps) simp
    then show ?thesis using suffix_drop suffix_order.order_trans by blast
  qed (subst strip.simps, simp)
qed

lemma TrimSpace_sublist: "sublist (TrimSpace s) s"
proof -
  have "prefix (TrimSpace s) (strip space_encs s)"
    using strip_suffix [of "map rev space_encs" "rev (strip space_encs s)"] by (simp add: TrimSpace_def suffix_to_prefix)
  then show ?thesis using strip_suffix [of space_encs s] by (meson prefix_imp_sublist sublist_order.order_trans suffix_imp_sublist)
qed

lemma TrimRight_prefix: "prefix (TrimRight c s) s"
  using suffix_dropWhile [of "\<lambda>b. b = c" "rev s"] by (simp add: TrimRight_def suffix_to_prefix)

lemma parsePath_Param:
  assumes "cmd_parsePath cmd b = Some (cmd1, e)"
  shows "cmd_Param cmd1 = cmd_Param cmd"
proof (cases "ParsePath (take (closing b + 1) b)")
  case None
  then show ?thesis using assms by (auto simp: cmd_parsePath_def Let_def split: if_splits)
next
  case (Some x)
  then show ?thesis using assms by (cases x) (auto simp: cmd_parsePath_def parseParams_def Let_def split: if_splits)
qed

lemma arg_Param:
  "path_arg cmd k b = Some (cmd1, e) \<Longrightarrow> cmd_Param cmd1 = cmd_Param cmd"
  "opt_arg cmd k b = (cmd1, e) \<Longrightarrow> cmd_Param cmd1 = cmd_Param cmd"
  "req_arg cmd k b = (cmd1, e) \<Longrightarrow> cmd_Param cmd1 = cmd_Param cmd"
  by (auto simp: path_arg_def opt_arg_def req_arg_def Let_def bind_eq_Some_conv split: if_splits dest!: parsePath_Param)

lemma unpack_Param:
  assumes "cmd_unpack newCommand b = Some (cmd, e)"
  shows "sublist (cmd_Param cmd) b"
proof -
  define l where "l = TrimRight 32 (take (length b - 2) b)"
  have l: "sublist l b"
    using TrimRight_prefix [of 32 "take (length b - 2) b"] take_is_prefix [of "length b - 2" b]
    by (auto simp: l_def intro: prefix_imp_sublist prefix_order.order_trans)
  have n: "cmd_Param newCommand = []" by (simp add: newCommand_def)
  have "cmd_Param cmd = [] \<or> cmd_Param cmd \<in> set (split_byte 32 l)"
    using assms unfolding cmd_unpack_def l_def [symmetric] Let_def
    by (auto simp: bind_eq_Some_conv n split: if_split_asm dest!: arg_Param)
  then show ?thesis using split_byte_sublist l by (auto intro: sublist_order.order_trans)
qed

text \<open>The input is read from the front.\<close>

lemma suffix_input [simp]: "suffix (input_bytes (rc_in r)) (input_bytes (rc_in r))"
  by simp

lemma readAuthData_bytes:
  "suffix (input_bytes (rc_in (fst (readAuthData r cmd)))) (input_bytes (rc_in r))"
  "snd (snd (readAuthData r cmd)) = HOk \<Longrightarrow> sublist (cmd_Param (fst (snd (readAuthData r cmd)))) (input_bytes (rc_in r))"
proof -
  have d: "suffix (input_bytes rs) (input_bytes (rc_in r)) \<and> sublist (TrimSpace b) (input_bytes (rc_in r))"
    if "read_loop [] (rc_in r) = RDone b rs" for b rs
    using read_loop_bytes(1) [OF that] TrimSpace_sublist [of b]
    by (auto simp: suffix_def intro: sublist_order.order_trans)
  show "suffix (input_bytes (rc_in (fst (readAuthData r cmd)))) (input_bytes (rc_in r))"
    using d read_loop_bytes(2) [of "[]" "rc_in r"] by (auto simp: readAuthData_def split: readAll.splits)
  show "snd (snd (readAuthData r cmd)) = HOk \<Longrightarrow> sublist (cmd_Param (fst (snd (readAuthData r cmd)))) (input_bytes (rc_in r))"
    using d by (auto simp: readAuthData_def split: readAll.splits)
qed

lemma auth_plain_bytes: "rc_in (fst (auth_plain env srv r param)) = rc_in r"
  by (rule auth_plain_in)

lemma handleAUTH_bytes: "suffix (input_bytes (rc_in (fst (handleAUTH env srv r cmd)))) (input_bytes (rc_in r))"
  using readAuthData_bytes(1) [of "fst (sendReply env r StatusAuthReady [] [])" cmd]
  by (simp add: handleAUTH_def split_beta Let_def auth_plain_in)

lemma readDATA_bytes: "suffix (input_bytes (rc_in (fst (readDATA env r)))) (input_bytes (rc_in r))"
  using data_loop_bytes [of "mt_Data (rc_mail r)" "rc_in r"]
  by (cases "data_loop (mt_Data (rc_mail r)) (rc_in r)") (auto simp: readDATA_def seal_def Let_def)

lemma handleDATA_bytes: "suffix (input_bytes (rc_in (fst (handleDATA env r)))) (input_bytes (rc_in r))"
  using readDATA_bytes [of env "fst (sendReply env (fst (refuse env r)) StatusDataReady (str ''Start mail input.'') [])"]
  by (simp add: handleDATA_def split_beta Let_def)

lemma handleCommand_bytes: "suffix (input_bytes (rc_in (fst (handleCommand env srv r cmd)))) (input_bytes (rc_in r))"
  by (cases "cmd_Kind cmd")
    (simp_all add: handleCommand_def handleAUTH_bytes handleDATA_bytes handleEHLO_def handleHELO_def handleMAIL_def
      handleRCPT_def handleVRFY_def handleEXPN_def handle_query_def handleHELP_def split_beta Let_def split: sum.splits)

text \<open>Credentials that the handler accepts were sent on the connection.\<close>

definition granted :: "smtpServer \<Rightarrow> bytes \<Rightarrow> bool" where
  "granted srv input \<longleftrightarrow> (\<exists>param p username password res. sublist param input \<and> base64_DecodeString param = Some p \<and>
     auth_credentials p = Some (username, password) \<and> ServeAuth (sv_Handler srv) username password = Inr res)"

text \<open>The invariant of a session between two commands.\<close>

definition session_ok :: "smtpServer \<Rightarrow> receiverMode \<Rightarrow> bytes \<Rightarrow> receiver \<Rightarrow> bool" where
  "session_ok srv mode input r \<longleftrightarrow> rc_mode r = mode \<and> (rc_authenticated r \<longrightarrow> mode = receiverModeClient \<and> granted srv input)"

lemma auth_plain_ok:
  assumes "session_ok srv receiverModeClient input r" "sublist param input"
  shows "session_ok srv receiverModeClient input (fst (auth_plain env srv r param)) \<and>
    (rc_state r \<noteq> CommandDATA \<longrightarrow> rc_state (fst (auth_plain env srv r param)) \<noteq> CommandDATA)"
  using assms
  by (auto simp: auth_plain_def session_ok_def granted_def sendError_state split_beta Let_def split: option.splits sum.splits)

lemma readAuthData_keeps:
  "rc_mode (fst (readAuthData r cmd)) = rc_mode r" "rc_authenticated (fst (readAuthData r cmd)) = rc_authenticated r"
  "rc_state (fst (readAuthData r cmd)) = rc_state r"
  by (simp_all add: readAuthData_def split: readAll.splits)

lemma handleAUTH_ok:
  assumes "session_ok srv mode input r" "rc_state r \<noteq> CommandDATA" "suffix (input_bytes (rc_in r)) input" "sublist (cmd_Param cmd) input"
  shows "session_ok srv mode input (fst (handleAUTH env srv r cmd)) \<and> rc_state (fst (handleAUTH env srv r cmd)) \<noteq> CommandDATA"
proof (cases "rc_mode r")
  case receiverModeServer
  then show ?thesis using assms by (auto simp: handleAUTH_def session_ok_def sendError_state)
next
  case receiverModeClient
  define r1 where "r1 = fst (sendReply env r StatusAuthReady [] [])"
  define r2 where "r2 = fst (readAuthData r1 cmd)"
  define c2 where "c2 = fst (snd (readAuthData r1 cmd))"
  have m: "mode = receiverModeClient" using receiverModeClient assms(1) by (simp add: session_ok_def)
  have ok: "session_ok srv receiverModeClient input r2" "session_ok srv receiverModeClient input r" "rc_state r2 \<noteq> CommandDATA"
    using assms m by (simp_all add: r1_def r2_def readAuthData_keeps session_ok_def)
  have p: "snd (snd (readAuthData r1 cmd)) = HOk \<Longrightarrow> sublist (cmd_Param c2) input"
    using readAuthData_bytes(2) [of r1 cmd] assms(3) unfolding c2_def r1_def
    by (auto intro: sublist_order.order_trans suffix_imp_sublist)
  show ?thesis
    using ok p assms m auth_plain_ok [OF ok(1), of "cmd_Param c2" env] auth_plain_ok [OF ok(2) assms(4), of env]
    by (simp add: handleAUTH_def split_beta Let_def r1_def [symmetric] r2_def [symmetric] c2_def [symmetric] receiverModeClient
        sendError_state session_ok_def) (simp add: r1_def receiverModeClient)
qed

lemma refuse_keeps:
  "rc_mode (fst (refuse env r)) = rc_mode r" "rc_authenticated (fst (refuse env r)) = rc_authenticated r"
  "snd (refuse env r) \<Longrightarrow> rc_state (fst (refuse env r)) = (if isAuthenticated r then rc_state r else CommandZERO)"
  "rc_state r \<noteq> CommandDATA \<Longrightarrow> rc_state (fst (refuse env r)) \<noteq> CommandDATA"
  by (auto simp: refuse_def sendError_state split: if_splits)

lemma readDATA_keeps:
  "rc_mode (fst (readDATA env r)) = rc_mode r" "rc_authenticated (fst (readDATA env r)) = rc_authenticated r"
  "rc_state (fst (readDATA env r)) = rc_state r"
  by (simp_all add: readDATA_def split_beta Let_def)

lemma handleDATA_ok:
  assumes "session_ok srv mode input r" "rc_state r \<noteq> CommandDATA"
  shows "session_ok srv mode input (fst (handleDATA env r)) \<and> (rc_state (fst (handleDATA env r)) = CommandDATA \<longrightarrow> isAuthenticated r)"
proof -
  define r1 where "r1 = fst (refuse env r)"
  have k: "rc_mode r1 = rc_mode r" "rc_authenticated r1 = rc_authenticated r" "rc_state r1 \<noteq> CommandDATA"
    "snd (refuse env r) \<Longrightarrow> rc_state r1 = CommandRCPT \<Longrightarrow> isAuthenticated r"
    using assms(2) refuse_keeps [where env = env and r = r] by (auto simp: r1_def split: if_splits)
  have "rc_mode (fst (handleDATA env r)) = rc_mode r1 \<and> rc_authenticated (fst (handleDATA env r)) = rc_authenticated r1"
    by (simp add: handleDATA_def split_beta Let_def readDATA_keeps r1_def)
  moreover have "rc_state (fst (handleDATA env r)) = CommandDATA \<longrightarrow> snd (refuse env r) \<and> rc_state r1 = CommandRCPT"
    using k(3) by (simp add: handleDATA_def split_beta Let_def readDATA_keeps r1_def)
  ultimately show ?thesis using assms(1) k by (simp add: session_ok_def)
qed

lemma other_handlers:
  assumes "rc_state r \<noteq> CommandDATA" "cmd_Kind cmd \<noteq> CommandAUTH" "cmd_Kind cmd \<noteq> CommandDATA"
  shows "rc_mode (fst (handleCommand env srv r cmd)) = rc_mode r \<and>
    rc_authenticated (fst (handleCommand env srv r cmd)) = rc_authenticated r \<and> rc_state (fst (handleCommand env srv r cmd)) \<noteq> CommandDATA"
proof -
  note k = refuse_keeps(1,2) [where env = env and r = r] refuse_keeps(4) [OF assms(1), where env = env]
  have q: "rc_mode (fst (handle_query env r f cmd)) = rc_mode r \<and>
    rc_authenticated (fst (handle_query env r f cmd)) = rc_authenticated r \<and> rc_state (fst (handle_query env r f cmd)) \<noteq> CommandDATA" for f
    using assms(1) k by (simp add: handle_query_def sendError_state split_beta Let_def split: sum.splits)
  show ?thesis
    using assms k q
    by (cases "cmd_Kind cmd")
      (simp_all add: handleCommand_def handleEHLO_def handleHELO_def handleMAIL_def handleRCPT_def handleVRFY_def
        handleEXPN_def handleHELP_def sendError_state split_beta Let_def)
qed

lemma handleCommand_ok:
  assumes "session_ok srv mode input r" "rc_state r \<noteq> CommandDATA" "suffix (input_bytes (rc_in r)) input" "sublist (cmd_Param cmd) input"
  shows "session_ok srv mode input (fst (handleCommand env srv r cmd)) \<and>
    (rc_state (fst (handleCommand env srv r cmd)) = CommandDATA \<longrightarrow> isAuthenticated (fst (handleCommand env srv r cmd)))"
proof -
  consider "cmd_Kind cmd = CommandAUTH" | "cmd_Kind cmd = CommandDATA" | "cmd_Kind cmd \<noteq> CommandAUTH" "cmd_Kind cmd \<noteq> CommandDATA" by blast
  then show ?thesis
  proof cases
    case 1
    then show ?thesis using handleAUTH_ok [OF assms, of env] by (simp add: handleCommand_def)
  next
    case 2
    have "rc_authenticated (fst (handleDATA env r)) = rc_authenticated r" "rc_mode (fst (handleDATA env r)) = rc_mode r"
      by (simp_all add: handleDATA_def split_beta Let_def readDATA_keeps refuse_keeps)
    with 2 show ?thesis using handleDATA_ok [OF assms(1,2), of env] by (auto simp: handleCommand_def isAuthenticated_def)
  next
    case 3
    then show ?thesis using other_handlers [OF assms(2) 3, of env srv] assms(1) by (auto simp: session_ok_def)
  qed
qed

lemma after_command_ok:
  assumes "session_ok srv mode input r" "rc_state r = CommandDATA \<longrightarrow> isAuthenticated r" "after_command env r q = (r1, q1, s)"
  shows "session_ok srv mode input r1 \<and> (s = Going \<longrightarrow> rc_state r1 \<noteq> CommandDATA) \<and> (q1 = q \<or> isAuthenticated r1)"
  using assms by (auto simp: after_command_def split_beta Let_def session_ok_def isAuthenticated_def split: if_splits)

lemma handle_step_ok:
  assumes "session_ok srv mode input r" "rc_state r \<noteq> CommandDATA" "suffix (input_bytes (rc_in r)) input"
    "handle_step env srv r q = Some (r1, q1, s)"
  shows "session_ok srv mode input r1 \<and> (s = Going \<longrightarrow> rc_state r1 \<noteq> CommandDATA) \<and> (q1 = q \<or> isAuthenticated r1) \<and>
    suffix (input_bytes (rc_in r1)) input"
proof -
  obtain r2 got where got: "readCommand r = Some (r2, got)" using assms(4) by (auto simp: handle_step_def bind_eq_Some_conv)
  have in2: "suffix (input_bytes (rc_in r2)) (input_bytes (rc_in r))"
    using got read_loop_bytes [of "[]" "rc_in r"]
    by (auto simp: readCommand_def bind_eq_Some_conv suffix_def split: readAll.splits)
  then have k: "session_ok srv mode input r2" "rc_state r2 \<noteq> CommandDATA" "suffix (input_bytes (rc_in r2)) input"
    using got assms(1-3) suffix_order.order_trans
    by (auto simp: readCommand_def session_ok_def bind_eq_Some_conv split: readAll.splits)
  have e: "session_ok srv mode input (fst (sendError env r2 e)) \<and> rc_state (fst (sendError env r2 e)) \<noteq> CommandDATA" for e
    using k by (simp add: session_ok_def sendError_state)
  show ?thesis
  proof (cases got)
    case (CGot cmd)
    define h where "h = fst (handleCommand env srv r2 cmd)"
    obtain b rs where b: "read_loop [] (rc_in r) = RDone b rs" "cmd_unpack newCommand b = Some (cmd, None)"
      using readCommand_got got CGot by metis
    have p: "sublist (cmd_Param cmd) input"
      using unpack_Param [OF b(2)] read_loop_bytes(1) [OF b(1)] assms(3)
      by (metis append_Nil sublist_appendI sublist_order.order_trans append.right_neutral suffix_imp_sublist)
    have h: "session_ok srv mode input h" "rc_state h = CommandDATA \<longrightarrow> isAuthenticated h" "suffix (input_bytes (rc_in h)) input"
      using handleCommand_ok [OF k p, of env] handleCommand_bytes [of env srv r2 cmd] k(3) suffix_order.order_trans
      unfolding h_def by blast+
    show ?thesis
    proof (cases "validate (sv_Exts srv) cmd")
      case None
      then have "(case snd (handleCommand env srv r2 cmd) of HErr \<Rightarrow> (h, q, Closed) | HBlock \<Rightarrow> (h, q, Waiting)
          | HOk \<Rightarrow> after_command env h q) = (r1, q1, s)"
        using assms(4) got CGot unfolding h_def by (simp add: handle_step_def split_beta Let_def)
      then show ?thesis using h after_command_ok [OF h(1,2), of env q r1 q1 s] after_command_in [of env h q]
        by (auto split: hres.splits)
    next
      case (Some x)
      then show ?thesis using assms(4) got CGot e [of x] k(3) by (auto simp: handle_step_def)
    qed
  next
    case CBlock
    then show ?thesis using assms(4) got k by (auto simp: handle_step_def)
  next
    case (CErr x)
    then show ?thesis using assms(4) got e [of x] k(3) by (auto simp: handle_step_def)
  qed
qed

lemma handle_loop_ok:
  assumes "session_ok srv mode input r" "rc_state r \<noteq> CommandDATA" "suffix (input_bytes (rc_in r)) input"
    "handle_loop env srv r q = Some (r1, q1, s)"
  shows "q1 = q \<or> mode = receiverModeClient \<and> granted srv input"
  using assms
proof (induction env srv r q rule: handle_loop.induct)
  case (1 env srv r q)
  obtain r2 q2 s2 where st: "handle_step env srv r q = Some (r2, q2, s2)"
    using 1(5) by (auto simp: handle_loop.simps [of env srv r q] split: option.splits)
  note ok = handle_step_ok [OF 1(2-4) st]
  have g: "q2 = q \<or> mode = receiverModeClient \<and> granted srv input"
    using ok by (auto simp: session_ok_def isAuthenticated_def split: if_splits)
  show ?case
  proof (cases "s2 = Going")
    case True
    then have "handle_loop env srv r2 q2 = Some (r1, q1, s)" using 1(5) st by (simp add: handle_loop.simps [of env srv r q])
    with 1(1) [OF st _ _ True] ok True g show ?thesis by auto
  next
    case False
    then show ?thesis using 1(5) st g by (simp add: handle_loop.simps [of env srv r q])
  qed
qed

lemma lh_ServeAuth_accepts:
  assumes "lh_ServeAuth lower compare e username password = Inr res"
  shows "\<exists>dm user acc. dm \<in> set (PrimaryDomain e # VirtualDomains e) \<and> split_byte 64 (lower username) = [user, dm_Name dm] \<and>
    dm_Accounts dm user = Some acc \<and> ac_HashPass acc \<noteq> [] \<and> compare (ac_HashPass acc) password"
proof -
  define ld where "ld = split_byte 64 (lower username)"
  have l: "length ld = 2" using assms by (auto simp: lh_ServeAuth_def ld_def Let_def split: if_splits)
  then obtain u d where ld: "ld = [u, d]" by (auto simp: numeral_2_eq_2 length_Suc_conv)
  have A: "\<exists>acc. dm_Accounts dm u = Some acc \<and> ac_HashPass acc \<noteq> [] \<and> compare (ac_HashPass acc) password"
    if "auth_in compare dm u password = Inr res" for dm
    using that by (auto simp: auth_in_def split: option.splits if_splits)
  show ?thesis
  proof (cases "d = dm_Name (PrimaryDomain e)")
    case True
    then have "auth_in compare (PrimaryDomain e) u password = Inr res"
      using assms ld by (simp add: lh_ServeAuth_def ld_def [symmetric] Let_def)
    with A True ld show ?thesis by (auto simp: ld_def)
  next
    case False
    then obtain vdom where v: "find (\<lambda>vdom. d = dm_Name vdom) (VirtualDomains e) = Some vdom" "auth_in compare vdom u password = Inr res"
      using assms ld by (auto simp: lh_ServeAuth_def ld_def [symmetric] Let_def split: option.splits)
    then have "vdom \<in> set (VirtualDomains e)" "d = dm_Name vdom" by (auto simp: find_Some_iff)
    with A [OF v(2)] ld show ?thesis by (auto simp: ld_def)
  qed
qed

subsection \<open>A mail transaction\<close>

text \<open>Packets that the peer sends and that arrive one by one.\<close>

definition packets :: "bytes list \<Rightarrow> read list" where
  "packets ls = map (\<lambda>l. Read l None) ls"

lemma packets_simps [simp]: "packets [] = []" "packets (l # ls) = Read l None # packets ls" "packets (as @ bs) = packets as @ packets bs"
  by (simp_all add: packets_def)

definition oks :: "bytes list \<Rightarrow> (bytes \<times> bool) list" where
  "oks ls = map (\<lambda>l. (l, True)) ls"

lemma oks_simps [simp]: "oks [] = []" "oks (l # ls) = (l, True) # oks ls" "oks (as @ bs) = oks as @ oks bs"
  by (simp_all add: oks_def)

lemma sendReply_ok:
  assumes "\<And>n. \<not> write_fails env n"
  shows "sendReply env r code msg body = (r\<lparr>rc_out := rc_out r @ [(reply_text code msg body, True)]\<rparr>, True)"
  using assms by (simp add: sendReply_def conn_write_def Let_def)

text \<open>A command line that arrives whole.\<close>

lemma handle_loop_line:
  assumes "rc_in r = Read l None # rs" "length l < 4096" "cmd_unpack newCommand l = Some (cmd, None)"
    "validate (sv_Exts srv) cmd = None" "handleCommand env srv (r\<lparr>rc_in := rs\<rparr>) cmd = (r1, HOk)"
    "after_command env r1 q = (r2, q2, Going)"
  shows "handle_loop env srv r q = handle_loop env srv r2 q2"
proof -
  have "readCommand r = Some (r\<lparr>rc_in := rs\<rparr>, CGot cmd)" using assms(1-3) by (simp add: readCommand_def)
  then have "handle_step env srv r q = Some (r2, q2, Going)" using assms(4-6) by (simp add: handle_step_def)
  then show ?thesis by (simp add: handle_loop.simps [of env srv r q])
qed

lemma smtp_line_length: "length (smtp_line (str ''MAIL FROM:<'' @ a @ str ''>'')) = length a + 14"
  "length (smtp_line (str ''RCPT TO:<'' @ a @ str ''>'')) = length a + 12"
  by (simp_all add: smtp_line_def str_def)

abbreviation ok_reply :: bytes where
  "ok_reply \<equiv> reply_text StatusOK (str ''OK'') []"

lemma handle_loop_MAIL:
  assumes "\<And>n. \<not> write_fails env n" "\<And>cmd. validate (sv_Exts srv) cmd = None" "isAuthenticated r" "plain_address a" "length a \<le> 498"
    "rc_in r = Read (smtp_line (str ''MAIL FROM:<'' @ a @ str ''>'')) None # rs"
  shows "handle_loop env srv r q = handle_loop env srv (r\<lparr>rc_in := rs, rc_mail := (rc_mail r)\<lparr>mt_From := a\<rparr>, rc_state := CommandMAIL,
     rc_out := rc_out r @ [(ok_reply, True)]\<rparr>) q"
proof (rule handle_loop_line [OF assms(6) _ unpack_MAIL [OF assms(4,5)] assms(2)])
  show "length (smtp_line (str ''MAIL FROM:<'' @ a @ str ''>'')) < 4096" using assms(5) by (simp add: smtp_line_length)
  show "handleCommand env srv (r\<lparr>rc_in := rs\<rparr>) (newCommand\<lparr>cmd_Arg := a, cmd_Kind := CommandMAIL\<rparr>) =
      (r\<lparr>rc_in := rs, rc_mail := (rc_mail r)\<lparr>mt_From := a\<rparr>, rc_state := CommandMAIL, rc_out := rc_out r @ [(ok_reply, True)]\<rparr>, HOk)"
    using assms(3) by (simp add: handleCommand_def handleMAIL_def sendReply_ok [OF assms(1)] isAuthenticated_def split: if_splits)
qed (simp add: after_command_def)

lemma handle_loop_RCPT:
  assumes "\<And>n. \<not> write_fails env n" "\<And>cmd. validate (sv_Exts srv) cmd = None" "isAuthenticated r"
    "list_all (\<lambda>a. plain_address a \<and> length a \<le> 498) tos" "length (mt_Recipients (rc_mail r)) + length tos \<le> 100"
    "rc_in r = packets (map (\<lambda>a. smtp_line (str ''RCPT TO:<'' @ a @ str ''>'')) tos) @ rs"
  shows "handle_loop env srv r q = handle_loop env srv (r\<lparr>rc_in := rs,
     rc_mail := (rc_mail r)\<lparr>mt_Recipients := mt_Recipients (rc_mail r) @ tos\<rparr>,
     rc_state := (if tos = [] then rc_state r else CommandRCPT), rc_out := rc_out r @ oks (map (\<lambda>_. ok_reply) tos)\<rparr>) q"
  using assms(3-)
proof (induction tos arbitrary: r)
  case Nil
  then show ?case by (cases r) auto
next
  case (Cons a tos)
  define r1 where "r1 = r\<lparr>rc_in := packets (map (\<lambda>a. smtp_line (str ''RCPT TO:<'' @ a @ str ''>'')) tos) @ rs,
     rc_mail := (rc_mail r)\<lparr>mt_Recipients := mt_Recipients (rc_mail r) @ [a]\<rparr>, rc_state := CommandRCPT,
     rc_out := rc_out r @ [(ok_reply, True)]\<rparr>"
  have a: "plain_address a" "length a \<le> 498" using Cons.prems(2) by auto
  have i: "rc_in r = Read (smtp_line (str ''RCPT TO:<'' @ a @ str ''>'')) None #
      (packets (map (\<lambda>a. smtp_line (str ''RCPT TO:<'' @ a @ str ''>'')) tos) @ rs)" using Cons.prems(4) by simp
  have "handle_loop env srv r q = handle_loop env srv r1 q"
  proof (rule handle_loop_line [OF i _ unpack_RCPT [OF a] assms(2)])
    show "length (smtp_line (str ''RCPT TO:<'' @ a @ str ''>'')) < 4096" using a(2) by (simp add: smtp_line_length)
    show "handleCommand env srv (r\<lparr>rc_in := packets (map (\<lambda>a. smtp_line (str ''RCPT TO:<'' @ a @ str ''>'')) tos) @ rs\<rparr>)
        (newCommand\<lparr>cmd_Arg := a, cmd_Kind := CommandRCPT\<rparr>) = (r1, HOk)"
      using Cons.prems(1,3)
      by (simp add: handleCommand_def handleRCPT_def refuse_def sendReply_ok [OF assms(1)] isAuthenticated_def r1_def split: if_splits)
  qed (simp add: after_command_def r1_def)
  also have "\<dots> = handle_loop env srv (r1\<lparr>rc_in := rs, rc_mail := (rc_mail r1)\<lparr>mt_Recipients := mt_Recipients (rc_mail r1) @ tos\<rparr>,
     rc_state := (if tos = [] then rc_state r1 else CommandRCPT), rc_out := rc_out r1 @ oks (map (\<lambda>_. ok_reply) tos)\<rparr>) q"
    using Cons.prems by (intro Cons.IH) (simp_all add: r1_def isAuthenticated_def)
  also have "r1\<lparr>rc_in := rs, rc_mail := (rc_mail r1)\<lparr>mt_Recipients := mt_Recipients (rc_mail r1) @ tos\<rparr>,
     rc_state := (if tos = [] then rc_state r1 else CommandRCPT), rc_out := rc_out r1 @ oks (map (\<lambda>_. ok_reply) tos)\<rparr> =
     r\<lparr>rc_in := rs, rc_mail := (rc_mail r)\<lparr>mt_Recipients := mt_Recipients (rc_mail r) @ a # tos\<rparr>,
     rc_state := (if a # tos = [] then rc_state r else CommandRCPT), rc_out := rc_out r @ oks (map (\<lambda>_. ok_reply) (a # tos))\<rparr>"
    by (simp add: r1_def)
  finally show ?case .
qed

text \<open>The data of a message arrives in any packets; the end of the data must not occur inside.\<close>

definition ends_once :: "bytes \<Rightarrow> bool" where
  "ends_once data \<longleftrightarrow> (\<forall>n < length data + 5. \<not> isTerminated (take n (data @ mail_end)))"

lemma data_loop_packets:
  assumes "\<forall>n. length acc \<le> n \<and> n < length (acc @ concat cs) \<longrightarrow> \<not> isTerminated (take n (acc @ concat cs))"
    "isTerminated (acc @ concat cs)" "[] \<notin> set cs" "cs \<noteq> []"
  shows "data_loop acc (packets cs @ rs) = (acc @ concat cs, rs, HOk)"
  using assms
proof (induction cs arbitrary: acc)
  case (Cons c cs)
  show ?case
  proof (cases "cs = []")
    case True
    then show ?thesis using Cons.prems(2) by (simp add: Let_def)
  next
    case False
    then have "0 < length (concat cs)" using Cons.prems(3) by (cases cs) auto
    then have "\<not> isTerminated (take (length (acc @ c)) (acc @ concat (c # cs)))"
      using Cons.prems(1) by (intro Cons.prems(1) [rule_format]) auto
    then have "data_loop acc (packets (c # cs) @ rs) = data_loop (acc @ c) (packets cs @ rs)" by (simp add: Let_def)
    also have "\<dots> = ((acc @ c) @ concat cs, rs, HOk)"
      using Cons.prems False by (intro Cons.IH) auto
    finally show ?thesis by simp
  qed
qed simp

lemma isTerminated_end: "isTerminated (data @ mail_end)"
  by (simp add: isTerminated_def mail_end_def Let_def)

text \<open>The mail that is put into the queue for each recipient, and the receiver after the transaction.\<close>

definition sealed :: "smtpEnv \<Rightarrow> receiver \<Rightarrow> bytes \<Rightarrow> bytes list \<Rightarrow> bytes \<Rightarrow> MailTx" where
  "sealed env r from tos data =
     seal (formatTime env) ((rc_mail r)\<lparr>mt_From := from, mt_Recipients := tos, mt_Data := data\<rparr>)
       (rc_clientDomain r) (rc_clientAddress r) (rc_localAddress r)"

lemma mt_seal [simp]: "mt_From (seal f m a b c) = mt_From m" "mt_Recipients (seal f m a b c) = mt_Recipients m"
  by (simp_all add: seal_def)

lemma handle_loop_DATA:
  assumes "\<And>n. \<not> write_fails env n" "\<And>cmd. validate (sv_Exts srv) cmd = None" "isAuthenticated r" "rc_state r = CommandRCPT"
    "mt_Data (rc_mail r) = []" "ends_once data" "concat cs = data @ mail_end" "[] \<notin> set cs"
    "length q + length (mt_Recipients (rc_mail r)) \<le> queueSize"
    "rc_in r = Read (smtp_line (str ''DATA'')) None # packets cs @ rs"
  shows "handle_loop env srv r q = handle_loop env srv (r\<lparr>rc_in := rs, rc_state := CommandZERO,
       rc_mail := mail_Reset (rc_mail r), rc_out := rc_out r @ oks [reply_text StatusDataReady (str ''Start mail input.'') [], ok_reply]\<rparr>)
     (q @ new_mails (clock env) (length q) (sealed env r (mt_From (rc_mail r)) (mt_Recipients (rc_mail r)) data) (mt_Recipients (rc_mail r)))"
proof -
  define r0 where "r0 = r\<lparr>rc_in := packets cs @ rs, rc_out := rc_out r @ [(reply_text StatusDataReady (str ''Start mail input.'') [], True)]\<rparr>"
  define m where "m = sealed env r (mt_From (rc_mail r)) (mt_Recipients (rc_mail r)) data"
  have "cs \<noteq> []" using assms(7) by (auto simp: mail_end_def)
  then have dl: "data_loop [] (packets cs @ rs) = (data @ mail_end, rs, HOk)"
    using data_loop_packets [of "[]" cs rs] assms(6-8) isTerminated_end [of data] by (simp add: ends_once_def mail_end_def)
  have rd: "readDATA env r0 = (r0\<lparr>rc_in := rs, rc_mail := m\<rparr>, HOk)"
    using assms(5) dl by (simp add: readDATA_def r0_def m_def sealed_def seal_def mail_end_def Let_def)
  have nm: "length (new_mails now n m tos) = length tos" for now n tos by (induction tos arbitrary: n) simp_all
  have mt: "mt_Recipients m = mt_Recipients (rc_mail r)" "mail_Reset m = mail_Reset (rc_mail r)"
    by (simp_all add: m_def sealed_def seal_def mail_Reset_def)
  show ?thesis unfolding m_def [symmetric]
  proof (rule handle_loop_line [OF assms(10) _ unpack_DATA assms(2)])
    show "length (smtp_line (str ''DATA'')) < 4096" by (simp add: smtp_line_def str_def)
    show "handleCommand env srv (r\<lparr>rc_in := packets cs @ rs\<rparr>) (newCommand\<lparr>cmd_Kind := CommandDATA\<rparr>) =
        (r0\<lparr>rc_in := rs, rc_mail := m, rc_state := CommandDATA\<rparr>, HOk)"
      using assms(3,4) rd
      by (simp add: handleCommand_def handleDATA_def refuse_def sendReply_ok [OF assms(1)] isAuthenticated_def r0_def split: if_splits)
    show "after_command env (r0\<lparr>rc_in := rs, rc_mail := m, rc_state := CommandDATA\<rparr>) q =
        (r\<lparr>rc_in := rs, rc_state := CommandZERO, rc_mail := mail_Reset (rc_mail r),
          rc_out := rc_out r @ oks [reply_text StatusDataReady (str ''Start mail input.'') [], ok_reply]\<rparr>,
         q @ new_mails (clock env) (length q) m (mt_Recipients (rc_mail r)), Going)"
      using assms(9) by (simp add: after_command_def processMailTx_def nm mt sendReply_ok [OF assms(1)] recv_reset_def r0_def Let_def)
  qed
qed

text \<open>The side of the client.\<close>

lemma cl_recv_reply:
  assumes "sc_in cl = Read (reply_text code msg []) None # rs" "100 \<le> code" "code \<le> 999" "clean_text msg" "length msg < 4000"
  shows "cl_recv cl = (cl\<lparr>sc_in := rs\<rparr>, CRes (Some \<lparr>rs_Code = code, rs_Message = msg, rs_Body = []\<rparr>))"
proof -
  obtain a b c where "Itoa code = [a, b, c]" using digits3 [OF assms(2,3)] .
  then have "length (reply_text code msg []) < 4096" using assms(5) by (simp add: reply_text_def)
  then show ?thesis using NewResponse_reply [of code msg] assms by (simp add: cl_recv_def)
qed

lemma SendCommand_reply:
  assumes "\<And>n. \<not> write_fails env n" "sc_in cl = Read (reply_text code msg []) None # rs" "100 \<le> code" "code \<le> 999" "clean_text msg"
    "length msg < 4000"
  shows "SendCommand env cl cmd = (cl\<lparr>sc_in := rs, sc_out := sc_out cl @ [(cmd, True)]\<rparr>, CRes (Some \<lparr>rs_Code = code, rs_Message = msg, rs_Body = []\<rparr>))"
proof -
  define cl1 where "cl1 = cl\<lparr>sc_out := sc_out cl @ [(cmd, True)]\<rparr>"
  have "cl_write env cl cmd = (cl1, True)" using assms(1) by (simp add: cl_write_def cl1_def)
  moreover have "cl_recv cl1 = (cl1\<lparr>sc_in := rs\<rparr>, CRes (Some \<lparr>rs_Code = code, rs_Message = msg, rs_Body = []\<rparr>))"
    using assms(2-) by (intro cl_recv_reply) (simp_all add: cl1_def)
  ultimately show ?thesis by (simp add: SendCommand_def cl1_def)
qed

lemma clean_replies: "clean_text (str ''OK'')" "clean_text (str ''Start mail input.'')"
  "length (str ''OK'') < 4000" "length (str ''Start mail input.'') < 4000"
  by (simp_all add: clean_text_def str_def)

lemma mail_rcpts_ok:
  assumes "\<And>n. \<not> write_fails env n" "sc_in cl = packets (map (\<lambda>_. ok_reply) tos) @ rs"
  shows "\<exists>res. mail_rcpts env cl tos = (cl\<lparr>sc_in := rs,
    sc_out := sc_out cl @ oks (map (\<lambda>a. smtp_line (str ''RCPT TO:<'' @ a @ str ''>'')) tos)\<rparr>, CRes res)"
  using assms(2)
proof (induction tos arbitrary: cl)
  case Nil
  then show ?case by (cases cl) auto
next
  case (Cons a tos)
  define cl1 where "cl1 = cl\<lparr>sc_in := packets (map (\<lambda>_. ok_reply) tos) @ rs,
    sc_out := sc_out cl @ [(smtp_line (str ''RCPT TO:<'' @ a @ str ''>''), True)]\<rparr>"
  have "SendCommand env cl (smtp_line (str ''RCPT TO:<'' @ a @ str ''>'')) = (cl1, CRes (Some \<lparr>rs_Code = StatusOK, rs_Message = str ''OK'', rs_Body = []\<rparr>))"
    unfolding cl1_def using Cons.prems clean_replies by (intro SendCommand_reply [OF assms(1)]) (simp_all add: StatusOK_def)
  then have "mail_rcpts env cl (a # tos) = mail_rcpts env cl1 tos" by (simp add: want_def)
  with Cons.IH [of cl1] show ?case by (simp add: cl1_def)
qed

text \<open>What the client writes and what the server replies, in their order.\<close>

definition mail_lines :: "bytes \<Rightarrow> bytes list \<Rightarrow> bytes list" where
  "mail_lines from tos =
     smtp_line (str ''MAIL FROM:<'' @ from @ str ''>'') # map (\<lambda>a. smtp_line (str ''RCPT TO:<'' @ a @ str ''>'')) tos @ [smtp_line (str ''DATA'')]"

definition mail_replies :: "bytes list \<Rightarrow> bytes list" where
  "mail_replies tos = ok_reply # map (\<lambda>_. ok_reply) tos @ [reply_text StatusDataReady (str ''Start mail input.'') [], ok_reply]"

lemma client_MailTx_ok:
  assumes "\<And>n. \<not> write_fails env n" "mt_From mail \<noteq> []" "mt_Recipients mail \<noteq> []" "sc_in cl = packets (mail_replies (mt_Recipients mail)) @ rs"
  shows "client_MailTx env cl (Some mail) =
    (cl\<lparr>sc_in := rs, sc_out := sc_out cl @ oks (mail_lines (mt_From mail) (mt_Recipients mail) @ [mt_Data mail @ mail_end])\<rparr>,
     CRes (Some \<lparr>rs_Code = StatusOK, rs_Message = str ''OK'', rs_Body = []\<rparr>))"
proof -
  define ok where "ok = \<lparr>rs_Code = StatusOK, rs_Message = str ''OK'', rs_Body = []\<rparr>"
  let ?tos = "mt_Recipients mail"
  define i2 where "i2 = packets [reply_text StatusDataReady (str ''Start mail input.'') [], ok_reply] @ rs"
  define l1 where "l1 = smtp_line (str ''MAIL FROM:<'' @ mt_From mail @ str ''>'')"
  define l2 where "l2 = map (\<lambda>a. smtp_line (str ''RCPT TO:<'' @ a @ str ''>'')) ?tos"
  define cl1 where "cl1 = cl\<lparr>sc_in := packets (map (\<lambda>_. ok_reply) ?tos) @ i2, sc_out := sc_out cl @ oks [l1]\<rparr>"
  define cl2 where "cl2 = cl1\<lparr>sc_in := i2, sc_out := sc_out cl1 @ oks l2\<rparr>"
  define cl3 where "cl3 = cl2\<lparr>sc_in := packets [ok_reply] @ rs, sc_out := sc_out cl2 @ oks [smtp_line (str ''DATA'')]\<rparr>"
  define cl4 where "cl4 = cl3\<lparr>sc_out := sc_out cl3 @ oks [mt_Data mail @ mail_end]\<rparr>"
  have 1: "SendCommand env cl l1 = (cl1, CRes (Some ok))"
    unfolding cl1_def ok_def oks_simps using assms(4) clean_replies
    by (intro SendCommand_reply [OF assms(1)]) (simp_all add: StatusOK_def mail_replies_def i2_def)
  obtain res where 2: "mail_rcpts env cl1 ?tos = (cl2, CRes res)"
    using mail_rcpts_ok [OF assms(1), of cl1 ?tos i2] by (auto simp: cl1_def cl2_def l2_def)
  have 3: "SendCommand env cl2 (smtp_line (str ''DATA'')) = (cl3, CRes (Some \<lparr>rs_Code = StatusDataReady, rs_Message = str ''Start mail input.'', rs_Body = []\<rparr>))"
    unfolding cl3_def oks_simps using clean_replies
    by (intro SendCommand_reply [OF assms(1)]) (simp_all add: StatusDataReady_def cl2_def i2_def)
  have 4: "cl_write env cl3 (mt_Data mail @ mail_end) = (cl4, True)" using assms(1) by (simp add: cl_write_def cl4_def)
  have 5: "cl_recv cl4 = (cl4\<lparr>sc_in := rs\<rparr>, CRes (Some ok))"
    unfolding ok_def using clean_replies by (intro cl_recv_reply) (simp_all add: StatusOK_def cl4_def cl3_def)
  have "mail_data env cl2 (mt_Data mail) = (cl4\<lparr>sc_in := rs\<rparr>, CRes (Some ok))"
    using 3 4 5 by (simp add: mail_data_def want_def ok_def)
  then have "client_MailTx env cl (Some mail) = (cl4\<lparr>sc_in := rs\<rparr>, CRes (Some ok))"
    using 1 2 assms(2,3) by (simp add: client_MailTx_def l1_def [symmetric] ok_def)
  then show ?thesis by (simp add: cl4_def cl3_def cl2_def cl1_def mail_lines_def l1_def l2_def ok_def)
qed

text \<open>The server's side of the whole transaction.\<close>

lemma handle_loop_mail:
  assumes "\<And>n. \<not> write_fails env n" "\<And>cmd. validate (sv_Exts srv) cmd = None" "isAuthenticated r"
    "mt_Data (rc_mail r) = []"
    "list_all (\<lambda>a. plain_address a \<and> length a \<le> 498) (from # tos)" "tos \<noteq> []" "length (mt_Recipients (rc_mail r)) + length tos \<le> 100"
    "ends_once data" "concat cs = data @ mail_end" "[] \<notin> set cs" "length q + length (mt_Recipients (rc_mail r)) + length tos \<le> queueSize"
    "rc_in r = packets (mail_lines from tos @ cs) @ rs"
  shows "handle_loop env srv r q = handle_loop env srv
     (r\<lparr>rc_in := rs, rc_state := CommandZERO, rc_mail := mail_Reset (rc_mail r), rc_out := rc_out r @ oks (mail_replies tos)\<rparr>)
     (q @ new_mails (clock env) (length q) (sealed env r from (mt_Recipients (rc_mail r) @ tos) data) (mt_Recipients (rc_mail r) @ tos))"
proof -
  define i1 where "i1 = Read (smtp_line (str ''DATA'')) None # packets cs @ rs"
  define i0 where "i0 = packets (map (\<lambda>a. smtp_line (str ''RCPT TO:<'' @ a @ str ''>'')) tos) @ i1"
  define r1 where "r1 = r\<lparr>rc_in := i0, rc_mail := (rc_mail r)\<lparr>mt_From := from\<rparr>, rc_state := CommandMAIL,
     rc_out := rc_out r @ [(ok_reply, True)]\<rparr>"
  define r2 where "r2 = r1\<lparr>rc_in := i1, rc_mail := (rc_mail r1)\<lparr>mt_Recipients := mt_Recipients (rc_mail r) @ tos\<rparr>, rc_state := CommandRCPT,
     rc_out := rc_out r1 @ oks (map (\<lambda>_. ok_reply) tos)\<rparr>"
  have "handle_loop env srv r q = handle_loop env srv r1 q"
    unfolding r1_def using assms(5,12)
    by (intro handle_loop_MAIL [OF assms(1,2,3)]) (simp_all add: mail_lines_def i0_def i1_def)
  also have "\<dots> = handle_loop env srv r2 q"
  proof -
    have "isAuthenticated r1" "list_all (\<lambda>a. plain_address a \<and> length a \<le> 498) tos"
      "mt_Recipients (rc_mail r1) = mt_Recipients (rc_mail r)" "rc_in r1 = i0"
      using assms(3,5) by (simp_all add: r1_def isAuthenticated_def)
    from handle_loop_RCPT [OF assms(1,2) this(1,2), of i1 q] this assms(6,7) show ?thesis by (simp add: r2_def i0_def)
  qed
  also have "\<dots> = handle_loop env srv (r2\<lparr>rc_in := rs, rc_state := CommandZERO, rc_mail := mail_Reset (rc_mail r2),
       rc_out := rc_out r2 @ oks [reply_text StatusDataReady (str ''Start mail input.'') [], ok_reply]\<rparr>)
     (q @ new_mails (clock env) (length q) (sealed env r2 (mt_From (rc_mail r2)) (mt_Recipients (rc_mail r2)) data) (mt_Recipients (rc_mail r2)))"
    using assms(3,4,11) by (intro handle_loop_DATA [OF assms(1,2) _ _ _ assms(8-10)])
      (simp_all add: r2_def r1_def isAuthenticated_def i1_def)
  also have "sealed env r2 (mt_From (rc_mail r2)) (mt_Recipients (rc_mail r2)) data = sealed env r from (mt_Recipients (rc_mail r) @ tos) data"
    by (simp add: r2_def r1_def sealed_def)
  also have "mt_Recipients (rc_mail r2) = mt_Recipients (rc_mail r) @ tos" by (simp add: r2_def)
  also have "r2\<lparr>rc_in := rs, rc_state := CommandZERO, rc_mail := mail_Reset (rc_mail r2),
       rc_out := rc_out r2 @ oks [reply_text StatusDataReady (str ''Start mail input.'') [], ok_reply]\<rparr> =
     r\<lparr>rc_in := rs, rc_state := CommandZERO, rc_mail := mail_Reset (rc_mail r), rc_out := rc_out r @ oks (mail_replies tos)\<rparr>"
    by (simp add: r2_def r1_def mail_Reset_def mail_replies_def)
  finally show ?thesis .
qed

subsection \<open>Authentication\<close>

lemma unpack_AUTH:
  assumes "32 \<notin> set p" "p \<noteq> []" "length p \<le> 499" "last p \<noteq> 32"
  shows "cmd_unpack newCommand (smtp_line (str ''AUTH PLAIN '' @ p)) =
    Some (newCommand\<lparr>cmd_Arg := str ''PLAIN'', cmd_Param := p, cmd_Kind := CommandAUTH\<rparr>, None)"
proof -
  define s where "s = str ''AUTH PLAIN '' @ p"
  have len: "4 \<le> length s" "length s \<le> 510" "last s \<noteq> 32" using assms by (simp_all add: s_def str_def)
  note pt = smtp_line_parts [OF len]
  have s: "s = str ''AUTH'' @ 32 # str ''PLAIN'' @ 32 # p" by (simp add: s_def str_def)
  have cmds: "split_byte 32 s = [str ''AUTH'', str ''PLAIN'', p]"
    unfolding s using split_byte_append [of 32 "str ''AUTH''"] split_byte_append [of 32 "str ''PLAIN''"] split_byte_none [OF assms(1)]
    by (simp add: str_def)
  have n: "bytes_ToLower (str ''AUTH'') = str ''auth''" by (simp add: str_def)
  have t: "TrimSpace [80, 76, 65, 73, 78] = [80, 76, 65, 73, 78]" by (rule TrimSpace_printable) auto
  show ?thesis
    unfolding s_def [symmetric] cmd_unpack_def
    by (simp only: pt if_False not_True_eq_False simp_thms Let_def cmds nth_Cons_0 n)
      (simp add: t str_def idx_def numeral_2_eq_2)
qed

lemma handle_loop_AUTH:
  assumes "\<And>n. \<not> write_fails env n" "\<And>cmd. validate (sv_Exts srv) cmd = None"
    "rc_mode r = receiverModeClient" "\<not> rc_authenticated r" "rc_state r \<notin> {CommandMAIL, CommandRCPT, CommandDATA}"
    "0 \<notin> set username" "0 \<notin> set password" "length username + length password \<le> 368"
    "ServeAuth (sv_Handler srv) username password = Inr res"
    "rc_in r = Read (smtp_line (str ''AUTH PLAIN '' @ base64_Encode ([0] @ username @ [0] @ password))) None # rs"
  shows "handle_loop env srv r q = handle_loop env srv (r\<lparr>rc_in := rs, rc_authenticated := True, rc_state := CommandAUTH,
     rc_out := rc_out r @ [(reply_text (rs_Code res) (rs_Message res) (rs_Body res), True)]\<rparr>) q"
proof -
  define p where "p = base64_Encode ([0] @ username @ [0] @ password)"
  have "b \<in> set p \<Longrightarrow> 32 < b" for b using base64_printable by (auto simp: p_def)
  moreover have "4 \<le> length p" "length p \<le> 499" using assms(8) by (simp_all add: p_def base64_length)
  ultimately have p: "32 \<notin> set p" "p \<noteq> []" "length p \<le> 499" by auto
  then have l: "last p \<noteq> 32" by (metis last_in_set)
  have c: "auth_credentials ([0] @ username @ [0] @ password) = Some (username, password)"
    using split_byte_append [of 0 username password] split_byte_none [of 0 password] assms(6,7)
    by (simp add: auth_credentials_def numeral_2_eq_2)
  have d: "base64_DecodeString p = Some ([0] @ username @ [0] @ password)" by (simp only: p_def base64_roundtrip)
  show ?thesis
  proof (rule handle_loop_line [OF assms(10) [folded p_def] _ unpack_AUTH [OF p l] assms(2)])
    show "length (smtp_line (str ''AUTH PLAIN '' @ p)) < 4096" using p(3) by (simp add: smtp_line_def str_def)
    show "handleCommand env srv (r\<lparr>rc_in := rs\<rparr>) (newCommand\<lparr>cmd_Arg := str ''PLAIN'', cmd_Param := p, cmd_Kind := CommandAUTH\<rparr>) =
        (r\<lparr>rc_in := rs, rc_authenticated := True, rc_state := CommandAUTH,
           rc_out := rc_out r @ [(reply_text (rs_Code res) (rs_Message res) (rs_Body res), True)]\<rparr>, HOk)"
      using assms(3-5,9) p(2) c d
      by (simp add: handleCommand_def handleAUTH_def auth_plain_def isAuthenticated_def sendReply_ok [OF assms(1)])
  qed (simp add: after_command_def)
qed

subsection \<open>The queue\<close>

text \<open>A mail and its retries.\<close>

definition same_mail :: "MailTx \<Rightarrow> MailTx \<Rightarrow> bool" where
  "same_mail m m1 \<longleftrightarrow> mt_From m1 = mt_From m \<and> mt_Recipients m1 = mt_Recipients m \<and> mt_Data m1 = mt_Data m \<and> mt_ID m1 = mt_ID m"

lemma same_mail_refl [simp]: "same_mail m m"
  by (simp add: same_mail_def)

lemma same_mail_trans: "same_mail a b \<Longrightarrow> same_mail b c \<Longrightarrow> same_mail a c"
  by (simp add: same_mail_def)

lemma same_postpone: "same_mail m (postpone m)"
  by (simp add: same_mail_def postpone_def Let_def)

text \<open>One round keeps the mail and the rest of the queue, and serves nothing but the mail.\<close>

definition round_ok :: "MailTx \<Rightarrow> queues \<Rightarrow> MailTx \<times> queues \<Rightarrow> bool" where
  "round_ok m qs = (\<lambda>(m1, qs1). same_mail m m1 \<and> q_mail qs1 = q_mail qs \<and> (\<exists>ms. q_served qs1 = q_served qs @ ms \<and> list_all (same_mail m) ms))"

lemma round_ok_refl [simp]: "round_ok m qs (m, qs)"
  by (simp add: round_ok_def)

lemma serve_mail_round: "serve_mail serve_fails qs m = Some s \<Longrightarrow> round_ok m qs s"
  by (auto simp: serve_mail_def round_ok_def to_bounce_def same_postpone Let_def bind_eq_Some_conv split: if_splits)

lemma queue_body_round:
  assumes "mt_Recipients m \<noteq> []"
  shows "\<exists>r. queue_body env serve_fails now (m, qs) = Some r \<and> (\<forall>s. r = Some s \<longrightarrow> round_ok m qs s)"
proof -
  obtain rcpt tos where m: "mt_Recipients m = rcpt # tos" using assms by (cases "mt_Recipients m") auto
  have "to_relay qs m = Some qs1 \<Longrightarrow> round_ok m qs (m, qs1)" "to_bounce qs m = Some qs1 \<Longrightarrow> round_ok m qs (m, qs1)" for qs1
    by (auto simp: to_relay_def to_bounce_def round_ok_def split: if_splits)
  then show ?thesis
    unfolding queue_body_def using serve_mail_round [of serve_fails qs m]
    by (simp add: m idx_def Let_def bind_eq_Some_conv split: if_split)
qed

lemma queue_rounds_ok:
  assumes "mt_Recipients m \<noteq> []"
  shows "\<exists>s. queue_rounds env serve_fails now n (m, qs) = Some s \<and> round_ok m qs s"
proof (induction n)
  case (Suc n)
  then obtain m1 qs1 where s: "queue_rounds env serve_fails now n (m, qs) = Some (m1, qs1)" "round_ok m qs (m1, qs1)" by auto
  then have "mt_Recipients m1 \<noteq> []" using assms by (simp add: round_ok_def same_mail_def)
  from queue_body_round [OF this, of env serve_fails "now n" qs1] obtain r where
    r: "queue_body env serve_fails (now n) (m1, qs1) = Some r" "\<forall>s. r = Some s \<longrightarrow> round_ok m1 qs1 s" by blast
  have "round_ok m qs s2" if "round_ok m1 qs1 s2" for s2
    using that s(2) by (fastforce simp: round_ok_def list_all_iff intro: same_mail_trans)
  with s r show ?case by (cases r) auto
qed simp

text \<open>A recipient of the server's own.\<close>

definition own_recipient :: "Environment \<Rightarrow> bytes \<Rightarrow> bool" where
  "own_recipient env rcpt \<longleftrightarrow> rcpt = str ''postmaster'' \<or> (\<exists>l d. split_byte 64 rcpt = [l, d] \<and> isOurDomain env d)"

lemma queue_rounds_served:
  assumes "mt_Recipients m = [rcpt]" "own_recipient env rcpt" "\<And>n. mt_Postpone m \<le> now n" "\<And>n. \<not> serve_fails n"
  shows "queue_rounds env serve_fails now n (m, qs) = Some (m, qs\<lparr>q_served := q_served qs @ replicate n m\<rparr>)"
proof (induction n)
  case (Suc n)
  define qs1 where "qs1 = qs\<lparr>q_served := q_served qs @ replicate n m\<rparr>"
  have sv: "serve_mail serve_fails qs1 m = Some (m, qs1\<lparr>q_served := q_served qs1 @ [m]\<rparr>)"
    using assms(4) by (simp add: serve_mail_def)
  have "split_byte 64 (str ''postmaster'') = [str ''postmaster'']" by (rule split_byte_none) (simp add: str_def)
  then have "queue_body env serve_fails (now n) (m, qs1) = Some (Some (m, qs1\<lparr>q_served := q_served qs1 @ [m]\<rparr>))"
    using assms(1,2) assms(3) [of n] sv by (auto simp: queue_body_def isPostponed_def own_recipient_def idx_def Let_def)
  then show ?case using Suc by (simp add: qs1_def replicate_append_same [symmetric] del: replicate_append_same)
qed simp

end
