(* ===== verification/SmtpTheorems.thy ===== *)
theory SmtpTheorems
  imports SmtpProps
begin

section \<open>Properties of the SMTP server and client\<close>

text \<open>The main results on \<open>lib/smtp\<close>, with a server, a session and an account as their examples.\<close>

subsection \<open>An example\<close>

definition env1 :: smtpEnv where
  "env1 = \<lparr>write_fails = \<lambda>_. False, clock = int, formatTime = \<lambda>_. str ''now''\<rparr>"

definition domain1 :: Environment where
  "domain1 = \<lparr>PrimaryDomain = \<lparr>dm_Name = str ''a.id'', dm_Accounts = [str ''u'' \<mapsto>
      \<lparr>ac_Name = [], ac_Local = str ''u'', ac_Domain = str ''a.id'', ac_HashPass = str ''p''\<rparr>]\<rparr>, VirtualDomains = []\<rparr>"

definition srv1 :: smtpServer where
  "srv1 = \<lparr>sv_domain = str ''a.id'', sv_Exts = defaultExts, sv_Handler = NewLocalHandler (\<lambda>s. s) (=) domain1\<rparr>"

definition input1 :: "read list" where
  "input1 = packets (smtp_line (str ''AUTH PLAIN '' @ base64_Encode ([0] @ str ''u@a.id'' @ [0] @ str ''p'')) #
     mail_lines (str ''u@a.id'') [str ''b@c''] @ [str ''hi'' @ mail_end])"

lemma env1_writes: "\<not> write_fails env1 n"
  by (simp add: env1_def)

lemma validate_default: "validate defaultExts cmd = None"
  by (simp add: defaultExts_def extDSN_def)

lemma srv1_validates: "validate (sv_Exts srv1) cmd = None"
  by (simp add: srv1_def validate_default)

lemma srv1_accepts: "ServeAuth (sv_Handler srv1) (str ''u@a.id'') (str ''p'') = Inr authenticated_response"
proof -
  have "split_byte 64 (str ''u'' @ 64 # str ''a.id'') = [str ''u'', str ''a.id'']"
    using split_byte_append [of 64 "str ''u''" "str ''a.id''"] split_byte_none [of 64 "str ''a.id''"] by (simp add: str_def)
  then have "split_byte 64 (str ''u@a.id'') = [str ''u'', str ''a.id'']" by (simp add: str_def)
  then show ?thesis
    by (simp add: srv1_def NewLocalHandler_def lh_ServeAuth_def Let_def domain1_def auth_in_def) (simp add: str_def)
qed

lemma address1: "plain_address (str ''u@a.id'')" "plain_address (str ''b@c'')"
  unfolding plain_address_def
  subgoal
    by (rule exI [of _ "str ''u''"], rule exI [of _ "str ''a.id''"])
      (simp add: str_def dot_atom_def IsAlnum_def IsAlpha_def IsDigit_def)
  subgoal
    by (rule exI [of _ "str ''b''"], rule exI [of _ "str ''c''"])
      (simp add: str_def dot_atom_def IsAlnum_def IsAlpha_def IsDigit_def)
  done

lemma ends_once1: "ends_once (str ''hi'')"
proof -
  have "\<forall>n \<in> set [0..<7]. \<not> isTerminated (take n (str ''hi'' @ mail_end))" by code_simp
  then show ?thesis by (simp add: ends_once_def str_def)
qed

lemmas example_bytes = address1 [unfolded str_def, simplified] ends_once1 [unfolded str_def, simplified]

lemma handle_loop_empty: "rc_in r = [] \<Longrightarrow> handle_loop env srv r q = Some (r, q, Waiting)"
  by (subst handle_loop.simps) (simp add: handle_step_def readCommand_def)

text \<open>The session of the example: the client authenticates and sends one mail.\<close>

lemma handle1:
  "\<exists>r1 q1. handle env1 srv1 (newReceiver input1 [] [] receiverModeClient) [] = Some (r1, q1, Waiting) \<and> q1 \<noteq> []"
proof -
  define i1 where "i1 = packets (mail_lines (str ''u@a.id'') [str ''b@c''] @ [str ''hi'' @ mail_end])"
  define r0 where "r0 = (newReceiver input1 [] [] receiverModeClient)\<lparr>rc_out := [(reply_text StatusReady (str ''a.id'') [], True)]\<rparr>"
  define r1 where "r1 = r0\<lparr>rc_in := i1, rc_authenticated := True, rc_state := CommandAUTH, rc_out := rc_out r0 @
     [(reply_text (rs_Code authenticated_response) (rs_Message authenticated_response) (rs_Body authenticated_response), True)]\<rparr>"
  have "handle env1 srv1 (newReceiver input1 [] [] receiverModeClient) [] = handle_loop env1 srv1 r0 []"
    by (simp add: handle_def sendReply_ok [OF env1_writes] r0_def srv1_def newReceiver_def)
  also have "\<dots> = handle_loop env1 srv1 r1 []"
    unfolding r1_def
    by (rule handle_loop_AUTH [OF env1_writes srv1_validates _ _ _ _ _ _ srv1_accepts])
      (simp_all add: r0_def newReceiver_def input1_def i1_def str_def)
  also have "\<dots> = handle_loop env1 srv1 (r1\<lparr>rc_in := [], rc_state := CommandZERO, rc_mail := mail_Reset (rc_mail r1),
      rc_out := rc_out r1 @ oks (mail_replies [str ''b@c''])\<rparr>)
     ([] @ new_mails (clock env1) (length ([] :: MailTx list)) (sealed env1 r1 (str ''u@a.id'') (mt_Recipients (rc_mail r1) @ [str ''b@c'']) (str ''hi''))
       (mt_Recipients (rc_mail r1) @ [str ''b@c'']))"
    by (rule handle_loop_mail [OF env1_writes srv1_validates _ _ _ _ _ ends_once1, where cs = "[str ''hi'' @ mail_end]"])
      (simp_all add: example_bytes r1_def r0_def i1_def newReceiver_def isAuthenticated_def zero_mail_def queueSize_def str_def)
  finally show ?thesis by (simp add: handle_loop_empty r1_def r0_def newReceiver_def zero_mail_def)
qed

subsection \<open>Results\<close>

lemma queue_needs_grant:
  assumes "handle env srv (newReceiver input remote addr mode) q = Some (r1, q1, s)" "q1 \<noteq> q"
  shows "mode = receiverModeClient \<and> granted srv (input_bytes input)"
proof -
  define r where "r = fst (sendReply env (newReceiver input remote addr mode) StatusReady (sv_domain srv) [])"
  have "handle_loop env srv r q = Some (r1, q1, s)"
    using assms by (auto simp: handle_def r_def split_beta Let_def split: if_splits)
  moreover have "session_ok srv mode (input_bytes input) r" "rc_state r \<noteq> CommandDATA" "suffix (input_bytes (rc_in r)) (input_bytes input)"
    by (simp_all add: r_def session_ok_def newReceiver_def)
  ultimately show ?thesis using handle_loop_ok assms(2) by blast
qed

text \<open>
  C5: No mail of a client without authentication. On the submission port (mode \<open>receiverModeClient\<close>) of a
  server whose handler is the \<open>LocalHandler\<close>, whatever the peer sends, in whatever packets, and
  whichever writes fail: if a session adds anything to the queue of mails, then among the bytes that the
  peer sent there are credentials, encoded in base64, of an account of one of the server's domains
  that has a password, and the password matches.
\<close>

theorem delivery_needs_credentials:
  assumes "handle env srv (newReceiver input remote addr receiverModeClient) q = Some (r1, q1, s)" "q1 \<noteq> q"
    "sv_Handler srv = NewLocalHandler lower compare e"
  shows "\<exists>param p username password dm user acc. sublist param (input_bytes input) \<and>
    base64_DecodeString param = Some p \<and> auth_credentials p = Some (username, password) \<and>
    dm \<in> set (PrimaryDomain e # VirtualDomains e) \<and> split_byte 64 (lower username) = [user, dm_Name dm] \<and>
    dm_Accounts dm user = Some acc \<and> ac_HashPass acc \<noteq> [] \<and> compare (ac_HashPass acc) password"
  using queue_needs_grant [OF assms(1,2)] lh_ServeAuth_accepts [of lower compare e] unfolding granted_def assms(3)
  by (simp add: NewLocalHandler_def del: list.set) blast

theorem delivery_needs_credentials_witness:
  "\<exists>param p username password dm user acc. sublist param (input_bytes input1) \<and>
    base64_DecodeString param = Some p \<and> auth_credentials p = Some (username, password) \<and>
    dm \<in> set (PrimaryDomain domain1 # VirtualDomains domain1) \<and> split_byte 64 username = [user, dm_Name dm] \<and>
    dm_Accounts dm user = Some acc \<and> ac_HashPass acc \<noteq> [] \<and> ac_HashPass acc = password"
proof -
  obtain r1 q1 where h: "handle env1 srv1 (newReceiver input1 [] [] receiverModeClient) [] = Some (r1, q1, Waiting)" "q1 \<noteq> []"
    using handle1 by blast
  have "sv_Handler srv1 = NewLocalHandler (\<lambda>s. s) (=) domain1" by (simp add: srv1_def)
  from delivery_needs_credentials [OF h this] show ?thesis by blast
qed

text \<open>
  A session of the port for other servers (mode \<open>receiverModeServer\<close>) never delivers a mail, although
  the comment of the mode says that it accepts mail without authentication: \<open>handleMAIL\<close> asks for it
  in both modes, and \<open>AUTH\<close> is refused in this one.
\<close>

theorem server_mode_delivers_nothing:
  assumes "handle env srv (newReceiver input remote addr receiverModeServer) q = Some (r1, q1, s)"
  shows "q1 = q"
  using queue_needs_grant [OF assms] by auto


definition recv1 :: receiver where
  "recv1 = (newReceiver (packets (mail_lines (str ''u@a.id'') [str ''b@c''] @ [str ''h'', str ''i'' @ mail_end])) [] [] receiverModeClient)
     \<lparr>rc_authenticated := True\<rparr>"

definition mail1 :: MailTx where
  "mail1 = zero_mail\<lparr>mt_From := str ''u@a.id'', mt_Recipients := [str ''b@c''], mt_Data := str ''hi''\<rparr>"


text \<open>
  C15: Authentication of a client of the package succeeds: the line that \<open>Client.Authenticate\<close> writes
  for a user name and a password, without zero bytes and short enough for a line, makes the server
  ask its handler about exactly this name and this password, and when the handler accepts, the session
  is authenticated and the client gets the response of the handler.
\<close>

theorem authenticate_completes:
  assumes "\<forall>n. \<not> write_fails env n" "sv_Exts srv = defaultExts" "rc_mode r = receiverModeClient" "\<not> rc_authenticated r"
    "rc_state r \<notin> {CommandMAIL, CommandRCPT, CommandDATA}" "0 \<notin> set username" "0 \<notin> set password"
    "length username + length password \<le> 368" "ServeAuth (sv_Handler srv) username password = Inr res"
    "100 \<le> rs_Code res" "rs_Code res \<le> 999" "clean_text (rs_Message res)" "length (rs_Message res) < 4000" "rs_Body res = []"
  shows "\<exists>line. Authenticate env \<lparr>sc_in = packets [reply_text (rs_Code res) (rs_Message res) []], sc_out = [], sc_info = None\<rparr> 1 username password =
       (\<lparr>sc_in = [], sc_out = oks [line], sc_info = None\<rparr>, CRes (Some res)) \<and>
     handle_loop env srv (r\<lparr>rc_in := packets [line] @ rs\<rparr>) q =
       handle_loop env srv (r\<lparr>rc_in := rs, rc_authenticated := True, rc_state := CommandAUTH,
         rc_out := rc_out r @ oks [reply_text (rs_Code res) (rs_Message res) []]\<rparr>) q"
proof (intro exI conjI)
  let ?line = "smtp_line (str ''AUTH PLAIN '' @ base64_Encode ([0] @ username @ [0] @ password))"
  have v: "validate (sv_Exts srv) cmd = None" for cmd by (simp add: assms(2) validate_default)
  have w: "\<not> write_fails env n" for n using assms(1) by blast
  have res: "\<lparr>rs_Code = rs_Code res, rs_Message = rs_Message res, rs_Body = []\<rparr> = res" using assms(14) by (cases res) simp
  have "SendCommand env \<lparr>sc_in = packets [reply_text (rs_Code res) (rs_Message res) []], sc_out = [], sc_info = None\<rparr> ?line =
      (\<lparr>sc_in = packets [reply_text (rs_Code res) (rs_Message res) []], sc_out = [], sc_info = None\<rparr>\<lparr>sc_in := [], sc_out := [] @ [(?line, True)]\<rparr>,
       CRes (Some \<lparr>rs_Code = rs_Code res, rs_Message = rs_Message res, rs_Body = []\<rparr>))"
    using assms(10-13) by (subst SendCommand_reply [OF w, where rs = "[]"]) simp_all
  then show "Authenticate env \<lparr>sc_in = packets [reply_text (rs_Code res) (rs_Message res) []], sc_out = [], sc_info = None\<rparr> 1 username password =
       (\<lparr>sc_in = [], sc_out = oks [?line], sc_info = None\<rparr>, CRes (Some res))"
    by (simp add: Authenticate_def res)
  show "handle_loop env srv (r\<lparr>rc_in := packets [?line] @ rs\<rparr>) q =
       handle_loop env srv (r\<lparr>rc_in := rs, rc_authenticated := True, rc_state := CommandAUTH,
         rc_out := rc_out r @ oks [reply_text (rs_Code res) (rs_Message res) []]\<rparr>) q"
    using handle_loop_AUTH [OF w v, of "r\<lparr>rc_in := packets [?line] @ rs\<rparr>" username password res rs q] assms(3-9,14) by simp
qed

theorem authenticate_completes_witness:
  "\<exists>line. Authenticate env1 \<lparr>sc_in = packets [reply_text 235 (str ''2.7.0 Authentication successful'') []], sc_out = [], sc_info = None\<rparr> 1
       (str ''u@a.id'') (str ''p'') = (\<lparr>sc_in = [], sc_out = oks [line], sc_info = None\<rparr>, CRes (Some authenticated_response)) \<and>
     handle_loop env1 srv1 ((newReceiver [] [] [] receiverModeClient)\<lparr>rc_in := packets [line] @ []\<rparr>) [] =
       handle_loop env1 srv1 ((newReceiver [] [] [] receiverModeClient)\<lparr>rc_in := [], rc_authenticated := True, rc_state := CommandAUTH,
         rc_out := rc_out (newReceiver [] [] [] receiverModeClient) @ oks [reply_text 235 (str ''2.7.0 Authentication successful'') []]\<rparr>) []"
proof -
  have "ServeAuth (sv_Handler srv1) (str ''u@a.id'') (str ''p'') = Inr authenticated_response" by (rule srv1_accepts)
  from authenticate_completes [OF _ _ _ _ _ _ _ _ this, of env1 "newReceiver [] [] [] receiverModeClient" "[]" "[]"]
  show ?thesis
    by (simp add: env1_writes srv1_def newReceiver_def authenticated_response_def StatusAuthenticated_def clean_text_def str_def)
qed

text \<open>
  C34: The queue of mails is never worked off: after any number of rounds of \<open>processMailTxQueue\<close> the
  mails behind the first are where they were, and every mail that was given to the handler is the
  first one. When its recipient is the server's own and the handler accepts it, it is delivered again
  in every round.
\<close>

theorem first_mail_forever:
  assumes "q_mail qs = m # rest" "mt_Recipients m = [rcpt]"
  shows "\<exists>m1 qs1 ms. processMailTxQueue env serve_fails now n qs = Some (m1, qs1) \<and> q_mail qs1 = rest \<and>
    q_served qs1 = q_served qs @ ms \<and> list_all (same_mail m) ms \<and>
    (own_recipient env rcpt \<and> (\<forall>n. mt_Postpone m \<le> now n) \<and> (\<forall>n. \<not> serve_fails n) \<longrightarrow> ms = replicate n m)"
proof -
  let ?qs = "qs\<lparr>q_mail := rest\<rparr>"
  have p: "processMailTxQueue env serve_fails now n qs = queue_rounds env serve_fails now n (m, ?qs)"
    by (simp add: processMailTxQueue_def assms(1) idx_def)
  obtain m1 qs1 where s: "queue_rounds env serve_fails now n (m, ?qs) = Some (m1, qs1)" "round_ok m ?qs (m1, qs1)"
    using queue_rounds_ok [of m env serve_fails now n ?qs] assms(2) by auto
  then obtain ms where ms: "q_mail qs1 = rest" "q_served qs1 = q_served qs @ ms" "list_all (same_mail m) ms" by (auto simp: round_ok_def)
  have "ms = replicate n m" if "own_recipient env rcpt" "\<forall>n. mt_Postpone m \<le> now n" "\<forall>n. \<not> serve_fails n"
    using queue_rounds_served [OF assms(2) that(1), of now serve_fails n ?qs] that(2,3) s(1) ms(2) by auto
  with p s(1) ms show ?thesis by (intro exI [of _ m1] exI [of _ qs1] exI [of _ ms]) auto
qed

theorem first_mail_forever_witness:
  "\<exists>m1 qs1 ms. processMailTxQueue domain1 (\<lambda>_. False) int 3 \<lparr>q_mail = [mail1\<lparr>mt_Recipients := [str ''postmaster'']\<rparr>, mail1], q_relay = [],
      q_bounce = [], q_served = []\<rparr> = Some (m1, qs1) \<and> q_mail qs1 = [mail1] \<and> q_served qs1 = ms \<and>
    ms = replicate 3 (mail1\<lparr>mt_Recipients := [str ''postmaster'']\<rparr>)"
proof -
  have "own_recipient domain1 (str ''postmaster'')" by (simp add: own_recipient_def)
  moreover have "\<forall>n. mt_Postpone (mail1\<lparr>mt_Recipients := [str ''postmaster'']\<rparr>) \<le> int n" by (auto simp: mail1_def zero_mail_def zero_time_def)
  ultimately show ?thesis
    using first_mail_forever [of "\<lparr>q_mail = [mail1\<lparr>mt_Recipients := [str ''postmaster'']\<rparr>, mail1], q_relay = [], q_bounce = [], q_served = []\<rparr>"
        "mail1\<lparr>mt_Recipients := [str ''postmaster'']\<rparr>" "[mail1]" "str ''postmaster''" domain1 "\<lambda>_. False" int 3] by auto
qed

text \<open>
  C35: One line of an unauthenticated peer ends the server: a command line that starts with a space,
  or a path with a source route that has no colon, makes the goroutine of the session panic, and a
  panic in a goroutine ends the process.
\<close>

theorem command_crashes_server:
  assumes "rc_in r = Read (smtp_line l) None # rs"
    "l = 32 # s \<and> 3 \<le> length s \<and> length s \<le> 509 \<or>
     l = str ''MAIL FROM:<@'' @ s @ str ''>'' \<and> 58 \<notin> set s \<and> length s \<le> 490"
  shows "handle_loop env srv r q = None"
proof -
  have "cmd_unpack newCommand (smtp_line l) = None"
    using assms(2)
  proof
    assume l: "l = 32 # s \<and> 3 \<le> length s \<and> length s \<le> 509"
    have "split_byte 32 (TrimRight 32 l) ! 0 = []"
    proof -
      have "prefix (TrimRight 32 l) (32 # s)" using TrimRight_prefix [of 32 l] l by simp
      then show ?thesis by (cases "TrimRight 32 l") auto
    qed
    then show ?thesis using l by (simp add: cmd_unpack_def smtp_line_def Let_def idx_def)
  next
    assume l: "l = str ''MAIL FROM:<@'' @ s @ str ''>'' \<and> 58 \<notin> set s \<and> length s \<le> 490"
    then have len: "4 \<le> length l" "length l \<le> 510" "last l \<noteq> 32" by (simp_all add: str_def)
    note p = smtp_line_parts [OF len]
    have ls: "l = str ''MAIL'' @ 32 # (str ''FROM:<@'' @ s @ str ''>'')" using l by (simp add: str_def)
    have cmds: "split_byte 32 l = str ''MAIL'' # split_byte 32 (str ''FROM:<@'' @ s @ str ''>'')"
      unfolding ls by (rule split_byte_append) (simp add: str_def)
    have n: "bytes_ToLower (str ''MAIL'') = str ''mail''" by (simp add: str_def)
    have t: "take 10 l = str ''MAIL FROM:''" "drop 10 l = 60 # 64 # s @ [62]" "length l \<ge> 10" using l by (simp_all add: str_def)
    have "closing (60 # 64 # s @ [62]) = length s + 2" using LastIndex_last [of 62 "[]" "60 # 64 # s"] by (simp add: closing_def)
    moreover have "takeWhile (\<lambda>b. b \<noteq> 58) (60 # 64 # s @ [62]) = 60 # 64 # s @ [62]" using l by (intro takeWhile_eq_all_conv [THEN iffD2]) auto
    then have "skip_route (60 # 64 # s @ [62]) = length s + 3" by (simp add: skip_route_def)
    then have "ParsePath (60 # 64 # s @ [62]) = None" by (simp add: ParsePath_def nth_append subslice_def)
    ultimately have "path_arg newCommand CommandMAIL (60 # 64 # s @ [62]) = None" by (simp add: path_arg_def cmd_parsePath_def Let_def)
    then show ?thesis
      unfolding cmd_unpack_def
      by (simp only: p if_False not_True_eq_False simp_thms Let_def cmds nth_Cons_0 n)
        (simp add: t EqualFold_def ascii_lower_def str_def idx_def)
  qed
  moreover have "length (smtp_line l) < 4096" using assms(2) by (auto simp: smtp_line_def str_def)
  ultimately have "readCommand r = None" using assms(1) by (simp add: readCommand_def)
  then show ?thesis by (subst handle_loop.simps) (simp add: handle_step_def)
qed

theorem command_crashes_server_witness:
  "handle_loop env1 srv1 (newReceiver [Read (smtp_line (str ''MAIL FROM:<@'' @ str ''a'' @ str ''>'')) None] [] [] receiverModeServer) [] = None \<and>
   handle_loop env1 srv1 (newReceiver [Read (smtp_line (32 # replicate 3 32)) None] [] [] receiverModeServer) [] = None"
  using command_crashes_server [of "newReceiver [Read (smtp_line (str ''MAIL FROM:<@'' @ str ''a'' @ str ''>'')) None] [] [] receiverModeServer"
      "str ''MAIL FROM:<@'' @ str ''a'' @ str ''>''" "[]" "str ''a''" env1 srv1 "[]"]
    command_crashes_server [of "newReceiver [Read (smtp_line (32 # replicate 3 32)) None] [] [] receiverModeServer"
      "32 # replicate 3 32" "[]" "replicate 3 32" env1 srv1 "[]"]
  by (simp add: newReceiver_def) (simp add: str_def)

text \<open>
  A new \<open>MAIL\<close> command does not start a new mail: recipients that were accepted before it, for
  an earlier mail or before another \<open>EHLO\<close>, also receive the new mail, although neither its sender
  named them nor the replies mention them.
\<close>

theorem earlier_recipients_stay:
  assumes "\<forall>n. \<not> write_fails env n" "sv_Exts srv = defaultExts" "isAuthenticated r" "mt_Data (rc_mail r) = []"
    "list_all (\<lambda>a. plain_address a \<and> length a \<le> 498) [from, to]" "length (mt_Recipients (rc_mail r)) < 100" "ends_once data"
    "length q + length (mt_Recipients (rc_mail r)) < queueSize" "old \<in> set (mt_Recipients (rc_mail r))"
    "rc_in r = packets (mail_lines from [to] @ [data @ mail_end])"
  shows "\<exists>r1 q1. handle_loop env srv r q = Some (r1, q @ q1, Waiting) \<and>
    rc_out r1 = rc_out r @ oks (mail_replies [to]) \<and>
    (\<exists>m \<in> set q1. mt_From m = from \<and> mt_Recipients m = [old] \<and> suffix data (mt_Data m))"
proof -
  define m where "m = sealed env r from (mt_Recipients (rc_mail r) @ [to]) data"
  have v: "validate (sv_Exts srv) cmd = None" for cmd by (simp add: assms(2) validate_default)
  have w: "\<not> write_fails env n" for n using assms(1) by blast
  have "handle_loop env srv r q = handle_loop env srv
     (r\<lparr>rc_in := [], rc_state := CommandZERO, rc_mail := mail_Reset (rc_mail r), rc_out := rc_out r @ oks (mail_replies [to])\<rparr>)
     (q @ new_mails (clock env) (length q) m (mt_Recipients (rc_mail r) @ [to]))"
    unfolding m_def using assms(4-8,10)
    by (intro handle_loop_mail [OF w v assms(3), where cs = "[data @ mail_end]"]) (simp_all add: mail_end_def)
  moreover have "\<exists>x \<in> set (new_mails now k m tos). mt_From x = mt_From m \<and> mt_Recipients x = [old] \<and> mt_Data x = mt_Data m"
    if "old \<in> set tos" for now k tos
    using that by (induction tos arbitrary: k) (auto simp: NewMailTx_def)
  moreover have "mt_From m = from" "suffix data (mt_Data m)" by (simp_all add: m_def sealed_def seal_def suffix_def)
  ultimately show ?thesis using assms(9) by (simp add: handle_loop_empty) (metis UnI1 set_append)
qed

theorem earlier_recipients_stay_witness:
  "\<exists>r1 q1. handle_loop env1 srv1 (recv1\<lparr>rc_mail := mail1\<lparr>mt_Data := []\<rparr>, rc_in := packets (mail_lines (str ''u@a.id'') [str ''u@a.id''] @ [str ''hi'' @ mail_end])\<rparr>) [] =
      Some (r1, [] @ q1, Waiting) \<and> (\<exists>m \<in> set q1. mt_From m = str ''u@a.id'' \<and> mt_Recipients m = [str ''b@c''] \<and> suffix (str ''hi'') (mt_Data m))"
  using earlier_recipients_stay [of env1 srv1 "recv1\<lparr>rc_mail := mail1\<lparr>mt_Data := []\<rparr>, rc_in := packets (mail_lines (str ''u@a.id'') [str ''u@a.id''] @ [str ''hi'' @ mail_end])\<rparr>"
      "str ''u@a.id''" "str ''u@a.id''" "str ''hi''" "[]" "str ''b@c''"]
  by (simp add: env1_writes address1 ends_once1 recv1_def mail1_def srv1_def newReceiver_def isAuthenticated_def zero_mail_def queueSize_def)
    (auto simp: str_def)

text \<open>
  The client panics when the connection is lost after \<open>MAIL\<close>: for \<open>RCPT\<close>, \<open>DATA\<close> and the message
  \<open>MailTx\<close> reads the code of a response that is \<open>nil\<close> when there was an error.
\<close>

theorem lost_connection_panics:
  assumes "\<forall>n. \<not> write_fails env n" "mt_From mail \<noteq> []" "mt_Recipients mail \<noteq> []"
  shows "snd (client_MailTx env \<lparr>sc_in = packets [ok_reply] @ [Read bs (Some e)], sc_out = [], sc_info = None\<rparr> (Some mail)) = CPanic"
proof -
  define cl where "cl = \<lparr>sc_in = packets [ok_reply] @ [Read bs (Some e)], sc_out = [], sc_info = None\<rparr>"
  have w: "\<not> write_fails env n" for n using assms(1) by blast
  obtain to tos where t: "mt_Recipients mail = to # tos" using assms(3) by (cases "mt_Recipients mail") auto
  have "SendCommand env cl l = (cl\<lparr>sc_in := [Read bs (Some e)], sc_out := sc_out cl @ [(l, True)]\<rparr>,
      CRes (Some \<lparr>rs_Code = StatusOK, rs_Message = str ''OK'', rs_Body = []\<rparr>))" for l
    using clean_replies by (intro SendCommand_reply [OF w]) (simp_all add: cl_def StatusOK_def)
  moreover have "SendCommand env c l = (c\<lparr>sc_in := [], sc_out := sc_out c @ [(l, True)]\<rparr>, CFail)" if "sc_in c = [Read bs (Some e)]" for c l
    using that w by (simp add: SendCommand_def cl_write_def cl_recv_def)
  ultimately show ?thesis unfolding cl_def [symmetric] using assms(2,3) by (simp add: client_MailTx_def t want_def)
qed

end
