(* ===== verification/GoRunes.thy ===== *)
theory GoRunes
  imports GoText
begin

section \<open>Runes: UTF-8 and the tables of package unicode\<close>

text \<open>
  What the packages use of \<open>unicode/utf8\<close>, \<open>unicode\<close> and the conversion of strings to runes. The
  decoder accepts exactly the well-formed sequences (no overlong forms, no surrogates); any other
  byte is the rune \<open>U+FFFD\<close> of width one. The tables of letters, digits and lower case beyond ASCII are
  the parameter \<open>u\<close>; inside ASCII the functions are written out.
\<close>

definition RuneError :: nat where
  "RuneError = 0xFFFD"

definition cont :: "byte \<Rightarrow> bool" where
  "cont b \<longleftrightarrow> 0x80 \<le> b \<and> b \<le> 0xBF"

definition cbits :: "byte \<Rightarrow> nat" where
  "cbits b = unat b - 0x80"

text \<open>The second byte of a sequence, whose range depends on the first.\<close>

definition second_ok :: "byte \<Rightarrow> byte \<Rightarrow> bool" where
  "second_ok a b \<longleftrightarrow> cont b \<and> (a = 0xE0 \<longrightarrow> 0xA0 \<le> b) \<and> (a = 0xED \<longrightarrow> b \<le> 0x9F) \<and>
     (a = 0xF0 \<longrightarrow> 0x90 \<le> b) \<and> (a = 0xF4 \<longrightarrow> b \<le> 0x8F)"

text \<open>The first rune and the rest; the input is not empty.\<close>

fun DecodeRune :: "bytes \<Rightarrow> nat \<times> bytes" where
  "DecodeRune [] = (RuneError, [])"
| "DecodeRune (a # s) =
     (if a < 0x80 then (unat a, s)
      else if 0xC2 \<le> a \<and> a \<le> 0xDF then
        (case s of b # t \<Rightarrow> if cont b then ((unat a - 0xC0) * 64 + cbits b, t) else (RuneError, s)
         | _ \<Rightarrow> (RuneError, s))
      else if 0xE0 \<le> a \<and> a \<le> 0xEF then
        (case s of b # c # t \<Rightarrow>
             if second_ok a b \<and> cont c then ((unat a - 0xE0) * 4096 + cbits b * 64 + cbits c, t) else (RuneError, s)
         | _ \<Rightarrow> (RuneError, s))
      else if 0xF0 \<le> a \<and> a \<le> 0xF4 then
        (case s of b # c # d # t \<Rightarrow>
             if second_ok a b \<and> cont c \<and> cont d
             then ((unat a - 0xF0) * 262144 + cbits b * 4096 + cbits c * 64 + cbits d, t) else (RuneError, s)
         | _ \<Rightarrow> (RuneError, s))
      else (RuneError, s))"

definition valid_rune :: "nat \<Rightarrow> bool" where
  "valid_rune r \<longleftrightarrow> r < 0xD800 \<or> 0xDFFF < r \<and> r \<le> 0x10FFFF"

definition EncodeRune :: "nat \<Rightarrow> bytes" where
  "EncodeRune r =
     (let r = (if valid_rune r then r else RuneError) in
      if r < 0x80 then [of_nat r]
      else if r < 0x800 then [of_nat (0xC0 + r div 64), of_nat (0x80 + r mod 64)]
      else if r < 0x10000 then [of_nat (0xE0 + r div 4096), of_nat (0x80 + r div 64 mod 64), of_nat (0x80 + r mod 64)]
      else [of_nat (0xF0 + r div 262144), of_nat (0x80 + r div 4096 mod 64), of_nat (0x80 + r div 64 mod 64),
            of_nat (0x80 + r mod 64)])"

lemma DecodeRune_length: "s \<noteq> [] \<Longrightarrow> length (snd (DecodeRune s)) < length s"
  by (cases s) (auto split: list.splits)

lemma DecodeRune_less: "(r, t) = DecodeRune s \<Longrightarrow> s \<noteq> [] \<Longrightarrow> length t < length s"
  using DecodeRune_length [of s] by (metis snd_conv)

lemma unat_of_nat8: "n < 256 \<Longrightarrow> unat (of_nat n :: byte) = n"
  by (simp add: unat_of_nat)

lemma byte_of_nat:
  fixes k :: byte
  assumes "n < 256"
  shows "k \<le> of_nat n \<longleftrightarrow> unat k \<le> n" "of_nat n \<le> k \<longleftrightarrow> n \<le> unat k"
    "of_nat n < k \<longleftrightarrow> n < unat k" "of_nat n = k \<longleftrightarrow> n = unat k"
  using assms by (auto simp: word_le_nat_alt word_less_nat_alt unat_of_nat8)

lemma cont_of_nat: "n < 64 \<Longrightarrow> cont (of_nat (0x80 + n)) \<and> cbits (of_nat (0x80 + n)) = n"
  by (simp add: cont_def cbits_def byte_of_nat unat_of_nat8 del: of_nat_add)

lemma DecodeRune_EncodeRune:
  assumes "valid_rune r"
  shows "DecodeRune (EncodeRune r @ s) = (r, s)"
proof -
  have c: "cont (of_nat (0x80 + n mod 64))" "cbits (of_nat (0x80 + n mod 64)) = n mod 64" for n
    using cont_of_nat [of "n mod 64"] by simp_all
  consider "r < 0x80" | "0x80 \<le> r" "r < 0x800" | "0x800 \<le> r" "r < 0x10000" | "0x10000 \<le> r" by linarith
  then show ?thesis
  proof cases
    case 1
    then show ?thesis using assms by (simp add: EncodeRune_def byte_of_nat unat_of_nat8)
  next
    case 2
    define q where "q = r div 64"
    have q: "2 \<le> q" "q < 32" using 2 by (simp_all add: q_def)
    have "q * 64 + r mod 64 = r" by (simp add: q_def)
    then show ?thesis using 2 assms q c [of r]
      by (simp add: EncodeRune_def q_def [symmetric] byte_of_nat unat_of_nat8 del: of_nat_add)
  next
    case 3
    define p q where "p = r div 4096" and "q = r div 64 mod 64"
    have pq: "p * 64 + q = r div 64" using div_mult2_eq [of r 64 64] by (simp add: p_def q_def)
    have p: "p < 16" "q < 64" using 3 by (simp_all add: p_def q_def)
    have r: "p * 4096 + q * 64 + r mod 64 = r" using pq div_mult_mod_eq [of r 64] by linarith
    have "p = 0 \<Longrightarrow> 32 \<le> q" using 3 pq by simp
    moreover have "p = 13 \<Longrightarrow> q \<le> 31"
      using assms r p(2) mod_less_divisor [of 64 r] by (simp add: valid_rune_def) linarith
    ultimately show ?thesis using 3 assms p r c [of r] c [of "r div 64"]
      by (simp add: EncodeRune_def p_def [symmetric] q_def [symmetric] second_ok_def byte_of_nat unat_of_nat8 del: of_nat_add)
  next
    case 4
    define o' p q where "o' = r div 262144" and "p = r div 4096 mod 64" and "q = r div 64 mod 64"
    have op: "o' * 64 + p = r div 4096" using div_mult2_eq [of r 4096 64] by (simp add: o'_def p_def)
    have pq: "r div 4096 * 64 + q = r div 64" using div_mult2_eq [of r 64 64] by (simp add: q_def)
    have r: "o' * 262144 + p * 4096 + q * 64 + r mod 64 = r" using op pq div_mult_mod_eq [of r 64] by linarith
    have le: "r \<le> 0x10FFFF" using assms 4 by (simp add: valid_rune_def)
    have o: "o' < 5" "p < 64" "q < 64" using le by (simp_all add: o'_def p_def q_def)
    have "o' = 0 \<Longrightarrow> 16 \<le> p" using 4 op by simp
    moreover have "o' = 4 \<Longrightarrow> p \<le> 15" using le r by simp
    ultimately show ?thesis using 4 assms o r c [of r] c [of "r div 64"] c [of "r div 4096"]
      by (simp add: EncodeRune_def o'_def [symmetric] p_def [symmetric] q_def [symmetric] second_ok_def byte_of_nat unat_of_nat8
          del: of_nat_add)
  qed
qed

lemma EncodeRune_ne [simp]: "EncodeRune r \<noteq> []"
  by (simp add: EncodeRune_def Let_def)

text \<open>The bytes of a rune outside ASCII are outside ASCII.\<close>

lemma EncodeRune_ascii: "r < 128 \<Longrightarrow> EncodeRune r = [of_nat r]"
  by (simp add: EncodeRune_def valid_rune_def)

lemma EncodeRune_high:
  assumes "128 \<le> r" "b \<in> set (EncodeRune r)"
  shows "128 \<le> b"
proof -
  define q where "q = (if valid_rune r then r else RuneError)"
  have q: "128 \<le> q" "q \<le> 0x10FFFF" using assms(1) by (auto simp: q_def valid_rune_def RuneError_def)
  have "128 \<le> (of_nat (128 + n) :: byte)" if "n < 128" for n using that by (simp add: byte_of_nat del: of_nat_add)
  from this [of "64 + q div 64"] this [of "q mod 64"] this [of "96 + q div 4096"] this [of "q div 64 mod 64"]
    this [of "112 + q div 262144"] this [of "q div 4096 mod 64"]
  show ?thesis using assms(2) q by (auto simp: EncodeRune_def q_def [symmetric] Let_def split: if_splits)
qed

text \<open>The runes of a string, as \<open>range\<close> visits them.\<close>

function runes :: "bytes \<Rightarrow> nat list" where
  "runes s = (if s = [] then [] else let (r, t) = DecodeRune s in r # runes t)"
  by pat_completeness auto
termination
  by (relation "measure length") (auto dest: DecodeRune_less)

declare runes.simps [simp del]

lemma runes_Nil [simp]: "runes [] = []"
  by (simp add: runes.simps)

lemma runes_EncodeRune [simp]: "valid_rune r \<Longrightarrow> runes (EncodeRune r @ s) = r # runes s"
  by (subst runes.simps) (simp add: DecodeRune_EncodeRune)

lemma runes_ascii: "a < 0x80 \<Longrightarrow> runes (a # s) = unat a # runes s"
  by (subst runes.simps) simp

text \<open>The bytes of a sequence of runes, and the strings that are well-formed UTF-8.\<close>

definition encode :: "nat list \<Rightarrow> bytes" where
  "encode rs = concat (map EncodeRune rs)"

lemma encode_simps [simp]: "encode [] = []" "encode (r # rs) = EncodeRune r @ encode rs"
  by (simp_all add: encode_def)

lemma runes_encode: "list_all valid_rune rs \<Longrightarrow> runes (encode rs) = rs"
  by (induction rs) auto

definition utf8 :: "bytes \<Rightarrow> bool" where
  "utf8 s \<longleftrightarrow> list_all valid_rune (runes s) \<and> encode (runes s) = s"

subsection \<open>Classes of runes\<close>

record unicode =
  uc_letter :: "nat \<Rightarrow> bool"
  uc_digit :: "nat \<Rightarrow> bool"
  uc_lower :: "nat \<Rightarrow> nat"

definition unicode_IsLetter :: "unicode \<Rightarrow> nat \<Rightarrow> bool" where
  "unicode_IsLetter u r =
     (if r < 128 then 65 \<le> r \<and> r \<le> 90 \<or> 97 \<le> r \<and> r \<le> 122 else r \<noteq> RuneError \<and> uc_letter u r)"

definition unicode_IsDigit :: "unicode \<Rightarrow> nat \<Rightarrow> bool" where
  "unicode_IsDigit u r = (if r < 128 then 48 \<le> r \<and> r \<le> 57 else r \<noteq> RuneError \<and> uc_digit u r)"

definition unicode_IsSpace :: "nat \<Rightarrow> bool" where
  "unicode_IsSpace r \<longleftrightarrow> 9 \<le> r \<and> r \<le> 13 \<or> r = 32 \<or> r = 0x85 \<or> r = 0xA0 \<or> r = 0x1680 \<or> 0x2000 \<le> r \<and> r \<le> 0x200A \<or>
     r = 0x2028 \<or> r = 0x2029 \<or> r = 0x202F \<or> r = 0x205F \<or> r = 0x3000"

definition rune_ToLower :: "unicode \<Rightarrow> nat \<Rightarrow> nat" where
  "rune_ToLower u r = (if r < 128 then (if 65 \<le> r \<and> r \<le> 90 then r + 32 else r) else uc_lower u r)"

text \<open>\<open>strings.ToLower\<close>: a byte that is not part of a well-formed sequence becomes \<open>U+FFFD\<close>.\<close>

definition strings_ToLower :: "unicode \<Rightarrow> bytes \<Rightarrow> bytes" where
  "strings_ToLower u s = encode (map (rune_ToLower u) (runes s))"

text \<open>What is used of the table: lower case runes are valid runes and stay as they are.\<close>

definition lower_ok :: "unicode \<Rightarrow> bool" where
  "lower_ok u \<longleftrightarrow> (\<forall>r. valid_rune (rune_ToLower u r) \<and> rune_ToLower u (rune_ToLower u r) = rune_ToLower u r)"

lemma lower_idem [simp]:
  assumes "lower_ok u"
  shows "strings_ToLower u (strings_ToLower u s) = strings_ToLower u s"
proof -
  have "list_all valid_rune (map (rune_ToLower u) (runes s))" using assms by (simp add: lower_ok_def list_all_iff)
  then show ?thesis using assms by (simp add: strings_ToLower_def runes_encode lower_ok_def comp_def)
qed

lemma ToLower_Nil [simp]: "strings_ToLower u s = [] \<longleftrightarrow> s = []"
  by (subst (1) strings_ToLower_def, subst runes.simps) (auto split: prod.splits)

lemma ToLower_empty [simp]: "strings_ToLower u [] = []" "[] = strings_ToLower u s \<longleftrightarrow> s = []"
  using ToLower_Nil [of u] by metis+

text \<open>Strings of ASCII bytes.\<close>

lemma runes_plain: "list_all (\<lambda>b. b < 128) s \<Longrightarrow> runes s = map unat s"
  by (induction s) (simp_all add: runes_ascii)

lemma encode_plain: "list_all (\<lambda>b. b < 128) s \<Longrightarrow> encode (map unat s) = s"
  by (induction s) (simp_all add: EncodeRune_ascii word_less_nat_alt)

lemma ToLower_ascii:
  assumes "list_all (\<lambda>b. b < 128) s"
  shows "strings_ToLower u s = map (\<lambda>b. if 65 \<le> b \<and> b \<le> 90 then b + 32 else b) s"
proof -
  have l: "EncodeRune (rune_ToLower u (unat b)) = [if 65 \<le> b \<and> b \<le> 90 then b + 32 else b]" if "b < 128" for b :: byte
  proof -
    have "unat b < 128" using that by (simp add: word_less_nat_alt)
    then show ?thesis by (auto simp: rune_ToLower_def EncodeRune_ascii word_le_nat_alt)
  qed
  show ?thesis using assms by (induction s) (simp_all add: strings_ToLower_def runes_ascii l)
qed

text \<open>The tables restricted to ASCII.\<close>

definition ascii_tables :: unicode where
  "ascii_tables = \<lparr>uc_letter = (\<lambda>_. False), uc_digit = (\<lambda>_. False),
     uc_lower = (\<lambda>r. if valid_rune r then r else RuneError)\<rparr>"

lemma ascii_tables_ok [simp]: "lower_ok ascii_tables"
  by (auto simp: lower_ok_def ascii_tables_def rune_ToLower_def valid_rune_def RuneError_def)

end
