(* ===== verification/IniReader.thy ===== *)
theory IniReader
  imports GoRunes
begin

section \<open>Reading configuration files (lib/ini/reader.go)\<close>

text \<open>
  The data of the package (\<open>linemode.go\<close>, \<open>variable.go\<close>, \<open>section.go\<close>) and the parser. The reader keeps
  the unread bytes, the line number, the variable under construction and the buffer of its format;
  the other buffers are reset before each use and are arguments of the loops. The methods return the
  reader and an error; after an error other than the end of the input only its line number is used.
\<close>

unbundle bit_operations_syntax

type_synonym lineMode = u64

definition lineModeEmpty :: lineMode where "lineModeEmpty = 0"
definition lineModeComment :: lineMode where "lineModeComment = 1"
definition lineModeSection :: lineMode where "lineModeSection = 2"
definition lineModeSubsection :: lineMode where "lineModeSubsection = 4"
definition lineModeSingle :: lineMode where "lineModeSingle = 8"
definition lineModeValue :: lineMode where "lineModeValue = 16"
definition lineModeMulti :: lineMode where "lineModeMulti = 32"

lemmas line_modes = lineModeEmpty_def lineModeComment_def lineModeSection_def lineModeSubsection_def
  lineModeSingle_def lineModeValue_def lineModeMulti_def

definition isLineModeVar :: "lineMode \<Rightarrow> bool" where
  "isLineModeVar mode =
     (if mode AND lineModeSingle > 0 then True
      else if mode AND lineModeValue > 0 then True
      else if mode AND lineModeMulti > 0 then True
      else False)"

record variable =
  v_mode :: lineMode
  v_lineNum :: nat
  v_format :: bytes
  v_secName :: bytes
  v_subName :: bytes
  v_key :: bytes
  v_keyLower :: bytes
  v_value :: bytes
  v_others :: bytes
  v_isQuoted :: bool

definition empty_var :: variable where
  "empty_var = \<lparr>v_mode = lineModeEmpty, v_lineNum = 0, v_format = [], v_secName = [], v_subName = [], v_key = [],
     v_keyLower = [], v_value = [], v_others = [], v_isQuoted = False\<rparr>"

record Section =
  s_mode :: lineMode
  s_lineNum :: nat
  s_name :: bytes
  s_sub :: bytes
  s_format :: bytes
  s_nameLower :: bytes
  s_others :: bytes
  s_vars :: "variable list"

definition empty_sec :: Section where
  "empty_sec = \<lparr>s_mode = lineModeEmpty, s_lineNum = 0, s_name = [], s_sub = [], s_format = [], s_nameLower = [],
     s_others = [], s_vars = []\<rparr>"

definition varValueTrue :: bytes where
  "varValueTrue = str ''true''"

record reader =
  rd_br :: bytes
  rd_lineNum :: nat
  rd_var :: variable
  rd_format :: bytes

datatype rdErr = RdEOF | ErrBadConfig | ErrVarNameInvalid | ErrValueInvalid

definition newReader :: "bytes \<Rightarrow> reader" where
  "newReader src = \<lparr>rd_br = src, rd_lineNum = 0, rd_var = empty_var, rd_format = []\<rparr>"

abbreviation fmt_write :: "reader \<Rightarrow> bytes \<Rightarrow> reader" where
  "fmt_write r bs \<equiv> r\<lparr>rd_format := rd_format r @ bs\<rparr>"

abbreviation with_var :: "reader \<Rightarrow> (variable \<Rightarrow> variable) \<Rightarrow> reader" where
  "with_var r f \<equiv> r\<lparr>rd_var := f (rd_var r)\<rparr>"

abbreviation verb_s :: bytes where
  "verb_s \<equiv> [37, 115]"

subsection \<open>Comments\<close>

text \<open>The comment, the rest, and whether a line end was found.\<close>

fun comment_loop :: "bytes \<Rightarrow> bytes \<Rightarrow> bytes \<times> bytes \<times> bool" where
  "comment_loop com [] = (com, [], False)"
| "comment_loop com (c # cs) = (if c = 10 then (com, cs, True) else comment_loop (com @ [c]) cs)"

definition parseComment :: "reader \<Rightarrow> reader \<times> rdErr option" where
  "parseComment r =
     (let r = with_var r (\<lambda>v. v\<lparr>v_mode := v_mode v OR lineModeComment\<rparr>);
          r = fmt_write r verb_s;
          (com, rest, nl) = comment_loop [] (rd_br r);
          r = r\<lparr>rd_br := rest\<rparr>;
          r = (if nl then fmt_write r [10] else r);
          r = with_var r (\<lambda>v. v\<lparr>v_format := rd_format r, v_others := com\<rparr>)
      in (r, if nl then None else Some RdEOF))"

fun possible_comment_loop :: "reader \<Rightarrow> bytes \<Rightarrow> reader \<times> rdErr option" where
  "possible_comment_loop r [] =
     (let r = r\<lparr>rd_br := []\<rparr> in (with_var r (\<lambda>v. v\<lparr>v_format := rd_format r\<rparr>), Some RdEOF))"
| "possible_comment_loop r (c # cs) =
     (if c = 10 then
        let r = fmt_write (r\<lparr>rd_br := cs\<rparr>) [c] in (with_var r (\<lambda>v. v\<lparr>v_format := rd_format r\<rparr>), None)
      else if c = 32 \<or> c = 9 then possible_comment_loop (fmt_write r [c]) cs
      else if c = 35 \<or> c = 59 then parseComment (r\<lparr>rd_br := c # cs\<rparr>)
      else (r, Some ErrBadConfig))"

definition parsePossibleComment :: "reader \<Rightarrow> reader \<times> rdErr option" where
  "parsePossibleComment r = possible_comment_loop r (rd_br r)"

subsection \<open>Section headers\<close>

text \<open>The name after the quote; \<open>None\<close> is the error of a name that is not closed by a quote and a bracket.\<close>

fun sub_loop :: "bool \<Rightarrow> bytes \<Rightarrow> bytes \<Rightarrow> (bytes \<times> bytes) option" where
  "sub_loop esc buf [] = None"
| "sub_loop esc buf (c # cs) =
     (if esc then sub_loop False (buf @ [c]) cs
      else if c = 92 then sub_loop True buf cs
      else if c = 34 then (case cs of d # ds \<Rightarrow> if d = 93 then Some (buf, ds) else None | [] \<Rightarrow> None)
      else sub_loop False (buf @ [c]) cs)"

fun sub_spaces :: "reader \<Rightarrow> bytes \<Rightarrow> (reader \<times> bytes) option" where
  "sub_spaces r [] = None"
| "sub_spaces r (c # cs) =
     (if c = 32 \<or> c = 9 then sub_spaces (fmt_write r [c]) cs
      else if c \<noteq> 34 then None
      else Some (r, cs))"

definition parseSubsection :: "reader \<Rightarrow> reader \<times> rdErr option" where
  "parseSubsection r =
     (let r = with_var r (\<lambda>v. v\<lparr>v_mode := v_mode v OR lineModeSubsection\<rparr>) in
      case sub_spaces r (rd_br r) of
        None \<Rightarrow> (r, Some ErrBadConfig)
      | Some (r, rest) \<Rightarrow>
          (let r = fmt_write r ([34] @ verb_s) in
           case sub_loop False [] rest of
             None \<Rightarrow> (r, Some ErrBadConfig)
           | Some (buf, rest) \<Rightarrow>
               let r = fmt_write (r\<lparr>rd_br := rest\<rparr>) ([34] @ [93])
               in parsePossibleComment (with_var r (\<lambda>v. v\<lparr>v_subName := buf\<rparr>))))"

text \<open>The name, the rest and the rune that ended it: a space, a tab or a bracket.\<close>

function header_loop :: "unicode \<Rightarrow> bytes \<Rightarrow> bytes \<Rightarrow> (bytes \<times> bytes \<times> nat) option" where
  "header_loop u buf br =
     (if br = [] then None
      else let (r, rest) = DecodeRune br in
        if r = 32 \<or> r = 9 \<or> r = 93 then Some (buf, rest, r)
        else if unicode_IsLetter u r \<or> unicode_IsDigit u r \<or> r = 45 \<or> r = 46
             then header_loop u (buf @ EncodeRune r) rest
        else None)"
  by pat_completeness auto
termination
  by (relation "measure (\<lambda>(_, _, br). length br)") (auto dest: DecodeRune_less)

declare header_loop.simps [simp del]

definition parseSectionHeader :: "unicode \<Rightarrow> reader \<Rightarrow> reader \<times> rdErr option" where
  "parseSectionHeader u r =
     (case rd_br r of
        [] \<Rightarrow> (r, Some ErrBadConfig)
      | b # br \<Rightarrow>
          if b \<noteq> 91 then (r, Some ErrBadConfig)
          else let r = fmt_write (with_var r (\<lambda>v. v\<lparr>v_mode := lineModeSection\<rparr>)) [91] in
            if br = [] then (r, Some ErrBadConfig)
            else let (c, rest) = DecodeRune br in
              if \<not> unicode_IsLetter u c then (r, Some ErrBadConfig)
              else let r = fmt_write r verb_s in
                case header_loop u (EncodeRune c) rest of
                  None \<Rightarrow> (r, Some ErrBadConfig)
                | Some (buf, rest, e) \<Rightarrow>
                    let r = fmt_write (r\<lparr>rd_br := rest\<rparr>) (EncodeRune e);
                        r = with_var r (\<lambda>v. v\<lparr>v_secName := buf\<rparr>)
                    in if e = 93 then parsePossibleComment r else parseSubsection r)"

subsection \<open>Values\<close>

text \<open>
  \<open>buf\<close> and \<open>sp\<close> are the buffers of the value and of the spaces that may turn out to be trailing ones.
\<close>

definition valueCommit :: "reader \<Rightarrow> bytes \<Rightarrow> bytes \<Rightarrow> bool \<Rightarrow> reader" where
  "valueCommit r buf sp withSpaces =
     (let val = (if withSpaces then buf @ sp else buf)
      in with_var r (\<lambda>v. v\<lparr>v_value := v_value v @ val\<rparr>))"

definition valueWriteByte :: "bytes \<Rightarrow> bytes \<Rightarrow> byte \<Rightarrow> bytes" where
  "valueWriteByte buf sp b = (if length sp > 0 then buf @ sp else buf) @ [b]"

definition value_end :: "bool \<Rightarrow> bytes \<Rightarrow> bytes \<Rightarrow> reader \<Rightarrow> reader \<times> rdErr option" where
  "value_end quoted buf sp r =
     (if quoted then (r, Some ErrValueInvalid)
      else let r = valueCommit r buf sp False in (with_var r (\<lambda>v. v\<lparr>v_format := rd_format r\<rparr>), None))"

fun value_loop :: "bool \<Rightarrow> bool \<Rightarrow> bytes \<Rightarrow> bytes \<Rightarrow> reader \<Rightarrow> bytes \<Rightarrow> reader \<times> rdErr option" where
  "value_loop quoted esc buf sp r [] = value_end quoted buf sp (r\<lparr>rd_br := []\<rparr>)"
| "value_loop quoted esc buf sp r (c # cs) =
     (if esc then
        if c = 10 then
          let r = with_var r (\<lambda>v. v\<lparr>v_mode := lineModeMulti\<rparr>);
              r = valueCommit r buf sp True;
              r = r\<lparr>rd_lineNum := rd_lineNum r + 1\<rparr>
          in value_loop quoted False [] [] r cs
        else if c = 92 \<or> c = 34 then value_loop quoted False (valueWriteByte buf sp c) [] r cs
        else if c = 98 then value_loop quoted False (buf @ [8]) sp r cs
        else if c = 110 then value_loop quoted False (buf @ [10]) sp r cs
        else if c = 116 then value_loop quoted False (buf @ [9]) sp r cs
        else (r, Some ErrValueInvalid)
      else if c = 32 \<or> c = 9 then
        (if quoted then value_loop quoted False (valueWriteByte buf sp c) [] r cs
         else value_loop quoted False buf (sp @ [c]) r cs)
      else if c = 92 then value_loop quoted True buf sp r cs
      else if c = 34 then
        (if quoted then value_loop False False buf sp r cs
         else value_loop True False buf sp (with_var r (\<lambda>v. v\<lparr>v_isQuoted := True\<rparr>)) cs)
      else if c = 10 then value_end quoted buf sp (fmt_write (r\<lparr>rd_br := cs\<rparr>) [c])
      else if c = 35 \<or> c = 59 then
        (if quoted then value_loop quoted False (valueWriteByte buf sp c) [] r cs
         else parseComment (valueCommit (fmt_write r sp) buf sp False\<lparr>rd_br := c # cs\<rparr>))
      else value_loop quoted False (valueWriteByte buf sp c) [] r cs)"

fun var_value_spaces :: "reader \<Rightarrow> bytes \<Rightarrow> reader \<times> rdErr option" where
  "var_value_spaces r [] =
     (let r = r\<lparr>rd_br := []\<rparr> in (with_var r (\<lambda>v. v\<lparr>v_format := rd_format r, v_value := []\<rparr>), Some RdEOF))"
| "var_value_spaces r (c # cs) =
     (if c = 32 \<or> c = 9 then var_value_spaces (fmt_write r [c]) cs
      else if c = 35 \<or> c = 59 then parseComment (with_var (r\<lparr>rd_br := c # cs\<rparr>) (\<lambda>v. v\<lparr>v_value := []\<rparr>))
      else if c = 10 then
        let r = fmt_write (r\<lparr>rd_br := cs\<rparr>) [c]
        in (with_var r (\<lambda>v. v\<lparr>v_format := rd_format r, v_value := []\<rparr>), None)
      else let r = with_var (fmt_write r verb_s) (\<lambda>v. v\<lparr>v_mode := lineModeValue\<rparr>)
           in value_loop False False [] [] r (c # cs))"

definition parseVarValue :: "reader \<Rightarrow> reader \<times> rdErr option" where
  "parseVarValue r = var_value_spaces r (rd_br r)"

subsection \<open>Variables\<close>

text \<open>A variable without a value is true.\<close>

definition bare_var :: "reader \<Rightarrow> reader \<times> rdErr option" where
  "bare_var r = (with_var r (\<lambda>v. v\<lparr>v_mode := lineModeSingle, v_format := rd_format r, v_value := varValueTrue\<rparr>), None)"

fun possible_value_loop :: "reader \<Rightarrow> bytes \<Rightarrow> reader \<times> rdErr option" where
  "possible_value_loop r [] = bare_var (r\<lparr>rd_br := []\<rparr>)"
| "possible_value_loop r (c # cs) =
     (if c = 10 then bare_var (fmt_write (r\<lparr>rd_br := cs\<rparr>) [c])
      else if c = 32 \<or> c = 9 then possible_value_loop (fmt_write r [c]) cs
      else if c = 35 \<or> c = 59 then parseComment (with_var (r\<lparr>rd_br := c # cs\<rparr>) (\<lambda>v. v\<lparr>v_value := varValueTrue\<rparr>))
      else if c = 61 then parseVarValue (fmt_write (r\<lparr>rd_br := cs\<rparr>) [c])
      else (r, Some ErrVarNameInvalid))"

definition parsePossibleValue :: "reader \<Rightarrow> reader \<times> rdErr option" where
  "parsePossibleValue r = possible_value_loop r (rd_br r)"

function variable_loop :: "unicode \<Rightarrow> bytes \<Rightarrow> reader \<Rightarrow> bytes \<Rightarrow> reader \<times> rdErr option" where
  "variable_loop u buf r br =
     (if br = [] then bare_var (with_var (r\<lparr>rd_br := []\<rparr>) (\<lambda>v. v\<lparr>v_key := buf\<rparr>))
      else let (c, rest) = DecodeRune br;
               single = (\<lambda>r. with_var r (\<lambda>v. v\<lparr>v_mode := lineModeSingle, v_key := buf\<rparr>))
           in if c = 61 then parseVarValue (single (fmt_write (r\<lparr>rd_br := rest\<rparr>) (EncodeRune c)))
              else if c = 10 then bare_var (with_var (fmt_write (r\<lparr>rd_br := rest\<rparr>) (EncodeRune c)) (\<lambda>v. v\<lparr>v_key := buf\<rparr>))
              else if unicode_IsLetter u c \<or> unicode_IsDigit u c \<or> c = 45 \<or> c = 46 \<or> c = 95
                   then variable_loop u (buf @ EncodeRune c) r rest
              else if c = 35 \<or> c = 59
                   then parseComment (with_var (single (r\<lparr>rd_br := br\<rparr>)) (\<lambda>v. v\<lparr>v_value := varValueTrue\<rparr>))
              else if unicode_IsSpace c then parsePossibleValue (single (fmt_write (r\<lparr>rd_br := rest\<rparr>) (EncodeRune c)))
              else (r, Some ErrVarNameInvalid))"
  by pat_completeness auto
termination
  by (relation "measure (\<lambda>(_, _, _, br). length br)") (auto dest: DecodeRune_less)

declare variable_loop.simps [simp del]

definition parseVariable :: "unicode \<Rightarrow> reader \<Rightarrow> reader \<times> rdErr option" where
  "parseVariable u r =
     (if rd_br r = [] then (r, Some ErrVarNameInvalid)
      else let (c, rest) = DecodeRune (rd_br r) in
        if \<not> unicode_IsLetter u c then (r, Some ErrVarNameInvalid)
        else variable_loop u (EncodeRune c) (fmt_write r verb_s) rest)"

subsection \<open>Lines and files\<close>

fun parse_line :: "unicode \<Rightarrow> reader \<Rightarrow> bytes \<Rightarrow> reader \<times> rdErr option" where
  "parse_line u r [] = (r\<lparr>rd_br := []\<rparr>, Some RdEOF)"
| "parse_line u r (c # cs) =
     (if c = 10 then
        let r = fmt_write (r\<lparr>rd_br := cs\<rparr>) [c] in (with_var r (\<lambda>v. v\<lparr>v_format := rd_format r\<rparr>), None)
      else if c = 32 \<or> c = 9 then parse_line u (fmt_write r [c]) cs
      else if c = 35 \<or> c = 59 then parseComment (r\<lparr>rd_br := c # cs\<rparr>)
      else if c = 91 then parseSectionHeader u (r\<lparr>rd_br := c # cs\<rparr>)
      else parseVariable u (r\<lparr>rd_br := c # cs\<rparr>))"

definition parse :: "unicode \<Rightarrow> reader \<Rightarrow> reader \<times> rdErr option" where
  "parse u r = parse_line u (r\<lparr>rd_format := []\<rparr>) (rd_br r)"

definition addSection :: "unicode \<Rightarrow> Section list \<Rightarrow> Section \<Rightarrow> Section list" where
  "addSection u secs sec =
     (if s_mode sec \<noteq> lineModeEmpty \<and> length (s_name sec) = 0 then secs
      else secs @ [sec\<lparr>s_nameLower := strings_ToLower u (s_name sec)\<rparr>])"

definition addVariable :: "unicode \<Rightarrow> Section \<Rightarrow> variable \<Rightarrow> Section" where
  "addVariable u sec v =
     (let v = (if v_mode v AND lineModeSingle = lineModeSingle \<or> v_mode v AND lineModeValue = lineModeValue \<or>
                  v_mode v AND lineModeMulti = lineModeMulti
               then let v = (if length (v_value v) = 0 then v\<lparr>v_value := varValueTrue\<rparr> else v)
                    in v\<lparr>v_keyLower := strings_ToLower u (v_key v)\<rparr>
               else v)
      in sec\<lparr>s_vars := s_vars sec @ [v]\<rparr>)"

definition section_of :: "variable \<Rightarrow> Section" where
  "section_of v = empty_sec\<lparr>s_mode := v_mode v, s_lineNum := v_lineNum v, s_name := v_secName v, s_sub := v_subName v,
     s_format := v_format v, s_others := v_others v\<rparr>"

text \<open>An error carries the number of its line.\<close>

datatype iniError = ErrAt rdErr nat | ErrVarNoSection nat

text \<open>The loop of \<open>Parse\<close>, with a bound on the number of its rounds; \<open>None\<close> when the bound is too small.\<close>

fun Parse_loop :: "unicode \<Rightarrow> nat \<Rightarrow> reader \<Rightarrow> Section \<Rightarrow> Section list \<Rightarrow> (iniError + Section list) option" where
  "Parse_loop u 0 r sec secs = None"
| "Parse_loop u (Suc n) r sec secs =
     (let (r, err) = parse u (r\<lparr>rd_lineNum := rd_lineNum r + 1\<rparr>); v = (rd_var r)\<lparr>v_lineNum := rd_lineNum r\<rparr> in
      case err of
        Some RdEOF \<Rightarrow>
          let sec = (if v_mode (rd_var r) \<noteq> lineModeEmpty then addVariable u sec (rd_var r) else sec)
          in Some (Inr (addSection u secs sec))
      | Some e \<Rightarrow> Some (Inl (ErrAt e (rd_lineNum r)))
      | None \<Rightarrow>
          if isLineModeVar (v_mode v) \<and> s_mode sec = lineModeEmpty then Some (Inl (ErrVarNoSection (rd_lineNum r)))
          else let r = r\<lparr>rd_var := empty_var\<rparr> in
            if v_mode v AND lineModeSection = lineModeSection \<or> v_mode v AND lineModeSubsection = lineModeSubsection
            then Parse_loop u n r (section_of v) (addSection u secs sec)
            else Parse_loop u n r (addVariable u sec v) secs)"

definition Parse :: "unicode \<Rightarrow> nat \<Rightarrow> bytes \<Rightarrow> (iniError + Section list) option" where
  "Parse u n src = Parse_loop u n (newReader src) empty_sec []"

end
