(* ===== verification/IniFile.thy ===== *)
theory IniFile
  imports IniReader
begin

section \<open>Configuration files: sections and variables (lib/ini)\<close>

text \<open>
  Printing (\<open>variable.go\<close>, \<open>section.go\<close>, \<open>Write\<close>) and the operations of \<open>section.go\<close> and \<open>ini.go\<close>. An
  \<open>Ini\<close> is the list of its sections, a section has the list of its lines. Where the code shares
  pointers to sections (\<open>mergeSection\<close>) the sections live in a store, a list whose indices are the
  pointers.
\<close>

type_synonym Ini = "Section list"

subsection \<open>Printing\<close>

text \<open>
  \<open>fmt.Fprintf\<close> with string arguments, for formats whose only verb is \<open>%s\<close>, as those of the reader
  and of the package are.
\<close>

fun extra_args :: "bytes list \<Rightarrow> bytes" where
  "extra_args [] = []"
| "extra_args [a] = str ''string='' @ a"
| "extra_args (a # as) = str ''string='' @ a @ str '', '' @ extra_args as"

fun Fprintf :: "bytes \<Rightarrow> bytes list \<Rightarrow> bytes" where
  "Fprintf [] args = (if args = [] then [] else str ''%!(EXTRA '' @ extra_args args @ str '')'')"
| "Fprintf (c # f) args =
     (if c = 37 \<and> take 1 f = [115] then
        (case args of
           [] \<Rightarrow> str ''%!s(MISSING)'' @ Fprintf (drop 1 f) []
         | a # as \<Rightarrow> a @ Fprintf (drop 1 f) as)
      else c # Fprintf f args)"

fun escape_rune :: "nat \<Rightarrow> bytes" where
  "escape_rune c =
     (if c = 8 then [92, 98]
      else if c = 10 then [92, 110]
      else if c = 9 then [92, 116]
      else if c = 92 then [92, 92]
      else if c = 34 then [92, 34]
      else EncodeRune c)"

definition escape :: "bytes \<Rightarrow> bytes" where
  "escape value = [34] @ concat (map escape_rune (runes value)) @ [34]"

definition print_with :: "bytes \<Rightarrow> bytes \<Rightarrow> bytes list \<Rightarrow> bytes" where
  "print_with format dflt args = Fprintf (if length format > 0 then format else dflt) args"

definition variable_String :: "variable \<Rightarrow> bytes" where
  "variable_String v =
     (let val = (if v_isQuoted v then escape (v_value v) else v_value v); m = v_mode v; f = v_format v in
      if m = lineModeEmpty then f
      else if m = lineModeComment then print_with f (verb_s @ [10]) [v_others v]
      else if m = lineModeSingle then print_with f (verb_s @ str '' = true'' @ [10]) [v_key v]
      else if m = lineModeSingle OR lineModeComment then
        print_with f (verb_s @ str '' = true %s'' @ [10]) [v_key v, v_others v]
      else if m = lineModeValue then print_with f (str ''%s = %s'' @ [10]) [v_key v, val]
      else if m = lineModeValue OR lineModeComment then
        print_with f (str ''%s = %s %s'' @ [10]) [v_key v, val, v_others v]
      else if m = lineModeMulti then print_with f (str ''%s = %s'' @ [10]) [v_key v, val]
      else if m = lineModeMulti OR lineModeComment then
        print_with f (str ''%s = %s %s'' @ [10]) [v_key v, val, v_others v]
      else [])"

definition section_String :: "Section \<Rightarrow> bytes" where
  "section_String sec =
     (let m = s_mode sec; f = s_format sec in
      if m = lineModeSection then print_with f (str ''[%s]'' @ [10]) [s_name sec]
      else if m = lineModeSection OR lineModeComment then
        print_with f (str ''[%s] %s'' @ [10]) [s_name sec, s_others sec]
      else if m = lineModeSection OR lineModeSubsection then
        print_with f (str ''[%s '' @ [34] @ verb_s @ [34] @ str '']'' @ [10]) [s_name sec, s_sub sec]
      else if m = lineModeSection OR lineModeSubsection OR lineModeComment then
        print_with f (str ''[%s '' @ [34] @ verb_s @ [34] @ str ''] %s'' @ [10]) [s_name sec, s_sub sec, s_others sec]
      else [])"

text \<open>The variable \<open>v\<close> of the loop keeps the last line of an earlier section when a section has none.\<close>

fun Write_loop :: "bool \<Rightarrow> variable option \<Rightarrow> Section list \<Rightarrow> bytes" where
  "Write_loop endWithVar v [] = []"
| "Write_loop endWithVar v (sec # secs) =
     (if endWithVar then [10] else []) @ section_String sec @ concat (map variable_String (s_vars sec)) @
     (let v = (if s_vars sec = [] then v else Some (last (s_vars sec)))
      in Write_loop (case v of None \<Rightarrow> False | Some v \<Rightarrow> isLineModeVar (v_mode v)) v secs)"

definition Write :: "Ini \<Rightarrow> bytes" where
  "Write secs = Write_loop False None secs"

subsection \<open>Sections\<close>

text \<open>The index of the last element with a property.\<close>

fun last_idx :: "('a \<Rightarrow> bool) \<Rightarrow> 'a list \<Rightarrow> nat option" where
  "last_idx P [] = None"
| "last_idx P (x # xs) =
     (case last_idx P xs of Some i \<Rightarrow> Some (Suc i) | None \<Rightarrow> if P x then Some 0 else None)"

definition new_var :: "unicode \<Rightarrow> bytes \<Rightarrow> bytes \<Rightarrow> variable" where
  "new_var u key value =
     empty_var\<lparr>v_mode := lineModeValue, v_key := key, v_keyLower := strings_ToLower u key, v_value := value\<rparr>"

definition newSection :: "unicode \<Rightarrow> bytes \<Rightarrow> bytes \<Rightarrow> Section option" where
  "newSection u name subName =
     (if length name = 0 then None
      else let sec = empty_sec\<lparr>s_mode := lineModeSection, s_name := name, s_nameLower := strings_ToLower u name\<rparr>
           in Some (if length subName > 0
                    then sec\<lparr>s_mode := s_mode sec OR lineModeSubsection, s_sub := subName\<rparr> else sec))"

definition append_var :: "Section \<Rightarrow> variable \<Rightarrow> Section" where
  "append_var sec v = sec\<lparr>s_vars := s_vars sec @ [v]\<rparr>"

definition sec_add :: "unicode \<Rightarrow> Section \<Rightarrow> bytes \<Rightarrow> bytes \<Rightarrow> Section \<times> bool" where
  "sec_add u sec key value =
     (if length key = 0 then (sec, False)
      else let value = (if length value = 0 then varValueTrue else value); keyLower = strings_ToLower u key
           in if list_ex (\<lambda>v. isLineModeVar (v_mode v) \<and> v_keyLower v = keyLower \<and> v_value v = value) (s_vars sec)
              then (sec, False)
              else (append_var sec (new_var u key value), True))"

definition addUniqValue :: "unicode \<Rightarrow> Section \<Rightarrow> bytes \<Rightarrow> bytes \<Rightarrow> Section" where
  "addUniqValue u sec key value =
     (let keyLower = strings_ToLower u key in
      case List.extract (\<lambda>v. v_keyLower v = keyLower \<and> v_value v = value) (s_vars sec) of
        Some (xs, tmp, ys) \<Rightarrow> sec\<lparr>s_vars := xs @ ys @ [tmp]\<rparr>
      | None \<Rightarrow> append_var sec (new_var u key value))"

definition sec_get :: "unicode \<Rightarrow> Section \<Rightarrow> bytes \<Rightarrow> bytes \<Rightarrow> bytes \<times> bool" where
  "sec_get u sec key def =
     (if length (s_vars sec) = 0 \<or> length key = 0 then (def, False)
      else let key = strings_ToLower u key in
        case find (\<lambda>v. v_keyLower v = key) (rev (s_vars sec)) of
          Some v \<Rightarrow> (v_value v, True)
        | None \<Rightarrow> (def, False))"

definition sec_Val :: "unicode \<Rightarrow> Section \<Rightarrow> bytes \<Rightarrow> bytes" where
  "sec_Val u sec key = fst (sec_get u sec key [])"

definition getVariable :: "Section \<Rightarrow> bytes \<Rightarrow> nat option" where
  "getVariable sec key = last_idx (\<lambda>v. isLineModeVar (v_mode v) \<and> v_keyLower v = key) (s_vars sec)"

definition sec_gets :: "unicode \<Rightarrow> Section \<Rightarrow> bytes \<Rightarrow> bytes list \<Rightarrow> bytes list \<times> bool" where
  "sec_gets u sec key defs =
     (if length (s_vars sec) = 0 \<or> length key = 0 then (defs, False)
      else let key = strings_ToLower u key; vals = map v_value (filter (\<lambda>v. v_keyLower v = key) (s_vars sec))
           in if length vals = 0 then (defs, False) else (vals, True))"

definition sec_Vals :: "unicode \<Rightarrow> Section \<Rightarrow> bytes \<Rightarrow> bytes list" where
  "sec_Vals u sec key = fst (sec_gets u sec key [])"

definition sec_merge :: "Section \<Rightarrow> Section \<Rightarrow> Section" where
  "sec_merge sec other = sec\<lparr>s_vars := s_vars sec @ filter (\<lambda>v. isLineModeVar (v_mode v)) (s_vars other)\<rparr>"

definition unsetAll :: "unicode \<Rightarrow> Section \<Rightarrow> bytes \<Rightarrow> Section" where
  "unsetAll u sec key =
     (if length key = 0 then sec
      else let key = strings_ToLower u key in
        if list_ex (\<lambda>v. v_keyLower v = key) (s_vars sec)
        then sec\<lparr>s_vars := filter (\<lambda>v. v_keyLower v \<noteq> key) (s_vars sec)\<rparr> else sec)"

definition replaceAll :: "unicode \<Rightarrow> Section \<Rightarrow> bytes \<Rightarrow> bytes \<Rightarrow> Section" where
  "replaceAll u sec key value = fst (sec_add u (unsetAll u sec key) key value)"

definition sec_set :: "unicode \<Rightarrow> Section \<Rightarrow> bytes \<Rightarrow> bytes \<Rightarrow> Section \<times> bool" where
  "sec_set u sec key value =
     (if length key = 0 then (sec, False)
      else let keyLower = strings_ToLower u key; value = (if length value = 0 then varValueTrue else value) in
        case getVariable sec keyLower of
          None \<Rightarrow> (append_var sec (new_var u key value), True)
        | Some i \<Rightarrow> (sec\<lparr>s_vars := (s_vars sec)[i := (s_vars sec ! i)\<lparr>v_value := value\<rparr>]\<rparr>, True))"

definition sec_unset :: "unicode \<Rightarrow> Section \<Rightarrow> bytes \<Rightarrow> Section \<times> bool" where
  "sec_unset u sec key =
     (if length key = 0 then (sec, False)
      else case getVariable sec (strings_ToLower u key) of
             None \<Rightarrow> (sec, False)
           | Some i \<Rightarrow> (sec\<lparr>s_vars := take i (s_vars sec) @ drop (i + 1) (s_vars sec)\<rparr>, True))"

subsection \<open>Files\<close>

definition getSection :: "Ini \<Rightarrow> bytes \<Rightarrow> bytes \<Rightarrow> nat option" where
  "getSection secs secName subName =
     last_idx (\<lambda>s. \<not> (s_mode s = lineModeEmpty \<or> s_mode s = lineModeComment) \<and> s_nameLower s = secName \<and>
       s_sub s = subName) secs"

definition ini_Add :: "unicode \<Rightarrow> Ini \<Rightarrow> bytes \<Rightarrow> bytes \<Rightarrow> bytes \<Rightarrow> bytes \<Rightarrow> Ini \<times> bool" where
  "ini_Add u secs secName subName key value =
     (if length secName = 0 \<or> length key = 0 then (secs, False)
      else let secName = strings_ToLower u secName in
        case getSection secs secName subName of
          Some i \<Rightarrow> let (sec, ok) = sec_add u (secs ! i) key value in (secs[i := sec], ok)
        | None \<Rightarrow>
            let value = (if length value = 0 then varValueTrue else value)
            in (secs @ [append_var (the (newSection u secName subName)) (new_var u key value)], True))"

definition ini_Section :: "unicode \<Rightarrow> Ini \<Rightarrow> bytes \<Rightarrow> bytes \<Rightarrow> Section option" where
  "ini_Section u secs secName subName =
     (if length secName = 0 then None
      else let sec = empty_sec\<lparr>s_name := secName, s_sub := subName\<rparr>; secName = strings_ToLower u secName
           in Some (foldl sec_merge sec (filter (\<lambda>s. s_nameLower s = secName \<and> s_sub s = subName) secs)))"

definition ini_Set :: "unicode \<Rightarrow> Ini \<Rightarrow> bytes \<Rightarrow> bytes \<Rightarrow> bytes \<Rightarrow> bytes \<Rightarrow> Ini \<times> bool" where
  "ini_Set u secs secName subName key value =
     (if length secName = 0 \<or> length key = 0 then (secs, False)
      else let secName = strings_ToLower u secName in
        case getSection secs secName subName of
          None \<Rightarrow> (secs @ [append_var (the (newSection u secName subName)) (new_var u key value)], True)
        | Some i \<Rightarrow> let (sec, ok) = sec_set u (secs ! i) (strings_ToLower u key) value in (secs[i := sec], ok))"

definition ini_Unset :: "unicode \<Rightarrow> Ini \<Rightarrow> bytes \<Rightarrow> bytes \<Rightarrow> bytes \<Rightarrow> Ini \<times> bool" where
  "ini_Unset u secs secName subName key =
     (if length secName = 0 \<or> length key = 0 then (secs, False)
      else case getSection secs (strings_ToLower u secName) subName of
             None \<Rightarrow> (secs, False)
           | Some i \<Rightarrow> (secs[i := fst (sec_unset u (secs ! i) key)], True))"

text \<open>The loop of \<open>Get\<close> from the last section to the first.\<close>

fun Get_loop :: "unicode \<Rightarrow> Section list \<Rightarrow> bytes \<Rightarrow> bytes \<Rightarrow> bytes \<Rightarrow> bytes \<Rightarrow> bytes \<times> bool" where
  "Get_loop u [] sec subName key def = (def, False)"
| "Get_loop u (s # ss) sec subName key def =
     (if s_nameLower s \<noteq> sec then Get_loop u ss sec subName key def
      else if s_sub s \<noteq> subName then Get_loop u ss sec subName key def
      else let (val, ok) = sec_get u s key def in if ok then (val, ok) else Get_loop u ss sec subName key def)"

definition ini_Get :: "unicode \<Rightarrow> Ini \<Rightarrow> bytes \<Rightarrow> bytes \<Rightarrow> bytes \<Rightarrow> bytes \<Rightarrow> bytes \<times> bool" where
  "ini_Get u secs secName subName key def =
     (if length secs = 0 \<or> length secName = 0 \<or> length key = 0 then (def, False)
      else Get_loop u (rev secs) (strings_ToLower u secName) subName key def)"

definition IsValueBoolTrue :: "unicode \<Rightarrow> bytes \<Rightarrow> bool" where
  "IsValueBoolTrue u v =
     (if length v = 0 then False
      else strings_ToLower u v \<in> set [str ''true'', str ''t'', str ''ya'', str ''yes'', str ''1''])"

definition GetBool :: "unicode \<Rightarrow> Ini \<Rightarrow> bytes \<Rightarrow> bytes \<Rightarrow> bytes \<Rightarrow> bool \<Rightarrow> bool" where
  "GetBool u secs secName subName key def =
     (let (out, ok) = ini_Get u secs secName subName key (str ''false'')
      in if \<not> ok then def else IsValueBoolTrue u out)"

fun Gets_loop :: "unicode \<Rightarrow> Section list \<Rightarrow> bytes \<Rightarrow> bytes \<Rightarrow> bytes \<Rightarrow> bytes list" where
  "Gets_loop u [] secName subName key = []"
| "Gets_loop u (s # ss) secName subName key =
     (if s_mode s AND lineModeSection = 0 then Gets_loop u ss secName subName key
      else if s_nameLower s \<noteq> secName then Gets_loop u ss secName subName key
      else if s_sub s \<noteq> subName then Gets_loop u ss secName subName key
      else let (vals, ok) = sec_gets u s key []
           in (if ok then vals else []) @ Gets_loop u ss secName subName key)"

definition ini_Gets :: "unicode \<Rightarrow> Ini \<Rightarrow> bytes \<Rightarrow> bytes \<Rightarrow> bytes \<Rightarrow> bytes list" where
  "ini_Gets u secs secName subName key = Gets_loop u secs (strings_ToLower u secName) subName key"

definition ini_Val :: "unicode \<Rightarrow> Ini \<Rightarrow> bytes \<Rightarrow> bytes" where
  "ini_Val u secs keyPath =
     (let keys = split_byte 58 keyPath
      in if length keys \<noteq> 3 then [] else fst (ini_Get u secs (keys ! 0) (keys ! 1) (keys ! 2) []))"

definition ini_Vals :: "unicode \<Rightarrow> Ini \<Rightarrow> bytes \<Rightarrow> bytes list" where
  "ini_Vals u secs keyPath =
     (let keys = split_byte 58 keyPath
      in if length keys \<noteq> 3 then [] else ini_Gets u secs (keys ! 0) (keys ! 1) (keys ! 2))"

subsection \<open>Merging sections\<close>

text \<open>
  \<open>mergeSection st ps x\<close>: the section at \<open>x\<close> of the store is merged into the section of the list \<open>ps\<close>
  with the same name, or its pointer is appended to the list.
\<close>

definition merge_vars :: "unicode \<Rightarrow> Section \<Rightarrow> variable list \<Rightarrow> Section" where
  "merge_vars u sec vs =
     foldl (\<lambda>sec v. if v_mode v = lineModeEmpty \<or> v_mode v = lineModeComment then sec
                    else addUniqValue u sec (v_keyLower v) (v_value v)) sec vs"

definition mergeSection :: "unicode \<Rightarrow> Section list \<times> nat list \<Rightarrow> nat \<Rightarrow> Section list \<times> nat list" where
  "mergeSection u = (\<lambda>(st, ps) x.
     case find (\<lambda>p. s_nameLower (st ! p) = s_nameLower (st ! x) \<and> s_sub (st ! p) = s_sub (st ! x)) ps of
       Some p \<Rightarrow> (st[p := merge_vars u (st ! p) (s_vars (st ! x))], ps)
     | None \<Rightarrow> (st, ps @ [x]))"

definition deref :: "Section list \<times> nat list \<Rightarrow> Section list" where
  "deref = (\<lambda>(st, ps). map (\<lambda>p. st ! p) ps)"

text \<open>\<open>Rebase\<close> changes its receiver; sections of \<open>other\<close> that it takes over are shared by both files.\<close>

definition Rebase :: "unicode \<Rightarrow> Ini \<Rightarrow> Ini \<Rightarrow> Ini \<times> Ini" where
  "Rebase u secs other =
     (let n = length secs; sp = foldl (mergeSection u) (secs @ other, [0..<n]) [n..<n + length other]
      in (deref sp, drop n (fst sp)))"

text \<open>The subsections of a section, as pointers into the file, and the file, which the merging changes.\<close>

definition Subs :: "unicode \<Rightarrow> Ini \<Rightarrow> bytes \<Rightarrow> Ini \<times> nat list" where
  "Subs u secs secName =
     (if length secName = 0 then (secs, [])
      else let secName = strings_ToLower u secName in
        foldl (\<lambda>(st, ps) x.
          if s_mode (st ! x) = lineModeEmpty \<or> s_mode (st ! x) = lineModeComment then (st, ps)
          else if length (s_sub (st ! x)) = 0 then (st, ps)
          else if s_nameLower (st ! x) \<noteq> secName then (st, ps)
          else mergeSection u (st, ps) x) (secs, []) [0..<length secs])"

definition prune_sec :: "unicode \<Rightarrow> Section \<Rightarrow> Section" where
  "prune_sec u sec =
     (let newSec = empty_sec\<lparr>s_mode := lineModeSection, s_name := s_name sec, s_nameLower := s_nameLower sec\<rparr>;
          newSec = (if length (s_sub sec) > 0
                    then newSec\<lparr>s_mode := s_mode newSec OR lineModeSubsection, s_sub := s_sub sec\<rparr> else newSec)
      in foldl (\<lambda>newSec v.
           if v_mode v = lineModeEmpty \<or> v_mode v = lineModeComment then newSec
           else let newValue = (if length (v_value v) = 0 then str ''true'' else v_value v)
                in addUniqValue u newSec (v_key v) newValue) newSec (s_vars sec))"

definition Prune :: "unicode \<Rightarrow> Ini \<Rightarrow> Ini" where
  "Prune u secs =
     deref (foldl (\<lambda>(st, ps) sec.
       if s_mode sec = lineModeEmpty then (st, ps)
       else mergeSection u (st @ [prune_sec u sec], ps) (length st)) ([], []) secs)"

end
