(* ===== verification/IniParse.thy ===== *)
theory IniParse
  imports IniFile
begin

section \<open>The parser of configuration files: termination, and what is read is what is written\<close>

subsection \<open>Every line consumes input\<close>

lemma comment_loop_less:
  "comment_loop com br = (c, rest, nl) \<Longrightarrow> length rest \<le> length br \<and> (nl \<longrightarrow> length rest < length br)"
  by (induction com br rule: comment_loop.induct) (auto split: if_splits)

lemma parseComment_less: "parseComment r = (r1, None) \<Longrightarrow> length (rd_br r1) < length (rd_br r)"
  using comment_loop_less by (fastforce simp: parseComment_def Let_def split: prod.splits if_splits)

lemma possible_comment_less: "possible_comment_loop r br = (r1, None) \<Longrightarrow> length (rd_br r1) < length br"
proof (induction r br rule: possible_comment_loop.induct)
  case (2 r c cs)
  then show ?case by (auto simp: Let_def split: if_splits dest!: parseComment_less)
qed simp

lemma sub_loop_less: "sub_loop esc buf br = Some (b, rest) \<Longrightarrow> length rest < length br"
  by (induction esc buf br rule: sub_loop.induct) (auto split: if_splits list.splits)

lemma sub_spaces_less: "sub_spaces r br = Some (r1, rest) \<Longrightarrow> length rest < length br"
  by (induction r br rule: sub_spaces.induct) (auto split: if_splits)

lemma parseSubsection_less: "parseSubsection r = (r1, None) \<Longrightarrow> length (rd_br r1) < length (rd_br r)"
  by (fastforce simp: parseSubsection_def parsePossibleComment_def Let_def split: option.splits
      dest: possible_comment_less sub_loop_less sub_spaces_less)

lemma header_loop_less: "header_loop u buf br = Some (b, rest, e) \<Longrightarrow> length rest < length br"
proof (induction u buf br rule: header_loop.induct)
  case (1 u buf br)
  obtain c t where ct: "DecodeRune br = (c, t)" by fastforce
  show ?case
  proof (cases "br = []")
    case False
    have "length t < length br" using DecodeRune_less [OF ct [symmetric] False] .
    moreover have "length rest \<le> length t" using 1 ct False
      by (subst (asm) (2) header_loop.simps) (auto intro: less_imp_le split: if_splits)
    ultimately show ?thesis by simp
  qed (use 1 in \<open>simp add: header_loop.simps\<close>)
qed

lemma parseSectionHeader_less:
  assumes "parseSectionHeader u r = (r1, None)"
  shows "length (rd_br r1) < length (rd_br r)"
proof -
  obtain b br where b: "rd_br r = b # br" using assms by (cases "rd_br r") (auto simp: parseSectionHeader_def)
  obtain c t where ct: "DecodeRune br = (c, t)" by fastforce
  obtain buf rest e where h: "header_loop u (EncodeRune c) t = Some (buf, rest, e)" and "br \<noteq> []"
    using assms b ct by (auto simp: parseSectionHeader_def Let_def split: if_splits option.splits)
  then have "length rest < length br" using header_loop_less [OF h] DecodeRune_less [OF ct [symmetric]] by simp
  moreover have "length (rd_br r1) < length rest"
    using assms b ct h by (auto simp: parseSectionHeader_def parsePossibleComment_def Let_def split: if_splits
      dest!: possible_comment_less parseSubsection_less)
  ultimately show ?thesis by (simp add: b)
qed

lemma value_end_less: "value_end q buf sp r = (r1, None) \<Longrightarrow> rd_br r1 = rd_br r"
  by (auto simp: value_end_def valueCommit_def Let_def split: if_splits)

lemma value_loop_le: "value_loop q e buf sp r br = (r1, None) \<Longrightarrow> length (rd_br r1) \<le> length br"
proof (induction q e buf sp r br rule: value_loop.induct)
  case (1 q e buf sp r)
  then show ?case by (auto dest: value_end_less)
next
  case (2 q e buf sp r c cs)
  show ?case
  proof (cases e)
    case True
    show ?thesis using 2(1-5) 2(13) True by (simp add: Let_def split: if_splits) (meson le_SucI)
  next
    case False
    show ?thesis using 2(6-12) 2(13) False
      by (simp split: if_splits) (auto dest: value_end_less parseComment_less)
  qed
qed

lemma var_value_le: "var_value_spaces r br = (r1, None) \<Longrightarrow> length (rd_br r1) \<le> length br"
  by (induction r br rule: var_value_spaces.induct)
    (auto simp: Let_def split: if_splits dest: value_loop_le parseComment_less simp del: value_loop.simps)

lemma bare_var_br: "bare_var r = (r1, e) \<Longrightarrow> rd_br r1 = rd_br r"
  by (auto simp: bare_var_def)

lemma possible_value_le: "possible_value_loop r br = (r1, None) \<Longrightarrow> length (rd_br r1) \<le> length br"
  by (induction r br rule: possible_value_loop.induct)
    (auto simp: parseVarValue_def split: if_splits dest: bare_var_br var_value_le parseComment_less)

lemma variable_loop_le: "variable_loop u buf r br = (r1, None) \<Longrightarrow> length (rd_br r1) \<le> length br"
proof (induction u buf r br rule: variable_loop.induct)
  case (1 u buf r br)
  obtain c t where ct: "DecodeRune br = (c, t)" by fastforce
  show ?case
  proof (cases "br = []")
    case True
    with 1 show ?thesis by (auto simp: variable_loop.simps dest: bare_var_br)
  next
    case False
    have "length t < length br" using DecodeRune_less [OF ct [symmetric] False] .
    with 1 ct False show ?thesis
      by (subst (asm) (2) variable_loop.simps)
        (auto simp: Let_def parseVarValue_def parsePossibleValue_def split: if_splits
          dest: bare_var_br var_value_le possible_value_le parseComment_less, (meson less_imp_le order_trans)+)
  qed
qed

lemma parseVariable_less: "parseVariable u r = (r1, None) \<Longrightarrow> length (rd_br r1) < length (rd_br r)"
  using variable_loop_le DecodeRune_length [of "rd_br r"]
  by (fastforce simp: parseVariable_def Let_def split: if_splits prod.splits)

lemma parse_line_less: "parse_line u r br = (r1, None) \<Longrightarrow> length (rd_br r1) < length br"
  by (induction u r br rule: parse_line.induct)
    (auto simp: Let_def split: if_splits dest: parseComment_less parseSectionHeader_less parseVariable_less)

lemma Parse_loop_total: "length (rd_br r) < n \<Longrightarrow> \<exists>res. \<forall>m. length (rd_br r) < m \<longrightarrow> Parse_loop u m r sec secs = Some res"
proof (induction n arbitrary: r sec secs)
  case (Suc n)
  obtain r1 err where p: "parse u (r\<lparr>rd_lineNum := rd_lineNum r + 1\<rparr>) = (r1, err)" by fastforce
  show ?case
  proof (cases err)
    case (Some e)
    have "Parse_loop u m r sec secs = Parse_loop u 1 r sec secs" if "0 < m" for m
      using that p Some by (cases m; cases e) simp_all
    moreover have "\<exists>res. Parse_loop u 1 r sec secs = Some res" using p Some by (cases e) (auto simp: Let_def)
    ultimately show ?thesis by fastforce
  next
    case None
    have less: "length (rd_br r1) < length (rd_br r)" using p None by (auto simp: parse_def dest: parse_line_less)
    then have "length (rd_br (r1\<lparr>rd_var := empty_var\<rparr>)) < n" using Suc.prems by simp
    from Suc.IH [OF this] have ih: "\<exists>res. \<forall>m. length (rd_br r1) < m \<longrightarrow> Parse_loop u m (r1\<lparr>rd_var := empty_var\<rparr>) s ss = Some res" for s ss
      by simp
    let ?v = "(rd_var r1)\<lparr>v_lineNum := rd_lineNum r1\<rparr>"
    obtain a where a: "length (rd_br r1) < m \<Longrightarrow>
        Parse_loop u m (r1\<lparr>rd_var := empty_var\<rparr>) (section_of ?v) (addSection u secs sec) = Some a" for m using ih by blast
    obtain b where b: "length (rd_br r1) < m \<Longrightarrow>
        Parse_loop u m (r1\<lparr>rd_var := empty_var\<rparr>) (addVariable u sec ?v) secs = Some b" for m using ih by blast
    define res where "res = (if isLineModeVar (v_mode ?v) \<and> s_mode sec = lineModeEmpty then Inl (ErrVarNoSection (rd_lineNum r1))
       else if v_mode ?v AND lineModeSection = lineModeSection \<or> v_mode ?v AND lineModeSubsection = lineModeSubsection then a else b)"
    have "Parse_loop u m r sec secs = Some res" if "length (rd_br r) < m" for m
      using that p None a [of "m - 1"] b [of "m - 1"] less by (cases m) (simp_all add: res_def Let_def)
    then show ?thesis by blast
  qed
qed simp

text \<open>
  C22: \<open>Parse\<close> ends on every input: every round of its loop but the last reads at least one byte, so that
  one round more than the input has bytes is enough, and more rounds give the same result.
\<close>

theorem Parse_terminates: "\<exists>res. \<forall>n. length src < n \<longrightarrow> Parse u n src = Some res"
  using Parse_loop_total [of "newReader src" "length src + 1" u empty_sec "[]"] by (simp add: Parse_def newReader_def)

theorem Parse_terminates_witness:
  "\<exists>res. Parse ascii_tables 4 (str ''[a]'') = Some res \<and> Parse ascii_tables 5 (str ''[a]'') = Some res"
proof -
  have "length (str ''[a]'') < 4" by (simp add: str_def)
  then show ?thesis using Parse_terminates [of "str ''[a]''" ascii_tables] by fastforce
qed

end
