(* ===== verification/IniLines.thy ===== *)
theory IniLines
  imports IniParse
begin

section \<open>Configuration files as lists of lines\<close>

text \<open>
  A file in the usual form is a list of lines: blank lines, comments, section headers, variables
  without and with a value. The text of such a list is parsed into the sections it describes, and
  writing these sections gives the text back.
\<close>

subsection \<open>Lines\<close>

type_synonym tail = "bytes \<times> bytes option"

datatype line =
    LBlank bytes
  | LComment bytes bytes
  | LHeader bytes bytes "(bytes \<times> bytes) option" tail
  | LBare bytes bytes tail
  | LVal bytes bytes bytes bytes bytes bool tail

fun tail_text :: "tail \<Rightarrow> bytes" where
  "tail_text (ws, None) = ws @ [10]"
| "tail_text (ws, Some c) = ws @ c @ [10]"

fun line_text :: "line \<Rightarrow> bytes" where
  "line_text (LBlank ws) = ws @ [10]"
| "line_text (LComment ws c) = ws @ c @ [10]"
| "line_text (LHeader ws name None t) = ws @ [91] @ name @ [93] @ tail_text t"
| "line_text (LHeader ws name (Some (w, sub)) t) = ws @ [91] @ name @ w @ [34] @ sub @ [34, 93] @ tail_text t"
| "line_text (LBare ws key t) = ws @ key @ tail_text t"
| "line_text (LVal ws key w1 w2 v q t) = ws @ key @ w1 @ [61] @ w2 @ (if q then escape v else v) @ tail_text t"

definition blanks :: "bytes \<Rightarrow> bool" where
  "blanks ws \<longleftrightarrow> list_all (\<lambda>b. b = 32 \<or> b = 9) ws"

definition comment_ok :: "bytes \<Rightarrow> bool" where
  "comment_ok c \<longleftrightarrow> c \<noteq> [] \<and> (hd c = 35 \<or> hd c = 59) \<and> 10 \<notin> set c"

fun tail_ok :: "tail \<Rightarrow> bool" where
  "tail_ok (ws, None) = blanks ws"
| "tail_ok (ws, Some c) = (blanks ws \<and> comment_ok c)"

definition name_rune :: "unicode \<Rightarrow> nat list \<Rightarrow> nat \<Rightarrow> bool" where
  "name_rune u extra r \<longleftrightarrow> valid_rune r \<and> (unicode_IsLetter u r \<or> unicode_IsDigit u r \<or> r \<in> set extra)"

definition name_ok :: "unicode \<Rightarrow> nat list \<Rightarrow> bytes \<Rightarrow> bool" where
  "name_ok u extra name \<longleftrightarrow> name = encode (runes name) \<and> name \<noteq> [] \<and> unicode_IsLetter u (hd (runes name)) \<and>
     list_all (name_rune u extra) (runes name)"

definition plain_value :: "bytes \<Rightarrow> bool" where
  "plain_value v \<longleftrightarrow> v \<noteq> [] \<and> hd v \<noteq> 32 \<and> hd v \<noteq> 9 \<and> last v \<noteq> 32 \<and> last v \<noteq> 9 \<and>
     list_all (\<lambda>b. b \<notin> set [10, 34, 35, 59, 92]) v"

fun line_ok :: "unicode \<Rightarrow> line \<Rightarrow> bool" where
  "line_ok u (LBlank ws) = blanks ws"
| "line_ok u (LComment ws c) = (blanks ws \<and> comment_ok c)"
| "line_ok u (LHeader ws name None t) = (blanks ws \<and> name_ok u [45, 46] name \<and> tail_ok t)"
| "line_ok u (LHeader ws name (Some (w, sub)) t) =
     (blanks ws \<and> name_ok u [45, 46] name \<and> w \<noteq> [] \<and> blanks w \<and> list_all (\<lambda>b. b \<noteq> 34 \<and> b \<noteq> 92) sub \<and> tail_ok t)"
| "line_ok u (LBare ws key t) = (blanks ws \<and> name_ok u [45, 46, 95] key \<and> tail_ok t)"
| "line_ok u (LVal ws key w1 w2 v q t) =
     (blanks ws \<and> name_ok u [45, 46, 95] key \<and> blanks w1 \<and> blanks w2 \<and>
      (if q then utf8 v \<and> v \<noteq> [] else plain_value v) \<and> tail_ok t \<and> (snd t = None \<longrightarrow> fst t = []))"

subsection \<open>What a line is parsed into\<close>

fun tail_format :: "tail \<Rightarrow> bytes" where
  "tail_format (ws, None) = ws @ [10]"
| "tail_format (ws, Some c) = ws @ verb_s @ [10]"

fun with_tail :: "tail \<Rightarrow> variable \<Rightarrow> variable" where
  "with_tail (ws, None) v = v"
| "with_tail (ws, Some c) v = v\<lparr>v_mode := v_mode v OR lineModeComment, v_others := c\<rparr>"

fun line_var :: "line \<Rightarrow> variable" where
  "line_var (LBlank ws) = empty_var\<lparr>v_format := ws @ [10]\<rparr>"
| "line_var (LComment ws c) = empty_var\<lparr>v_mode := lineModeComment, v_format := ws @ verb_s @ [10], v_others := c\<rparr>"
| "line_var (LHeader ws name None t) =
     with_tail t (empty_var\<lparr>v_mode := lineModeSection, v_format := ws @ [91] @ verb_s @ [93] @ tail_format t, v_secName := name\<rparr>)"
| "line_var (LHeader ws name (Some (w, sub)) t) =
     with_tail t (empty_var\<lparr>v_mode := lineModeSection OR lineModeSubsection,
       v_format := ws @ [91] @ verb_s @ w @ [34] @ verb_s @ [34, 93] @ tail_format t, v_secName := name, v_subName := sub\<rparr>)"
| "line_var (LBare ws key t) =
     with_tail t (empty_var\<lparr>v_mode := lineModeSingle, v_format := ws @ verb_s @ tail_format t, v_key := key, v_value := varValueTrue\<rparr>)"
| "line_var (LVal ws key w1 w2 v q t) =
     with_tail t (empty_var\<lparr>v_mode := lineModeValue, v_format := ws @ verb_s @ w1 @ [61] @ w2 @ verb_s @ tail_format t,
       v_key := key, v_value := v, v_isQuoted := q\<rparr>)"

subsection \<open>Scanning\<close>

lemma comment_loop_text: "10 \<notin> set c \<Longrightarrow> comment_loop com (c @ 10 # rest) = (com @ c, rest, True)"
  by (induction c arbitrary: com) auto

lemma blanks_simps [simp]: "blanks []" "blanks (b # ws) \<longleftrightarrow> (b = 32 \<or> b = 9) \<and> blanks ws"
  by (auto simp: blanks_def)

lemma blanks_scan:
  assumes "blanks ws"
  shows "parse_line u r (ws @ br) = parse_line u (fmt_write r ws) br"
    and "possible_comment_loop r (ws @ br) = possible_comment_loop (fmt_write r ws) br"
    and "possible_value_loop r (ws @ br) = possible_value_loop (fmt_write r ws) br"
    and "var_value_spaces r (ws @ br) = var_value_spaces (fmt_write r ws) br"
    and "sub_spaces r (ws @ br) = sub_spaces (fmt_write r ws) br"
  using assms by (induction ws arbitrary: r) (auto simp del: value_loop.simps)

lemma parseComment_text:
  assumes "comment_ok c" "rd_br r = c @ 10 # rest"
  shows "parseComment r = (r\<lparr>rd_br := rest, rd_format := rd_format r @ verb_s @ [10],
    rd_var := (rd_var r)\<lparr>v_mode := v_mode (rd_var r) OR lineModeComment, v_format := rd_format r @ verb_s @ [10], v_others := c\<rparr>\<rparr>, None)"
  using assms by (simp add: parseComment_def comment_loop_text comment_ok_def)

lemma comment_hd: "comment_ok c \<Longrightarrow> \<exists>d ds. c = d # ds \<and> (d = 35 \<or> d = 59)"
  by (cases c) (auto simp: comment_ok_def)

lemma possible_comment_text:
  assumes "tail_ok t"
  shows "possible_comment_loop r (tail_text t @ rest) =
    (r\<lparr>rd_br := rest, rd_format := rd_format r @ tail_format t,
       rd_var := with_tail t ((rd_var r)\<lparr>v_format := rd_format r @ tail_format t\<rparr>)\<rparr>, None)"
proof -
  obtain ws co where t: "t = (ws, co)" by (cases t)
  show ?thesis
  proof (cases co)
    case None
    then show ?thesis using assms by (simp add: t blanks_scan)
  next
    case (Some c)
    then have c: "comment_ok c" using assms by (simp add: t)
    then obtain d ds where d: "c = d # ds" "d = 35 \<or> d = 59" using comment_hd by blast
    then have "possible_comment_loop r1 (c @ 10 # rest) = parseComment (r1\<lparr>rd_br := c @ 10 # rest\<rparr>)" for r1 by auto
    then show ?thesis using assms Some parseComment_text [OF c] by (simp add: t blanks_scan)
  qed
qed

lemma header_loop_text:
  assumes "list_all (name_rune u [45, 46]) rs" "e = 32 \<or> e = 9 \<or> e = 93"
  shows "header_loop u buf (encode rs @ e # rest) = Some (buf @ encode rs, rest, unat e)"
  using assms(1)
proof (induction rs arbitrary: buf)
  case Nil
  show ?case using assms(2) by (elim disjE) (simp_all add: header_loop.simps [of u buf])
next
  case (Cons c rs)
  then have c: "name_rune u [45, 46] c" "list_all (name_rune u [45, 46]) rs" by simp_all
  then have "c \<noteq> 32" "c \<noteq> 9" "c \<noteq> 93" by (auto simp: name_rune_def unicode_IsLetter_def unicode_IsDigit_def)
  then have "header_loop u buf (encode (c # rs) @ e # rest) = header_loop u (buf @ EncodeRune c) (encode rs @ e # rest)"
    using c(1) by (subst header_loop.simps) (simp add: DecodeRune_EncodeRune name_rune_def)
  then show ?case using Cons.IH [OF c(2)] by simp
qed

lemma sub_loop_text:
  "list_all (\<lambda>b. b \<noteq> 34 \<and> b \<noteq> 92) sub \<Longrightarrow> sub_loop False buf (sub @ 34 # 93 # rest) = Some (buf @ sub, rest)"
  by (induction sub arbitrary: buf) auto

lemma variable_loop_name:
  assumes "list_all (name_rune u [45, 46, 95]) rs"
  shows "variable_loop u buf r (encode rs @ br) = variable_loop u (buf @ encode rs) r br"
  using assms
proof (induction rs arbitrary: buf)
  case (Cons c rs)
  then have c: "name_rune u [45, 46, 95] c" "list_all (name_rune u [45, 46, 95]) rs" by simp_all
  then have "c \<noteq> 61" "c \<noteq> 10" by (auto simp: name_rune_def unicode_IsLetter_def unicode_IsDigit_def)
  then have "variable_loop u buf r (encode (c # rs) @ br) = variable_loop u (buf @ EncodeRune c) r (encode rs @ br)"
    using c(1) by (subst variable_loop.simps) (auto simp: DecodeRune_EncodeRune name_rune_def)
  then show ?case using Cons.IH [OF c(2)] by simp
qed simp

lemma name_parts:
  assumes "name_ok u extra name"
  obtains c rs where "name = EncodeRune c @ encode rs" "valid_rune c" "unicode_IsLetter u c" "list_all (name_rune u extra) rs"
  using assms by (cases "runes name") (auto simp: name_ok_def name_rune_def)

lemma letter_bytes:
  assumes "unicode_IsLetter u c"
  shows "\<exists>b bs. EncodeRune c = b # bs \<and> b \<notin> {10, 32, 9, 35, 59, 91}"
proof (cases "c < 128")
  case True
  then have "65 \<le> c \<and> c \<le> 90 \<or> 97 \<le> c \<and> c \<le> 122" using assms by (simp add: unicode_IsLetter_def)
  then have "(of_nat c :: byte) \<notin> {10, 32, 9, 35, 59, 91}" by (auto simp: byte_of_nat)
  then show ?thesis using True by (simp add: EncodeRune_ascii)
next
  case False
  obtain b bs where b: "EncodeRune c = b # bs" by (cases "EncodeRune c") auto
  then have "128 \<le> b" using EncodeRune_high [of c b] False by simp
  then show ?thesis using b by (auto simp: word_le_nat_alt)
qed

subsection \<open>Values\<close>

lemma value_blanks: "blanks ws \<Longrightarrow> value_loop False False buf sp r (ws @ br) = value_loop False False buf (sp @ ws) r br"
  by (induction ws arbitrary: sp) auto

lemma valueWriteByte_eq [simp]: "valueWriteByte buf sp b = buf @ sp @ [b]"
  by (simp add: valueWriteByte_def)

lemma value_plain:
  assumes "list_all (\<lambda>b. b \<notin> set [10, 34, 35, 59, 92]) v" "v \<noteq> []" "last v \<noteq> 32" "last v \<noteq> 9"
  shows "value_loop False False buf sp r (v @ br) = value_loop False False (buf @ sp @ v) [] r br"
  using assms by (induction v arbitrary: buf sp) (auto split: if_splits)

lemma value_quoted_byte:
  "b \<notin> {10, 34, 92} \<Longrightarrow> value_loop True False buf [] r (b # br) = value_loop True False (buf @ [b]) [] r br"
  by simp

lemma value_quoted_bytes:
  "\<forall>b \<in> set bs. b \<notin> {10, 34, 92} \<Longrightarrow> value_loop True False buf [] r (bs @ br) = value_loop True False (buf @ bs) [] r br"
  by (induction bs arbitrary: buf) (simp_all add: value_quoted_byte del: value_loop.simps)

lemma plain_rune_bytes:
  assumes "c \<notin> {10, 34, 92}" "b \<in> set (EncodeRune c)"
  shows "b \<notin> {10, 34, 92}"
proof (cases "c < 128")
  case True
  then have "b = of_nat c" using assms(2) by (simp add: EncodeRune_ascii)
  then show ?thesis using True assms(1) by (auto simp: byte_of_nat)
next
  case False
  then have "128 \<le> b" using EncodeRune_high [of c b] assms(2) by simp
  then show ?thesis by (auto simp: word_le_nat_alt)
qed

lemma value_quoted_rune:
  "value_loop True False buf [] r (escape_rune c @ br) = value_loop True False (buf @ EncodeRune c) [] r br"
proof (cases "c \<in> {8, 9, 10, 34, 92}")
  case True
  then show ?thesis by (auto simp: EncodeRune_ascii)
next
  case False
  then have "escape_rune c = EncodeRune c" by simp
  then show ?thesis using value_quoted_bytes [of "EncodeRune c" buf r br] plain_rune_bytes [of c] False by simp
qed

lemma value_escaped:
  "value_loop True False buf [] r (concat (map escape_rune rs) @ br) = value_loop True False (buf @ encode rs) [] r br"
  by (induction rs arbitrary: buf) (simp_all add: value_quoted_rune del: value_loop.simps escape_rune.simps)

lemma value_tail:
  assumes "tail_ok t" "snd t = None \<longrightarrow> fst t = []"
  shows "value_loop False False buf [] r (tail_text t @ rest) =
    (r\<lparr>rd_br := rest, rd_format := rd_format r @ tail_format t,
       rd_var := with_tail t ((rd_var r)\<lparr>v_value := v_value (rd_var r) @ buf, v_format := rd_format r @ tail_format t\<rparr>)\<rparr>, None)"
proof -
  obtain ws co where t: "t = (ws, co)" by (cases t)
  show ?thesis
  proof (cases co)
    case None
    then show ?thesis using assms by (simp add: t value_end_def valueCommit_def)
  next
    case (Some c)
    then have c: "comment_ok c" and ws: "blanks ws" using assms by (simp_all add: t)
    then obtain d ds where d: "c = d # ds" "d = 35 \<or> d = 59" using comment_hd by blast
    then have "value_loop False False buf ws r (c @ 10 # rest) =
        parseComment (valueCommit (fmt_write r ws) buf ws False\<lparr>rd_br := c @ 10 # rest\<rparr>)" by auto
    then show ?thesis using Some parseComment_text [OF c] value_blanks [OF ws] by (simp add: t valueCommit_def)
  qed
qed

lemma var_value_text:
  assumes "blanks w" "if q then utf8 v else plain_value v" "tail_ok t" "snd t = None \<longrightarrow> fst t = []"
    "v_value (rd_var r) = []" "\<not> v_isQuoted (rd_var r)"
  shows "var_value_spaces r (w @ (if q then escape v else v) @ tail_text t @ rest) =
    (r\<lparr>rd_br := rest, rd_format := rd_format r @ w @ verb_s @ tail_format t,
       rd_var := with_tail t ((rd_var r)\<lparr>v_mode := lineModeValue, v_value := v, v_isQuoted := q,
         v_format := rd_format r @ w @ verb_s @ tail_format t\<rparr>)\<rparr>, None)"
proof (cases q)
  case True
  then have v: "encode (runes v) = v" using assms(2) by (simp add: utf8_def)
  let ?r = "with_var (fmt_write (fmt_write r w) verb_s) (\<lambda>v. v\<lparr>v_mode := lineModeValue\<rparr>)"
  have "var_value_spaces r (w @ escape v @ tail_text t @ rest) =
      value_loop True False [] [] (with_var ?r (\<lambda>v. v\<lparr>v_isQuoted := True\<rparr>)) (concat (map escape_rune (runes v)) @ 34 # tail_text t @ rest)"
    using assms(1) by (simp add: blanks_scan escape_def)
  also have "\<dots> = value_loop False False v [] (with_var ?r (\<lambda>v. v\<lparr>v_isQuoted := True\<rparr>)) (tail_text t @ rest)"
    unfolding value_escaped v by simp
  finally show ?thesis using True assms(3-) by (cases "rd_var r") (simp add: value_tail)
next
  case False
  then have v: "plain_value v" using assms(2) by simp
  then obtain b bs where b: "v = b # bs" "b \<notin> {32, 9, 10, 35, 59}" by (cases v) (auto simp: plain_value_def)
  let ?r = "with_var (fmt_write (fmt_write r w) verb_s) (\<lambda>v. v\<lparr>v_mode := lineModeValue\<rparr>)"
  have "var_value_spaces r (w @ v @ tail_text t @ rest) = value_loop False False [] [] ?r (v @ tail_text t @ rest)"
    using assms(1) b by (simp add: blanks_scan del: value_loop.simps)
  also have "\<dots> = value_loop False False v [] ?r (tail_text t @ rest)"
    using v value_plain [of v "[]" "[]"] by (simp add: plain_value_def)
  finally show ?thesis using False assms(3-) by (cases "rd_var r") (simp add: value_tail)
qed

subsection \<open>Parsing a line\<close>

lemma with_tail_simps [simp]:
  "v_format (with_tail t v) = v_format v" "v_key (with_tail t v) = v_key v" "v_value (with_tail t v) = v_value v"
  "v_secName (with_tail t v) = v_secName v" "v_subName (with_tail t v) = v_subName v" "v_isQuoted (with_tail t v) = v_isQuoted v"
  by (cases t; cases "snd t"; auto)+

lemma parse_key:
  assumes "blanks ws" "name_ok u [45, 46, 95] key" "rd_br r = ws @ key @ br"
  shows "parse u r = variable_loop u key (r\<lparr>rd_br := key @ br, rd_format := ws @ verb_s\<rparr>) br"
proof -
  obtain c rs where c: "key = EncodeRune c @ encode rs" "valid_rune c" "unicode_IsLetter u c"
    and rs: "list_all (name_rune u [45, 46, 95]) rs" using name_parts [OF assms(2)] .
  obtain b bs where b: "EncodeRune c = b # bs" "b \<notin> {10, 32, 9, 35, 59, 91}" using letter_bytes [OF c(3)] by blast
  let ?r = "r\<lparr>rd_format := ws\<rparr>"
  have "parse u r = parse_line u ?r (key @ br)" using assms(1,3) by (simp add: parse_def blanks_scan)
  also have "\<dots> = parseVariable u (?r\<lparr>rd_br := key @ br\<rparr>)" using b by (simp add: c(1))
  also have "\<dots> = variable_loop u (EncodeRune c) (?r\<lparr>rd_br := key @ br, rd_format := ws @ verb_s\<rparr>) (encode rs @ br)"
    using c by (simp add: parseVariable_def DecodeRune_EncodeRune)
  also have "\<dots> = variable_loop u key (?r\<lparr>rd_br := key @ br, rd_format := ws @ verb_s\<rparr>) br"
    using variable_loop_name [OF rs] by (simp add: c(1))
  finally show ?thesis by simp
qed

lemma possible_value_tail:
  assumes "tail_ok t" "v_mode (rd_var r) = lineModeSingle"
  shows "possible_value_loop r (tail_text t @ rest) =
    (r\<lparr>rd_br := rest, rd_format := rd_format r @ tail_format t,
       rd_var := with_tail t ((rd_var r)\<lparr>v_value := varValueTrue, v_format := rd_format r @ tail_format t\<rparr>)\<rparr>, None)"
proof -
  obtain ws co where t: "t = (ws, co)" by (cases t)
  show ?thesis
  proof (cases co)
    case None
    then show ?thesis using assms by (cases "rd_var r") (simp add: t blanks_scan bare_var_def)
  next
    case (Some c)
    then have c: "comment_ok c" using assms by (simp add: t)
    then obtain d ds where d: "c = d # ds" "d = 35 \<or> d = 59" using comment_hd by blast
    then have "possible_value_loop r1 (c @ 10 # rest) =
        parseComment (with_var (r1\<lparr>rd_br := c @ 10 # rest\<rparr>) (\<lambda>v. v\<lparr>v_value := varValueTrue\<rparr>))" for r1 by auto
    then show ?thesis using assms Some parseComment_text [OF c] by (cases "rd_var r") (simp add: t blanks_scan)
  qed
qed

lemma variable_loop_ascii:
  assumes "c < 128" "\<not> unicode_IsLetter u (unat c)" "\<not> unicode_IsDigit u (unat c)" "c \<notin> {45, 46, 95}"
  shows "variable_loop u key r (c # rest) =
    (let single = (\<lambda>r. with_var r (\<lambda>v. v\<lparr>v_mode := lineModeSingle, v_key := key\<rparr>))
     in if c = 61 then parseVarValue (single (fmt_write (r\<lparr>rd_br := rest\<rparr>) [c]))
        else if c = 10 then bare_var (with_var (fmt_write (r\<lparr>rd_br := rest\<rparr>) [c]) (\<lambda>v. v\<lparr>v_key := key\<rparr>))
        else if c = 35 \<or> c = 59 then parseComment (with_var (single (r\<lparr>rd_br := c # rest\<rparr>)) (\<lambda>v. v\<lparr>v_value := varValueTrue\<rparr>))
        else if unicode_IsSpace (unat c) then parsePossibleValue (single (fmt_write (r\<lparr>rd_br := rest\<rparr>) [c]))
        else (r, Some ErrVarNameInvalid))"
proof -
  have u: "unat c = n \<longleftrightarrow> c = of_nat n" if "n < 256" for n using that using byte_of_nat(4) [OF that, of c] by auto
  have "EncodeRune (unat c) = [c]" using assms(1) by (subst EncodeRune_ascii) (auto simp: word_less_nat_alt)
  then show ?thesis using assms by (subst variable_loop.simps) (simp add: u Let_def EncodeRune_ascii)
qed

lemma space_ascii: "unicode_IsSpace 32" "unicode_IsSpace 9"
  by (simp_all add: unicode_IsSpace_def)

lemma mark_ascii:
  assumes "n \<in> {9, 10, 32, 35, 59, 61}"
  shows "\<not> unicode_IsLetter u n \<and> \<not> unicode_IsDigit u n"
  using assms by (auto simp: unicode_IsLetter_def unicode_IsDigit_def)

lemma variable_loop_blank:
  assumes "b = 32 \<or> b = 9"
  shows "variable_loop u key r (b # rest) =
    possible_value_loop (with_var (fmt_write (r\<lparr>rd_br := rest\<rparr>) [b]) (\<lambda>v. v\<lparr>v_mode := lineModeSingle, v_key := key\<rparr>)) rest"
  using assms by (elim disjE) (simp_all add: variable_loop_ascii space_ascii mark_ascii parsePossibleValue_def)

lemma variable_loop_tail:
  assumes "tail_ok t" "rd_var r = empty_var"
  shows "variable_loop u key r (tail_text t @ rest) =
    (r\<lparr>rd_br := rest, rd_format := rd_format r @ tail_format t,
       rd_var := with_tail t (empty_var\<lparr>v_mode := lineModeSingle, v_format := rd_format r @ tail_format t, v_key := key,
         v_value := varValueTrue\<rparr>)\<rparr>, None)"
proof -
  obtain ws co where t: "t = (ws, co)" by (cases t)
  show ?thesis
  proof (cases ws)
    case (Cons b ws')
    then have b: "b = 32 \<or> b = 9" and t': "tail_ok (ws', co)" using assms(1) by (cases co; simp add: t)+
    have "tail_text t = b # tail_text (ws', co)" "tail_format t = b # tail_format (ws', co)"
      "with_tail t = with_tail (ws', co)" by (cases co; auto simp: t Cons fun_eq_iff)+
    then show ?thesis using variable_loop_blank [OF b, of u key r] possible_value_tail [OF t', of _ rest] assms(2)
      by (simp add: empty_var_def)
  next
    case Nil
    show ?thesis
    proof (cases co)
      case None
      then show ?thesis using assms(2) by (simp add: t Nil variable_loop_ascii mark_ascii bare_var_def empty_var_def)
    next
      case (Some c)
      then have c: "comment_ok c" using assms(1) by (simp add: t)
      then obtain d ds where d: "c = d # ds" "d = 35 \<or> d = 59" using comment_hd by blast
      then have "variable_loop u key r (c @ 10 # rest) = parseComment (with_var (with_var (r\<lparr>rd_br := c @ 10 # rest\<rparr>)
          (\<lambda>v. v\<lparr>v_mode := lineModeSingle, v_key := key\<rparr>)) (\<lambda>v. v\<lparr>v_value := varValueTrue\<rparr>))"
        using d(2) by (elim disjE) (simp_all add: d(1) variable_loop_ascii mark_ascii)
      then show ?thesis using parseComment_text [OF c] assms(2) Some by (simp add: t Nil empty_var_def)
    qed
  qed
qed

lemma variable_loop_equal:
  assumes "blanks w" "rd_var r = empty_var"
  shows "variable_loop u key r (w @ 61 # br) = var_value_spaces
    (r\<lparr>rd_br := br, rd_format := rd_format r @ w @ [61], rd_var := empty_var\<lparr>v_mode := lineModeSingle, v_key := key\<rparr>\<rparr>) br"
proof (cases w)
  case Nil
  then show ?thesis using assms(2) by (simp add: variable_loop_ascii mark_ascii parseVarValue_def)
next
  case (Cons b w')
  then have "b = 32 \<or> b = 9" "blanks w'" using assms(1) by auto
  then show ?thesis using variable_loop_blank [of b u key r] assms(2)
    by (cases r) (simp add: Cons blanks_scan parseVarValue_def)
qed

lemma parse_header:
  assumes "blanks ws" "name_ok u [45, 46] name" "e = 32 \<or> e = 9 \<or> e = 93" "rd_br r = ws @ 91 # name @ e # br"
  shows "parse u r = (let r = r\<lparr>rd_br := br, rd_format := ws @ [91] @ verb_s @ [e],
      rd_var := (rd_var r)\<lparr>v_mode := lineModeSection, v_secName := name\<rparr>\<rparr>
    in if e = 93 then parsePossibleComment r else parseSubsection r)"
proof -
  obtain c rs where c: "name = EncodeRune c @ encode rs" "valid_rune c" "unicode_IsLetter u c"
    and rs: "list_all (name_rune u [45, 46]) rs" using name_parts [OF assms(2)] .
  have e: "EncodeRune (unat e) = [e]" "unat e = 93 \<longleftrightarrow> e = 93" using assms(3) by (auto simp: EncodeRune_ascii)
  have "parse u r = parseSectionHeader u (r\<lparr>rd_format := ws, rd_br := 91 # name @ e # br\<rparr>)"
    using assms(1,4) by (simp add: parse_def blanks_scan)
  also have "\<dots> = (let r = r\<lparr>rd_br := br, rd_format := ws @ [91] @ verb_s @ [e],
      rd_var := (rd_var r)\<lparr>v_mode := lineModeSection, v_secName := name\<rparr>\<rparr>
    in if e = 93 then parsePossibleComment r else parseSubsection r)"
    using c header_loop_text [OF rs assms(3)] e by (cases r) (simp add: parseSectionHeader_def DecodeRune_EncodeRune)
  finally show ?thesis .
qed

lemma parse_text:
  assumes "line_ok u l" "rd_var r = empty_var" "rd_br r = line_text l @ rest"
  shows "parse u r = (r\<lparr>rd_br := rest, rd_var := line_var l, rd_format := v_format (line_var l)\<rparr>, None)"
proof (cases l)
  case (LBlank ws)
  then show ?thesis using assms by (cases r) (simp add: parse_def blanks_scan)
next
  case (LComment ws c)
  then have c: "comment_ok c" "blanks ws" using assms(1) by auto
  then obtain d ds where d: "c = d # ds" "d = 35 \<or> d = 59" using comment_hd by blast
  then have "parse_line u r1 (c @ 10 # rest) = parseComment (r1\<lparr>rd_br := c @ 10 # rest\<rparr>)" for r1 by auto
  then show ?thesis using assms LComment c parseComment_text [OF c(1)]
    by (cases r) (simp add: parse_def blanks_scan empty_var_def line_modes)
next
  case (LHeader ws name sub t)
  show ?thesis
  proof (cases sub)
    case None
    then have ok: "blanks ws" "name_ok u [45, 46] name" "tail_ok t" using assms(1) by (simp_all add: LHeader)
    have "rd_br r = ws @ 91 # name @ 93 # tail_text t @ rest" using assms(3) by (simp add: LHeader None)
    from parse_header [OF ok(1,2) _ this] show ?thesis using possible_comment_text [OF ok(3)] assms(2)
      by (cases r) (simp add: LHeader None parsePossibleComment_def empty_var_def)
  next
    case (Some p)
    obtain w s where p: "p = (w, s)" by (cases p)
    have ok: "blanks ws" "name_ok u [45, 46] name" "tail_ok t" "w \<noteq> []" "blanks w" "list_all (\<lambda>b. b \<noteq> 34 \<and> b \<noteq> 92) s"
      using assms(1) by (simp_all add: LHeader Some p)
    obtain e w' where w: "w = e # w'" "e = 32 \<or> e = 9" "blanks w'" using ok(4,5) by (cases w) auto
    have "rd_br r = ws @ 91 # name @ e # w' @ 34 # s @ 34 # 93 # tail_text t @ rest" using assms(3) by (simp add: LHeader Some p w)
    from parse_header [OF ok(1,2) _ this] show ?thesis using possible_comment_text [OF ok(3)] sub_loop_text [OF ok(6)] assms(2) w
      by (cases r) (auto simp: LHeader Some p parseSubsection_def parsePossibleComment_def blanks_scan empty_var_def)
  qed
next
  case (LBare ws key t)
  then have ok: "blanks ws" "name_ok u [45, 46, 95] key" "tail_ok t" using assms(1) by simp_all
  have "rd_br r = ws @ key @ tail_text t @ rest" using assms(3) by (simp add: LBare)
  from parse_key [OF ok(1,2) this] show ?thesis using variable_loop_tail [OF ok(3)] assms(2) by (cases r) (simp add: LBare)
next
  case (LVal ws key w1 w2 v q t)
  then have ok: "blanks ws" "name_ok u [45, 46, 95] key" "blanks w1" "blanks w2" "if q then utf8 v else plain_value v"
    "tail_ok t" "snd t = None \<longrightarrow> fst t = []" using assms(1) by (simp_all split: if_splits)
  have "rd_br r = ws @ key @ w1 @ 61 # w2 @ (if q then escape v else v) @ tail_text t @ rest" using assms(3) by (simp add: LVal)
  from parse_key [OF ok(1,2) this] show ?thesis
    using variable_loop_equal [OF ok(3), of "r\<lparr>rd_br := key @ w1 @ 61 # w2 @ (if q then escape v else v) @ tail_text t @ rest, rd_format := ws @ verb_s\<rparr>"]
      var_value_text [OF ok(4-7)] assms(2) by (cases r) (simp add: LVal empty_var_def)
qed

subsection \<open>Printing a line\<close>

lemma Fprintf_blanks: "37 \<notin> set ws \<Longrightarrow> Fprintf (ws @ f) args = ws @ Fprintf f args"
  by (induction ws) auto

lemma blanks_percent: "blanks ws \<Longrightarrow> 37 \<notin> set ws"
  by (auto simp: blanks_def list_all_iff)

lemma Fprintf_verb [simp]: "Fprintf (37 # 115 # f) (a # as) = a @ Fprintf f as"
  by simp

definition tail_args :: "tail \<Rightarrow> bytes list" where
  "tail_args t = (case snd t of None \<Rightarrow> [] | Some c \<Rightarrow> [c])"

lemma Fprintf_tail: "tail_ok t \<Longrightarrow> Fprintf (tail_format t) (tail_args t) = tail_text t"
  by (cases t; cases "snd t") (auto simp: tail_args_def Fprintf_blanks blanks_percent)

lemma mode_or: "lineModeSection OR lineModeComment = 3" "lineModeSection OR lineModeSubsection = 6"
  "lineModeSection OR lineModeSubsection OR lineModeComment = 7" "lineModeSingle OR lineModeComment = 9"
  "lineModeValue OR lineModeComment = 17" "lineModeMulti OR lineModeComment = 33"
  by (simp_all add: line_modes)

definition is_header :: "line \<Rightarrow> bool" where
  "is_header l = (case l of LHeader _ _ _ _ \<Rightarrow> True | _ \<Rightarrow> False)"

definition is_var :: "line \<Rightarrow> bool" where
  "is_var l = (case l of LBare _ _ _ \<Rightarrow> True | LVal _ _ _ _ _ _ _ \<Rightarrow> True | _ \<Rightarrow> False)"

lemma print_with_format [simp]: "f \<noteq> [] \<Longrightarrow> print_with f d args = Fprintf f args"
  by (simp add: print_with_def)

lemma variable_String_line:
  assumes "line_ok u l" "\<not> is_header l" "v_mode v = v_mode (line_var l)" "v_format v = v_format (line_var l)"
    "v_key v = v_key (line_var l)" "v_value v = v_value (line_var l)" "v_isQuoted v = v_isQuoted (line_var l)"
    "v_others v = v_others (line_var l)"
  shows "variable_String v = line_text l"
proof (cases l)
  case (LBlank ws)
  then show ?thesis using assms by (simp add: variable_String_def empty_var_def)
next
  case (LComment ws c)
  then show ?thesis using assms by (simp add: variable_String_def line_modes Fprintf_blanks blanks_percent)
next
  case (LHeader ws name sub t)
  then show ?thesis using assms(2) by (simp add: is_header_def)
next
  case (LBare ws key t)
  then show ?thesis using assms Fprintf_tail [of t]
    by (cases t; cases "snd t") (auto simp: variable_String_def line_modes tail_args_def Fprintf_blanks blanks_percent)
next
  case (LVal ws key w1 w2 val q t)
  then show ?thesis using assms Fprintf_tail [of t]
    by (cases t; cases "snd t") (auto simp: variable_String_def line_modes tail_args_def Fprintf_blanks blanks_percent)
qed

lemma section_String_line:
  assumes "line_ok u l" "is_header l" "s_mode s = v_mode (line_var l)" "s_format s = v_format (line_var l)"
    "s_name s = v_secName (line_var l)" "s_sub s = v_subName (line_var l)" "s_others s = v_others (line_var l)"
  shows "section_String s = line_text l"
proof -
  obtain ws name sub t where l: "l = LHeader ws name sub t" using assms(2) by (cases l) (auto simp: is_header_def)
  show ?thesis using assms Fprintf_tail [of t] unfolding l
    by (cases sub; cases t; cases "snd t") (auto simp: section_String_def line_modes tail_args_def Fprintf_blanks blanks_percent)
qed

end
