(* ===== verification/IniStore.thy ===== *)
theory IniStore
  imports IniFile
begin

section \<open>Configuration files as a store of values\<close>

text \<open>
  The abstract view of a file: the values of each variable, a key being the lower case name of the
  section, the name of the subsection and the lower case name of the variable.
\<close>

subsection \<open>Well-formed files and their values\<close>

type_synonym key = "bytes \<times> bytes \<times> bytes"

definition var_ok :: "unicode \<Rightarrow> variable \<Rightarrow> bool" where
  "var_ok u v \<longleftrightarrow> (if isLineModeVar (v_mode v) then v_key v \<noteq> [] \<and> v_keyLower v = strings_ToLower u (v_key v) \<and> v_value v \<noteq> []
     else (v_mode v = lineModeEmpty \<or> v_mode v = lineModeComment) \<and> v_key v = [] \<and> v_keyLower v = [])"

definition sec_ok :: "unicode \<Rightarrow> Section \<Rightarrow> bool" where
  "sec_ok u s \<longleftrightarrow> list_all (var_ok u) (s_vars s) \<and> s_nameLower s = strings_ToLower u (s_name s) \<and>
     (s_mode s = lineModeEmpty \<and> s_name s = [] \<or> s_mode s AND lineModeSection \<noteq> 0 \<and> s_name s \<noteq> [])"

definition ini_ok :: "unicode \<Rightarrow> Ini \<Rightarrow> bool" where
  "ini_ok u secs \<longleftrightarrow> list_all (sec_ok u) secs"

definition sec_vals :: "Section \<Rightarrow> bytes \<Rightarrow> bytes list" where
  "sec_vals s k = map v_value (filter (\<lambda>v. isLineModeVar (v_mode v) \<and> v_keyLower v = k) (s_vars s))"

definition vals :: "Ini \<Rightarrow> key \<Rightarrow> bytes list" where
  "vals secs = (\<lambda>(a, b, k). concat (map (\<lambda>s. sec_vals s k) (filter (\<lambda>s. s_nameLower s = a \<and> s_sub s = b) secs)))"

definition key_of :: "unicode \<Rightarrow> key \<Rightarrow> key" where
  "key_of u = (\<lambda>(a, b, k). (strings_ToLower u a, b, strings_ToLower u k))"

lemma vals_simps [simp]:
  "vals [] kk = []"
  "vals (s # ss) (a, b, k) = (if s_nameLower s = a \<and> s_sub s = b then sec_vals s k else []) @ vals ss (a, b, k)"
  "vals (xs @ ys) (a, b, k) = vals xs (a, b, k) @ vals ys (a, b, k)"
  by (simp_all add: vals_def split: prod.splits)

lemma last_idx_None: "last_idx P xs = None \<longleftrightarrow> (\<forall>x \<in> set xs. \<not> P x)"
  by (induction xs) (auto split: option.splits if_splits)

lemma last_idx_Some:
  "last_idx P xs = Some i \<Longrightarrow> \<exists>as x bs. xs = as @ x # bs \<and> length as = i \<and> P x \<and> (\<forall>y \<in> set bs. \<not> P y)"
proof (induction xs arbitrary: i)
  case (Cons x xs)
  show ?case
  proof (cases "last_idx P xs")
    case None
    then have "xs = [] @ xs" "\<forall>y \<in> set xs. \<not> P y" by (simp_all add: last_idx_None)
    moreover have "P x" "i = 0" using Cons.prems None by (auto split: if_splits)
    ultimately show ?thesis by force
  next
    case (Some j)
    then obtain as y bs where "xs = as @ y # bs" "length as = j" "P y" "\<forall>y \<in> set bs. \<not> P y" using Cons.IH by blast
    then have "x # xs = (x # as) @ y # bs \<and> length (x # as) = i \<and> P y \<and> (\<forall>y \<in> set bs. \<not> P y)" using Cons.prems Some by auto
    then show ?thesis by blast
  qed
qed simp

lemma var_ok_keyLower: "var_ok u v \<Longrightarrow> k \<noteq> [] \<Longrightarrow> v_keyLower v = k \<longleftrightarrow> isLineModeVar (v_mode v) \<and> v_keyLower v = k"
  by (auto simp: var_ok_def split: if_splits)

lemma sec_vals_filter:
  assumes "list_all (var_ok u) (s_vars s)" "k \<noteq> []"
  shows "filter (\<lambda>v. v_keyLower v = k) (s_vars s) = filter (\<lambda>v. isLineModeVar (v_mode v) \<and> v_keyLower v = k) (s_vars s)"
  using assms by (intro filter_cong) (auto simp: list_all_iff dest: var_ok_keyLower)

lemma find_rev: "find P (rev xs) = (if filter P xs = [] then None else Some (last (filter P xs)))"
  by (induction xs rule: rev_induct) auto

lemma sec_get_vals:
  assumes "sec_ok u s" "key \<noteq> []"
  shows "sec_get u s key def = (let vs = sec_vals s (strings_ToLower u key) in if vs = [] then (def, False) else (last vs, True))"
proof -
  have "strings_ToLower u key \<noteq> []" "list_all (var_ok u) (s_vars s)" using assms by (simp_all add: sec_ok_def)
  from sec_vals_filter [OF this(2,1)] show ?thesis using assms(2)
    by (cases "s_vars s = []") (simp_all add: sec_get_def find_rev sec_vals_def Let_def last_map)
qed

lemma sec_gets_vals:
  assumes "sec_ok u s" "key \<noteq> []"
  shows "sec_gets u s key [] = (let vs = sec_vals s (strings_ToLower u key) in (vs, vs \<noteq> []))"
proof -
  have "strings_ToLower u key \<noteq> []" "list_all (var_ok u) (s_vars s)" using assms by (simp_all add: sec_ok_def)
  from sec_vals_filter [OF this(2,1)] show ?thesis using assms(2)
    by (cases "s_vars s = []") (simp_all add: sec_gets_def sec_vals_def Let_def)
qed

lemma Get_loop_vals:
  assumes "ini_ok u secs" "key \<noteq> []"
  shows "Get_loop u (rev secs) a b key def =
    (let vs = vals secs (a, b, strings_ToLower u key) in if vs = [] then (def, False) else (last vs, True))"
  using assms by (induction secs rule: rev_induct) (auto simp: ini_ok_def sec_get_vals Let_def)

lemma ini_Get_vals:
  assumes "ini_ok u secs" "secName \<noteq> []" "key \<noteq> []"
  shows "ini_Get u secs secName subName key def =
    (let vs = vals secs (key_of u (secName, subName, key)) in if vs = [] then (def, False) else (last vs, True))"
  using assms Get_loop_vals [OF assms(1,3)] by (cases secs) (simp_all add: ini_Get_def key_of_def)

lemma ini_Gets_vals:
  assumes "ini_ok u secs" "secName \<noteq> []" "key \<noteq> []"
  shows "ini_Gets u secs secName subName key = vals secs (key_of u (secName, subName, key))"
proof -
  have "Gets_loop u secs (strings_ToLower u secName) subName key = vals secs (key_of u (secName, subName, key))"
    using assms(1,2) by (induction secs) (auto simp: ini_ok_def sec_gets_vals [OF _ assms(3)] key_of_def sec_ok_def Let_def)
  then show ?thesis by (simp add: ini_Gets_def)
qed

subsection \<open>Setting and removing values\<close>

lemma vals_none: "\<forall>s \<in> set secs. \<not> (s_nameLower s = a \<and> s_sub s = b) \<Longrightarrow> vals secs (a, b, k) = []"
  by (induction secs) auto

lemma real_section:
  assumes "sec_ok u s" "s_nameLower s \<noteq> []"
  shows "s_mode s \<noteq> lineModeEmpty" "s_mode s \<noteq> lineModeComment"
  using assms by (auto simp: sec_ok_def line_modes)

lemma getSection_Some:
  assumes "ini_ok u secs" "a \<noteq> []" "getSection secs a b = Some i"
  shows "\<exists>as s bs. secs = as @ s # bs \<and> length as = i \<and> s_nameLower s = a \<and> s_sub s = b \<and>
    (\<forall>s \<in> set bs. \<not> (s_nameLower s = a \<and> s_sub s = b))"
proof -
  from last_idx_Some [OF assms(3) [unfolded getSection_def]] obtain as s bs where s: "secs = as @ s # bs" "length as = i"
    "s_nameLower s = a" "s_sub s = b"
    "\<forall>y \<in> set bs. \<not> (\<not> (s_mode y = lineModeEmpty \<or> s_mode y = lineModeComment) \<and> s_nameLower y = a \<and> s_sub y = b)" by auto
  moreover have "\<forall>y \<in> set bs. s_nameLower y = a \<longrightarrow> s_mode y \<noteq> lineModeEmpty \<and> s_mode y \<noteq> lineModeComment"
    using assms(1,2) by (auto simp: s(1) ini_ok_def list_all_iff dest: real_section)
  ultimately show ?thesis by blast
qed

lemma getSection_None:
  assumes "ini_ok u secs" "a \<noteq> []" "getSection secs a b = None"
  shows "vals secs (a, b, k) = []"
proof (rule vals_none)
  have "\<forall>s \<in> set secs. s_nameLower s = a \<longrightarrow> s_mode s \<noteq> lineModeEmpty \<and> s_mode s \<noteq> lineModeComment"
    using assms(1,2) by (auto simp: ini_ok_def list_all_iff dest: real_section)
  then show "\<forall>s \<in> set secs. \<not> (s_nameLower s = a \<and> s_sub s = b)" using assms(3) by (auto simp: getSection_def last_idx_None)
qed

lemma new_var_simps [simp]:
  "v_mode (new_var u key value) = lineModeValue" "v_keyLower (new_var u key value) = strings_ToLower u key"
  "v_value (new_var u key value) = value" "v_key (new_var u key value) = key" "isLineModeVar lineModeValue"
  by (simp_all add: new_var_def isLineModeVar_def line_modes)

lemma sec_ok_vars: "sec_ok u s \<Longrightarrow> list_all (var_ok u) vs \<Longrightarrow> sec_ok u (s\<lparr>s_vars := vs\<rparr>)"
  by (simp add: sec_ok_def)

lemma append_var_vals [simp]:
  "sec_vals (append_var s v) k = sec_vals s k @ (if isLineModeVar (v_mode v) \<and> v_keyLower v = k then [v_value v] else [])"
  "s_nameLower (append_var s v) = s_nameLower s" "s_sub (append_var s v) = s_sub s" "s_mode (append_var s v) = s_mode s"
  by (simp_all add: append_var_def sec_vals_def)

lemma append_var_ok: "sec_ok u s \<Longrightarrow> key \<noteq> [] \<Longrightarrow> value \<noteq> [] \<Longrightarrow> sec_ok u (append_var s (new_var u key value))"
  by (simp add: append_var_def sec_ok_def var_ok_def)

lemma newSection_ok:
  assumes "name \<noteq> []"
  shows "\<exists>s. newSection u name sub = Some s \<and> sec_ok u s \<and> s_nameLower s = strings_ToLower u name \<and> s_sub s = sub \<and> s_vars s = []"
  using assms by (auto simp: newSection_def sec_ok_def empty_sec_def line_modes Let_def)

lemma new_section_vals:
  assumes "name \<noteq> []" "key \<noteq> []" "value \<noteq> []"
  shows "sec_ok u (append_var (the (newSection u name sub)) (new_var u key value))"
    "vals [append_var (the (newSection u name sub)) (new_var u key value)] k =
       (if k = (strings_ToLower u name, sub, strings_ToLower u key) then [value] else [])"
proof -
  obtain s where s: "newSection u name sub = Some s" "sec_ok u s" "s_nameLower s = strings_ToLower u name" "s_sub s = sub" "s_vars s = []"
    using newSection_ok [OF assms(1)] by blast
  then show "sec_ok u (append_var (the (newSection u name sub)) (new_var u key value))" using assms append_var_ok by simp
  show "vals [append_var (the (newSection u name sub)) (new_var u key value)] k =
       (if k = (strings_ToLower u name, sub, strings_ToLower u key) then [value] else [])"
    using s by (cases k) (auto simp: sec_vals_def [of s])
qed

lemma sec_set_vals:
  assumes "sec_ok u s" "lower_ok u" "key \<noteq> []" "value \<noteq> []"
  shows "\<exists>s1. sec_set u s key value = (s1, True) \<and> sec_ok u s1 \<and> s_nameLower s1 = s_nameLower s \<and> s_sub s1 = s_sub s \<and>
    (\<forall>k. sec_vals s1 k = (if k = strings_ToLower u key then butlast (sec_vals s k) @ [value] else sec_vals s k))"
proof (cases "getVariable s (strings_ToLower u key)")
  case None
  then have "sec_vals s (strings_ToLower u key) = []" by (auto simp: getVariable_def last_idx_None sec_vals_def filter_empty_conv)
  then show ?thesis using None assms append_var_ok [OF assms(1,3,4)] by (auto simp: sec_set_def)
next
  case (Some i)
  from last_idx_Some [OF this [unfolded getVariable_def]] obtain as v bs where v: "s_vars s = as @ v # bs" "length as = i"
    "isLineModeVar (v_mode v)" "v_keyLower v = strings_ToLower u key"
    "\<forall>y \<in> set bs. \<not> (isLineModeVar (v_mode y) \<and> v_keyLower y = strings_ToLower u key)" by auto
  let ?s = "s\<lparr>s_vars := as @ v\<lparr>v_value := value\<rparr> # bs\<rparr>"
  have eq: "sec_set u s key value = (?s, True)" using Some assms(3,4) v by (auto simp: sec_set_def list_update_append)
  have "sec_ok u ?s" using assms(1,4) v by (intro sec_ok_vars) (auto simp: sec_ok_def var_ok_def)
  moreover have "filter (\<lambda>v. isLineModeVar (v_mode v) \<and> v_keyLower v = strings_ToLower u key) bs = []"
    using v(5) by (auto simp: filter_empty_conv)
  then have "sec_vals ?s k = (if k = strings_ToLower u key then butlast (sec_vals s k) @ [value] else sec_vals s k)" for k
    using v by (auto simp: sec_vals_def butlast_append)
  ultimately show ?thesis using eq by auto
qed

definition key_ok :: "key \<Rightarrow> bool" where
  "key_ok = (\<lambda>(a, b, k). a \<noteq> [] \<and> k \<noteq> [])"

definition put :: "unicode \<Rightarrow> Ini \<Rightarrow> key \<Rightarrow> bytes \<Rightarrow> Ini" where
  "put u secs = (\<lambda>(a, b, k) v. fst (ini_Set u secs a b k v))"

lemma vals_update:
  assumes "s_nameLower s1 = s_nameLower s" "s_sub s1 = s_sub s"
  shows "vals (as @ s1 # bs) (a, b, k) = vals as (a, b, k) @
    (if s_nameLower s = a \<and> s_sub s = b then sec_vals s1 k else []) @ vals bs (a, b, k)"
  using assms by simp

lemma ini_Set_vals:
  assumes "ini_ok u secs" "lower_ok u" "secName \<noteq> []" "key \<noteq> []" "value \<noteq> []"
  shows "\<exists>secs1 p. ini_Set u secs secName subName key value = (secs1, True) \<and> ini_ok u secs1 \<and>
    vals secs1 (key_of u (secName, subName, key)) = p @ [value] \<and>
    (p = vals secs (key_of u (secName, subName, key)) \<or> p = butlast (vals secs (key_of u (secName, subName, key)))) \<and>
    (\<forall>k. k \<noteq> key_of u (secName, subName, key) \<longrightarrow> vals secs1 k = vals secs k)"
proof -
  define a where "a = strings_ToLower u secName"
  have a: "a \<noteq> []" using assms(3) by (simp add: a_def)
  have key: "key_of u (secName, subName, key) = (a, subName, strings_ToLower u key)" by (simp add: key_of_def a_def)
  show ?thesis
  proof (cases "getSection secs a subName")
    case None
    define s1 where "s1 = append_var (the (newSection u a subName)) (new_var u key value)"
    have eq: "ini_Set u secs secName subName key value = (secs @ [s1], True)"
      using assms None by (simp add: ini_Set_def a_def [symmetric] s1_def)
    have "strings_ToLower u a = a" using assms(2) by (simp add: a_def)
    then have s1: "sec_ok u s1" "vals [s1] k = (if k = (a, subName, strings_ToLower u key) then [value] else [])" for k
      using new_section_vals [OF a assms(4,5)] by (simp_all add: s1_def)
    have app: "vals (secs @ [s1]) k = vals secs k @ vals [s1] k" for k by (cases k) (simp only: vals_simps)
    have none: "vals secs (a, subName, k) = []" for k using getSection_None [OF assms(1) a None] .
    then have "vals (secs @ [s1]) (a, subName, strings_ToLower u key) = vals secs (a, subName, strings_ToLower u key) @ [value]"
      unfolding app s1(2) by simp
    moreover have "vals (secs @ [s1]) k = vals secs k" if "k \<noteq> (a, subName, strings_ToLower u key)" for k
      unfolding app s1(2) using that by simp
    moreover have "ini_ok u (secs @ [s1])" using assms(1) s1(1) by (simp add: ini_ok_def)
    ultimately show ?thesis unfolding key using eq by blast
  next
    case (Some i)
    obtain as s bs where s: "secs = as @ s # bs" "length as = i" "s_nameLower s = a" "s_sub s = subName"
      and bs: "\<forall>s \<in> set bs. \<not> (s_nameLower s = a \<and> s_sub s = subName)" using getSection_Some [OF assms(1) a Some] by blast
    have "sec_ok u s" using assms(1) by (simp add: s(1) ini_ok_def)
    then obtain s1 where s1: "sec_set u s (strings_ToLower u key) value = (s1, True)" "sec_ok u s1" "s_nameLower s1 = s_nameLower s" "s_sub s1 = s_sub s"
      and v1: "\<forall>k. sec_vals s1 k = (if k = strings_ToLower u key then butlast (sec_vals s k) @ [value] else sec_vals s k)"
      using sec_set_vals [of u s "strings_ToLower u key" "value"] assms by auto
    have eq: "ini_Set u secs secName subName key value = (as @ s1 # bs, True)"
      using Some assms s s1(1) by (auto simp: ini_Set_def a_def [symmetric])
    have none: "vals bs (a, subName, k) = []" for k using vals_none [OF bs] .
    have "vals (as @ s1 # bs) (a, subName, strings_ToLower u key) =
        (vals as (a, subName, strings_ToLower u key) @ butlast (sec_vals s (strings_ToLower u key))) @ [value]"
      using s1 s v1 none by simp
    moreover have "vals secs (a, subName, strings_ToLower u key) = vals as (a, subName, strings_ToLower u key) @ sec_vals s (strings_ToLower u key)"
      using s none by simp
    moreover have "vals (as @ s1 # bs) k = vals secs k" if "k \<noteq> (a, subName, strings_ToLower u key)" for k
      using that s1 s v1 by (cases k) auto
    moreover have "ini_ok u (as @ s1 # bs)" using assms(1) s1(2) by (simp add: s(1) ini_ok_def)
    ultimately show ?thesis unfolding key using eq
      by (intro exI [of _ "as @ s1 # bs"] exI [of _ "vals as (a, subName, strings_ToLower u key) @ butlast (sec_vals s (strings_ToLower u key))"])
        (auto simp: butlast_append)
  qed
qed

subsection \<open>The interface: a store of values\<close>

text \<open>
  Keys are equal when their normal forms are. Writing a value makes it the last one of its key and
  leaves the other keys alone; reading gives the last value.
\<close>

locale value_store =
  fixes ok :: "'s \<Rightarrow> bool" and valid :: "'k \<Rightarrow> bool" and norm :: "'k \<Rightarrow> 'n" and stored :: "'s \<Rightarrow> 'n \<Rightarrow> 'v list"
    and store :: "'s \<Rightarrow> 'k \<Rightarrow> 'v \<Rightarrow> 's" and allowed :: "'v \<Rightarrow> bool"
  assumes write_ok: "ok s \<Longrightarrow> valid k \<Longrightarrow> allowed v \<Longrightarrow> ok (store s k v)"
    and write_same: "ok s \<Longrightarrow> valid k \<Longrightarrow> allowed v \<Longrightarrow> stored (store s k v) (norm k) \<noteq> [] \<and> last (stored (store s k v) (norm k)) = v"
    and write_other: "ok s \<Longrightarrow> valid k \<Longrightarrow> allowed v \<Longrightarrow> n \<noteq> norm k \<Longrightarrow> stored (store s k v) n = stored s n"
begin

definition read :: "'s \<Rightarrow> 'n \<Rightarrow> 'v option" where
  "read s n = (if stored s n = [] then None else Some (last (stored s n)))"

lemma read_write:
  assumes "ok s" "valid k" "allowed v"
  shows "read (store s k v) = (read s)(norm k \<mapsto> v)"
  using write_same [OF assms] write_other [OF assms] by (auto simp: read_def fun_eq_iff)

lemma read_writes:
  assumes "ok s" "list_all (\<lambda>(k, v). valid k \<and> allowed v) kvs"
  shows "ok (foldl (\<lambda>s (k, v). store s k v) s kvs) \<and>
    read (foldl (\<lambda>s (k, v). store s k v) s kvs) = foldl (\<lambda>m (k, v). m(norm k \<mapsto> v)) (read s) kvs"
  using assms
proof (induction kvs arbitrary: s)
  case (Cons kv kvs)
  obtain k v where "kv = (k, v)" by (cases kv)
  then show ?case using Cons.IH [of "store s k v"] Cons.prems read_write [of s k v] write_ok [of s k v] by simp
qed simp

end

interpretation ini: value_store "\<lambda>secs. ini_ok u secs \<and> lower_ok u" key_ok "key_of u" vals "put u" "\<lambda>v. v \<noteq> []" for u
proof (unfold_locales, goal_cases)
  case (1 s k v)
  obtain a b c where "k = (a, b, c)" by (cases k)
  then show ?case using 1 ini_Set_vals [of u s a c v b] by (auto simp: key_ok_def put_def)
next
  case (2 s k v)
  obtain a b c where "k = (a, b, c)" by (cases k)
  then show ?case using 2 ini_Set_vals [of u s a c v b] by (auto simp: key_ok_def put_def)
next
  case (3 s k v n)
  obtain a b c where "k = (a, b, c)" by (cases k)
  then show ?case using 3 ini_Set_vals [of u s a c v b] by (cases n) (auto simp: key_ok_def put_def)
qed

subsection \<open>Pruning\<close>

text \<open>The last value, if there is one.\<close>

definition lastv :: "'a list \<Rightarrow> 'a option" where
  "lastv xs = (if xs = [] then None else Some (last xs))"

lemma lastv_append: "lastv (xs @ ys) = (if ys = [] then lastv xs else lastv ys)"
  by (simp add: lastv_def)

text \<open>Merging on the level of values: the first section of the same name takes the variables.\<close>

fun merge_list :: "unicode \<Rightarrow> Section list \<Rightarrow> Section \<Rightarrow> Section list" where
  "merge_list u [] new = [new]"
| "merge_list u (s # ss) new =
     (if s_nameLower s = s_nameLower new \<and> s_sub s = s_sub new then merge_vars u s (s_vars new) # ss
      else s # merge_list u ss new)"

lemma merge_list_None:
  "\<forall>s \<in> set ss. \<not> (s_nameLower s = s_nameLower new \<and> s_sub s = s_sub new) \<Longrightarrow> merge_list u ss new = ss @ [new]"
  by (induction ss) auto

lemma merge_list_Some:
  "\<forall>s \<in> set as. \<not> (s_nameLower s = s_nameLower new \<and> s_sub s = s_sub new) \<Longrightarrow>
   s_nameLower s = s_nameLower new \<Longrightarrow> s_sub s = s_sub new \<Longrightarrow>
   merge_list u (as @ s # bs) new = as @ merge_vars u s (s_vars new) # bs"
  by (induction as) auto

lemma mergeSection_deref:
  assumes "distinct ps" "\<forall>p \<in> set ps. p < length st"
  shows "deref (mergeSection u (st @ [new], ps) (length st)) = merge_list u (deref (st, ps)) new"
    "distinct (snd (mergeSection u (st @ [new], ps) (length st)))"
    "\<forall>p \<in> set (snd (mergeSection u (st @ [new], ps) (length st))). p < length (fst (mergeSection u (st @ [new], ps) (length st)))"
proof -
  let ?P = "\<lambda>s. s_nameLower s = s_nameLower new \<and> s_sub s = s_sub new"
  have nth: "(st @ [new]) ! p = st ! p" if "p \<in> set ps" for p using assms(2) that by (simp add: nth_append)
  have find: "find (\<lambda>p. s_nameLower ((st @ [new]) ! p) = s_nameLower ((st @ [new]) ! length st) \<and>
      s_sub ((st @ [new]) ! p) = s_sub ((st @ [new]) ! length st)) ps = find (\<lambda>p. ?P (st ! p)) ps"
    using nth by (intro find_cong) auto
  have "deref (mergeSection u (st @ [new], ps) (length st)) = merge_list u (deref (st, ps)) new \<and>
    distinct (snd (mergeSection u (st @ [new], ps) (length st))) \<and>
    (\<forall>p \<in> set (snd (mergeSection u (st @ [new], ps) (length st))). p < length (fst (mergeSection u (st @ [new], ps) (length st))))"
  proof (cases "find (\<lambda>p. ?P (st ! p)) ps")
    case None
    then have "\<forall>s \<in> set (deref (st, ps)). \<not> ?P s" by (auto simp: find_None_iff deref_def)
    moreover have "map (\<lambda>p. (st @ [new]) ! p) ps = map (\<lambda>p. st ! p) ps" using nth by simp
    ultimately show ?thesis using None find assms merge_list_None [of "deref (st, ps)" new u]
      by (fastforce simp: mergeSection_def deref_def)
  next
    case (Some p)
    then obtain i where i: "i < length ps" "?P (st ! (ps ! i))" "p = ps ! i" "\<forall>j < i. \<not> ?P (st ! (ps ! j))"
      by (auto simp: find_Some_iff)
    define as bs where "as = take i ps" and "bs = drop (Suc i) ps"
    have ps: "ps = as @ p # bs" using i by (simp add: as_def bs_def id_take_nth_drop)
    have p: "p < length st" "p \<notin> set as" "p \<notin> set bs" using assms ps by auto
    have same: "s_nameLower (st ! p) = s_nameLower new" "s_sub (st ! p) = s_sub new" using i(2,3) by simp_all
    define s1 where "s1 = merge_vars u (st ! p) (s_vars new)"
    have ms: "mergeSection u (st @ [new], ps) (length st) = ((st @ [new])[p := s1], ps)"
      using Some find nth [of p] ps by (simp add: mergeSection_def s1_def)
    have upd: "(st @ [new])[p := s1] ! q = (if q = p then s1 else st ! q)" if "q \<in> set ps" for q
      using nth [OF that] p(1) assms(2) that by (simp add: nth_list_update)
    have "map (\<lambda>q. (st @ [new])[p := s1] ! q) as = map (\<lambda>q. st ! q) as" "map (\<lambda>q. (st @ [new])[p := s1] ! q) bs = map (\<lambda>q. st ! q) bs"
      using upd p(2,3) by (auto simp: ps intro!: map_cong)
    then have mp: "map (\<lambda>q. (st @ [new])[p := s1] ! q) ps = map (\<lambda>q. st ! q) as @ s1 # map (\<lambda>q. st ! q) bs"
      using upd [of p] by (simp add: ps)
    have "\<forall>s \<in> set (map (\<lambda>q. st ! q) as). \<not> ?P s" using i(4) i(1) by (auto simp: as_def in_set_conv_nth)
    then have "merge_list u (deref (st, ps)) new = map (\<lambda>q. st ! q) as @ s1 # map (\<lambda>q. st ! q) bs"
      using merge_list_Some [of "map (\<lambda>q. st ! q) as" new "st ! p" u "map (\<lambda>q. st ! q) bs"] same by (simp add: deref_def ps s1_def)
    then show ?thesis using assms mp by (auto simp: ms deref_def)
  qed
  then show "deref (mergeSection u (st @ [new], ps) (length st)) = merge_list u (deref (st, ps)) new"
    "distinct (snd (mergeSection u (st @ [new], ps) (length st)))"
    "\<forall>p \<in> set (snd (mergeSection u (st @ [new], ps) (length st))). p < length (fst (mergeSection u (st @ [new], ps) (length st)))" by blast+
qed

lemma Prune_fold: "Prune u secs = foldl (\<lambda>ss sec. if s_mode sec = lineModeEmpty then ss else merge_list u ss (prune_sec u sec)) [] secs"
proof -
  let ?f = "\<lambda>(st, ps) sec. if s_mode sec = lineModeEmpty then (st, ps) else mergeSection u (st @ [prune_sec u sec], ps) (length st)"
  have "distinct (snd (foldl ?f ([], []) secs)) \<and> (\<forall>p \<in> set (snd (foldl ?f ([], []) secs)). p < length (fst (foldl ?f ([], []) secs))) \<and>
    deref (foldl ?f ([], []) secs) = foldl (\<lambda>ss sec. if s_mode sec = lineModeEmpty then ss else merge_list u ss (prune_sec u sec)) [] secs"
  proof (induction secs rule: rev_induct)
    case Nil
    show ?case by (simp add: deref_def)
  next
    case (snoc sec secs)
    obtain st ps where sp: "foldl ?f ([], []) secs = (st, ps)" by fastforce
    show ?case using snoc mergeSection_deref [of ps st u "prune_sec u sec"] by (simp add: sp)
  qed
  then show ?thesis by (simp add: Prune_def)
qed

text \<open>\<open>addUniqValue\<close> makes the value the last one of its key, without duplicates.\<close>

lemma addUniqValue_vals:
  assumes "sec_ok u s" "key \<noteq> []" "value \<noteq> []"
  shows "sec_ok u (addUniqValue u s key value)" "s_nameLower (addUniqValue u s key value) = s_nameLower s"
    "s_sub (addUniqValue u s key value) = s_sub s" "s_mode (addUniqValue u s key value) = s_mode s"
    "sec_vals (addUniqValue u s key value) k =
       (if k = strings_ToLower u key then remove1 value (sec_vals s k) @ [value] else sec_vals s k)"
proof -
  let ?P = "\<lambda>v. v_keyLower v = strings_ToLower u key \<and> v_value v = value"
  have "sec_ok u (addUniqValue u s key value) \<and> s_nameLower (addUniqValue u s key value) = s_nameLower s \<and>
    s_sub (addUniqValue u s key value) = s_sub s \<and> s_mode (addUniqValue u s key value) = s_mode s \<and>
    sec_vals (addUniqValue u s key value) k = (if k = strings_ToLower u key then remove1 value (sec_vals s k) @ [value] else sec_vals s k)"
  proof (cases "List.extract ?P (s_vars s)")
    case None
    then have "\<forall>v \<in> set (s_vars s). \<not> ?P v" by (simp add: extract_None_iff)
    then have "value \<notin> set (sec_vals s (strings_ToLower u key))" by (auto simp: sec_vals_def)
    then show ?thesis using None append_var_ok [OF assms] by (simp add: addUniqValue_def remove1_idem)
  next
    case (Some x)
    obtain xs v ys where x: "x = (xs, v, ys)" by (cases x)
    then have v: "s_vars s = xs @ v # ys" "?P v" "\<forall>y \<in> set xs. \<not> ?P y" using Some by (auto simp: extract_Some_iff)
    have eq: "addUniqValue u s key value = s\<lparr>s_vars := xs @ ys @ [v]\<rparr>" using Some by (simp add: addUniqValue_def x)
    have "var_ok u v" using assms(1) v(1) by (simp add: sec_ok_def)
    then have vm: "isLineModeVar (v_mode v)" using v(2) assms(2) var_ok_keyLower [of u v "strings_ToLower u key"] by simp
    have "value \<notin> set (map v_value (filter (\<lambda>v. isLineModeVar (v_mode v) \<and> v_keyLower v = strings_ToLower u key) xs))"
      using v(3) by auto
    then have "sec_vals (s\<lparr>s_vars := xs @ ys @ [v]\<rparr>) k =
        (if k = strings_ToLower u key then remove1 value (sec_vals s k) @ [value] else sec_vals s k)"
      using v vm by (auto simp: sec_vals_def remove1_append)
    moreover have "sec_ok u (s\<lparr>s_vars := xs @ ys @ [v]\<rparr>)" using assms(1) v(1) by (intro sec_ok_vars) (simp_all add: sec_ok_def)
    ultimately show ?thesis by (simp add: eq)
  qed
  then show "sec_ok u (addUniqValue u s key value)" "s_nameLower (addUniqValue u s key value) = s_nameLower s"
    "s_sub (addUniqValue u s key value) = s_sub s" "s_mode (addUniqValue u s key value) = s_mode s"
    "sec_vals (addUniqValue u s key value) k =
       (if k = strings_ToLower u key then remove1 value (sec_vals s k) @ [value] else sec_vals s k)" by blast+
qed

text \<open>A list of values without duplicates that stands for another: the same set and the same last value.\<close>

definition tidies :: "bytes list \<Rightarrow> bytes list \<Rightarrow> bool" where
  "tidies ts vs \<longleftrightarrow> distinct ts \<and> set ts = set vs \<and> lastv ts = lastv vs"

lemma tidies_snoc: "tidies ts vs \<Longrightarrow> tidies (remove1 v ts @ [v]) (vs @ [v])"
  by (auto simp: tidies_def lastv_def distinct_remove1 set_remove1_eq)

lemma tidies_Nil: "tidies [] []"
  by (simp add: tidies_def lastv_def)

text \<open>Adding variables one by one, with the given key and value of each.\<close>

definition add_all :: "unicode \<Rightarrow> Section \<Rightarrow> (bytes \<times> bytes) list \<Rightarrow> Section" where
  "add_all u s kvs = foldl (\<lambda>s (k, v). addUniqValue u s k v) s kvs"

lemma add_all_keeps:
  assumes "sec_ok u s" "list_all (\<lambda>(k, v). k \<noteq> [] \<and> v \<noteq> []) kvs"
  shows "sec_ok u (add_all u s kvs) \<and> s_nameLower (add_all u s kvs) = s_nameLower s \<and> s_sub (add_all u s kvs) = s_sub s"
  using assms
proof (induction kvs arbitrary: s)
  case (Cons kv kvs)
  obtain k1 v where kv: "kv = (k1, v)" by (cases kv)
  then have "k1 \<noteq> []" "v \<noteq> []" using Cons.prems by simp_all
  note a = addUniqValue_vals [OF Cons.prems(1) this]
  from Cons.IH [OF a(1)] show ?case using Cons.prems a(2,3) by (simp add: add_all_def kv)
qed (simp add: add_all_def)

lemma add_all_vals:
  assumes "sec_ok u s" "list_all (\<lambda>(k, v). k \<noteq> [] \<and> v \<noteq> []) kvs" "tidies (sec_vals s k) vs"
  shows "tidies (sec_vals (add_all u s kvs) k) (vs @ map snd (filter (\<lambda>(k1, v). strings_ToLower u k1 = k) kvs))"
  using assms
proof (induction kvs arbitrary: s vs)
  case (Cons kv kvs)
  obtain k1 v where kv: "kv = (k1, v)" by (cases kv)
  then have "k1 \<noteq> []" "v \<noteq> []" using Cons.prems by simp_all
  note a = addUniqValue_vals [OF Cons.prems(1) this]
  let ?vs = "if strings_ToLower u k1 = k then vs @ [v] else vs"
  have "tidies (sec_vals (addUniqValue u s k1 v) k) ?vs" using a(5) [of k] Cons.prems(3) tidies_snoc by auto
  from Cons.IH [OF a(1) _ this] show ?case using Cons.prems a(2,3) by (auto simp: add_all_def kv)
qed (simp add: add_all_def)

lemma var_modes:
  assumes "var_ok u v"
  shows "v_mode v = lineModeEmpty \<or> v_mode v = lineModeComment \<longleftrightarrow> \<not> isLineModeVar (v_mode v)"
  using assms by (auto simp: var_ok_def isLineModeVar_def line_modes split: if_splits)

lemma filter_vars:
  assumes "list_all (var_ok u) vs"
  shows "filter (\<lambda>v. \<not> (v_mode v = lineModeEmpty \<or> v_mode v = lineModeComment)) vs = filter (\<lambda>v. isLineModeVar (v_mode v)) vs"
proof (rule filter_cong)
  fix v assume "v \<in> set vs"
  then have "var_ok u v" using assms by (simp add: list_all_iff)
  from var_modes [OF this] show "(\<not> (v_mode v = lineModeEmpty \<or> v_mode v = lineModeComment)) = isLineModeVar (v_mode v)" by blast
qed simp

lemma foldl_skip: "foldl (\<lambda>s v. if P v then s else f s (g v) (h v)) s vs = foldl (\<lambda>s (k, v). f s k v) s (map (\<lambda>v. (g v, h v)) (filter (\<lambda>v. \<not> P v) vs))"
  by (induction vs arbitrary: s) auto

lemma merge_vars_all:
  assumes "list_all (var_ok u) vs"
  shows "merge_vars u s vs = add_all u s (map (\<lambda>v. (v_keyLower v, v_value v)) (filter (\<lambda>v. isLineModeVar (v_mode v)) vs))"
  unfolding merge_vars_def add_all_def filter_vars [OF assms, symmetric] by (rule foldl_skip)

lemma values_by_key:
  assumes "list_all (var_ok u) (s_vars s)" "lower_ok u" "g = v_key \<or> g = v_keyLower"
  shows "map snd (filter (\<lambda>(k1, v). strings_ToLower u k1 = k) (map (\<lambda>v. (g v, v_value v)) (filter (\<lambda>v. isLineModeVar (v_mode v)) (s_vars s)))) = sec_vals s k"
proof -
  have "filter (\<lambda>v. isLineModeVar (v_mode v) \<and> strings_ToLower u (g v) = k) (s_vars s) = filter (\<lambda>v. isLineModeVar (v_mode v) \<and> v_keyLower v = k) (s_vars s)"
    using assms by (intro filter_cong) (auto simp: list_all_iff var_ok_def)
  then show ?thesis by (simp add: sec_vals_def filter_map o_def conj_commute)
qed

lemma vars_given:
  assumes "list_all (var_ok u) (s_vars s)" "g = v_key \<or> g = v_keyLower"
  shows "list_all (\<lambda>(k, v). k \<noteq> [] \<and> v \<noteq> []) (map (\<lambda>v. (g v, v_value v)) (filter (\<lambda>v. isLineModeVar (v_mode v)) (s_vars s)))"
  using assms by (auto simp: list_all_iff var_ok_def)

lemma merge_vars_vals:
  assumes "sec_ok u s" "sec_ok u new" "lower_ok u"
  shows "sec_ok u (merge_vars u s (s_vars new))" "s_nameLower (merge_vars u s (s_vars new)) = s_nameLower s"
    "s_sub (merge_vars u s (s_vars new)) = s_sub s"
    "tidies (sec_vals s k) vs \<Longrightarrow> tidies (sec_vals (merge_vars u s (s_vars new)) k) (vs @ sec_vals new k)"
proof -
  have new: "list_all (var_ok u) (s_vars new)" using assms(2) by (simp add: sec_ok_def)
  note given = vars_given [OF new, of v_keyLower]
  show "sec_ok u (merge_vars u s (s_vars new))" "s_nameLower (merge_vars u s (s_vars new)) = s_nameLower s"
    "s_sub (merge_vars u s (s_vars new)) = s_sub s"
    using add_all_keeps [OF assms(1) given] by (simp_all add: merge_vars_all [OF new])
  show "tidies (sec_vals (merge_vars u s (s_vars new)) k) (vs @ sec_vals new k)" if "tidies (sec_vals s k) vs"
    using add_all_vals [OF assms(1) given that] values_by_key [OF new assms(3), of v_keyLower k] by (simp add: merge_vars_all [OF new])
qed

lemma prune_sec_vals:
  assumes "sec_ok u s" "s_mode s \<noteq> lineModeEmpty" "lower_ok u"
  shows "sec_ok u (prune_sec u s) \<and> s_nameLower (prune_sec u s) = s_nameLower s \<and> s_sub (prune_sec u s) = s_sub s \<and>
    tidies (sec_vals (prune_sec u s) k) (sec_vals s k)"
proof -
  have vs: "list_all (var_ok u) (s_vars s)" using assms(1) by (simp add: sec_ok_def)
  define n where "n = (let newSec = empty_sec\<lparr>s_mode := lineModeSection, s_name := s_name s, s_nameLower := s_nameLower s\<rparr>
    in if length (s_sub s) > 0 then newSec\<lparr>s_mode := s_mode newSec OR lineModeSubsection, s_sub := s_sub s\<rparr> else newSec)"
  have n: "sec_ok u n" "s_nameLower n = s_nameLower s" "s_sub n = s_sub s" "sec_vals n k = []"
    using assms(1,2) by (auto simp: n_def sec_ok_def empty_sec_def line_modes sec_vals_def Let_def)
  define h where "h v = (if length (v_value v) = 0 then str ''true'' else v_value v)" for v :: variable
  have "prune_sec u s = foldl (\<lambda>s v. if v_mode v = lineModeEmpty \<or> v_mode v = lineModeComment then s else addUniqValue u s (v_key v) (h v)) n (s_vars s)"
    unfolding prune_sec_def n_def h_def Let_def by (rule refl)
  also have "\<dots> = add_all u n (map (\<lambda>v. (v_key v, h v)) (filter (\<lambda>v. isLineModeVar (v_mode v)) (s_vars s)))"
    unfolding add_all_def filter_vars [OF vs, symmetric] by (rule foldl_skip)
  also have "map (\<lambda>v. (v_key v, h v)) (filter (\<lambda>v. isLineModeVar (v_mode v)) (s_vars s)) =
      map (\<lambda>v. (v_key v, v_value v)) (filter (\<lambda>v. isLineModeVar (v_mode v)) (s_vars s))"
    using vs by (auto simp: list_all_iff var_ok_def h_def)
  finally have "prune_sec u s = add_all u n (map (\<lambda>v. (v_key v, v_value v)) (filter (\<lambda>v. isLineModeVar (v_mode v)) (s_vars s)))" .
  then show ?thesis using add_all_keeps [OF n(1) vars_given [OF vs, of v_key]] add_all_vals [OF n(1) vars_given [OF vs, of v_key], of k "[]"]
      n values_by_key [OF vs assms(3), of v_key k] tidies_Nil by simp
qed

definition sec_id :: "Section \<Rightarrow> bytes \<times> bytes" where
  "sec_id s = (s_nameLower s, s_sub s)"

lemma tidies_append: "tidies ts (vs @ ns) \<Longrightarrow> tidies ns ms \<Longrightarrow> tidies ts (vs @ ms)"
  by (auto simp: tidies_def lastv_append)

lemma tidies_Nil_iff: "tidies [] vs \<longleftrightarrow> vs = []"
  by (auto simp: tidies_def lastv_def)

lemma merge_list_vals:
  assumes "list_all (sec_ok u) ss" "distinct (map sec_id ss)" "sec_ok u new" "lower_ok u"
    "tidies (vals ss (a, b, k)) vs" "tidies (sec_vals new k) ns"
  shows "list_all (sec_ok u) (merge_list u ss new) \<and> distinct (map sec_id (merge_list u ss new)) \<and>
    set (map sec_id (merge_list u ss new)) = insert (sec_id new) (set (map sec_id ss)) \<and>
    tidies (vals (merge_list u ss new) (a, b, k)) (vs @ (if s_nameLower new = a \<and> s_sub new = b then ns else []))"
proof (cases "\<exists>s \<in> set ss. s_nameLower s = s_nameLower new \<and> s_sub s = s_sub new")
  case False
  then have eq: "merge_list u ss new = ss @ [new]" by (intro merge_list_None) blast
  have "vals ss (a, b, k) = []" if "s_nameLower new = a \<and> s_sub new = b"
    using vals_none [of ss a b k] False that by auto
  moreover from this have "s_nameLower new = a \<and> s_sub new = b \<Longrightarrow> vs = []" using assms(5) by (simp add: tidies_Nil_iff)
  ultimately have "tidies (vals (ss @ [new]) (a, b, k)) (vs @ (if s_nameLower new = a \<and> s_sub new = b then ns else []))"
    using assms(5,6) by simp
  moreover have "sec_id new \<notin> set (map sec_id ss)" using False by (auto simp: sec_id_def)
  ultimately show ?thesis unfolding eq using assms(1-3) by simp
next
  case True
  from split_list_first_prop [OF this] obtain xs s ys where s: "ss = xs @ s # ys" "s_nameLower s = s_nameLower new" "s_sub s = s_sub new"
    "\<forall>y \<in> set xs. \<not> (s_nameLower y = s_nameLower new \<and> s_sub y = s_sub new)" by blast
  define m where "m = merge_vars u s (s_vars new)"
  have eq: "merge_list u ss new = xs @ m # ys" using s by (simp add: merge_list_Some m_def)
  have ok: "sec_ok u s" using assms(1) by (simp add: s(1))
  note m = merge_vars_vals [OF ok assms(3,4), folded m_def]
  have ys: "\<forall>y \<in> set ys. \<not> (s_nameLower y = s_nameLower new \<and> s_sub y = s_sub new)"
    using assms(2) s(1-3) by (auto simp: sec_id_def image_iff)
  have "tidies (vals (xs @ m # ys) (a, b, k)) (vs @ (if s_nameLower new = a \<and> s_sub new = b then ns else []))"
  proof (cases "s_nameLower new = a \<and> s_sub new = b")
    case True
    then have none: "vals xs (a, b, k) = []" "vals ys (a, b, k) = []" using s(4) ys by (auto intro: vals_none)
    then have "tidies (sec_vals s k) vs" using assms(5) s(1-3) True by simp
    from tidies_append [OF m(4) [OF this] assms(6)] show ?thesis using none m(2,3) s(2,3) True by simp
  next
    case False
    then show ?thesis using assms(5) s(1-3) m(2,3) by auto
  qed
  moreover have "sec_id m = sec_id s" "sec_id s = sec_id new" using m(2,3) s(2,3) by (simp_all add: sec_id_def)
  ultimately show ?thesis unfolding eq using assms(1,2) m(1) by (simp add: s(1) insert_commute insert_absorb)
qed

lemma Prune_vals:
  assumes "ini_ok u secs" "lower_ok u" "a \<noteq> []"
  shows "ini_ok u (Prune u secs) \<and> distinct (map sec_id (Prune u secs)) \<and> tidies (vals (Prune u secs) (a, b, k)) (vals secs (a, b, k))"
  using assms(1)
proof (induction secs rule: rev_induct)
  case Nil
  show ?case by (simp add: Prune_fold ini_ok_def tidies_Nil)
next
  case (snoc s secs)
  then have ih: "list_all (sec_ok u) (Prune u secs)" "distinct (map sec_id (Prune u secs))" "tidies (vals (Prune u secs) (a, b, k)) (vals secs (a, b, k))"
    and s: "sec_ok u s" by (simp_all add: ini_ok_def)
  show ?case
  proof (cases "s_mode s = lineModeEmpty")
    case True
    then have "s_nameLower s = []" using s by (auto simp: sec_ok_def line_modes)
    then show ?thesis using True ih assms(3) by (simp add: Prune_fold [of u "secs @ [s]"] Prune_fold [symmetric] ini_ok_def)
  next
    case False
    note p = prune_sec_vals [OF s False assms(2), of k]
    have "Prune u (secs @ [s]) = merge_list u (Prune u secs) (prune_sec u s)" using False by (simp add: Prune_fold)
    then show ?thesis using merge_list_vals [OF ih(1,2) _ assms(2) ih(3), of "prune_sec u s" "sec_vals s k"] p by (simp add: ini_ok_def)
  qed
qed

end
