(* ===== verification/IniText.thy ===== *)
theory IniText
  imports IniLines IniStore
begin

section \<open>Configuration files: text, sections and values\<close>

subsection \<open>The sections of a list of lines\<close>

text \<open>The sections of the lines that follow line \<open>n\<close>, where \<open>sec\<close> is the section read so far.\<close>

fun sections :: "unicode \<Rightarrow> nat \<Rightarrow> Section \<Rightarrow> line list \<Rightarrow> Section list" where
  "sections u n sec [] = addSection u [] sec"
| "sections u n sec (l # ls) =
     (let v = (line_var l)\<lparr>v_lineNum := n + 1\<rparr> in
      if is_header l then addSection u [] sec @ sections u (n + 1) (section_of v) ls
      else sections u (n + 1) (addVariable u sec v) ls)"

text \<open>A variable follows some header.\<close>

fun sectioned :: "line list \<Rightarrow> bool" where
  "sectioned [] = True"
| "sectioned (l # ls) = (is_header l \<or> \<not> is_var l \<and> sectioned ls)"

definition file_text :: "line list \<Rightarrow> bytes" where
  "file_text ls = concat (map line_text ls)"

text \<open>
  Writing puts a blank line before a header when the last line that is not a header is a variable.
\<close>

fun spaced :: "bool \<Rightarrow> line list \<Rightarrow> line list" where
  "spaced e [] = []"
| "spaced e (l # ls) =
     (if is_header l then (if e then [LBlank []] else []) @ l # spaced e ls else l # spaced (is_var l) ls)"

lemma line_kinds:
  "isLineModeVar (v_mode (line_var l)) = is_var l"
  "(v_mode (line_var l) AND lineModeSection = lineModeSection \<or> v_mode (line_var l) AND lineModeSubsection = lineModeSubsection) = is_header l"
  "is_header l \<Longrightarrow> v_mode (line_var l) \<noteq> lineModeEmpty"
proof -
  have "isLineModeVar (v_mode (line_var l)) = is_var l \<and>
    (v_mode (line_var l) AND lineModeSection = lineModeSection \<or> v_mode (line_var l) AND lineModeSubsection = lineModeSubsection) = is_header l \<and>
    (is_header l \<longrightarrow> v_mode (line_var l) \<noteq> lineModeEmpty)"
  proof (cases l)
    case (LHeader ws name sub t)
    then show ?thesis by (cases sub; cases t; cases "snd t") (auto simp: isLineModeVar_def line_modes is_var_def is_header_def)
  next
    case (LBare ws key t)
    then show ?thesis by (cases t; cases "snd t") (auto simp: isLineModeVar_def line_modes is_var_def is_header_def)
  next
    case (LVal ws key w1 w2 v q t)
    then show ?thesis by (cases t; cases "snd t") (auto simp: isLineModeVar_def line_modes is_var_def is_header_def)
  qed (simp_all add: isLineModeVar_def line_modes is_var_def is_header_def empty_var_def)
  then show "isLineModeVar (v_mode (line_var l)) = is_var l"
    "(v_mode (line_var l) AND lineModeSection = lineModeSection \<or> v_mode (line_var l) AND lineModeSubsection = lineModeSubsection) = is_header l"
    "is_header l \<Longrightarrow> v_mode (line_var l) \<noteq> lineModeEmpty" by blast+
qed

lemma addVariable_keeps [simp]:
  "s_mode (addVariable u sec v) = s_mode sec" "s_name (addVariable u sec v) = s_name sec" "s_sub (addVariable u sec v) = s_sub sec"
  "s_format (addVariable u sec v) = s_format sec" "s_others (addVariable u sec v) = s_others sec"
  by (simp_all add: addVariable_def Let_def)

lemma section_of_simps [simp]:
  "s_mode (section_of v) = v_mode v" "s_name (section_of v) = v_secName v" "s_sub (section_of v) = v_subName v"
  "s_format (section_of v) = v_format v" "s_others (section_of v) = v_others v" "s_vars (section_of v) = []"
  by (simp_all add: section_of_def empty_sec_def)

lemma addSection_append: "addSection u secs sec = secs @ addSection u [] sec"
  by (simp add: addSection_def)

lemma Parse_loop_lines:
  assumes "list_all (line_ok u) ls" "s_mode sec \<noteq> lineModeEmpty \<or> sectioned ls" "rd_var r = empty_var"
    "rd_br r = file_text ls" "length ls < n"
  shows "Parse_loop u n r sec secs = Some (Inr (secs @ sections u (rd_lineNum r) sec ls))"
  using assms
proof (induction ls arbitrary: n r sec secs)
  case Nil
  obtain m where "n = Suc m" using Nil by (cases n) auto
  moreover have "v_mode empty_var = lineModeEmpty" by (simp add: empty_var_def)
  ultimately show ?case using Nil addSection_append [of u secs] by (simp add: file_text_def parse_def Let_def)
next
  case (Cons l ls)
  obtain m where n: "n = Suc m" using Cons.prems by (cases n) auto
  let ?r = "r\<lparr>rd_lineNum := rd_lineNum r + 1\<rparr>"
  have p: "parse u ?r = (?r\<lparr>rd_br := file_text ls, rd_var := line_var l, rd_format := v_format (line_var l)\<rparr>, None)"
    using Cons.prems by (intro parse_text) (simp_all add: file_text_def)
  define v where "v = (line_var l)\<lparr>v_lineNum := rd_lineNum r + 1\<rparr>"
  define r1 where "r1 = ?r\<lparr>rd_br := file_text ls, rd_format := v_format (line_var l), rd_var := empty_var\<rparr>"
  have v: "isLineModeVar (v_mode v) = is_var l"
    "(v_mode v AND lineModeSection = lineModeSection \<or> v_mode v AND lineModeSubsection = lineModeSubsection) = is_header l"
    by (simp_all add: v_def line_kinds)
  have step: "Parse_loop u n r sec secs =
     (if is_var l \<and> s_mode sec = lineModeEmpty then Some (Inl (ErrVarNoSection (rd_lineNum r + 1)))
      else if is_header l then Parse_loop u m r1 (section_of v) (addSection u secs sec)
      else Parse_loop u m r1 (addVariable u sec v) secs)"
    unfolding n Parse_loop.simps p using v by (simp add: v_def r1_def Let_def)
  have r1: "rd_var r1 = empty_var" "rd_br r1 = file_text ls" "rd_lineNum r1 = rd_lineNum r + 1" by (simp_all add: r1_def)
  show ?case
  proof (cases "is_header l")
    case True
    then have "\<not> is_var l" by (auto simp: is_header_def is_var_def split: line.splits)
    moreover have "s_mode (section_of v) \<noteq> lineModeEmpty" using True line_kinds(3) by (simp add: v_def)
    ultimately show ?thesis using step True Cons.IH [of "section_of v" r1 m "addSection u secs sec"] Cons.prems r1
        addSection_append [of u secs] by (simp add: n Let_def v_def)
  next
    case False
    then have "s_mode sec \<noteq> lineModeEmpty \<or> \<not> is_var l \<and> sectioned ls" using Cons.prems(2) by simp
    then show ?thesis using step False Cons.IH [of "addVariable u sec v" r1 m secs] Cons.prems r1 by (auto simp: n Let_def v_def)
  qed
qed

subsection \<open>Writing\<close>

definition named :: "Section \<Rightarrow> bool" where
  "named sec \<longleftrightarrow> s_mode sec = lineModeEmpty \<or> s_name sec \<noteq> []"

lemma header_name:
  assumes "line_ok u l" "is_header l"
  shows "v_secName (line_var l) \<noteq> []"
proof -
  obtain ws name sub t where "l = LHeader ws name sub t" using assms(2) by (cases l) (auto simp: is_header_def)
  then show ?thesis using assms(1) by (cases sub) (auto simp: name_ok_def)
qed

lemma line_value_ne: "line_ok u l \<Longrightarrow> is_var l \<Longrightarrow> v_value (line_var l) \<noteq> []"
  by (cases l) (auto simp: is_var_def varValueTrue_def str_def plain_value_def split: if_splits)

lemma addVariable_line:
  assumes "line_ok u l" "\<not> is_header l"
  shows "concat (map variable_String (s_vars (addVariable u sec ((line_var l)\<lparr>v_lineNum := n\<rparr>)))) =
    concat (map variable_String (s_vars sec)) @ line_text l"
proof -
  define v where "v = (line_var l)\<lparr>v_lineNum := n\<rparr>"
  obtain w where w: "s_vars (addVariable u sec v) = s_vars sec @ [w]" "v_mode w = v_mode v" "v_format w = v_format v" "v_key w = v_key v"
    "v_isQuoted w = v_isQuoted v" "v_others w = v_others v" "v_value w = v_value v \<or> v_value v = [] \<and> isLineModeVar (v_mode v)"
    by (auto simp: addVariable_def Let_def isLineModeVar_def word_gt_0 line_modes)
  have "v_value w = v_value v" using w(7) line_value_ne [OF assms(1)] by (auto simp: v_def line_kinds)
  then have "variable_String w = line_text l" using w by (intro variable_String_line [OF assms]) (simp_all add: v_def)
  then show ?thesis using w(1) by (simp add: v_def)
qed

definition ends_var :: "variable option \<Rightarrow> Section \<Rightarrow> bool" where
  "ends_var v sec \<longleftrightarrow> (case (if s_vars sec = [] then v else Some (last (s_vars sec))) of None \<Rightarrow> False | Some v \<Rightarrow> isLineModeVar (v_mode v))"

lemma ends_var_add:
  assumes "\<not> is_header l"
  shows "ends_var v (addVariable u sec ((line_var l)\<lparr>v_lineNum := n\<rparr>)) = is_var l"
  using line_kinds(1) [of l] by (auto simp: ends_var_def addVariable_def Let_def)

lemma header_text:
  assumes "line_ok u l" "is_header l"
  shows "section_String (section_of ((line_var l)\<lparr>v_lineNum := n\<rparr>)) = line_text l"
  using assms by (intro section_String_line [OF assms]) simp_all

lemma section_String_lower [simp]: "section_String (sec\<lparr>s_nameLower := x\<rparr>) = section_String sec"
  by (simp add: section_String_def Let_def)

lemma Write_sections:
  assumes "list_all (line_ok u) ls" "named sec"
  shows "Write_loop e v (sections u n sec ls) = (if e then [10] else []) @ section_String sec @
    concat (map variable_String (s_vars sec)) @ file_text (spaced (ends_var v sec) ls)"
  using assms
proof (induction ls arbitrary: n sec e v)
  case Nil
  then show ?case by (auto simp: addSection_def named_def file_text_def)
next
  case (Cons l ls)
  show ?case
  proof (cases "is_header l")
    case True
    let ?s = "section_of ((line_var l)\<lparr>v_lineNum := n + 1\<rparr>)"
    have l: "line_ok u l" "list_all (line_ok u) ls" using Cons.prems by simp_all
    have "named ?s" using header_name [OF l(1) True] by (simp add: named_def)
    from Cons.IH [OF l(2) this]
    have ih: "Write_loop e1 v1 (sections u (n + 1) ?s ls) = (if e1 then [10] else []) @ line_text l @ file_text (spaced (ends_var v1 ?s) ls)" for e1 v1
      using header_text [OF l(1) True, of "n + 1"] by simp
    have keep: "ends_var (if s_vars sec = [] then v else Some (last (s_vars sec))) ?s = ends_var v sec" by (simp add: ends_var_def)
    have "addSection u [] sec = [sec\<lparr>s_nameLower := strings_ToLower u (s_name sec)\<rparr>]"
      using Cons.prems(2) by (auto simp: addSection_def named_def)
    then show ?thesis using True ih keep by (auto simp: file_text_def ends_var_def [of v] Let_def)
  next
    case False
    let ?v = "(line_var l)\<lparr>v_lineNum := n + 1\<rparr>"
    have l: "line_ok u l" "list_all (line_ok u) ls" using Cons.prems by simp_all
    have "named (addVariable u sec ?v)" using Cons.prems(2) by (simp add: named_def)
    from Cons.IH [OF l(2) this, of e v "n + 1"] show ?thesis
      using False addVariable_line [OF l(1) False, of sec "n + 1"] ends_var_add [OF False]
      by (simp add: Let_def file_text_def section_String_def [of "addVariable u sec _"] section_String_def [of sec])
  qed
qed

lemma spaced_spaced: "spaced e1 (spaced e2 ls) = spaced e2 ls" if "e1 \<longrightarrow> e2"
  using that
proof (induction ls arbitrary: e1 e2)
  case (Cons l ls)
  have b: "\<not> is_header (LBlank [])" "\<not> is_var (LBlank [])" by (simp_all add: is_header_def is_var_def)
  show ?case using Cons.IH [of False e2] Cons.IH [of e1 e2] Cons.IH [of "is_var l" "is_var l"] Cons.prems b by auto
qed simp

subsection \<open>Values\<close>

text \<open>The variables of a list of lines, with the current section.\<close>

fun line_entries :: "unicode \<Rightarrow> bytes \<times> bytes \<Rightarrow> line list \<Rightarrow> (key \<times> bytes) list" where
  "line_entries u cur [] = []"
| "line_entries u cur (LBlank _ # ls) = line_entries u cur ls"
| "line_entries u cur (LComment _ _ # ls) = line_entries u cur ls"
| "line_entries u cur (LHeader _ name None _ # ls) = line_entries u (strings_ToLower u name, []) ls"
| "line_entries u cur (LHeader _ name (Some (_, sub)) _ # ls) = line_entries u (strings_ToLower u name, sub) ls"
| "line_entries u cur (LBare _ key _ # ls) = ((fst cur, snd cur, strings_ToLower u key), varValueTrue) # line_entries u cur ls"
| "line_entries u cur (LVal _ key _ _ v _ _ # ls) = ((fst cur, snd cur, strings_ToLower u key), v) # line_entries u cur ls"

lemma name_ok_ne: "name_ok u extra name \<Longrightarrow> name \<noteq> []"
  by (simp add: name_ok_def)

lemma with_tail_mode: "v_mode (with_tail t v) = (if snd t = None then v_mode v else v_mode v OR lineModeComment)"
  by (cases t; cases "snd t"; auto)

lemma line_mode_cases: "v_mode (line_var l) \<in> (if is_var l then {8, 9, 16, 17} else if is_header l then {2, 3, 6, 7} else {0, 1})"
  by (cases l rule: line_var.cases) (auto simp: with_tail_mode line_modes empty_var_def is_var_def is_header_def)

lemma line_var_key: "v_keyLower (line_var l) = []" "\<not> is_var l \<Longrightarrow> v_key (line_var l) = []"
  "line_ok u l \<Longrightarrow> is_var l \<Longrightarrow> v_key (line_var l) \<noteq> []"
proof -
  have k: "v_keyLower (with_tail t v) = v_keyLower v" for t v by (cases t; cases "snd t"; auto)
  show "v_keyLower (line_var l) = []" by (cases l rule: line_var.cases) (simp_all add: k empty_var_def)
  show "\<not> is_var l \<Longrightarrow> v_key (line_var l) = []" by (cases l rule: line_var.cases) (simp_all add: empty_var_def is_var_def)
  show "line_ok u l \<Longrightarrow> is_var l \<Longrightarrow> v_key (line_var l) \<noteq> []"
    by (cases l rule: line_var.cases) (auto simp: is_var_def dest: name_ok_ne)
qed

lemma addVariable_vars:
  assumes "line_ok u l" "\<not> is_header l"
  shows "\<exists>w. addVariable u sec ((line_var l)\<lparr>v_lineNum := n\<rparr>) = sec\<lparr>s_vars := s_vars sec @ [w]\<rparr> \<and> var_ok u w \<and>
    isLineModeVar (v_mode w) = is_var l \<and> (is_var l \<longrightarrow> v_keyLower w = strings_ToLower u (v_key (line_var l)) \<and> v_value w = v_value (line_var l))"
proof (cases "is_var l")
  case True
  let ?w = "(line_var l)\<lparr>v_lineNum := n, v_keyLower := strings_ToLower u (v_key (line_var l))\<rparr>"
  have "v_mode (line_var l) \<in> {8, 9, 16, 17}" using line_mode_cases [of l] True by simp
  then have t: "v_mode (line_var l) AND lineModeSingle = lineModeSingle \<or> v_mode (line_var l) AND lineModeValue = lineModeValue \<or>
      v_mode (line_var l) AND lineModeMulti = lineModeMulti" by (auto simp: line_modes)
  have "addVariable u sec ((line_var l)\<lparr>v_lineNum := n\<rparr>) = sec\<lparr>s_vars := s_vars sec @ [?w]\<rparr>"
    using line_value_ne [OF assms(1) True] by (simp add: addVariable_def t)
  moreover have "var_ok u ?w" using True line_kinds(1) [of l] line_var_key(3) [OF assms(1) True] line_value_ne [OF assms(1) True]
    by (simp add: var_ok_def)
  ultimately show ?thesis using line_kinds(1) [of l] by (intro exI [of _ ?w]) simp
next
  case False
  let ?w = "(line_var l)\<lparr>v_lineNum := n\<rparr>"
  have m: "v_mode (line_var l) \<in> {0, 1}" using line_mode_cases [of l] False assms(2) by simp
  then have "addVariable u sec ?w = sec\<lparr>s_vars := s_vars sec @ [?w]\<rparr>" by (auto simp: addVariable_def line_modes)
  moreover have "var_ok u ?w" using False m line_kinds(1) [of l] line_var_key(1,2) [of l] by (auto simp: var_ok_def line_modes)
  ultimately show ?thesis using False line_kinds(1) [of l] by (intro exI [of _ ?w]) simp
qed

lemma entries_line:
  assumes "\<not> is_header l"
  shows "line_entries u cur (l # ls) =
    (if is_var l then [((fst cur, snd cur, strings_ToLower u (v_key (line_var l))), v_value (line_var l))] else []) @ line_entries u cur ls"
  using assms by (cases l rule: line_var.cases) (auto simp: is_var_def is_header_def)

lemma entries_header:
  assumes "is_header l"
  shows "line_entries u cur (l # ls) = line_entries u (strings_ToLower u (v_secName (line_var l)), v_subName (line_var l)) ls"
  using assms by (cases l rule: line_var.cases) (auto simp: is_header_def empty_var_def)

definition started :: "unicode \<Rightarrow> Section \<Rightarrow> bool" where
  "started u sec \<longleftrightarrow> sec_ok u (sec\<lparr>s_nameLower := strings_ToLower u (s_name sec)\<rparr>)"

lemma sections_vals:
  assumes "list_all (line_ok u) ls" "started u sec"
  shows "ini_ok u (sections u n sec ls) \<and> vals (sections u n sec ls) (a, b, k) =
    (if strings_ToLower u (s_name sec) = a \<and> s_sub sec = b then sec_vals sec k else []) @
    map snd (filter (\<lambda>e. fst e = (a, b, k)) (line_entries u (strings_ToLower u (s_name sec), s_sub sec) ls))"
  using assms
proof (induction ls arbitrary: n sec)
  case Nil
  then have "addSection u [] sec = [sec\<lparr>s_nameLower := strings_ToLower u (s_name sec)\<rparr>]"
    by (auto simp: addSection_def started_def sec_ok_def)
  then show ?case using Nil by (simp add: ini_ok_def started_def sec_vals_def)
next
  case (Cons l ls)
  have l: "line_ok u l" "list_all (line_ok u) ls" using Cons.prems by simp_all
  show ?case
  proof (cases "is_header l")
    case True
    let ?s = "section_of ((line_var l)\<lparr>v_lineNum := n + 1\<rparr>)"
    have add: "addSection u [] sec = [sec\<lparr>s_nameLower := strings_ToLower u (s_name sec)\<rparr>]"
      using Cons.prems(2) by (auto simp: addSection_def started_def sec_ok_def)
    have "v_mode (line_var l) \<in> {2, 3, 6, 7}" using line_mode_cases [of l] True by (auto simp: is_var_def is_header_def split: line.splits if_splits)
    then have "started u ?s" using header_name [OF l(1) True] by (auto simp: started_def sec_ok_def line_modes)
    from Cons.IH [OF l(2) this, of "n + 1"] show ?thesis using True Cons.prems(2)
      by (simp add: add Let_def entries_header ini_ok_def started_def sec_vals_def)
  next
    case False
    let ?v = "(line_var l)\<lparr>v_lineNum := n + 1\<rparr>"
    obtain w where w: "addVariable u sec ?v = sec\<lparr>s_vars := s_vars sec @ [w]\<rparr>" "var_ok u w" "isLineModeVar (v_mode w) = is_var l"
      "is_var l \<longrightarrow> v_keyLower w = strings_ToLower u (v_key (line_var l)) \<and> v_value w = v_value (line_var l)"
      using addVariable_vars [OF l(1) False] by blast
    have "started u (addVariable u sec ?v)" using Cons.prems(2) w(1,2) by (simp add: started_def sec_ok_def)
    from Cons.IH [OF l(2) this, of "n + 1"] show ?thesis using False w
      by (auto simp: Let_def entries_line sec_vals_def)
  qed
qed

lemma started_empty: "started u empty_sec"
  by (simp add: started_def sec_ok_def empty_sec_def)

lemma length_lines: "length ls \<le> length (file_text ls)"
proof (induction ls)
  case (Cons l ls)
  have "0 < length (line_text l)" by (cases l rule: line_text.cases) (auto elim: tail_text.elims)
  then show ?case using Cons by (simp add: file_text_def del: length_greater_0_conv)
qed (simp add: file_text_def)

lemma Parse_lines:
  assumes "list_all (line_ok u) ls" "sectioned ls" "length (file_text ls) < n"
  shows "Parse u n (file_text ls) = Some (Inr (sections u 0 empty_sec ls))"
  using Parse_loop_lines [OF assms(1), of empty_sec "newReader (file_text ls)" n "[]"] assms(2,3) length_lines [of ls]
  by (simp add: Parse_def newReader_def)

lemma Write_lines:
  assumes "list_all (line_ok u) ls"
  shows "Write (sections u 0 empty_sec ls) = file_text (spaced False ls)"
proof -
  have "section_String empty_sec = []" by (simp add: section_String_def empty_sec_def line_modes)
  moreover have "ends_var None empty_sec = False" "s_vars empty_sec = []" "named empty_sec" by (simp_all add: ends_var_def empty_sec_def named_def)
  ultimately show ?thesis using Write_sections [OF assms, of empty_sec False None 0] by (simp add: Write_def)
qed

lemma spaced_ok:
  "list_all (line_ok u) ls \<Longrightarrow> list_all (line_ok u) (spaced e ls)"
  "sectioned ls \<Longrightarrow> sectioned (spaced e ls)"
proof -
  show "list_all (line_ok u) ls \<Longrightarrow> list_all (line_ok u) (spaced e ls)" by (induction ls arbitrary: e) auto
  show "sectioned ls \<Longrightarrow> sectioned (spaced e ls)"
    by (induction ls arbitrary: e) (auto simp: is_header_def is_var_def)
qed

text \<open>
  C11: Reading and writing a configuration file keeps its text. For every list of blank lines, comments,
  section headers, variables without a value and variables with a plain or a quoted value, with any
  spacing and trailing comments, \<open>Parse\<close> accepts the text, and \<open>Write\<close> gives the same lines back, with
  a blank line before a header that follows a variable; reading and writing this text once more
  changes nothing.
\<close>

theorem config_text_roundtrip:
  assumes "list_all (line_ok u) ls" "sectioned ls" "length (file_text ls) < n" "length (file_text (spaced False ls)) < m"
  shows "\<exists>secs secs1. Parse u n (file_text ls) = Some (Inr secs) \<and> Write secs = file_text (spaced False ls) \<and>
    Parse u m (Write secs) = Some (Inr secs1) \<and> Write secs1 = Write secs"
proof -
  have "Write (sections u 0 empty_sec (spaced False ls)) = file_text (spaced False ls)"
    using Write_lines [OF spaced_ok(1) [OF assms(1)], of False] spaced_spaced [of False False ls] by simp
  then show ?thesis using Parse_lines [OF assms(1-3)] Write_lines [OF assms(1)]
      Parse_lines [OF spaced_ok(1) [OF assms(1)] spaced_ok(2) [OF assms(2)] assms(4)] by simp
qed

text \<open>
  C20: A configuration file means what its lines say: after \<open>Parse\<close>, \<open>Gets\<close> returns for every section,
  subsection and variable the values that the lines give it, in their order, where the names of
  sections and variables are compared without regard to case; and \<open>Get\<close> returns the last of them.
\<close>

theorem parsed_values:
  assumes "list_all (line_ok u) ls" "sectioned ls" "length (file_text ls) < n" "secName \<noteq> []" "key \<noteq> []"
  shows "\<exists>secs. Parse u n (file_text ls) = Some (Inr secs) \<and>
    (let vs = map snd (filter (\<lambda>e. fst e = (strings_ToLower u secName, subName, strings_ToLower u key)) (line_entries u ([], []) ls))
     in ini_Gets u secs secName subName key = vs \<and>
        ini_Get u secs secName subName key def = (if vs = [] then (def, False) else (last vs, True)))"
proof -
  have "ini_ok u (sections u 0 empty_sec ls)"
    "vals (sections u 0 empty_sec ls) (key_of u (secName, subName, key)) =
      map snd (filter (\<lambda>e. fst e = (strings_ToLower u secName, subName, strings_ToLower u key)) (line_entries u ([], []) ls))"
    using sections_vals [OF assms(1) started_empty] by (simp_all add: key_of_def empty_sec_def sec_vals_def)
  then show ?thesis using Parse_lines [OF assms(1-3)] ini_Gets_vals [OF _ assms(4,5)] ini_Get_vals [OF _ assms(4,5)] by (simp add: Let_def)
qed

definition lines1 :: "line list" where
  "lines1 = [LComment [] (str ''# c''), LHeader [] (str ''a'') (Some ([32], str ''b'')) ([32], Some (str ''; x'')),
     LVal [9] (str ''k'') [32] [32] (str ''v # w'') True ([], None), LBare [] (str ''j'') ([], None), LHeader [] (str ''D'') None ([], None)]"

lemmas ascii_simps = runes_plain encode_plain ToLower_ascii

lemma lines1_ok: "list_all (line_ok ascii_tables) lines1" "sectioned lines1" "length (file_text lines1) < 60"
  "length (file_text (spaced False lines1)) < 60"
proof -
  have n: "name_ok ascii_tables extra [b]" if "97 \<le> b \<and> b \<le> 122 \<or> 65 \<le> b \<and> b \<le> 90" for b extra
  proof -
    have "b < 128" "97 \<le> unat b \<and> unat b \<le> 122 \<or> 65 \<le> unat b \<and> unat b \<le> 90"
      using that by (auto simp: word_less_nat_alt word_le_nat_alt)
    then show ?thesis using encode_plain [of "[b]"]
      by (auto simp: name_ok_def runes_plain name_rune_def unicode_IsLetter_def valid_rune_def)
  qed
  have "utf8 (str ''v # w'')" using encode_plain [of "str ''v # w''"] by (simp add: utf8_def runes_plain str_def valid_rune_def)
  then show "list_all (line_ok ascii_tables) lines1" by (simp add: lines1_def str_def n comment_ok_def)
  show "sectioned lines1" by (simp add: lines1_def is_header_def is_var_def)
  have "length (escape (str ''v # w'')) = 7" by (simp add: escape_def str_def runes_plain EncodeRune_ascii)
  then show "length (file_text lines1) < 60" "length (file_text (spaced False lines1)) < 60"
    by (simp_all add: lines1_def file_text_def str_def is_header_def is_var_def)
qed

theorem config_text_roundtrip_witness:
  "\<exists>secs secs1. Parse ascii_tables 60 (file_text lines1) = Some (Inr secs) \<and> Write secs = file_text (spaced False lines1) \<and>
    Parse ascii_tables 60 (Write secs) = Some (Inr secs1) \<and> Write secs1 = Write secs"
  by (rule config_text_roundtrip [OF lines1_ok])

theorem parsed_values_witness:
  "\<exists>secs. Parse ascii_tables 60 (file_text lines1) = Some (Inr secs) \<and>
    ini_Get ascii_tables secs (str ''A'') (str ''b'') (str ''K'') [] = (str ''v # w'', True)"
proof -
  have ne: "str ''A'' \<noteq> []" "str ''K'' \<noteq> []" by (simp_all add: str_def)
  have vs: "map snd (filter (\<lambda>e. fst e = (strings_ToLower ascii_tables (str ''A''), str ''b'', strings_ToLower ascii_tables (str ''K'')))
      (line_entries ascii_tables ([], []) lines1)) = [str ''v # w'']"
    by (simp add: lines1_def str_def ToLower_ascii)
  show ?thesis using parsed_values [OF lines1_ok(1-3) ne, of "str ''b''" "[]"] by (auto simp: vs Let_def)
qed

end
