(* ===== verification/IniProps.thy ===== *)
theory IniProps
  imports IniText
begin

section \<open>Configuration files: the main results\<close>

text \<open>
  The results on the operations of a file: it refines a map from variables to values, pruning keeps
  its meaning, and a value given to a variable that was read without one is not written.
\<close>

text \<open>
  C12: A configuration file behaves as a map from variables to values: after any sequence of calls of
  \<open>Set\<close> with values that are not empty, \<open>Get\<close> returns for a variable the value that was set last for it,
  under any spelling of the names of its section and of itself, and for any other variable what it
  returned before.
\<close>

theorem settings_refine_map:
  assumes "ini_ok u secs" "lower_ok u" "list_all (\<lambda>(k, v). key_ok k \<and> v \<noteq> []) kvs" "secName \<noteq> []" "key \<noteq> []"
  shows "ini_Get u (foldl (\<lambda>secs ((a, b, k), v). fst (ini_Set u secs a b k v)) secs kvs) secName subName key def =
    (case map_of (rev (map (\<lambda>(k, v). (key_of u k, v)) kvs)) (key_of u (secName, subName, key)) of
       Some v \<Rightarrow> (v, True) | None \<Rightarrow> ini_Get u secs secName subName key def)"
proof -
  define secs1 where "secs1 = foldl (\<lambda>secs (k, v). put u secs k v) secs kvs"
  have eq: "foldl (\<lambda>secs ((a, b, k), v). fst (ini_Set u secs a b k v)) secs kvs = secs1"
    unfolding secs1_def by (rule foldl_cong) (auto simp: put_def)
  have ok: "ini_ok u secs1" and read: "ini.read secs1 = foldl (\<lambda>m (k, v). m(key_of u k \<mapsto> v)) (ini.read secs) kvs"
    using ini.read_writes [of u secs kvs] assms(1-3) by (simp_all add: secs1_def)
  have "foldl (\<lambda>m (k, v). m(key_of u k \<mapsto> v)) m0 kvs = m0 ++ map_of (rev (map (\<lambda>(k, v). (key_of u k, v)) kvs))" for m0 :: "key \<Rightarrow> bytes option"
    by (induction kvs arbitrary: m0) (auto simp: map_add_def fun_eq_iff split: option.splits)
  with read have "ini.read secs1 k = (case map_of (rev (map (\<lambda>(k, v). (key_of u k, v)) kvs)) k of Some v \<Rightarrow> Some v | None \<Rightarrow> ini.read secs k)" for k
    by (simp add: map_add_def)
  from this [of "key_of u (secName, subName, key)"] show ?thesis
    using ini_Get_vals [OF ok assms(4,5), of subName def] ini_Get_vals [OF assms(1,4,5), of subName def]
    by (auto simp: eq ini.read_def Let_def split: option.splits if_splits)
qed

lemma ini_ok_Nil: "ini_ok u []"
  by (simp add: ini_ok_def)

theorem settings_refine_map_witness:
  "ini_Get ascii_tables (foldl (\<lambda>secs ((a, b, k), v). fst (ini_Set ascii_tables secs a b k v)) []
     [((str ''s'', [], str ''k''), str ''1''), ((str ''S'', [], str ''K''), str ''2''), ((str ''s'', [], str ''j''), str ''3'')])
     (str ''s'') [] (str ''k'') [] = (str ''2'', True)"
  using settings_refine_map [OF ini_ok_Nil ascii_tables_ok,
      of "[((str ''s'', [], str ''k''), str ''1''), ((str ''S'', [], str ''K''), str ''2''), ((str ''s'', [], str ''j''), str ''3'')]"
        "str ''s''" "str ''k''" "[]" "[]"]
  by (simp add: str_def key_ok_def key_of_def ToLower_ascii)

text \<open>
  C21: Pruning keeps the meaning of a file. After \<open>Prune\<close>, \<open>Get\<close> returns for every variable what it
  returned before, \<open>Gets\<close> returns the same values without duplicates, and no two sections have the same
  name and subsection.
\<close>

theorem Prune_keeps_values:
  assumes "ini_ok u secs" "lower_ok u" "secName \<noteq> []" "key \<noteq> []"
  shows "ini_Get u (Prune u secs) secName subName key def = ini_Get u secs secName subName key def \<and>
    distinct (ini_Gets u (Prune u secs) secName subName key) \<and>
    set (ini_Gets u (Prune u secs) secName subName key) = set (ini_Gets u secs secName subName key) \<and>
    distinct (map sec_id (Prune u secs))"
proof -
  have "strings_ToLower u secName \<noteq> []" using assms(3) by simp
  from Prune_vals [OF assms(1,2) this, of subName "strings_ToLower u key"]
  have p: "ini_ok u (Prune u secs)" "distinct (map sec_id (Prune u secs))"
    "tidies (vals (Prune u secs) (key_of u (secName, subName, key))) (vals secs (key_of u (secName, subName, key)))"
    by (simp_all add: key_of_def)
  then show ?thesis using ini_Get_vals [OF p(1) assms(3,4)] ini_Get_vals [OF assms(1,3,4)]
      ini_Gets_vals [OF p(1) assms(3,4)] ini_Gets_vals [OF assms(1,3,4)]
    by (auto simp: tidies_def lastv_def Let_def split: if_splits)
qed

definition secs1 :: Ini where
  "secs1 = [(the (newSection ascii_tables (str ''s'') []))\<lparr>s_vars := [new_var ascii_tables (str ''k'') (str ''1''), new_var ascii_tables (str ''k'') (str ''2'')]\<rparr>,
     (the (newSection ascii_tables (str ''s'') []))\<lparr>s_vars := [new_var ascii_tables (str ''k'') (str ''1'')]\<rparr>]"

lemma secs1_ok: "ini_ok ascii_tables secs1"
  by (simp add: secs1_def ini_ok_def sec_ok_def var_ok_def newSection_def str_def empty_sec_def line_modes isLineModeVar_def)

theorem Prune_keeps_values_witness:
  "ini_Get ascii_tables (Prune ascii_tables secs1) (str ''s'') [] (str ''k'') [] = (str ''1'', True) \<and>
   distinct (ini_Gets ascii_tables (Prune ascii_tables secs1) (str ''s'') [] (str ''k''))"
proof -
  have ne: "str ''s'' \<noteq> []" "str ''k'' \<noteq> []" by (simp_all add: str_def)
  have "ini_Get ascii_tables secs1 (str ''s'') [] (str ''k'') [] = (str ''1'', True)"
    using ini_Get_vals [OF secs1_ok ne, of "[]" "[]"]
    by (simp add: secs1_def sec_vals_def key_of_def newSection_def str_def empty_sec_def)
  then show ?thesis using Prune_keeps_values [OF secs1_ok ascii_tables_ok ne, of "[]" "[]"] by simp
qed

lemma Write_loop_same:
  assumes "section_String s1 = section_String s" "map variable_String (s_vars s1) = map variable_String (s_vars s)"
    "map v_mode (s_vars s1) = map v_mode (s_vars s)"
  shows "Write_loop e v (as @ s1 # bs) = Write_loop e v (as @ s # bs)"
proof (induction as arbitrary: e v)
  case Nil
  have w: "Write_loop e1 v1 bs = Write_loop e1 v2 bs" if "map_option v_mode v1 = map_option v_mode v2" for e1 v1 v2
    using that
  proof (induction bs arbitrary: e1 v1 v2)
    case (Cons b bs)
    let ?w1 = "if s_vars b = [] then v1 else Some (last (s_vars b))"
    let ?w2 = "if s_vars b = [] then v2 else Some (last (s_vars b))"
    have "map_option v_mode ?w1 = map_option v_mode ?w2" using Cons.prems by simp
    then have "(case ?w1 of None \<Rightarrow> False | Some v \<Rightarrow> isLineModeVar (v_mode v)) = (case ?w2 of None \<Rightarrow> False | Some v \<Rightarrow> isLineModeVar (v_mode v))"
      by (cases ?w1; cases ?w2) auto
    then show ?case using Cons.IH [of ?w1 ?w2] Cons.prems by (simp add: Let_def)
  qed simp
  have len: "s_vars s1 = [] \<longleftrightarrow> s_vars s = []" using assms(2) by (metis map_is_Nil_conv)
  have "s_vars s \<noteq> [] \<Longrightarrow> v_mode (last (s_vars s1)) = v_mode (last (s_vars s))" using assms(3) len by (metis last_map)
  then show ?case using assms len w [of "Some (last (s_vars s1))" "Some (last (s_vars s))"] by (simp add: Let_def)
qed (simp add: Let_def)

text \<open>
  C37: Giving a value to a variable that was read without one is lost when the file is written:
  \<open>Set\<close> changes the value, so that \<open>Get\<close> returns it, but \<open>Write\<close> writes the line as it was read, which means
  \<open>true\<close>.
\<close>

theorem set_bare_not_written:
  assumes "ini_ok u secs" "lower_ok u" "secName \<noteq> []" "key \<noteq> []" "value \<noteq> []"
    "getSection secs (strings_ToLower u secName) subName = Some i"
    "getVariable (secs ! i) (strings_ToLower u key) = Some j" "v_mode (s_vars (secs ! i) ! j) = lineModeSingle"
  shows "\<exists>secs1. ini_Set u secs secName subName key value = (secs1, True) \<and> Write secs1 = Write secs \<and>
    ini_Get u secs1 secName subName key def = (value, True)"
proof -
  obtain secs1 p where s1: "ini_Set u secs secName subName key value = (secs1, True)" "ini_ok u secs1"
    "vals secs1 (key_of u (secName, subName, key)) = p @ [value]" using ini_Set_vals [OF assms(1-5)] by blast
  have "ini_Get u secs1 secName subName key def = (value, True)" using ini_Get_vals [OF s1(2) assms(3,4)] s1(3) by (simp add: Let_def)
  moreover have "Write secs1 = Write secs"
  proof -
    define s where "s = secs ! i"
    define s2 where "s2 = s\<lparr>s_vars := (s_vars s)[j := (s_vars s ! j)\<lparr>v_value := value\<rparr>]\<rparr>"
    have "strings_ToLower u secName \<noteq> []" using assms(3) by simp
    from getSection_Some [OF assms(1) this assms(6)] obtain as bs where secs: "secs = as @ s # bs" "length as = i" by (auto simp: s_def)
    have "secs1 = secs[i := s2]" using s1(1) assms by (auto simp: ini_Set_def sec_set_def s_def s2_def)
    then have eq: "secs1 = as @ s2 # bs" using secs by (auto simp: list_update_append)
    have j: "v_mode (s_vars s ! j) = lineModeSingle" using assms(8) by (simp add: s_def)
    then have "variable_String ((s_vars s ! j)\<lparr>v_value := value\<rparr>) = variable_String (s_vars s ! j)"
      by (simp add: variable_String_def line_modes Let_def)
    then have "map variable_String (s_vars s2) = map variable_String (s_vars s)" "map v_mode (s_vars s2) = map v_mode (s_vars s)"
      by (simp_all add: s2_def map_update) (metis list_update_id map_update)+
    then show ?thesis unfolding eq secs(1) Write_def by (intro Write_loop_same) (simp_all add: s2_def section_String_def Let_def)
  qed
  ultimately show ?thesis using s1(1) by blast
qed

definition secs2 :: Ini where
  "secs2 = [(the (newSection ascii_tables (str ''s'') []))\<lparr>s_vars := [(new_var ascii_tables (str ''k'') (str ''true''))\<lparr>v_mode := lineModeSingle\<rparr>]\<rparr>]"

lemma secs2_ok: "ini_ok ascii_tables secs2"
  by (simp add: secs2_def ini_ok_def sec_ok_def var_ok_def newSection_def str_def empty_sec_def line_modes isLineModeVar_def)

theorem set_bare_not_written_witness:
  "\<exists>secs. ini_Set ascii_tables secs2 (str ''s'') [] (str ''k'') (str ''no'') = (secs, True) \<and> Write secs = Write secs2 \<and>
    ini_Get ascii_tables secs (str ''s'') [] (str ''k'') [] = (str ''no'', True)"
proof (rule set_bare_not_written [OF secs2_ok ascii_tables_ok, where i = 0 and j = 0])
  show "getSection secs2 (strings_ToLower ascii_tables (str ''s'')) [] = Some 0"
    by (simp add: secs2_def newSection_def str_def empty_sec_def getSection_def line_modes)
  show "getVariable (secs2 ! 0) (strings_ToLower ascii_tables (str ''k'')) = Some 0"
    by (simp add: secs2_def newSection_def str_def empty_sec_def getVariable_def line_modes isLineModeVar_def)
  show "v_mode (s_vars (secs2 ! 0) ! 0) = lineModeSingle" by (simp add: secs2_def)
qed (simp_all add: str_def)

end
