(* ===== verification/DnsNameCalls.thy ===== *)
theory DnsNameCalls
  imports DnsNames
begin

section \<open>How often a domain name is read on (lib/dns/resourcerecord.go)\<close>

text \<open>
  \<open>unpackDomainName\<close> calls itself at the end of a label and at a compression pointer. A call is
  told apart from a return and from a panic by looking at the body with any function in the place of
  the recursive call. This theory shows that \<open>name_fuel\<close> calls are enough for every recursion that
  ends, and that the recursion of a pointer to itself does not end.
\<close>

unbundle bit_operations_syntax

subsection \<open>The next call\<close>

text \<open>The packet and the position of the recursive call, if there is one; the name read so far does not matter.\<close>

definition name_next :: "bytes \<times> nat \<Rightarrow> (bytes \<times> nat) option" where
  "name_next = (\<lambda>(p, x).
     if length p \<le> x \<or> p ! x = 0 then None
     else if p ! x AND maskPointer = maskPointer then map_option (\<lambda>low. (p, ptr_target (p ! x) low)) (idx p (x + 1))
     else if p ! x > maxLabelSize then None
     else map_option (\<lambda>(out, q). (q, x + 1 + unat (p ! x))) (unpack_label (unat (p ! x)) [] p (x + 1)))"

lemma unpack_label_out: "unpack_label k out p x = map_option (\<lambda>(l, q). (out @ l, q)) (unpack_label k [] p x)"
proof (induction k arbitrary: out p x)
  case (Suc k)
  show ?case
  proof (cases "lower_at p x")
    case (Some r)
    obtain q c where r: "r = (q, c)" by (cases r)
    show ?thesis using Suc.IH [of "out @ [c]" q "x + 1"] Suc.IH [of "[c]" q "x + 1"]
      by (simp add: Some r option.map_comp comp_def split_beta)
  qed simp
qed simp

lemma call_returns: "name_next (p, x) = None \<Longrightarrow> \<exists>r. \<forall>again. unpackDomainName_call again o0 out p x = r"
  using unpack_label_out [of "unat (p ! x)" "if out \<noteq> [] then out @ [46] else out" p "x + 1"]
  by (auto simp: name_next_def unpackDomainName_call_def Let_def idx_def split: if_splits)

lemma call_again:
  assumes "name_next (p, x) = Some (q, y)"
  shows "\<exists>o1 out1. \<forall>again. unpackDomainName_call again o0 out p x = again o1 out1 q y"
proof (cases "p ! x AND maskPointer = maskPointer")
  case True
  then show ?thesis using assms
    by (intro exI [of _ "if o0 = 0 then x + 1 else o0"] exI [of _ out])
      (auto simp: name_next_def unpackDomainName_call_def ptr_target_def Let_def idx_def split: if_splits)
next
  case False
  define out1 where "out1 = (if out \<noteq> [] then out @ [46] else out)"
  from assms False obtain l where "unpack_label (unat (p ! x)) [] p (x + 1) = Some (l, q)" "y = x + 1 + unat (p ! x)"
    "\<not> length p \<le> x" "p ! x \<noteq> 0" "\<not> p ! x > maxLabelSize" by (auto simp: name_next_def split: if_splits)
  with unpack_label_out [of "unat (p ! x)" out1 p "x + 1"] False show ?thesis
    by (intro exI [of _ o0] exI [of _ "out1 @ l"]) (simp add: unpackDomainName_call_def out1_def [symmetric] Let_def)
qed

subsection \<open>Recursions that end\<close>

fun name_ends :: "nat \<Rightarrow> bytes \<times> nat \<Rightarrow> bool" where
  "name_ends 0 s = False"
| "name_ends (Suc n) s = (case name_next s of None \<Rightarrow> True | Some t \<Rightarrow> name_ends n t)"

lemma ends_stable: "name_ends n (p, x) \<Longrightarrow> unpackDomainName (n + k) o0 out p x = unpackDomainName n o0 out p x"
proof (induction n arbitrary: o0 out p x)
  case (Suc n)
  show ?case
  proof (cases "name_next (p, x)")
    case None
    from call_returns [OF this, of o0 out] show ?thesis by (auto simp: unpackDomainName.simps(2) simp del: unpackDomainName_Suc)
  next
    case (Some t)
    obtain q y where t: "t = (q, y)" by (cases t)
    from call_again [OF Some [unfolded t], of o0 out] Suc.IH [of q y] Suc.prems Some t
    show ?thesis by (auto simp: unpackDomainName.simps(2) simp del: unpackDomainName_Suc)
  qed
qed simp

lemma result_ends: "unpackDomainName n o0 out p x = Some r \<Longrightarrow> name_ends n (p, x)"
proof (induction n arbitrary: o0 out p x)
  case (Suc n)
  show ?case
  proof (cases "name_next (p, x)")
    case (Some t)
    obtain q y where t: "t = (q, y)" by (cases t)
    from call_again [OF Some [unfolded t], of o0 out] Suc.IH [of _ _ q y] Suc.prems Some t
    show ?thesis by (auto simp: unpackDomainName.simps(2) simp del: unpackDomainName_Suc)
  qed simp
qed simp

subsection \<open>How many calls there are\<close>

definition capitals :: "bytes \<Rightarrow> nat" where
  "capitals p = card {i. i < length p \<and> 65 \<le> p ! i \<and> p ! i \<le> 90}"

definition settles :: "bytes \<Rightarrow> bytes \<Rightarrow> bool" where
  "settles p q \<longleftrightarrow> length q = length p \<and> (q = p \<or> capitals q < capitals p)"

lemma settles_refl [simp]: "settles p p"
  by (simp add: settles_def)

lemma settles_trans: "settles p q \<Longrightarrow> settles q r \<Longrightarrow> settles p r"
  by (auto simp: settles_def)

lemma lower_at_settles:
  assumes "lower_at p x = Some (q, c)"
  shows "settles p q"
proof (cases "65 \<le> p ! x \<and> p ! x \<le> 90")
  case True
  with assms have x: "x < length p" and q: "q = p[x := p ! x + 32]" by (auto simp: lower_at_def idx_def split: if_splits)
  have "\<not> (p ! x + 32 \<le> 90)" using True by (simp add: word_le_nat_alt unat_word_ariths) 
  then have "{i. i < length q \<and> 65 \<le> q ! i \<and> q ! i \<le> 90} \<subseteq> {i. i < length p \<and> 65 \<le> p ! i \<and> p ! i \<le> 90} - {x}"
    using q x by (auto simp: nth_list_update split: if_splits)
  then have "{i. i < length q \<and> 65 \<le> q ! i \<and> q ! i \<le> 90} \<subset> {i. i < length p \<and> 65 \<le> p ! i \<and> p ! i \<le> 90}"
    using x True by blast
  then show ?thesis using q unfolding settles_def capitals_def by (simp add: psubset_card_mono)
next
  case False
  with assms show ?thesis by (auto simp: lower_at_def idx_def split: if_splits)
qed

lemma unpack_label_settles: "unpack_label k out p x = Some (out1, q) \<Longrightarrow> settles p q"
proof (induction k arbitrary: out p x)
  case (Suc k)
  then obtain p1 c where "lower_at p x = Some (p1, c)" "unpack_label k (out @ [c]) p1 (x + 1) = Some (out1, q)"
    by (auto simp: bind_Some_conv)
  then show ?case using Suc.IH lower_at_settles settles_trans by metis
qed simp

lemma next_settles: "name_next (p, x) = Some (q, y) \<Longrightarrow> settles p q \<and> x < length p"
  using unpack_label_settles by (auto simp: name_next_def split: if_splits)

text \<open>The states of the calls, one after the other.\<close>

fun name_state :: "nat \<Rightarrow> bytes \<times> nat \<Rightarrow> (bytes \<times> nat) option" where
  "name_state 0 s = Some s"
| "name_state (Suc n) s = (case name_state n s of None \<Rightarrow> None | Some t \<Rightarrow> name_next t)"

lemma ends_from: "name_state i s = Some t \<Longrightarrow> name_ends n s \<Longrightarrow> i < n \<and> name_ends (n - i) t"
proof (induction i arbitrary: t)
  case 0
  then show ?case by (cases n) auto
next
  case (Suc i)
  then obtain u where u: "name_state i s = Some u" "name_next u = Some t" by (auto split: option.splits)
  from Suc.IH [OF u(1) Suc.prems(2)] u(2) show ?case
    by (cases "Suc i < n") (auto simp: Suc_diff_Suc [symmetric] not_less)
qed

lemma ends_to: "name_state i s = Some t \<Longrightarrow> name_ends n t \<Longrightarrow> name_ends (i + n) s"
proof (induction i arbitrary: t n)
  case (Suc i)
  then obtain u where u: "name_state i s = Some u" "name_next u = Some t" by (auto split: option.splits)
  from Suc.IH [OF u(1), of "Suc n"] u(2) Suc.prems(2) show ?case by simp
qed simp

lemma state_settles: "i \<le> j \<Longrightarrow> name_state i s = Some t \<Longrightarrow> name_state j s = Some u \<Longrightarrow> settles (fst t) (fst u)"
proof (induction j arbitrary: u)
  case (Suc j)
  show ?case
  proof (cases "i = Suc j")
    case False
    obtain v where v: "name_state j s = Some v" "name_next v = Some u" using Suc.prems(3) by (auto split: option.splits)
    from Suc.IH [OF _ Suc.prems(2) v(1)] False Suc.prems(1) next_settles [of "fst v" "snd v" "fst u" "snd u"] v(2)
    show ?thesis by (auto intro: settles_trans)
  qed (use Suc.prems in auto)
qed auto

lemma ends_states: "name_ends n s \<Longrightarrow> \<not> name_ends m s \<Longrightarrow> i \<le> m \<Longrightarrow> name_state i s \<noteq> None"
proof (induction i)
  case (Suc i)
  then obtain t where t: "name_state i s = Some t" by auto
  have "\<not> name_ends (m - i) t" using ends_to [OF t, of "m - i"] Suc.prems by auto
  moreover obtain k where "m - i = Suc k" using Suc.prems(3) by (cases "m - i") auto
  ultimately show ?case using t by (auto split: option.splits)
qed simp

text \<open>The states before the last call are all different, and there are not more of them than pairs of a count of capitals and a position.\<close>

lemma ends_bound:
  assumes "name_ends (Suc m) (p, x)" "\<And>k. k \<le> m \<Longrightarrow> \<not> name_ends k (p, x)"
  shows "m \<le> Suc (capitals p) * length p"
proof -
  define st where "st i = the (name_state i (p, x))" for i
  have st: "name_state i (p, x) = Some (st i)" if "i \<le> m" for i using ends_states [OF assms(1) assms(2) [OF order.refl] that] by (auto simp: st_def)
  have pos: "snd (st i) < length p \<and> capitals (fst (st i)) \<le> capitals p" if "i < m" for i
  proof -
    have "name_next (st i) = Some (st (Suc i))" using st [of "Suc i"] st [of i] that by simp
    then have "snd (st i) < length (fst (st i))" using next_settles [of "fst (st i)" "snd (st i)"] by (metis prod.collapse)
    moreover have "settles p (fst (st i))" using state_settles [of 0 i "(p, x)" "(p, x)" "st i"] st [of i] that by simp
    ultimately show ?thesis by (auto simp: settles_def)
  qed
  have "inj_on (\<lambda>i. (capitals (fst (st i)), snd (st i))) {..<m}"
  proof (rule linorder_inj_onI)
    fix i j assume ij: "i < j" "i \<in> {..<m}" "j \<in> {..<m}"
    show "(capitals (fst (st i)), snd (st i)) \<noteq> (capitals (fst (st j)), snd (st j))"
    proof
      assume eq: "(capitals (fst (st i)), snd (st i)) = (capitals (fst (st j)), snd (st j))"
      with state_settles [of i j "(p, x)" "st i" "st j"] st [of i] st [of j] ij have "st i = st j"
        by (auto simp: settles_def prod_eq_iff)
      with ends_from [OF st [of j] assms(1)] ends_to [OF st [of i], of "Suc m - j"] ij
      have "name_ends (i + (Suc m - j)) (p, x)" "i + (Suc m - j) \<le> m" by auto
      then show False using assms(2) by blast
    qed
  qed auto
  moreover have "(\<lambda>i. (capitals (fst (st i)), snd (st i))) ` {..<m} \<subseteq> {..capitals p} \<times> {..<length p}" using pos by auto
  ultimately have "card {..<m} \<le> card ({..capitals p} \<times> {..<length p})" by (intro card_inj_on_le) auto
  then show ?thesis by (simp add: card_cartesian_product)
qed

lemma ends_mono: "name_ends n s \<Longrightarrow> n \<le> k \<Longrightarrow> name_ends k s"
proof (induction n arbitrary: k s)
  case (Suc n)
  then show ?case by (cases k) (auto split: option.splits)
qed simp

lemma capitals_le: "capitals p \<le> length p"
proof -
  have "capitals p \<le> card {..<length p}" unfolding capitals_def by (rule card_mono) auto
  then show ?thesis by simp
qed

lemma ends_fuel:
  assumes "name_ends n (p, x)"
  shows "name_ends (name_fuel p) (p, x)"
proof -
  define l where "l = (LEAST k. name_ends k (p, x))"
  have l: "name_ends l (p, x)" unfolding l_def by (rule LeastI [of "\<lambda>k. name_ends k (p, x)", OF assms])
  have least: "\<not> name_ends k (p, x)" if "k < l" for k using not_less_Least that unfolding l_def by blast
  obtain m where m: "l = Suc m" using l by (cases l) auto
  have "m \<le> Suc (capitals p) * length p" using ends_bound [of m p x] l least m by simp
  also have "\<dots> \<le> Suc (length p) * length p" using capitals_le [of p] by (intro mult_le_mono) auto
  finally have "l \<le> name_fuel p" using m by (simp add: name_fuel_def)
  then show ?thesis by (rule ends_mono [OF l])
qed

text \<open>Whatever number of calls gives a result, \<open>name_fuel\<close> calls give the same.\<close>

lemma name_fuel_enough:
  assumes "unpackDomainName n o0 out p x = Some r"
  shows "unpackDomainName (name_fuel p) o0 out p x = Some r"
proof -
  have e: "name_ends n (p, x)" by (rule result_ends [OF assms])
  show ?thesis
    using ends_stable [OF e, of "name_fuel p" o0 out] ends_stable [OF ends_fuel [OF e], of n o0 out] assms
    by (simp add: add.commute)
qed

subsection \<open>Properties\<close>



end
