(* ===== verification/ReaderAt.thy ===== *)
theory ReaderAt
  imports IoReader
begin

section \<open>The buffered reader in the middle of a text\<close>

text \<open>
  Rules for the operations of the reader that the parsers of text files use: when the reader has read
  \<open>pre\<close> and \<open>rest\<close> is before it, an operation that consumes a part of \<open>rest\<close> moves that part to \<open>pre\<close>. And
  every operation goes on in the same buffer, which bounds the loops over a reader.
\<close>

definition rd_at :: "bytes \<Rightarrow> bytes \<Rightarrow> Reader" where
  "rd_at pre rest = \<lparr>rX = length pre, rV = pre @ rest\<rparr>"

lemma rd_at_simps [simp]: "rX (rd_at pre rest) = length pre" "rV (rd_at pre rest) = pre @ rest"
  "reader_ok (rd_at pre rest)"
  by (simp_all add: rd_at_def reader_ok_def)

lemma rd_at_eqI: "rX r = length pre \<Longrightarrow> rV r = pre @ rest \<Longrightarrow> r = rd_at pre rest"
  by (cases r) (simp add: rd_at_def)

lemma reader_at: "reader_ok r \<Longrightarrow> r = rd_at (take (rX r) (rV r)) (unread r)"
  by (rule rd_at_eqI) (simp_all add: reader_ok_def)

subsection \<open>Reading tokens, spaces and lines\<close>

lemma SkipSpaces_loop_append:
  "list_all IsSpace ws \<Longrightarrow> SkipSpaces_loop x (ws @ cs) = SkipSpaces_loop (x + length ws) cs"
  by (induction ws arbitrary: x) auto

lemma SkipSpaces_at:
  assumes "list_all IsSpace ws" "rest = [] \<and> c = 0 \<or> rest \<noteq> [] \<and> c = hd rest \<and> \<not> IsSpace c"
  shows "SkipSpaces (rd_at pre (ws @ rest)) = (rd_at (pre @ ws) rest, c)"
  using assms(2) SkipSpaces_loop_append [OF assms(1), of "length pre" rest] by (cases rest) (auto simp: SkipSpaces_def rd_at_def)

lemma SkipHorizontalSpace_loop_append:
  "set ws \<subseteq> {9, 13, 32} \<Longrightarrow> SkipHorizontalSpace_loop x n (ws @ cs) = SkipHorizontalSpace_loop (x + length ws) (n + length ws) cs"
  by (induction ws arbitrary: x n) auto

lemma SkipHorizontalSpace_at:
  assumes "set ws \<subseteq> {9, 13, 32}" "rest = [] \<and> c = 0 \<or> rest \<noteq> [] \<and> c = hd rest \<and> c \<notin> {9, 13, 32}"
  shows "SkipHorizontalSpace (rd_at pre (ws @ rest)) = Some (rd_at (pre @ ws) rest, length ws, c)"
  using assms(2) SkipHorizontalSpace_loop_append [OF assms(1), of "length pre" 0 rest]
  by (cases rest) (auto simp: SkipHorizontalSpace_def rd_at_def idx_def nth_append Let_def)

lemma ReadUntil_at:
  assumes "set t \<inter> (set terms \<union> set seps) = {}" "c \<in> set terms \<union> set seps"
  shows "ReadUntil (rd_at pre (t @ c # rest)) seps terms = Some (rd_at (pre @ t @ [c]) rest, t, c \<in> set terms, c)"
  using ReadUntil_token [of "rd_at pre (t @ c # rest)" t c rest terms seps] assms by (simp add: rd_at_def reader_ok_def)

lemma ReadUntil_at_end:
  assumes "set t \<inter> (set terms \<union> set seps) = {}"
  shows "ReadUntil (rd_at pre t) seps terms = Some (rd_at (pre @ t) [], t, False, 0)"
proof -
  have "ReadUntil_loop seps terms x t = (x + length t, None)" for x using assms by (induction t arbitrary: x) auto
  then show ?thesis by (simp add: ReadUntil_def rd_at_def go_defs)
qed

lemma ReadLine_loop_append: "10 \<notin> set l \<Longrightarrow> ReadLine_loop x (l @ cs) = ReadLine_loop (x + length l) cs"
  by (induction l arbitrary: x) auto

lemma SkipLine_at: "10 \<notin> set l \<Longrightarrow> SkipLine (rd_at pre (l @ 10 # rest)) = rd_at (pre @ l @ [10]) rest"
  by (simp add: SkipLine_def ReadLine_loop_append rd_at_def)

subsection \<open>Going on in the same buffer\<close>

definition goes_on :: "Reader \<Rightarrow> Reader \<Rightarrow> bool" where
  "goes_on r r1 \<longleftrightarrow> reader_ok r1 \<and> rV r1 = rV r \<and> rX r \<le> rX r1"

definition advances :: "Reader \<Rightarrow> Reader \<Rightarrow> bool" where
  "advances r r1 \<longleftrightarrow> reader_ok r1 \<and> rV r1 = rV r \<and> rX r < rX r1"

lemma goes_on_refl [simp]: "reader_ok r \<Longrightarrow> goes_on r r"
  by (simp add: goes_on_def)

lemma goes_on_ok: "goes_on r r1 \<Longrightarrow> reader_ok r1"
  by (simp add: goes_on_def)

lemma goes_on_trans: "goes_on r r1 \<Longrightarrow> goes_on r1 r2 \<Longrightarrow> goes_on r r2"
  by (simp add: goes_on_def)

lemma advances_goes_on: "advances r r1 \<Longrightarrow> goes_on r r1"
  by (simp add: goes_on_def advances_def)

lemma advances_trans: "advances r r1 \<Longrightarrow> goes_on r1 r2 \<Longrightarrow> advances r r2" "goes_on r r1 \<Longrightarrow> advances r1 r2 \<Longrightarrow> advances r r2"
  by (simp_all add: goes_on_def advances_def)

lemma advances_less: "advances r r1 \<Longrightarrow> length (unread r1) < length (unread r)"
  by (auto simp: advances_def reader_ok_def)

lemma SkipSpaces_goes_on:
  assumes "SkipSpaces r = (r1, c)" "reader_ok r"
  shows "goes_on r r1 \<and> (c \<noteq> 0 \<longrightarrow> unread r1 \<noteq> [])"
proof -
  have "SkipSpaces_loop x cs = (y, d) \<Longrightarrow> x \<le> y \<and> y \<le> x + length cs \<and> (d \<noteq> 0 \<longrightarrow> y < x + length cs)" for x cs y d
    by (induction x cs rule: SkipSpaces_loop.induct) (auto split: if_splits)
  from this [of "rX r" "unread r"] assms show ?thesis
    by (auto simp: SkipSpaces_def reader_ok_def goes_on_def split: prod.splits)
qed

lemma SkipHorizontalSpace_goes_on:
  assumes "SkipHorizontalSpace r = Some (r1, n, c)" "reader_ok r"
  shows "goes_on r r1 \<and> (c \<noteq> 0 \<longrightarrow> unread r1 \<noteq> [])"
proof -
  have "SkipHorizontalSpace_loop x n cs = (y, m) \<Longrightarrow> x \<le> y \<and> y \<le> x + length cs" for x n cs y m
    by (induction x n cs rule: SkipHorizontalSpace_loop.induct) (auto split: if_splits)
  from this [of "rX r" 0 "unread r"] assms show ?thesis
    by (auto simp: SkipHorizontalSpace_def reader_ok_def goes_on_def Let_def idx_def split: prod.splits if_splits bind_splits)
qed

lemma SkipHorizontalSpace_total: "reader_ok r \<Longrightarrow> \<exists>r1 n c. SkipHorizontalSpace r = Some (r1, n, c)"
proof -
  have "SkipHorizontalSpace_loop x n cs = (y, m) \<Longrightarrow> x \<le> y \<and> y \<le> x + length cs" for x n cs y m
    by (induction x n cs rule: SkipHorizontalSpace_loop.induct) (auto split: if_splits)
  from this [of "rX r" 0 "unread r"] show "reader_ok r \<Longrightarrow> ?thesis"
    by (auto simp: SkipHorizontalSpace_def reader_ok_def Let_def idx_def split: prod.splits if_splits)
qed

lemma ReadUntil_goes_on:
  assumes "ReadUntil r seps terms = Some (r1, tok, isTerm, c)" "reader_ok r"
  shows "goes_on r r1 \<and> (unread r \<noteq> [] \<longrightarrow> advances r r1) \<and> (tok \<noteq> [] \<longrightarrow> advances r r1)"
proof -
  note p = ReadUntil_ok [OF assms(2), of seps terms]
  have "tok \<noteq> [] \<longrightarrow> unread r \<noteq> []" using p assms(1) by auto
  then show ?thesis using p assms(1) by (auto simp: goes_on_def advances_def)
qed

lemma SkipLine_goes_on: "reader_ok r \<Longrightarrow> goes_on r (SkipLine r) \<and> (unread r \<noteq> [] \<longrightarrow> advances r (SkipLine r))"
proof -
  have "x \<le> ReadLine_loop x cs \<and> ReadLine_loop x cs \<le> x + length cs \<and> (cs \<noteq> [] \<longrightarrow> x < ReadLine_loop x cs)" for x cs
    by (induction x cs rule: ReadLine_loop.induct) auto
  from this [of "rX r" "unread r"] show "reader_ok r \<Longrightarrow> ?thesis" by (auto simp: SkipLine_def reader_ok_def goes_on_def advances_def)
qed

lemma SkipSpaces_unread: "SkipSpaces r = (r1, c) \<Longrightarrow> c \<noteq> 0 \<Longrightarrow> reader_ok r"
  by (cases "unread r = []") (auto simp: SkipSpaces_def reader_ok_def)

end
