(* ===== verification/DnsHosts.thy ===== *)
theory DnsHosts
  imports DnsServer DnsRoundtrip ReaderAt
begin

section \<open>Hosts files (lib/dns/hosts.go, lib/net/is.go)\<close>

text \<open>
  The parser of hosts files: every address with a host name becomes a packed answer, which the server
  keeps in its cache. The loops read from the buffered reader and terminate because every round reads
  at least one byte. The content of the file is the argument.
\<close>

subsection \<open>Host names (lib/net/is.go)\<close>

text \<open>The loop over the inner bytes: the number of dots, \<open>None\<close> for a byte that is not allowed.\<close>

fun hostname_loop :: "nat \<Rightarrow> bytes \<Rightarrow> nat option" where
  "hostname_loop ndot [] = Some ndot"
| "hostname_loop ndot (c # cs) =
     (if c = 46 then hostname_loop (ndot + 1) cs
      else if c = 45 \<or> c = 95 \<or> IsAlnum c then hostname_loop ndot cs
      else None)"

definition IsHostnameValid :: "bytes \<Rightarrow> bool \<Rightarrow> bool" where
  "IsHostnameValid hname isFQDN =
     (let n = length hname in
      if n = 0 then False
      else if \<not> IsAlnum (hname ! 0) \<and> hname ! 0 \<noteq> 95 then False
      else if \<not> IsAlnum (hname ! (n - 1)) then False
      else case hostname_loop 0 (take (n - 2) (drop 1 hname)) of
             None \<Rightarrow> False
           | Some ndot \<Rightarrow> \<not> (isFQDN \<and> ndot = 0))"

subsection \<open>Messages\<close>

definition defaultTTL :: u32 where
  "defaultTTL = 604800"

text \<open>The message for an address and a name; \<open>nil\<close> when one of them is not valid.\<close>

definition host_type :: "bytes \<Rightarrow> u16" where
  "host_type addr = (if 58 \<in> set addr then QueryTypeAAAA else QueryTypeA)"

definition host_message :: "bytes \<Rightarrow> bytes \<Rightarrow> Message" where
  "host_message addr hname =
     (let qtype = host_type addr; hname = ToLower hname
      in \<lparr>Header = \<lparr>ID = 0, IsQuery = False, Op = 0, IsAA = True, IsTC = False, IsRD = False, IsRA = False, RCode = 0,
            QDCount = 1, ANCount = 1, NSCount = 0, ARCount = 0\<rparr>,
          Question = \<lparr>QName = hname, QType = qtype, QClass = QueryClassIN\<rparr>,
          Answer = [NewResourceRecord\<lparr>Name := hname, RType := qtype, Class := QueryClassIN, TTL := defaultTTL,
            Text := Some addr\<rparr>],
          Authority = [], Additional = [], Packet = [], off = 0, dnameOff = Map.empty, dname = []\<rparr>)"

definition newMessage :: "bytes \<Rightarrow> bytes \<Rightarrow> Message option option" where
  "newMessage addr hname =
     (if \<not> IsHostnameValid hname False then Some None
      else case ParseIP addr of
             None \<Rightarrow> Some None
           | Some ip \<Rightarrow> do { (msg, _) \<leftarrow> Pack (host_message addr hname); Some (Some msg) })"

subsection \<open>The parser\<close>

definition host_seps :: bytes where "host_seps = [9, 11, 32]"
definition host_terms :: bytes where "host_terms = [10, 12, 35]"

function names_loop :: "Reader \<Rightarrow> bytes \<Rightarrow> Message list \<Rightarrow> (Reader \<times> Message list) option" where
  "names_loop r addr msgs =
     (let (r, c) = SkipSpaces r in
      if c = 0 then Some (r, msgs)
      else if c = 35 then Some (SkipLine r, msgs)
      else case ReadUntil r host_seps host_terms of
             None \<Rightarrow> None
           | Some (r, hname, isTerm, c) \<Rightarrow>
               (case (if length hname > 0 then newMessage addr hname else Some None) of
                  None \<Rightarrow> None
                | Some msg \<Rightarrow>
                    let msgs = (case msg of None \<Rightarrow> msgs | Some msg \<Rightarrow> msgs @ [msg]) in
                    if isTerm then
                      if c = 0 then Some (r, msgs)
                      else if c = 35 then Some (SkipLine r, msgs)
                      else Some (r, msgs)
                    else names_loop r addr msgs))"
  by pat_completeness auto

lemma token_advances:
  assumes "SkipSpaces r = (r1, c)" "c \<noteq> 0" "ReadUntil r1 seps terms = Some (r2, tok, isTerm, d)"
  shows "advances r r2"
  using SkipSpaces_goes_on [OF assms(1) SkipSpaces_unread [OF assms(1,2)]] assms(2) ReadUntil_goes_on [OF assms(3)]
    advances_trans(2) goes_on_ok by blast

termination names_loop
  by (relation "measure (\<lambda>(r, _, _). length (unread r))") (auto dest!: token_advances [OF sym] dest: advances_less)

declare names_loop.simps [simp del]

lemma names_loop_goes_on: "names_loop r addr msgs = Some (r1, msgs1) \<Longrightarrow> reader_ok r \<Longrightarrow> goes_on r r1"
proof (induction r addr msgs arbitrary: r1 msgs1 rule: names_loop.induct)
  case (1 r addr msgs)
  obtain ra c where a: "SkipSpaces r = (ra, c)" by fastforce
  have sa: "goes_on r ra" "goes_on r (SkipLine ra)"
    using SkipSpaces_goes_on [OF a 1(3)] SkipLine_goes_on goes_on_ok goes_on_trans by blast+
  show ?case
  proof (cases "c = 0 \<or> c = 35")
    case True
    then show ?thesis using 1(2) a sa by (subst (asm) names_loop.simps) (auto split: if_splits)
  next
    case False
    then obtain rb hname isTerm d where b: "ReadUntil ra host_seps host_terms = Some (rb, hname, isTerm, d)"
      using 1(2) a by (subst (asm) names_loop.simps) (auto split: option.splits)
    have sb: "goes_on r rb" "goes_on r (SkipLine rb)" using token_advances [OF a _ b] False SkipLine_goes_on [of rb]
      by (auto dest: advances_goes_on goes_on_ok intro: goes_on_trans)
    obtain msg where m: "(if length hname > 0 then newMessage addr hname else Some None) = Some msg"
      using 1(2) a b False by (subst (asm) names_loop.simps) (auto split: option.splits)
    define msgs2 where "msgs2 = (case msg of None \<Rightarrow> msgs | Some msg \<Rightarrow> msgs @ [msg])"
    show ?thesis
    proof (cases isTerm)
      case True
      then show ?thesis using 1(2) a b m False sb
        by (subst (asm) names_loop.simps) (auto simp: Let_def split: if_splits)
    next
      case nt: False
      have "names_loop rb addr msgs2 = Some (r1, msgs1)"
        using 1(2) a b m False nt by (subst (asm) names_loop.simps) (simp add: msgs2_def)
      from 1(1) [OF a [symmetric] refl _ _ b refl refl refl m msgs2_def nt this goes_on_ok [OF sb(1)]] False sb(1) show ?thesis
        by (auto intro: goes_on_trans)
    qed
  qed
qed

function hosts_loop :: "Reader \<Rightarrow> Message list \<Rightarrow> Message list option" where
  "hosts_loop r msgs =
     (let (r, c) = SkipSpaces r in
      if c = 0 then Some msgs
      else if c = 35 then hosts_loop (SkipLine r) msgs
      else case ReadUntil r host_seps host_terms of
             None \<Rightarrow> None
           | Some (r, addr, isTerm, c) \<Rightarrow>
               if isTerm then
                 if c = 0 then Some msgs
                 else if c = 35 then hosts_loop (SkipLine r) msgs
                 else hosts_loop r msgs
               else case names_loop r addr msgs of
                      None \<Rightarrow> None
                    | Some (r, msgs) \<Rightarrow> hosts_loop r msgs)"
  by pat_completeness auto

lemma hosts_advances:
  assumes "SkipSpaces r = (r1, c)" "c \<noteq> 0"
  shows "advances r (SkipLine r1)"
    and "ReadUntil r1 seps terms = Some (r2, tok, isTerm, d) \<Longrightarrow> advances r (SkipLine r2)"
    and "ReadUntil r1 seps terms = Some (r2, tok, isTerm, d) \<Longrightarrow> names_loop r2 addr msgs = Some (r3, msgs3) \<Longrightarrow> advances r r3"
proof -
  have "goes_on r r1" "unread r1 \<noteq> []" using SkipSpaces_goes_on [OF assms(1) SkipSpaces_unread [OF assms]] assms(2) by auto
  then show "advances r (SkipLine r1)" using SkipLine_goes_on [OF goes_on_ok] advances_trans(2) by blast
  note t = token_advances [OF assms]
  show "ReadUntil r1 seps terms = Some (r2, tok, isTerm, d) \<Longrightarrow> advances r (SkipLine r2)"
    using t [THEN advances_trans(1)] t [THEN advances_goes_on, THEN goes_on_ok] SkipLine_goes_on by blast
  show "ReadUntil r1 seps terms = Some (r2, tok, isTerm, d) \<Longrightarrow> names_loop r2 addr msgs = Some (r3, msgs3) \<Longrightarrow> advances r r3"
    using t [THEN advances_trans(1)] t [THEN advances_goes_on, THEN goes_on_ok] names_loop_goes_on by blast
qed

termination hosts_loop
proof (relation "measure (\<lambda>(r, _). length (unread r))", goal_cases)
  case 1
  show ?case by simp
next
  case 2
  then show ?case by (auto dest!: hosts_advances(1) [OF sym] dest: advances_less)
next
  case 3
  then show ?case by (auto dest!: hosts_advances(2) [OF sym] dest: advances_less)
next
  case 4
  then show ?case by (auto dest!: token_advances [OF sym] dest: advances_less)
next
  case 5
  then show ?case by (auto dest!: hosts_advances(3) [OF sym] dest: advances_less)
qed

declare hosts_loop.simps [simp del]

definition hosts_parse :: "bytes \<Rightarrow> Message list option" where
  "hosts_parse content = hosts_loop \<lparr>rX = 0, rV = content\<rparr> []"

subsection \<open>Hosts files as lists of lines\<close>

text \<open>
  A comment line; and an address with its names, each after blanks, with an optional comment at the
  end. A line with names has no blanks before its line end.
\<close>

datatype host_line =
    HComment bytes bytes
  | HEntry bytes bytes "(bytes \<times> bytes) list" "(bytes \<times> bytes) option"

definition blanks :: "bytes \<Rightarrow> bool" where
  "blanks s \<longleftrightarrow> set s \<subseteq> set host_seps"

text \<open>What the parser takes for the space between two fields: a blank and then any white space.\<close>

definition gap :: "bytes \<Rightarrow> bool" where
  "gap s \<longleftrightarrow> s \<noteq> [] \<and> hd s \<in> set host_seps \<and> list_all IsSpace (tl s)"

definition host_token :: "bytes \<Rightarrow> bool" where
  "host_token t \<longleftrightarrow> t \<noteq> [] \<and> (\<forall>c \<in> set t. \<not> IsSpace c \<and> c \<noteq> 35 \<and> c \<noteq> 0)"

definition names_text :: "(bytes \<times> bytes) list \<Rightarrow> bytes" where
  "names_text ns = concat (map (\<lambda>(s, n). s @ n) ns)"

fun end_text :: "(bytes \<times> bytes) option \<Rightarrow> bytes" where
  "end_text None = [10]"
| "end_text (Some (s, c)) = s @ 35 # c @ [10]"

fun hline_text :: "host_line \<Rightarrow> bytes" where
  "hline_text (HComment ws c) = ws @ 35 # c @ [10]"
| "hline_text (HEntry ws a ns e) = ws @ a @ names_text ns @ end_text e"

fun end_ok :: "(bytes \<times> bytes) option \<Rightarrow> bool" where
  "end_ok None \<longleftrightarrow> True"
| "end_ok (Some (s, c)) \<longleftrightarrow> blanks s \<and> 10 \<notin> set c"

definition names_ok :: "bytes \<Rightarrow> (bytes \<times> bytes) list \<Rightarrow> bool" where
  "names_ok a ns \<longleftrightarrow> list_all (\<lambda>(s, n). gap s \<and> host_token n \<and> newMessage a n \<noteq> None) ns"

fun hline_ok :: "host_line \<Rightarrow> bool" where
  "hline_ok (HComment ws c) \<longleftrightarrow> list_all IsSpace ws \<and> 10 \<notin> set c"
| "hline_ok (HEntry ws a ns e) \<longleftrightarrow> list_all IsSpace ws \<and> host_token a \<and> ns \<noteq> [] \<and> names_ok a ns \<and> end_ok e"

definition entry_msgs :: "bytes \<Rightarrow> bytes list \<Rightarrow> Message list" where
  "entry_msgs a ns = concat (map (\<lambda>n. case newMessage a n of Some (Some m) \<Rightarrow> [m] | _ \<Rightarrow> []) ns)"

fun hline_msgs :: "host_line \<Rightarrow> Message list" where
  "hline_msgs (HComment ws c) = []"
| "hline_msgs (HEntry ws a ns e) = entry_msgs a (map snd ns)"

lemma blanks_spaces: "blanks s \<Longrightarrow> list_all IsSpace s"
  by (auto simp: blanks_def host_seps_def list_all_iff IsSpace_def)

lemma blanks_gap: "s \<noteq> [] \<Longrightarrow> blanks s \<Longrightarrow> gap s"
  by (cases s) (auto simp: blanks_def gap_def host_seps_def list_all_iff IsSpace_def)

lemma host_token_free: "host_token t \<Longrightarrow> set t \<inter> (set host_terms \<union> set host_seps) = {}"
  by (auto simp: host_token_def host_terms_def host_seps_def IsSpace_def)

lemma host_token_hd: "host_token t \<Longrightarrow> t \<noteq> [] \<and> \<not> IsSpace (hd t) \<and> hd t \<noteq> 35 \<and> hd t \<noteq> 0"
  by (cases t) (auto simp: host_token_def)

definition add_msg :: "Message list \<Rightarrow> Message option \<Rightarrow> Message list" where
  "add_msg msgs m = (case m of None \<Rightarrow> msgs | Some m \<Rightarrow> msgs @ [m])"

lemma names_loop_step:
  assumes "SkipSpaces r = (r1, c)" "c \<noteq> 0" "c \<noteq> 35" "ReadUntil r1 host_seps host_terms = Some (r2, h, isTerm, d)" "h \<noteq> []"
    "newMessage addr h = Some m"
  shows "names_loop r addr msgs =
    (if isTerm then Some (if d = 35 then SkipLine r2 else r2, add_msg msgs m) else names_loop r2 addr (add_msg msgs m))"
  using assms by (subst names_loop.simps) (simp add: add_msg_def Let_def)

lemma names_loop_comment: "SkipSpaces r = (r1, 35) \<Longrightarrow> names_loop r addr msgs = Some (SkipLine r1, msgs)"
  by (subst names_loop.simps) simp

lemma hosts_loop_step:
  assumes "SkipSpaces r = (r1, c)" "c \<noteq> 0" "c \<noteq> 35" "ReadUntil r1 host_seps host_terms = Some (r2, a, False, d)"
    "names_loop r2 a msgs = Some (r3, msgs3)"
  shows "hosts_loop r msgs = hosts_loop r3 msgs3"
  using assms by (subst hosts_loop.simps) simp

lemma hosts_loop_comment: "SkipSpaces r = (r1, 35) \<Longrightarrow> hosts_loop r msgs = hosts_loop (SkipLine r1) msgs"
  by (subst hosts_loop.simps) simp

lemma entry_msgs_Cons: "newMessage a n = Some m \<Longrightarrow> entry_msgs a (n # ns) = add_msg [] m @ entry_msgs a ns"
  by (simp add: entry_msgs_def add_msg_def split: option.splits)

lemma entry_msgs_Nil [simp]: "entry_msgs a [] = []"
  by (simp add: entry_msgs_def)

lemma add_msg_append: "add_msg msgs m = msgs @ add_msg [] m"
  by (simp add: add_msg_def split: option.splits)

lemma names_loop_at:
  assumes "list_all IsSpace ws" "host_token n" "names_ok a ns" "end_ok e" "newMessage a n \<noteq> None"
  shows "names_loop (rd_at pre (ws @ n @ names_text ns @ end_text e @ rest)) a msgs =
    Some (rd_at (pre @ ws @ n @ names_text ns @ end_text e) rest, msgs @ entry_msgs a (n # map snd ns))"
  using assms
proof (induction ns arbitrary: pre ws n msgs)
  case Nil
  obtain m where m: "newMessage a n = Some m" using Nil.prems(5) by auto
  note h = host_token_hd [OF Nil.prems(2)]
  let ?t = "n @ names_text [] @ end_text e @ rest"
  have sk: "SkipSpaces (rd_at pre (ws @ ?t)) = (rd_at (pre @ ws) ?t, hd n)"
    using h by (intro SkipSpaces_at [OF Nil.prems(1)]) auto
  have close: "names_loop (rd_at pre (ws @ ?t)) a msgs = Some (rd_at (pre @ ws @ n @ names_text [] @ end_text e) rest, msgs @ entry_msgs a [n])"
    if d: "end_text e @ rest = d # r2" "d = 10 \<or> d = 35"
      "(if d = 35 then SkipLine (rd_at ((pre @ ws) @ n @ [d]) r2) else rd_at ((pre @ ws) @ n @ [d]) r2) = rd_at (pre @ ws @ n @ end_text e) rest" for d r2
  proof -
    have "ReadUntil (rd_at (pre @ ws) (n @ d # r2)) host_seps host_terms = Some (rd_at ((pre @ ws) @ n @ [d]) r2, n, True, d)"
      using ReadUntil_at [OF host_token_free [OF Nil.prems(2)], of d "pre @ ws" r2] d(2) by (auto simp: host_terms_def)
    then have ru: "ReadUntil (rd_at (pre @ ws) ?t) host_seps host_terms = Some (rd_at ((pre @ ws) @ n @ [d]) r2, n, True, d)"
      using d(1) by (simp add: names_text_def)
    from names_loop_step [OF sk _ _ ru _ m, of msgs] h d(3) show ?thesis
      by (simp add: entry_msgs_Cons [OF m] add_msg_append [of msgs] names_text_def)
  qed
  show ?case
  proof (cases "e = None \<or> (\<exists>c. e = Some ([], c))")
    case True
    then show ?thesis
    proof
      assume "e = None"
      then show ?thesis using close [of 10 rest] by simp
    next
      assume "\<exists>c. e = Some ([], c)"
      then obtain c where "e = Some ([], c)" by blast
      then show ?thesis using close [of 35 "c @ 10 # rest"] Nil.prems(4) SkipLine_at [of c "(pre @ ws) @ n @ [35]" rest] by simp
    qed
  next
    case False
    then obtain b s c where e: "e = Some (b # s, c)" "b \<in> set host_seps" "blanks s" "10 \<notin> set c"
      using Nil.prems(4) by (cases e) (auto simp: blanks_def neq_Nil_conv)
    then have b: "b \<notin> set host_terms" by (auto simp: host_terms_def host_seps_def)
    have ru: "ReadUntil (rd_at (pre @ ws) ?t) host_seps host_terms =
        Some (rd_at ((pre @ ws) @ n @ [b]) (s @ 35 # c @ 10 # rest), n, False, b)"
      using ReadUntil_at [OF host_token_free [OF Nil.prems(2)], of b "pre @ ws" "s @ 35 # c @ 10 # rest"] e b
      by (simp add: names_text_def)
    have sk2: "SkipSpaces (rd_at ((pre @ ws) @ n @ [b]) (s @ 35 # c @ 10 # rest)) = (rd_at (((pre @ ws) @ n @ [b]) @ s) (35 # c @ 10 # rest), 35)"
      by (rule SkipSpaces_at [OF blanks_spaces [OF e(3)]]) (simp add: IsSpace_def)
    have sl: "SkipLine (rd_at (((pre @ ws) @ n @ [b]) @ s) (35 # c @ 10 # rest)) = rd_at ((((pre @ ws) @ n @ [b]) @ s) @ (35 # c) @ [10]) rest"
      using SkipLine_at [of "35 # c"] e(4) by simp
    have "names_loop (rd_at pre (ws @ ?t)) a msgs = names_loop (rd_at ((pre @ ws) @ n @ [b]) (s @ 35 # c @ 10 # rest)) a (add_msg msgs m)"
      using names_loop_step [OF sk _ _ ru _ m, of msgs] h by simp
    also have "\<dots> = Some (rd_at ((((pre @ ws) @ n @ [b]) @ s) @ (35 # c) @ [10]) rest, add_msg msgs m)"
      unfolding names_loop_comment [OF sk2] sl ..
    finally show ?thesis by (simp add: e entry_msgs_Cons [OF m] add_msg_append [of msgs] names_text_def)
  qed
next
  case (Cons p ns)
  obtain b s n2 where p: "p = (b # s, n2)" "b \<in> set host_seps" "list_all IsSpace s" "host_token n2" "newMessage a n2 \<noteq> None" "names_ok a ns"
    using Cons.prems(3) by (cases p) (auto simp: names_ok_def gap_def neq_Nil_conv)
  obtain m where m: "newMessage a n = Some m" using Cons.prems(5) by auto
  note h = host_token_hd [OF Cons.prems(2)]
  let ?u = "s @ n2 @ names_text ns @ end_text e @ rest"
  have eq: "n @ names_text (p # ns) @ end_text e @ rest = n @ b # ?u" by (simp add: p names_text_def)
  have sk: "SkipSpaces (rd_at pre (ws @ n @ b # ?u)) = (rd_at (pre @ ws) (n @ b # ?u), hd n)"
    using h by (intro SkipSpaces_at [OF Cons.prems(1)]) auto
  have "b \<notin> set host_terms" using p(2) by (auto simp: host_terms_def host_seps_def)
  then have ru: "ReadUntil (rd_at (pre @ ws) (n @ b # ?u)) host_seps host_terms = Some (rd_at ((pre @ ws) @ n @ [b]) ?u, n, False, b)"
    using ReadUntil_at [OF host_token_free [OF Cons.prems(2)], of b "pre @ ws" ?u] p(2) by simp
  define msgs2 where "msgs2 = add_msg msgs m"
  have "names_loop (rd_at pre (ws @ n @ b # ?u)) a msgs = names_loop (rd_at ((pre @ ws) @ n @ [b]) ?u) a msgs2"
    using names_loop_step [OF sk _ _ ru _ m, of msgs] h by (simp add: msgs2_def)
  also have "\<dots> = Some (rd_at (((pre @ ws) @ n @ [b]) @ s @ n2 @ names_text ns @ end_text e) rest, msgs2 @ entry_msgs a (n2 # map snd ns))"
    by (rule Cons.IH [OF p(3) p(4,6) Cons.prems(4) p(5)])
  also have "msgs2 @ entry_msgs a (n2 # map snd ns) = msgs @ entry_msgs a (n # map snd (p # ns))"
    by (simp add: msgs2_def p entry_msgs_Cons [OF m] add_msg_append [of msgs])
  finally show ?case unfolding eq by (simp add: p names_text_def)
qed

lemma hosts_loop_at:
  assumes "list_all hline_ok ls" "list_all IsSpace ws"
  shows "hosts_loop (rd_at pre (concat (map hline_text ls) @ ws)) msgs = Some (msgs @ concat (map hline_msgs ls))"
  using assms(1)
proof (induction ls arbitrary: pre msgs)
  case Nil
  have "SkipSpaces (rd_at pre ws) = (rd_at (pre @ ws) [], 0)" using SkipSpaces_at [OF assms(2), of "[]" 0 pre] by simp
  then show ?case by (subst hosts_loop.simps) simp
next
  case (Cons l ls)
  let ?r = "concat (map hline_text ls) @ ws"
  show ?case
  proof (cases l)
    case (HComment w c)
    have sk: "SkipSpaces (rd_at pre (w @ 35 # c @ 10 # ?r)) = (rd_at (pre @ w) (35 # c @ 10 # ?r), 35)"
      using Cons.prems HComment by (intro SkipSpaces_at) (auto simp: IsSpace_def)
    have sl: "SkipLine (rd_at (pre @ w) (35 # c @ 10 # ?r)) = rd_at ((pre @ w) @ (35 # c) @ [10]) ?r"
      using SkipLine_at [of "35 # c"] Cons.prems HComment by simp
    show ?thesis using Cons.IH [of "(pre @ w) @ (35 # c) @ [10]" msgs] Cons.prems HComment
        hosts_loop_comment [OF sk, of msgs] by (simp add: sl)
  next
    case (HEntry w a ns e)
    then obtain b s n ns2 where ns: "ns = (b # s, n) # ns2" "b \<in> set host_seps" "list_all IsSpace s" "host_token n" "newMessage a n \<noteq> None"
      "names_ok a ns2" "list_all IsSpace w" "host_token a" "end_ok e"
      using Cons.prems by (cases ns) (auto simp: names_ok_def gap_def neq_Nil_conv)
    note h = host_token_hd [OF ns(8)]
    let ?u = "s @ n @ names_text ns2 @ end_text e @ ?r"
    have sk: "SkipSpaces (rd_at pre (w @ a @ b # ?u)) = (rd_at (pre @ w) (a @ b # ?u), hd a)"
      using h by (intro SkipSpaces_at [OF ns(7)]) auto
    have "b \<notin> set host_terms" using ns(2) by (auto simp: host_terms_def host_seps_def)
    then have ru: "ReadUntil (rd_at (pre @ w) (a @ b # ?u)) host_seps host_terms = Some (rd_at ((pre @ w) @ a @ [b]) ?u, a, False, b)"
      using ReadUntil_at [OF host_token_free [OF ns(8)], of b "pre @ w" ?u] ns(2) by simp
    note nl = names_loop_at [OF ns(3) ns(4,6,9,5), of "(pre @ w) @ a @ [b]" ?r msgs]
    have "hosts_loop (rd_at pre (w @ a @ b # ?u)) msgs =
        hosts_loop (rd_at (((pre @ w) @ a @ [b]) @ s @ n @ names_text ns2 @ end_text e) ?r) (msgs @ entry_msgs a (n # map snd ns2))"
      using hosts_loop_step [OF sk _ _ ru nl] h by simp
    also have "\<dots> = Some ((msgs @ entry_msgs a (n # map snd ns2)) @ concat (map hline_msgs ls))"
      using Cons.prems by (intro Cons.IH) simp
    finally show ?thesis by (simp add: HEntry ns(1) names_text_def)
  qed
qed

end
