(* ===== verification/DnsPackFrame.thy ===== *)
theory DnsPackFrame
  imports DnsRoundtrip
begin

section \<open>What packing leaves unchanged\<close>

text \<open>
  \<open>Pack\<close> changes the names of the question and of the records to lower case and remembers where the
  times to live are; it changes nothing else of a message but its packet.
\<close>

lemma same_frame_refl [simp]: "same_frame m m"
  by (simp add: same_frame_def)

lemma same_frame_trans: "same_frame a b \<Longrightarrow> same_frame b c \<Longrightarrow> same_frame a c"
  by (simp add: same_frame_def)

lemma same_frame_update [simp]:
  "same_frame m (m1\<lparr>Packet := p\<rparr>) = same_frame m m1" "same_frame m (m1\<lparr>off := x\<rparr>) = same_frame m m1"
  "same_frame m (m1\<lparr>dnameOff := d\<rparr>) = same_frame m m1" "same_frame m (m1\<lparr>dname := n\<rparr>) = same_frame m m1"
  "same_frame (m\<lparr>Packet := p\<rparr>) m1 = same_frame m m1" "same_frame (m\<lparr>off := x\<rparr>) m1 = same_frame m m1"
  "same_frame (m\<lparr>dnameOff := d\<rparr>) m1 = same_frame m m1" "same_frame (m\<lparr>dname := n\<rparr>) m1 = same_frame m m1"
  by (simp_all add: same_frame_def)

lemma compress_frame: "compress msg = (msg1, ok) \<Longrightarrow> same_frame msg msg1"
  by (auto simp: compress_def split: option.splits)

lemma loop_frame: "packDomainName_loop doCompress nonempty cs msg count n = Some (msg1, k) \<Longrightarrow> same_frame msg msg1"
proof (induction doCompress nonempty cs msg count n rule: packDomainName_loop.induct)
  case (1 doCompress nonempty msg count n)
  then show ?case by (auto split: if_splits bind_splits)
next
  case (2 doCompress nonempty c rest msg count n)
  show ?case
  proof (cases "c = 92")
    case True
    show ?thesis
    proof (cases rest)
      case Nil
      with 2(6) True show ?thesis by simp
    next
      case (Cons d r)
      show ?thesis
      proof (cases "IsDigit d")
        case dig: True
        show ?thesis
        proof (cases "\<exists>d2 d3 r2. r = d2 # d3 # r2")
          case False
          then have "packDomainName_loop doCompress nonempty (c # rest) msg count n = Some (msg, n)"
            using True Cons dig by (auto split: list.splits)
          with 2(6) show ?thesis by simp
        next
          case r: True
          then obtain d2 d3 r2 where "r = d2 # d3 # r2" by blast
          with 2(1) [OF True Cons dig this refl refl refl] 2(6) True Cons dig show ?thesis by (simp add: Let_def)
        qed
      next
        case nd: False
        with 2(2) [OF True Cons nd] 2(6) True Cons show ?thesis by simp
      qed
    qed
  next
    case False
    show ?thesis
    proof (cases "c = 46 \<and> count \<noteq> 0")
      case True
      then obtain p where p: "upd (Packet msg) (unat (off msg)) count = Some p" using 2(6) False by (auto split: option.splits)
      define m where "m = msg\<lparr>Packet := p, dname := rest, off := off msg + ucast (count + 1)\<rparr>"
      obtain m2 ok where m2: "(if doCompress then compress m else (m, False)) = (m2, ok)" by fastforce
      have f: "same_frame msg m2"
        using m2 compress_frame [of m m2 ok] same_frame_trans [of msg m m2] by (auto simp: m_def split: if_splits)
      have "packDomainName_loop doCompress nonempty (c # rest) msg count n =
        (if ok then Some (m2, n + unat (count + 1) + 2)
         else let m3 = m2\<lparr>Packet := Packet m2 @ [0], dnameOff := (dnameOff m2)(dname m2 \<mapsto> off m2)\<rparr>
              in if rest = [] then Some (m3, n + unat (count + 1)) else packDomainName_loop doCompress nonempty rest m3 0 (n + unat (count + 1)))"
        unfolding packDomainName_loop.simps(2) using True False
        by (simp only: p option.case Let_def m_def [symmetric] m2 prod.case simp_thms if_True if_False)
      with 2(6) f 2(4) [OF False _ _ p m_def refl refl m2 [symmetric] _ refl] True show ?thesis
        by (auto simp: Let_def split: if_splits intro: same_frame_trans)
    next
      case nc: False
      with False 2 show ?thesis by (auto split: if_splits)
    qed
  qed
qed

lemma packDomainName_frame: "packDomainName msg name c = Some (msg1, n) \<Longrightarrow> same_frame msg msg1"
proof -
  assume a: "packDomainName msg name c = Some (msg1, n)"
  obtain m2 ok where m2: "(if c then compress (msg\<lparr>dname := ToLower name\<rparr>) else (msg\<lparr>dname := ToLower name\<rparr>, False)) = (m2, ok)"
    by fastforce
  have f: "same_frame msg m2"
    using m2 compress_frame [of "msg\<lparr>dname := ToLower name\<rparr>" m2 ok] by (auto split: if_splits)
  have "packDomainName msg name c =
    (if ok then Some (m2, 2)
     else packDomainName_loop c (length (ToLower name) > 0) (ToLower name)
       (m2\<lparr>Packet := Packet m2 @ [0], dnameOff := (dnameOff m2)(dname m2 \<mapsto> off m2)\<rparr>) 0 0)"
    using m2 by (simp add: packDomainName_def Let_def)
  with a f show ?thesis using same_frame_trans [OF f] loop_frame by (fastforce split: if_splits)
qed

lemma write16_frame: "write16 msg at v = Some msg1 \<Longrightarrow> same_frame msg msg1"
  by (auto simp: write16_def split: bind_splits)

lemma append16_frame [simp]: "same_frame m (append16 m1 v) = same_frame m m1" "same_frame (append16 m v) m1 = same_frame m m1"
  by (simp_all add: append16_def)

definition same_head :: "ResourceRecord \<Rightarrow> ResourceRecord \<Rightarrow> bool" where
  "same_head a b \<longleftrightarrow> Name a = Name b \<and> RType a = RType b \<and> Class a = Class b \<and> TTL a = TTL b"

definition keeps :: "Message \<Rightarrow> ResourceRecord \<Rightarrow> pack_result \<Rightarrow> bool" where
  "keeps msg rr res \<longleftrightarrow> (\<forall>msg1 rr1. res = Some (msg1, rr1) \<longrightarrow> same_frame msg msg1 \<and> same_head rr rr1 \<and> offTTL rr1 = offTTL rr)"

lemma packs_bind: "(\<And>x. v = Some x \<Longrightarrow> keeps msg rr (f x)) \<Longrightarrow> keeps msg rr (v \<bind> f)"
  by (cases v) (auto simp: keeps_def)

lemma keeps_name:
  assumes "same_frame msg m0" "\<And>m n. same_frame msg m \<Longrightarrow> keeps msg rr (f m n)"
  shows "keeps msg rr (packDomainName m0 v c \<bind> (\<lambda>(m, n). f m n))"
  using assms packDomainName_frame same_frame_trans by (intro packs_bind) (auto split: prod.splits)

lemma keeps_write:
  assumes "same_frame msg m0" "\<And>m. same_frame msg m \<Longrightarrow> keeps msg rr (f m)"
  shows "keeps msg rr (write16 m0 at v \<bind> f)"
  using assms write16_frame same_frame_trans by (intro packs_bind) blast

lemma keeps_Some: "same_frame msg m \<Longrightarrow> same_head rr r \<Longrightarrow> offTTL r = offTTL rr \<Longrightarrow> keeps msg rr (Some (m, r))"
  by (simp add: keeps_def)

lemma same_head_simps [simp]: "same_head rr rr" "same_head rr (rr\<lparr>Text := t\<rparr>)" "same_head rr (rr\<lparr>SOA := s\<rparr>)"
  "same_head rr (rr\<lparr>MX := mx\<rparr>)" "same_head rr (rr\<lparr>MInfo := mi\<rparr>)" "same_head rr (rr\<lparr>SRV := sv\<rparr>)"
  by (simp_all add: same_head_def)

lemma keeps_simple: "keeps msg rr (packA msg rr)" "keeps msg rr (packWKS msg rr)" "keeps msg rr (packHINFO msg rr)"
  "keeps msg rr (packTXT msg rr)" "keeps msg rr (packAAAA msg rr)"
  unfolding packA_def packWKS_def packHINFO_def packTXT_def packAAAA_def Let_def by (intro packs_bind keeps_Some; simp)+

lemma keeps_names: "keeps msg rr (packTextAsDomain msg rr)" "keeps msg rr (packMX msg rr)" "keeps msg rr (packSRV msg rr)"
  "keeps msg rr (packSOA msg rr)" "keeps msg rr (packMINFO msg rr)"
  unfolding packTextAsDomain_def packMX_def packSRV_def packSOA_def packMINFO_def Let_def
  by (rule packs_bind; intro keeps_name keeps_write keeps_Some; simp)+

lemma keeps_OPT: "keeps msg rr (packOPT msg rr)"
  unfolding packOPT_def Let_def
proof (rule packs_bind)
  fix opt
  show "keeps msg rr (if OptLength opt = 0 then Some (append16 msg 0, rr)
    else subslice (OptData opt) 0 (unat (OptLength opt)) \<bind> (\<lambda>d.
      write16 (append16 msg 0\<lparr>Packet := AppendUint16 (AppendUint16 (Packet (append16 msg 0)) (OptCode opt))
        (if OptLength opt < 512 then 512 else OptLength opt) @ d\<rparr>) (off msg) (4 + OptLength opt) \<bind>
      (\<lambda>msg. Some (msg\<lparr>off := off msg + (4 + OptLength opt)\<rparr>, rr))))"
    by (cases "OptLength opt = 0") (auto intro!: keeps_write keeps_Some intro: packs_bind)
qed

lemma keeps_if: "keeps msg rr a \<Longrightarrow> keeps msg rr b \<Longrightarrow> keeps msg rr (if c then a else b)"
  by simp

lemma packRData_keeps: "keeps msg rr (packRData msg rr)"
  unfolding packRData_def Let_def by (intro keeps_if keeps_simple keeps_names keeps_OPT keeps_Some; simp)

text \<open>The head of a record after packing.\<close>

lemma packRR_keeps:
  assumes "packRR msg rr = Some (msg1, rr1)" "RType rr \<noteq> QueryTypeOPT"
  shows "same_frame msg msg1 \<and> same_head (rr\<lparr>Name := ToLower (Name rr)\<rparr>) rr1"
proof -
  obtain m n where m: "packDomainName msg (Name rr) True = Some (m, n)" using assms by (auto simp: packRR_def bind_eq_Some_conv)
  define m1 where "m1 = m\<lparr>Packet := AppendUint32 (AppendUint16 (AppendUint16 (Packet m) (RType rr)) (Class rr)) (TTL rr), off := off m + 8\<rparr>"
  define rr2 where "rr2 = rr\<lparr>Name := ToLower (Name rr), offTTL := unat (off m + 4)\<rparr>"
  have "packRData m1 rr2 = Some (msg1, rr1)"
    using assms m by (simp add: packRR_def m1_def rr2_def Let_def add.assoc)
  with packRData_keeps [of m1 rr2] have "same_frame m1 msg1" "same_head rr2 rr1" by (auto simp: keeps_def)
  with packDomainName_frame [OF m] show ?thesis by (auto simp: m1_def rr2_def same_head_def intro: same_frame_trans)
qed

lemma packRRs_keeps:
  "packRRs msg rrs = Some (msg1, rrs1) \<Longrightarrow> \<forall>rr \<in> set rrs. RType rr \<noteq> QueryTypeOPT \<Longrightarrow>
     same_frame msg msg1 \<and> list_all2 (\<lambda>rr. same_head (rr\<lparr>Name := ToLower (Name rr)\<rparr>)) rrs rrs1"
proof (induction rrs arbitrary: msg msg1 rrs1)
  case (Cons rr rrs)
  from Cons.prems(1) obtain m a b where "packRR msg rr = Some (m, a)" "packRRs m rrs = Some (msg1, b)" "rrs1 = a # b"
    by (auto simp: bind_eq_Some_conv)
  with Cons.IH [of m msg1 b] packRR_keeps [of msg rr m a] Cons.prems(2) show ?case by (auto intro: same_frame_trans)
qed simp

lemma Pack_keeps:
  assumes "Pack msg = Some (msg1, p)" "\<forall>rr \<in> set (Answer msg @ Authority msg @ Additional msg). RType rr \<noteq> QueryTypeOPT"
    "\<not> IsQuery (Header msg)"
  shows "Packet msg1 = p" "Question msg1 = lower_question (Question msg)"
    "list_all2 (\<lambda>rr. same_head (rr\<lparr>Name := ToLower (Name rr)\<rparr>)) (Answer msg) (Answer msg1)"
    "list_all2 (\<lambda>rr. same_head (rr\<lparr>Name := ToLower (Name rr)\<rparr>)) (Authority msg) (Authority msg1)"
proof -
  define m0 where "m0 = msg\<lparr>dnameOff := Map.empty, Header := counts msg, Packet := header_pack (counts msg), off := of_nat sectionHeaderSize\<rparr>"
  obtain mq n where q: "packDomainName m0 (QName (Question msg)) False = Some (mq, n)"
    using assms by (auto simp: Pack_def packQuestion_def bind_eq_Some_conv m0_def counts_def Let_def)
  define m1 where "m1 = mq\<lparr>Question := (Question mq)\<lparr>QName := ToLower (QName (Question mq))\<rparr>,
     Packet := AppendUint16 (AppendUint16 (Packet mq) (QType (Question mq))) (QClass (Question mq)), off := off mq + 4\<rparr>"
  have f0: "same_frame m0 mq" by (rule packDomainName_frame [OF q])
  have pq: "packQuestion m0 = Some m1" using q f0 by (simp add: packQuestion_def m1_def m0_def same_frame_def)
  have h1: "Header m1 = counts msg" "Question m1 = lower_question (Question msg)" "Answer m1 = Answer msg"
    "Authority m1 = Authority msg" "Additional m1 = Additional msg"
    using f0 by (simp_all add: m1_def m0_def same_frame_def lower_question_def)
  have nq: "\<not> IsQuery (counts msg)" using assms(3) by (simp add: counts_def)
  have e: "Pack msg = do { (a, an) \<leftarrow> packRRs m1 (Answer m1); (b, ns) \<leftarrow> packRRs (a\<lparr>Answer := an\<rparr>) (Authority (a\<lparr>Answer := an\<rparr>));
      (c, ar) \<leftarrow> packRRs (b\<lparr>Authority := ns\<rparr>) (Additional (b\<lparr>Authority := ns\<rparr>));
      Some (c\<lparr>Additional := ar, dnameOff := Map.empty\<rparr>, Packet c) }"
    using pq nq h1(1) by (simp add: Pack_def m0_def counts_def Let_def)
  from assms(1) [unfolded e] obtain a an b ns c ar where
    a: "packRRs m1 (Answer m1) = Some (a, an)" and b: "packRRs (a\<lparr>Answer := an\<rparr>) (Authority a) = Some (b, ns)" and
    c: "packRRs (b\<lparr>Authority := ns\<rparr>) (Additional b) = Some (c, ar)" and
    r: "msg1 = c\<lparr>Additional := ar, dnameOff := Map.empty\<rparr>" "p = Packet c"
    by (auto simp: bind_eq_Some_conv)
  have fa: "same_frame m1 a" "list_all2 (\<lambda>rr. same_head (rr\<lparr>Name := ToLower (Name rr)\<rparr>)) (Answer msg) an"
    using packRRs_keeps [OF a] assms(2) h1 by auto
  then have ha: "Authority a = Authority msg" "Additional a = Additional msg" "Question a = lower_question (Question msg)"
    using h1 by (simp_all add: same_frame_def)
  have fb: "same_frame (a\<lparr>Answer := an\<rparr>) b" "list_all2 (\<lambda>rr. same_head (rr\<lparr>Name := ToLower (Name rr)\<rparr>)) (Authority msg) ns"
    using packRRs_keeps [OF b] assms(2) ha by auto
  then have hb: "Answer b = an" "Additional b = Additional msg" "Question b = lower_question (Question msg)"
    using ha by (simp_all add: same_frame_def)
  have fc: "same_frame (b\<lparr>Authority := ns\<rparr>) c" using packRRs_keeps [OF c] assms(2) hb by auto
  then have hc: "Answer c = an" "Authority c = ns" "Question c = lower_question (Question msg)" using hb by (simp_all add: same_frame_def)
  show "Packet msg1 = p" "Question msg1 = lower_question (Question msg)" using r hc by simp_all
  show "list_all2 (\<lambda>rr. same_head (rr\<lparr>Name := ToLower (Name rr)\<rparr>)) (Answer msg) (Answer msg1)"
    "list_all2 (\<lambda>rr. same_head (rr\<lparr>Name := ToLower (Name rr)\<rparr>)) (Authority msg) (Authority msg1)"
    using r hc fa(2) fb(2) by simp_all
qed

end
