(* ===== verification/DnsLocal.thy ===== *)
theory DnsLocal
  imports DnsServer DnsPackFrame
begin

section \<open>Messages from files in the cache of the server\<close>

text \<open>
  The messages of hosts files and zone files are added to the cache as local answers, which do not
  age. A request for one of them is answered with the packet of the message, in which only the
  identifier is replaced.
\<close>

definition all_local :: "Server \<Rightarrow> bool" where
  "all_local srv \<longleftrightarrow> (\<forall>n t k an. cache_lookup (caches srv) n t k = Some an \<longrightarrow> receivedAt an = 0)"

lemma populate_local:
  assumes "srv_inv srv" "all_local srv" "0 \<le> now"
  shows "\<exists>srv1 m. populateCaches now srv msgs n = Some (srv1, m) \<and> srv_inv srv1 \<and> all_local srv1 \<and> out srv1 = out srv \<and>
    cache_map (caches srv1) q = (case map_of (rev (map (\<lambda>m. (message_question m, m)) msgs)) q of
      Some m \<Rightarrow> Some m | None \<Rightarrow> cache_map (caches srv) q)"
  using assms(1,2)
proof (induction msgs arbitrary: srv n)
  case (Cons msg msgs)
  have inv: "cache_inv (caches srv)" using Cons.prems by (simp add: srv_inv_def)
  from cache_message_ok [OF inv, of now msg True] obtain d ins where
    d: "cache_message now (caches srv) msg True = Some (d, ins)"
      "\<And>n t k. cache_lookup d n t k =
        (if (n, t, k) = message_question msg then Some (stored now (caches srv) msg True) else cache_lookup (caches srv) n t k)"
    by blast
  from srv_inv_message [OF Cons.prems(1), of True msg now "out srv"] assms(3) d(1) have inv1: "srv_inv (srv\<lparr>caches := d\<rparr>)" by auto
  have "receivedAt (stored now (caches srv) msg True) = 0"
    using Cons.prems(2) by (auto simp: stored_def newAnswer_def all_local_def refreshed_def Let_def split: option.splits)
  then have loc: "all_local (srv\<lparr>caches := d\<rparr>)" using Cons.prems(2) d(2) by (auto simp: all_local_def split: if_splits)
  from Cons.IH [OF inv1 loc] d(1) message_map [OF inv d(1), of q] show ?case
    by (auto simp: map_add_def split: option.splits)
qed simp

lemma local_served:
  assumes "srv_inv srv" "all_local srv" "isImplemented (message req)"
    "cache_map (caches srv) (message_question (message req)) = Some m" "\<not> IsExpired m" "length (Packet m) > 2"
  shows "\<exists>srv1 p. processRequest now srv req = Some srv1 \<and> out srv1 = out srv @ [(writer req, p)] \<and>
    ReadUint16 p 0 = Some (ID (Header (message req))) \<and> drop 2 p = drop 2 (Packet m)"
proof -
  let ?q = "Question (message req)" and ?c = "caches srv"
  have inv: "cache_inv ?c" using assms(1) by (simp add: srv_inv_def)
  obtain an where an: "cache_lookup ?c (QName ?q) (QType ?q) (QClass ?q) = Some an" "an_msg an = Some m"
    using assms(4) by (auto simp: cache_map_def message_question_def split: option.splits)
  have r0: "receivedAt an = 0" using assms(2) an(1) by (auto simp: all_local_def)
  from caches_get_ok [OF inv, of now "QName ?q" "QType ?q" "QClass ?q"] an(1) r0 obtain c ans a where
    g: "caches_get now ?c (QName ?q) (QType ?q) (QClass ?q) = Some (c, ans, Some a)" "ans \<noteq> None" "live c a an" by auto
  obtain m1 where m1: "SetID m (ID (Header (message req))) = Some m1" "length (Packet m1) = length (Packet m)"
    "ReadUint16 (Packet m1) 0 = Some (ID (Header (message req)))" "\<forall>j \<ge> 2. Packet m1 ! j = Packet m ! j"
    using SetID_ok [of m "ID (Header (message req))"] assms(6) by blast
  have "processRequest now srv req =
      Some (srv_write (srv\<lparr>caches := c\<lparr>heap := (heap c)(a \<mapsto> an\<lparr>an_msg := Some m1\<rparr>)\<rparr>\<rparr>) (writer req) (Packet m1))"
    using assms(3,5) g an(2) m1(1) r0 by (auto simp: processRequest_def request_get_def request_answer_def live_def Let_def updateTTL_def)
  moreover have "drop 2 (Packet m1) = drop 2 (Packet m)" using m1(2,4) by (intro nth_equalityI) simp_all
  ultimately show ?thesis using m1(3) by (simp add: srv_write_def)
qed

lemma new_server_local: "all_local (NewServer delay threshold)" "cache_map (caches (NewServer delay threshold)) q = None"
  by (cases q; simp add: all_local_def NewServer_def newCaches_def cache_lookup_def cache_map_def)+

end
