(* ===== verification/DnsHostsProps.thy ===== *)
theory DnsHostsProps
  imports DnsHosts DnsLocal
begin

section \<open>Hosts files: from the text to the answer\<close>

text \<open>
  A hosts file in the usual form is read completely, and the server that loads it answers a request
  for one of its names with the address that the file gives.
\<close>

subsection \<open>Names and addresses\<close>

definition host_name_ok :: "bytes \<Rightarrow> bool" where
  "host_name_ok n \<longleftrightarrow> host n \<and> IsHostnameValid n False \<and> length n \<le> 255"

fun hline_wf :: "host_line \<Rightarrow> bool" where
  "hline_wf (HComment ws c) \<longleftrightarrow> list_all IsSpace ws \<and> 10 \<notin> set c"
| "hline_wf (HEntry ws a ns e) \<longleftrightarrow> list_all IsSpace ws \<and> (\<exists>ip. length ip = 4 \<and> a = IP_String ip) \<and> ns \<noteq> [] \<and>
     list_all (\<lambda>(s, n). s \<noteq> [] \<and> blanks s \<and> host_name_ok n) ns \<and> end_ok e"

fun hline_entries :: "host_line \<Rightarrow> (bytes \<times> bytes) list" where
  "hline_entries (HComment ws c) = []"
| "hline_entries (HEntry ws a ns e) = map (\<lambda>(s, n). (ToLower n, a)) ns"

lemma IP_String_form:
  assumes "length ip = 4"
  shows "\<exists>a b c d. IP_String ip = NetIP.decimal a @ [46] @ NetIP.decimal b @ [46] @ NetIP.decimal c @ [46] @ NetIP.decimal d"
proof -
  obtain a b c d where "ip = [a, b, c, d]" using assms by (auto simp: length_Suc_conv eval_nat_numeral)
  then show ?thesis by (auto simp: IP_String_def To4_def)
qed

lemma decimal_digits: "list_all IsDigit (NetIP.decimal b)"
proof -
  have d: "unat b div 100 < 10" "unat b div 10 mod 10 < 10" "unat b mod 10 < 10" using unat_byte_less [of b] by auto
  show ?thesis using digit_props(1,2) [OF d(1)] digit_props(1,2) [OF d(2)] digit_props(1,2) [OF d(3)]
    by (simp add: NetIP.decimal_def Let_def IsDigit_def del: of_nat_add)
qed

lemma IsDigit_token: "IsDigit c \<Longrightarrow> \<not> IsSpace c \<and> c \<noteq> 35 \<and> c \<noteq> 0 \<and> c \<noteq> 58"
  by (auto simp: IsDigit_def IsSpace_def word_le_nat_alt)

lemma IP_String_token:
  assumes "length ip = 4"
  shows "host_token (IP_String ip)" "host_type (IP_String ip) = QueryTypeA"
proof -
  obtain a b c d where e: "IP_String ip = NetIP.decimal a @ [46] @ NetIP.decimal b @ [46] @ NetIP.decimal c @ [46] @ NetIP.decimal d"
    using IP_String_form [OF assms] by blast
  have "\<forall>x \<in> set (IP_String ip). IsDigit x \<or> x = 46"
    using decimal_digits [of a] decimal_digits [of b] decimal_digits [of c] decimal_digits [of d] by (auto simp: e list_all_iff)
  moreover have "\<not> IsSpace 46" by (simp add: IsSpace_def)
  ultimately have "\<forall>x \<in> set (IP_String ip). \<not> IsSpace x \<and> x \<noteq> 35 \<and> x \<noteq> 0 \<and> x \<noteq> 58" using IsDigit_token by fastforce
  then show "host_token (IP_String ip)" "host_type (IP_String ip) = QueryTypeA"
    by (auto simp: host_token_def host_type_def e)
qed

lemma hostname_loop_chars: "hostname_loop n cs = Some m \<Longrightarrow> \<forall>c \<in> set cs. c = 46 \<or> c = 45 \<or> c = 95 \<or> IsAlnum c"
  by (induction n cs rule: hostname_loop.induct) (auto split: if_splits)

lemma IsAlnum_token: "IsAlnum c \<Longrightarrow> \<not> IsSpace c \<and> c \<noteq> 35 \<and> c \<noteq> 0"
  by (auto simp: IsAlnum_def IsAlpha_def IsDigit_def IsSpace_def word_le_nat_alt)

lemma valid_token:
  assumes "IsHostnameValid n f"
  shows "host_token n"
proof -
  have ne: "n \<noteq> []" using assms by (auto simp: IsHostnameValid_def)
  then obtain c cs where n: "n = c # cs" by (cases n) auto
  have c: "IsAlnum c \<or> c = 95" using assms n by (auto simp: IsHostnameValid_def Let_def split: if_splits)
  have "\<forall>x \<in> set cs. x = 46 \<or> x = 45 \<or> x = 95 \<or> IsAlnum x"
  proof (cases "cs = []")
    case False
    then have cs: "take (length n - 2) (drop 1 n) = butlast cs" "n ! (length n - 1) = last cs"
      by (simp_all add: n last_conv_nth nth_Cons' butlast_conv_take)
    have cs3: "cs = butlast cs @ [last cs]" using False by simp
    have "IsAlnum (last cs)" using assms cs(2) by (auto simp: IsHostnameValid_def Let_def split: if_splits)
    moreover have "\<forall>x \<in> set (butlast cs). x = 46 \<or> x = 45 \<or> x = 95 \<or> IsAlnum x"
      using assms hostname_loop_chars unfolding cs(1) [symmetric]
      by (auto simp: IsHostnameValid_def Let_def split: if_splits option.splits)
    ultimately have "x = 46 \<or> x = 45 \<or> x = 95 \<or> IsAlnum x" if "x \<in> set (butlast cs @ [last cs])" for x
      using that unfolding set_append by (metis Un_iff empty_iff empty_set set_ConsD)
    then show ?thesis unfolding cs3 [symmetric] by blast
  qed simp
  then have "\<forall>x \<in> set n. x = 46 \<or> x = 45 \<or> x = 95 \<or> IsAlnum x" using c n by auto
  moreover have "\<not> IsSpace x \<and> x \<noteq> 35 \<and> x \<noteq> 0" if "x = 46 \<or> x = 45 \<or> x = 95 \<or> IsAlnum x" for x
    using that IsAlnum_token [of x] by (elim disjE) (simp_all add: IsSpace_def)
  ultimately show ?thesis unfolding host_token_def using ne by blast
qed

subsection \<open>The messages\<close>

text \<open>What the message for a name and an address is in the cache and on the wire.\<close>

definition answers_with :: "Message \<Rightarrow> bytes \<Rightarrow> bytes \<Rightarrow> bool" where
  "answers_with m n a \<longleftrightarrow> message_question m = (ToLower n, QueryTypeA, QueryClassIN) \<and> \<not> IsExpired m \<and> length (Packet m) > 2 \<and>
     (\<exists>u rr. message_Unpack ((message_Reset NewMessage)\<lparr>Packet := Packet m\<rparr>) = Some (u, None) \<and> IsAA (Header u) \<and>
        Answer u = [rr] \<and> Name rr = ToLower n \<and> RType rr = QueryTypeA \<and> TTL rr = defaultTTL \<and> Text rr = Some a)"

lemma host_message_wf:
  assumes "length ip = 4" "host_name_ok n"
  shows "wf_message (host_message (IP_String ip) n)"
proof -
  have "host (ToLower n)" using assms(2) by (auto simp: host_name_ok_def host_def)
  then show ?thesis
    using assms IP_String_token(2) [OF assms(1)]
    by (auto simp: wf_message_def host_message_def Let_def wf_rr_def wf_rdata_def message_size_def rr_size_def rdata_size_def host_name_ok_def)
qed

lemma newMessage_good:
  assumes "length ip = 4" "host_name_ok n"
  shows "\<exists>m. newMessage (IP_String ip) n = Some (Some m) \<and> answers_with m n (IP_String ip)"
proof -
  let ?h = "host_message (IP_String ip) n"
  note t = IP_String_token(2) [OF assms(1)]
  from message_wire [OF host_message_wf [OF assms], of NewMessage] obtain m p u where
    m: "Pack ?h = Some (m, p)" and u: "message_Unpack ((message_Reset NewMessage)\<lparr>Packet := p\<rparr>) = Some (u, None)"
      "Header u = sent_header ?h" "list_all2 (\<lambda>rr. same_rr (lower_rr rr)) (Answer ?h) (Answer u)" by blast
  have "\<forall>rr \<in> set (Answer ?h @ Authority ?h @ Additional ?h). RType rr \<noteq> QueryTypeOPT" "\<not> IsQuery (Header ?h)"
    using t by (auto simp: host_message_def Let_def query_types)
  note k = Pack_keeps [OF m this]
  have "message_question m = (ToLower n, QueryTypeA, QueryClassIN)"
    using k(2) t by (simp add: message_question_def lower_question_def host_message_def Let_def)
  moreover have "\<not> IsExpired m"
    using k(3) by (auto simp: IsExpired_def host_message_def Let_def list_all2_Cons1 same_head_def defaultTTL_def)
  moreover obtain rr where rr: "Answer u = [rr]" "Name rr = ToLower n" "RType rr = QueryTypeA" "TTL rr = defaultTTL" "Text rr = Some (IP_String ip)"
    using u(3) t by (auto simp: host_message_def Let_def list_all2_Cons1 same_rr_def lower_rr_def RData_def dest!: map_option_eq_Some [THEN iffD1, OF sym])
  moreover have "IsAA (Header u)" using u(2) by (simp add: sent_header_def host_message_def Let_def)
  moreover have "length (Packet m) > 2"
  proof -
    obtain ls b where "p = header_pack (counts ?h) @ wire ls @ AppendUint16 [] (QType (Question ?h)) @ b"
      using Pack_wf [OF host_message_wf [OF assms]] m by (metis append_assoc option.inject prod.inject)
    then show ?thesis using k(1) by simp
  qed
  moreover have "newMessage (IP_String ip) n = Some (Some m)"
    using assms parse_print_IPv4(1) [OF assms(1)] m by (simp add: newMessage_def host_name_ok_def)
  ultimately show ?thesis using u(1) k(1) unfolding answers_with_def by blast
qed

lemma hline_good:
  assumes "hline_wf l"
  shows "hline_ok l" "list_all2 (\<lambda>(n, a) m. answers_with m n a \<and> message_question m = (n, QueryTypeA, QueryClassIN)) (hline_entries l) (hline_msgs l)"
proof -
  show "hline_ok l"
    using assms newMessage_good IP_String_token(1) valid_token blanks_gap
    by (cases l) (fastforce simp: names_ok_def host_name_ok_def list_all_iff)+
  show "list_all2 (\<lambda>(n, a) m. answers_with m n a \<and> message_question m = (n, QueryTypeA, QueryClassIN)) (hline_entries l) (hline_msgs l)"
  proof (cases l)
    case (HEntry ws a ns e)
    with assms obtain ip where ip: "length ip = 4" "a = IP_String ip" by auto
    have "list_all (\<lambda>(s, n). host_name_ok n) ns" using assms HEntry by (auto simp: list_all_iff)
    then have "list_all2 (\<lambda>(n, a) m. answers_with m n a \<and> message_question m = (n, QueryTypeA, QueryClassIN))
        (map (\<lambda>(s, n). (ToLower n, a)) ns) (entry_msgs a (map snd ns))"
    proof (induction ns)
      case (Cons p ns)
      obtain s n where p: "p = (s, n)" by fastforce
      from newMessage_good [OF ip(1), of n] Cons.prems obtain m where
        m: "newMessage a n = Some (Some m)" "answers_with m n a" by (auto simp: p ip(2))
      then show ?case using Cons by (simp add: p entry_msgs_Cons add_msg_def answers_with_def)
    qed simp
    then show ?thesis by (simp add: HEntry)
  qed simp
qed

text \<open>The last entry for a name determines the message that the cache has for it.\<close>

lemma last_entry:
  assumes "list_all2 (\<lambda>(n, a) m. answers_with m n a \<and> message_question m = (n, QueryTypeA, QueryClassIN)) es msgs"
    "map_of (rev es) n = Some a"
  shows "\<exists>m. map_of (rev (map (\<lambda>m. (message_question m, m)) msgs)) (n, QueryTypeA, QueryClassIN) = Some m \<and> answers_with m n a"
  using assms
proof (induction es msgs rule: list_all2_induct)
  case (Cons e es m msgs)
  obtain n1 a1 where e: "e = (n1, a1)" by fastforce
  have none: "map_of (rev es) n = None \<Longrightarrow> map_of (rev (map (\<lambda>m. (message_question m, m)) msgs)) (n, QueryTypeA, QueryClassIN) = None"
    using Cons.hyps(2)
  proof (induction es msgs rule: list_all2_induct)
    case (Cons e es m msgs)
    then show ?case by (auto simp: map_add_None split: if_splits)
  qed simp
  show ?case
  proof (cases "map_of (rev es) n")
    case None
    with Cons.prems have "n1 = n" "a1 = a" by (auto simp: e map_add_def split: if_splits)
    with none [OF None] Cons.hyps(1) show ?thesis by (auto simp: e map_add_def)
  next
    case (Some b)
    with Cons.prems have "map_of (rev es) n = Some a" by (simp add: e map_add_def split: if_splits)
    with Cons.IH show ?thesis by (auto simp: map_add_def)
  qed
qed simp

text \<open>
  C28: A hosts file is served. For every hosts file whose lines are comments or IPv4 addresses with
  their host names, where the names are valid and have at most 255 bytes, blanks stand before every
  name, and a line has no blank at its end unless a comment follows: parsing succeeds, and a new server
  that loads the messages answers a request for the address of any of the names at once, with the
  identifier of the request and otherwise the packed message of the file. That packet is an
  authoritative answer with one record: the name in lower case, and the address of the last line that
  has this name, in lower or upper case.
\<close>

theorem hosts_file_served:
  assumes "list_all hline_wf ls" "list_all IsSpace ws" "0 \<le> now"
    "Question (message req) = \<lparr>QName = name, QType = QueryTypeA, QClass = QueryClassIN\<rparr>"
    "map_of (rev (concat (map hline_entries ls))) name = Some addr"
  shows "\<exists>msgs srv k srv1 p packet u rr. hosts_parse (concat (map hline_text ls) @ ws) = Some msgs \<and>
    populateCaches now (NewServer delay threshold) msgs 0 = Some (srv, k) \<and> processRequest now1 srv req = Some srv1 \<and>
    out srv1 = [(writer req, p)] \<and> ReadUint16 p 0 = Some (ID (Header (message req))) \<and> drop 2 p = drop 2 packet \<and>
    message_Unpack ((message_Reset NewMessage)\<lparr>Packet := packet\<rparr>) = Some (u, None) \<and> IsAA (Header u) \<and> Answer u = [rr] \<and>
    Name rr = name \<and> RType rr = QueryTypeA \<and> TTL rr = defaultTTL \<and> Text rr = Some addr"
proof -
  let ?msgs = "concat (map hline_msgs ls)" and ?q = "(name, QueryTypeA, QueryClassIN)"
  have parse: "hosts_parse (concat (map hline_text ls) @ ws) = Some ?msgs"
    using hosts_loop_at [OF _ assms(2), of ls "[]" "[]"] assms(1) hline_good(1) by (simp add: hosts_parse_def rd_at_def list_all_iff)
  have "list_all2 (\<lambda>(n, a) m. answers_with m n a \<and> message_question m = (n, QueryTypeA, QueryClassIN)) (concat (map hline_entries ls)) ?msgs"
    using assms(1) hline_good(2) by (induction ls) (auto intro: list_all2_appendI)
  from last_entry [OF this assms(5)] obtain m where
    m: "map_of (rev (map (\<lambda>m. (message_question m, m)) ?msgs)) ?q = Some m" "answers_with m name addr" by blast
  obtain srv k where s: "populateCaches now (NewServer delay threshold) ?msgs 0 = Some (srv, k)" "srv_inv srv" "all_local srv"
    "out srv = []" "cache_map (caches srv) ?q = Some m"
    using populate_local [OF srv_inv_new new_server_local(1) assms(3), of delay threshold ?msgs 0 ?q] m(1)
    by (auto simp: NewServer_def)
  have lower: "ToLower name = name" using m by (auto simp: answers_with_def dest!: map_of_SomeD)
  have "isImplemented (message req)"
    using assms(4) by (simp add: isImplemented_def query_types QueryClassIN_def QueryClassCS_def QueryClassCH_def QueryClassHS_def)
  moreover have "cache_map (caches srv) (message_question (message req)) = Some m" using s(5) assms(4) by (simp add: message_question_def)
  ultimately obtain srv1 p where "processRequest now1 srv req = Some srv1" "out srv1 = [(writer req, p)]"
    "ReadUint16 p 0 = Some (ID (Header (message req)))" "drop 2 p = drop 2 (Packet m)"
    using local_served [OF s(2,3)] m(2) s(4) by (fastforce simp: answers_with_def)
  with parse s(1) m(2) lower show ?thesis unfolding answers_with_def by metis
qed

definition hosts1 :: "host_line list" where
  "hosts1 = [HComment [] (str '' local''), HEntry [] (IP_String [127, 0, 0, 1]) [([32], str ''a.b''), ([9], str ''B'')] None,
     HEntry [] (IP_String [10, 0, 0, 1]) [([32], str ''b'')] (Some ([32], str '' x''))]"

lemma hosts1_wf: "list_all hline_wf hosts1"
proof -
  have "host (str ''a.b'')" by (rule hostI [of "[[97], [98]]"]) (simp_all add: label_def plain_def str_def)
  moreover have "host (str ''B'')" "host (str ''b'')" by (rule hostI [of "[[98]]"]; simp add: label_def plain_def str_def)+
  ultimately have "host_name_ok (str ''a.b'')" "host_name_ok (str ''B'')" "host_name_ok (str ''b'')"
    by (simp_all add: host_name_ok_def IsHostnameValid_def str_def IsAlnum_def IsAlpha_def)
  moreover have "\<exists>ip. length ip = 4 \<and> IP_String [127, 0, 0, 1] = IP_String ip" "\<exists>ip. length ip = 4 \<and> IP_String [10, 0, 0, 1] = IP_String ip"
    by (rule exI [of _ "[127, 0, 0, 1]"], simp) (rule exI [of _ "[10, 0, 0, 1]"], simp)
  ultimately show ?thesis by (simp add: hosts1_def blanks_def host_seps_def) (simp add: str_def)
qed

theorem hosts_file_served_witness:
  "\<exists>msgs srv k srv1 p. hosts_parse (concat (map hline_text hosts1)) = Some msgs \<and>
    populateCaches 5 (NewServer 0 0) msgs 0 = Some (srv, k) \<and>
    processRequest 6 srv \<lparr>message = NewMessage\<lparr>Question := \<lparr>QName = str ''b'', QType = QueryTypeA, QClass = QueryClassIN\<rparr>\<rparr>, writer = 1\<rparr> =
      Some srv1 \<and> out srv1 = [(1, p)] \<and> ReadUint16 p 0 = Some 0"
proof -
  let ?req = "\<lparr>message = NewMessage\<lparr>Question := \<lparr>QName = str ''b'', QType = QueryTypeA, QClass = QueryClassIN\<rparr>\<rparr>, writer = 1\<rparr>"
  have "map_of (rev (concat (map hline_entries hosts1))) (str ''b'') = Some (IP_String [10, 0, 0, 1])"
    by (simp add: hosts1_def str_def)
  from hosts_file_served [OF hosts1_wf _ _ _ this, of "[]" 5 ?req 0 0 6] show ?thesis by (auto simp: NewMessage_def)
qed

subsection \<open>A blank at the end of a line\<close>

lemma ToLower_digits: "list_all IsDigit ds \<Longrightarrow> ToLower ds = ds"
  by (rule ToLower_fixed) (auto simp: list_all_iff IsDigit_def word_le_nat_alt)

lemma IP_String_host:
  assumes "length ip = 4"
  shows "host (IP_String ip)" "length (IP_String ip) \<le> 255"
proof -
  obtain a b c d where e: "IP_String ip = NetIP.decimal a @ [46] @ NetIP.decimal b @ [46] @ NetIP.decimal c @ [46] @ NetIP.decimal d"
    using IP_String_form [OF assms] by blast
  have l: "label (NetIP.decimal x) \<and> length (NetIP.decimal x) \<le> 3" for x
  proof -
    have "plain y" if "IsDigit y" for y using that by (auto simp: plain_def IsDigit_def word_le_nat_alt)
    then have "list_all plain (NetIP.decimal x)" using decimal_digits [of x] by (auto simp: list_all_iff)
    moreover have "length (NetIP.decimal x) \<le> 3" by (simp add: NetIP.decimal_def Let_def)
    ultimately show ?thesis using NetIP.decimal_props(2) [of x] by (simp add: label_def)
  qed
  have "ToLower (IP_String ip) = dotted [NetIP.decimal a, NetIP.decimal b, NetIP.decimal c, NetIP.decimal d]"
    using ToLower_digits [OF decimal_digits] by (simp add: e)
  then show "host (IP_String ip)" using l unfolding host_def hostname_def
    by (intro exI [of _ "[NetIP.decimal a, NetIP.decimal b, NetIP.decimal c, NetIP.decimal d]"]) simp
  show "length (IP_String ip) \<le> 255" using l [of a] l [of b] l [of c] l [of d] by (simp add: e)
qed

text \<open>
  A blank at the end of a line of a hosts file joins it with the next line: the address of the next
  line is taken for a name of the first one, and the name of the next line gets the address of the
  first one.
\<close>

theorem hosts_trailing_blank:
  assumes "length ip = 4" "length ip2 = 4" "host_name_ok n" "host_name_ok m"
  shows "\<exists>msgs. hosts_parse (IP_String ip @ [32] @ n @ [32, 10] @ IP_String ip2 @ [32] @ m @ [10]) = Some msgs \<and> msgs \<noteq> [] \<and>
    answers_with (hd msgs) n (IP_String ip) \<and> answers_with (last msgs) m (IP_String ip)"
proof -
  let ?a = "IP_String ip" and ?b = "IP_String ip2"
  have b: "newMessage ?a ?b \<noteq> None"
  proof (cases "IsHostnameValid ?b False")
    case True
    then have "host_name_ok ?b" using IP_String_host [OF assms(2)] by (simp add: host_name_ok_def)
    then show ?thesis using newMessage_good [OF assms(1)] by fastforce
  qed (simp add: newMessage_def)
  from newMessage_good [OF assms(1,3)] obtain m1 where m1: "newMessage ?a n = Some (Some m1)" "answers_with m1 n ?a" by blast
  from newMessage_good [OF assms(1,4)] obtain m2 where m2: "newMessage ?a m = Some (Some m2)" "answers_with m2 m ?a" by blast
  let ?l = "HEntry [] ?a [([32], n), ([32, 10], ?b), ([32], m)] None"
  have "hline_ok ?l" using b m1(1) m2(1) IP_String_token(1) [OF assms(1)] IP_String_token(1) [OF assms(2)] assms(3,4) valid_token
    by (auto simp: names_ok_def gap_def host_seps_def IsSpace_def host_name_ok_def)
  then have "hosts_parse (hline_text ?l) = Some (hline_msgs ?l)"
    using hosts_loop_at [of "[?l]" "[]" "[]" "[]"] by (simp add: hosts_parse_def rd_at_def)
  moreover have "\<exists>xs. hline_msgs ?l = m1 # xs @ [m2]" using m1(1) m2(1) by (simp add: entry_msgs_def split: option.splits)
  ultimately show ?thesis using m1(2) m2(2) by (auto simp: names_text_def)
qed

theorem hosts_trailing_blank_witness:
  "\<exists>msgs. hosts_parse (IP_String [127, 0, 0, 1] @ [32] @ str ''a'' @ [32, 10] @ IP_String [10, 0, 0, 1] @ [32] @ str ''b'' @ [10]) = Some msgs \<and>
    msgs \<noteq> [] \<and> answers_with (hd msgs) (str ''a'') (IP_String [127, 0, 0, 1]) \<and> answers_with (last msgs) (str ''b'') (IP_String [127, 0, 0, 1])"
proof (rule hosts_trailing_blank)
  have "host (str ''a'')" by (rule hostI [of "[[97]]"]) (simp_all add: label_def plain_def str_def)
  then show "host_name_ok (str ''a'')" by (simp add: host_name_ok_def IsHostnameValid_def str_def IsAlnum_def IsAlpha_def)
  have "host (str ''b'')" by (rule hostI [of "[[98]]"]) (simp_all add: label_def plain_def str_def)
  then show "host_name_ok (str ''b'')" by (simp add: host_name_ok_def IsHostnameValid_def str_def IsAlnum_def IsAlpha_def)
qed simp_all

end
